(* ===== verification/Prelude.thy ===== *)
theory Prelude
  imports Main "HOL-Library.Word"
begin

text \<open>
  Shared vocabulary of the KacheDB development: the machine-integer and byte types of the
  Rust sources, the outcome type of fallible operations (a returned value, a returned error,
  a panic), the lemma collections that the component theories extend, and the generic facts
  about masks, rings of slots and lists that several components use.
\<close>

unbundle bit_operations_syntax

section \<open>Types of the sources\<close>

type_synonym u8 = "8 word"
type_synonym u16 = "16 word"
type_synonym u32 = "32 word"
type_synonym u64 = "64 word"
type_synonym bytes = "u8 list"

text \<open>
  A Rust function of type \<open>Result<T, E>\<close> that may also panic: \<open>Ok\<close> and \<open>Err\<close> are the two
  constructors of \<open>Result\<close>, \<open>Panic\<close> is the unwinding path (\<open>panic!\<close>, a failed bounds check).
\<close>

datatype ('a, 'e) outcome = Ok 'a | Err 'e | Panic string

fun is_ok :: "('a, 'e) outcome \<Rightarrow> bool" where
  "is_ok (Ok _) = True"
| "is_ok _ = False"

text \<open>The \<open>?\<close> operator and \<open>.ok()\<close>.\<close>

fun and_then :: "('a, 'e) outcome \<Rightarrow> ('a \<Rightarrow> ('b, 'e) outcome) \<Rightarrow> ('b, 'e) outcome" where
  "and_then (Ok x) f = f x"
| "and_then (Err e) f = Err e"
| "and_then (Panic m) f = Panic m"

fun ok_of :: "('a, 'e) outcome \<Rightarrow> 'a option" where
  "ok_of (Ok x) = Some x"
| "ok_of _ = None"

section \<open>Lemma collections\<close>

named_theorems geometry \<open>slot geometry of the megaslabs: sizes, capacities, offsets\<close>
named_theorems inv_defs \<open>definitions of the component invariants\<close>
named_theorems op_defs \<open>definitions of the component operations\<close>

section \<open>Masks and rings\<close>

text \<open>\<open>x & (capacity - 1)\<close> on a power-of-two capacity is the remainder.\<close>

lemma nat_and_mask: "(x::nat) AND (2 ^ n - 1) = x mod 2 ^ n"
  by (metis mask_eq_exp_minus_1 take_bit_eq_mask take_bit_eq_mod)

lemma nat_and_pow2_mask:
  assumes "cap = 2 ^ n"
  shows "(x::nat) AND (cap - 1) = x mod cap"
  unfolding assms by (rule nat_and_mask)

lemma unat_ucast_16_32 [simp]: "unat (ucast (x :: u16) :: u32) = unat x"
proof -
  have "unat x < 2 ^ 32"
    using unsigned_less [of x, where ?'a = nat] by simp
  then show ?thesis
    by (simp add: unsigned_ucast_eq take_bit_nat_eq_self)
qed

lemma ucast_16_32_16 [simp]: "ucast (ucast (x :: u16) :: u32) = x"
  by (rule bit_word_eqI) (simp add: bit_simps)

section \<open>Bit length and powers of two\<close>

fun bit_length :: "nat \<Rightarrow> nat" where
  "bit_length n = (if n = 0 then 0 else Suc (bit_length (n div 2)))"

declare bit_length.simps [simp del]

text \<open>\<open>usize::next_power_of_two\<close> (on values whose result fits the width).\<close>

definition next_power_of_two :: "nat \<Rightarrow> nat" where
  "next_power_of_two n = (if n \<le> 1 then 1 else 2 ^ bit_length (n - 1))"

lemma bit_length_bounds:
  assumes "0 < n"
  shows "2 ^ (bit_length n - 1) \<le> n" and "n < 2 ^ bit_length n"
proof -
  have "0 < n \<longrightarrow> 0 < bit_length n \<and> 2 ^ (bit_length n - 1) \<le> n \<and> n < 2 ^ bit_length n"
  proof (induction n rule: bit_length.induct)
    case (1 n)
    show ?case
    proof (cases "n div 2 = 0")
      case True
      then consider "n = 0" | "n = 1" by linarith
      then show ?thesis
        by cases (simp_all add: bit_length.simps [of "Suc 0"] bit_length.simps [of 0])
    next
      case False
      then have n: "n \<noteq> 0" by (rule contrapos_nn) simp
      from False have "0 < n div 2" by simp
      with 1 [OF n] have IH: "0 < bit_length (n div 2)"
        "2 ^ (bit_length (n div 2) - 1) \<le> n div 2" "n div 2 < 2 ^ bit_length (n div 2)"
        by blast+
      obtain k where k: "bit_length (n div 2) = Suc k"
        using IH(1) gr0_implies_Suc by blast
      have bl: "bit_length n = Suc (Suc k)"
        using n k by (subst bit_length.simps) simp
      have "2 ^ Suc k \<le> n" "n < 2 ^ Suc (Suc k)"
        using IH(2,3) k by simp_all
      then show ?thesis by (simp add: bl)
    qed
  qed
  with assms show "2 ^ (bit_length n - 1) \<le> n" and "n < 2 ^ bit_length n" by auto
qed

lemma bit_length_le:
  assumes "n < 2 ^ k"
  shows "bit_length n \<le> k"
proof (cases "n = 0")
  case True
  then show ?thesis by (simp add: bit_length.simps)
next
  case False
  then have "(2::nat) ^ (bit_length n - 1) < 2 ^ k"
    using bit_length_bounds(1) [of n] assms by (meson le_less_trans neq0_conv)
  then have "bit_length n - 1 < k"
    by (rule power_less_imp_less_exp [rotated]) simp
  then show ?thesis by simp
qed

lemma next_power_of_two_ge: "n \<le> next_power_of_two n"
  using bit_length_bounds(2) [of "n - 1"] by (auto simp: next_power_of_two_def)

lemma next_power_of_two_pow: "\<exists>k. next_power_of_two n = 2 ^ k"
  unfolding next_power_of_two_def by (metis power_0)

lemma bit_length_pow2_pred: "bit_length (2 ^ k - 1) = k"
proof (induction k)
  case 0
  then show ?case by (simp add: bit_length.simps)
next
  case (Suc k)
  have "(2 ^ Suc k - 1) div 2 = (2 ^ k - 1 :: nat)" by (simp add: div2_Suc_Suc)
  moreover have "2 ^ Suc k - 1 \<noteq> (0::nat)"
    by (metis One_nat_def Suc_eq_plus1 diff_is_0_eq le_less_Suc_eq not_less one_less_numeral_iff one_less_power semiring_norm(76) zero_less_Suc)
  ultimately show ?case
    using Suc by (metis bit_length.simps)
qed

lemma next_power_of_two_pow2 [simp]: "next_power_of_two (2 ^ k) = 2 ^ k"
proof (cases k)
  case 0
  then show ?thesis by (simp add: next_power_of_two_def)
next
  case (Suc n)
  then have "\<not> (2::nat) ^ k \<le> 1"
    by (metis not_less one_less_numeral_iff one_less_power semiring_norm(76) zero_less_Suc)
  then show ?thesis by (metis bit_length_pow2_pred next_power_of_two_def)
qed

end
