(* ===== verification/Slab.thy ===== *)
theory Slab
  imports Prelude
begin

text \<open>
  \<open>crates/kachedb-core/src/slab.rs\<close>: the slab size classes, their slot sizes and the number of
  slots of a 2 MB megaslab. Lemmas: every class is cache-line aligned and fits a 16-bit slot
  index, the payload of every slot lies inside the megaslab (with the one exception of
  \<open>Tensor2MB\<close>), and \<open>for_size\<close> picks the smallest class that fits.
\<close>

section \<open>Constants\<close>

definition CACHE_LINE_BYTES :: nat where
  "CACHE_LINE_BYTES = 64"

definition MEGASLAB_BYTES :: nat where
  "MEGASLAB_BYTES = 2 * 1024 * 1024"

definition CHUNK_BYTES :: nat where
  "CHUNK_BYTES = 4 * 1024 * 1024"

definition MEGASLAB_HEADER_BYTES :: nat where
  "MEGASLAB_HEADER_BYTES = CACHE_LINE_BYTES"

definition MEGASLAB_PAYLOAD_BYTES :: nat where
  "MEGASLAB_PAYLOAD_BYTES = MEGASLAB_BYTES - MEGASLAB_HEADER_BYTES"

definition APP_SMALL_BYTES :: nat where
  "APP_SMALL_BYTES = 128"

definition APP_MEDIUM_BYTES :: nat where
  "APP_MEDIUM_BYTES = 512"

definition APP_LARGE_BYTES :: nat where
  "APP_LARGE_BYTES = 4 * 1024"

definition TENSOR_SMALL_BYTES :: nat where
  "TENSOR_SMALL_BYTES = 64 * 1024"

definition TENSOR_MEDIUM_BYTES :: nat where
  "TENSOR_MEDIUM_BYTES = 256 * 1024"

definition TENSOR_LARGE_BYTES :: nat where
  "TENSOR_LARGE_BYTES = 2 * 1024 * 1024"

lemmas slab_consts [geometry] =
  CACHE_LINE_BYTES_def MEGASLAB_BYTES_def MEGASLAB_HEADER_BYTES_def MEGASLAB_PAYLOAD_BYTES_def
  APP_SMALL_BYTES_def APP_MEDIUM_BYTES_def APP_LARGE_BYTES_def
  TENSOR_SMALL_BYTES_def TENSOR_MEDIUM_BYTES_def TENSOR_LARGE_BYTES_def

section \<open>Slab classes\<close>

datatype SlabClassType = AppSmall | AppMedium | AppLarge | Tensor64KB | Tensor256KB | Tensor2MB

text \<open>The \<open>#[repr(u8)]\<close> discriminants, as \<open>class as u8\<close> writes them into a megaslab header.\<close>

fun class_discriminant :: "SlabClassType \<Rightarrow> u8" where
  "class_discriminant AppSmall = 0"
| "class_discriminant AppMedium = 1"
| "class_discriminant AppLarge = 2"
| "class_discriminant Tensor64KB = 10"
| "class_discriminant Tensor256KB = 11"
| "class_discriminant Tensor2MB = 12"

fun slot_bytes :: "SlabClassType \<Rightarrow> nat" where
  "slot_bytes AppSmall = APP_SMALL_BYTES"
| "slot_bytes AppMedium = APP_MEDIUM_BYTES"
| "slot_bytes AppLarge = APP_LARGE_BYTES"
| "slot_bytes Tensor64KB = TENSOR_SMALL_BYTES"
| "slot_bytes Tensor256KB = TENSOR_MEDIUM_BYTES"
| "slot_bytes Tensor2MB = TENSOR_LARGE_BYTES"

definition slots_per_megaslab :: "SlabClassType \<Rightarrow> nat" where
  "slots_per_megaslab c =
     (case c of Tensor2MB \<Rightarrow> 1 | _ \<Rightarrow> MEGASLAB_PAYLOAD_BYTES div slot_bytes c)"

fun is_tensor :: "SlabClassType \<Rightarrow> bool" where
  "is_tensor Tensor64KB = True"
| "is_tensor Tensor256KB = True"
| "is_tensor Tensor2MB = True"
| "is_tensor _ = False"

definition for_size :: "nat \<Rightarrow> SlabClassType option" where
  "for_size n =
     (if n \<le> APP_SMALL_BYTES then Some AppSmall
      else if n \<le> APP_MEDIUM_BYTES then Some AppMedium
      else if n \<le> APP_LARGE_BYTES then Some AppLarge
      else if n \<le> TENSOR_SMALL_BYTES then Some Tensor64KB
      else if n \<le> TENSOR_MEDIUM_BYTES then Some Tensor256KB
      else if n \<le> TENSOR_LARGE_BYTES then Some Tensor2MB
      else None)"

record SlabClass =
  sc_class_type :: SlabClassType
  sc_slot_bytes :: nat
  sc_slots_per_megaslab :: nat

definition SlabClass_new :: "SlabClassType \<Rightarrow> SlabClass" where
  "SlabClass_new c =
     \<lparr>sc_class_type = c, sc_slot_bytes = slot_bytes c,
      sc_slots_per_megaslab = slots_per_megaslab c\<rparr>"

text \<open>Byte offset of a slot's payload from the base of its megaslab (\<open>MegaslabArena::slot_ptr\<close>).\<close>

definition slot_offset :: "SlabClassType \<Rightarrow> nat \<Rightarrow> nat" where
  "slot_offset c i = MEGASLAB_HEADER_BYTES + i * slot_bytes c"

section \<open>Geometry\<close>

lemma slots_per_megaslab_simps [simp]:
  "slots_per_megaslab AppSmall = 16383"
  "slots_per_megaslab AppMedium = 4095"
  "slots_per_megaslab AppLarge = 511"
  "slots_per_megaslab Tensor64KB = 31"
  "slots_per_megaslab Tensor256KB = 7"
  "slots_per_megaslab Tensor2MB = 1"
  by (simp_all add: slots_per_megaslab_def geometry)

lemma slots_per_megaslab_pos [simp]: "0 < slots_per_megaslab c"
  by (cases c) simp_all

lemma slots_per_megaslab_u16: "slots_per_megaslab c < 2 ^ 16"
  by (cases c) simp_all

lemma slot_bytes_pos [simp]: "0 < slot_bytes c"
  by (cases c) (simp_all add: geometry)

lemma slot_bytes_aligned: "CACHE_LINE_BYTES dvd slot_bytes c"
  by (cases c) (simp_all add: geometry)

lemma slot_offset_aligned: "CACHE_LINE_BYTES dvd slot_offset c i"
  using slot_bytes_aligned [of c]
  by (simp add: slot_offset_def MEGASLAB_HEADER_BYTES_def)

text \<open>Two different slots of one class never overlap.\<close>

lemma slot_offset_disjoint:
  assumes "i < j"
  shows "slot_offset c i + slot_bytes c \<le> slot_offset c j"
proof -
  have "Suc i * slot_bytes c \<le> j * slot_bytes c"
    using assms by (intro mult_right_mono) simp_all
  then show ?thesis by (simp add: slot_offset_def)
qed

lemma slot_offset_fits:
  assumes "i < slots_per_megaslab c" and "c \<noteq> Tensor2MB"
  shows "slot_offset c i + slot_bytes c \<le> MEGASLAB_BYTES"
proof -
  have "Suc i * slot_bytes c \<le> slots_per_megaslab c * slot_bytes c"
    using assms(1) by (intro mult_right_mono) simp_all
  moreover have "slots_per_megaslab c * slot_bytes c \<le> MEGASLAB_PAYLOAD_BYTES"
    using assms(2) by (cases c) (simp_all add: geometry)
  ultimately have "Suc i * slot_bytes c \<le> MEGASLAB_PAYLOAD_BYTES"
    by (rule order_trans)
  then show ?thesis by (simp add: slot_offset_def geometry)
qed

lemma slot_offset_tensor2mb: "slot_offset Tensor2MB 0 + slot_bytes Tensor2MB = MEGASLAB_BYTES + 64"
  by (simp add: slot_offset_def geometry)

section \<open>Properties\<close>

text \<open>Slot layout: for every class but \<open>Tensor2MB\<close>, each slot of a megaslab starts after the
  header on a cache-line boundary, ends inside the megaslab, and lies after every lower slot.\<close>

theorem slot_layout:
  assumes "c \<noteq> Tensor2MB" and "i < slots_per_megaslab c"
  shows "MEGASLAB_HEADER_BYTES \<le> slot_offset c i \<and> CACHE_LINE_BYTES dvd slot_offset c i \<and>
    slot_offset c i + slot_bytes c \<le> MEGASLAB_BYTES \<and>
    (\<forall>j. j < i \<longrightarrow> slot_offset c j + slot_bytes c \<le> slot_offset c i)"
  using slot_offset_fits [OF assms(2,1)] slot_offset_aligned slot_offset_disjoint
  by (simp add: slot_offset_def)

theorem slot_layout_witness:
  "slot_offset AppLarge 510 + slot_bytes AppLarge \<le> MEGASLAB_BYTES"
  using slot_layout [of AppLarge 510] by simp

text \<open>The one slot of a \<open>Tensor2MB\<close> megaslab ends 64 bytes past the 2 MB allocation: the payload
  is as large as the whole megaslab and starts after the header.\<close>

theorem tensor2mb_slot_overruns:
  "slots_per_megaslab Tensor2MB = 1 \<and>
   slot_offset Tensor2MB 0 + slot_bytes Tensor2MB = MEGASLAB_BYTES + MEGASLAB_HEADER_BYTES"
  using slot_offset_tensor2mb by (simp add: geometry)

text \<open>Class selection: \<open>for_size\<close> returns the smallest class whose slots hold the requested size,
  and refuses exactly the sizes above 2 MB.\<close>

theorem for_size_smallest:
  "(case for_size n of
      Some c \<Rightarrow> n \<le> slot_bytes c \<and> (\<forall>d. slot_bytes d < slot_bytes c \<longrightarrow> slot_bytes d < n)
    | None \<Rightarrow> (\<forall>d. slot_bytes d < n))"
proof -
  have all: "(\<forall>d. P d) \<longleftrightarrow> P AppSmall \<and> P AppMedium \<and> P AppLarge \<and> P Tensor64KB \<and> P Tensor256KB \<and> P Tensor2MB"
    for P by (metis SlabClassType.exhaust)
  show ?thesis by (auto simp: for_size_def all geometry)
qed

theorem for_size_smallest_witness: "for_size 513 = Some AppLarge \<and> slot_bytes AppMedium < 513"
  using for_size_smallest [of 513] by (simp add: for_size_def geometry)

end
