(* ===== verification/Registry.thy ===== *)
theory Registry
  imports Slab
begin

text \<open>
  \<open>crates/kachedb-core/src/registry.rs\<close> and the \<open>SlabBlockId\<close> handle of \<open>arena.rs\<close>: packing a
  slab id and a slot index into 32 bits, the global id counter, and the global table that maps
  a slab id to the base address and slot size of its megaslab. Lemmas: packing round trips and
  is injective, the counter hands out distinct ids until it panics, and \<open>resolve_slot_ptr\<close> is
  correct for registered slabs and is \<open>None\<close> for unregistered ones.
\<close>

section \<open>Block handles\<close>

datatype SlabBlockId = SlabBlockId (raw_id: u32)

definition SlabBlockId_new :: "u16 \<Rightarrow> u16 \<Rightarrow> SlabBlockId" where
  "SlabBlockId_new slab slot = SlabBlockId (push_bit 16 (ucast slab) OR ucast slot)"

definition slab_id :: "SlabBlockId \<Rightarrow> u16" where
  "slab_id b = ucast (drop_bit 16 (raw_id b))"

definition slot_index :: "SlabBlockId \<Rightarrow> u16" where
  "slot_index b = ucast (raw_id b AND 0xFFFF)"

section \<open>The global registry\<close>

definition MAX_GLOBAL_SLABS :: nat where
  "MAX_GLOBAL_SLABS = 16384"

record ArenaEntry =
  base_ptr :: u64
  ae_slot_bytes :: u32

definition ArenaEntry_new :: ArenaEntry where
  "ArenaEntry_new = \<lparr>base_ptr = 0, ae_slot_bytes = 0\<rparr>"

text \<open>
  The two statics: the counter and the array of \<open>MAX_GLOBAL_SLABS\<close> entries (a function whose
  uses are all guarded by the array's length). The null pointer is 0.
\<close>

record Registry =
  next_global_slab_id :: u16
  global_arenas :: "nat \<Rightarrow> ArenaEntry"

definition Registry_init :: Registry where
  "Registry_init = \<lparr>next_global_slab_id = 1, global_arenas = (\<lambda>_. ArenaEntry_new)\<rparr>"

text \<open>\<open>fetch_add\<close> returns the old value and wraps; the counter moves even when the call panics.\<close>

definition allocate_global_slab_id :: "Registry \<Rightarrow> Registry \<times> (u16, unit) outcome" where
  "allocate_global_slab_id r =
     (let i = next_global_slab_id r; r' = r\<lparr>next_global_slab_id := i + 1\<rparr>
      in if unat i \<ge> MAX_GLOBAL_SLABS
         then (r', Panic ''Exceeded maximum global slab arenas'')
         else (r', Ok i))"

definition register_arena :: "u16 \<Rightarrow> u64 \<Rightarrow> nat \<Rightarrow> Registry \<Rightarrow> Registry" where
  "register_arena sid p sb r =
     (let idx = unat sid
      in if idx < MAX_GLOBAL_SLABS
         then r\<lparr>global_arenas := (global_arenas r)(idx := \<lparr>base_ptr = p, ae_slot_bytes = of_nat sb\<rparr>)\<rparr>
         else r)"

definition unregister_arena :: "u16 \<Rightarrow> Registry \<Rightarrow> Registry" where
  "unregister_arena sid r =
     (let idx = unat sid
      in if idx < MAX_GLOBAL_SLABS
         then r\<lparr>global_arenas := (global_arenas r)(idx := \<lparr>base_ptr = 0, ae_slot_bytes = 0\<rparr>)\<rparr>
         else r)"

definition resolve_slot_ptr :: "SlabBlockId \<Rightarrow> Registry \<Rightarrow> u64 option" where
  "resolve_slot_ptr b r =
     (let s = unat (slab_id b)
      in if s < MAX_GLOBAL_SLABS
         then (let base = base_ptr (global_arenas r s)
               in if base \<noteq> 0
                  then (let slot_size = unat (ae_slot_bytes (global_arenas r s));
                            offset = MEGASLAB_HEADER_BYTES + unat (slot_index b) * slot_size
                        in Some (base + of_nat offset))
                  else None)
         else None)"

section \<open>Lemmas\<close>

lemma slab_id_new [simp]: "slab_id (SlabBlockId_new s i) = s"
  by (rule bit_word_eqI) (auto simp: slab_id_def SlabBlockId_new_def bit_simps dest: bit_imp_le_length)

lemma slot_index_new [simp]: "slot_index (SlabBlockId_new s i) = i"
proof -
  have m: "(0xFFFF :: u32) = mask 16"
    by (simp add: mask_eq_exp_minus_1)
  show ?thesis
    by (rule bit_word_eqI) (auto simp: slot_index_def SlabBlockId_new_def m bit_simps)
qed

lemma SlabBlockId_new_eta [simp]: "SlabBlockId_new (slab_id b) (slot_index b) = b"
proof -
  have m: "(0xFFFF :: u32) = mask 16"
    by (simp add: mask_eq_exp_minus_1)
  have "push_bit 16 (ucast (slab_id b)) OR ucast (slot_index b) = raw_id b"
    by (rule bit_word_eqI) (auto simp: slab_id_def slot_index_def m bit_simps)
  then show ?thesis
    by (simp add: SlabBlockId_new_def)
qed

lemma SlabBlockId_new_inject [simp]:
  "SlabBlockId_new s i = SlabBlockId_new t j \<longleftrightarrow> s = t \<and> i = j"
  by (metis slab_id_new slot_index_new)

lemma block_eq_iff: "b = c \<longleftrightarrow> slab_id b = slab_id c \<and> unat (slot_index b) = unat (slot_index c)"
  by (metis SlabBlockId_new_eta word_unat_eq_iff)

lemma allocate_global_slab_id_ok:
  assumes "allocate_global_slab_id r = (r', Ok i)"
  shows "i = next_global_slab_id r" and "unat i < MAX_GLOBAL_SLABS"
    and "unat (next_global_slab_id r') = Suc (unat i)" and "global_arenas r' = global_arenas r"
proof -
  from assms show i: "i = next_global_slab_id r" and lt: "unat i < MAX_GLOBAL_SLABS"
    and "global_arenas r' = global_arenas r"
    by (auto simp: allocate_global_slab_id_def Let_def split: if_splits)
  from assms have "next_global_slab_id r' = i + 1"
    by (auto simp: allocate_global_slab_id_def Let_def split: if_splits)
  with lt show "unat (next_global_slab_id r') = Suc (unat i)"
    by (simp add: MAX_GLOBAL_SLABS_def unat_word_ariths)
qed

lemma resolve_registered:
  assumes "unat sid < MAX_GLOBAL_SLABS" and "p \<noteq> 0" and "slab_id b = sid" and "sb < 2 ^ 32"
  shows "resolve_slot_ptr b (register_arena sid p sb r) =
     Some (p + of_nat (MEGASLAB_HEADER_BYTES + unat (slot_index b) * sb))"
  using assms by (simp add: resolve_slot_ptr_def register_arena_def Let_def unat_of_nat)

lemma resolve_unregistered:
  assumes "slab_id b = sid"
  shows "resolve_slot_ptr b (unregister_arena sid r) = None"
  using assms by (simp add: resolve_slot_ptr_def unregister_arena_def Let_def)

lemma resolve_register_other:
  assumes "slab_id b \<noteq> sid"
  shows "resolve_slot_ptr b (register_arena sid p sb r) = resolve_slot_ptr b r"
  using assms by (simp add: resolve_slot_ptr_def register_arena_def Let_def word_unat_eq_iff)

lemma resolve_unregister_other:
  assumes "slab_id b \<noteq> sid"
  shows "resolve_slot_ptr b (unregister_arena sid r) = resolve_slot_ptr b r"
  using assms by (simp add: resolve_slot_ptr_def unregister_arena_def Let_def word_unat_eq_iff)

lemma next_id_register [simp]:
  "next_global_slab_id (register_arena sid p sb r) = next_global_slab_id r"
  "next_global_slab_id (unregister_arena sid r) = next_global_slab_id r"
  by (simp_all add: register_arena_def unregister_arena_def Let_def)

section \<open>Properties\<close>

text \<open>Handle packing: the slab id and the slot index of a block id are exactly the two halves it
  was built from, and a block id is determined by them.\<close>

theorem block_id_roundtrip:
  "slab_id (SlabBlockId_new s i) = s \<and> slot_index (SlabBlockId_new s i) = i \<and>
   SlabBlockId_new (slab_id b) (slot_index b) = b"
  by simp

end
