(* ===== verification/Allocator_Spec.thy ===== *)
theory Allocator_Spec
  imports Prelude
begin

text \<open>
  The interface of a slot allocator, as the slab arena promises it and the slab pool relies on
  it: a live set, the room that is left, fresh handles on allocation, failure exactly when
  there is no room. The lemmas of the locale are what a client gets: a run of allocations
  hands out pairwise distinct handles, succeeds as long as there is room, and releasing what
  was just allocated restores the live set.
\<close>

text \<open>A client that allocates \<open>n\<close> times in a row, stopping at the first failure.\<close>

fun allocs :: "('a \<Rightarrow> ('a \<times> 'b) option) \<Rightarrow> nat \<Rightarrow> 'a \<Rightarrow> ('a \<times> 'b list) option" where
  "allocs f 0 a = Some (a, [])"
| "allocs f (Suc n) a =
     (case f a of None \<Rightarrow> None
      | Some (a', b) \<Rightarrow> (case allocs f n a' of None \<Rightarrow> None | Some (a'', bs) \<Rightarrow> Some (a'', b # bs)))"

locale slot_allocator =
  fixes alloc :: "'a \<Rightarrow> ('a \<times> 'b) option"
    and release :: "'b \<Rightarrow> 'a \<Rightarrow> 'a"
    and live :: "'a \<Rightarrow> 'b set"
    and room :: "'a \<Rightarrow> nat"
    and invar :: "'a \<Rightarrow> bool"
  assumes alloc_fresh: "invar a \<Longrightarrow> alloc a = Some (a', b) \<Longrightarrow> b \<notin> live a"
    and alloc_live: "invar a \<Longrightarrow> alloc a = Some (a', b) \<Longrightarrow> live a' = insert b (live a)"
    and alloc_invar: "invar a \<Longrightarrow> alloc a = Some (a', b) \<Longrightarrow> invar a'"
    and alloc_room: "invar a \<Longrightarrow> alloc a = Some (a', b) \<Longrightarrow> room a = Suc (room a')"
    and alloc_none: "invar a \<Longrightarrow> alloc a = None \<longleftrightarrow> room a = 0"
    and release_live: "invar a \<Longrightarrow> b \<in> live a \<Longrightarrow> live (release b a) = live a - {b}"
    and release_invar: "invar a \<Longrightarrow> b \<in> live a \<Longrightarrow> invar (release b a)"
    and release_room: "invar a \<Longrightarrow> b \<in> live a \<Longrightarrow> room (release b a) = Suc (room a)"
begin

lemma alloc_release:
  assumes "invar a" and "alloc a = Some (a', b)"
  shows "live (release b a') = live a" and "room (release b a') = room a" and "invar (release b a')"
proof -
  have inv': "invar a'" and l: "live a' = insert b (live a)" and f: "b \<notin> live a"
    using assms alloc_invar alloc_live alloc_fresh by blast+
  then have b: "b \<in> live a'" by simp
  show "live (release b a') = live a"
    using release_live [OF inv' b] l f by auto
  show "room (release b a') = room a"
    using release_room [OF inv' b] alloc_room [OF assms] by simp
  show "invar (release b a')"
    using release_invar [OF inv' b] .
qed

lemma allocs_spec:
  assumes "invar a" and "allocs alloc n a = Some (a', bs)"
  shows "distinct bs \<and> length bs = n \<and> set bs \<inter> live a = {} \<and> live a' = live a \<union> set bs \<and>
    invar a' \<and> room a = room a' + n"
  using assms
proof (induction n arbitrary: a bs)
  case 0
  then show ?case by simp
next
  case (Suc n)
  from Suc.prems(2) obtain a1 b bs1 where step: "alloc a = Some (a1, b)"
    and rest: "allocs alloc n a1 = Some (a', bs1)" and bs: "bs = b # bs1"
    by (auto split: option.splits)
  note one = alloc_fresh [OF Suc.prems(1) step] alloc_live [OF Suc.prems(1) step]
    alloc_invar [OF Suc.prems(1) step] alloc_room [OF Suc.prems(1) step]
  show ?case
    using Suc.IH [OF one(3) rest] one bs by auto
qed

lemma allocs_total:
  assumes "invar a"
  shows "(\<exists>r. allocs alloc n a = Some r) \<longleftrightarrow> n \<le> room a"
  using assms
proof (induction n arbitrary: a)
  case 0
  then show ?case by simp
next
  case (Suc n)
  show ?case
  proof (cases "alloc a")
    case None
    then show ?thesis using alloc_none [OF Suc.prems] by simp
  next
    case (Some r)
    then obtain a1 b where step: "alloc a = Some (a1, b)" by (cases r) auto
    have "(\<exists>r. allocs alloc (Suc n) a = Some r) \<longleftrightarrow> (\<exists>r. allocs alloc n a1 = Some r)"
      using step by (auto split: option.splits)
    also have "\<dots> \<longleftrightarrow> n \<le> room a1"
      by (rule Suc.IH [OF alloc_invar [OF Suc.prems step]])
    finally show ?thesis
      using alloc_room [OF Suc.prems step] by simp
  qed
qed

end

end
