(* ===== verification/Arena.thy ===== *)
theory Arena
  imports Registry Allocator_Spec
begin

text \<open>
  \<open>crates/kachedb-core/src/arena.rs\<close> and \<open>error.rs\<close>: one 2 MB megaslab with its header, bump
  pointer, free list and recycle cursor. The interface of the allocator is the locale
  \<open>slot_allocator\<close> (slots handed out are fresh, released slots leave the live set, the
  allocator fails exactly when it is full), interpreted on the arena's own operations.
\<close>

section \<open>Errors\<close>

datatype CoreError =
    PoolExhausted SlabClassType
  | InvalidBlockId u32
  | OsAllocFailed string
  | AffinityFailed nat string

section \<open>The arena\<close>

definition MEGASLAB_MAGIC :: u32 where
  "MEGASLAB_MAGIC = 0x4B414348"

record MegaslabHeader =
  magic :: u32
  hdr_slab_id :: u32
  hdr_class_type :: u8
  total_slots :: nat
  allocated_slots :: u32
  owning_core :: u16

text \<open>
  \<open>next_free_slot\<close>, \<open>capacity\<close>, the free list and the recycle cursor are \<open>u32\<close> in the code;
  they stay below 16384 (\<open>arena_inv\<close>, \<open>slots_per_megaslab_u16\<close>), so they are naturals here.
  The live counter \<open>allocated_slots\<close> keeps its width: \<open>fetch_sub\<close> wraps.
\<close>

record MegaslabArena =
  base :: u64
  arena_class :: SlabClassType
  arena_slab_id :: u16
  next_free_slot :: nat
  capacity :: nat
  free_slots :: "nat list"
  recycle_cursor :: nat
  header :: MegaslabHeader

text \<open>
  \<open>ptr\<close> is what \<open>alloc_zeroed\<close> returned (0 is null). The zeroed memory leaves
  \<open>allocated_slots\<close> at 0. Registration in the global table is part of the constructor.
\<close>

definition MegaslabArena_new ::
    "SlabClassType \<Rightarrow> u16 \<Rightarrow> u16 \<Rightarrow> u64 \<Rightarrow> Registry \<Rightarrow> Registry \<times> (MegaslabArena, CoreError) outcome" where
  "MegaslabArena_new c sid core ptr r =
     (if ptr = 0 then (r, Err (OsAllocFailed ''alloc_zeroed returned null''))
      else (let cap = slots_per_megaslab c
            in (register_arena sid ptr (slot_bytes c) r,
                Ok \<lparr>base = ptr, arena_class = c, arena_slab_id = sid, next_free_slot = 0,
                    capacity = cap, free_slots = [], recycle_cursor = 0,
                    header = \<lparr>magic = MEGASLAB_MAGIC, hdr_slab_id = ucast sid,
                              hdr_class_type = class_discriminant c, total_slots = cap,
                              allocated_slots = 0, owning_core = core\<rparr>\<rparr>)))"

definition bump_allocated :: "MegaslabArena \<Rightarrow> MegaslabArena" where
  "bump_allocated a = a\<lparr>header := (header a)\<lparr>allocated_slots := allocated_slots (header a) + 1\<rparr>\<rparr>"

definition drop_allocated :: "MegaslabArena \<Rightarrow> MegaslabArena" where
  "drop_allocated a = a\<lparr>header := (header a)\<lparr>allocated_slots := allocated_slots (header a) - 1\<rparr>\<rparr>"

definition arena_allocate :: "MegaslabArena \<Rightarrow> MegaslabArena \<times> (SlabBlockId, CoreError) outcome" where
  "arena_allocate a =
     (if free_slots a \<noteq> []
      then (let idx = last (free_slots a)
            in (bump_allocated (a\<lparr>free_slots := butlast (free_slots a)\<rparr>),
                Ok (SlabBlockId_new (arena_slab_id a) (of_nat idx))))
      else if next_free_slot a < capacity a
      then (let idx = next_free_slot a
            in (bump_allocated (a\<lparr>next_free_slot := next_free_slot a + 1\<rparr>),
                Ok (SlabBlockId_new (arena_slab_id a) (of_nat idx))))
      else (a, Err (PoolExhausted (arena_class a))))"

definition recycle_slot :: "MegaslabArena \<Rightarrow> MegaslabArena \<times> SlabBlockId" where
  "recycle_slot a =
     (a\<lparr>recycle_cursor := (if recycle_cursor a + 1 \<ge> capacity a then 0 else recycle_cursor a + 1)\<rparr>,
      SlabBlockId_new (arena_slab_id a) (of_nat (recycle_cursor a)))"

definition allocate_or_recycle :: "MegaslabArena \<Rightarrow> MegaslabArena \<times> SlabBlockId" where
  "allocate_or_recycle a =
     (case arena_allocate a of (a', Ok i) \<Rightarrow> (a', i) | (a', _) \<Rightarrow> recycle_slot a')"

definition arena_deallocate :: "SlabBlockId \<Rightarrow> MegaslabArena \<Rightarrow> MegaslabArena \<times> (unit, CoreError) outcome" where
  "arena_deallocate b a =
     (if slab_id b \<noteq> arena_slab_id a then (a, Err (InvalidBlockId (raw_id b)))
      else (drop_allocated (a\<lparr>free_slots := free_slots a @ [unat (slot_index b)]\<rparr>), Ok ()))"

definition arena_slot_ptr :: "MegaslabArena \<Rightarrow> SlabBlockId \<Rightarrow> u64" where
  "arena_slot_ptr a b =
     base a + of_nat (MEGASLAB_HEADER_BYTES + unat (slot_index b) * slot_bytes (arena_class a))"

definition is_full :: "MegaslabArena \<Rightarrow> bool" where
  "is_full a \<longleftrightarrow> next_free_slot a \<ge> capacity a \<and> free_slots a = []"

definition allocated :: "MegaslabArena \<Rightarrow> u32" where
  "allocated a = allocated_slots (header a)"

definition arena_is_empty :: "MegaslabArena \<Rightarrow> bool" where
  "arena_is_empty a \<longleftrightarrow> allocated_slots (header a) = 0"

definition is_reclaimable :: "MegaslabArena \<Rightarrow> bool" where
  "is_reclaimable a \<longleftrightarrow> arena_is_empty a"

definition header_slab_id :: "MegaslabArena \<Rightarrow> u32" where
  "header_slab_id a = hdr_slab_id (header a)"

text \<open>\<open>Drop\<close>: the arena leaves the global table (the memory itself goes back to the OS).\<close>

definition arena_drop :: "MegaslabArena \<Rightarrow> Registry \<Rightarrow> Registry" where
  "arena_drop a r = unregister_arena (arena_slab_id a) r"

section \<open>Invariant and live slots\<close>

definition live_slots :: "MegaslabArena \<Rightarrow> nat set" where
  "live_slots a = {..<next_free_slot a} - set (free_slots a)"

definition arena_inv :: "MegaslabArena \<Rightarrow> bool" where
  [inv_defs]: "arena_inv a \<longleftrightarrow>
     capacity a = slots_per_megaslab (arena_class a) \<and>
     next_free_slot a \<le> capacity a \<and>
     distinct (free_slots a) \<and> set (free_slots a) \<subseteq> {..<next_free_slot a} \<and>
     recycle_cursor a < capacity a \<and>
     unat (allocated_slots (header a)) = card (live_slots a) \<and>
     hdr_slab_id (header a) = ucast (arena_slab_id a)"

lemma live_slots_finite [simp]: "finite (live_slots a)"
  by (simp add: live_slots_def)

lemma live_slots_sub: "arena_inv a \<Longrightarrow> live_slots a \<subseteq> {..<capacity a}"
  by (auto simp: arena_inv_def live_slots_def)

lemma card_live_slots_le: "arena_inv a \<Longrightarrow> card (live_slots a) \<le> capacity a"
  using card_mono [OF finite_lessThan live_slots_sub] by fastforce

lemma capacity_u16: "arena_inv a \<Longrightarrow> capacity a < 2 ^ 16"
  by (metis arena_inv_def slots_per_megaslab_u16)

lemma unat_slot:
  assumes "arena_inv a" and "i < capacity a"
  shows "unat (of_nat i :: u16) = i"
  using assms capacity_u16 [OF assms(1)] by (simp add: unat_of_nat)

lemma free_slots_card:
  assumes "arena_inv a"
  shows "card (live_slots a) + length (free_slots a) = next_free_slot a"
proof -
  have "card (live_slots a) = next_free_slot a - card (set (free_slots a))"
    using assms by (simp add: live_slots_def arena_inv_def card_Diff_subset)
  moreover have "card (set (free_slots a)) = length (free_slots a)"
    using assms by (simp add: arena_inv_def distinct_card)
  moreover have "card (set (free_slots a)) \<le> next_free_slot a"
    using assms card_mono [of "{..<next_free_slot a}" "set (free_slots a)"]
    by (simp add: arena_inv_def)
  ultimately show ?thesis by simp
qed

lemma is_full_iff_live:
  assumes "arena_inv a"
  shows "is_full a \<longleftrightarrow> live_slots a = {..<capacity a}"
proof
  assume "is_full a"
  with assms show "live_slots a = {..<capacity a}"
    by (auto simp: is_full_def live_slots_def arena_inv_def)
next
  assume l: "live_slots a = {..<capacity a}"
  then have "card (live_slots a) = capacity a" by simp
  moreover have "next_free_slot a \<le> capacity a"
    using assms by (simp add: arena_inv_def)
  ultimately have "length (free_slots a) = 0" and "next_free_slot a = capacity a"
    using free_slots_card [OF assms] by linarith+
  then show "is_full a" by (simp add: is_full_def)
qed

lemma allocated_zero_iff:
  assumes "arena_inv a"
  shows "allocated a = 0 \<longleftrightarrow> live_slots a = {}"
proof -
  have "allocated a = 0 \<longleftrightarrow> unat (allocated_slots (header a)) = 0"
    by (simp add: allocated_def word_unat_eq_iff)
  also have "\<dots> \<longleftrightarrow> live_slots a = {}"
    using assms by (simp add: arena_inv_def)
  finally show ?thesis .
qed

section \<open>Effect of the operations\<close>

lemma arena_new_inv:
  assumes "MegaslabArena_new c sid core ptr r = (r', Ok a)"
  shows "arena_inv a" and "live_slots a = {}" and "arena_class a = c" and "arena_slab_id a = sid"
    and "base a = ptr" and "ptr \<noteq> 0" and "r' = register_arena sid ptr (slot_bytes c) r"
  using assms
  by (auto simp: MegaslabArena_new_def arena_inv_def live_slots_def Let_def split: if_splits)

lemma bump_fields [simp]:
  "live_slots (bump_allocated a) = live_slots a" "capacity (bump_allocated a) = capacity a"
  "next_free_slot (bump_allocated a) = next_free_slot a" "free_slots (bump_allocated a) = free_slots a"
  "recycle_cursor (bump_allocated a) = recycle_cursor a" "arena_class (bump_allocated a) = arena_class a"
  "arena_slab_id (bump_allocated a) = arena_slab_id a" "base (bump_allocated a) = base a"
  "hdr_slab_id (header (bump_allocated a)) = hdr_slab_id (header a)"
  "allocated_slots (header (bump_allocated a)) = allocated_slots (header a) + 1"
  by (simp_all add: bump_allocated_def live_slots_def)

lemma drop_fields [simp]:
  "live_slots (drop_allocated a) = live_slots a" "capacity (drop_allocated a) = capacity a"
  "next_free_slot (drop_allocated a) = next_free_slot a" "free_slots (drop_allocated a) = free_slots a"
  "recycle_cursor (drop_allocated a) = recycle_cursor a" "arena_class (drop_allocated a) = arena_class a"
  "arena_slab_id (drop_allocated a) = arena_slab_id a" "base (drop_allocated a) = base a"
  "hdr_slab_id (header (drop_allocated a)) = hdr_slab_id (header a)"
  "allocated_slots (header (drop_allocated a)) = allocated_slots (header a) - 1"
  by (simp_all add: drop_allocated_def live_slots_def)

lemma bump_inv:
  assumes inv: "arena_inv a" and cap: "capacity a' = capacity a" "arena_class a' = arena_class a"
    and rest: "next_free_slot a' \<le> capacity a" "distinct (free_slots a')"
      "set (free_slots a') \<subseteq> {..<next_free_slot a'}" "recycle_cursor a' = recycle_cursor a"
      "header a' = header a" "arena_slab_id a' = arena_slab_id a"
    and live: "live_slots a' = insert i (live_slots a)" "i \<notin> live_slots a"
  shows "arena_inv (bump_allocated a')"
proof -
  have sub: "live_slots a' \<subseteq> {..<capacity a}"
    using rest by (auto simp: live_slots_def)
  have "card (live_slots a') \<le> capacity a"
    using card_mono [OF finite_lessThan sub] by simp
  then have "Suc (unat (allocated_slots (header a))) \<le> capacity a"
    using inv live by (simp add: arena_inv_def)
  then have "unat (allocated_slots (header a) + 1) = Suc (card (live_slots a))"
    using inv capacity_u16 [OF inv] by (simp add: arena_inv_def unat_word_ariths)
  with assms show ?thesis
    by (simp add: arena_inv_def)
qed

text \<open>The whole behaviour of \<open>allocate\<close>: pop the free list, else bump, else fail.\<close>

lemma arena_allocate_ok:
  assumes inv: "arena_inv a" and run: "arena_allocate a = (a', Ok b)"
  obtains i where "b = SlabBlockId_new (arena_slab_id a) (of_nat i)" and "i < capacity a"
    and "i \<notin> live_slots a" and "live_slots a' = insert i (live_slots a)" and "arena_inv a'"
    and "capacity a' = capacity a" and "arena_slab_id a' = arena_slab_id a"
    and "arena_class a' = arena_class a" and "base a' = base a"
proof (cases "free_slots a = []")
  case False
  define i where "i = last (free_slots a)"
  define a1 where "a1 = a\<lparr>free_slots := butlast (free_slots a)\<rparr>"
  have fs: "free_slots a = butlast (free_slots a) @ [i]"
    using False by (simp add: i_def)
  then have d: "distinct (butlast (free_slots a) @ [i])" and s: "set (butlast (free_slots a) @ [i]) \<subseteq> {..<next_free_slot a}"
    using inv by (metis arena_inv_def)+
  have set_fs: "set (free_slots a) = insert i (set (butlast (free_slots a)))"
    by (subst fs) simp
  have live: "live_slots a1 = insert i (live_slots a)" "i \<notin> live_slots a"
    using d s by (auto simp: live_slots_def a1_def set_fs)
  have ilt: "i < capacity a"
    using s inv by (auto simp: arena_inv_def)
  have run': "a' = bump_allocated a1" "b = SlabBlockId_new (arena_slab_id a) (of_nat i)"
    using run False by (auto simp: arena_allocate_def Let_def a1_def i_def)
  have "arena_inv a'"
    unfolding run' by (rule bump_inv [OF inv _ _ _ _ _ _ _ _ live])
      (use inv d s in \<open>auto simp: a1_def arena_inv_def\<close>)
  then show thesis
    using that [of i] live ilt run' by (simp add: a1_def)
next
  case True
  then have lt: "next_free_slot a < capacity a"
    using run by (auto simp: arena_allocate_def split: if_splits)
  define a1 where "a1 = a\<lparr>next_free_slot := next_free_slot a + 1\<rparr>"
  have live: "live_slots a1 = insert (next_free_slot a) (live_slots a)" "next_free_slot a \<notin> live_slots a"
    using True by (auto simp: live_slots_def a1_def)
  have run': "a' = bump_allocated a1" "b = SlabBlockId_new (arena_slab_id a) (of_nat (next_free_slot a))"
    using run True lt by (auto simp: arena_allocate_def Let_def a1_def)
  have "arena_inv a'"
    unfolding run' by (rule bump_inv [OF inv _ _ _ _ _ _ _ _ live])
      (use inv lt True in \<open>auto simp: a1_def arena_inv_def\<close>)
  then show thesis
    using that [of "next_free_slot a"] live lt run' by (simp add: a1_def)
qed

lemma arena_allocate_err:
  assumes "arena_allocate a = (a', Err e)"
  shows "is_full a" and "a' = a" and "e = PoolExhausted (arena_class a)"
  using assms by (auto simp: arena_allocate_def is_full_def Let_def split: if_splits)

lemma arena_allocate_no_panic: "arena_allocate a \<noteq> (a', Panic m)"
  by (simp add: arena_allocate_def Let_def)

lemma arena_allocate_cases:
  "(if is_full a then arena_allocate a = (a, Err (PoolExhausted (arena_class a)))
    else \<exists>a' b. arena_allocate a = (a', Ok b))"
  by (simp add: arena_allocate_def is_full_def Let_def)

text \<open>Releasing a live slot of this arena; a foreign handle is refused and nothing changes.\<close>

lemma arena_deallocate_live:
  assumes inv: "arena_inv a" and b: "slab_id b = arena_slab_id a" "unat (slot_index b) \<in> live_slots a"
    and run: "arena_deallocate b a = (a', res)"
  shows "res = Ok ()" and "arena_inv a'" and "live_slots a' = live_slots a - {unat (slot_index b)}"
    and "capacity a' = capacity a" and "arena_slab_id a' = arena_slab_id a"
    and "arena_class a' = arena_class a" and "base a' = base a"
proof -
  define i where "i = unat (slot_index b)"
  define a1 where "a1 = a\<lparr>free_slots := free_slots a @ [i]\<rparr>"
  have a': "a' = drop_allocated a1" "res = Ok ()"
    using run b by (auto simp: arena_deallocate_def a1_def i_def)
  then show "res = Ok ()" "capacity a' = capacity a" "arena_slab_id a' = arena_slab_id a"
    "arena_class a' = arena_class a" "base a' = base a"
    by (simp_all add: a1_def)
  have i: "i \<in> live_slots a" using b i_def by simp
  have live: "live_slots a' = live_slots a - {i}"
    using a' by (auto simp: live_slots_def a1_def)
  then show "live_slots a' = live_slots a - {unat (slot_index b)}" by (simp add: i_def)
  have pos: "0 < card (live_slots a)"
    using i card_gt_0_iff live_slots_finite by blast
  then have "allocated_slots (header a) \<noteq> 0"
    using inv by (auto simp: arena_inv_def)
  then have "unat (allocated_slots (header a) - 1) = card (live_slots a) - 1"
    using inv by (simp add: arena_inv_def unat_minus_one)
  moreover have "card (live_slots a') = card (live_slots a) - 1"
    using live i by simp
  moreover have "i < next_free_slot a" "i \<notin> set (free_slots a)"
    using i by (auto simp: live_slots_def)
  ultimately show "arena_inv a'"
    using inv a' by (simp add: arena_inv_def a1_def)
qed

lemma arena_deallocate_foreign:
  assumes "slab_id b \<noteq> arena_slab_id a"
  shows "arena_deallocate b a = (a, Err (InvalidBlockId (raw_id b)))"
  using assms by (simp add: arena_deallocate_def)

lemma recycle_slot_inv:
  assumes "arena_inv a" and "recycle_slot a = (a', b)"
  shows "arena_inv a'" and "live_slots a' = live_slots a" and "slab_id b = arena_slab_id a"
    and "unat (slot_index b) = recycle_cursor a" and "unat (slot_index b) < capacity a"
    and "recycle_cursor a' = Suc (recycle_cursor a) mod capacity a"
    and "arena_class a' = arena_class a" and "arena_slab_id a' = arena_slab_id a"
    and "capacity a' = capacity a" and "base a' = base a" and "allocated a' = allocated a"
proof -
  have lt: "recycle_cursor a < capacity a" using assms(1) by (simp add: arena_inv_def)
  have a': "a' = a\<lparr>recycle_cursor := (if recycle_cursor a + 1 \<ge> capacity a then 0 else recycle_cursor a + 1)\<rparr>"
    and b: "b = SlabBlockId_new (arena_slab_id a) (of_nat (recycle_cursor a))"
    using assms(2) by (auto simp: recycle_slot_def)
  show "recycle_cursor a' = Suc (recycle_cursor a) mod capacity a"
    using lt a' by (auto simp: le_less_Suc_eq mod_Suc)
  show "arena_inv a'" "live_slots a' = live_slots a"
    using assms(1) a' by (auto simp: arena_inv_def live_slots_def)
  show "slab_id b = arena_slab_id a" "unat (slot_index b) = recycle_cursor a"
    "unat (slot_index b) < capacity a"
    using b lt unat_slot [OF assms(1) lt] by simp_all
  show "arena_class a' = arena_class a" "arena_slab_id a' = arena_slab_id a"
    "capacity a' = capacity a" "base a' = base a" "allocated a' = allocated a"
    using a' by (simp_all add: allocated_def)
qed

section \<open>The arena provides the allocator interface\<close>

definition arena_alloc_opt :: "MegaslabArena \<Rightarrow> (MegaslabArena \<times> SlabBlockId) option" where
  "arena_alloc_opt a = (case arena_allocate a of (a', Ok b) \<Rightarrow> Some (a', b) | _ \<Rightarrow> None)"

definition arena_release :: "SlabBlockId \<Rightarrow> MegaslabArena \<Rightarrow> MegaslabArena" where
  "arena_release b a = fst (arena_deallocate b a)"

definition arena_live :: "MegaslabArena \<Rightarrow> SlabBlockId set" where
  "arena_live a = (\<lambda>i. SlabBlockId_new (arena_slab_id a) (of_nat i)) ` live_slots a"

definition arena_room :: "MegaslabArena \<Rightarrow> nat" where
  "arena_room a = capacity a - card (live_slots a)"

lemma arena_live_iff:
  assumes "arena_inv a"
  shows "b \<in> arena_live a \<longleftrightarrow> slab_id b = arena_slab_id a \<and> unat (slot_index b) \<in> live_slots a"
proof
  assume "b \<in> arena_live a"
  then obtain i where i: "i \<in> live_slots a" "b = SlabBlockId_new (arena_slab_id a) (of_nat i)"
    by (auto simp: arena_live_def)
  with live_slots_sub [OF assms] unat_slot [OF assms, of i]
  show "slab_id b = arena_slab_id a \<and> unat (slot_index b) \<in> live_slots a" by auto
next
  assume b: "slab_id b = arena_slab_id a \<and> unat (slot_index b) \<in> live_slots a"
  then have "b = SlabBlockId_new (arena_slab_id a) (of_nat (unat (slot_index b)))"
    by (simp add: block_eq_iff)
  with b show "b \<in> arena_live a"
    unfolding arena_live_def by blast
qed

interpretation arena_alloc: slot_allocator arena_alloc_opt arena_release arena_live arena_room arena_inv
proof
  fix a a' b
  assume inv: "arena_inv a" and "arena_alloc_opt a = Some (a', b)"
  then have "arena_allocate a = (a', Ok b)"
    by (auto simp: arena_alloc_opt_def split: prod.splits outcome.splits)
  from arena_allocate_ok [OF inv this] obtain i
    where i: "b = SlabBlockId_new (arena_slab_id a) (of_nat i)" "i < capacity a"
      "i \<notin> live_slots a" "live_slots a' = insert i (live_slots a)" "arena_inv a'"
      "capacity a' = capacity a" "arena_slab_id a' = arena_slab_id a" .
  show "b \<notin> arena_live a"
    using i inv by (simp add: arena_live_iff unat_slot)
  show "arena_live a' = insert b (arena_live a)"
    using i by (simp add: arena_live_def)
  show "arena_inv a'" using i by simp
  show "arena_room a = Suc (arena_room a')"
    using i card_live_slots_le [OF \<open>arena_inv a'\<close>] by (simp add: arena_room_def)
next
  fix a
  assume inv: "arena_inv a"
  have "arena_alloc_opt a = None \<longleftrightarrow> is_full a"
    using arena_allocate_cases [of a]
    by (auto simp: arena_alloc_opt_def split: if_splits)
  also have "\<dots> \<longleftrightarrow> arena_room a = 0"
    using is_full_iff_live [OF inv] card_live_slots_le [OF inv] live_slots_sub [OF inv]
    by (metis arena_room_def card_lessThan card_subset_eq diff_is_0_eq' diff_self_eq_0
        finite_lessThan le_antisym diff_is_0_eq)
  finally show "arena_alloc_opt a = None \<longleftrightarrow> arena_room a = 0" .
next
  fix a b
  assume inv: "arena_inv a" and b: "b \<in> arena_live a"
  then have b': "slab_id b = arena_slab_id a" "unat (slot_index b) \<in> live_slots a"
    by (simp_all add: arena_live_iff)
  have run: "arena_deallocate b a = (arena_release b a, snd (arena_deallocate b a))"
    by (simp add: arena_release_def)
  note d = arena_deallocate_live [OF inv b' run]
  show "arena_inv (arena_release b a)" by (rule d(2))
  show "arena_live (arena_release b a) = arena_live a - {b}"
    by (rule set_eqI) (use d(3,5) b'(1) in \<open>auto simp: arena_live_iff inv d(2) block_eq_iff\<close>)
  have pos: "0 < card (live_slots a)"
    using b'(2) by (metis card_gt_0_iff empty_iff live_slots_finite)
  have "card (live_slots (arena_release b a)) = card (live_slots a) - 1"
    unfolding d(3) using b'(2) by simp
  then show "arena_room (arena_release b a) = Suc (arena_room a)"
    unfolding arena_room_def d(4) using pos card_live_slots_le [OF inv] by linarith
qed

section \<open>Properties\<close>

text \<open>A run of \<open>n\<close> allocations of an arena succeeds exactly when \<open>n\<close> slots are free; it then
  returns \<open>n\<close> distinct handles, none of which was live before, and makes exactly those live.\<close>

theorem arena_allocation_run:
  assumes "arena_inv a"
  shows "if n \<le> arena_room a
    then \<exists>a' bs. allocs arena_alloc_opt n a = Some (a', bs) \<and> length bs = n \<and> distinct bs \<and>
      set bs \<inter> arena_live a = {} \<and> arena_live a' = arena_live a \<union> set bs \<and> arena_inv a'
    else allocs arena_alloc_opt n a = None"
proof (cases "n \<le> arena_room a")
  case True
  then obtain a' bs where run: "allocs arena_alloc_opt n a = Some (a', bs)"
    using arena_alloc.allocs_total [OF assms, of n] by auto
  with arena_alloc.allocs_spec [OF assms run] True show ?thesis by auto
next
  case False
  then show ?thesis using arena_alloc.allocs_total [OF assms, of n] by (cases "allocs arena_alloc_opt n a") auto
qed

definition example_arena :: MegaslabArena where
  "example_arena =
     \<lparr>base = 4096, arena_class = Tensor256KB, arena_slab_id = 1, next_free_slot = 0, capacity = 7,
      free_slots = [], recycle_cursor = 0,
      header = \<lparr>magic = MEGASLAB_MAGIC, hdr_slab_id = 1, hdr_class_type = 11, total_slots = 7,
                allocated_slots = 0, owning_core = 0\<rparr>\<rparr>"

theorem arena_allocation_run_witness:
  "\<exists>a' bs. allocs arena_alloc_opt 7 example_arena = Some (a', bs) \<and> distinct bs"
proof -
  have inv: "arena_inv example_arena"
    by (simp add: arena_inv_def example_arena_def live_slots_def)
  moreover have "7 \<le> arena_room example_arena"
    by (simp add: arena_room_def example_arena_def live_slots_def)
  ultimately show ?thesis using arena_allocation_run [OF inv, of 7] by auto
qed

end
