(* ===== verification/Pool.thy ===== *)
theory Pool
  imports Arena Quota
begin

text \<open>
  \<open>crates/kachedb-core/src/pool.rs\<close>: the per-core slab pool. Its state is the list of arenas,
  the index structures over it (active arena per class, arenas per class, slab id to arena) and
  the two workload quotas. The clock (\<open>now_secs()\<close>) and the pointer the next
  \<open>alloc_zeroed\<close> returns are arguments; the global registry is threaded through. Indexing a
  vector out of range is a \<open>Panic\<close>.
\<close>

section \<open>State\<close>

definition APP_CACHE_DEFAULT_RATIO :: f64 where
  "APP_CACHE_DEFAULT_RATIO = F64 7205759403792794 (-55)"

definition APP_CACHE_MAX_RATIO :: f64 where
  "APP_CACHE_MAX_RATIO = F64 8556839292003942 (-53)"

definition TENSOR_CACHE_DEFAULT_RATIO :: f64 where
  "TENSOR_CACHE_DEFAULT_RATIO = F64 7205759403792794 (-53)"

definition TENSOR_CACHE_MAX_RATIO :: f64 where
  "TENSOR_CACHE_MAX_RATIO = F64 8556839292003942 (-53)"

fun class_index :: "SlabClassType \<Rightarrow> nat" where
  "class_index AppSmall = 0"
| "class_index AppMedium = 1"
| "class_index AppLarge = 2"
| "class_index Tensor64KB = 3"
| "class_index Tensor256KB = 4"
| "class_index Tensor2MB = 5"

text \<open>The three arrays of length 6 are only indexed by \<open>class_index\<close>.\<close>

record SlabPool =
  core_id :: u16
  arenas :: "MegaslabArena list"
  active_arena :: "nat \<Rightarrow> nat option"
  class_arenas :: "nat \<Rightarrow> nat list"
  recycle_arena_cursor :: "nat \<Rightarrow> nat"
  slab_id_to_arena :: "u16 \<rightharpoonup> nat"
  max_megaslabs :: nat
  app_quota :: WorkloadQuota
  tensor_quota :: WorkloadQuota
  arena_last_active_sec :: "u32 list"

type_synonym core_state = "SlabPool \<times> Registry"

definition SlabPool_new :: "u16 \<Rightarrow> nat \<Rightarrow> SlabPool" where
  "SlabPool_new core max_total_bytes =
     (let m = max_total_bytes div MEGASLAB_BYTES
      in \<lparr>core_id = core, arenas = [], active_arena = (\<lambda>_. None), class_arenas = (\<lambda>_. []),
          recycle_arena_cursor = (\<lambda>_. 0), slab_id_to_arena = Map.empty, max_megaslabs = m,
          app_quota = WorkloadQuota_new m APP_CACHE_DEFAULT_RATIO APP_CACHE_MAX_RATIO,
          tensor_quota = WorkloadQuota_new m TENSOR_CACHE_DEFAULT_RATIO TENSOR_CACHE_MAX_RATIO,
          arena_last_active_sec = []\<rparr>)"

section \<open>Index maintenance\<close>

definition rebuild_step :: "nat \<times> MegaslabArena \<Rightarrow> SlabPool \<Rightarrow> SlabPool" where
  "rebuild_step ia p =
     (let (i, a) = ia; c = class_index (arena_class a)
      in p\<lparr>slab_id_to_arena := (slab_id_to_arena p)(ucast (header_slab_id a) \<mapsto> i),
           class_arenas := (class_arenas p)(c := class_arenas p c @ [i]),
           active_arena := (if \<not> is_full a \<and> active_arena p c = None
                            then (active_arena p)(c := Some i) else active_arena p)\<rparr>)"

definition rebuild_active_step :: "nat \<times> MegaslabArena \<Rightarrow> SlabPool \<Rightarrow> SlabPool" where
  "rebuild_active_step ia p =
     (let (i, a) = ia; c = class_index (arena_class a)
      in if active_arena p c = None then p\<lparr>active_arena := (active_arena p)(c := Some i)\<rparr> else p)"

definition rebuild_indices :: "SlabPool \<Rightarrow> SlabPool" where
  "rebuild_indices p =
     (let p0 = p\<lparr>slab_id_to_arena := Map.empty, active_arena := (\<lambda>_. None), class_arenas := (\<lambda>_. [])\<rparr>;
          p1 = fold rebuild_step (enumerate 0 (arenas p0)) p0
      in fold rebuild_active_step (enumerate 0 (arenas p1)) p1)"

definition remove_nth :: "nat \<Rightarrow> 'a list \<Rightarrow> 'a list" where
  "remove_nth i xs = take i xs @ drop (Suc i) xs"

text \<open>Release one megaslab of a workload's budget / claim one.\<close>

definition quota_release :: "SlabClassType \<Rightarrow> SlabPool \<Rightarrow> SlabPool" where
  "quota_release c p =
     (if is_tensor c then p\<lparr>tensor_quota := release_one (tensor_quota p)\<rparr>
      else p\<lparr>app_quota := release_one (app_quota p)\<rparr>)"

definition quota_claim :: "SlabClassType \<Rightarrow> SlabPool \<Rightarrow> SlabPool" where
  "quota_claim c p =
     (if is_tensor c then p\<lparr>tensor_quota := claim_one (tensor_quota p)\<rparr>
      else p\<lparr>app_quota := claim_one (app_quota p)\<rparr>)"

section \<open>Reclamation\<close>

definition COLD_THRESHOLD_SECS :: nat where
  "COLD_THRESHOLD_SECS = 30"

definition is_cold_candidate :: "SlabClassType \<Rightarrow> u32 \<Rightarrow> SlabPool \<Rightarrow> nat \<Rightarrow> bool" where
  "is_cold_candidate c now p i =
     (let a = arenas p ! i
      in is_tensor (arena_class a) \<noteq> is_tensor c \<and> allocated a = 0 \<and>
         unat now - unat (arena_last_active_sec p ! i) \<ge> COLD_THRESHOLD_SECS)"

definition reclaim_cold_arena :: "SlabClassType \<Rightarrow> u32 \<Rightarrow> core_state \<Rightarrow> core_state \<times> bool" where
  "reclaim_cold_arena c now s =
     (let (p, r) = s;
          opposite = (if is_tensor c then claimed (app_quota p) else claimed (tensor_quota p))
      in if opposite = 0 then (s, False)
         else (case List.find (is_cold_candidate c now p) [0..<length (arenas p)] of
                 Some idx \<Rightarrow>
                   (let a = arenas p ! idx;
                        p1 = p\<lparr>arenas := remove_nth idx (arenas p),
                               arena_last_active_sec := remove_nth idx (arena_last_active_sec p)\<rparr>;
                        p2 = quota_release (arena_class a) p1
                    in ((rebuild_indices p2, arena_drop a r), True))
               | None \<Rightarrow> (s, False)))"

text \<open>The \<open>while\<close> loop of \<open>reclaim_empty_arenas\<close>: \<open>i\<close> advances past live arenas only.\<close>

function reclaim_empty_loop :: "nat \<Rightarrow> nat \<Rightarrow> core_state \<Rightarrow> core_state \<times> nat" where
  "reclaim_empty_loop i n (p, r) =
     (if i < length (arenas p)
      then (let a = arenas p ! i
            in if allocated a = 0
               then reclaim_empty_loop i (n + 1)
                      ((quota_release (arena_class a) p)
                         \<lparr>arenas := remove_nth i (arenas p),
                          arena_last_active_sec := remove_nth i (arena_last_active_sec p)\<rparr>,
                       arena_drop a r)
               else reclaim_empty_loop (i + 1) n (p, r))
      else ((p, r), n))"
  by pat_completeness auto
termination
  by (relation "measure (\<lambda>(i, n, p, r). length (arenas p) - i)") (auto simp: remove_nth_def)

declare reclaim_empty_loop.simps [simp del]

definition reclaim_empty_arenas :: "core_state \<Rightarrow> core_state \<times> nat" where
  "reclaim_empty_arenas s =
     (case reclaim_empty_loop 0 0 s of
        ((p, r), n) \<Rightarrow> ((if n > 0 then rebuild_indices p else p, r), n))"

section \<open>Growth\<close>

definition grow :: "SlabClassType \<Rightarrow> u32 \<Rightarrow> u64 \<Rightarrow> core_state \<Rightarrow> core_state \<times> (unit, CoreError) outcome" where
  "grow c now ptr s =
     (let (p, r) = s
      in if length (arenas p) \<ge> max_megaslabs p then (s, Err (PoolExhausted c))
         else (let quota_ok = (if is_tensor c then can_borrow (tensor_quota p) else can_borrow (app_quota p));
                   opposite = (if is_tensor c then claimed (app_quota p) else claimed (tensor_quota p));
                   (s1, go) = (if quota_ok then (s, True)
                               else if opposite = 0 then (s, False)
                               else reclaim_cold_arena c now s);
                   (p1, r1) = s1
               in if \<not> go \<or> length (arenas p1) \<ge> max_megaslabs p1 then (s1, Err (PoolExhausted c))
                  else (case allocate_global_slab_id r1 of
                          (r2, Ok sid) \<Rightarrow>
                            (case MegaslabArena_new c sid (core_id p1) ptr r2 of
                               (r3, Ok a) \<Rightarrow>
                                 (let idx = length (arenas p1); ci = class_index c;
                                      p2 = p1\<lparr>slab_id_to_arena := (slab_id_to_arena p1)(sid \<mapsto> idx),
                                              active_arena := (active_arena p1)(ci := Some idx),
                                              class_arenas := (class_arenas p1)(ci := class_arenas p1 ci @ [idx]),
                                              arenas := arenas p1 @ [a],
                                              arena_last_active_sec := arena_last_active_sec p1 @ [now]\<rparr>
                                  in ((quota_claim c p2, r3), Ok ()))
                             | (r3, Err e) \<Rightarrow> ((p1, r3), Err e)
                             | (r3, Panic m) \<Rightarrow> ((p1, r3), Panic m))
                        | (r2, Err _) \<Rightarrow> ((p1, r2), Err (PoolExhausted c))
                        | (r2, Panic m) \<Rightarrow> ((p1, r2), Panic m))))"

section \<open>Allocation and release\<close>

definition alloc_in :: "nat \<Rightarrow> core_state \<Rightarrow> core_state \<times> (SlabBlockId, CoreError) outcome" where
  "alloc_in idx s =
     (let (p, r) = s
      in if idx < length (arenas p)
         then (case arena_allocate (arenas p ! idx) of
                 (a, res) \<Rightarrow> ((p\<lparr>arenas := (arenas p)[idx := a]\<rparr>, r), res))
         else (s, Panic ''index out of bounds''))"

fun find_not_full :: "MegaslabArena list \<Rightarrow> nat list \<Rightarrow> (nat option, unit) outcome" where
  "find_not_full as [] = Ok None"
| "find_not_full as (i # is) =
     (if i < length as
      then (if \<not> is_full (as ! i) then Ok (Some i) else find_not_full as is)
      else Panic ''index out of bounds'')"

text \<open>Step 4 of \<open>allocate\<close>: round-robin recycling over the arenas of the class.\<close>

definition pool_recycle :: "SlabClassType \<Rightarrow> core_state \<Rightarrow> core_state \<times> (SlabBlockId, CoreError) outcome" where
  "pool_recycle c s =
     (let (p, r) = s; ci = class_index c; cs = class_arenas p ci
      in if cs \<noteq> []
         then (let cursor = recycle_arena_cursor p ci mod length cs; t = cs ! cursor;
                   p1 = p\<lparr>recycle_arena_cursor := (recycle_arena_cursor p)(ci := (cursor + 1) mod length cs)\<rparr>
               in if t < length (arenas p1)
                  then (case recycle_slot (arenas p1 ! t) of
                          (a, b) \<Rightarrow> ((p1\<lparr>arenas := (arenas p1)[t := a]\<rparr>, r), Ok b))
                  else ((p1, r), Panic ''index out of bounds''))
         else (s, Err (PoolExhausted c)))"

text \<open>Steps 3 and 4 of \<open>allocate\<close>.\<close>

definition pool_scan :: "SlabClassType \<Rightarrow> core_state \<Rightarrow> core_state \<times> (SlabBlockId, CoreError) outcome" where
  "pool_scan c s =
     (let (p, r) = s; ci = class_index c
      in (case find_not_full (arenas p) (class_arenas p ci) of
            Ok (Some idx) \<Rightarrow> alloc_in idx (p\<lparr>active_arena := (active_arena p)(ci := Some idx)\<rparr>, r)
          | Ok None \<Rightarrow> pool_recycle c s
          | Err _ \<Rightarrow> (s, Err (PoolExhausted c))
          | Panic m \<Rightarrow> (s, Panic m)))"

text \<open>Steps 2 to 4 of \<open>allocate\<close>: an error of \<open>grow\<close> is dropped, its state change is kept.\<close>

definition pool_allocate_slow ::
    "SlabClassType \<Rightarrow> u32 \<Rightarrow> u64 \<Rightarrow> core_state \<Rightarrow> core_state \<times> (SlabBlockId, CoreError) outcome" where
  "pool_allocate_slow c now ptr s =
     (let (p, r) = s
      in if length (arenas p) < max_megaslabs p
         then (case grow c now ptr s of
                 ((p1, r1), Ok _) \<Rightarrow>
                   (let new_idx = length (arenas p1) - 1
                    in alloc_in new_idx (p1\<lparr>active_arena := (active_arena p1)(class_index c := Some new_idx)\<rparr>, r1))
               | (s1, Err _) \<Rightarrow> pool_scan c s1
               | (s1, Panic m) \<Rightarrow> (s1, Panic m))
         else pool_scan c s)"

definition pool_allocate ::
    "SlabClassType \<Rightarrow> u32 \<Rightarrow> u64 \<Rightarrow> core_state \<Rightarrow> core_state \<times> (SlabBlockId, CoreError) outcome" where
  "pool_allocate c now ptr s =
     (case active_arena (fst s) (class_index c) of
        Some idx \<Rightarrow>
          (if idx < length (arenas (fst s))
           then (if \<not> is_full (arenas (fst s) ! idx) then alloc_in idx s else pool_allocate_slow c now ptr s)
           else (s, Panic ''index out of bounds''))
      | None \<Rightarrow> pool_allocate_slow c now ptr s)"

definition pool_deallocate :: "SlabBlockId \<Rightarrow> core_state \<Rightarrow> core_state \<times> (unit, CoreError) outcome" where
  "pool_deallocate b s =
     (let (p, r) = s
      in (case slab_id_to_arena p (slab_id b) of
            Some idx \<Rightarrow>
              (if idx < length (arenas p)
               then (case arena_deallocate b (arenas p ! idx) of
                       (a, res) \<Rightarrow>
                         (let p1 = p\<lparr>arenas := (arenas p)[idx := a]\<rparr>; ci = class_index (arena_class a)
                          in (case active_arena p1 ci of
                                Some cur \<Rightarrow>
                                  (if cur < length (arenas p1)
                                   then (if is_full (arenas p1 ! cur)
                                         then ((p1\<lparr>active_arena := (active_arena p1)(ci := Some idx)\<rparr>, r), res)
                                         else ((p1, r), res))
                                   else ((p1, r), Panic ''index out of bounds''))
                              | None \<Rightarrow> ((p1, r), res))))
               else (s, Err (InvalidBlockId (raw_id b))))
          | None \<Rightarrow> (s, Err (InvalidBlockId (raw_id b)))))"

text \<open>\<open>arena_last_active_sec\<close> has the length of \<open>arenas\<close> (\<open>pool_inv\<close>), so its index never panics.\<close>

definition tick_second :: "u32 \<Rightarrow> SlabPool \<Rightarrow> SlabPool" where
  "tick_second now p =
     p\<lparr>arena_last_active_sec :=
         fold (\<lambda>(i, a) ts. if allocated a > 0 then ts[i := now] else ts)
           (enumerate 0 (arenas p)) (arena_last_active_sec p)\<rparr>"

definition pool_slot_ptr :: "SlabPool \<Rightarrow> SlabBlockId \<Rightarrow> (u64, CoreError) outcome" where
  "pool_slot_ptr p b =
     (case List.find (\<lambda>a. header_slab_id a = ucast (slab_id b)) (arenas p) of
        Some a \<Rightarrow> Ok (arena_slot_ptr a b)
      | None \<Rightarrow> Err (InvalidBlockId (raw_id b)))"

definition arena_count :: "SlabPool \<Rightarrow> nat" where
  "arena_count p = length (arenas p)"

definition total_allocated_bytes :: "SlabPool \<Rightarrow> nat" where
  "total_allocated_bytes p = (\<Sum>a\<leftarrow>arenas p. unat (allocated a) * slot_bytes (arena_class a))"

definition quota_snapshot :: "SlabPool \<Rightarrow> QuotaSnapshot" where
  "quota_snapshot p =
     \<lparr>app_claimed = claimed (app_quota p), app_target = target (app_quota p),
      app_ceiling = ceiling (app_quota p), tensor_claimed = claimed (tensor_quota p),
      tensor_target = target (tensor_quota p), tensor_ceiling = ceiling (tensor_quota p),
      qs_total_megaslabs = max_megaslabs p,
      unassigned = max_megaslabs p - (claimed (app_quota p) + claimed (tensor_quota p))\<rparr>"

end
