(* ===== verification/Pool_Index.thy ===== *)
theory Pool_Index
  imports Pool
begin

text \<open>
  The index structures of the slab pool: what \<open>rebuild_indices\<close> establishes, and the pool
  invariant \<open>pool_inv\<close> with its preservation by reclamation.
\<close>

section \<open>Invariant\<close>

text \<open>
  The index structures depend on the arenas only through their slab ids and their classes, so
  updating one arena in place keeps them.
\<close>

definition slab_index_ok :: "(u16 \<rightharpoonup> nat) \<Rightarrow> u16 list \<Rightarrow> bool" where
  "slab_index_ok m sids \<longleftrightarrow> (\<forall>s i. m s = Some i \<longleftrightarrow> i < length sids \<and> sids ! i = s)"

definition class_index_ok :: "(nat \<Rightarrow> nat list) \<Rightarrow> SlabClassType list \<Rightarrow> bool" where
  "class_index_ok ca cls \<longleftrightarrow>
     (\<forall>c. ca (class_index c) = filter (\<lambda>i. cls ! i = c) [0..<length cls])"

definition active_index_ok :: "(nat \<Rightarrow> nat option) \<Rightarrow> SlabClassType list \<Rightarrow> bool" where
  "active_index_ok act cls \<longleftrightarrow>
     (\<forall>c. (act (class_index c) = None \<longrightarrow> c \<notin> set cls) \<and>
          (\<forall>i. act (class_index c) = Some i \<longrightarrow> i < length cls \<and> cls ! i = c))"

text \<open>Number of megaslabs a workload holds.\<close>

definition held :: "bool \<Rightarrow> SlabClassType list \<Rightarrow> nat" where
  "held t cls = length (filter (\<lambda>c. is_tensor c = t) cls)"

abbreviation pool_sids :: "SlabPool \<Rightarrow> u16 list" where
  "pool_sids p \<equiv> map arena_slab_id (arenas p)"

abbreviation pool_classes :: "SlabPool \<Rightarrow> SlabClassType list" where
  "pool_classes p \<equiv> map arena_class (arenas p)"

definition pool_base_inv :: "SlabPool \<Rightarrow> bool" where
  "pool_base_inv p \<longleftrightarrow>
     length (arena_last_active_sec p) = length (arenas p) \<and>
     length (arenas p) \<le> max_megaslabs p \<and>
     (\<forall>a \<in> set (arenas p). arena_inv a) \<and>
     distinct (pool_sids p) \<and>
     claimed (app_quota p) = held False (pool_classes p) \<and>
     claimed (tensor_quota p) = held True (pool_classes p)"

definition pool_inv :: "SlabPool \<Rightarrow> bool" where
  [inv_defs]: "pool_inv p \<longleftrightarrow>
     pool_base_inv p \<and> slab_index_ok (slab_id_to_arena p) (pool_sids p) \<and>
     class_index_ok (class_arenas p) (pool_classes p) \<and>
     active_index_ok (active_arena p) (pool_classes p)"

lemma class_index_inject [simp]: "class_index c = class_index d \<longleftrightarrow> c = d"
  by (cases c; cases d) simp_all

lemma held_sum: "held False cls + held True cls = length cls"
  using sum_length_filter_compl [of is_tensor cls] by (simp add: held_def)

lemma held_simps [simp]:
  "held t [] = 0"
  "held t (c # cls) = (if is_tensor c = t then Suc (held t cls) else held t cls)"
  "held t (cls @ cls') = held t cls + held t cls'"
  by (simp_all add: held_def)

section \<open>Rebuilding\<close>

lemma rebuild_step_frame [simp]:
  "arenas (rebuild_step ia p) = arenas p" "core_id (rebuild_step ia p) = core_id p"
  "recycle_arena_cursor (rebuild_step ia p) = recycle_arena_cursor p"
  "max_megaslabs (rebuild_step ia p) = max_megaslabs p"
  "app_quota (rebuild_step ia p) = app_quota p" "tensor_quota (rebuild_step ia p) = tensor_quota p"
  "arena_last_active_sec (rebuild_step ia p) = arena_last_active_sec p"
  by (simp_all add: rebuild_step_def Let_def split: prod.splits)

lemma rebuild_active_step_frame [simp]:
  "arenas (rebuild_active_step ia p) = arenas p" "core_id (rebuild_active_step ia p) = core_id p"
  "recycle_arena_cursor (rebuild_active_step ia p) = recycle_arena_cursor p"
  "max_megaslabs (rebuild_active_step ia p) = max_megaslabs p"
  "app_quota (rebuild_active_step ia p) = app_quota p"
  "tensor_quota (rebuild_active_step ia p) = tensor_quota p"
  "arena_last_active_sec (rebuild_active_step ia p) = arena_last_active_sec p"
  "slab_id_to_arena (rebuild_active_step ia p) = slab_id_to_arena p"
  "class_arenas (rebuild_active_step ia p) = class_arenas p"
  by (simp_all add: rebuild_active_step_def Let_def split: prod.splits)

lemma fold_frame:
  assumes "\<And>x p. f (g x p) = f p"
  shows "f (fold g xs p) = f p"
  by (induction xs arbitrary: p) (simp_all add: assms)

lemmas fold_rebuild_frame [simp] =
  rebuild_step_frame [THEN fold_frame [where g = rebuild_step]]
  rebuild_active_step_frame [THEN fold_frame [where g = rebuild_active_step]]

lemma fold_rebuild_class:
  "class_arenas (fold rebuild_step ias p) c =
     class_arenas p c @ map fst (filter (\<lambda>ia. class_index (arena_class (snd ia)) = c) ias)"
  by (induction ias arbitrary: p) (auto simp: rebuild_step_def Let_def split: prod.splits)

lemma fold_rebuild_slab:
  "slab_id_to_arena (fold rebuild_step ias p) =
     slab_id_to_arena p ++ map_of (rev (map (\<lambda>ia. (ucast (header_slab_id (snd ia)), fst ia)) ias))"
  by (induction ias arbitrary: p)
    (auto simp: rebuild_step_def Let_def map_add_def fun_eq_iff split: prod.splits option.splits)

lemma fold_rebuild_active:
  "active_arena (fold rebuild_step ias p) c =
     (case active_arena p c of Some i \<Rightarrow> Some i
      | None \<Rightarrow> map_option fst
          (List.find (\<lambda>ia. class_index (arena_class (snd ia)) = c \<and> \<not> is_full (snd ia)) ias))"
  by (induction ias arbitrary: p)
    (auto simp: rebuild_step_def Let_def split: prod.splits option.splits)

lemma fold_rebuild_active2:
  "active_arena (fold rebuild_active_step ias p) c =
     (case active_arena p c of Some i \<Rightarrow> Some i
      | None \<Rightarrow> map_option fst (List.find (\<lambda>ia. class_index (arena_class (snd ia)) = c) ias))"
  by (induction ias arbitrary: p)
    (auto simp: rebuild_active_step_def Let_def split: prod.splits option.splits)

lemma rebuild_frame [simp]:
  "arenas (rebuild_indices p) = arenas p" "core_id (rebuild_indices p) = core_id p"
  "recycle_arena_cursor (rebuild_indices p) = recycle_arena_cursor p"
  "max_megaslabs (rebuild_indices p) = max_megaslabs p"
  "app_quota (rebuild_indices p) = app_quota p" "tensor_quota (rebuild_indices p) = tensor_quota p"
  "arena_last_active_sec (rebuild_indices p) = arena_last_active_sec p"
  by (simp_all add: rebuild_indices_def Let_def)

lemma enumerate_0_map: "enumerate 0 xs = map (\<lambda>i. (i, xs ! i)) [0..<length xs]"
  by (rule nth_equalityI) (simp_all add: nth_enumerate_eq)

lemma arena_header_id:
  assumes "arena_inv a"
  shows "ucast (header_slab_id a) = arena_slab_id a"
  using assms by (simp add: header_slab_id_def arena_inv_def)

lemma rebuild_class_ok: "class_index_ok (class_arenas (rebuild_indices p)) (pool_classes p)"
proof -
  have "filter (\<lambda>i. arena_class (arenas p ! i) = c) [0..<length (arenas p)] =
    filter (\<lambda>i. pool_classes p ! i = c) [0..<length (arenas p)]" for c
    by (rule filter_cong) simp_all
  then show ?thesis
    by (simp add: class_index_ok_def rebuild_indices_def Let_def fold_rebuild_class enumerate_0_map
        filter_map comp_def)
qed

lemma rebuild_slab_ok:
  assumes "\<forall>a \<in> set (arenas p). arena_inv a" and "distinct (pool_sids p)"
  shows "slab_index_ok (slab_id_to_arena (rebuild_indices p)) (pool_sids p)"
proof -
  let ?l = "map (\<lambda>i. (arena_slab_id (arenas p ! i), i)) [0..<length (arenas p)]"
  have l: "map (\<lambda>ia. (ucast (header_slab_id (snd ia)), fst ia)) (enumerate 0 (arenas p)) = ?l"
    using assms(1) by (simp add: enumerate_0_map arena_header_id)
  have "map fst ?l = pool_sids p"
    by (rule nth_equalityI) simp_all
  then have "distinct (map fst (rev ?l))"
    using assms(2) by (metis distinct_rev rev_map)
  from map_of_eq_Some_iff [OF this]
  have "map_of (rev ?l) s = Some i \<longleftrightarrow> i < length (pool_sids p) \<and> pool_sids p ! i = s" for s i
    by auto
  then show ?thesis
    by (simp add: slab_index_ok_def rebuild_indices_def Let_def fold_rebuild_slab l)
qed

lemma rebuild_active_ok: "active_index_ok (active_arena (rebuild_indices p)) (pool_classes p)"
proof -
  have "(active_arena (rebuild_indices p) (class_index c) = None \<longrightarrow> c \<notin> set (pool_classes p)) \<and>
    (\<forall>i. active_arena (rebuild_indices p) (class_index c) = Some i \<longrightarrow>
       i < length (pool_classes p) \<and> pool_classes p ! i = c)" for c
    by (auto simp: rebuild_indices_def Let_def fold_rebuild_active fold_rebuild_active2
        find_Some_iff find_None_iff in_set_conv_nth enumerate_0_map Ball_def
        split: option.splits)
  then show ?thesis unfolding active_index_ok_def by blast
qed

lemma rebuild_inv:
  assumes "pool_base_inv p"
  shows "pool_inv (rebuild_indices p)"
  using assms rebuild_class_ok [of p] rebuild_slab_ok [of p] rebuild_active_ok [of p]
  by (simp add: pool_inv_def pool_base_inv_def)

section \<open>Removing arenas\<close>

lemma length_remove_nth [simp]: "i < length xs \<Longrightarrow> length (remove_nth i xs) = length xs - 1"
  by (simp add: remove_nth_def)

lemma map_remove_nth [simp]: "map f (remove_nth i xs) = remove_nth i (map f xs)"
  by (simp add: remove_nth_def take_map drop_map)

lemma set_remove_nth: "set (remove_nth i xs) \<subseteq> set xs"
  by (auto simp: remove_nth_def dest: in_set_takeD in_set_dropD)

lemma distinct_remove_nth:
  assumes "distinct xs"
  shows "distinct (remove_nth i xs)"
proof -
  have "distinct (take i xs @ drop i xs)" using assms by simp
  moreover have "set (drop (Suc i) xs) \<subseteq> set (drop i xs)"
    by (rule set_drop_subset_set_drop) simp
  ultimately show ?thesis
    using assms by (auto simp: remove_nth_def simp del: append_take_drop_id)
qed

lemma remove_nth_split:
  assumes "i < length xs"
  obtains us vs where "xs = us @ xs ! i # vs" and "remove_nth i xs = us @ vs" and "length us = i"
  using that [of "take i xs" "drop (Suc i) xs"] assms
  by (simp add: remove_nth_def id_take_nth_drop)

lemma held_remove_nth:
  assumes "i < length cls"
  shows "held t cls = held t (remove_nth i cls) + (if is_tensor (cls ! i) = t then 1 else 0)"
proof -
  obtain us vs where "cls = us @ cls ! i # vs" and r: "remove_nth i cls = us @ vs"
    by (rule remove_nth_split [OF assms])
  then have "held t cls = held t (us @ cls ! i # vs)" by simp
  then show ?thesis by (simp add: r)
qed

text \<open>Dropping arena \<open>i\<close> and releasing its budget keeps everything but the indices.\<close>

definition drop_arena :: "nat \<Rightarrow> SlabPool \<Rightarrow> SlabPool" where
  "drop_arena i p =
     (quota_release (arena_class (arenas p ! i)) p)
       \<lparr>arenas := remove_nth i (arenas p),
        arena_last_active_sec := remove_nth i (arena_last_active_sec p)\<rparr>"

lemma quota_release_frame [simp]:
  "arenas (quota_release c p) = arenas p" "max_megaslabs (quota_release c p) = max_megaslabs p"
  "arena_last_active_sec (quota_release c p) = arena_last_active_sec p"
  "core_id (quota_release c p) = core_id p"
  "claimed (app_quota (quota_release c p)) = claimed (app_quota p) - (if is_tensor c then 0 else 1)"
  "claimed (tensor_quota (quota_release c p)) = claimed (tensor_quota p) - (if is_tensor c then 1 else 0)"
  "ceiling (app_quota (quota_release c p)) = ceiling (app_quota p)"
  "ceiling (tensor_quota (quota_release c p)) = ceiling (tensor_quota p)"
  by (simp_all add: quota_release_def release_one_def)

lemma drop_arena_base_inv:
  assumes "pool_base_inv p" and i: "i < length (arenas p)"
  shows "pool_base_inv (drop_arena i p)"
proof -
  note h = held_remove_nth [of i "pool_classes p"]
  have "set (remove_nth i (arenas p)) \<subseteq> set (arenas p)" by (rule set_remove_nth)
  with assms h [of False] h [of True] distinct_remove_nth [of "pool_sids p" i] show ?thesis
    by (auto simp: pool_base_inv_def drop_arena_def)
qed

end
