(* ===== verification/Pool_Correct.thy ===== *)
theory Pool_Correct
  imports Pool_Index
begin

text \<open>
  Correctness of the slab pool's operations: the invariant \<open>core_inv\<close> relating the pool to
  the global registry, the set of live handles \<open>pool_live\<close>, and the effect of allocation,
  release, growth and reclamation on them.
\<close>

section \<open>Pool and registry\<close>

definition reg_inv :: "Registry \<Rightarrow> SlabPool \<Rightarrow> bool" where
  "reg_inv r p \<longleftrightarrow>
     unat (next_global_slab_id r) \<le> MAX_GLOBAL_SLABS \<and>
     (\<forall>a \<in> set (arenas p). base a \<noteq> 0 \<and> unat (arena_slab_id a) < unat (next_global_slab_id r) \<and>
        global_arenas r (unat (arena_slab_id a)) =
          \<lparr>base_ptr = base a, ae_slot_bytes = of_nat (slot_bytes (arena_class a))\<rparr>)"

definition core_inv :: "core_state \<Rightarrow> bool" where
  [inv_defs]: "core_inv s \<longleftrightarrow> pool_inv (fst s) \<and> reg_inv (snd s) (fst s)"

definition pool_live :: "SlabPool \<Rightarrow> SlabBlockId set" where
  "pool_live p = (\<Union>a \<in> set (arenas p). arena_live a)"

lemma pool_inv_arena:
  assumes "pool_inv p" and "i < length (arenas p)"
  shows "arena_inv (arenas p ! i)"
  using assms by (simp add: pool_inv_def pool_base_inv_def)

lemma core_inv_init: "core_inv (SlabPool_new core n, Registry_init)"
  by (simp add: core_inv_def pool_inv_def pool_base_inv_def reg_inv_def slab_index_ok_def
      class_index_ok_def active_index_ok_def SlabPool_new_def WorkloadQuota_new_def
      Registry_init_def MAX_GLOBAL_SLABS_def Let_def)

lemma pool_live_init: "pool_live (SlabPool_new core n) = {}"
  by (simp add: pool_live_def SlabPool_new_def Let_def)

text \<open>A live handle names its arena: slab ids are distinct.\<close>

lemma pool_live_slab:
  assumes "pool_inv p" and "i < length (arenas p)" and "slab_id b = arena_slab_id (arenas p ! i)"
  shows "b \<in> pool_live p \<longleftrightarrow> b \<in> arena_live (arenas p ! i)"
proof -
  have d: "distinct (pool_sids p)" and inv: "\<And>a. a \<in> set (arenas p) \<Longrightarrow> arena_inv a"
    using assms(1) by (auto simp: pool_inv_def pool_base_inv_def)
  have "a = arenas p ! i" if "a \<in> set (arenas p)" "b \<in> arena_live a" for a
  proof -
    have "arena_slab_id a = arena_slab_id (arenas p ! i)"
      using that inv [OF that(1)] assms(3) by (simp add: arena_live_iff)
    then show ?thesis
      using d that(1) assms(2) by (meson distinct_map inj_on_contraD nth_mem)
  qed
  then show ?thesis
    using assms(2) by (auto simp: pool_live_def)
qed

lemma pool_live_iff:
  assumes "pool_inv p"
  shows "b \<in> pool_live p \<longleftrightarrow>
    (\<exists>i < length (arenas p). slab_id b = arena_slab_id (arenas p ! i) \<and> b \<in> arena_live (arenas p ! i))"
  using assms pool_inv_arena [OF assms]
  by (fastforce simp: pool_live_def in_set_conv_nth arena_live_iff)

section \<open>Updating one arena in place\<close>

abbreviation set_arena :: "nat \<Rightarrow> MegaslabArena \<Rightarrow> SlabPool \<Rightarrow> SlabPool" where
  "set_arena i a p \<equiv> p\<lparr>arenas := (arenas p)[i := a]\<rparr>"

definition same_slab :: "MegaslabArena \<Rightarrow> MegaslabArena \<Rightarrow> bool" where
  "same_slab a b \<longleftrightarrow> arena_slab_id a = arena_slab_id b \<and> arena_class a = arena_class b \<and> base a = base b"

lemma map_update_same:
  assumes "i < length xs" and "f y = f (xs ! i)"
  shows "map f (xs[i := y]) = map f xs"
  using assms by (metis length_map list_update_id map_update nth_map)

lemma set_arena_inv:
  assumes inv: "core_inv (p, r)" and i: "i < length (arenas p)"
    and a: "arena_inv a" "same_slab a (arenas p ! i)"
  shows "core_inv (set_arena i a p, r)"
proof -
  have m: "map arena_slab_id ((arenas p)[i := a]) = pool_sids p"
    "map arena_class ((arenas p)[i := a]) = pool_classes p"
    using i a(2) by (simp_all add: map_update_same same_slab_def)
  have old: "arenas p ! i \<in> set (arenas p)" using i by simp
  have "pool_inv (set_arena i a p)"
    using inv a(1) set_update_subset_insert [of "arenas p" i a] m
    by (auto simp: core_inv_def pool_inv_def pool_base_inv_def)
  moreover have "reg_inv r (set_arena i a p)"
    using inv a(2) old set_update_subset_insert [of "arenas p" i a]
    by (auto simp: core_inv_def reg_inv_def same_slab_def)
  ultimately show ?thesis by (simp add: core_inv_def)
qed

lemma set_arena_live:
  assumes inv: "pool_inv p" "pool_inv (set_arena i a p)" and i: "i < length (arenas p)"
    and a: "same_slab a (arenas p ! i)"
  shows "b \<in> pool_live (set_arena i a p) \<longleftrightarrow>
    (if slab_id b = arena_slab_id a then b \<in> arena_live a else b \<in> pool_live p)"
proof (cases "slab_id b = arena_slab_id a")
  case True
  then show ?thesis
    using pool_live_slab [OF inv(2), of i b] i by simp
next
  case False
  have "(slab_id b = arena_slab_id ((arenas p)[i := a] ! j) \<and> b \<in> arena_live ((arenas p)[i := a] ! j)) \<longleftrightarrow>
    (slab_id b = arena_slab_id (arenas p ! j) \<and> b \<in> arena_live (arenas p ! j))"
    if "j < length (arenas p)" for j
    using False a i that by (cases "j = i") (simp_all add: same_slab_def)
  then show ?thesis
    using False by (auto simp: pool_live_iff [OF inv(1)] pool_live_iff [OF inv(2)])
qed

text \<open>Changing the active arena of a class to another arena of that class is harmless.\<close>

lemma active_index_ok_upd:
  assumes "active_index_ok act cls" and "i < length cls" and "cls ! i = c"
  shows "active_index_ok (act(class_index c := Some i)) cls"
  using assms by (auto simp: active_index_ok_def)

lemma set_active_inv:
  assumes "core_inv (p, r)" and "i < length (arenas p)" and "arena_class (arenas p ! i) = c"
  shows "core_inv (p\<lparr>active_arena := (active_arena p)(class_index c := Some i)\<rparr>, r)"
  using assms active_index_ok_upd [of "active_arena p" "pool_classes p" i c]
  by (simp add: core_inv_def pool_inv_def pool_base_inv_def reg_inv_def)

lemma set_cursor_inv:
  assumes "core_inv (p, r)"
  shows "core_inv (p\<lparr>recycle_arena_cursor := f\<rparr>, r)"
  using assms by (auto simp: core_inv_def pool_inv_def pool_base_inv_def reg_inv_def)

section \<open>Allocating in one arena\<close>

lemma alloc_in_spec:
  assumes inv: "core_inv (p, r)" and i: "i < length (arenas p)" and free: "\<not> is_full (arenas p ! i)"
  obtains p' b where "alloc_in i (p, r) = ((p', r), Ok b)" and "core_inv (p', r)"
    and "b \<notin> pool_live p" and "pool_live p' = insert b (pool_live p)"
    and "slab_id b = arena_slab_id (arenas p ! i)"
    and "unat (slot_index b) < slots_per_megaslab (arena_class (arenas p ! i))"
    and "pool_sids p' = pool_sids p" and "pool_classes p' = pool_classes p"
    and "map base (arenas p') = map base (arenas p)" and "max_megaslabs p' = max_megaslabs p"
proof -
  let ?a = "arenas p ! i"
  have pinv: "pool_inv p" using inv by (simp add: core_inv_def)
  then have ainv: "arena_inv ?a" using i by (rule pool_inv_arena)
  from free obtain a' b where run: "arena_allocate ?a = (a', Ok b)"
    using arena_allocate_cases [of ?a] by auto
  from arena_allocate_ok [OF ainv run] obtain k
    where k: "b = SlabBlockId_new (arena_slab_id ?a) (of_nat k)" "k < capacity ?a"
      "k \<notin> live_slots ?a" "live_slots a' = insert k (live_slots ?a)" "arena_inv a'"
      "capacity a' = capacity ?a" "arena_slab_id a' = arena_slab_id ?a"
      "arena_class a' = arena_class ?a" "base a' = base ?a" .
  have same: "same_slab a' ?a" using k by (simp add: same_slab_def)
  have inv': "core_inv (set_arena i a' p, r)" by (rule set_arena_inv [OF inv i k(5) same])
  then have pinv': "pool_inv (set_arena i a' p)" by (simp add: core_inv_def)
  have opt: "arena_alloc_opt ?a = Some (a', b)" using run by (simp add: arena_alloc_opt_def)
  note fresh = arena_alloc.alloc_fresh [OF ainv opt] and live = arena_alloc.alloc_live [OF ainv opt]
  have sb: "slab_id b = arena_slab_id ?a" using k(1) by simp
  have nb: "b \<notin> pool_live p"
    using fresh pool_live_slab [OF pinv i sb] by simp
  have pl: "pool_live (set_arena i a' p) = insert b (pool_live p)"
  proof (rule set_eqI)
    fix x
    show "x \<in> pool_live (set_arena i a' p) \<longleftrightarrow> x \<in> insert b (pool_live p)"
      using set_arena_live [OF pinv pinv' i same, of x] live sb k(7) pool_live_slab [OF pinv i, of x]
      by (auto split: if_splits)
  qed
  have sl: "unat (slot_index b) < slots_per_megaslab (arena_class ?a)"
    using k(1,2) unat_slot [OF ainv k(2)] ainv by (simp add: arena_inv_def)
  show thesis
    using that [of "set_arena i a' p" b] i run inv' nb pl sb sl same
    by (simp add: alloc_in_def map_update_same same_slab_def)
qed

text \<open>Every handle of the pool resolves to the address of its slot.\<close>

lemma slot_bytes_u32: "slot_bytes c < 2 ^ 32"
  by (cases c) (simp_all add: geometry)

lemma resolve_in_pool:
  assumes "reg_inv r p" and "a \<in> set (arenas p)" and "slab_id b = arena_slab_id a"
  shows "resolve_slot_ptr b r = Some (arena_slot_ptr a b)"
  using assms slot_bytes_u32 [of "arena_class a"]
  by (fastforce simp: resolve_slot_ptr_def reg_inv_def arena_slot_ptr_def Let_def unat_of_nat)

end
