(* ===== verification/Pool_Ops.thy ===== *)
theory Pool_Ops
  imports Pool_Correct
begin

text \<open>
  What growth, reclamation, allocation and release of the slab pool do to its invariant and to
  the set of live handles.
\<close>

section \<open>Dropping an arena\<close>

lemma drop_arena_frame [simp]:
  "arenas (drop_arena i p) = remove_nth i (arenas p)"
  "max_megaslabs (drop_arena i p) = max_megaslabs p"
  "core_id (drop_arena i p) = core_id p"
  by (simp_all add: drop_arena_def)

lemma quota_release_commute:
  "quota_release c (p\<lparr>arenas := as, arena_last_active_sec := ts\<rparr>) =
     (quota_release c p)\<lparr>arenas := as, arena_last_active_sec := ts\<rparr>"
  by (cases p) (simp add: quota_release_def)

lemma drop_arena_reg_inv:
  assumes inv: "reg_inv r p" "pool_base_inv p" and i: "i < length (arenas p)"
  shows "reg_inv (arena_drop (arenas p ! i) r) (drop_arena i p)"
proof -
  obtain us vs where split: "arenas p = us @ arenas p ! i # vs" "remove_nth i (arenas p) = us @ vs"
    by (rule remove_nth_split [OF i])
  have "distinct (map arena_slab_id (us @ arenas p ! i # vs))"
    using inv(2) split(1) by (metis pool_base_inv_def)
  then have ne: "arena_slab_id a \<noteq> arena_slab_id (arenas p ! i)" if "a \<in> set (us @ vs)" for a
    using that by simp (metis image_eqI)
  have sub: "set (us @ vs) \<subseteq> set (arenas p)"
    using set_remove_nth [of i "arenas p"] split(2) by simp
  show ?thesis
    using inv(1) sub ne
    by (auto simp: reg_inv_def split(2) arena_drop_def unregister_arena_def Let_def word_unat_eq_iff)
qed

lemma drop_empty_arena_live:
  assumes inv: "pool_base_inv p" and i: "i < length (arenas p)" and empty: "allocated (arenas p ! i) = 0"
  shows "pool_live (drop_arena i p) = pool_live p"
proof -
  obtain us vs where split: "arenas p = us @ arenas p ! i # vs" "remove_nth i (arenas p) = us @ vs"
    by (rule remove_nth_split [OF i])
  have "arena_inv (arenas p ! i)" using inv i by (simp add: pool_base_inv_def)
  then have "arena_live (arenas p ! i) = {}"
    using empty by (simp add: allocated_zero_iff arena_live_def)
  moreover have "pool_live p = (\<Union>a \<in> set (us @ arenas p ! i # vs). arena_live a)"
    using split(1) by (simp add: pool_live_def)
  ultimately show ?thesis
    by (simp add: pool_live_def split(2))
qed

lemma rebuild_live [simp]: "pool_live (rebuild_indices p) = pool_live p"
  by (simp add: pool_live_def)

lemma reg_inv_rebuild [simp]: "reg_inv r (rebuild_indices p) \<longleftrightarrow> reg_inv r p"
  by (simp add: reg_inv_def)

lemma next_id_arena_drop [simp]: "next_global_slab_id (arena_drop a r) = next_global_slab_id r"
  by (simp add: arena_drop_def)

section \<open>Reclaiming a cold arena\<close>

lemma reclaim_cold_cases:
  assumes "reclaim_cold_arena c now (p, r) = (s', ok)"
  obtains (none) "s' = (p, r)" "\<not> ok"
  | (drop) i where "i < length (arenas p)" "is_cold_candidate c now p i" "ok"
      "s' = (rebuild_indices (drop_arena i p), arena_drop (arenas p ! i) r)"
proof (cases ok)
  case False
  with assms show thesis
    by (auto simp: reclaim_cold_arena_def Let_def split: if_splits option.splits intro: none)
next
  case True
  with assms obtain i where f: "List.find (is_cold_candidate c now p) [0..<length (arenas p)] = Some i"
    and s': "s' = (rebuild_indices (quota_release (arena_class (arenas p ! i))
        (p\<lparr>arenas := remove_nth i (arenas p),
           arena_last_active_sec := remove_nth i (arena_last_active_sec p)\<rparr>)), arena_drop (arenas p ! i) r)"
    by (auto simp: reclaim_cold_arena_def Let_def split: if_splits option.splits)
  have "i < length (arenas p)" "is_cold_candidate c now p i"
    using f by (auto simp: find_Some_iff)
  moreover have "s' = (rebuild_indices (drop_arena i p), arena_drop (arenas p ! i) r)"
    using s' by (simp add: drop_arena_def quota_release_commute)
  ultimately show thesis using True drop by blast
qed

lemma reclaim_cold_inv:
  assumes inv: "core_inv (p, r)" and run: "reclaim_cold_arena c now (p, r) = ((p', r'), ok)"
  shows "core_inv (p', r')" and "pool_live p' = pool_live p" and "max_megaslabs p' = max_megaslabs p"
    and "next_global_slab_id r' = next_global_slab_id r"
proof -
  have base: "pool_base_inv p" "reg_inv r p" using inv by (simp_all add: core_inv_def pool_inv_def)
  have "core_inv (p', r') \<and> pool_live p' = pool_live p \<and> max_megaslabs p' = max_megaslabs p \<and>
    next_global_slab_id r' = next_global_slab_id r"
    using run
  proof (cases rule: reclaim_cold_cases)
    case none
    then show ?thesis using inv by simp
  next
    case (drop i)
    then have "allocated (arenas p ! i) = 0" by (simp add: is_cold_candidate_def Let_def)
    with drop base show ?thesis
      by (simp add: core_inv_def rebuild_inv drop_arena_base_inv drop_arena_reg_inv
          drop_empty_arena_live)
  qed
  then show "core_inv (p', r')" "pool_live p' = pool_live p" "max_megaslabs p' = max_megaslabs p"
    "next_global_slab_id r' = next_global_slab_id r" by simp_all
qed

section \<open>Growth\<close>

text \<open>The part of \<open>grow\<close> after the budget check: a new id, a new arena, the indices.\<close>

definition grow_new :: "SlabClassType \<Rightarrow> u32 \<Rightarrow> u64 \<Rightarrow> core_state \<Rightarrow> core_state \<times> (unit, CoreError) outcome" where
  "grow_new c now ptr s =
     (let (p, r) = s
      in (case allocate_global_slab_id r of
            (r2, Ok sid) \<Rightarrow>
              (case MegaslabArena_new c sid (core_id p) ptr r2 of
                 (r3, Ok a) \<Rightarrow>
                   ((quota_claim c (p\<lparr>slab_id_to_arena := (slab_id_to_arena p)(sid \<mapsto> length (arenas p)),
                        active_arena := (active_arena p)(class_index c := Some (length (arenas p))),
                        class_arenas := (class_arenas p)
                          (class_index c := class_arenas p (class_index c) @ [length (arenas p)]),
                        arenas := arenas p @ [a],
                        arena_last_active_sec := arena_last_active_sec p @ [now]\<rparr>), r3), Ok ())
               | (r3, Err e) \<Rightarrow> ((p, r3), Err e)
               | (r3, Panic m) \<Rightarrow> ((p, r3), Panic m))
          | (r2, Err _) \<Rightarrow> ((p, r2), Err (PoolExhausted c))
          | (r2, Panic m) \<Rightarrow> ((p, r2), Panic m)))"

lemma quota_claim_frame [simp]:
  "arenas (quota_claim c p) = arenas p" "max_megaslabs (quota_claim c p) = max_megaslabs p"
  "arena_last_active_sec (quota_claim c p) = arena_last_active_sec p"
  "active_arena (quota_claim c p) = active_arena p" "class_arenas (quota_claim c p) = class_arenas p"
  "slab_id_to_arena (quota_claim c p) = slab_id_to_arena p"
  "claimed (app_quota (quota_claim c p)) = claimed (app_quota p) + (if is_tensor c then 0 else 1)"
  "claimed (tensor_quota (quota_claim c p)) = claimed (tensor_quota p) + (if is_tensor c then 1 else 0)"
  by (simp_all add: quota_claim_def claim_one_def)

lemma slab_index_ok_append:
  assumes "slab_index_ok m sids" and "sid \<notin> set sids"
  shows "slab_index_ok (m(sid \<mapsto> length sids)) (sids @ [sid])"
  using assms by (auto simp: slab_index_ok_def nth_append in_set_conv_nth less_Suc_eq)

lemma class_index_ok_append:
  assumes "class_index_ok ca cls"
  shows "class_index_ok (ca(class_index c := ca (class_index c) @ [length cls])) (cls @ [c])"
proof -
  have "filter (\<lambda>i. (cls @ [c]) ! i = d) [0..<length cls] = filter (\<lambda>i. cls ! i = d) [0..<length cls]" for d
    by (rule filter_cong) (simp_all add: nth_append)
  with assms show ?thesis by (auto simp: class_index_ok_def)
qed

lemma active_index_ok_append:
  assumes "active_index_ok act cls"
  shows "active_index_ok (act(class_index c := Some (length cls))) (cls @ [c])"
  using assms by (fastforce simp: active_index_ok_def nth_append)

lemma grow_new_ok:
  assumes inv: "core_inv (p, r)" and room: "length (arenas p) < max_megaslabs p"
    and run: "grow_new c now ptr (p, r) = ((p', r'), Ok u)"
  shows "core_inv (p', r')" and "pool_live p' = pool_live p"
    and "pool_classes p' = pool_classes p @ [c]" and "\<not> is_full (arenas p' ! length (arenas p))"
    and "max_megaslabs p' = max_megaslabs p"
proof -
  from run obtain r2 sid a where ids: "allocate_global_slab_id r = (r2, Ok sid)"
    and new: "MegaslabArena_new c sid (core_id p) ptr r2 = (r', Ok a)"
    and p': "p' = quota_claim c (p\<lparr>slab_id_to_arena := (slab_id_to_arena p)(sid \<mapsto> length (arenas p)),
      active_arena := (active_arena p)(class_index c := Some (length (arenas p))),
      class_arenas := (class_arenas p)(class_index c := class_arenas p (class_index c) @ [length (arenas p)]),
      arenas := arenas p @ [a], arena_last_active_sec := arena_last_active_sec p @ [now]\<rparr>)"
    by (auto simp: grow_new_def Let_def split: prod.splits outcome.splits)
  note ids' = allocate_global_slab_id_ok [OF ids]
  note a = arena_new_inv [OF new]
  have pinv: "pool_inv p" and rinv: "reg_inv r p" using inv by (simp_all add: core_inv_def)
  have fresh: "sid \<notin> set (pool_sids p)"
    using rinv ids'(1) by (auto simp: reg_inv_def)
  have "reg_inv r' p'"
    using rinv ids' a fresh
    by (auto simp: reg_inv_def p' register_arena_def Let_def word_unat_eq_iff)
  moreover have "pool_inv p'"
    using pinv room a fresh slab_index_ok_append [of "slab_id_to_arena p" "pool_sids p" sid]
      class_index_ok_append [of "class_arenas p" "pool_classes p" c]
      active_index_ok_append [of "active_arena p" "pool_classes p" c]
    by (auto simp: pool_inv_def pool_base_inv_def p')
  ultimately show "core_inv (p', r')" by (simp add: core_inv_def)
  show "pool_live p' = pool_live p"
    using a(1,2) by (simp add: p' pool_live_def arena_live_def)
  show "pool_classes p' = pool_classes p @ [c]" "max_megaslabs p' = max_megaslabs p"
    using a(3) by (simp_all add: p')
  show "\<not> is_full (arenas p' ! length (arenas p))"
    using a(1,2) is_full_iff_live [OF a(1)]
    by (auto simp: p' nth_append arena_inv_def lessThan_empty_iff)
qed

lemma grow_new_err:
  assumes inv: "core_inv (p, r)" and run: "grow_new c now ptr (p, r) = (s', Err e)"
  shows "core_inv s'" and "fst s' = p"
proof -
  from run show "fst s' = p"
    by (auto simp: grow_new_def Let_def split: prod.splits outcome.splits)
  from run obtain r2 sid where ids: "allocate_global_slab_id r = (r2, Ok sid)" and s': "s' = (p, r2)"
    by (auto simp: grow_new_def MegaslabArena_new_def allocate_global_slab_id_def Let_def
        split: prod.splits outcome.splits if_splits)
  note ids' = allocate_global_slab_id_ok [OF ids]
  have "reg_inv r2 p"
    using inv ids' by (auto simp: core_inv_def reg_inv_def dest!: bspec)
  with inv s' show "core_inv s'" by (simp add: core_inv_def)
qed

text \<open>\<open>grow\<close> is the budget check, possibly a cold reclaim, then \<open>grow_new\<close>.\<close>

lemma grow_cases:
  assumes "grow c now ptr (p, r) = (s', res)"
  obtains (full) "s' = (p, r)" "res = Err (PoolExhausted c)"
  | (new) p1 r1 ok where "length (arenas p) < max_megaslabs p"
      "(p1, r1) = (p, r) \<or> reclaim_cold_arena c now (p, r) = ((p1, r1), ok)"
      "length (arenas p1) < max_megaslabs p1" "grow_new c now ptr (p1, r1) = (s', res)"
  | (stop) p1 r1 ok where "reclaim_cold_arena c now (p, r) = ((p1, r1), ok)" "s' = (p1, r1)"
      "res = Err (PoolExhausted c)"
proof -
  obtain p1 r1 go where b: "(if if is_tensor c then can_borrow (tensor_quota p) else can_borrow (app_quota p)
      then ((p, r), True)
      else if (if is_tensor c then claimed (app_quota p) else claimed (tensor_quota p)) = 0 then ((p, r), False)
      else reclaim_cold_arena c now (p, r)) = ((p1, r1), go)"
    by (metis prod.collapse)
  show thesis
  proof (cases "length (arenas p) \<ge> max_megaslabs p")
    case True
    then show thesis using assms full by (auto simp: grow_def)
  next
    case False
    have eq: "(s', res) = (if \<not> go \<or> length (arenas p1) \<ge> max_megaslabs p1
        then ((p1, r1), Err (PoolExhausted c)) else grow_new c now ptr (p1, r1))"
      using assms False b by (simp add: grow_def grow_new_def Let_def cong: if_cong)
    have alt: "(p1, r1) = (p, r) \<or> reclaim_cold_arena c now (p, r) = ((p1, r1), go)"
      using b by (auto split: if_splits)
    show thesis
    proof (cases "\<not> go \<or> length (arenas p1) \<ge> max_megaslabs p1")
      case True
      with eq have "s' = (p1, r1)" "res = Err (PoolExhausted c)" by simp_all
      then show thesis using alt full stop by auto
    next
      case go: False
      with eq have "grow_new c now ptr (p1, r1) = (s', res)" by simp
      then show thesis using new [OF _ alt] go False by auto
    qed
  qed
qed

lemma grow_reclaim_inv:
  assumes "core_inv (p, r)" and "(p1, r1) = (p, r) \<or> reclaim_cold_arena c now (p, r) = ((p1, r1), ok)"
  shows "core_inv (p1, r1) \<and> pool_live p1 = pool_live p \<and> max_megaslabs p1 = max_megaslabs p \<and>
    next_global_slab_id r1 = next_global_slab_id r"
  using assms(2)
proof
  assume "(p1, r1) = (p, r)"
  then show ?thesis using assms(1) by simp
next
  assume "reclaim_cold_arena c now (p, r) = ((p1, r1), ok)"
  from reclaim_cold_inv [OF assms(1) this] show ?thesis by simp
qed

lemma grow_ok:
  assumes inv: "core_inv (p, r)" and run: "grow c now ptr (p, r) = ((p', r'), Ok u)"
  shows "core_inv (p', r')" and "pool_live p' = pool_live p" and "arenas p' \<noteq> []"
    and "arena_class (last (arenas p')) = c" and "\<not> is_full (last (arenas p'))"
    and "max_megaslabs p' = max_megaslabs p"
proof -
  from run obtain p1 r1 ok where alt: "(p1, r1) = (p, r) \<or> reclaim_cold_arena c now (p, r) = ((p1, r1), ok)"
    and room: "length (arenas p1) < max_megaslabs p1" and new: "grow_new c now ptr (p1, r1) = ((p', r'), Ok u)"
    by (cases rule: grow_cases) auto
  note s1 = grow_reclaim_inv [OF inv alt]
  note g = grow_new_ok [OF _ room new]
  have cls: "pool_classes p' = pool_classes p1 @ [c]" using g s1 by simp
  then have len: "length (arenas p') = Suc (length (arenas p1))"
    by (metis length_append_singleton length_map)
  then show ne: "arenas p' \<noteq> []" by auto
  then have last: "last (arenas p') = arenas p' ! length (arenas p1)"
    by (simp add: last_conv_nth len)
  show "arena_class (last (arenas p')) = c"
    using cls ne by (metis last_map last_snoc)
  show "\<not> is_full (last (arenas p'))" using g s1 last by simp
  show "core_inv (p', r')" "pool_live p' = pool_live p" "max_megaslabs p' = max_megaslabs p"
    using g s1 by simp_all
qed

lemma grow_err:
  assumes inv: "core_inv (p, r)" and run: "grow c now ptr (p, r) = ((p', r'), Err e)"
  shows "core_inv (p', r') \<and> pool_live p' = pool_live p"
  using run
proof (cases rule: grow_cases)
  case full
  then show ?thesis using inv by simp
next
  case (new p1 r1 ok)
  note s1 = grow_reclaim_inv [OF inv new(2)]
  show ?thesis using grow_new_err [OF _ new(4)] s1 by auto
next
  case (stop p1 r1 ok)
  then show ?thesis using reclaim_cold_inv [OF inv] by simp
qed

lemma grow_panic:
  assumes inv: "core_inv (p, r)" and run: "grow c now ptr (p, r) = (s', Panic m)"
  shows "unat (next_global_slab_id r) = MAX_GLOBAL_SLABS"
proof -
  from run obtain p1 r1 ok where alt: "(p1, r1) = (p, r) \<or> reclaim_cold_arena c now (p, r) = ((p1, r1), ok)"
    and new: "grow_new c now ptr (p1, r1) = (s', Panic m)"
    by (cases rule: grow_cases) auto
  note s1 = grow_reclaim_inv [OF inv alt]
  from new have "MAX_GLOBAL_SLABS \<le> unat (next_global_slab_id r1)"
    by (auto simp: grow_new_def allocate_global_slab_id_def MegaslabArena_new_def Let_def
        split: prod.splits outcome.splits if_splits)
  moreover have "unat (next_global_slab_id r) \<le> MAX_GLOBAL_SLABS"
    using inv by (simp add: core_inv_def reg_inv_def)
  ultimately show ?thesis using s1 by simp
qed

end
