(* ===== verification/Pool_Alloc.thy ===== *)
theory Pool_Alloc
  imports Pool_Ops
begin

text \<open>
  The pool's public operations: every branch of \<open>allocate\<close> (fast path, growth, scan,
  recycling, exhaustion), \<open>deallocate\<close>, \<open>reclaim_empty_arenas\<close> and \<open>tick_second\<close>.
\<close>

section \<open>Scanning and recycling\<close>

lemma class_arenas_iff:
  assumes "pool_inv p"
  shows "i \<in> set (class_arenas p (class_index c)) \<longleftrightarrow>
    i < length (arenas p) \<and> arena_class (arenas p ! i) = c"
  using assms by (auto simp: pool_inv_def class_index_ok_def)

lemma active_arena_class:
  assumes "pool_inv p" and "active_arena p (class_index c) = Some i"
  shows "i < length (arenas p)" and "arena_class (arenas p ! i) = c"
proof -
  have "i < length (pool_classes p) \<and> pool_classes p ! i = c"
    using assms unfolding pool_inv_def active_index_ok_def by blast
  then show "i < length (arenas p)" "arena_class (arenas p ! i) = c" by auto
qed

lemma find_not_full_ok:
  assumes "\<forall>i \<in> set is. i < length as"
  shows "find_not_full as is = Ok (List.find (\<lambda>i. \<not> is_full (as ! i)) is)"
  using assms by (induction "is") simp_all

definition class_full :: "SlabClassType \<Rightarrow> SlabPool \<Rightarrow> bool" where
  "class_full c p \<longleftrightarrow> (\<forall>a \<in> set (arenas p). arena_class a = c \<longrightarrow> is_full a)"

lemma full_arena_live:
  assumes "arena_inv a" and "is_full a" and "slab_id b = arena_slab_id a"
    and "unat (slot_index b) < capacity a"
  shows "b \<in> arena_live a"
  using assms by (simp add: arena_live_iff is_full_iff_live)

text \<open>Recycling hands out a handle that is still live.\<close>

lemma pool_recycle_ok:
  assumes inv: "core_inv (p, r)" and full: "class_full c p"
    and ne: "class_arenas p (class_index c) \<noteq> []"
  obtains p' b where "pool_recycle c (p, r) = ((p', r), Ok b)" and "core_inv (p', r)"
    and "b \<in> pool_live p" and "pool_live p' = pool_live p" and "class_full c p'"
    and "\<exists>a \<in> set (arenas p'). arena_class a = c \<and> slab_id b = arena_slab_id a \<and>
      unat (slot_index b) < capacity a"
proof -
  let ?cs = "class_arenas p (class_index c)"
  let ?cur = "recycle_arena_cursor p (class_index c) mod length ?cs"
  let ?t = "?cs ! ?cur"
  let ?p1 = "p\<lparr>recycle_arena_cursor := (recycle_arena_cursor p)(class_index c := (?cur + 1) mod length ?cs)\<rparr>"
  have pinv: "pool_inv p" using inv by (simp add: core_inv_def)
  have "?t \<in> set ?cs" using ne by simp
  then have t: "?t < length (arenas p)" "arena_class (arenas p ! ?t) = c"
    using class_arenas_iff [OF pinv] by simp_all
  let ?a = "arenas p ! ?t"
  have ainv: "arena_inv ?a" using pinv t(1) by (rule pool_inv_arena)
  obtain a' b where run: "recycle_slot ?a = (a', b)" by fastforce
  note rec = recycle_slot_inv [OF ainv run]
  have afull: "is_full ?a" using full t by (simp add: class_full_def)
  have bl: "b \<in> arena_live ?a"
    by (rule full_arena_live [OF ainv afull rec(3,5)])
  have same: "same_slab a' ?a" using rec by (simp add: same_slab_def)
  have inv1: "core_inv (?p1, r)" by (rule set_cursor_inv [OF inv])
  have inv2: "core_inv (set_arena ?t a' ?p1, r)"
    using set_arena_inv [OF inv1, of ?t a'] t rec(1) same by simp
  have live_a: "arena_live a' = arena_live ?a" using rec by (simp add: arena_live_def)
  have live1: "pool_live ?p1 = pool_live p" by (simp add: pool_live_def)
  have live: "pool_live (set_arena ?t a' ?p1) = pool_live p"
  proof (rule set_eqI)
    fix x
    show "x \<in> pool_live (set_arena ?t a' ?p1) \<longleftrightarrow> x \<in> pool_live p"
      using set_arena_live [of ?p1 ?t a' x] inv1 inv2 t same live_a live1 rec(8)
        pool_live_slab [OF pinv t(1), of x]
      by (auto simp: core_inv_def split: if_splits)
  qed
  have full': "class_full c (set_arena ?t a' ?p1)"
  proof -
    have "is_full a'"
      using afull rec(2,9) by (simp add: is_full_iff_live ainv rec(1))
    then show ?thesis
      using full set_update_subset_insert [of "arenas p" ?t a'] by (auto simp: class_full_def)
  qed
  have mem: "a' \<in> set (arenas (set_arena ?t a' ?p1))"
    using t by (simp add: set_update_memI)
  have "pool_recycle c (p, r) = ((set_arena ?t a' ?p1, r), Ok b)"
    using ne t run by (simp add: pool_recycle_def Let_def)
  moreover have "b \<in> pool_live p"
    using bl pool_live_slab [OF pinv t(1) rec(3)] by simp
  ultimately show thesis
    using that inv2 live full' mem t(2) rec by metis
qed

text \<open>What a successful allocation returns, whatever path it took.\<close>

definition alloc_result :: "SlabClassType \<Rightarrow> SlabPool \<Rightarrow> core_state \<Rightarrow> SlabBlockId \<Rightarrow> bool" where
  "alloc_result c p s b \<longleftrightarrow>
     core_inv s \<and>
     (\<exists>a \<in> set (arenas (fst s)). arena_class a = c \<and> slab_id b = arena_slab_id a \<and>
        unat (slot_index b) < capacity a \<and>
        resolve_slot_ptr b (snd s) = Some (arena_slot_ptr a b)) \<and>
     (b \<notin> pool_live p \<and> pool_live (fst s) = insert b (pool_live p) \<or>
      b \<in> pool_live p \<and> pool_live (fst s) = pool_live p \<and> class_full c (fst s))"

lemma alloc_in_result:
  assumes inv: "core_inv (p, r)" and i: "i < length (arenas p)" "\<not> is_full (arenas p ! i)"
    and cls: "arena_class (arenas p ! i) = c"
  shows "\<exists>p' b. alloc_in i (p, r) = ((p', r), Ok b) \<and> alloc_result c p (p', r) b"
proof -
  from alloc_in_spec [OF inv i] obtain p' b where run: "alloc_in i (p, r) = ((p', r), Ok b)"
    and inv': "core_inv (p', r)" and live: "b \<notin> pool_live p" "pool_live p' = insert b (pool_live p)"
    and b: "slab_id b = arena_slab_id (arenas p ! i)"
      "unat (slot_index b) < slots_per_megaslab (arena_class (arenas p ! i))"
    and same: "pool_sids p' = pool_sids p" "pool_classes p' = pool_classes p" .
  have i': "i < length (arenas p')" using same i by (metis length_map)
  then have mem: "arenas p' ! i \<in> set (arenas p')" by simp
  have a: "arena_slab_id (arenas p' ! i) = arena_slab_id (arenas p ! i)"
    "arena_class (arenas p' ! i) = c"
    using same i i' cls by (metis nth_map)+
  have "arena_inv (arenas p' ! i)"
    using inv' i' by (simp add: core_inv_def pool_inv_arena)
  then have "unat (slot_index b) < capacity (arenas p' ! i)"
    using b(2) cls a by (simp add: arena_inv_def)
  moreover have "resolve_slot_ptr b r = Some (arena_slot_ptr (arenas p' ! i) b)"
    using inv' mem a b by (auto simp: core_inv_def intro: resolve_in_pool)
  ultimately have "alloc_result c p (p', r) b"
    using inv' live mem a b unfolding alloc_result_def by auto
  with run show ?thesis by blast
qed

lemma alloc_result_live_cong:
  "pool_live p = pool_live q \<Longrightarrow> alloc_result c p s b = alloc_result c q s b"
  by (simp add: alloc_result_def)

text \<open>Steps 3 and 4: a free slot of the class, else a recycled one, else exhaustion.\<close>

lemma pool_scan_spec:
  assumes inv: "core_inv (p, r)" and run: "pool_scan c (p, r) = (s', res)"
  shows "(\<exists>b. res = Ok b \<and> alloc_result c p s' b) \<or>
    (res = Err (PoolExhausted c) \<and> s' = (p, r) \<and> c \<notin> set (pool_classes p))"
proof -
  let ?cs = "class_arenas p (class_index c)"
  have pinv: "pool_inv p" using inv by (simp add: core_inv_def)
  have cs: "\<forall>i \<in> set ?cs. i < length (arenas p)" using class_arenas_iff [OF pinv] by blast
  show ?thesis
  proof (cases "List.find (\<lambda>i. \<not> is_full (arenas p ! i)) ?cs")
    case (Some i)
    then have "i \<in> set ?cs" "\<not> is_full (arenas p ! i)"
      by (auto simp: find_Some_iff)
    then have i: "i < length (arenas p)" "arena_class (arenas p ! i) = c" "\<not> is_full (arenas p ! i)"
      using class_arenas_iff [OF pinv] by simp_all
    let ?p1 = "p\<lparr>active_arena := (active_arena p)(class_index c := Some i)\<rparr>"
    have inv1: "core_inv (?p1, r)" by (rule set_active_inv [OF inv i(1,2)])
    obtain p' b where a: "alloc_in i (?p1, r) = ((p', r), Ok b)" "alloc_result c ?p1 (p', r) b"
      using alloc_in_result [OF inv1, of i c] i by auto
    have "pool_live ?p1 = pool_live p" by (simp add: pool_live_def)
    from alloc_result_live_cong [OF this] a(2) have "alloc_result c p (p', r) b" by simp
    then show ?thesis
      using run Some find_not_full_ok [OF cs] a(1) by (auto simp: pool_scan_def Let_def)
  next
    case None
    then have "\<forall>i \<in> set ?cs. is_full (arenas p ! i)" by (auto simp: find_None_iff)
    then have full: "class_full c p"
      using class_arenas_iff [OF pinv] by (metis class_full_def in_set_conv_nth)
    have run': "pool_recycle c (p, r) = (s', res)"
      using run None find_not_full_ok [OF cs] by (simp add: pool_scan_def Let_def)
    show ?thesis
    proof (cases "?cs = []")
      case True
      then have "\<forall>i < length (arenas p). arena_class (arenas p ! i) \<noteq> c"
        using class_arenas_iff [OF pinv, of _ c] by (metis empty_iff list.set(1))
      then have "c \<notin> set (pool_classes p)" by (metis in_set_conv_nth length_map nth_map)
      then show ?thesis using run' True by (simp add: pool_recycle_def Let_def)
    next
      case False
      from pool_recycle_ok [OF inv full False] obtain p' b
        where rec: "pool_recycle c (p, r) = ((p', r), Ok b)" "core_inv (p', r)" "b \<in> pool_live p"
          "pool_live p' = pool_live p" "class_full c p'"
          and "\<exists>a \<in> set (arenas p'). arena_class a = c \<and> slab_id b = arena_slab_id a \<and>
            unat (slot_index b) < capacity a" .
      then have "alloc_result c p (p', r) b"
        unfolding alloc_result_def by (auto simp: core_inv_def intro: resolve_in_pool)
      then show ?thesis using rec(1) run' by simp
    qed
  qed
qed

section \<open>Allocation\<close>

lemma pool_allocate_slow_spec:
  assumes inv: "core_inv (p, r)" and run: "pool_allocate_slow c now ptr (p, r) = (s', res)"
  shows "(\<exists>b. res = Ok b \<and> alloc_result c p s' b) \<or>
    (res = Err (PoolExhausted c) \<and> core_inv s' \<and> pool_live (fst s') = pool_live p \<and>
      c \<notin> set (pool_classes (fst s'))) \<or>
    (\<exists>m. res = Panic m \<and> unat (next_global_slab_id r) = MAX_GLOBAL_SLABS)"
proof (cases "length (arenas p) < max_megaslabs p")
  case False
  then have "pool_scan c (p, r) = (s', res)" using run by (simp add: pool_allocate_slow_def)
  from pool_scan_spec [OF inv this] show ?thesis using inv by auto
next
  case True
  obtain p1 r1 gres where g: "grow c now ptr (p, r) = ((p1, r1), gres)" by (metis prod.collapse)
  show ?thesis
  proof (cases gres)
    case (Ok u)
    note ok = grow_ok [OF inv g [unfolded Ok]]
    let ?n = "length (arenas p1) - 1"
    let ?p2 = "p1\<lparr>active_arena := (active_arena p1)(class_index c := Some ?n)\<rparr>"
    have n: "?n < length (arenas p1)" and last: "last (arenas p1) = arenas p1 ! ?n"
      using ok(3) by (simp_all add: last_conv_nth)
    have inv2: "core_inv (?p2, r1)" using set_active_inv [OF ok(1) n] ok(4) last by simp
    obtain p' b where a: "alloc_in ?n (?p2, r1) = ((p', r1), Ok b)" "alloc_result c ?p2 (p', r1) b"
      using alloc_in_result [OF inv2, of ?n c] n ok(4,5) last by auto
    have "pool_live ?p2 = pool_live p" using ok(2) by (simp add: pool_live_def)
    from alloc_result_live_cong [OF this] a(2) have "alloc_result c p (p', r1) b" by simp
    then show ?thesis
      using run True g Ok a(1) by (auto simp: pool_allocate_slow_def Let_def)
  next
    case (Err e)
    note err = grow_err [OF inv g [unfolded Err]]
    have "pool_scan c (p1, r1) = (s', res)" using run True g Err by (simp add: pool_allocate_slow_def)
    from pool_scan_spec [OF _ this] err alloc_result_live_cong [of p1 p]
    show ?thesis by auto
  next
    case (Panic m)
    then show ?thesis
      using run True g grow_panic [OF inv] by (auto simp: pool_allocate_slow_def)
  qed
qed

lemma pool_allocate_spec:
  assumes inv: "core_inv s" and run: "pool_allocate c now ptr s = (s', res)"
  shows "(\<exists>b. res = Ok b \<and> alloc_result c (fst s) s' b) \<or>
    (res = Err (PoolExhausted c) \<and> core_inv s' \<and> pool_live (fst s') = pool_live (fst s) \<and>
      c \<notin> set (pool_classes (fst s'))) \<or>
    (\<exists>m. res = Panic m \<and> unat (next_global_slab_id (snd s)) = MAX_GLOBAL_SLABS)"
proof -
  obtain p r where s: "s = (p, r)" by (cases s)
  show ?thesis
  proof (cases "active_arena p (class_index c)")
    case None
    then show ?thesis
      using pool_allocate_slow_spec [of p r c now ptr s' res] inv run by (simp add: s pool_allocate_def)
  next
    case (Some i)
    then have i: "i < length (arenas p)" "arena_class (arenas p ! i) = c"
      using inv active_arena_class [of p c i] by (simp_all add: s core_inv_def)
    show ?thesis
    proof (cases "is_full (arenas p ! i)")
      case True
      then show ?thesis
        using pool_allocate_slow_spec [of p r c now ptr s' res] inv run i Some
        by (simp add: s pool_allocate_def)
    next
      case False
      then show ?thesis
        using alloc_in_result [of p r i c] inv run i Some by (auto simp: s pool_allocate_def)
    qed
  qed
qed

section \<open>Release\<close>

lemma pool_deallocate_live:
  assumes inv: "core_inv s" and b: "b \<in> pool_live (fst s)" and run: "pool_deallocate b s = (s', res)"
  shows "res = Ok ()" and "core_inv s'" and "pool_live (fst s') = pool_live (fst s) - {b}"
proof -
  obtain p r where s: "s = (p, r)" by (cases s)
  have pinv: "pool_inv p" using inv by (simp add: s core_inv_def)
  from b obtain i where i: "i < length (arenas p)" "slab_id b = arena_slab_id (arenas p ! i)"
    "b \<in> arena_live (arenas p ! i)" using pool_live_iff [OF pinv] by (auto simp: s)
  let ?a = "arenas p ! i"
  have ainv: "arena_inv ?a" using pinv i(1) by (rule pool_inv_arena)
  obtain a' ares where d: "arena_deallocate b ?a = (a', ares)" by fastforce
  have slot: "unat (slot_index b) \<in> live_slots ?a" using i(3) ainv by (simp add: arena_live_iff)
  note dl = arena_deallocate_live [OF ainv i(2) slot d]
  have rel: "a' = arena_release b ?a" using d by (simp add: arena_release_def)
  have same: "same_slab a' ?a" using dl by (simp add: same_slab_def)
  have inv1: "core_inv (set_arena i a' p, r)"
    using set_arena_inv [OF _ i(1) dl(2) same] inv s by simp
  then have pinv1: "pool_inv (set_arena i a' p)" by (simp add: core_inv_def)
  have live_a: "arena_live a' = arena_live ?a - {b}"
    using arena_alloc.release_live [OF ainv i(3)] rel by simp
  have live1: "pool_live (set_arena i a' p) = pool_live p - {b}"
  proof (rule set_eqI)
    fix x
    show "x \<in> pool_live (set_arena i a' p) \<longleftrightarrow> x \<in> pool_live p - {b}"
      using set_arena_live [OF pinv pinv1 i(1) same, of x] pool_live_slab [OF pinv i(1), of x] live_a
        dl(5) i(2) by (auto split: if_splits)
  qed
  have m: "slab_id_to_arena p (slab_id b) = Some i"
    using pinv i by (simp add: pool_inv_def slab_index_ok_def)
  have cl: "arena_class a' = arena_class ?a" using same by (simp add: same_slab_def)
  let ?s2 = "(set_arena i a' p\<lparr>active_arena := (active_arena p)(class_index (arena_class a') := Some i)\<rparr>, r)"
  have "s' = (set_arena i a' p, r) \<and> res = ares \<or> s' = ?s2 \<and> res = ares"
  proof (cases "active_arena p (class_index (arena_class a'))")
    case None
    then show ?thesis using run m i(1) d by (simp add: s pool_deallocate_def Let_def)
  next
    case (Some j)
    then have "j < length (arenas p)"
      using active_arena_class(1) [OF pinv1, of "arena_class a'" j] by simp
    then show ?thesis
      using run m i(1) d Some by (simp add: s pool_deallocate_def Let_def split: if_splits)
  qed
  then consider "s' = (set_arena i a' p, r)" "res = ares" | "s' = ?s2" "res = ares" by blast
  note cases = this
  have s2: "core_inv ?s2"
    using set_active_inv [OF inv1, of i "arena_class a'"] i(1) by simp
  have live2: "pool_live (fst ?s2) = pool_live p - {b}"
    using live1 by (simp add: pool_live_def)
  show "res = Ok ()" by (rule cases) (simp_all add: dl(1))
  show "core_inv s'" by (rule cases) (simp_all only: inv1 s2)
  show "pool_live (fst s') = pool_live (fst s) - {b}"
    by (rule cases) (use live1 live2 in \<open>simp_all only: s fst_conv\<close>)
qed

lemma pool_deallocate_foreign:
  assumes "core_inv s" and "slab_id b \<notin> set (pool_sids (fst s))"
  shows "pool_deallocate b s = (s, Err (InvalidBlockId (raw_id b)))"
proof -
  have "slab_id_to_arena (fst s) (slab_id b) = None"
  proof (rule ccontr)
    assume "slab_id_to_arena (fst s) (slab_id b) \<noteq> None"
    then obtain i where "slab_id_to_arena (fst s) (slab_id b) = Some i" by auto
    then have "i < length (pool_sids (fst s)) \<and> pool_sids (fst s) ! i = slab_id b"
      using assms(1) unfolding core_inv_def pool_inv_def slab_index_ok_def by blast
    then show False using assms(2) by (metis nth_mem)
  qed
  then show ?thesis by (cases s) (simp add: pool_deallocate_def)
qed

section \<open>Reclaiming empty arenas\<close>

definition in_use :: "MegaslabArena \<Rightarrow> bool" where
  "in_use a \<longleftrightarrow> allocated a \<noteq> 0"

lemma reclaim_empty_loop_spec:
  assumes "pool_base_inv p" and "reg_inv r p" and "i \<le> length (arenas p)"
    and "reclaim_empty_loop i n (p, r) = ((p', r'), m)"
  shows "pool_base_inv p' \<and> reg_inv r' p' \<and> pool_live p' = pool_live p \<and>
    arenas p' = take i (arenas p) @ filter in_use (drop i (arenas p)) \<and>
    m + length (arenas p') = n + length (arenas p) \<and>
    max_megaslabs p' = max_megaslabs p \<and> (m = n \<longrightarrow> p' = p \<and> r' = r)"
  using assms
proof (induction i n "(p, r)" arbitrary: p r p' r' m rule: reclaim_empty_loop.induct)
  case (1 i n p r)
  note base = "1.prems"(1,2)
  show ?case
  proof (cases "i < length (arenas p)")
    case False
    then have "((p', r'), m) = ((p, r), n)"
      using "1.prems"(4) by (simp add: reclaim_empty_loop.simps [of i n p r])
    with False base show ?thesis by simp
  next
    case i: True
    then have drop_i: "drop i (arenas p) = arenas p ! i # drop (Suc i) (arenas p)"
      by (simp add: Cons_nth_drop_Suc)
    show ?thesis
    proof (cases "allocated (arenas p ! i) = 0")
      case True
      have step: "reclaim_empty_loop i (n + 1) (drop_arena i p, arena_drop (arenas p ! i) r) = ((p', r'), m)"
        using "1.prems"(4) i True by (simp add: reclaim_empty_loop.simps [of i n p r] drop_arena_def Let_def)
      have prems: "pool_base_inv (drop_arena i p)" "reg_inv (arena_drop (arenas p ! i) r) (drop_arena i p)"
        "i \<le> length (arenas (drop_arena i p))"
        using base i by (simp_all add: drop_arena_base_inv drop_arena_reg_inv)
      note IH = "1.hyps"(1) [OF i refl True, folded drop_arena_def, OF prems step]
      have "take i (remove_nth i (arenas p)) = take i (arenas p)"
        "drop i (remove_nth i (arenas p)) = drop (Suc i) (arenas p)"
        using i by (simp_all add: remove_nth_def)
      note td = this
      have arenas': "arenas p' = take i (arenas p) @ filter in_use (drop i (arenas p))"
        using IH td True drop_i by (simp add: in_use_def)
      have "length (arenas p') \<le> i + length (drop (Suc i) (arenas p))"
        using IH td i length_filter_le [of in_use "drop (Suc i) (arenas p)"] by simp
      with i have le: "length (arenas p') < length (arenas p)" by simp
      have "m + length (arenas p') = n + 1 + length (arenas (drop_arena i p))" using IH by blast
      moreover have "length (arenas (drop_arena i p)) = length (arenas p) - 1" using i by simp
      ultimately have sum: "m + length (arenas p') = n + length (arenas p)" using i by linarith
      show ?thesis
        using IH arenas' le sum drop_empty_arena_live [OF base(1) i True] by simp
    next
      case False
      have step: "reclaim_empty_loop (i + 1) n (p, r) = ((p', r'), m)"
        using "1.prems"(4) i False by (simp add: reclaim_empty_loop.simps [of i n p r])
      have "i + 1 \<le> length (arenas p)" using i by simp
      note IH = "1.hyps"(2) [OF i refl False base this step]
      have "arenas p' = take i (arenas p) @ filter in_use (drop i (arenas p))"
        using IH False drop_i i by (simp add: in_use_def take_Suc_conv_app_nth)
      with IH show ?thesis by blast
    qed
  qed
qed

lemma reclaim_empty_spec:
  assumes inv: "core_inv s" and run: "reclaim_empty_arenas s = (s', n)"
  shows "core_inv s'" and "pool_live (fst s') = pool_live (fst s)"
    and "arenas (fst s') = filter in_use (arenas (fst s))"
    and "n + length (arenas (fst s')) = length (arenas (fst s))"
proof -
  obtain p r where s: "s = (p, r)" by (cases s)
  obtain p1 r1 m where loop: "reclaim_empty_loop 0 0 (p, r) = ((p1, r1), m)" by (metis prod.collapse)
  have base: "pool_base_inv p" "reg_inv r p" using inv by (simp_all add: s core_inv_def pool_inv_def)
  note sp = reclaim_empty_loop_spec [OF base _ loop, simplified]
  have s': "s' = (if m > 0 then rebuild_indices p1 else p1, r1)" "n = m"
    using run loop by (auto simp: s reclaim_empty_arenas_def)
  show "core_inv s'"
    using sp s' inv by (auto simp: s core_inv_def rebuild_inv)
  show "pool_live (fst s') = pool_live (fst s)" "arenas (fst s') = filter in_use (arenas (fst s))"
    "n + length (arenas (fst s')) = length (arenas (fst s))"
    using sp s' by (auto simp: s)
qed

section \<open>A full class\<close>

lemma full_class_recycles:
  assumes inv: "core_inv (p, r)" and full: "class_full c p" and cls: "c \<in> set (pool_classes p)"
    and cap: "length (arenas p) = max_megaslabs p"
  obtains p' b where "pool_allocate c now ptr (p, r) = ((p', r), Ok b)" "core_inv (p', r)"
    "b \<in> pool_live p" "pool_live p' = pool_live p"
proof -
  let ?cs = "class_arenas p (class_index c)"
  have pinv: "pool_inv p" using inv by (simp add: core_inv_def)
  have cs: "\<forall>i \<in> set ?cs. i < length (arenas p)" using class_arenas_iff [OF pinv] by blast
  have "List.find (\<lambda>i. \<not> is_full (arenas p ! i)) ?cs = None"
    using full class_arenas_iff [OF pinv] by (auto simp: find_None_iff class_full_def)
  then have scan: "pool_scan c (p, r) = pool_recycle c (p, r)"
    using find_not_full_ok [OF cs] by (simp add: pool_scan_def Let_def)
  have slow: "pool_allocate_slow c now ptr (p, r) = pool_recycle c (p, r)"
    using cap scan by (simp add: pool_allocate_slow_def)
  have "pool_allocate c now ptr (p, r) = pool_recycle c (p, r)"
  proof (cases "active_arena p (class_index c)")
    case (Some i)
    then have "i < length (arenas p)" "arena_class (arenas p ! i) = c"
      using active_arena_class [OF pinv] by simp_all
    then have "is_full (arenas p ! i)" using full by (auto simp: class_full_def)
    then show ?thesis using Some \<open>i < length (arenas p)\<close> slow by (simp add: pool_allocate_def)
  qed (simp add: pool_allocate_def slow)
  moreover have "?cs \<noteq> []"
    using cls class_arenas_iff [OF pinv, of _ c] by (metis emptyE in_set_conv_nth length_map list.set(1) nth_map)
  ultimately show ?thesis using pool_recycle_ok [OF inv full] that by metis
qed

end
