(* ===== verification/Pool_Run.thy ===== *)
theory Pool_Run
  imports Pool_Alloc
begin

text \<open>
  The slab pool as a state machine: the calls a worker makes of \<open>SlabPool\<close> as a step relation,
  and what holds in every state it can reach from \<open>SlabPool::new\<close>. A panicking call has no
  step: the worker thread unwinds.
\<close>

section \<open>Steps and reachable states\<close>

datatype pool_call = Allocate SlabClassType u32 u64 | Deallocate SlabBlockId | ReclaimEmpty | TickSecond u32

inductive pool_step :: "core_state \<Rightarrow> pool_call \<Rightarrow> core_state \<Rightarrow> bool" where
  allocate_ok: "pool_allocate c now ptr s = (s', Ok b) \<Longrightarrow> pool_step s (Allocate c now ptr) s'"
| allocate_err: "pool_allocate c now ptr s = (s', Err e) \<Longrightarrow> pool_step s (Allocate c now ptr) s'"
| deallocate_ok: "pool_deallocate b s = (s', Ok ()) \<Longrightarrow> pool_step s (Deallocate b) s'"
| deallocate_err: "pool_deallocate b s = (s', Err e) \<Longrightarrow> pool_step s (Deallocate b) s'"
| reclaim_empty: "reclaim_empty_arenas s = (s', n) \<Longrightarrow> pool_step s ReclaimEmpty s'"
| tick: "pool_step (p, r) (TickSecond now) (tick_second now p, r)"

inductive_cases pool_step_elims:
  "pool_step s (Allocate c now ptr) s'"
  "pool_step s (Deallocate b) s'"
  "pool_step s ReclaimEmpty s'"
  "pool_step s (TickSecond now) s'"

text \<open>
  \<open>deallocate\<close> checks only that an arena has the slab id; that the handle is live is up to the caller. A run
  is therefore taken under a discipline \<open>ok\<close> on the calls, and \<open>frees_live\<close> is the one that the caller of
  \<open>deallocate\<close> has to keep: free live handles, or handles of slabs that the pool does not hold.
\<close>

inductive pool_run :: "(core_state \<Rightarrow> pool_call \<Rightarrow> bool) \<Rightarrow> core_state \<Rightarrow> pool_call list \<Rightarrow> core_state \<Rightarrow> bool"
  for ok where
  run_nil: "pool_run ok s [] s"
| run_snoc: "pool_run ok s cs s1 \<Longrightarrow> ok s1 c \<Longrightarrow> pool_step s1 c s2 \<Longrightarrow> pool_run ok s (cs @ [c]) s2"

fun frees_live :: "core_state \<Rightarrow> pool_call \<Rightarrow> bool" where
  "frees_live s (Deallocate b) \<longleftrightarrow> b \<in> pool_live (fst s) \<or> slab_id b \<notin> set (pool_sids (fst s))"
| "frees_live s _ \<longleftrightarrow> True"

lemma length_fold_touch [simp]:
  "length (fold (\<lambda>(i, a) ts. if allocated a > 0 then ts[i := now] else ts) xs ts) = length ts"
  by (induction xs arbitrary: ts) auto

lemma tick_second_inv:
  assumes "core_inv (p, r)"
  shows "core_inv (tick_second now p, r)" "pool_live (tick_second now p) = pool_live p"
  using assms
  by (simp_all add: core_inv_def pool_inv_def pool_base_inv_def reg_inv_def pool_live_def tick_second_def)

lemma pool_step_inv:
  assumes "pool_step s c s'" "core_inv s" "frees_live s c"
  shows "core_inv s'"
  using assms(1)
proof cases
  case (allocate_ok c now ptr b)
  then show ?thesis using pool_allocate_spec [OF assms(2) allocate_ok(2)] by (simp add: alloc_result_def)
next
  case (allocate_err c now ptr e)
  then show ?thesis using pool_allocate_spec [OF assms(2) allocate_err(2)] by simp
next
  case (deallocate_ok b)
  then show ?thesis
    using pool_deallocate_live(2) [OF assms(2) _ deallocate_ok(2)] pool_deallocate_foreign [OF assms(2), of b] assms(3) by auto
next
  case (deallocate_err b e)
  then show ?thesis
    using pool_deallocate_live(2) [OF assms(2) _ deallocate_err(2)] pool_deallocate_foreign [OF assms(2), of b] assms(2,3) by auto
next
  case (reclaim_empty n)
  then show ?thesis using reclaim_empty_spec(1) [OF assms(2)] by blast
next
  case (tick p r now)
  then show ?thesis using tick_second_inv assms(2) by simp
qed

lemma pool_run_inv:
  assumes "pool_run frees_live s cs s'" "core_inv s"
  shows "core_inv s'"
  using assms by (induction rule: pool_run.induct) (auto intro: pool_step_inv)

lemma max_megaslabs_fixed:
  assumes "core_inv s"
  shows "length (arenas (fst s)) \<le> max_megaslabs (fst s)"
    "claimed (app_quota (fst s)) + claimed (tensor_quota (fst s)) = length (arenas (fst s))"
  using assms held_sum [of "pool_classes (fst s)"]
  by (simp_all add: core_inv_def pool_inv_def pool_base_inv_def)

lemma live_resolves:
  assumes inv: "core_inv s" and b: "b \<in> pool_live (fst s)"
  obtains a where "a \<in> set (arenas (fst s))" "slab_id b = arena_slab_id a"
    "unat (slot_index b) < slots_per_megaslab (arena_class a)"
    "resolve_slot_ptr b (snd s) = Some (base a + of_nat (slot_offset (arena_class a) (unat (slot_index b))))"
proof -
  obtain a where a: "a \<in> set (arenas (fst s))" "b \<in> arena_live a" using b by (auto simp: pool_live_def)
  have ai: "arena_inv a" and ri: "reg_inv (snd s) (fst s)"
    using inv a(1) by (auto simp: core_inv_def pool_inv_def pool_base_inv_def)
  have sid: "slab_id b = arena_slab_id a" and slot: "unat (slot_index b) \<in> live_slots a"
    using a(2) ai by (simp_all add: arena_live_iff)
  have "unat (slot_index b) < slots_per_megaslab (arena_class a)"
    using slot live_slots_sub [OF ai] ai by (auto simp: arena_inv_def)
  moreover have "resolve_slot_ptr b (snd s) = Some (base a + of_nat (slot_offset (arena_class a) (unat (slot_index b))))"
    using resolve_in_pool [OF ri a(1) sid] by (simp add: arena_slot_ptr_def slot_offset_def)
  ultimately show ?thesis using that a(1) sid by blast
qed

section \<open>Properties\<close>

text \<open>\<^bold>\<open>C17.\<close> Every state that calls of the pool reach from \<open>SlabPool::new\<close>, when \<open>deallocate\<close> is called only
  with live handles or with handles of slabs that the pool does not hold, satisfies the pool invariant:
  the index structures agree with the arenas, at most \<open>max_megaslabs\<close> arenas exist, the claimed
  quotas count them, and every live handle resolves through the registry to its own slot. The code does
  not check this condition; freeing a handle twice breaks the invariant.\<close>

theorem pool_reachable_invariant:
  assumes "pool_run frees_live (SlabPool_new core n, Registry_init) cs s"
  shows "core_inv s \<and> length (arenas (fst s)) \<le> max_megaslabs (fst s) \<and>
    claimed (app_quota (fst s)) + claimed (tensor_quota (fst s)) = length (arenas (fst s)) \<and>
    (\<forall>b \<in> pool_live (fst s). \<exists>a \<in> set (arenas (fst s)).
       slab_id b = arena_slab_id a \<and> unat (slot_index b) < slots_per_megaslab (arena_class a) \<and>
       resolve_slot_ptr b (snd s) = Some (base a + of_nat (slot_offset (arena_class a) (unat (slot_index b)))))"
proof -
  have inv: "core_inv s" using pool_run_inv [OF assms core_inv_init] .
  with max_megaslabs_fixed [OF inv] live_resolves [OF inv] show ?thesis by metis
qed

lemma example_quota:
  "WorkloadQuota_new 2 APP_CACHE_DEFAULT_RATIO APP_CACHE_MAX_RATIO = \<lparr>target = 0, ceiling = 1, claimed = 0\<rparr>"
  by (simp add: WorkloadQuota_new_def f64_floor_usize_def f64_mul_def f64_of_usize_def f64_round_def
      APP_CACHE_DEFAULT_RATIO_def APP_CACHE_MAX_RATIO_def Let_def bit_length.simps)

definition example_core :: core_state where
  "example_core = fst (pool_allocate AppSmall 1 4096 (SlabPool_new 0 4194304, Registry_init))"

lemma example_allocate:
  "pool_allocate AppSmall 1 4096 (SlabPool_new 0 4194304, Registry_init) = (example_core, Ok (SlabBlockId_new 1 0))"
proof -
  have "snd (pool_allocate AppSmall 1 4096 (SlabPool_new 0 4194304, Registry_init)) = Ok (SlabBlockId_new 1 0)"
    by (simp add: pool_allocate_def pool_allocate_slow_def SlabPool_new_def Registry_init_def grow_def
        example_quota geometry Let_def can_borrow_def allocate_global_slab_id_def MegaslabArena_new_def
        alloc_in_def arena_allocate_def quota_claim_def MAX_GLOBAL_SLABS_def)
  then show ?thesis by (simp add: example_core_def prod_eq_iff)
qed

lemma example_core_live: "core_inv example_core" "pool_live (fst example_core) = {SlabBlockId_new 1 0}"
  using pool_allocate_spec [OF core_inv_init example_allocate] by (auto simp: alloc_result_def pool_live_init)

theorem pool_reachable_invariant_witness:
  "\<exists>s. pool_run frees_live (SlabPool_new 0 4194304, Registry_init) [Allocate AppSmall 1 4096, Deallocate (SlabBlockId_new 1 0)] s \<and>
     core_inv s \<and> length (arenas (fst s)) \<le> max_megaslabs (fst s)"
proof -
  obtain s res where d: "pool_deallocate (SlabBlockId_new 1 0) example_core = (s, res)" by fastforce
  have res: "res = Ok ()" using pool_deallocate_live [OF example_core_live(1) _ d] example_core_live(2) by simp
  have "pool_run frees_live (SlabPool_new 0 4194304, Registry_init) ([] @ [Allocate AppSmall 1 4096]) example_core"
    by (rule run_snoc [OF run_nil _ allocate_ok [OF example_allocate]]) simp
  then have "pool_run frees_live (SlabPool_new 0 4194304, Registry_init) (([] @ [Allocate AppSmall 1 4096]) @ [Deallocate (SlabBlockId_new 1 0)]) s"
    by (rule run_snoc [OF _ _ deallocate_ok [OF d [unfolded res]]]) (simp add: example_core_live(2))
  then show ?thesis using pool_reachable_invariant by (intro exI [of _ s]) auto
qed

text \<open>Freeing twice: the second call succeeds as well, and the slot is on the free list twice, to be handed
  out to two owners.\<close>

lemma pool_deallocate_arenas:
  assumes "slab_id_to_arena p (slab_id b) = Some i" "i < length (arenas p)" "pool_deallocate b (p, r) = ((p', r'), res)"
  shows "slab_id_to_arena p' = slab_id_to_arena p" "arenas p' = (arenas p)[i := fst (arena_deallocate b (arenas p ! i))]"
  using assms by (auto simp: pool_deallocate_def Let_def split: prod.splits if_splits option.splits)

theorem double_free_breaks_invariant:
  assumes inv: "core_inv s" and b: "b \<in> pool_live (fst s)"
    and run: "pool_deallocate b s = (s1, res1)" "pool_deallocate b s1 = (s2, res2)"
  shows "\<not> core_inv s2"
proof
  assume inv2: "core_inv s2"
  obtain p r p1 r1 p2 r2 where s: "s = (p, r)" "s1 = (p1, r1)" "s2 = (p2, r2)" by (metis prod.exhaust_sel)
  have pinv: "pool_inv p" using inv by (simp add: s core_inv_def)
  from b obtain i where "i < length (arenas p)" "slab_id b = arena_slab_id (arenas p ! i)"
    using pool_live_iff [OF pinv] by (auto simp: s)
  then have i: "slab_id_to_arena p (slab_id b) = Some i" "i < length (arenas p)" "arena_slab_id (arenas p ! i) = slab_id b"
    using pinv by (simp_all add: pool_inv_def slab_index_ok_def)
  note d1 = pool_deallocate_arenas [OF i(1,2) run(1) [unfolded s]]
  have i1: "slab_id_to_arena p1 (slab_id b) = Some i" "i < length (arenas p1)" using d1 i by simp_all
  note d2 = pool_deallocate_arenas [OF i1 run(2) [unfolded s]]
  have "\<not> distinct (free_slots (arenas p2 ! i))"
    using d1(2) d2(2) i by (simp add: arena_deallocate_def drop_allocated_def)
  moreover have "arena_inv (arenas p2 ! i)"
    by (rule pool_inv_arena) (use inv2 d1(2) d2(2) i(2) in \<open>simp_all add: s core_inv_def\<close>)
  ultimately show False by (simp add: arena_inv_def)
qed

text \<open>\<^bold>\<open>C18.\<close> Allocation: from a good state \<open>allocate\<close> either returns a handle into an arena of the class
  (resolved by the registry to its slot) that is new, or, only when every arena of the class is
  full, one that is recycled; or it reports \<open>PoolExhausted\<close> and then no arena of the class
  exists and nothing is lost; or it panics because the global slab ids are used up.\<close>

theorem pool_allocate_outcomes:
  assumes "core_inv s"
  shows "case pool_allocate c now ptr s of
      (s', Ok b) \<Rightarrow> core_inv s' \<and>
        (\<exists>a \<in> set (arenas (fst s')). arena_class a = c \<and> slab_id b = arena_slab_id a \<and>
           unat (slot_index b) < capacity a \<and> resolve_slot_ptr b (snd s') = Some (arena_slot_ptr a b)) \<and>
        (if b \<in> pool_live (fst s) then class_full c (fst s') \<and> pool_live (fst s') = pool_live (fst s)
         else pool_live (fst s') = insert b (pool_live (fst s)))
    | (s', Err e) \<Rightarrow> e = PoolExhausted c \<and> core_inv s' \<and> pool_live (fst s') = pool_live (fst s) \<and>
        c \<notin> set (pool_classes (fst s'))
    | (s', Panic m) \<Rightarrow> unat (next_global_slab_id (snd s)) = MAX_GLOBAL_SLABS"
proof -
  obtain s' res where run: "pool_allocate c now ptr s = (s', res)" by fastforce
  from pool_allocate_spec [OF assms run] run show ?thesis by (auto simp: alloc_result_def)
qed

theorem pool_allocate_outcomes_witness: "pool_live (fst example_core) = {SlabBlockId_new 1 0}"
  using pool_allocate_outcomes [OF core_inv_init [of 0 4194304], of AppSmall 1 4096] example_allocate
  by (simp add: pool_live_init)

text \<open>Release: \<open>deallocate\<close> of a live handle succeeds, keeps the invariant and removes exactly that
  handle; a handle of a slab the pool does not hold is refused with nothing changed.\<close>

theorem pool_deallocate_outcomes:
  assumes "core_inv s"
  shows "(b \<in> pool_live (fst s) \<longrightarrow>
      (\<exists>s'. pool_deallocate b s = (s', Ok ()) \<and> core_inv s' \<and> pool_live (fst s') = pool_live (fst s) - {b})) \<and>
    (slab_id b \<notin> set (pool_sids (fst s)) \<longrightarrow> pool_deallocate b s = (s, Err (InvalidBlockId (raw_id b))))"
proof -
  obtain s' res where run: "pool_deallocate b s = (s', res)" by fastforce
  from pool_deallocate_live [OF assms _ run] pool_deallocate_foreign [OF assms, of b] run
  show ?thesis by auto
qed

theorem pool_deallocate_outcomes_witness:
  "\<exists>s'. pool_deallocate (SlabBlockId_new 1 0) example_core = (s', Ok ()) \<and> pool_live (fst s') = {}"
  using pool_deallocate_outcomes [OF example_core_live(1), of "SlabBlockId_new 1 0"] example_core_live(2) by auto

text \<open>Reclamation: \<open>reclaim_empty_arenas\<close> drops exactly the arenas without a live slot, returns
  their number, frees no live handle and keeps the invariant.\<close>

theorem reclaim_empty_outcome:
  assumes "core_inv s"
  shows "\<exists>s' n. reclaim_empty_arenas s = (s', n) \<and> core_inv s' \<and> pool_live (fst s') = pool_live (fst s) \<and>
    arenas (fst s') = filter in_use (arenas (fst s)) \<and>
    n + length (arenas (fst s')) = length (arenas (fst s))"
proof -
  obtain s' n where run: "reclaim_empty_arenas s = (s', n)" by fastforce
  from reclaim_empty_spec [OF assms run] run show ?thesis by blast
qed

theorem reclaim_empty_outcome_witness:
  "\<exists>s' n. reclaim_empty_arenas example_core = (s', n) \<and> pool_live (fst s') = {SlabBlockId_new 1 0}"
  using reclaim_empty_outcome [OF example_core_live(1)] example_core_live(2) by auto

text \<open>A pool that holds its last megaslab and has no free slot of a class does not fail: it returns
  the handle of a slot that is still live, so two owners share it from then on.\<close>

theorem full_pool_hands_out_live_slot:
  assumes "core_inv (p, r)" "class_full c p" "c \<in> set (pool_classes p)" "length (arenas p) = max_megaslabs p"
  shows "\<exists>p' b. pool_allocate c now ptr (p, r) = ((p', r), Ok b) \<and> b \<in> pool_live p \<and> pool_live p' = pool_live p"
  using full_class_recycles [OF assms] by metis

definition example_full_arena :: MegaslabArena where
  "example_full_arena =
     \<lparr>base = 4096, arena_class = Tensor2MB, arena_slab_id = 1, next_free_slot = 1, capacity = 1,
      free_slots = [], recycle_cursor = 0,
      header = \<lparr>magic = MEGASLAB_MAGIC, hdr_slab_id = 1, hdr_class_type = 12, total_slots = 1,
                allocated_slots = 1, owning_core = 0\<rparr>\<rparr>"

definition example_full_pool :: SlabPool where
  "example_full_pool =
     \<lparr>core_id = 0, arenas = [example_full_arena], active_arena = (\<lambda>_. None)(5 := Some 0),
      class_arenas = (\<lambda>_. [])(5 := [0]), recycle_arena_cursor = (\<lambda>_. 0),
      slab_id_to_arena = [1 \<mapsto> 0], max_megaslabs = 1, app_quota = \<lparr>target = 0, ceiling = 0, claimed = 0\<rparr>,
      tensor_quota = \<lparr>target = 0, ceiling = 0, claimed = 1\<rparr>, arena_last_active_sec = [0]\<rparr>"

definition example_full_registry :: Registry where
  "example_full_registry =
     Registry_init\<lparr>next_global_slab_id := 2,
       global_arenas := (\<lambda>_. ArenaEntry_new)(1 := \<lparr>base_ptr = 4096, ae_slot_bytes = 2097152\<rparr>)\<rparr>"

lemma example_full_inv: "core_inv (example_full_pool, example_full_registry)"
proof -
  have "{..<Suc 0} = {0}" by auto
  then have "arena_inv example_full_arena"
    by (simp add: arena_inv_def example_full_arena_def live_slots_def)
  then have "pool_base_inv example_full_pool"
    by (simp add: pool_base_inv_def example_full_pool_def) (simp add: example_full_arena_def)
  moreover have "pool_sids example_full_pool = [1]" "pool_classes example_full_pool = [Tensor2MB]"
    by (simp_all add: example_full_pool_def example_full_arena_def)
  moreover have "slab_index_ok [1 \<mapsto> 0] [1]" by (simp add: slab_index_ok_def) auto
  moreover have "class_index_ok ((\<lambda>_. [])(5 := [0])) [Tensor2MB]"
    unfolding class_index_ok_def by (intro allI, case_tac c) simp_all
  moreover have "active_index_ok ((\<lambda>_. None)(5 := Some 0)) [Tensor2MB]"
    unfolding active_index_ok_def by (intro allI, case_tac c) simp_all
  moreover have "reg_inv example_full_registry example_full_pool"
    by (simp add: reg_inv_def example_full_registry_def example_full_pool_def example_full_arena_def
        Registry_init_def MAX_GLOBAL_SLABS_def geometry)
  ultimately show ?thesis
    by (simp add: core_inv_def pool_inv_def) (simp add: example_full_pool_def)
qed

theorem full_pool_hands_out_live_slot_witness:
  "\<exists>p' b. pool_allocate Tensor2MB 0 0 (example_full_pool, example_full_registry) =
     ((p', example_full_registry), Ok b) \<and> b \<in> pool_live example_full_pool"
  using full_pool_hands_out_live_slot [OF example_full_inv, of Tensor2MB 0 0]
  by (auto simp: class_full_def example_full_pool_def is_full_def example_full_arena_def)

end
