(* ===== verification/Timing_Wheel.thy ===== *)
theory Timing_Wheel
  imports Pool_Run
begin

text \<open>
  \<open>crates/kachedb-core/src/timing_wheel.rs\<close>: the hashed timing wheel. The \<open>while\<close> loops count
  \<open>current_tick_sec\<close> (a \<open>u32\<close> that wraps) up to \<open>now_sec\<close>; at \<open>now_sec = u32::MAX\<close> they never
  end, so they are \<open>partial_function (option)\<close>. The ring of buckets is related to the timeline
  of due ticks it stands for.
\<close>

section \<open>State and operations\<close>

definition WHEEL_BUCKETS :: nat where "WHEEL_BUCKETS = 3600"

record ExpireEntry =
  ee_key_hash :: u64
  ee_slab_block_id :: SlabBlockId
  ee_expire_at_sec :: u32

record HashedTimingWheel =
  buckets :: "ExpireEntry list list"
  current_tick_sec :: u32

definition HashedTimingWheel_new :: "u32 \<Rightarrow> HashedTimingWheel" where
  "HashedTimingWheel_new start_sec =
     \<lparr>buckets = replicate WHEEL_BUCKETS [], current_tick_sec = start_sec\<rparr>"

definition push_bucket :: "nat \<Rightarrow> ExpireEntry \<Rightarrow> HashedTimingWheel \<Rightarrow> HashedTimingWheel" where
  "push_bucket i e w = w\<lparr>buckets := (buckets w)[i := buckets w ! i @ [e]]\<rparr>"

definition schedule :: "u64 \<Rightarrow> SlabBlockId \<Rightarrow> u32 \<Rightarrow> HashedTimingWheel \<Rightarrow> HashedTimingWheel" where
  "schedule h b ex w =
     (let e = \<lparr>ee_key_hash = h, ee_slab_block_id = b, ee_expire_at_sec = ex\<rparr>;
          cur = current_tick_sec w
      in if ex \<le> cur then push_bucket (unat cur mod WHEEL_BUCKETS) e w
         else (let delta = ex - cur;
                   target_idx = (if unat delta < WHEEL_BUCKETS then unat ex mod WHEEL_BUCKETS
                                 else (unat cur + WHEEL_BUCKETS - 1) mod WHEEL_BUCKETS)
               in push_bucket target_idx e w))"

definition head_bucket :: "HashedTimingWheel \<Rightarrow> ExpireEntry list" where
  "head_bucket w = buckets w ! (unat (current_tick_sec w) mod WHEEL_BUCKETS)"

definition tick_head :: "HashedTimingWheel \<Rightarrow> HashedTimingWheel" where
  "tick_head w =
     w\<lparr>buckets := (buckets w)[unat (current_tick_sec w) mod WHEEL_BUCKETS := []],
       current_tick_sec := current_tick_sec w + 1\<rparr>"

partial_function (option) advance_expired_entries ::
    "u32 \<Rightarrow> HashedTimingWheel \<Rightarrow> ExpireEntry list \<Rightarrow> (HashedTimingWheel \<times> ExpireEntry list) option" where
  "advance_expired_entries now w out =
     (if current_tick_sec w \<le> now
      then advance_expired_entries now (tick_head w) (out @ head_bucket w)
      else Some (w, out))"

text \<open>The inner loop of \<open>advance_to\<close>.\<close>

fun free_expired :: "ExpireEntry list \<Rightarrow> core_state \<Rightarrow> nat \<Rightarrow> core_state \<times> (nat, unit) outcome" where
  "free_expired [] s n = (s, Ok n)"
| "free_expired (e # es) s n =
     (case pool_deallocate (ee_slab_block_id e) s of
        (s', Ok _) \<Rightarrow> free_expired es s' (n + 1)
      | (s', Err _) \<Rightarrow> free_expired es s' n
      | (s', Panic m) \<Rightarrow> (s', Panic m))"

partial_function (option) advance_to ::
    "u32 \<Rightarrow> HashedTimingWheel \<Rightarrow> core_state \<Rightarrow> nat \<Rightarrow> ((HashedTimingWheel \<times> core_state) \<times> (nat, unit) outcome) option" where
  "advance_to now w s n =
     (if current_tick_sec w \<le> now
      then (case free_expired (head_bucket w) s n of
              (s', Ok n') \<Rightarrow> advance_to now (tick_head w) s' n'
            | (s', Err u) \<Rightarrow> Some ((w, s'), Err u)
            | (s', Panic m) \<Rightarrow> Some ((w, s'), Panic m))
      else Some ((w, s), Ok n))"

declare advance_expired_entries.simps [code] advance_to.simps [code]

section \<open>The timeline of the wheel\<close>

definition wheel_inv :: "HashedTimingWheel \<Rightarrow> bool" where [inv_defs]:
  "wheel_inv w \<longleftrightarrow> length (buckets w) = WHEEL_BUCKETS"

text \<open>What is due at tick \<open>d\<close>, for the ticks of one revolution from the head.\<close>

definition due_at :: "HashedTimingWheel \<Rightarrow> nat \<Rightarrow> ExpireEntry list" where
  "due_at w d =
     (if unat (current_tick_sec w) \<le> d \<and> d < unat (current_tick_sec w) + WHEEL_BUCKETS
      then buckets w ! (d mod WHEEL_BUCKETS) else [])"

definition due_tick :: "u32 \<Rightarrow> u32 \<Rightarrow> nat" where
  "due_tick cur ex =
     (if ex \<le> cur then unat cur
      else if unat ex < unat cur + WHEEL_BUCKETS then unat ex
      else unat cur + WHEEL_BUCKETS - 1)"

lemma wheel_new: "wheel_inv (HashedTimingWheel_new s)" "due_at (HashedTimingWheel_new s) d = []"
  by (simp_all add: wheel_inv_def HashedTimingWheel_new_def due_at_def WHEEL_BUCKETS_def)

lemma window_mod_inject:
  assumes "(t::nat) \<le> d" "d < t + n" "t \<le> d'" "d' < t + n" "d mod n = d' mod n"
  shows "d = d'"
proof -
  have le: "x = y" if "x \<le> y" "y < x + n" "x mod n = y mod n" for x y
  proof -
    have "n dvd y - x" using that by (metis mod_eq_dvd_iff_nat)
    then show ?thesis using that dvd_imp_le [of n "y - x"] by (cases "y - x") auto
  qed
  show ?thesis using le [of d d'] le [of d' d] assms by (cases "d \<le> d'") auto
qed

lemma wheel_pos [simp]: "0 < WHEEL_BUCKETS"
  by (simp add: WHEEL_BUCKETS_def)

lemma push_due:
  assumes w: "wheel_inv w" and d: "unat (current_tick_sec w) \<le> d" "d < unat (current_tick_sec w) + WHEEL_BUCKETS"
  shows "wheel_inv (push_bucket (d mod WHEEL_BUCKETS) e w)"
    "due_at (push_bucket (d mod WHEEL_BUCKETS) e w) = (due_at w)(d := due_at w d @ [e])"
    "current_tick_sec (push_bucket (d mod WHEEL_BUCKETS) e w) = current_tick_sec w"
proof -
  show "wheel_inv (push_bucket (d mod WHEEL_BUCKETS) e w)"
    "current_tick_sec (push_bucket (d mod WHEEL_BUCKETS) e w) = current_tick_sec w"
    using w by (simp_all add: wheel_inv_def push_bucket_def)
  show "due_at (push_bucket (d mod WHEEL_BUCKETS) e w) = (due_at w)(d := due_at w d @ [e])"
  proof
    fix x
    show "due_at (push_bucket (d mod WHEEL_BUCKETS) e w) x = ((due_at w)(d := due_at w d @ [e])) x"
    proof (cases "x mod WHEEL_BUCKETS = d mod WHEEL_BUCKETS")
      case True
      show ?thesis
      proof (cases "x = d")
        case True
        then show ?thesis using d w by (simp add: due_at_def push_bucket_def wheel_inv_def)
      next
        case False
        then have "\<not> (unat (current_tick_sec w) \<le> x \<and> x < unat (current_tick_sec w) + WHEEL_BUCKETS)"
          using d True window_mod_inject [of "unat (current_tick_sec w)" d WHEEL_BUCKETS x] by metis
        with False show ?thesis by (auto simp: due_at_def push_bucket_def)
      qed
    next
      case False
      then show ?thesis by (auto simp: due_at_def push_bucket_def)
    qed
  qed
qed

lemma schedule_due:
  fixes h b ex
  assumes w: "wheel_inv w"
  defines "e \<equiv> \<lparr>ee_key_hash = h, ee_slab_block_id = b, ee_expire_at_sec = ex\<rparr>"
    and "d \<equiv> due_tick (current_tick_sec w) ex"
  shows "wheel_inv (schedule h b ex w)" "due_at (schedule h b ex w) = (due_at w)(d := due_at w d @ [e])"
    "current_tick_sec (schedule h b ex w) = current_tick_sec w"
proof -
  have d: "unat (current_tick_sec w) \<le> d" "d < unat (current_tick_sec w) + WHEEL_BUCKETS"
    by (auto simp: d_def due_tick_def WHEEL_BUCKETS_def word_le_nat_alt)
  have "schedule h b ex w = push_bucket (d mod WHEEL_BUCKETS) e w"
  proof (cases "ex \<le> current_tick_sec w")
    case True
    then show ?thesis by (simp add: schedule_def Let_def d_def e_def due_tick_def)
  next
    case False
    then have "unat (ex - current_tick_sec w) = unat ex - unat (current_tick_sec w)"
      "unat (current_tick_sec w) < unat ex"
      by (simp_all add: unat_sub word_less_nat_alt word_le_nat_alt)
    then have "unat (ex - current_tick_sec w) < WHEEL_BUCKETS \<longleftrightarrow> unat ex < unat (current_tick_sec w) + WHEEL_BUCKETS"
      by linarith
    with False show ?thesis by (simp add: schedule_def Let_def d_def e_def due_tick_def)
  qed
  then show "wheel_inv (schedule h b ex w)" "due_at (schedule h b ex w) = (due_at w)(d := due_at w d @ [e])"
    "current_tick_sec (schedule h b ex w) = current_tick_sec w"
    using push_due [OF w d, of e] by simp_all
qed

lemma tick_head_due:
  assumes w: "wheel_inv w" and t: "unat (current_tick_sec w) < 2 ^ 32 - 1"
  shows "wheel_inv (tick_head w)" "head_bucket w = due_at w (unat (current_tick_sec w))"
    "due_at (tick_head w) = (due_at w)(unat (current_tick_sec w) := [])"
    "unat (current_tick_sec (tick_head w)) = Suc (unat (current_tick_sec w))"
proof -
  let ?t = "unat (current_tick_sec w)"
  have next_tick: "unat (current_tick_sec w + 1) = Suc ?t"
    using t by (simp add: unat_word_ariths)
  show "wheel_inv (tick_head w)" using w by (simp add: wheel_inv_def tick_head_def)
  show "head_bucket w = due_at w ?t" by (simp add: head_bucket_def due_at_def WHEEL_BUCKETS_def)
  show "unat (current_tick_sec (tick_head w)) = Suc ?t" using next_tick by (simp add: tick_head_def)
  show "due_at (tick_head w) = (due_at w)(?t := [])"
  proof
    fix x
    have far: "(?t + WHEEL_BUCKETS) mod WHEEL_BUCKETS = ?t mod WHEEL_BUCKETS" by simp
    show "due_at (tick_head w) x = ((due_at w)(?t := [])) x"
    proof (cases "?t < x \<and> x < ?t + WHEEL_BUCKETS")
      case True
      then have "x mod WHEEL_BUCKETS \<noteq> ?t mod WHEEL_BUCKETS"
        using window_mod_inject [of ?t x WHEEL_BUCKETS ?t] by auto
      with True next_tick show ?thesis by (simp add: due_at_def tick_head_def)
    next
      case False
      then show ?thesis
        using next_tick w by (cases "x = ?t + WHEEL_BUCKETS")
          (auto simp: due_at_def tick_head_def wheel_inv_def)
    qed
  qed
qed

lemma advance_spec:
  assumes "wheel_inv w" "unat now < 2 ^ 32 - 1" "unat (current_tick_sec w) \<le> Suc (unat now)"
  shows "\<exists>w'. advance_expired_entries now w out =
      Some (w', out @ concat (map (due_at w) [unat (current_tick_sec w)..<Suc (unat now)])) \<and>
    wheel_inv w' \<and> unat (current_tick_sec w') = Suc (unat now) \<and>
    due_at w' = (\<lambda>d. if d \<le> unat now then [] else due_at w d)"
  using assms
proof (induction "Suc (unat now) - unat (current_tick_sec w)" arbitrary: w out)
  case 0
  then have t: "unat (current_tick_sec w) = Suc (unat now)" by simp
  then have "\<not> current_tick_sec w \<le> now" by (simp add: word_le_nat_alt)
  moreover have "due_at w = (\<lambda>d. if d \<le> unat now then [] else due_at w d)"
    using t by (auto simp: due_at_def fun_eq_iff)
  ultimately show ?case
    using 0 t by (subst advance_expired_entries.simps) (simp del: upt_Suc)
next
  case (Suc n)
  let ?t = "unat (current_tick_sec w)"
  have lt: "?t < Suc (unat now)" "?t < 2 ^ 32 - 1" using Suc(2,4) by linarith+
  note th = tick_head_due [OF Suc(3) lt(2)]
  have "n = Suc (unat now) - unat (current_tick_sec (tick_head w))" using Suc(2) th(4) by simp
  from Suc(1) [OF this th(1) Suc(4), of "out @ head_bucket w"] lt(1) th(4)
  obtain w' where w': "advance_expired_entries now (tick_head w) (out @ head_bucket w) =
      Some (w', (out @ head_bucket w) @ concat (map (due_at (tick_head w)) [Suc ?t..<Suc (unat now)]))"
    "wheel_inv w'" "unat (current_tick_sec w') = Suc (unat now)"
    "due_at w' = (\<lambda>d. if d \<le> unat now then [] else due_at (tick_head w) d)"
    by (auto simp del: upt_Suc)
  have m: "map (due_at (tick_head w)) [Suc ?t..<Suc (unat now)] = map (due_at w) [Suc ?t..<Suc (unat now)]"
    by (simp add: th(3) del: upt_Suc)
  have "concat (map (due_at w) [?t..<Suc (unat now)]) =
      due_at w ?t @ concat (map (due_at w) [Suc ?t..<Suc (unat now)])"
    unfolding upt_conv_Cons [OF lt(1)] by simp
  moreover have "current_tick_sec w \<le> now" using lt(1) by (simp add: word_le_nat_alt)
  moreover have "due_at w' = (\<lambda>d. if d \<le> unat now then [] else due_at w d)"
    using w'(4) lt(1) by (auto simp: th(3) fun_eq_iff)
  ultimately show ?case
    using w' unfolding m th(2) by (subst advance_expired_entries.simps) (simp add: th(2) del: upt_Suc)
qed

lemma advance_some_below:
  assumes "advance_expired_entries now w out = Some r"
  shows "now < current_tick_sec (fst r)"
  using assms
proof (induction rule: advance_expired_entries.raw_induct [rotated, consumes 1, case_names step])
  case (step f now w out r)
  then show ?case by (auto split: if_splits)
qed

lemma advance_at_max: "advance_expired_entries (- 1) w out = None"
proof (cases "advance_expired_entries (- 1) w out")
  case (Some r)
  then have "(- 1 :: u32) < current_tick_sec (fst r)" by (rule advance_some_below)
  then show ?thesis using word_n1_ge [of "current_tick_sec (fst r)"] by (simp add: not_less [symmetric])
qed

text \<open>All that a drain to \<open>now\<close> yields, in order.\<close>

definition due_list :: "HashedTimingWheel \<Rightarrow> u32 \<Rightarrow> ExpireEntry list" where
  "due_list w now = concat (map (due_at w) [unat (current_tick_sec w)..<Suc (unat now)])"

lemma due_list_iff: "e \<in> set (due_list w now) \<longleftrightarrow> (\<exists>d \<le> unat now. e \<in> set (due_at w d))"
proof -
  have "unat (current_tick_sec w) \<le> d" if "e \<in> set (due_at w d)" for d
    using that by (auto simp: due_at_def split: if_splits)
  then show ?thesis unfolding due_list_def by (auto simp: less_Suc_eq_le simp del: upt_Suc)
qed

section \<open>Punctuality\<close>

text \<open>No entry is due before its expiration time.\<close>

definition on_time :: "HashedTimingWheel \<Rightarrow> bool" where
  "on_time w \<longleftrightarrow> (\<forall>d. \<forall>e \<in> set (due_at w d). unat (ee_expire_at_sec e) \<le> d)"

lemma on_time_new: "on_time (HashedTimingWheel_new s)"
  by (simp add: on_time_def wheel_new)

lemma on_time_schedule:
  assumes "wheel_inv w" "on_time w" "unat ex < unat (current_tick_sec w) + WHEEL_BUCKETS"
  shows "on_time (schedule h b ex w)"
proof -
  have "unat ex \<le> due_tick (current_tick_sec w) ex"
    using assms(3) by (auto simp: due_tick_def word_le_nat_alt)
  then show ?thesis
    using assms(2) by (auto simp: on_time_def schedule_due [OF assms(1)])
qed

lemma on_time_advance:
  assumes "wheel_inv w" "on_time w" "unat now < 2 ^ 32 - 1" "unat (current_tick_sec w) \<le> Suc (unat now)"
    and "advance_expired_entries now w [] = Some (w', out)"
  shows "\<forall>e \<in> set out. ee_expire_at_sec e \<le> now" "on_time w'" "wheel_inv w'"
    and "\<And>d e. d \<le> unat now \<Longrightarrow> e \<in> set (due_at w d) \<Longrightarrow> e \<in> set out"
proof -
  note a = advance_spec [OF assms(1,3,4), of "[]", unfolded assms(5)]
  then have out: "out = concat (map (due_at w) [unat (current_tick_sec w)..<Suc (unat now)])"
    and w': "wheel_inv w'" "due_at w' = (\<lambda>d. if d \<le> unat now then [] else due_at w d)"
    by auto
  show "\<forall>e \<in> set out. ee_expire_at_sec e \<le> now"
    using assms(2) unfolding out on_time_def word_le_nat_alt by fastforce
  show "on_time w'" "wheel_inv w'" using assms(2) w' by (auto simp: on_time_def)
  show "e \<in> set out" if "d \<le> unat now" "e \<in> set (due_at w d)" for d e
  proof -
    have "unat (current_tick_sec w) \<le> d" using that(2) by (auto simp: due_at_def split: if_splits)
    then show ?thesis using that unfolding out by (auto simp del: upt_Suc)
  qed
qed

lemma due_tick_bound: "due_tick cur ex \<le> max (unat cur) (unat ex)"
  by (auto simp: due_tick_def word_le_nat_alt)

section \<open>Draining into the slab pool\<close>

lemma free_expired_append:
  "free_expired (xs @ ys) s n =
     (case free_expired xs s n of
        (s', Ok n') \<Rightarrow> free_expired ys s' n'
      | (s', Err u) \<Rightarrow> (s', Err u)
      | (s', Panic m) \<Rightarrow> (s', Panic m))"
  by (induction xs arbitrary: s n) (auto split: prod.split outcome.split)

lemma advance_to_spec:
  assumes "wheel_inv w" "unat now < 2 ^ 32 - 1" "unat (current_tick_sec w) \<le> Suc (unat now)"
    and "free_expired (concat (map (due_at w) [unat (current_tick_sec w)..<Suc (unat now)])) s n = (s', Ok m)"
  shows "\<exists>w'. advance_to now w s n = Some ((w', s'), Ok m) \<and>
    advance_expired_entries now w [] =
      Some (w', concat (map (due_at w) [unat (current_tick_sec w)..<Suc (unat now)]))"
proof -
  have "\<exists>w'. advance_to now w s n = Some ((w', s'), Ok m) \<and>
    advance_expired_entries now w out =
      Some (w', out @ concat (map (due_at w) [unat (current_tick_sec w)..<Suc (unat now)]))" for out
    using assms
  proof (induction "Suc (unat now) - unat (current_tick_sec w)" arbitrary: w s n out)
    case 0
    then have "unat (current_tick_sec w) = Suc (unat now)" by simp
    then have "\<not> current_tick_sec w \<le> now" by (simp add: word_le_nat_alt)
    then show ?case
      using 0 by (subst advance_to.simps, subst advance_expired_entries.simps) (simp del: upt_Suc)
  next
    case (Suc k)
    let ?t = "unat (current_tick_sec w)"
    have lt: "?t < Suc (unat now)" "?t < 2 ^ 32 - 1" using Suc(2,4) by linarith+
    note th = tick_head_due [OF Suc(3) lt(2)]
    have m: "map (due_at (tick_head w)) [Suc ?t..<Suc (unat now)] = map (due_at w) [Suc ?t..<Suc (unat now)]"
      by (simp add: th(3) del: upt_Suc)
    have c: "concat (map (due_at w) [?t..<Suc (unat now)]) =
        head_bucket w @ concat (map (due_at w) [Suc ?t..<Suc (unat now)])"
      unfolding upt_conv_Cons [OF lt(1)] th(2) by simp
    obtain s1 n1 where f: "free_expired (head_bucket w) s n = (s1, Ok n1)"
      "free_expired (concat (map (due_at w) [Suc ?t..<Suc (unat now)])) s1 n1 = (s', Ok m)"
      using Suc(6) unfolding c free_expired_append by (auto split: prod.splits outcome.splits)
    have "k = Suc (unat now) - unat (current_tick_sec (tick_head w))" using Suc(2) th(4) by simp
    from Suc(1) [OF this th(1) Suc(4), of s1 n1 "out @ head_bucket w"] lt(1) th(4) f(2)
    obtain w' where "advance_to now (tick_head w) s1 n1 = Some ((w', s'), Ok m)"
      "advance_expired_entries now (tick_head w) (out @ head_bucket w) =
        Some (w', (out @ head_bucket w) @ concat (map (due_at w) [Suc ?t..<Suc (unat now)]))"
      using m by (auto simp del: upt_Suc)
    moreover have "current_tick_sec w \<le> now" using lt(1) by (simp add: word_le_nat_alt)
    ultimately show ?case
      using f(1) c by (subst advance_to.simps, subst advance_expired_entries.simps) (simp del: upt_Suc)
  qed
  from this [of "[]"] show ?thesis by simp
qed

section \<open>Properties\<close>

text \<open>Draining: advancing the wheel to \<open>now\<close> (below the last \<open>u32\<close> second) returns; it yields, in
  order of due tick, exactly what is due up to \<open>now\<close>, keeps what is due later, and moves the
  head to the next second.\<close>

theorem advance_drains_timeline:
  assumes "wheel_inv w" "unat now < 2 ^ 32 - 1" "unat (current_tick_sec w) \<le> Suc (unat now)"
  shows "\<exists>w'. advance_expired_entries now w out =
      Some (w', out @ concat (map (due_at w) [unat (current_tick_sec w)..<Suc (unat now)])) \<and>
    wheel_inv w' \<and> unat (current_tick_sec w') = Suc (unat now) \<and>
    due_at w' = (\<lambda>d. if d \<le> unat now then [] else due_at w d)"
  by (rule advance_spec [OF assms])

theorem advance_drains_timeline_witness:
  "\<exists>w'. advance_expired_entries 5 (HashedTimingWheel_new 4) [] = Some (w', []) \<and> unat (current_tick_sec w') = 6"
proof -
  have t: "unat (5 :: u32) < 2 ^ 32 - 1" "unat (current_tick_sec (HashedTimingWheel_new 4)) \<le> Suc (unat (5 :: u32))"
    by (simp_all add: HashedTimingWheel_new_def)
  from advance_drains_timeline [OF wheel_new(1) t, of "[]"] show ?thesis by (auto simp: wheel_new)
qed

text \<open>Scheduling appends the entry at its due tick: the current tick if it is already expired, its
  expiry second within the next hour, and otherwise the last bucket of the hour.\<close>

theorem schedule_places_entry:
  assumes "wheel_inv w"
  shows "wheel_inv (schedule h b ex w) \<and> current_tick_sec (schedule h b ex w) = current_tick_sec w \<and>
    (let d = (if ex \<le> current_tick_sec w then unat (current_tick_sec w)
              else min (unat ex) (unat (current_tick_sec w) + 3599))
     in due_at (schedule h b ex w) =
       (due_at w)(d := due_at w d @ [\<lparr>ee_key_hash = h, ee_slab_block_id = b, ee_expire_at_sec = ex\<rparr>]))"
proof -
  have "due_tick (current_tick_sec w) ex = (if ex \<le> current_tick_sec w then unat (current_tick_sec w)
      else min (unat ex) (unat (current_tick_sec w) + 3599))"
    by (auto simp: due_tick_def WHEEL_BUCKETS_def min_def)
  then show ?thesis using schedule_due [OF assms, of h b ex] by simp
qed

theorem schedule_places_entry_witness:
  "due_at (schedule 1 (SlabBlockId 2) 100000 (HashedTimingWheel_new 4)) 3603 =
     [\<lparr>ee_key_hash = 1, ee_slab_block_id = SlabBlockId 2, ee_expire_at_sec = 100000\<rparr>]"
  using schedule_places_entry [OF wheel_new(1) [of 4], of 1 "SlabBlockId 2" 100000]
  by (simp add: wheel_new) (simp add: HashedTimingWheel_new_def)

text \<open>At the last second of the 32-bit clock the drain loop never ends: the tick wraps to 0 and stays
  at or below \<open>now\<close>.\<close>

theorem advance_never_ends_at_max: "advance_expired_entries 0xFFFFFFFF w out = None"
proof -
  have "(0xFFFFFFFF :: u32) = - 1" by simp
  then show ?thesis by (metis advance_at_max)
qed

text \<open>\<open>advance_to\<close> frees to the pool, in the same order, exactly the entries that
  \<open>advance_expired_entries\<close> drains, and counts the successful releases.\<close>

theorem advance_to_frees_drained:
  assumes "wheel_inv w" "unat now < 2 ^ 32 - 1" "unat (current_tick_sec w) \<le> Suc (unat now)"
    and "advance_expired_entries now w [] = Some (w', es)" "free_expired es s n = (s', Ok m)"
  shows "advance_to now w s n = Some ((w', s'), Ok m)"
proof -
  have "es = concat (map (due_at w) [unat (current_tick_sec w)..<Suc (unat now)])"
    using advance_spec [OF assms(1-3), of "[]"] assms(4) by auto
  with advance_to_spec [OF assms(1-3), of s n s' m] assms(4,5) show ?thesis by auto
qed

theorem advance_to_frees_drained_witness:
  "\<exists>w'. advance_to 5 (HashedTimingWheel_new 4) example_core 0 = Some ((w', example_core), Ok 0)"
proof -
  have t: "unat (5 :: u32) < 2 ^ 32 - 1" "unat (current_tick_sec (HashedTimingWheel_new 4)) \<le> Suc (unat (5 :: u32))"
    by (simp_all add: HashedTimingWheel_new_def)
  obtain w' where "advance_expired_entries 5 (HashedTimingWheel_new 4) [] = Some (w', [])"
    using advance_spec [OF wheel_new(1) t, of "[]"] by (auto simp: wheel_new)
  then show ?thesis
    using advance_to_frees_drained [OF wheel_new(1) t, of w' "[]" example_core 0 example_core 0] by simp
qed

end
