(* ===== verification/Hash_Entry.thy ===== *)
theory Hash_Entry
  imports Registry
begin

text \<open>
  \<open>crates/kachedb-hash/src/entry.rs\<close>: the entry of a Swiss-table slot, its copyable snapshot,
  expiry and the S3-FIFO access bit.
\<close>

definition ACCESS_BIT_ACCESSED :: u8 where
  "ACCESS_BIT_ACCESSED = 1"

definition VALUE_TYPE_STRING :: u8 where
  "VALUE_TYPE_STRING = 0"

definition VALUE_TYPE_HASH :: u8 where
  "VALUE_TYPE_HASH = 1"

record TableEntry =
  te_slab_block_id :: SlabBlockId
  te_value_len :: u32
  te_expire_at_secs :: u32
  te_value_type :: u8

record HashEntry =
  key_hash :: u64
  slab_block_id :: SlabBlockId
  value_len :: u32
  expire_at_secs :: u32
  access_flags :: u8
  value_type :: u8

definition HashEntry_default :: HashEntry where
  "HashEntry_default =
     \<lparr>key_hash = 0, slab_block_id = SlabBlockId 0, value_len = 0, expire_at_secs = 0,
      access_flags = 0, value_type = VALUE_TYPE_STRING\<rparr>"

definition with_type :: "u64 \<Rightarrow> SlabBlockId \<Rightarrow> u32 \<Rightarrow> u32 \<Rightarrow> u8 \<Rightarrow> HashEntry" where
  "with_type h b len ex ty =
     \<lparr>key_hash = h, slab_block_id = b, value_len = len, expire_at_secs = ex,
      access_flags = 0, value_type = ty\<rparr>"

definition with_ttl :: "u64 \<Rightarrow> SlabBlockId \<Rightarrow> u32 \<Rightarrow> u32 \<Rightarrow> HashEntry" where
  "with_ttl h b len ex = with_type h b len ex VALUE_TYPE_STRING"

definition HashEntry_new :: "u64 \<Rightarrow> SlabBlockId \<Rightarrow> u32 \<Rightarrow> HashEntry" where
  "HashEntry_new h b len = with_ttl h b len 0"

definition is_expired :: "HashEntry \<Rightarrow> u32 \<Rightarrow> bool" where
  "is_expired e now \<longleftrightarrow> expire_at_secs e \<noteq> 0 \<and> expire_at_secs e \<le> now"

definition mark_accessed :: "HashEntry \<Rightarrow> HashEntry" where
  "mark_accessed e = e\<lparr>access_flags := access_flags e OR ACCESS_BIT_ACCESSED\<rparr>"

definition test_and_clear_accessed :: "HashEntry \<Rightarrow> HashEntry \<times> bool" where
  "test_and_clear_accessed e = (e\<lparr>access_flags := 0\<rparr>, access_flags e > 0)"

definition to_snapshot :: "HashEntry \<Rightarrow> TableEntry" where
  "to_snapshot e =
     \<lparr>te_slab_block_id = slab_block_id e, te_value_len = value_len e,
      te_expire_at_secs = expire_at_secs e, te_value_type = value_type e\<rparr>"

definition entry_matches :: "HashEntry \<Rightarrow> u64 \<Rightarrow> bool" where
  "entry_matches e h \<longleftrightarrow> key_hash e = h"

section \<open>Lemmas\<close>

lemma mark_accessed_frame [simp]:
  "key_hash (mark_accessed e) = key_hash e" "to_snapshot (mark_accessed e) = to_snapshot e"
  "expire_at_secs (mark_accessed e) = expire_at_secs e"
  by (simp_all add: mark_accessed_def to_snapshot_def)

lemma with_type_frame [simp]:
  "key_hash (with_type h b len ex ty) = h"
  "to_snapshot (with_type h b len ex ty) =
     \<lparr>te_slab_block_id = b, te_value_len = len, te_expire_at_secs = ex, te_value_type = ty\<rparr>"
  by (simp_all add: with_type_def to_snapshot_def)

lemma access_bit_roundtrip:
  "snd (test_and_clear_accessed (mark_accessed e))"
  "\<not> snd (test_and_clear_accessed (fst (test_and_clear_accessed e)))"
proof -
  have "bit (access_flags e OR 1) 0" by (simp add: bit_simps)
  then have "access_flags e OR 1 \<noteq> 0" by (metis bit_0_eq bot_apply bot_bool_def)
  then show "snd (test_and_clear_accessed (mark_accessed e))"
    by (simp add: test_and_clear_accessed_def mark_accessed_def ACCESS_BIT_ACCESSED_def
        word_neq_0_conv)
qed (simp add: test_and_clear_accessed_def)

end
