(* ===== verification/Swiss_Table.thy ===== *)
theory Swiss_Table
  imports Hash_Entry
begin

text \<open>
  \<open>crates/kachedb-hash/src/table.rs\<close>: the open-addressed hash index. A probe loop may never
  return (a miss ends only at an \<open>CTRL_EMPTY\<close> byte), so the loops are
  \<open>partial_function (option)\<close>: \<open>None\<close> is "does not return". \<open>usize\<close> values are naturals;
  the capacity is a power of two and bounds them.
\<close>

section \<open>Control bytes and hashes\<close>

definition CTRL_EMPTY :: u8 where "CTRL_EMPTY = 0xFF"

definition CTRL_DELETED :: u8 where "CTRL_DELETED = 0x80"

definition CTRL_H2_MASK :: u8 where "CTRL_H2_MASK = 0x7F"

definition GROUP_SIZE :: nat where "GROUP_SIZE = 8"

definition LOAD_FACTOR_NUM :: nat where "LOAD_FACTOR_NUM = 7"

definition LOAD_FACTOR_DEN :: nat where "LOAD_FACTOR_DEN = 8"

definition SHRINK_LOAD_FACTOR_DEN :: nat where "SHRINK_LOAD_FACTOR_DEN = 8"

definition MIN_SHRINK_CAPACITY :: nat where "MIN_SHRINK_CAPACITY = 1024"

lemmas table_consts = CTRL_EMPTY_def CTRL_DELETED_def CTRL_H2_MASK_def GROUP_SIZE_def
  LOAD_FACTOR_NUM_def LOAD_FACTOR_DEN_def SHRINK_LOAD_FACTOR_DEN_def MIN_SHRINK_CAPACITY_def

definition h1 :: "u64 \<Rightarrow> nat \<Rightarrow> nat" where
  "h1 h cap = unat (drop_bit 7 h) AND (cap - 1)"

definition h2 :: "u64 \<Rightarrow> u8" where
  "h2 h = ucast h AND CTRL_H2_MASK"

section \<open>Probe groups\<close>

text \<open>\<open>Group { ctrl, base, mask }\<close> is the control bytes, the start slot and \<open>cap - 1\<close>.\<close>

definition group_slot :: "nat \<Rightarrow> nat \<Rightarrow> nat \<Rightarrow> nat" where
  "group_slot start cap i = (start + i) AND (cap - 1)"

definition match_byte :: "u8 list \<Rightarrow> nat \<Rightarrow> nat \<Rightarrow> u8 \<Rightarrow> nat list" where
  "match_byte cs start cap fp =
     filter (\<lambda>idx. cs ! idx = fp) (map (group_slot start cap) [0..<GROUP_SIZE])"

definition has_empty :: "u8 list \<Rightarrow> nat \<Rightarrow> nat \<Rightarrow> bool" where
  "has_empty cs start cap = list_ex (\<lambda>i. cs ! group_slot start cap i = CTRL_EMPTY) [0..<GROUP_SIZE]"

definition first_available :: "u8 list \<Rightarrow> nat \<Rightarrow> nat \<Rightarrow> nat option" where
  "first_available cs start cap =
     List.find (\<lambda>idx. cs ! idx = CTRL_EMPTY \<or> cs ! idx = CTRL_DELETED)
       (map (group_slot start cap) [0..<GROUP_SIZE])"

text \<open>
  The loop every keyed operation runs: the first slot of the group whose fingerprint matches
  and that \<open>ok\<close> accepts is a hit; a group with an empty byte ends the search; otherwise the
  next group follows.
\<close>

datatype probe_result = Hit nat | Miss nat

partial_function (option) probe ::
    "u8 list \<Rightarrow> nat \<Rightarrow> u8 \<Rightarrow> (nat \<Rightarrow> bool) \<Rightarrow> nat \<Rightarrow> probe_result option" where
  "probe cs cap fp ok pos =
     (case List.find ok (match_byte cs pos cap fp) of
        Some idx \<Rightarrow> Some (Hit idx)
      | None \<Rightarrow>
          if has_empty cs pos cap then Some (Miss pos)
          else probe cs cap fp ok ((pos + GROUP_SIZE) AND (cap - 1)))"

section \<open>The table\<close>

record SwissTable =
  ctrl :: "u8 list"
  entries :: "HashEntry list"
  table_count :: nat
  table_capacity :: nat
  compact_cursor :: nat

definition with_capacity :: "nat \<Rightarrow> SwissTable" where
  "with_capacity min_capacity =
     (let cap = max (next_power_of_two min_capacity) GROUP_SIZE
      in \<lparr>ctrl = replicate cap CTRL_EMPTY, entries = replicate cap HashEntry_default,
          table_count = 0, table_capacity = cap, compact_cursor = 0\<rparr>)"

definition is_live_ctrl :: "u8 \<Rightarrow> bool" where
  "is_live_ctrl c \<longleftrightarrow> c \<noteq> CTRL_EMPTY \<and> c \<noteq> CTRL_DELETED"

definition slot_matches :: "SwissTable \<Rightarrow> u64 \<Rightarrow> nat \<Rightarrow> bool" where
  "slot_matches t h idx \<longleftrightarrow> is_live_ctrl (ctrl t ! idx) \<and> entry_matches (entries t ! idx) h"

definition table_probe :: "SwissTable \<Rightarrow> u64 \<Rightarrow> (nat \<Rightarrow> bool) \<Rightarrow> probe_result option" where
  "table_probe t h ok = probe (ctrl t) (table_capacity t) (h2 h) ok (h1 h (table_capacity t))"

section \<open>Resizing\<close>

text \<open>The inner loop of \<open>resize\<close>: the first free slot along the probe sequence.\<close>

partial_function (option) find_slot :: "u8 list \<Rightarrow> nat \<Rightarrow> nat \<Rightarrow> nat option" where
  "find_slot cs cap pos =
     (case first_available cs pos cap of
        Some slot \<Rightarrow> Some slot
      | None \<Rightarrow> find_slot cs cap ((pos + GROUP_SIZE) mod cap))"

fun resize_fill ::
    "u8 list \<Rightarrow> (nat \<times> HashEntry) list \<Rightarrow> nat \<Rightarrow> u8 list \<times> HashEntry list \<Rightarrow> (u8 list \<times> HashEntry list) option" where
  "resize_fill old [] cap acc = Some acc"
| "resize_fill old ((idx, e) # rest) cap (nc, ne) =
     (if is_live_ctrl (old ! idx)
      then (case find_slot nc cap (h1 (key_hash e) cap) of
              None \<Rightarrow> None
            | Some slot \<Rightarrow> resize_fill old rest cap (nc[slot := h2 (key_hash e)], ne[slot := e]))
      else resize_fill old rest cap (nc, ne))"

definition resize :: "SwissTable \<Rightarrow> nat \<Rightarrow> SwissTable option" where
  "resize t n =
     (let cap = max (next_power_of_two n) GROUP_SIZE
      in (case resize_fill (ctrl t) (enumerate 0 (entries t)) cap
                 (replicate cap CTRL_EMPTY, replicate cap HashEntry_default) of
            None \<Rightarrow> None
          | Some (nc, ne) \<Rightarrow>
              Some (t\<lparr>ctrl := nc, entries := ne, table_capacity := cap, compact_cursor := 0\<rparr>)))"

declare probe.simps [code] find_slot.simps [code]

section \<open>Keyed operations\<close>

definition insert_typed ::
    "SwissTable \<Rightarrow> u64 \<Rightarrow> SlabBlockId \<Rightarrow> u32 \<Rightarrow> u32 \<Rightarrow> u8 \<Rightarrow> (SwissTable \<times> (SlabBlockId option, unit) outcome) option" where
  "insert_typed t h b len ex ty =
     (case (if table_count t * LOAD_FACTOR_DEN \<ge> table_capacity t * LOAD_FACTOR_NUM
            then resize t (table_capacity t * 2) else Some t) of
        None \<Rightarrow> None
      | Some t1 \<Rightarrow>
          (case table_probe t1 h (slot_matches t1 h) of
             None \<Rightarrow> None
           | Some (Hit idx) \<Rightarrow>
               Some (t1\<lparr>entries := (entries t1)[idx := with_type h b len ex ty]\<rparr>,
                     Ok (Some (slab_block_id (entries t1 ! idx))))
           | Some (Miss pos) \<Rightarrow>
               (case first_available (ctrl t1) pos (table_capacity t1) of
                  None \<Rightarrow> Some (t1, Err ())
                | Some slot \<Rightarrow>
                    Some (t1\<lparr>ctrl := (ctrl t1)[slot := h2 h],
                             entries := (entries t1)[slot := with_type h b len ex ty],
                             table_count := table_count t1 + 1\<rparr>,
                          Ok None))))"

definition insert_with_ttl ::
    "SwissTable \<Rightarrow> u64 \<Rightarrow> SlabBlockId \<Rightarrow> u32 \<Rightarrow> u32 \<Rightarrow> (SwissTable \<times> (SlabBlockId option, unit) outcome) option" where
  "insert_with_ttl t h b len ex = insert_typed t h b len ex VALUE_TYPE_STRING"

definition table_insert ::
    "SwissTable \<Rightarrow> u64 \<Rightarrow> SlabBlockId \<Rightarrow> u32 \<Rightarrow> (SwissTable \<times> (SlabBlockId option, unit) outcome) option" where
  "table_insert t h b len = insert_with_ttl t h b len 0"

text \<open>A successful lookup sets the entry's access bit, so the table is part of the result.\<close>

definition lookup_checked :: "SwissTable \<Rightarrow> u64 \<Rightarrow> u32 \<Rightarrow> (SwissTable \<times> HashEntry option) option" where
  "lookup_checked t h now =
     (case table_probe t h (slot_matches t h) of
        None \<Rightarrow> None
      | Some (Hit idx) \<Rightarrow>
          (let e = entries t ! idx
           in if now \<noteq> 0 \<and> is_expired e now then Some (t, None)
              else Some (t\<lparr>entries := (entries t)[idx := mark_accessed e]\<rparr>, Some (mark_accessed e)))
      | Some (Miss _) \<Rightarrow> Some (t, None))"

definition table_lookup :: "SwissTable \<Rightarrow> u64 \<Rightarrow> (SwissTable \<times> HashEntry option) option" where
  "table_lookup t h = lookup_checked t h 0"

definition update_ttl :: "SwissTable \<Rightarrow> u64 \<Rightarrow> u32 \<Rightarrow> u32 \<Rightarrow> (SwissTable \<times> bool) option" where
  "update_ttl t h ex now =
     (case table_probe t h (slot_matches t h) of
        None \<Rightarrow> None
      | Some (Hit idx) \<Rightarrow>
          (let e = entries t ! idx
           in if now \<noteq> 0 \<and> is_expired e now then Some (t, False)
              else Some (t\<lparr>entries := (entries t)[idx := mark_accessed (e\<lparr>expire_at_secs := ex\<rparr>)]\<rparr>, True))
      | Some (Miss _) \<Rightarrow> Some (t, False))"

definition get_ttl :: "SwissTable \<Rightarrow> u64 \<Rightarrow> u32 \<Rightarrow> (SwissTable \<times> int) option" where
  "get_ttl t h now =
     (case lookup_checked t h now of
        None \<Rightarrow> None
      | Some (t', Some e) \<Rightarrow>
          Some (t', if expire_at_secs e = 0 then -1
                    else if expire_at_secs e \<le> now then -2
                    else uint (expire_at_secs e - now))
      | Some (t', None) \<Rightarrow> Some (t', -2))"

definition persist :: "SwissTable \<Rightarrow> u64 \<Rightarrow> u32 \<Rightarrow> (SwissTable \<times> bool) option" where
  "persist t h now =
     (case table_probe t h (slot_matches t h) of
        None \<Rightarrow> None
      | Some (Hit idx) \<Rightarrow>
          (let e = entries t ! idx
           in if now \<noteq> 0 \<and> is_expired e now then Some (t, False)
              else if expire_at_secs e > 0
              then Some (t\<lparr>entries := (entries t)[idx := mark_accessed (e\<lparr>expire_at_secs := 0\<rparr>)]\<rparr>, True)
              else Some (t, False))
      | Some (Miss _) \<Rightarrow> Some (t, False))"

text \<open>The common tail of \<open>remove\<close> and \<open>remove_if_matching\<close>: tombstone, count, shrink.\<close>

definition remove_at :: "SwissTable \<Rightarrow> nat \<Rightarrow> (SwissTable \<times> TableEntry option) option" where
  "remove_at t idx =
     (let snapshot = to_snapshot (entries t ! idx);
          t1 = t\<lparr>ctrl := (ctrl t)[idx := CTRL_DELETED], table_count := table_count t - 1\<rparr>
      in if table_capacity t1 > MIN_SHRINK_CAPACITY \<and>
            table_count t1 * SHRINK_LOAD_FACTOR_DEN < table_capacity t1
         then (case resize t1 (table_capacity t1 div 2) of
                 None \<Rightarrow> None | Some t2 \<Rightarrow> Some (t2, Some snapshot))
         else Some (t1, Some snapshot))"

definition table_remove :: "SwissTable \<Rightarrow> u64 \<Rightarrow> (SwissTable \<times> TableEntry option) option" where
  "table_remove t h =
     (case table_probe t h (slot_matches t h) of
        None \<Rightarrow> None
      | Some (Hit idx) \<Rightarrow> remove_at t idx
      | Some (Miss _) \<Rightarrow> Some (t, None))"

definition remove_if_matching ::
    "SwissTable \<Rightarrow> u64 \<Rightarrow> SlabBlockId \<Rightarrow> (SwissTable \<times> TableEntry option) option" where
  "remove_if_matching t h expected =
     (case table_probe t h (\<lambda>idx. slot_matches t h idx \<and> slab_block_id (entries t ! idx) = expected) of
        None \<Rightarrow> None
      | Some (Hit idx) \<Rightarrow> remove_at t idx
      | Some (Miss _) \<Rightarrow> Some (t, None))"

definition live_entries :: "SwissTable \<Rightarrow> (u64 \<times> TableEntry) list" where
  "live_entries t =
     map (\<lambda>(idx, e). (key_hash e, to_snapshot e))
       (filter (\<lambda>(idx, e). is_live_ctrl (ctrl t ! idx)) (enumerate 0 (entries t)))"

definition table_clear :: "SwissTable \<Rightarrow> SwissTable" where
  "table_clear t =
     t\<lparr>ctrl := replicate (length (ctrl t)) CTRL_EMPTY, table_count := 0, compact_cursor := 0\<rparr>"

definition tombstone_count :: "SwissTable \<Rightarrow> nat" where
  "tombstone_count t = length (filter (\<lambda>c. c = CTRL_DELETED) (ctrl t))"

section \<open>Tombstone compaction\<close>

definition ring_distance :: "nat \<Rightarrow> nat \<Rightarrow> nat \<Rightarrow> nat" where
  "ring_distance from to cap = (if to \<ge> from then to - from else cap - from + to)"

fun find_backshift :: "SwissTable \<Rightarrow> nat \<Rightarrow> nat list \<Rightarrow> nat option" where
  "find_backshift t tomb [] = None"
| "find_backshift t tomb (i # is) =
     (let candidate = (tomb + i) mod table_capacity t; c = ctrl t ! candidate
      in if c = CTRL_EMPTY then None
         else if c = CTRL_DELETED then find_backshift t tomb is
         else (let home = h1 (key_hash (entries t ! candidate)) (table_capacity t)
               in if ring_distance home candidate (table_capacity t)
                     > ring_distance home tomb (table_capacity t)
                  then Some candidate else find_backshift t tomb is))"

definition find_backshift_candidate :: "SwissTable \<Rightarrow> nat \<Rightarrow> nat option" where
  "find_backshift_candidate t tomb = find_backshift t tomb [1..<GROUP_SIZE + 1]"

fun chain_clear :: "SwissTable \<Rightarrow> nat \<Rightarrow> nat list \<Rightarrow> bool" where
  "chain_clear t idx [] = False"
| "chain_clear t idx (i # is) =
     (let c = ctrl t ! ((idx + i) mod table_capacity t)
      in if c = CTRL_EMPTY then True
         else if c = CTRL_DELETED then chain_clear t idx is
         else False)"

definition probe_chain_clear_after :: "SwissTable \<Rightarrow> nat \<Rightarrow> bool" where
  "probe_chain_clear_after t idx = chain_clear t idx [1..<GROUP_SIZE + 1]"

definition swap :: "nat \<Rightarrow> nat \<Rightarrow> 'a list \<Rightarrow> 'a list" where
  "swap i j xs = xs[i := xs ! j, j := xs ! i]"

definition compact_slot :: "nat \<Rightarrow> SwissTable \<times> nat \<Rightarrow> SwissTable \<times> nat" where
  "compact_slot idx tn =
     (let (t, n) = tn
      in if ctrl t ! idx \<noteq> CTRL_DELETED then (t, n)
         else (case find_backshift_candidate t idx of
                 Some j \<Rightarrow>
                   (t\<lparr>ctrl := (ctrl t)[idx := ctrl t ! j, j := CTRL_DELETED],
                      entries := swap idx j (entries t)\<rparr>, n + 1)
               | None \<Rightarrow>
                   if probe_chain_clear_after t idx
                   then (t\<lparr>ctrl := (ctrl t)[idx := CTRL_EMPTY]\<rparr>, n + 1)
                   else (t, n)))"

definition compact_one_group :: "SwissTable \<Rightarrow> SwissTable \<times> nat" where
  "compact_one_group t =
     (if table_capacity t = 0 then (t, 0)
      else (let start = compact_cursor t;
                t1 = t\<lparr>compact_cursor := (compact_cursor t + GROUP_SIZE) mod table_capacity t\<rparr>
            in fold (\<lambda>i. compact_slot ((start + i) mod table_capacity t)) [0..<GROUP_SIZE] (t1, 0)))"

end
