(* ===== verification/Swiss_Slots.thy ===== *)
theory Swiss_Slots
  imports Swiss_Probe
begin

text \<open>
  The slot arrays of the Swiss table as a finite map. \<open>slots_inv\<close> is the invariant that makes
  probing complete; \<open>slots_map\<close> is the map from key hashes to entry snapshots that the arrays
  represent. Each way the code writes a slot (fill a free one, overwrite a live one, leave a
  tombstone) keeps the invariant and is the matching map update.
\<close>

section \<open>Invariant and abstraction\<close>

definition live_slot :: "u8 list \<Rightarrow> nat \<Rightarrow> bool" where
  "live_slot cs i \<longleftrightarrow> i < length cs \<and> is_live_ctrl (cs ! i)"

text \<open>Slot \<open>s\<close> lies on the probe path of \<open>home\<close>, with no empty slot on the way.\<close>

definition reach :: "u8 list \<Rightarrow> nat \<Rightarrow> nat \<Rightarrow> nat \<Rightarrow> bool" where
  "reach cs cap home s \<longleftrightarrow> (\<exists>m. s = (home + m) mod cap \<and> (\<forall>j<m. \<not> empty_at cs cap home j))"

definition slots_inv :: "u8 list \<Rightarrow> HashEntry list \<Rightarrow> nat \<Rightarrow> bool" where [inv_defs]:
  "slots_inv cs es cap \<longleftrightarrow>
     ring_cap cap \<and> length cs = cap \<and> length es = cap \<and>
     (\<forall>i. live_slot cs i \<longrightarrow>
        cs ! i = h2 (key_hash (es ! i)) \<and> reach cs cap (h1 (key_hash (es ! i)) cap) i) \<and>
     (\<forall>i j. live_slot cs i \<longrightarrow> live_slot cs j \<longrightarrow> key_hash (es ! i) = key_hash (es ! j) \<longrightarrow> i = j)"

definition slot_pairs :: "u8 list \<Rightarrow> HashEntry list \<Rightarrow> (u64 \<times> TableEntry) list" where
  "slot_pairs cs es =
     map (\<lambda>(c, e). (key_hash e, to_snapshot e)) (filter (\<lambda>(c, e). is_live_ctrl c) (zip cs es))"

definition slots_map :: "u8 list \<Rightarrow> HashEntry list \<Rightarrow> u64 \<rightharpoonup> TableEntry" where
  "slots_map cs es = map_of (slot_pairs cs es)"

definition live_count :: "u8 list \<Rightarrow> nat" where
  "live_count cs = length (filter is_live_ctrl cs)"

lemma slots_invD:
  assumes "slots_inv cs es cap"
  shows "ring_cap cap" "length cs = cap" "length es = cap"
    "live_slot cs i \<Longrightarrow> cs ! i = h2 (key_hash (es ! i))"
    "live_slot cs i \<Longrightarrow> reach cs cap (h1 (key_hash (es ! i)) cap) i"
    "live_slot cs i \<Longrightarrow> live_slot cs j \<Longrightarrow> key_hash (es ! i) = key_hash (es ! j) \<Longrightarrow> i = j"
  using assms unfolding slots_inv_def by blast+

lemma slot_pairs_set:
  assumes "length cs = length es"
  shows "set (slot_pairs cs es) = {(key_hash (es ! i), to_snapshot (es ! i)) |i. live_slot cs i}"
  using assms by (auto simp: slot_pairs_def live_slot_def set_zip)

lemma slots_map_iff:
  assumes inv: "slots_inv cs es cap"
  shows "slots_map cs es h = Some x \<longleftrightarrow>
    (\<exists>i. live_slot cs i \<and> key_hash (es ! i) = h \<and> to_snapshot (es ! i) = x)"
proof -
  have set: "set (slot_pairs cs es) = {(key_hash (es ! i), to_snapshot (es ! i)) |i. live_slot cs i}"
    using inv by (intro slot_pairs_set) (simp add: slots_invD)
  show ?thesis
  proof
    assume "slots_map cs es h = Some x"
    then have "(h, x) \<in> set (slot_pairs cs es)" by (simp add: slots_map_def map_of_SomeD)
    then show "\<exists>i. live_slot cs i \<and> key_hash (es ! i) = h \<and> to_snapshot (es ! i) = x"
      unfolding set by blast
  next
    assume "\<exists>i. live_slot cs i \<and> key_hash (es ! i) = h \<and> to_snapshot (es ! i) = x"
    then obtain i where i: "live_slot cs i" "key_hash (es ! i) = h" "to_snapshot (es ! i) = x" by blast
    then have "(h, x) \<in> set (slot_pairs cs es)" unfolding set by blast
    then obtain y where y: "slots_map cs es h = Some y"
      by (metis slots_map_def weak_map_of_SomeI)
    then have "(h, y) \<in> set (slot_pairs cs es)" by (simp add: slots_map_def map_of_SomeD)
    then obtain j where "live_slot cs j" "key_hash (es ! j) = h" "to_snapshot (es ! j) = y"
      unfolding set by blast
    then show "slots_map cs es h = Some x"
      using i y slots_invD(6) [OF inv, of i j] by simp
  qed
qed

lemma slots_map_none_iff:
  assumes "slots_inv cs es cap"
  shows "slots_map cs es h = None \<longleftrightarrow> (\<forall>i. live_slot cs i \<longrightarrow> key_hash (es ! i) \<noteq> h)"
  using slots_map_iff [OF assms] by (metis not_None_eq)

lemma map_eq_someI: "(\<And>k x. f k = Some x \<longleftrightarrow> g k = Some x) \<Longrightarrow> f = g"
  by (rule ext) (metis not_None_eq)

section \<open>Writing a slot\<close>

lemma reach_mono:
  assumes "0 < cap" "\<And>j. j < cap \<Longrightarrow> cs' ! j = CTRL_EMPTY \<Longrightarrow> cs ! j = CTRL_EMPTY"
    and "reach cs cap home s"
  shows "reach cs' cap home s"
proof -
  obtain m where m: "s = (home + m) mod cap" "\<forall>j<m. \<not> empty_at cs cap home j"
    using assms(3) by (auto simp: reach_def)
  have "\<not> empty_at cs' cap home j" if "j < m" for j
    using m(2) that assms(1,2) unfolding empty_at_def by (meson mod_less_divisor)
  with m(1) show ?thesis by (auto simp: reach_def)
qed

lemma live_slot_update:
  "s < length cs \<Longrightarrow> live_slot (cs[s := c]) i \<longleftrightarrow> (if i = s then is_live_ctrl c else live_slot cs i)"
  by (auto simp: live_slot_def)

lemma live_count_update:
  assumes "s < length cs"
  shows "live_count (cs[s := c]) + (if is_live_ctrl (cs ! s) then 1 else 0)
    = live_count cs + (if is_live_ctrl c then 1 else 0)"
proof -
  have "cs = take s cs @ cs ! s # drop (Suc s) cs" using assms by (rule id_take_nth_drop)
  then have "live_count cs = live_count (take s cs @ cs ! s # drop (Suc s) cs)" by simp
  moreover have "cs[s := c] = take s cs @ c # drop (Suc s) cs"
    using assms by (rule upd_conv_take_nth_drop)
  ultimately show ?thesis by (simp add: live_count_def)
qed

lemma fill_slot:
  assumes inv: "slots_inv cs es cap" and s: "s < cap" "\<not> live_slot cs s"
    and path: "reach cs cap (h1 (key_hash e) cap) s"
    and fresh: "slots_map cs es (key_hash e) = None"
  shows "slots_inv (cs[s := h2 (key_hash e)]) (es[s := e]) cap"
    and "slots_map (cs[s := h2 (key_hash e)]) (es[s := e]) = (slots_map cs es)(key_hash e \<mapsto> to_snapshot e)"
    and "live_count (cs[s := h2 (key_hash e)]) = Suc (live_count cs)"
proof -
  let ?cs = "cs[s := h2 (key_hash e)]" and ?es = "es[s := e]"
  note D = slots_invD [OF inv]
  have live: "live_slot ?cs i \<longleftrightarrow> i = s \<or> live_slot cs i" for i
    using s D by (simp add: live_slot_update h2_live)
  have absent: "live_slot cs i \<Longrightarrow> key_hash (es ! i) \<noteq> key_hash e" for i
    using fresh slots_map_none_iff [OF inv] by blast
  have mono: "reach cs cap home i \<Longrightarrow> reach ?cs cap home i" for home i
    using s D(1,2) by (elim reach_mono [rotated 2]) (auto simp: nth_list_update split: if_splits)
  have entry: "?es ! i = (if i = s then e else es ! i)" for i
    using s D by simp
  have old: "i \<noteq> s" if "live_slot cs i" for i using s that by auto
  show inv': "slots_inv ?cs ?es cap"
    unfolding slots_inv_def live
  proof (intro conjI allI impI)
    fix i assume "i = s \<or> live_slot cs i"
    then show "?cs ! i = h2 (key_hash (?es ! i))" "reach ?cs cap (h1 (key_hash (?es ! i)) cap) i"
      using s D(2) D(4,5) [of i] path mono old by (auto simp: entry)
  next
    fix i j assume "i = s \<or> live_slot cs i" "j = s \<or> live_slot cs j"
      "key_hash (?es ! i) = key_hash (?es ! j)"
    then show "i = j" using absent D(6) old by (auto simp: entry split: if_splits)
  qed (use D in simp_all)
  show "slots_map ?cs ?es = (slots_map cs es)(key_hash e \<mapsto> to_snapshot e)"
  proof (rule map_eq_someI)
    fix h x
    show "slots_map ?cs ?es h = Some x \<longleftrightarrow>
        ((slots_map cs es)(key_hash e \<mapsto> to_snapshot e)) h = Some x"
      using absent old
      by (auto simp: slots_map_iff [OF inv'] slots_map_iff [OF inv] live entry split: if_splits)
  qed
  show "live_count ?cs = Suc (live_count cs)"
    using live_count_update [of s cs "h2 (key_hash e)"] s D(2) by (simp add: h2_live live_slot_def)
qed

lemma overwrite_slot:
  assumes inv: "slots_inv cs es cap" and i: "live_slot cs i" and e: "key_hash e = key_hash (es ! i)"
  shows "slots_inv cs (es[i := e]) cap"
    and "slots_map cs (es[i := e]) = (slots_map cs es)(key_hash e \<mapsto> to_snapshot e)"
proof -
  let ?es = "es[i := e]"
  note D = slots_invD [OF inv]
  have entry: "?es ! j = (if j = i then e else es ! j)" for j
    using i D by (simp add: live_slot_def)
  have key: "key_hash (?es ! j) = key_hash (es ! j)" for j using e by (simp add: entry)
  show inv': "slots_inv cs ?es cap" using inv by (simp add: slots_inv_def key)
  show "slots_map cs ?es = (slots_map cs es)(key_hash e \<mapsto> to_snapshot e)"
  proof (rule map_eq_someI)
    fix h x
    show "slots_map cs ?es h = Some x \<longleftrightarrow> ((slots_map cs es)(key_hash e \<mapsto> to_snapshot e)) h = Some x"
    proof (cases "h = key_hash e")
      case True
      then show ?thesis
        using i e D(6) by (auto simp: slots_map_iff [OF inv'] key entry)
    next
      case False
      then show ?thesis
        using e by (auto simp: slots_map_iff [OF inv'] slots_map_iff [OF inv] entry)
    qed
  qed
qed

lemma delete_slot:
  assumes inv: "slots_inv cs es cap" and i: "live_slot cs i"
  shows "slots_inv (cs[i := CTRL_DELETED]) es cap"
    and "slots_map (cs[i := CTRL_DELETED]) es = (slots_map cs es)(key_hash (es ! i) := None)"
    and "Suc (live_count (cs[i := CTRL_DELETED])) = live_count cs"
proof -
  let ?cs = "cs[i := CTRL_DELETED]"
  note D = slots_invD [OF inv]
  have il: "i < length cs" using i by (simp add: live_slot_def)
  have live: "live_slot ?cs j \<longleftrightarrow> j \<noteq> i \<and> live_slot cs j" for j
    using il by (simp add: live_slot_update)
  have mono: "reach cs cap home j \<Longrightarrow> reach ?cs cap home j" for home j
    using il D(1,2) by (elim reach_mono [rotated 2]) (auto simp: nth_list_update split: if_splits)
  show inv': "slots_inv ?cs es cap"
    using inv mono unfolding slots_inv_def live by (auto simp: nth_list_update)
  show "slots_map ?cs es = (slots_map cs es)(key_hash (es ! i) := None)"
  proof (rule map_eq_someI)
    fix h x
    show "slots_map ?cs es h = Some x \<longleftrightarrow> ((slots_map cs es)(key_hash (es ! i) := None)) h = Some x"
    proof (cases "h = key_hash (es ! i)")
      case True
      then show ?thesis using i D(6) by (auto simp: slots_map_iff [OF inv'] live)
    next
      case False
      then show ?thesis
        by (auto simp: slots_map_iff [OF inv'] slots_map_iff [OF inv] live intro: exI)
    qed
  qed
  show "Suc (live_count ?cs) = live_count cs"
    using live_count_update [of i cs CTRL_DELETED] i il by (simp add: live_slot_def)
qed

section \<open>Probing under the invariant\<close>

lemma ring_offset:
  assumes "(home::nat) < cap" "i < cap"
  obtains m where "m < cap" "i = (home + m) mod cap"
proof
  show "(i + cap - home) mod cap < cap" using assms by simp
  show "i = (home + (i + cap - home) mod cap) mod cap"
    using assms by (simp add: mod_add_right_eq)
qed

lemma probe_present:
  assumes inv: "slots_inv cs es cap" and i: "live_slot cs i" "ok i"
    and ok: "\<And>j. live_slot cs j \<Longrightarrow> ok j \<Longrightarrow> key_hash (es ! j) = key_hash (es ! i)"
  shows "probe cs cap (h2 (key_hash (es ! i))) ok (h1 (key_hash (es ! i)) cap) = Some (Hit i)"
    (is "probe cs cap ?fp ok ?p = _")
proof -
  note D = slots_invD [OF inv]
  obtain m where m: "i = (?p + m) mod cap" "\<forall>j<m. \<not> empty_at cs cap ?p j"
    using D(5) [OF i(1)] by (auto simp: reach_def)
  have hit: "hit_at cs cap ?fp ok ?p m"
    using m(1) i D(4) [OF i(1)] by (simp add: hit_at_def)
  then obtain r where r: "probe cs cap ?fp ok ?p = Some r"
    using probe_total [OF D(1)] by blast
  from probe_sound [OF D(1) r] have "r = Hit i"
  proof (cases r)
    case (Hit k)
    with probe_sound [OF D(1) r] obtain n where n: "k = (?p + n) mod cap" "hit_at cs cap ?fp ok ?p n"
      by (auto simp: probe_verdict_def)
    then have "live_slot cs k" "ok k"
      using D(1,2) by (auto simp: hit_at_def live_slot_def h2_live)
    then show ?thesis using ok [of k] D(6) i(1) Hit by simp
  next
    case (Miss q)
    with probe_sound [OF D(1) r] obtain g n where
      "\<forall>j < 8 * g + 8. \<not> hit_at cs cap ?fp ok ?p j" "n < 8" "empty_at cs cap ?p (8 * g + n)"
      by (auto simp: probe_verdict_def)
    then have False using m(2) hit by (metis add_less_cancel_left linorder_not_less order.strict_trans2)
    then show ?thesis ..
  qed
  with r show ?thesis by simp
qed

lemma probe_absent:
  assumes inv: "slots_inv cs es cap" and gap: "CTRL_EMPTY \<in> set cs"
    and none: "\<And>j. live_slot cs j \<Longrightarrow> \<not> ok j"
  obtains q s where "probe cs cap (h2 h) ok (h1 h cap) = Some (Miss q)"
    "first_available cs q cap = Some s" "s < cap" "\<not> live_slot cs s" "reach cs cap (h1 h cap) s"
proof -
  let ?p = "h1 h cap"
  note D = slots_invD [OF inv]
  have no_hit: "\<not> hit_at cs cap (h2 h) ok ?p m" for m
    using none [of "(?p + m) mod cap"] D(1,2) h2_live by (auto simp: hit_at_def live_slot_def)
  obtain i where i: "i < cap" "cs ! i = CTRL_EMPTY" using gap D(2) by (metis in_set_conv_nth)
  obtain m where "i = (?p + m) mod cap" using ring_offset h1_less D(1) i(1) by metis
  with i have "empty_at cs cap ?p m" by (simp add: empty_at_def)
  then obtain r where r: "probe cs cap (h2 h) ok ?p = Some r" using probe_total [OF D(1)] by blast
  from probe_sound [OF D(1) r] no_hit obtain q g n where q: "r = Miss q"
    "q mod cap = (?p + 8 * g) mod cap" "\<forall>j < 8 * g. \<not> empty_at cs cap ?p j"
    "n < 8" "empty_at cs cap ?p (8 * g + n)"
    by (cases r) (auto simp: probe_verdict_def)
  have pos: "(q + j) mod cap = (?p + (8 * g + j)) mod cap" for j
    using q(2) by (metis add.assoc mod_add_left_eq)
  have "first_available cs q cap \<noteq> None"
    using q(4,5) by (auto simp: first_available_none [OF D(1)] pos empty_at_def)
  then obtain s where s: "first_available cs q cap = Some s" by blast
  obtain k where k: "k < 8" "s = (q + k) mod cap" "\<not> is_live_ctrl (cs ! s)"
    "\<And>j. j < k \<Longrightarrow> is_live_ctrl (cs ! ((q + j) mod cap))"
    using first_available_some [OF D(1) s] by blast
  have "\<not> empty_at cs cap ?p j" if "j < 8 * g + k" for j
  proof (cases "j < 8 * g")
    case False
    then have "is_live_ctrl (cs ! ((?p + j) mod cap))"
      using k(4) [of "j - 8 * g", unfolded pos] that by simp
    then show ?thesis by (auto simp: empty_at_def)
  qed (use q(3) in blast)
  then have "reach cs cap ?p s" using k(2) pos unfolding reach_def by blast
  then show ?thesis
    using that [of q s] r q(1) s k(2,3) D(1) by (auto simp: live_slot_def)
qed

lemma probe_stuck:
  assumes inv: "slots_inv cs es cap" and "CTRL_EMPTY \<notin> set cs"
    and none: "\<And>j. live_slot cs j \<Longrightarrow> \<not> ok j"
  shows "probe cs cap (h2 h) ok p = None"
proof (rule probe_diverges [OF slots_invD(1) [OF inv]])
  note D = slots_invD [OF inv]
  show "\<not> hit_at cs cap (h2 h) ok p m" for m
    using none [of "(p + m) mod cap"] D(1,2) h2_live by (auto simp: hit_at_def live_slot_def)
  show "\<not> empty_at cs cap p m" for m
    using assms(2) D(1,2) unfolding empty_at_def by (metis mod_less_divisor nth_mem ring_capD)
qed

end
