(* ===== verification/Index_Spec.thy ===== *)
theory Index_Spec
  imports Hash_Entry
begin

text \<open>
  What a hash index promises its clients: each keyed operation is a point operation on a finite
  map from key hashes to entry snapshots. \<open>keyed_op\<close> is the contract of one operation, with the
  condition under which it returns; the point operations of the specification are listed first.
\<close>

section \<open>Point operations of the map\<close>

definition te_expired :: "TableEntry \<Rightarrow> u32 \<Rightarrow> bool" where
  "te_expired e now \<longleftrightarrow> te_expire_at_secs e \<noteq> 0 \<and> te_expire_at_secs e \<le> now"

fun visible :: "u32 \<Rightarrow> TableEntry option \<Rightarrow> TableEntry option" where
  "visible now None = None"
| "visible now (Some e) = (if now \<noteq> 0 \<and> te_expired e now then None else Some e)"

definition spec_insert :: "TableEntry \<Rightarrow> TableEntry option \<Rightarrow> TableEntry option \<times> (SlabBlockId option, unit) outcome" where
  "spec_insert e old = (Some e, Ok (map_option te_slab_block_id old))"

definition spec_lookup :: "u32 \<Rightarrow> TableEntry option \<Rightarrow> TableEntry option \<times> TableEntry option" where
  "spec_lookup now old = (old, visible now old)"

definition spec_update_ttl :: "u32 \<Rightarrow> u32 \<Rightarrow> TableEntry option \<Rightarrow> TableEntry option \<times> bool" where
  "spec_update_ttl ex now old =
     (case visible now old of
        None \<Rightarrow> (old, False) | Some e \<Rightarrow> (Some (e\<lparr>te_expire_at_secs := ex\<rparr>), True))"

definition spec_get_ttl :: "u32 \<Rightarrow> TableEntry option \<Rightarrow> TableEntry option \<times> int" where
  "spec_get_ttl now old =
     (old, case visible now old of
             None \<Rightarrow> -2
           | Some e \<Rightarrow> if te_expire_at_secs e = 0 then -1
                       else uint (te_expire_at_secs e) - uint now)"

definition spec_persist :: "u32 \<Rightarrow> TableEntry option \<Rightarrow> TableEntry option \<times> bool" where
  "spec_persist now old =
     (case visible now old of
        None \<Rightarrow> (old, False)
      | Some e \<Rightarrow> (Some (e\<lparr>te_expire_at_secs := 0\<rparr>), te_expire_at_secs e \<noteq> 0))"

definition spec_remove :: "TableEntry option \<Rightarrow> TableEntry option \<times> TableEntry option" where
  "spec_remove old = (None, old)"

definition spec_remove_if :: "SlabBlockId \<Rightarrow> TableEntry option \<Rightarrow> TableEntry option \<times> TableEntry option" where
  "spec_remove_if b old =
     (case old of
        Some e \<Rightarrow> if te_slab_block_id e = b then (None, Some e) else (Some e, None)
      | None \<Rightarrow> (None, None))"

section \<open>The contract of a keyed operation\<close>

locale keyed_op =
  fixes invar :: "'t \<Rightarrow> bool"
    and repr :: "'t \<Rightarrow> 'k \<rightharpoonup> 'v"
    and ready :: "'t \<Rightarrow> 'k \<Rightarrow> bool"
    and op :: "'t \<Rightarrow> 'k \<Rightarrow> ('t \<times> 'r) option"
    and spec :: "'v option \<Rightarrow> 'v option \<times> 'r"
  assumes op_refines: "\<lbrakk>invar t; op t k = Some (t', r)\<rbrakk> \<Longrightarrow>
      invar t' \<and> repr t' = (repr t)(k := fst (spec (repr t k))) \<and> r = snd (spec (repr t k))"
    and op_returns: "\<lbrakk>invar t; ready t k\<rbrakk> \<Longrightarrow> op t k \<noteq> None"
begin

lemma op_total:
  assumes "invar t" "ready t k"
  obtains t' where "op t k = Some (t', snd (spec (repr t k)))" "invar t'"
    "repr t' = (repr t)(k := fst (spec (repr t k)))"
proof -
  obtain t' r where "op t k = Some (t', r)" using op_returns [OF assms] by auto
  with op_refines [OF assms(1) this] that show ?thesis by simp
qed

lemma op_other_key:
  assumes "invar t" "op t k = Some (t', r)" "k' \<noteq> k"
  shows "repr t' k' = repr t k'"
  using op_refines [OF assms(1,2)] assms(3) by simp

end

end
