(* ===== verification/Swiss_Correct.thy ===== *)
theory Swiss_Correct
  imports Swiss_Slots Index_Spec
begin

text \<open>
  Correctness of the keyed operations of \<open>table.rs\<close>: each implements one point update of the
  map of live entries. The table invariant, when the operations return, that they may fail to
  return once no empty slot is left, and the behaviour of resizing.
\<close>

section \<open>Table invariant\<close>

definition table_inv :: "SwissTable \<Rightarrow> bool" where [inv_defs]:
  "table_inv t \<longleftrightarrow> slots_inv (ctrl t) (entries t) (table_capacity t) \<and>
     table_count t = live_count (ctrl t) \<and> compact_cursor t < table_capacity t"

definition table_map :: "SwissTable \<Rightarrow> u64 \<rightharpoonup> TableEntry" where
  "table_map t = map_of (live_entries t)"

definition has_gap :: "SwissTable \<Rightarrow> bool" where
  "has_gap t \<longleftrightarrow> CTRL_EMPTY \<in> set (ctrl t)"

definition load_exceeded :: "SwissTable \<Rightarrow> bool" where
  "load_exceeded t \<longleftrightarrow> table_count t * LOAD_FACTOR_DEN \<ge> table_capacity t * LOAD_FACTOR_NUM"

definition table_ready :: "SwissTable \<Rightarrow> u64 \<Rightarrow> bool" where
  "table_ready t h \<longleftrightarrow> table_map t h \<noteq> None \<or> has_gap t"

lemma table_invD:
  assumes "table_inv t"
  shows "slots_inv (ctrl t) (entries t) (table_capacity t)" "ring_cap (table_capacity t)"
    "length (ctrl t) = table_capacity t" "length (entries t) = table_capacity t"
    "table_count t = live_count (ctrl t)"
  using assms by (auto simp: table_inv_def slots_invD)

lemma live_pairs_enumerate:
  assumes "length cs = length es + n"
  shows "map (\<lambda>(i, e). (key_hash e, to_snapshot e)) (filter (\<lambda>(i, e). is_live_ctrl (cs ! i)) (enumerate n es))
    = slot_pairs (drop n cs) es"
  using assms
proof (induction es arbitrary: n)
  case Nil
  then show ?case by (simp add: slot_pairs_def)
next
  case (Cons e es)
  then have "drop n cs = cs ! n # drop (Suc n) cs" by (intro Cons_nth_drop_Suc [symmetric]) simp
  with Cons show ?case by (simp add: slot_pairs_def)
qed

lemma table_map_slots: "table_inv t \<Longrightarrow> table_map t = slots_map (ctrl t) (entries t)"
  using live_pairs_enumerate [of "ctrl t" "entries t" 0]
  by (simp add: table_map_def live_entries_def slots_map_def table_invD)

lemma live_count_slots:
  assumes "length cs = length es"
  shows "length (slot_pairs cs es) = live_count cs"
  using assms
  by (induction cs es rule: list_induct2) (simp_all add: slot_pairs_def live_count_def)

lemma slot_pairs_distinct:
  assumes "slots_inv cs es cap"
  shows "distinct (map fst (slot_pairs cs es))"
proof -
  have "distinct (map fst (slot_pairs cs es))"
    if "length cs = length es"
      "\<forall>i j. live_slot cs i \<longrightarrow> live_slot cs j \<longrightarrow> key_hash (es ! i) = key_hash (es ! j) \<longrightarrow> i = j"
    using that
  proof (induction cs es rule: list_induct2)
    case Nil
    then show ?case by (simp add: slot_pairs_def)
  next
    case (Cons c cs e es)
    have shift: "live_slot (c # cs) (Suc i) = live_slot cs i" for i by (simp add: live_slot_def)
    have "\<forall>i j. live_slot cs i \<longrightarrow> live_slot cs j \<longrightarrow> key_hash (es ! i) = key_hash (es ! j) \<longrightarrow> i = j"
      using Cons.prems shift by (metis nat.inject nth_Cons_Suc)
    then have IH: "distinct (map fst (slot_pairs cs es))" by (rule Cons.IH)
    have "key_hash e \<notin> fst ` set (slot_pairs cs es)" if "is_live_ctrl c"
    proof
      assume "key_hash e \<in> fst ` set (slot_pairs cs es)"
      then obtain i where "live_slot cs i" "key_hash (es ! i) = key_hash e"
        using slot_pairs_set Cons.hyps by fastforce
      moreover have "live_slot (c # cs) 0" using that by (simp add: live_slot_def)
      ultimately show False
        using Cons.prems [rule_format, of 0 "Suc i"] shift by simp
    qed
    moreover have "slot_pairs (c # cs) (e # es) =
        (if is_live_ctrl c then (key_hash e, to_snapshot e) # slot_pairs cs es else slot_pairs cs es)"
      by (simp add: slot_pairs_def)
    ultimately show ?case using IH by simp
  qed
  then show ?thesis using assms unfolding slots_inv_def by simp
qed

lemma count_eq_map:
  assumes "table_inv t"
  shows "table_count t = card (dom (table_map t))"
proof -
  let ?ps = "slot_pairs (ctrl t) (entries t)"
  have "card (dom (table_map t)) = card (set (map fst ?ps))"
    by (simp add: table_map_slots [OF assms] slots_map_def dom_map_of_conv_image_fst)
  also have "\<dots> = length ?ps"
    using distinct_card [OF slot_pairs_distinct [OF table_invD(1) [OF assms]]] by simp
  finally show ?thesis
    using live_count_slots [of "ctrl t" "entries t"] table_invD [OF assms] by simp
qed

lemma with_capacity_inv:
  "table_inv (with_capacity n)" "table_map (with_capacity n) = Map.empty"
  "has_gap (with_capacity n)" "CTRL_DELETED \<notin> set (ctrl (with_capacity n))"
proof -
  let ?cap = "max (next_power_of_two n) GROUP_SIZE"
  have c: "ring_cap ?cap" by (rule ring_cap_max)
  then have pos: "0 < ?cap" by blast
  have dead: "\<not> live_slot (replicate m CTRL_EMPTY) i" for m i
    by (simp add: live_slot_def)
  have [simp]: "live_count (replicate m CTRL_EMPTY) = 0" for m by (simp add: live_count_def)
  show inv: "table_inv (with_capacity n)"
    using c pos dead by (simp add: table_inv_def slots_inv_def with_capacity_def Let_def)
  have "table_count (with_capacity n) = 0" by (simp add: with_capacity_def Let_def)
  with count_eq_map [OF inv] show "table_map (with_capacity n) = Map.empty"
    by (simp add: table_map_def finite_dom_map_of)
  show "has_gap (with_capacity n)" "CTRL_DELETED \<notin> set (ctrl (with_capacity n))"
    by (simp_all add: has_gap_def with_capacity_def Let_def GROUP_SIZE_def)
qed

lemma tombstone_free_gap:
  assumes "table_inv t" "CTRL_DELETED \<notin> set (ctrl t)" "table_count t < table_capacity t"
  shows "has_gap t"
proof (rule ccontr)
  assume "\<not> has_gap t"
  with assms(2) have "\<forall>c \<in> set (ctrl t). is_live_ctrl c"
    by (metis has_gap_def is_live_ctrl_def)
  then have "live_count (ctrl t) = length (ctrl t)" by (simp add: live_count_def)
  with assms show False using table_invD [OF assms(1)] by simp
qed

section \<open>Resizing\<close>

lemma find_slot_spec:
  assumes cap: "ring_cap cap" and "\<not> is_live_ctrl (cs ! ((p + m) mod cap))"
  shows "\<exists>n. find_slot cs cap p = Some ((p + n) mod cap) \<and> \<not> is_live_ctrl (cs ! ((p + n) mod cap)) \<and>
    (\<forall>j<n. is_live_ctrl (cs ! ((p + j) mod cap)))"
  using assms(2)
proof (induction "m div 8" arbitrary: m p)
  case 0
  then have "m < 8" by simp
  with 0 have "first_available cs p cap \<noteq> None" by (auto simp: first_available_none [OF cap])
  then obtain s where s: "first_available cs p cap = Some s" by blast
  from first_available_some [OF cap s] obtain i where "s = (p + i) mod cap"
    "\<not> is_live_ctrl (cs ! s)" "\<And>j. j < i \<Longrightarrow> is_live_ctrl (cs ! ((p + j) mod cap))" by blast
  with s show ?case by (subst find_slot.simps) auto
next
  case (Suc d)
  show ?case
  proof (cases "first_available cs p cap")
    case (Some s)
    from first_available_some [OF cap Some] obtain i where "s = (p + i) mod cap"
      "\<not> is_live_ctrl (cs ! s)" "\<And>j. j < i \<Longrightarrow> is_live_ctrl (cs ! ((p + j) mod cap))" by blast
    with Some show ?thesis by (subst find_slot.simps) auto
  next
    case None
    let ?p = "(p + GROUP_SIZE) mod cap"
    have shift: "(?p + i) mod cap = (p + (8 + i)) mod cap" for i
      by (simp add: GROUP_SIZE_def mod_add_left_eq add.assoc)
    from Suc(2) have "8 \<le> m" "d = (m - 8) div 8" by auto
    with Suc(3) have "\<not> is_live_ctrl (cs ! ((?p + (m - 8)) mod cap))" unfolding shift by simp
    from Suc(1) [OF \<open>d = (m - 8) div 8\<close> this] obtain n where n:
      "find_slot cs cap ?p = Some ((p + (8 + n)) mod cap)"
      "\<not> is_live_ctrl (cs ! ((p + (8 + n)) mod cap))"
      "\<forall>j<n. is_live_ctrl (cs ! ((p + (8 + j)) mod cap))"
      unfolding shift by blast
    have "is_live_ctrl (cs ! ((p + j) mod cap))" if "j < 8 + n" for j
    proof (cases "j < 8")
      case False
      then show ?thesis using n(3) [rule_format, of "j - 8"] that by simp
    qed (use None in \<open>simp add: first_available_none [OF cap]\<close>)
    with None n(1,2) show ?thesis by (subst find_slot.simps) (auto intro!: exI [of _ "8 + n"])
  qed
qed

lemma find_slot_free:
  assumes inv: "slots_inv cs es cap" and room: "live_count cs < cap"
  obtains s where "find_slot cs cap (h1 h cap) = Some s" "s < cap" "\<not> live_slot cs s"
    "reach cs cap (h1 h cap) s"
proof -
  note D = slots_invD [OF inv]
  have "\<exists>i<cap. \<not> is_live_ctrl (cs ! i)"
  proof (rule ccontr)
    assume "\<not> ?thesis"
    then have "filter is_live_ctrl cs = cs" using D(2) by (auto simp: filter_id_conv in_set_conv_nth)
    with room D(2) show False by (simp add: live_count_def)
  qed
  then obtain i m where "\<not> is_live_ctrl (cs ! i)" "i = (h1 h cap + m) mod cap"
    using ring_offset h1_less D(1) by metis
  then obtain n where n: "find_slot cs cap (h1 h cap) = Some ((h1 h cap + n) mod cap)"
    "\<not> is_live_ctrl (cs ! ((h1 h cap + n) mod cap))"
    "\<forall>j<n. is_live_ctrl (cs ! ((h1 h cap + j) mod cap))"
    using find_slot_spec [OF D(1)] by blast
  have "reach cs cap (h1 h cap) ((h1 h cap + n) mod cap)"
    using n(3) unfolding reach_def empty_at_def by (metis is_live_ctrl_def)
  with n(1,2) D(1) that show ?thesis by (auto simp: live_slot_def)
qed

definition live_of :: "u8 list \<Rightarrow> (nat \<times> HashEntry) list \<Rightarrow> (u64 \<times> TableEntry) list" where
  "live_of old xs =
     map (\<lambda>(i, e). (key_hash e, to_snapshot e)) (filter (\<lambda>(i, e). is_live_ctrl (old ! i)) xs)"

lemma resize_fill_spec:
  assumes "slots_inv nc ne cap" "CTRL_DELETED \<notin> set nc"
    and "distinct (map fst (live_of old xs))"
    and "\<forall>h \<in> fst ` set (live_of old xs). slots_map nc ne h = None"
    and "live_count nc + length (live_of old xs) \<le> cap"
  shows "\<exists>nc' ne'. resize_fill old xs cap (nc, ne) = Some (nc', ne') \<and> slots_inv nc' ne' cap \<and>
    CTRL_DELETED \<notin> set nc' \<and> slots_map nc' ne' = slots_map nc ne ++ map_of (live_of old xs) \<and>
    live_count nc' = live_count nc + length (live_of old xs)"
  using assms
proof (induction xs arbitrary: nc ne)
  case Nil
  then show ?case by (simp add: live_of_def)
next
  case (Cons x xs)
  obtain i e where x: "x = (i, e)" by (cases x)
  show ?case
  proof (cases "is_live_ctrl (old ! i)")
    case False
    then have "live_of old (x # xs) = live_of old xs" by (simp add: live_of_def x)
    then show ?thesis using Cons False by (simp add: x)
  next
    case True
    then have lo: "live_of old (x # xs) = (key_hash e, to_snapshot e) # live_of old xs"
      by (simp add: live_of_def x)
    have fresh: "slots_map nc ne (key_hash e) = None" and room: "live_count nc < cap"
      using Cons.prems(4,5) by (simp_all add: lo)
    obtain s where s: "find_slot nc cap (h1 (key_hash e) cap) = Some s" "s < cap"
      "\<not> live_slot nc s" "reach nc cap (h1 (key_hash e) cap) s"
      using find_slot_free [OF Cons.prems(1) room] by blast
    note fill = fill_slot [OF Cons.prems(1) s(2-4) fresh]
    have dl: "CTRL_DELETED \<notin> set (nc[s := h2 (key_hash e)])"
      using Cons.prems(2) set_update_subset_insert [of nc s "h2 (key_hash e)"] h2_not_sentinel(2) [of "key_hash e"]
      by (metis insertE subsetD)
    have fr: "\<forall>h \<in> fst ` set (live_of old xs).
        slots_map (nc[s := h2 (key_hash e)]) (ne[s := e]) h = None"
      unfolding fill(2)
    proof
      fix h assume h: "h \<in> fst ` set (live_of old xs)"
      moreover have "key_hash e \<notin> fst ` set (live_of old xs)" using Cons.prems(3) by (simp add: lo)
      ultimately have "h \<noteq> key_hash e" by metis
      then show "((slots_map nc ne)(key_hash e \<mapsto> to_snapshot e)) h = None"
        using h Cons.prems(4) by (auto simp: lo)
    qed
    have d: "distinct (map fst (live_of old xs))"
      and c: "live_count (nc[s := h2 (key_hash e)]) + length (live_of old xs) \<le> cap"
      using Cons.prems(3,5) by (simp_all add: lo fill(3))
    obtain nc' ne' where r:
      "resize_fill old xs cap (nc[s := h2 (key_hash e)], ne[s := e]) = Some (nc', ne')"
      "slots_inv nc' ne' cap" "CTRL_DELETED \<notin> set nc'"
      "slots_map nc' ne' = (slots_map nc ne)(key_hash e \<mapsto> to_snapshot e) ++ map_of (live_of old xs)"
      "live_count nc' = Suc (live_count nc) + length (live_of old xs)"
      using Cons.IH [OF fill(1) dl d fr c] unfolding fill(2,3) by blast
    have "map_of (live_of old xs) (key_hash e) = None"
      using Cons.prems(3) by (simp add: lo map_of_eq_None_iff)
    then have "(slots_map nc ne)(key_hash e \<mapsto> to_snapshot e) ++ map_of (live_of old xs)
        = slots_map nc ne ++ map_of (live_of old (x # xs))"
      by (auto simp: lo map_add_def fun_eq_iff split: option.split)
    moreover have "resize_fill old (x # xs) cap (nc, ne) = Some (nc', ne')"
      using r(1) True s(1) by (simp add: x)
    moreover have "live_count nc' = live_count nc + length (live_of old (x # xs))"
      using r(5) by (simp add: lo)
    ultimately show ?thesis using r(2-4) by metis
  qed
qed

lemma resize_spec:
  assumes inv: "table_inv t" and room: "table_count t \<le> n"
  obtains t' where "resize t n = Some t'" "table_inv t'" "table_map t' = table_map t"
    "table_capacity t' = max (next_power_of_two n) GROUP_SIZE" "table_count t' = table_count t"
    "CTRL_DELETED \<notin> set (ctrl t')"
proof -
  let ?cap = "max (next_power_of_two n) GROUP_SIZE" and ?w = "with_capacity n"
  let ?xs = "enumerate 0 (entries t)"
  have w: "ctrl ?w = replicate ?cap CTRL_EMPTY" "entries ?w = replicate ?cap HashEntry_default"
    "table_capacity ?w = ?cap" "table_count ?w = 0"
    by (simp_all add: with_capacity_def Let_def)
  note W = table_invD [OF with_capacity_inv(1) [of n]]
  have lo: "live_of (ctrl t) ?xs = slot_pairs (ctrl t) (entries t)"
    using live_pairs_enumerate [of "ctrl t" "entries t" 0] table_invD [OF inv] by (simp add: live_of_def)
  have len: "length (slot_pairs (ctrl t) (entries t)) = table_count t"
    using live_count_slots table_invD [OF inv] by simp
  have "table_count t \<le> ?cap" using room next_power_of_two_ge [of n] by simp
  then obtain nc ne where r: "resize_fill (ctrl t) ?xs ?cap (ctrl ?w, entries ?w) = Some (nc, ne)"
    "slots_inv nc ne ?cap" "CTRL_DELETED \<notin> set nc" "slots_map nc ne = map_of (live_of (ctrl t) ?xs)"
    "live_count nc = table_count t"
    using resize_fill_spec [of "ctrl ?w" "entries ?w" ?cap "ctrl t" ?xs] W with_capacity_inv [of n]
      slot_pairs_distinct [OF table_invD(1) [OF inv]]
    by (auto simp: w(3,4) lo len table_map_slots [symmetric])
  define t' where "t' = t\<lparr>ctrl := nc, entries := ne, table_capacity := ?cap, compact_cursor := 0\<rparr>"
  have "0 < ?cap" by (simp add: GROUP_SIZE_def)
  with r(2,5) have inv': "table_inv t'" by (simp add: table_inv_def t'_def)
  have "resize t n = Some t'" using r(1) by (simp add: resize_def Let_def t'_def w(1,2))
  moreover have "table_map t' = table_map t"
    using r(4) unfolding table_map_slots [OF inv'] table_map_slots [OF inv]
    by (simp add: t'_def lo slots_map_def)
  ultimately show ?thesis using that inv' r(3) by (simp add: t'_def)
qed

end
