(* ===== verification/Swiss_Ops.thy ===== *)
theory Swiss_Ops
  imports Swiss_Correct
begin

text \<open>
  The keyed operations of \<open>table.rs\<close> satisfy the contract of a hash index
  (\<open>keyed_op\<close>): one interpretation per operation. The rest of the theory is about the
  condition under which they return: it holds for every table that has never had an entry
  removed since its last resize, and it can be lost for good once tombstones fill the table.
\<close>

section \<open>The probe of a keyed operation\<close>

lemma slot_matches_live:
  "table_inv t \<Longrightarrow> live_slot (ctrl t) i \<Longrightarrow> slot_matches t h i \<longleftrightarrow> key_hash (entries t ! i) = h"
  by (auto simp: slot_matches_def live_slot_def entry_matches_def)

lemma table_present:
  assumes "table_inv t" "table_map t h = Some x"
  obtains i where "live_slot (ctrl t) i" "key_hash (entries t ! i) = h" "to_snapshot (entries t ! i) = x"
    "i < table_capacity t" "table_probe t h (slot_matches t h) = Some (Hit i)"
proof -
  note D = table_invD [OF assms(1)]
  obtain i where i: "live_slot (ctrl t) i" "key_hash (entries t ! i) = h" "to_snapshot (entries t ! i) = x"
    using assms(2) slots_map_iff [OF D(1)] table_map_slots [OF assms(1)] by auto
  have "table_probe t h (slot_matches t h) = Some (Hit i)"
    using probe_present [OF D(1) i(1), of "slot_matches t h"] i(2) slot_matches_live [OF assms(1)] i(1)
    by (simp add: table_probe_def)
  moreover have "i < table_capacity t" using i(1) D(3) by (simp add: live_slot_def)
  ultimately show ?thesis using that i by blast
qed

lemma table_absent:
  assumes "table_inv t" "has_gap t"
    and "\<And>i. live_slot (ctrl t) i \<Longrightarrow> \<not> ok i"
  obtains q s where "table_probe t h ok = Some (Miss q)"
    "first_available (ctrl t) q (table_capacity t) = Some s" "s < table_capacity t"
    "\<not> live_slot (ctrl t) s" "reach (ctrl t) (table_capacity t) (h1 h (table_capacity t)) s"
  using probe_absent [OF table_invD(1) [OF assms(1)], of ok h] assms(2,3)
  unfolding has_gap_def table_probe_def by blast

lemma table_stuck:
  assumes "table_inv t" "\<not> has_gap t" "\<And>i. live_slot (ctrl t) i \<Longrightarrow> \<not> ok i"
  shows "table_probe t h ok = None"
  using probe_stuck [OF table_invD(1) [OF assms(1)]] assms(2,3)
  unfolding has_gap_def table_probe_def by blast

lemma no_match:
  assumes "table_inv t" "table_map t h = None" "live_slot (ctrl t) i"
  shows "\<not> slot_matches t h i"
  using assms slots_map_none_iff [OF table_invD(1) [OF assms(1)]]
  by (simp add: slot_matches_live table_map_slots)

lemma table_probe_cases:
  assumes inv: "table_inv t"
  obtains (hit) i where "table_probe t h (slot_matches t h) = Some (Hit i)" "live_slot (ctrl t) i"
      "i < table_capacity t" "key_hash (entries t ! i) = h"
      "table_map t h = Some (to_snapshot (entries t ! i))"
  | (miss) q s where "table_probe t h (slot_matches t h) = Some (Miss q)" "table_map t h = None" "has_gap t"
      "first_available (ctrl t) q (table_capacity t) = Some s" "s < table_capacity t"
      "\<not> live_slot (ctrl t) s" "reach (ctrl t) (table_capacity t) (h1 h (table_capacity t)) s"
  | (stuck) "table_probe t h (slot_matches t h) = None" "table_map t h = None" "\<not> has_gap t"
proof (cases "table_map t h")
  case (Some x)
  obtain i where "live_slot (ctrl t) i" "key_hash (entries t ! i) = h"
    "to_snapshot (entries t ! i) = x" "i < table_capacity t"
    "table_probe t h (slot_matches t h) = Some (Hit i)"
    using table_present [OF inv Some] by blast
  with hit Some show ?thesis by blast
next
  case None
  note nm = no_match [OF inv None]
  show ?thesis
  proof (cases "has_gap t")
    case True
    obtain q s where "table_probe t h (slot_matches t h) = Some (Miss q)"
      "first_available (ctrl t) q (table_capacity t) = Some s" "s < table_capacity t"
      "\<not> live_slot (ctrl t) s" "reach (ctrl t) (table_capacity t) (h1 h (table_capacity t)) s"
      using table_absent [OF inv True, of "slot_matches t h" h] nm by blast
    with miss True None show ?thesis by blast
  next
    case False
    then show ?thesis using table_stuck [OF inv False, of "slot_matches t h" h] nm stuck None by blast
  qed
qed

lemma table_overwrite:
  assumes inv: "table_inv t" and i: "live_slot (ctrl t) i" "key_hash e = key_hash (entries t ! i)"
  shows "table_inv (t\<lparr>entries := (entries t)[i := e]\<rparr>)"
    and "table_map (t\<lparr>entries := (entries t)[i := e]\<rparr>) = (table_map t)(key_hash e \<mapsto> to_snapshot e)"
proof -
  note o = overwrite_slot [OF table_invD(1) [OF inv] i]
  show inv': "table_inv (t\<lparr>entries := (entries t)[i := e]\<rparr>)"
    using inv o(1) by (simp add: table_inv_def)
  show "table_map (t\<lparr>entries := (entries t)[i := e]\<rparr>) = (table_map t)(key_hash e \<mapsto> to_snapshot e)"
    using o(2) unfolding table_map_slots [OF inv'] table_map_slots [OF inv] by simp
qed

lemma te_expired_snapshot [simp]: "te_expired (to_snapshot e) now = is_expired e now"
  by (simp add: te_expired_def is_expired_def to_snapshot_def)

section \<open>Reading and time-to-live operations\<close>

definition lookup_snapshot :: "u32 \<Rightarrow> SwissTable \<Rightarrow> u64 \<Rightarrow> (SwissTable \<times> TableEntry option) option" where
  "lookup_snapshot now t h = map_option (\<lambda>(t', r). (t', map_option to_snapshot r)) (lookup_checked t h now)"

interpretation swiss_lookup: keyed_op table_inv table_map table_ready "lookup_snapshot now" "spec_lookup now"
  for now
proof unfold_locales
  fix t k t' r
  assume inv: "table_inv t" and op: "lookup_snapshot now t k = Some (t', r)"
  show "table_inv t' \<and> table_map t' = (table_map t)(k := fst (spec_lookup now (table_map t k))) \<and>
      r = snd (spec_lookup now (table_map t k))"
  using inv
  proof (cases rule: table_probe_cases [of t k])
    case (hit i)
    then show ?thesis
      using op inv table_overwrite [OF inv hit(2), of "mark_accessed (entries t ! i)"]
      by (auto simp: lookup_snapshot_def lookup_checked_def spec_lookup_def Let_def split: if_splits)
  qed (use op inv in \<open>auto simp: lookup_snapshot_def lookup_checked_def spec_lookup_def\<close>)
next
  fix t k
  assume "table_inv t" "table_ready t k"
  then show "lookup_snapshot now t k \<noteq> None"
    by (cases rule: table_probe_cases [of t k])
      (auto simp: lookup_snapshot_def lookup_checked_def table_ready_def Let_def)
qed

interpretation swiss_update_ttl: keyed_op table_inv table_map table_ready
    "\<lambda>t h. update_ttl t h ex now" "spec_update_ttl ex now"
  for ex now
proof unfold_locales
  fix t k t' r
  assume inv: "table_inv t" and op: "update_ttl t k ex now = Some (t', r)"
  show "table_inv t' \<and> table_map t' = (table_map t)(k := fst (spec_update_ttl ex now (table_map t k))) \<and>
      r = snd (spec_update_ttl ex now (table_map t k))"
  using inv
  proof (cases rule: table_probe_cases [of t k])
    case (hit i)
    have "to_snapshot ((entries t ! i)\<lparr>expire_at_secs := ex\<rparr>) =
        (to_snapshot (entries t ! i))\<lparr>te_expire_at_secs := ex\<rparr>"
      by (simp add: to_snapshot_def)
    then show ?thesis
      using op inv hit
        table_overwrite [OF inv hit(2), of "mark_accessed ((entries t ! i)\<lparr>expire_at_secs := ex\<rparr>)"]
      by (auto simp: update_ttl_def spec_update_ttl_def Let_def split: if_splits)
  qed (use op inv in \<open>auto simp: update_ttl_def spec_update_ttl_def\<close>)
next
  fix t k
  assume "table_inv t" "table_ready t k"
  then show "update_ttl t k ex now \<noteq> None"
    by (cases rule: table_probe_cases [of t k]) (auto simp: update_ttl_def table_ready_def Let_def)
qed

lemma keep_expiry: "\<not> 0 < te_expire_at_secs x \<Longrightarrow> (x :: TableEntry)\<lparr>te_expire_at_secs := 0\<rparr> = x"
  by (simp add: word_neq_0_conv [symmetric])

interpretation swiss_persist: keyed_op table_inv table_map table_ready
    "\<lambda>t h. persist t h now" "spec_persist now"
  for now
proof unfold_locales
  fix t k t' r
  assume inv: "table_inv t" and op: "persist t k now = Some (t', r)"
  show "table_inv t' \<and> table_map t' = (table_map t)(k := fst (spec_persist now (table_map t k))) \<and>
      r = snd (spec_persist now (table_map t k))"
  using inv
  proof (cases rule: table_probe_cases [of t k])
    case (hit i)
    have "to_snapshot ((entries t ! i)\<lparr>expire_at_secs := 0\<rparr>) =
        (to_snapshot (entries t ! i))\<lparr>te_expire_at_secs := 0\<rparr>"
      "expire_at_secs (entries t ! i) = te_expire_at_secs (to_snapshot (entries t ! i))"
      by (simp_all add: to_snapshot_def)
    then show ?thesis
      using op inv hit
        table_overwrite [OF inv hit(2), of "mark_accessed ((entries t ! i)\<lparr>expire_at_secs := 0\<rparr>)"]
      by (auto simp: persist_def spec_persist_def Let_def word_neq_0_conv keep_expiry fun_upd_idem
          split: if_splits)
  qed (use op inv in \<open>auto simp: persist_def spec_persist_def\<close>)
next
  fix t k
  assume "table_inv t" "table_ready t k"
  then show "persist t k now \<noteq> None"
    by (cases rule: table_probe_cases [of t k]) (auto simp: persist_def table_ready_def Let_def)
qed

interpretation swiss_get_ttl: keyed_op table_inv table_map table_ready
    "\<lambda>t h. get_ttl t h now" "spec_get_ttl now"
  for now
proof unfold_locales
  fix t k t' r
  assume inv: "table_inv t" and op: "get_ttl t k now = Some (t', r)"
  show "table_inv t' \<and> table_map t' = (table_map t)(k := fst (spec_get_ttl now (table_map t k))) \<and>
      r = snd (spec_get_ttl now (table_map t k))"
  proof -
    obtain eo where lk: "lookup_checked t k now = Some (t', eo)"
      using op by (auto simp: get_ttl_def split: option.splits)
    then have "lookup_snapshot now t k = Some (t', map_option to_snapshot eo)"
      by (simp add: lookup_snapshot_def)
    from swiss_lookup.op_refines [OF inv this]
    have st: "table_inv t'" "table_map t' = table_map t"
      and vis: "visible now (table_map t k) = map_option to_snapshot eo"
      by (auto simp: spec_lookup_def)
    have "r = snd (spec_get_ttl now (table_map t k))"
    proof (cases eo)
      case None
      then show ?thesis using op lk vis by (simp add: get_ttl_def spec_get_ttl_def)
    next
      case (Some e)
      then have "table_map t k = Some (to_snapshot e)" "now = 0 \<or> \<not> is_expired e now"
        using vis by (cases "table_map t k"; auto split: if_splits)+
      then have "expire_at_secs e \<noteq> 0 \<Longrightarrow> now < expire_at_secs e"
        by (auto simp: is_expired_def word_neq_0_conv)
      with Some show ?thesis
        using op lk vis
        by (auto simp: get_ttl_def spec_get_ttl_def to_snapshot_def uint_minus_simple_alt [THEN iffD1])
    qed
    with st show ?thesis by (simp add: spec_get_ttl_def)
  qed
next
  fix t k
  assume "table_inv t" "table_ready t k"
  then show "get_ttl t k now \<noteq> None"
    using swiss_lookup.op_returns [of t k now]
    by (auto simp: get_ttl_def lookup_snapshot_def split: option.splits)
qed

section \<open>Insertion\<close>

definition insert_ready :: "SwissTable \<Rightarrow> u64 \<Rightarrow> bool" where
  "insert_ready t h \<longleftrightarrow> load_exceeded t \<or> table_ready t h"

lemma table_fill:
  assumes inv: "table_inv t" and s: "s < table_capacity t" "\<not> live_slot (ctrl t) s"
    and path: "reach (ctrl t) (table_capacity t) (h1 (key_hash e) (table_capacity t)) s"
    and fresh: "table_map t (key_hash e) = None"
  defines "t' \<equiv> t\<lparr>ctrl := (ctrl t)[s := h2 (key_hash e)], entries := (entries t)[s := e],
    table_count := table_count t + 1\<rparr>"
  shows "table_inv t'" "table_map t' = (table_map t)(key_hash e \<mapsto> to_snapshot e)"
proof -
  note f = fill_slot [OF table_invD(1) [OF inv] s path fresh [unfolded table_map_slots [OF inv]]]
  show inv': "table_inv t'" using inv f(1,3) by (simp add: table_inv_def t'_def)
  show "table_map t' = (table_map t)(key_hash e \<mapsto> to_snapshot e)"
    using f(2) unfolding table_map_slots [OF inv'] table_map_slots [OF inv] by (simp add: t'_def)
qed

text \<open>The growth step at the head of \<open>insert_typed\<close>.\<close>

definition grown :: "SwissTable \<Rightarrow> SwissTable option" where
  "grown t = (if load_exceeded t then resize t (table_capacity t * 2) else Some t)"

lemma pow2_double: "ring_cap cap \<Longrightarrow> max (next_power_of_two (cap * 2)) GROUP_SIZE = cap * 2"
  unfolding ring_cap_def GROUP_SIZE_def
  by (metis le_Suc_ex max.absorb1 mult_2_right next_power_of_two_pow2 power_Suc2 trans_le_add1)

lemma live_count_le: "live_count cs \<le> length cs"
  by (simp add: live_count_def)

lemma grown_spec:
  assumes inv: "table_inv t"
  obtains t' where "grown t = Some t'" "table_inv t'" "table_map t' = table_map t"
    "table_count t' = table_count t"
    "if load_exceeded t then table_capacity t' = table_capacity t * 2 \<and> CTRL_DELETED \<notin> set (ctrl t') \<and> has_gap t'
     else t' = t"
proof (cases "load_exceeded t")
  case True
  have count: "table_count t \<le> table_capacity t"
    using live_count_le [of "ctrl t"] table_invD [OF inv] by simp
  then obtain t' where t': "resize t (table_capacity t * 2) = Some t'" "table_inv t'"
    "table_map t' = table_map t" "table_capacity t' = table_capacity t * 2"
    "table_count t' = table_count t" "CTRL_DELETED \<notin> set (ctrl t')"
    using resize_spec [OF inv, of "table_capacity t * 2"] pow2_double [OF table_invD(2) [OF inv]]
    by (metis mult_2_right trans_le_add1)
  have "0 < table_capacity t" using table_invD(2) [OF inv] by blast
  then have "has_gap t'" using tombstone_free_gap [OF t'(2,6)] t'(4,5) count by simp
  with t' True that show ?thesis by (simp add: grown_def)
qed (use inv that in \<open>simp add: grown_def\<close>)

lemma insert_typed_grown:
  "insert_typed t h b len ex ty =
     (case grown t of None \<Rightarrow> None
      | Some t1 \<Rightarrow>
          (case table_probe t1 h (slot_matches t1 h) of
             None \<Rightarrow> None
           | Some (Hit idx) \<Rightarrow>
               Some (t1\<lparr>entries := (entries t1)[idx := with_type h b len ex ty]\<rparr>,
                     Ok (Some (slab_block_id (entries t1 ! idx))))
           | Some (Miss pos) \<Rightarrow>
               (case first_available (ctrl t1) pos (table_capacity t1) of
                  None \<Rightarrow> Some (t1, Err ())
                | Some slot \<Rightarrow>
                    Some (t1\<lparr>ctrl := (ctrl t1)[slot := h2 h],
                             entries := (entries t1)[slot := with_type h b len ex ty],
                             table_count := table_count t1 + 1\<rparr>,
                          Ok None))))"
  by (simp add: insert_typed_def grown_def load_exceeded_def)

interpretation swiss_insert: keyed_op table_inv table_map insert_ready
    "\<lambda>t h. insert_typed t h b len ex ty"
    "spec_insert \<lparr>te_slab_block_id = b, te_value_len = len, te_expire_at_secs = ex, te_value_type = ty\<rparr>"
  for b len ex ty
proof unfold_locales
  fix t k t' r
  let ?spec = "spec_insert \<lparr>te_slab_block_id = b, te_value_len = len, te_expire_at_secs = ex, te_value_type = ty\<rparr>"
  assume inv: "table_inv t" and op: "insert_typed t k b len ex ty = Some (t', r)"
  obtain t1 where t1: "grown t = Some t1" "table_inv t1" "table_map t1 = table_map t"
    using grown_spec [OF inv] by metis
  show "table_inv t' \<and> table_map t' = (table_map t)(k := fst (?spec (table_map t k))) \<and>
      r = snd (?spec (table_map t k))"
    using t1(2)
  proof (cases rule: table_probe_cases [of t1 k])
    case (hit i)
    have "slab_block_id (entries t1 ! i) = te_slab_block_id (to_snapshot (entries t1 ! i))"
      by (simp add: to_snapshot_def)
    then show ?thesis
      using op t1 hit table_overwrite [OF t1(2) hit(2), of "with_type k b len ex ty"]
      by (auto simp: insert_typed_grown spec_insert_def)
  next
    case (miss q s)
    then show ?thesis
      using op t1 table_fill [OF t1(2) miss(5,6), of "with_type k b len ex ty"]
      by (auto simp: insert_typed_grown spec_insert_def)
  next
    case stuck
    then show ?thesis using op t1(1) by (simp add: insert_typed_grown)
  qed
next
  fix t k
  assume inv: "table_inv t" and ready: "insert_ready t k"
  obtain t1 where t1: "grown t = Some t1" "table_inv t1" "table_map t1 = table_map t"
    "if load_exceeded t then has_gap t1 else t1 = t"
    using grown_spec [OF inv] by (metis (full_types))
  then have ready1: "table_ready t1 k"
    using ready by (auto simp: insert_ready_def table_ready_def split: if_splits)
  show "insert_typed t k b len ex ty \<noteq> None"
    using t1(2)
  proof (cases rule: table_probe_cases [of t1 k])
    case stuck
    then show ?thesis using ready1 by (simp add: table_ready_def)
  qed (use t1(1) in \<open>simp_all add: insert_typed_grown\<close>)
qed

section \<open>Removal\<close>

lemma remove_at_spec:
  assumes inv: "table_inv t" and i: "live_slot (ctrl t) i"
  obtains t' where "remove_at t i = Some (t', Some (to_snapshot (entries t ! i)))" "table_inv t'"
    "table_map t' = (table_map t)(key_hash (entries t ! i) := None)"
proof -
  define t1 where "t1 = t\<lparr>ctrl := (ctrl t)[i := CTRL_DELETED], table_count := table_count t - 1\<rparr>"
  note d = delete_slot [OF table_invD(1) [OF inv] i]
  have inv1: "table_inv t1" using inv d(1,3) by (simp add: table_inv_def t1_def)
  have map1: "table_map t1 = (table_map t)(key_hash (entries t ! i) := None)"
    using d(2) unfolding table_map_slots [OF inv1] table_map_slots [OF inv] by (simp add: t1_def)
  show ?thesis
  proof (cases "table_capacity t1 > MIN_SHRINK_CAPACITY \<and>
      table_count t1 * SHRINK_LOAD_FACTOR_DEN < table_capacity t1")
    case True
    then have "table_count t1 \<le> table_capacity t1 div 2" unfolding SHRINK_LOAD_FACTOR_DEN_def by linarith
    then obtain t2 where "resize t1 (table_capacity t1 div 2) = Some t2" "table_inv t2"
      "table_map t2 = table_map t1"
      using resize_spec [OF inv1] by metis
    with True have "remove_at t i = Some (t2, Some (to_snapshot (entries t ! i)))"
      unfolding remove_at_def Let_def t1_def [symmetric] by simp
    with \<open>table_inv t2\<close> \<open>table_map t2 = table_map t1\<close> map1 that show ?thesis by metis
  next
    case False
    then have "remove_at t i = Some (t1, Some (to_snapshot (entries t ! i)))"
      unfolding remove_at_def Let_def t1_def [symmetric] by (simp only: if_False)
    with inv1 map1 that show ?thesis by metis
  qed
qed

interpretation swiss_remove: keyed_op table_inv table_map table_ready table_remove spec_remove
proof unfold_locales
  fix t k t' r
  assume inv: "table_inv t" and op: "table_remove t k = Some (t', r)"
  show "table_inv t' \<and> table_map t' = (table_map t)(k := fst (spec_remove (table_map t k))) \<and>
      r = snd (spec_remove (table_map t k))"
    using inv
  proof (cases rule: table_probe_cases [of t k])
    case (hit i)
    then show ?thesis
      using op remove_at_spec [OF inv hit(2)] by (auto simp: table_remove_def spec_remove_def)
  qed (use op inv in \<open>auto simp: table_remove_def spec_remove_def\<close>)
next
  fix t k
  assume inv: "table_inv t" and ready: "table_ready t k"
  from inv show "table_remove t k \<noteq> None"
  proof (cases rule: table_probe_cases [of t k])
    case (hit i)
    obtain t' where "remove_at t i = Some (t', Some (to_snapshot (entries t ! i)))"
      using remove_at_spec [OF inv hit(2)] by blast
    with hit(1) show ?thesis by (simp add: table_remove_def)
  qed (use ready in \<open>auto simp: table_remove_def table_ready_def\<close>)
qed

text \<open>
  \<open>remove_if_matching\<close> passes over a live entry of the same hash with another block, so it
  needs an empty slot to stop unless the entry is the expected one.
\<close>

definition remove_if_ready :: "SlabBlockId \<Rightarrow> SwissTable \<Rightarrow> u64 \<Rightarrow> bool" where
  "remove_if_ready b t h \<longleftrightarrow> map_option te_slab_block_id (table_map t h) = Some b \<or> has_gap t"

interpretation swiss_remove_if: keyed_op table_inv table_map "remove_if_ready b"
    "\<lambda>t h. remove_if_matching t h b" "spec_remove_if b"
  for b
proof -
  let ?ok = "\<lambda>t k i. slot_matches t k i \<and> slab_block_id (entries t ! i) = b"
  have block: "slab_block_id e = te_slab_block_id (to_snapshot e)" for e by (simp add: to_snapshot_def)
  have hit: "\<exists>i. live_slot (ctrl t) i \<and> key_hash (entries t ! i) = k \<and> to_snapshot (entries t ! i) = x \<and>
      table_probe t k (?ok t k) = Some (Hit i)"
    if inv: "table_inv t" and x: "table_map t k = Some x" "te_slab_block_id x = b" for t k x
  proof -
    obtain i where i: "live_slot (ctrl t) i" "key_hash (entries t ! i) = k" "to_snapshot (entries t ! i) = x"
      using table_present [OF inv x(1)] by blast
    have "table_probe t k (?ok t k) = Some (Hit i)"
      using probe_present [OF table_invD(1) [OF inv] i(1), of "?ok t k"] i x(2) slot_matches_live [OF inv]
      by (simp add: table_probe_def block)
    with i show ?thesis by blast
  qed
  have none: "\<not> ?ok t k i"
    if inv: "table_inv t" and x: "map_option te_slab_block_id (table_map t k) \<noteq> Some b"
      and i: "live_slot (ctrl t) i" for t k i
    using x i slots_map_iff [OF table_invD(1) [OF inv]] slot_matches_live [OF inv i]
    by (auto simp: table_map_slots [OF inv] block)
  have miss: "if has_gap t then \<exists>q. table_probe t k (?ok t k) = Some (Miss q) else table_probe t k (?ok t k) = None"
    if "table_inv t" "map_option te_slab_block_id (table_map t k) \<noteq> Some b" for t k
    using table_absent [OF that(1), of "?ok t k" k] table_stuck [OF that(1), of "?ok t k" k] none [OF that]
    by (metis (no_types, lifting))
  show "keyed_op table_inv table_map (remove_if_ready b) (\<lambda>t h. remove_if_matching t h b) (spec_remove_if b)"
  proof unfold_locales
    fix t k t' r
    assume inv: "table_inv t" and op: "remove_if_matching t k b = Some (t', r)"
    show "table_inv t' \<and> table_map t' = (table_map t)(k := fst (spec_remove_if b (table_map t k))) \<and>
        r = snd (spec_remove_if b (table_map t k))"
    proof (cases "map_option te_slab_block_id (table_map t k) = Some b")
      case True
      then obtain x where x: "table_map t k = Some x" "te_slab_block_id x = b" by auto
      obtain i where i: "live_slot (ctrl t) i" "key_hash (entries t ! i) = k"
        "to_snapshot (entries t ! i) = x" "table_probe t k (?ok t k) = Some (Hit i)"
        using hit [OF inv x] by blast
      then show ?thesis
        using op x remove_at_spec [OF inv i(1)] by (auto simp: remove_if_matching_def spec_remove_if_def)
    next
      case False
      then have "t' = t \<and> r = None"
        using op miss [OF inv False] by (auto simp: remove_if_matching_def split: if_splits)
      then show ?thesis
        using inv False by (auto simp: spec_remove_if_def split: option.split)
    qed
  next
    fix t k
    assume inv: "table_inv t" and ready: "remove_if_ready b t k"
    show "remove_if_matching t k b \<noteq> None"
    proof (cases "map_option te_slab_block_id (table_map t k) = Some b")
      case True
      then obtain x where "table_map t k = Some x" "te_slab_block_id x = b" by auto
      from hit [OF inv this] show ?thesis
        using remove_at_spec [OF inv] by (fastforce simp: remove_if_matching_def)
    next
      case False
      then show ?thesis
        using ready miss [OF inv False] by (auto simp: remove_if_matching_def remove_if_ready_def)
    qed
  qed
qed

end
