(* ===== verification/Swiss_Churn.thy ===== *)
theory Swiss_Churn
  imports Swiss_Compact
begin

text \<open>
  When the operations of \<open>table.rs\<close> return. A table filled by insertions alone keeps a free
  slot in every state, so every operation on it returns. Removal leaves tombstones that the
  load-factor check does not count and that end no probe: inserting and removing one key per
  slot turns every slot of a table of at most \<open>MIN_SHRINK_CAPACITY\<close> slots into a tombstone.
\<close>

section \<open>Tables without tombstones\<close>

definition clean :: "SwissTable \<Rightarrow> bool" where
  "clean t \<longleftrightarrow> table_inv t \<and> CTRL_DELETED \<notin> set (ctrl t) \<and>
     table_count t * LOAD_FACTOR_DEN \<le> table_capacity t * LOAD_FACTOR_NUM"

lemma clean_gap:
  assumes "clean t"
  shows "has_gap t"
proof -
  have inv: "table_inv t" and pos: "8 \<le> table_capacity t"
    using assms table_invD(2) by (auto simp: clean_def)
  then have "table_count t < table_capacity t"
    using assms unfolding clean_def LOAD_FACTOR_DEN_def LOAD_FACTOR_NUM_def by linarith
  then show ?thesis using assms tombstone_free_gap by (auto simp: clean_def)
qed

lemma clean_with_capacity: "clean (with_capacity n)"
  using with_capacity_inv [of n] by (simp add: clean_def) (simp add: with_capacity_def Let_def)

lemma ring_cap_dvd: "ring_cap cap \<Longrightarrow> 8 dvd cap"
proof -
  assume "ring_cap cap"
  then obtain k where k: "cap = 2 ^ k" "(2::nat) ^ 3 \<le> 2 ^ k" by (auto simp: ring_cap_def)
  then have "3 \<le> k" by (simp only: power_increasing_iff)
  then have "(2::nat) ^ 3 dvd 2 ^ k" by (rule le_imp_power_dvd)
  with k show ?thesis by simp
qed

lemma load_step:
  assumes "ring_cap cap" "\<not> n * LOAD_FACTOR_DEN \<ge> cap * LOAD_FACTOR_NUM"
  shows "(n + 1) * LOAD_FACTOR_DEN \<le> cap * LOAD_FACTOR_NUM"
proof -
  obtain c where "cap = 8 * c" using ring_cap_dvd [OF assms(1)] by (elim dvdE)
  with assms(2) show ?thesis by (simp add: LOAD_FACTOR_DEN_def LOAD_FACTOR_NUM_def)
qed

lemma insert_clean:
  assumes clean: "clean t"
  obtains t' where "insert_typed t h b len ex ty = Some (t', Ok (map_option te_slab_block_id (table_map t h)))"
    "clean t'" "table_map t' = (table_map t)(h \<mapsto>
       \<lparr>te_slab_block_id = b, te_value_len = len, te_expire_at_secs = ex, te_value_type = ty\<rparr>)"
proof -
  have inv: "table_inv t" using clean by (simp add: clean_def)
  have "insert_ready t h" using clean_gap [OF clean] by (simp add: insert_ready_def table_ready_def)
  then obtain t' where t': "insert_typed t h b len ex ty = Some (t', Ok (map_option te_slab_block_id (table_map t h)))"
    "table_inv t'" "table_map t' = (table_map t)(h \<mapsto>
       \<lparr>te_slab_block_id = b, te_value_len = len, te_expire_at_secs = ex, te_value_type = ty\<rparr>)"
    using swiss_insert.op_total [OF inv, of h b len ex ty] by (auto simp: spec_insert_def)
  obtain t1 where t1: "grown t = Some t1" "table_inv t1" "table_count t1 = table_count t"
    "CTRL_DELETED \<notin> set (ctrl t1)" "(table_count t1 + 1) * LOAD_FACTOR_DEN \<le> table_capacity t1 * LOAD_FACTOR_NUM"
  proof -
    obtain t1 where g: "grown t = Some t1" "table_inv t1" "table_count t1 = table_count t"
      "if load_exceeded t then table_capacity t1 = table_capacity t * 2 \<and> CTRL_DELETED \<notin> set (ctrl t1) \<and> has_gap t1
       else t1 = t"
      using grown_spec [OF inv] by metis
    have "8 \<le> table_capacity t" using table_invD(2) [OF inv] by blast
    then have "(table_count t1 + 1) * LOAD_FACTOR_DEN \<le> table_capacity t1 * LOAD_FACTOR_NUM"
      using g(3,4) clean load_step [OF table_invD(2) [OF inv], of "table_count t"]
      by (cases "load_exceeded t")
        (auto simp: clean_def load_exceeded_def LOAD_FACTOR_DEN_def LOAD_FACTOR_NUM_def)
    with g clean that show ?thesis by (auto simp: clean_def split: if_splits)
  qed
  have del: "CTRL_DELETED \<notin> set ((ctrl t1)[s := h2 h])" for s
    using t1(4) set_update_subset_insert [of "ctrl t1" s "h2 h"] h2_not_sentinel(2) [of h]
    by (metis insertE subsetD)
  have "CTRL_DELETED \<notin> set (ctrl t')" "table_count t' \<le> table_count t1 + 1"
      "table_capacity t' = table_capacity t1"
    using t'(1) t1(1,4) del
    by (auto simp: insert_typed_grown split: option.splits probe_result.splits)
  moreover from this have "table_count t' * LOAD_FACTOR_DEN \<le> (table_count t1 + 1) * LOAD_FACTOR_DEN"
    by (intro mult_le_mono1)
  ultimately have "clean t'" using t'(2) t1(5) by (simp add: clean_def)
  with t' that show ?thesis by blast
qed

type_synonym insertion = "u64 \<times> SlabBlockId \<times> u32 \<times> u32 \<times> u8"

fun insert_all :: "SwissTable \<Rightarrow> insertion list \<Rightarrow> SwissTable option" where
  "insert_all t [] = Some t"
| "insert_all t ((h, b, len, ex, ty) # xs) =
     (case insert_typed t h b len ex ty of
        Some (t', Ok _) \<Rightarrow> insert_all t' xs
      | _ \<Rightarrow> None)"

fun entry_of :: "insertion \<Rightarrow> u64 \<times> TableEntry" where
  "entry_of (h, b, len, ex, ty) =
     (h, \<lparr>te_slab_block_id = b, te_value_len = len, te_expire_at_secs = ex, te_value_type = ty\<rparr>)"

lemma insert_all_clean:
  assumes "clean t"
  shows "\<exists>t'. insert_all t xs = Some t' \<and> clean t' \<and> table_map t' = table_map t ++ map_of (map entry_of (rev xs))"
  using assms
proof (induction xs arbitrary: t)
  case Nil
  then show ?case by simp
next
  case (Cons x xs)
  obtain h b len ex ty where x: "x = (h, b, len, ex, ty)" by (cases x)
  obtain t1 where t1: "insert_typed t h b len ex ty = Some (t1, Ok (map_option te_slab_block_id (table_map t h)))"
    "clean t1" "table_map t1 = (table_map t)(h \<mapsto> snd (entry_of x))"
    using insert_clean [OF Cons.prems, of h b len ex ty] by (auto simp: x)
  from Cons.IH [OF t1(2)] obtain t' where "insert_all t1 xs = Some t'" "clean t'"
    "table_map t' = table_map t1 ++ map_of (map entry_of (rev xs))" by blast
  with t1 show ?case by (simp add: x map_add_def fun_eq_iff split: option.split)
qed

section \<open>Tables of tombstones\<close>

fun churn :: "SwissTable \<Rightarrow> u64 list \<Rightarrow> SwissTable option" where
  "churn t [] = Some t"
| "churn t (h # hs) =
     (case table_insert t h (SlabBlockId 0) 1 of
        None \<Rightarrow> None
      | Some (t1, _) \<Rightarrow>
          (case table_remove t1 h of
             None \<Rightarrow> None
           | Some (t2, _) \<Rightarrow> churn t2 hs))"

definition churned :: "nat \<Rightarrow> SwissTable \<Rightarrow> bool" where
  "churned i t \<longleftrightarrow> table_inv t \<and> table_capacity t \<le> MIN_SHRINK_CAPACITY \<and>
     ctrl t = replicate i CTRL_DELETED @ replicate (table_capacity t - i) CTRL_EMPTY"

lemma churned_dead: "churned i t \<Longrightarrow> \<not> live_slot (ctrl t) j"
  by (auto simp: churned_def live_slot_def nth_append)

lemma churn_insert:
  assumes c: "churned i t" and i: "i < table_capacity t" and h: "h1 h (table_capacity t) = i"
  shows "table_insert t h b len =
    Some (t\<lparr>ctrl := (ctrl t)[i := h2 h], entries := (entries t)[i := with_type h b len 0 VALUE_TYPE_STRING],
            table_count := table_count t + 1\<rparr>, Ok None)"
proof -
  have inv: "table_inv t" using c by (simp add: churned_def)
  note D = table_invD [OF inv]
  have i_empty: "ctrl t ! (i mod table_capacity t) = CTRL_EMPTY"
    using c i D(3) by (simp add: churned_def nth_append)
  have count: "table_count t = 0"
    using D(5) c by (simp add: churned_def live_count_def filter_empty_conv)
  have no_match: "\<not> hit_at (ctrl t) (table_capacity t) (h2 h) ok i m" for ok m
    using churned_dead [OF c, of "(i + m) mod table_capacity t"] h2_live [of h] i D(3)
    by (auto simp: hit_at_def live_slot_def)
  have "has_empty (ctrl t) i (table_capacity t)"
    using i_empty by (auto simp: has_empty_iff [OF D(2)] intro: exI [of _ 0])
  moreover have "List.find ok (match_byte (ctrl t) i (table_capacity t) (h2 h)) = None" for ok
    using no_match group_no_hit [OF D(2)] by blast
  ultimately have "table_probe t h (slot_matches t h) = Some (Miss i)"
    unfolding table_probe_def h by (subst probe.simps) simp
  moreover have "first_available (ctrl t) i (table_capacity t) = Some i"
    using i_empty i unfolding first_available_def group_slots [OF D(2)] by (simp add: upt_rec)
  moreover have "\<not> load_exceeded t" using count D(2) by (auto simp: load_exceeded_def LOAD_FACTOR_NUM_def)
  ultimately show ?thesis
    by (simp add: table_insert_def insert_with_ttl_def insert_typed_def load_exceeded_def)
qed

lemma churn_step:
  assumes c: "churned i t" and i: "i < table_capacity t" and h: "h1 h (table_capacity t) = i"
  obtains t1 t2 r1 r2 where "table_insert t h (SlabBlockId 0) 1 = Some (t1, r1)"
    "table_remove t1 h = Some (t2, r2)" "churned (Suc i) t2" "table_capacity t2 = table_capacity t"
proof -
  define t1 where "t1 = t\<lparr>ctrl := (ctrl t)[i := h2 h],
    entries := (entries t)[i := with_type h (SlabBlockId 0) 1 0 VALUE_TYPE_STRING],
    table_count := table_count t + 1\<rparr>"
  have inv: "table_inv t" using c by (simp add: churned_def)
  have ins: "table_insert t h (SlabBlockId 0) 1 = Some (t1, Ok None)"
    using churn_insert [OF assms] by (simp add: t1_def)
  then have "insert_typed t h (SlabBlockId 0) 1 0 VALUE_TYPE_STRING = Some (t1, Ok None)"
    by (simp add: table_insert_def insert_with_ttl_def)
  from swiss_insert.op_refines [OF inv this] have inv1: "table_inv t1" and "table_map t1 h \<noteq> None"
    by (simp_all add: spec_insert_def)
  then obtain j where j: "live_slot (ctrl t1) j" "table_probe t1 h (slot_matches t1 h) = Some (Hit j)"
    using table_present [OF inv1] by blast
  have "j = i"
    using j(1) churned_dead [OF c] by (cases "j = i") (auto simp: t1_def live_slot_def)
  have cap1: "table_capacity t1 = table_capacity t" by (simp add: t1_def)
  obtain t2 r2 where rem: "table_remove t1 h = Some (t2, r2)"
    using swiss_remove.op_returns [OF inv1, of h] \<open>table_map t1 h \<noteq> None\<close> by (auto simp: table_ready_def)
  then have t2: "t2 = t1\<lparr>ctrl := (ctrl t1)[i := CTRL_DELETED], table_count := table_count t1 - 1\<rparr>"
    using j(2) c cap1 by (auto simp: table_remove_def remove_at_def Let_def \<open>j = i\<close> churned_def)
  have "(replicate i CTRL_DELETED @ replicate (table_capacity t - i) CTRL_EMPTY)[i := CTRL_DELETED]
      = replicate (Suc i) CTRL_DELETED @ replicate (table_capacity t - Suc i) CTRL_EMPTY"
    using i by (intro nth_equalityI) (auto simp: nth_list_update nth_append nth_Cons' less_Suc_eq)
  moreover have "table_inv t2" using swiss_remove.op_refines [OF inv1 rem] by blast
  ultimately have "churned (Suc i) t2" using c by (simp add: churned_def t2 t1_def)
  with ins rem that t2 show ?thesis by (simp add: t1_def)
qed

lemma churn_fills:
  assumes "churned i t" "i + length hs = table_capacity t"
    and "\<forall>j < length hs. h1 (hs ! j) (table_capacity t) = i + j"
  shows "\<exists>t'. churn t hs = Some t' \<and> churned (table_capacity t') t'"
  using assms
proof (induction hs arbitrary: i t)
  case Nil
  then show ?case by auto
next
  case (Cons h hs)
  have "i < table_capacity t" "h1 h (table_capacity t) = i" using Cons.prems by auto
  from churn_step [OF Cons.prems(1) this] obtain t1 t2 r1 r2 where s:
    "table_insert t h (SlabBlockId 0) 1 = Some (t1, r1)" "table_remove t1 h = Some (t2, r2)"
    "churned (Suc i) t2" "table_capacity t2 = table_capacity t" by metis
  have "\<forall>j < length hs. h1 (hs ! j) (table_capacity t2) = Suc i + j"
    using Cons.prems(3) s(4) by (metis Suc_less_eq add_Suc_shift length_Cons nth_Cons_Suc)
  then show ?case using Cons.IH [OF s(3)] Cons.prems(2) s by simp
qed

lemma gapless_stuck:
  assumes "table_inv t" "\<not> has_gap t" "table_map t h = None"
  shows "lookup_checked t h now = None" "update_ttl t h ex now = None" "persist t h now = None"
    "get_ttl t h now = None" "table_remove t h = None"
    "\<not> load_exceeded t \<Longrightarrow> insert_typed t h b len ex ty = None"
proof -
  have p: "table_probe t h (slot_matches t h) = None"
    using table_stuck [OF assms(1,2)] no_match [OF assms(1,3)] by blast
  then show "lookup_checked t h now = None" "update_ttl t h ex now = None" "persist t h now = None"
    "get_ttl t h now = None" "table_remove t h = None"
    by (simp_all add: lookup_checked_def update_ttl_def persist_def get_ttl_def table_remove_def)
  show "insert_typed t h b len ex ty = None" if "\<not> load_exceeded t"
    using that p by (simp add: insert_typed_grown grown_def)
qed

lemma churned_full:
  assumes c: "churned (table_capacity t) t"
  shows "table_inv t" "\<not> has_gap t" "table_map t = Map.empty" "\<not> load_exceeded t"
proof -
  show inv: "table_inv t" using c by (simp add: churned_def)
  note D = table_invD [OF inv]
  show "\<not> has_gap t" using c by (simp add: churned_def has_gap_def)
  have count: "table_count t = 0"
    using D(5) c by (simp add: churned_def live_count_def filter_empty_conv)
  with count_eq_map [OF inv] show "table_map t = Map.empty"
    by (simp add: table_map_def finite_dom_map_of)
  show "\<not> load_exceeded t" using count D(2) by (auto simp: load_exceeded_def LOAD_FACTOR_NUM_def)
qed

section \<open>Properties\<close>

text \<open>\<^bold>\<open>C12.\<close> Insertion: in a well-formed table with an empty slot (or the key present, or the load
  threshold reached, which grows the table first) \<open>insert_typed\<close> returns, never reports a full
  table, gives back the block the key named before, and updates the map of live entries at that
  key alone.\<close>

theorem insert_typed_updates_map:
  assumes "table_inv t" "insert_ready t h"
  shows "\<exists>t'. insert_typed t h b len ex ty = Some (t', Ok (map_option te_slab_block_id (table_map t h))) \<and>
    table_inv t' \<and> table_map t' = (table_map t)(h \<mapsto>
      \<lparr>te_slab_block_id = b, te_value_len = len, te_expire_at_secs = ex, te_value_type = ty\<rparr>)"
  using swiss_insert.op_total [OF assms, of b len ex ty] by (auto simp: spec_insert_def)

theorem insert_typed_updates_map_witness:
  "\<exists>t'. insert_typed (with_capacity 8) 300 (SlabBlockId 7) 3 0 0 = Some (t', Ok None) \<and>
     table_map t' = [300 \<mapsto> \<lparr>te_slab_block_id = SlabBlockId 7, te_value_len = 3, te_expire_at_secs = 0, te_value_type = 0\<rparr>]"
  using insert_typed_updates_map [OF with_capacity_inv(1) [of 8], of 300 "SlabBlockId 7" 3 0 0]
    with_capacity_inv(2,3) [of 8]
  by (auto simp: insert_ready_def table_ready_def)

text \<open>\<^bold>\<open>C13.\<close> Lookup: \<open>lookup_checked\<close> returns the entry of the key unless it is expired at the given time
  (time 0 disables the check). When it returns nothing the table is the same; when it returns an entry, the
  table differs in the access bit of the live slot of the key, which is set, and in nothing else.\<close>

theorem lookup_checked_reads_map:
  assumes "table_inv t" "table_ready t h"
  shows "\<exists>t' r. lookup_checked t h now = Some (t', r) \<and> table_inv t' \<and> table_map t' = table_map t \<and>
    map_option to_snapshot r = visible now (table_map t h) \<and>
    (case r of
       None \<Rightarrow> t' = t
     | Some e \<Rightarrow> \<exists>i<table_capacity t. is_live_ctrl (ctrl t ! i) \<and> key_hash (entries t ! i) = h \<and>
         e = (entries t ! i)\<lparr>access_flags := access_flags (entries t ! i) OR 1\<rparr> \<and>
         t' = t\<lparr>entries := (entries t)[i := e]\<rparr>)"
  using assms(1)
proof (cases rule: table_probe_cases [of t h])
  case (hit i)
  have "is_live_ctrl (ctrl t ! i)" using hit(2) by (simp add: live_slot_def)
  then show ?thesis
    using hit assms(1) table_overwrite [OF assms(1) hit(2), of "mark_accessed (entries t ! i)"]
    by (auto simp: lookup_checked_def Let_def mark_accessed_def ACCESS_BIT_ACCESSED_def to_snapshot_def te_expired_def is_expired_def
        intro!: exI [of _ i])
next
  case (miss q s)
  then show ?thesis using assms(1) by (simp add: lookup_checked_def)
next
  case stuck
  then show ?thesis using assms(2) by (simp add: table_ready_def)
qed

theorem lookup_checked_reads_map_witness:
  "\<exists>t t' e. insert_typed (with_capacity 8) 300 (SlabBlockId 7) 3 0 0 = Some (t, Ok None) \<and>
     lookup_checked t 300 5 = Some (t', Some e) \<and> slab_block_id e = SlabBlockId 7 \<and> bit (access_flags e) 0 \<and> table_map t' = table_map t"
proof -
  have "insert_ready (with_capacity 8) 300" using with_capacity_inv(2,3) [of 8] by (simp add: insert_ready_def table_ready_def)
  then obtain t where t:
      "insert_typed (with_capacity 8) 300 (SlabBlockId 7) 3 0 0 = Some (t, Ok None)" "table_inv t"
      "table_map t 300 = Some \<lparr>te_slab_block_id = SlabBlockId 7, te_value_len = 3, te_expire_at_secs = 0, te_value_type = 0\<rparr>"
    by (rule swiss_insert.op_total [OF with_capacity_inv(1), of _ _ "SlabBlockId 7" 3 0 0]) (simp add: spec_insert_def with_capacity_inv(2))
  have "table_ready t 300" using t(3) by (simp add: table_ready_def)
  from lookup_checked_reads_map [OF t(2) this, of 5] obtain t' r where r: "lookup_checked t 300 5 = Some (t', r)"
      "table_map t' = table_map t" "map_option to_snapshot r = visible 5 (table_map t 300)"
      and flag: "\<And>e. r = Some e \<Longrightarrow> \<exists>i. e = (entries t ! i)\<lparr>access_flags := access_flags (entries t ! i) OR 1\<rparr>"
    by (auto split: option.splits) metis
  from r(3) t(3) obtain e where e: "r = Some e" "slab_block_id e = SlabBlockId 7" by (auto simp: te_expired_def to_snapshot_def)
  have "bit (access_flags e) 0" using flag [OF e(1)] by (auto simp: bit_0 even_or_iff)
  then show ?thesis using t(1) r(1,2) e by blast
qed

text \<open>\<^bold>\<open>C14.\<close> Removal: \<open>remove\<close> returns the entry of the key and deletes it from the map, also when the
  removal shrinks the table.\<close>

theorem remove_deletes_from_map:
  assumes "table_inv t" "table_ready t h"
  shows "\<exists>t'. table_remove t h = Some (t', table_map t h) \<and> table_inv t' \<and>
    table_map t' = (table_map t)(h := None)"
  using swiss_remove.op_total [OF assms] by (auto simp: spec_remove_def)

theorem remove_deletes_from_map_witness:
  "\<exists>t'. table_remove (with_capacity 8) 300 = Some (t', None) \<and> table_map t' = Map.empty"
  using remove_deletes_from_map [OF with_capacity_inv(1) [of 8], of 300] with_capacity_inv(2,3) [of 8]
  by (auto simp: table_ready_def)

text \<open>Conditional removal: \<open>remove_if_matching\<close> deletes the key only when its entry names the
  expected block; an entry that was replaced in the meantime stays.\<close>

theorem remove_if_matching_compares:
  assumes "table_inv t" "has_gap t"
  shows "\<exists>t' r. remove_if_matching t h b = Some (t', r) \<and> table_inv t' \<and>
    (if map_option te_slab_block_id (table_map t h) = Some b
     then r = table_map t h \<and> table_map t' = (table_map t)(h := None)
     else r = None \<and> table_map t' = table_map t)"
proof -
  have "remove_if_ready b t h" using assms(2) by (simp add: remove_if_ready_def)
  from swiss_remove_if.op_total [OF assms(1) this] obtain t'
    where "remove_if_matching t h b = Some (t', snd (spec_remove_if b (table_map t h)))" "table_inv t'"
      "table_map t' = (table_map t)(h := fst (spec_remove_if b (table_map t h)))" by blast
  then show ?thesis by (cases "table_map t h") (auto simp: spec_remove_if_def fun_upd_idem)
qed

theorem remove_if_matching_compares_witness:
  "\<exists>t'. remove_if_matching (with_capacity 8) 300 (SlabBlockId 7) = Some (t', None)"
  using remove_if_matching_compares [OF with_capacity_inv(1,3) [of 8], of 300 "SlabBlockId 7"]
    with_capacity_inv(2) [of 8] by auto

text \<open>Time to live: \<open>get_ttl\<close> returns -2 for a missing or expired key, -1 for a key without
  expiry and the exact remaining seconds otherwise; \<open>update_ttl\<close> and \<open>persist\<close> change only the
  expiry of a key that is present and not expired, and say whether they did.\<close>

theorem ttl_operations:
  assumes "table_inv t" "table_ready t h"
  shows "\<exists>t1 t2 t3. get_ttl t h now = Some (t1, snd (spec_get_ttl now (table_map t h))) \<and> table_map t1 = table_map t \<and>
    update_ttl t h ex now = Some (t2, visible now (table_map t h) \<noteq> None) \<and>
    table_map t2 = (table_map t)(h := fst (spec_update_ttl ex now (table_map t h))) \<and>
    persist t h now = Some (t3, snd (spec_persist now (table_map t h))) \<and>
    table_map t3 = (table_map t)(h := fst (spec_persist now (table_map t h))) \<and>
    table_inv t1 \<and> table_inv t2 \<and> table_inv t3"
proof -
  have "snd (spec_update_ttl ex now (table_map t h)) = (visible now (table_map t h) \<noteq> None)"
    by (auto simp: spec_update_ttl_def split: option.split)
  moreover have "(table_map t)(h := fst (spec_get_ttl now (table_map t h))) = table_map t"
    by (simp add: spec_get_ttl_def)
  moreover obtain t1 where "get_ttl t h now = Some (t1, snd (spec_get_ttl now (table_map t h)))" "table_inv t1"
    "table_map t1 = (table_map t)(h := fst (spec_get_ttl now (table_map t h)))"
    using swiss_get_ttl.op_total [OF assms, of now] by blast
  moreover obtain t2 where "update_ttl t h ex now = Some (t2, snd (spec_update_ttl ex now (table_map t h)))"
    "table_inv t2" "table_map t2 = (table_map t)(h := fst (spec_update_ttl ex now (table_map t h)))"
    using swiss_update_ttl.op_total [OF assms, of ex now] by blast
  moreover obtain t3 where "persist t h now = Some (t3, snd (spec_persist now (table_map t h)))" "table_inv t3"
    "table_map t3 = (table_map t)(h := fst (spec_persist now (table_map t h)))"
    using swiss_persist.op_total [OF assms, of now] by blast
  ultimately show ?thesis by (intro exI [of _ t1] exI [of _ t2] exI [of _ t3]) simp
qed

theorem ttl_operations_witness: "\<exists>t'. get_ttl (with_capacity 8) 300 9 = Some (t', -2)"
  using ttl_operations [OF with_capacity_inv(1) [of 8], of 300 9 5] with_capacity_inv(2,3) [of 8]
  by (auto simp: table_ready_def spec_get_ttl_def)

text \<open>Resizing rehashes every live entry and nothing else: the map and the count are unchanged, no
  tombstone is left, the capacity is the next power of two (at least one group).\<close>

theorem resize_preserves_map:
  assumes "table_inv t" "table_count t \<le> n"
  shows "\<exists>t'. resize t n = Some t' \<and> table_inv t' \<and> table_map t' = table_map t \<and>
    table_count t' = table_count t \<and> table_capacity t' = max (next_power_of_two n) GROUP_SIZE \<and>
    tombstone_count t' = 0"
proof -
  obtain t' where t': "resize t n = Some t'" "table_inv t'" "table_map t' = table_map t"
    "table_capacity t' = max (next_power_of_two n) GROUP_SIZE" "table_count t' = table_count t"
    "CTRL_DELETED \<notin> set (ctrl t')"
    using resize_spec [OF assms] by metis
  then have "tombstone_count t' = 0" by (auto simp: tombstone_count_def filter_empty_conv)
  with t' show ?thesis by blast
qed

theorem resize_preserves_map_witness:
  "\<exists>t'. resize (with_capacity 8) 16 = Some t' \<and> table_map t' = Map.empty"
  using resize_preserves_map [OF with_capacity_inv(1) [of 8], of 16] with_capacity_inv(2) [of 8]
  by (auto simp: with_capacity_def Let_def)

text \<open>Compaction: one step of \<open>compact_one_group\<close>, back-shifting entries into tombstones and clearing
  tombstones that end a chain, keeps the invariant, the map, the count and the capacity.\<close>

theorem compaction_preserves_map:
  assumes "table_inv t"
  shows "table_inv (fst (compact_one_group t)) \<and> table_map (fst (compact_one_group t)) = table_map t \<and>
    table_count (fst (compact_one_group t)) = table_count t \<and>
    table_capacity (fst (compact_one_group t)) = table_capacity t"
  using compact_one_group_spec [OF assms] by (simp add: same_map_def)

theorem compaction_preserves_map_witness: "table_map (fst (compact_one_group (with_capacity 8))) = Map.empty"
  using compaction_preserves_map [OF with_capacity_inv(1) [of 8]] with_capacity_inv(2) [of 8] by simp

text \<open>\<^bold>\<open>C37.\<close> Filling a new table with any list of insertions always returns: the table grows before it is
  full, ends with the last entry written for every key, and still has an empty slot, so every
  later operation returns too.\<close>

theorem insertions_always_return:
  "\<exists>t. insert_all (with_capacity n) xs = Some t \<and> table_inv t \<and> has_gap t \<and>
     table_map t = map_of (map entry_of (rev xs)) \<and>
     table_count t = card (set (map fst xs))"
proof -
  obtain t where t: "insert_all (with_capacity n) xs = Some t" "clean t"
    "table_map t = map_of (map entry_of (rev xs))"
    using insert_all_clean [OF clean_with_capacity, of n xs] with_capacity_inv(2) [of n] by auto
  have inv: "table_inv t" using t(2) by (simp add: clean_def)
  have "fst ` set (map entry_of (rev xs)) = set (map fst xs)" by (force simp: image_image)
  then have "table_count t = card (set (map fst xs))"
    by (simp add: count_eq_map [OF inv] t(3) dom_map_of_conv_image_fst)
  with t inv clean_gap show ?thesis by blast
qed

text \<open>\<^bold>\<open>C38.\<close> Tombstones can exhaust a table: on a table of at most 1024 slots (the default shard has 1024),
  inserting and removing one key per home slot leaves an empty table without an empty control
  byte. From then on a lookup, a removal, a TTL operation or an insertion of any key never
  returns, and compaction does not help.\<close>

theorem churn_exhausts_table:
  assumes "table_capacity (with_capacity n) \<le> MIN_SHRINK_CAPACITY"
    and "length hs = table_capacity (with_capacity n)"
    and "\<forall>j < length hs. h1 (hs ! j) (table_capacity (with_capacity n)) = j"
  shows "\<exists>t. churn (with_capacity n) hs = Some t \<and> table_map t = Map.empty \<and>
    (\<forall>h now ex b len ty.
       lookup_checked t h now = None \<and> table_remove t h = None \<and> update_ttl t h ex now = None \<and>
       insert_typed t h b len ex ty = None \<and>
       lookup_checked (fst (compact_one_group t)) h now = None)"
proof -
  have "churned 0 (with_capacity n)"
    using with_capacity_inv(1) [of n] assms(1) by (simp add: churned_def) (simp add: with_capacity_def Let_def)
  from churn_fills [OF this, of hs] assms(2,3) obtain t
    where t: "churn (with_capacity n) hs = Some t" "churned (table_capacity t) t" by auto
  note f = churned_full [OF t(2)]
  have "same_map t (fst (compact_one_group t))" by (rule compact_one_group_spec [OF f(1)])
  then have c: "table_inv (fst (compact_one_group t))" "\<not> has_gap (fst (compact_one_group t))"
    "table_map (fst (compact_one_group t)) h = None" for h
    using f by (simp_all add: same_map_def)
  show ?thesis
    using t(1) f gapless_stuck [OF f(1,2)] gapless_stuck(1) [OF c] by (intro exI [of _ t]) simp
qed

lemma with_capacity_8: "table_capacity (with_capacity 8) = 8"
  using next_power_of_two_pow2 [of 3] by (simp add: with_capacity_def Let_def GROUP_SIZE_def)

theorem churn_exhausts_table_witness:
  "\<exists>t. churn (with_capacity 8) [0, 128, 256, 384, 512, 640, 768, 896] = Some t \<and> lookup_checked t 5 0 = None"
proof -
  have h: "\<forall>j < length [0, 128, 256, 384, 512, 640, 768, 896 :: u64].
      h1 ([0, 128, 256, 384, 512, 640, 768, 896] ! j) 8 = j"
  proof (intro allI impI)
    fix j assume "j < length [0, 128, 256, 384, 512, 640, 768, 896 :: u64]"
    then have "j = 0 \<or> j = 1 \<or> j = 2 \<or> j = 3 \<or> j = 4 \<or> j = 5 \<or> j = 6 \<or> j = 7" by simp linarith
    then show "h1 ([0, 128, 256, 384, 512, 640, 768, 896] ! j) 8 = j"
      by (elim disjE) (simp_all add: h1_def)
  qed
  show ?thesis
    using churn_exhausts_table [of 8 "[0, 128, 256, 384, 512, 640, 768, 896]"] h
    unfolding with_capacity_8 by (auto simp: MIN_SHRINK_CAPACITY_def)
qed

end
