(* ===== verification/Sharded_Table.thy ===== *)
theory Sharded_Table
  imports Swiss_Churn
begin

text \<open>
  \<open>crates/kachedb-hash/src/sharded.rs\<close>: 256 Swiss tables, one per value of eight hash bits.
  Every operation holds the lock of one shard for its whole duration, so an operation is one
  step on that shard. The lifting of a keyed operation to the shards is proved once, in
  \<open>sharded_op\<close>, from the contract of the operation on one table.
\<close>

section \<open>The sharded table\<close>

definition NUM_SHARDS :: nat where "NUM_SHARDS = 256"

definition SHARD_MASK :: nat where "SHARD_MASK = NUM_SHARDS - 1"

definition DEFAULT_PER_SHARD_CAPACITY :: nat where "DEFAULT_PER_SHARD_CAPACITY = 1024"

type_synonym ShardedSwissTable = "SwissTable list"

definition with_total_capacity :: "nat \<Rightarrow> ShardedSwissTable" where
  "with_total_capacity total_capacity =
     replicate NUM_SHARDS (with_capacity (max (total_capacity div NUM_SHARDS) 64))"

definition ShardedSwissTable_new :: ShardedSwissTable where
  "ShardedSwissTable_new = with_total_capacity (DEFAULT_PER_SHARD_CAPACITY * NUM_SHARDS)"

definition shard_idx :: "u64 \<Rightarrow> nat" where
  "shard_idx h = unat (drop_bit 32 h) AND SHARD_MASK"

text \<open>The lock-and-run pattern of every keyed operation (also \<open>with_shard_mut\<close>).\<close>

definition with_shard_mut ::
    "('k \<Rightarrow> nat) \<Rightarrow> ('t \<Rightarrow> 'k \<Rightarrow> ('t \<times> 'r) option) \<Rightarrow> 't list \<Rightarrow> 'k \<Rightarrow> ('t list \<times> 'r) option" where
  "with_shard_mut ix f s k =
     (case f (s ! ix k) k of
        None \<Rightarrow> None
      | Some (t, r) \<Rightarrow> Some (s[ix k := t], r))"

definition sh_lookup_checked :: "u32 \<Rightarrow> ShardedSwissTable \<Rightarrow> u64 \<Rightarrow> (ShardedSwissTable \<times> TableEntry option) option" where
  "sh_lookup_checked now = with_shard_mut shard_idx (lookup_snapshot now)"

definition sh_lookup :: "ShardedSwissTable \<Rightarrow> u64 \<Rightarrow> (ShardedSwissTable \<times> TableEntry option) option" where
  "sh_lookup = sh_lookup_checked 0"

definition sh_insert_typed ::
    "SlabBlockId \<Rightarrow> u32 \<Rightarrow> u32 \<Rightarrow> u8 \<Rightarrow> ShardedSwissTable \<Rightarrow> u64 \<Rightarrow> (ShardedSwissTable \<times> (SlabBlockId option, unit) outcome) option" where
  "sh_insert_typed b len ex ty = with_shard_mut shard_idx (\<lambda>t h. insert_typed t h b len ex ty)"

text \<open>\<open>.ok().flatten()\<close>: an error is reported as no previous block.\<close>

fun ok_flatten :: "('a option, 'e) outcome \<Rightarrow> 'a option" where
  "ok_flatten (Ok r) = r"
| "ok_flatten _ = None"

definition sh_insert_with_ttl ::
    "SlabBlockId \<Rightarrow> u32 \<Rightarrow> u32 \<Rightarrow> ShardedSwissTable \<Rightarrow> u64 \<Rightarrow> (ShardedSwissTable \<times> SlabBlockId option) option" where
  "sh_insert_with_ttl b len ex =
     with_shard_mut shard_idx
       (\<lambda>t h. map_option (\<lambda>(t', r). (t', ok_flatten r)) (insert_with_ttl t h b len ex))"

definition sh_insert :: "SlabBlockId \<Rightarrow> u32 \<Rightarrow> ShardedSwissTable \<Rightarrow> u64 \<Rightarrow> (ShardedSwissTable \<times> SlabBlockId option) option" where
  "sh_insert b len = sh_insert_with_ttl b len 0"

definition sh_remove :: "ShardedSwissTable \<Rightarrow> u64 \<Rightarrow> (ShardedSwissTable \<times> TableEntry option) option" where
  "sh_remove = with_shard_mut shard_idx table_remove"

definition sh_remove_if_matching :: "SlabBlockId \<Rightarrow> ShardedSwissTable \<Rightarrow> u64 \<Rightarrow> (ShardedSwissTable \<times> TableEntry option) option" where
  "sh_remove_if_matching b = with_shard_mut shard_idx (\<lambda>t h. remove_if_matching t h b)"

definition sh_update_ttl :: "u32 \<Rightarrow> u32 \<Rightarrow> ShardedSwissTable \<Rightarrow> u64 \<Rightarrow> (ShardedSwissTable \<times> bool) option" where
  "sh_update_ttl ex now = with_shard_mut shard_idx (\<lambda>t h. update_ttl t h ex now)"

definition sh_get_ttl :: "u32 \<Rightarrow> ShardedSwissTable \<Rightarrow> u64 \<Rightarrow> (ShardedSwissTable \<times> int) option" where
  "sh_get_ttl now = with_shard_mut shard_idx (\<lambda>t h. get_ttl t h now)"

definition sh_persist :: "u32 \<Rightarrow> ShardedSwissTable \<Rightarrow> u64 \<Rightarrow> (ShardedSwissTable \<times> bool) option" where
  "sh_persist now = with_shard_mut shard_idx (\<lambda>t h. persist t h now)"

definition sh_len :: "ShardedSwissTable \<Rightarrow> nat" where
  "sh_len s = sum_list (map table_count s)"

definition sh_clear :: "ShardedSwissTable \<Rightarrow> ShardedSwissTable \<times> SlabBlockId list" where
  "sh_clear s =
     (map table_clear s, concat (map (\<lambda>t. map (te_slab_block_id \<circ> snd) (live_entries t)) s))"

definition snapshot_shard :: "ShardedSwissTable \<Rightarrow> nat \<Rightarrow> (u64 \<times> TableEntry) list" where
  "snapshot_shard s i = (if i < length s then live_entries (s ! i) else [])"

section \<open>Lifting a keyed operation to the shards\<close>

definition shards_inv :: "('t \<Rightarrow> bool) \<Rightarrow> ('t \<Rightarrow> 'k \<rightharpoonup> 'v) \<Rightarrow> ('k \<Rightarrow> nat) \<Rightarrow> nat \<Rightarrow> 't list \<Rightarrow> bool" where
  "shards_inv invar repr ix n s \<longleftrightarrow> length s = n \<and>
     (\<forall>i<n. invar (s ! i) \<and> (\<forall>k \<in> dom (repr (s ! i)). ix k = i))"

definition shards_map :: "('t \<Rightarrow> 'k \<rightharpoonup> 'v) \<Rightarrow> ('k \<Rightarrow> nat) \<Rightarrow> 't list \<Rightarrow> 'k \<rightharpoonup> 'v" where
  "shards_map repr ix s k = repr (s ! ix k) k"

locale sharded_op = keyed_op invar repr ready op spec
  for invar :: "'t \<Rightarrow> bool" and repr :: "'t \<Rightarrow> 'k \<rightharpoonup> 'v" and ready :: "'t \<Rightarrow> 'k \<Rightarrow> bool"
    and op :: "'t \<Rightarrow> 'k \<Rightarrow> ('t \<times> 'r) option" and spec :: "'v option \<Rightarrow> 'v option \<times> 'r" +
  fixes ix :: "'k \<Rightarrow> nat" and n :: nat
  assumes ix_less: "ix k < n"
begin

lemma shard_refines:
  assumes inv: "shards_inv invar repr ix n s" and op: "with_shard_mut ix op s k = Some (s', r)"
  shows "shards_inv invar repr ix n s' \<and>
    shards_map repr ix s' = (shards_map repr ix s)(k := fst (spec (shards_map repr ix s k))) \<and>
    r = snd (spec (shards_map repr ix s k))"
proof -
  have len: "length s = n" and invi: "\<And>i. i < n \<Longrightarrow> invar (s ! i)"
    and route: "\<And>i k. i < n \<Longrightarrow> k \<in> dom (repr (s ! i)) \<Longrightarrow> ix k = i"
    using inv by (auto simp: shards_inv_def)
  obtain t where t: "op (s ! ix k) k = Some (t, r)" "s' = s[ix k := t]"
    using op by (auto simp: with_shard_mut_def split: option.splits)
  note r = op_refines [OF invi [OF ix_less] t(1)]
  have "shards_inv invar repr ix n s'"
    unfolding shards_inv_def
  proof (intro conjI allI impI ballI)
    fix i assume "i < n"
    then show "invar (s' ! i)" using r invi len by (cases "i = ix k") (simp_all add: t(2))
    fix k' assume k': "k' \<in> dom (repr (s' ! i))"
    show "ix k' = i"
    proof (cases "i = ix k")
      case True
      then have "k' = k \<or> k' \<in> dom (repr (s ! i))"
        using r k' len ix_less by (auto simp: t(2) split: if_splits)
      then show ?thesis using route \<open>i < n\<close> True by blast
    next
      case False
      then have "k' \<in> dom (repr (s ! i))" using k' by (simp add: t(2))
      then show ?thesis using route \<open>i < n\<close> by blast
    qed
  qed (simp add: t(2) len)
  moreover have "shards_map repr ix s' = (shards_map repr ix s)(k := fst (spec (shards_map repr ix s k)))"
    using r len ix_less by (auto simp: fun_eq_iff shards_map_def t(2) nth_list_update)
  ultimately show ?thesis using r by (simp add: shards_map_def)
qed

lemma shard_returns:
  assumes "shards_inv invar repr ix n s" "ready (s ! ix k) k"
  shows "with_shard_mut ix op s k \<noteq> None"
  using op_returns [OF _ assms(2)] assms(1) ix_less [of k]
  by (auto simp: with_shard_mut_def shards_inv_def split: option.splits)

text \<open>Operations on keys of different shards commute: neither sees the other's effect.\<close>

lemma shards_independent:
  assumes "ix k \<noteq> ix k'" "with_shard_mut ix op s k = Some (s', r)"
  shows "with_shard_mut ix f s' k' =
    map_option (\<lambda>(s2, r2). (s2[ix k := s' ! ix k], r2)) (with_shard_mut ix f s k')"
proof -
  obtain t where "op (s ! ix k) k = Some (t, r)" "s' = s[ix k := t]"
    using assms(2) by (auto simp: with_shard_mut_def split: option.splits)
  then show ?thesis
    using assms(1)
    by (cases "ix k < length s") (auto simp: with_shard_mut_def list_update_swap list_update_beyond split: option.split)
qed

end

sublocale sharded_op \<subseteq> shards: keyed_op "shards_inv invar repr ix n" "shards_map repr ix"
    "\<lambda>s k. ready (s ! ix k) k" "with_shard_mut ix op" spec
  by unfold_locales (use shard_refines shard_returns in auto)

lemma shard_idx_less: "shard_idx h < NUM_SHARDS"
proof -
  have "shard_idx h = unat (drop_bit 32 h) mod 2 ^ 8"
    unfolding shard_idx_def SHARD_MASK_def NUM_SHARDS_def
    using nat_and_mask [of "unat (drop_bit 32 h)" 8] by simp
  then show ?thesis by (simp add: NUM_SHARDS_def)
qed

interpretation sh_lookup: sharded_op table_inv table_map table_ready "lookup_snapshot now" "spec_lookup now"
    shard_idx NUM_SHARDS
  for now
  by unfold_locales (rule shard_idx_less)

interpretation sh_insert: sharded_op table_inv table_map insert_ready "\<lambda>t h. insert_typed t h b len ex ty"
    "spec_insert \<lparr>te_slab_block_id = b, te_value_len = len, te_expire_at_secs = ex, te_value_type = ty\<rparr>"
    shard_idx NUM_SHARDS
  for b len ex ty
  by unfold_locales (rule shard_idx_less)

interpretation sh_remove: sharded_op table_inv table_map table_ready table_remove spec_remove
    shard_idx NUM_SHARDS
  by unfold_locales (rule shard_idx_less)

interpretation sh_remove_if: sharded_op table_inv table_map "remove_if_ready b"
    "\<lambda>t h. remove_if_matching t h b" "spec_remove_if b" shard_idx NUM_SHARDS
  for b
  by unfold_locales (rule shard_idx_less)

interpretation sh_update_ttl: sharded_op table_inv table_map table_ready
    "\<lambda>t h. update_ttl t h ex now" "spec_update_ttl ex now" shard_idx NUM_SHARDS
  for ex now
  by unfold_locales (rule shard_idx_less)

interpretation sh_get_ttl: sharded_op table_inv table_map table_ready
    "\<lambda>t h. get_ttl t h now" "spec_get_ttl now" shard_idx NUM_SHARDS
  for now
  by unfold_locales (rule shard_idx_less)

interpretation sh_persist: sharded_op table_inv table_map table_ready
    "\<lambda>t h. persist t h now" "spec_persist now" shard_idx NUM_SHARDS
  for now
  by unfold_locales (rule shard_idx_less)

section \<open>The whole table\<close>

abbreviation sharded_inv :: "ShardedSwissTable \<Rightarrow> bool" where
  "sharded_inv \<equiv> shards_inv table_inv table_map shard_idx NUM_SHARDS"

abbreviation sharded_map :: "ShardedSwissTable \<Rightarrow> u64 \<rightharpoonup> TableEntry" where
  "sharded_map \<equiv> shards_map table_map shard_idx"

lemma with_total_capacity_inv:
  "sharded_inv (with_total_capacity n)" "sharded_map (with_total_capacity n) = Map.empty"
  using with_capacity_inv shard_idx_less
  by (auto simp: shards_inv_def with_total_capacity_def shards_map_def)

lemma sharded_dom:
  assumes "sharded_inv s"
  shows "dom (sharded_map s) = (\<Union>i<NUM_SHARDS. dom (table_map (s ! i)))"
proof -
  have "k \<in> dom (sharded_map s) \<longleftrightarrow> (\<exists>i<NUM_SHARDS. k \<in> dom (table_map (s ! i)))" for k
    using assms shard_idx_less [of k] unfolding shards_inv_def
    by (metis (no_types, lifting) domIff shards_map_def)
  then show ?thesis by blast
qed

lemma sh_len_card:
  assumes inv: "sharded_inv s"
  shows "sh_len s = card (dom (sharded_map s))"
proof -
  have len: "length s = NUM_SHARDS" and t: "\<And>i. i < NUM_SHARDS \<Longrightarrow> table_inv (s ! i)"
    and route: "\<And>i k. i < NUM_SHARDS \<Longrightarrow> k \<in> dom (table_map (s ! i)) \<Longrightarrow> shard_idx k = i"
    using inv by (auto simp: shards_inv_def)
  have "sh_len s = (\<Sum>i<NUM_SHARDS. table_count (s ! i))"
    by (simp add: sh_len_def sum_list_sum_nth len atLeast0LessThan)
  also have "\<dots> = (\<Sum>i<NUM_SHARDS. card (dom (table_map (s ! i))))"
    by (rule sum.cong) (simp_all add: count_eq_map t)
  also have "\<dots> = card (\<Union>i<NUM_SHARDS. dom (table_map (s ! i)))"
  proof (rule card_UN_disjoint [symmetric])
    show "\<forall>i\<in>{..<NUM_SHARDS}. \<forall>j\<in>{..<NUM_SHARDS}. i \<noteq> j \<longrightarrow>
        dom (table_map (s ! i)) \<inter> dom (table_map (s ! j)) = {}"
      using route by blast
  qed (simp_all add: table_map_def finite_dom_map_of)
  finally show ?thesis by (simp add: sharded_dom [OF inv])
qed

lemma table_clear_inv:
  assumes inv: "table_inv t"
  shows "table_inv (table_clear t)" "table_map (table_clear t) = Map.empty" "has_gap (table_clear t)"
proof -
  note D = table_invD [OF inv]
  have "0 < table_capacity t" using D(2) by blast
  then show inv': "table_inv (table_clear t)" and "has_gap (table_clear t)"
    using D by (auto simp: table_inv_def slots_inv_def table_clear_def live_slot_def live_count_def has_gap_def)
  have "table_count (table_clear t) = 0" by (simp add: table_clear_def)
  with count_eq_map [OF inv'] show "table_map (table_clear t) = Map.empty"
    by (simp add: table_map_def finite_dom_map_of)
qed

lemma sh_clear_spec:
  assumes inv: "sharded_inv s"
  shows "sharded_inv (fst (sh_clear s))" "sharded_map (fst (sh_clear s)) = Map.empty"
    "set (snd (sh_clear s)) = te_slab_block_id ` ran (sharded_map s)"
proof -
  have len: "length s = NUM_SHARDS" and t: "\<And>i. i < NUM_SHARDS \<Longrightarrow> table_inv (s ! i)"
    using inv by (auto simp: shards_inv_def)
  show "sharded_inv (fst (sh_clear s))" "sharded_map (fst (sh_clear s)) = Map.empty"
    using t len table_clear_inv shard_idx_less by (auto simp: sh_clear_def shards_inv_def shards_map_def)
  have "ran (sharded_map s) = (\<Union>i<NUM_SHARDS. ran (table_map (s ! i)))"
    using inv shard_idx_less unfolding shards_inv_def ran_def shards_map_def
    by (auto simp: dom_def) (metis (no_types, lifting) shards_map_def)
  moreover have "ran (table_map (s ! i)) = snd ` set (live_entries (s ! i))" if "i < NUM_SHARDS" for i
  proof -
    have "live_entries (s ! i) = slot_pairs (ctrl (s ! i)) (entries (s ! i))"
      using live_pairs_enumerate [of "ctrl (s ! i)" "entries (s ! i)" 0] table_invD [OF t [OF that]]
      by (simp add: live_entries_def)
    then show ?thesis
      using slot_pairs_distinct [OF table_invD(1) [OF t [OF that]]]
      by (simp add: table_map_def ran_distinct)
  qed
  ultimately show "set (snd (sh_clear s)) = te_slab_block_id ` ran (sharded_map s)"
    using len by (auto simp: sh_clear_def set_conv_nth [of s] image_image)
qed

section \<open>Properties\<close>

text \<open>The 256 shards behave as one map: an insertion that its shard can take returns, reports the
  previous block of the key, and changes the combined map at that key only.\<close>

theorem sharded_insert_updates_map:
  assumes "sharded_inv s" "insert_ready (s ! shard_idx h) h"
  shows "\<exists>s'. sh_insert_typed b len ex ty s h = Some (s', Ok (map_option te_slab_block_id (sharded_map s h))) \<and>
    sharded_inv s' \<and> sharded_map s' = (sharded_map s)(h \<mapsto>
      \<lparr>te_slab_block_id = b, te_value_len = len, te_expire_at_secs = ex, te_value_type = ty\<rparr>)"
  using sh_insert.shards.op_total [OF assms, of b len ex ty]
  by (auto simp: spec_insert_def sh_insert_typed_def)

lemma with_total_capacity_ready:
  "insert_ready (with_total_capacity n ! shard_idx h) h" "table_ready (with_total_capacity n ! shard_idx h) h"
  using shard_idx_less [of h] with_capacity_inv(3)
  by (simp_all add: with_total_capacity_def insert_ready_def table_ready_def)

theorem sharded_insert_updates_map_witness:
  "\<exists>s'. sh_insert_typed (SlabBlockId 7) 3 0 0 (with_total_capacity 0) 300 = Some (s', Ok None) \<and>
     sharded_map s' 300 = Some \<lparr>te_slab_block_id = SlabBlockId 7, te_value_len = 3, te_expire_at_secs = 0, te_value_type = 0\<rparr>"
  using sharded_insert_updates_map [OF with_total_capacity_inv(1) with_total_capacity_ready(1), of "SlabBlockId 7" 3 0 0 0 300]
    with_total_capacity_inv(2) [of 0] by auto

text \<open>Operations on different shards are independent: removing one key does not change what a
  conditional removal, or any other operation, of a key of another shard does to its shard.\<close>

theorem shards_are_independent:
  assumes "shard_idx k \<noteq> shard_idx k'" "sh_remove s k = Some (s', r)"
  shows "with_shard_mut shard_idx f s' k' =
    map_option (\<lambda>(s2, r2). (s2[shard_idx k := s' ! shard_idx k], r2)) (with_shard_mut shard_idx f s k')"
  using sh_remove.shards_independent [OF assms(1) assms(2) [unfolded sh_remove_def]] .

theorem shards_are_independent_witness:
  "\<exists>s' r. sh_remove (with_total_capacity 0) 0 = Some (s', r) \<and>
     sh_persist 0 s' (2 ^ 32) =
       map_option (\<lambda>(s2, r2). (s2[0 := s' ! 0], r2)) (sh_persist 0 (with_total_capacity 0) (2 ^ 32))"
proof -
  obtain s' where s': "sh_remove (with_total_capacity 0) 0 = Some (s', snd (spec_remove (sharded_map (with_total_capacity 0) 0)))"
    using sh_remove.shards.op_total [OF with_total_capacity_inv(1) with_total_capacity_ready(2), of 0 0]
    unfolding sh_remove_def by blast
  have ix: "shard_idx 0 = 0" "shard_idx (2 ^ 32) = 1"
    by (simp_all add: shard_idx_def SHARD_MASK_def NUM_SHARDS_def)
  then show ?thesis
    using s' shards_are_independent [OF _ s', of "2 ^ 32" "\<lambda>t h. persist t h 0"]
    by (auto simp: sh_persist_def)
qed

text \<open>\<open>len\<close> counts the keys of the combined map; \<open>clear\<close> empties every shard and returns exactly the
  blocks that the removed entries named.\<close>

theorem sharded_len_and_clear:
  assumes "sharded_inv s"
  shows "sh_len s = card (dom (sharded_map s)) \<and> sharded_inv (fst (sh_clear s)) \<and>
    sharded_map (fst (sh_clear s)) = Map.empty \<and> set (snd (sh_clear s)) = te_slab_block_id ` ran (sharded_map s)"
  using sh_len_card [OF assms] sh_clear_spec [OF assms] by blast

theorem sharded_len_and_clear_witness: "sh_len (with_total_capacity 0) = 0"
  using sharded_len_and_clear [OF with_total_capacity_inv(1) [of 0]] with_total_capacity_inv(2) [of 0] by simp

end
