(* ===== verification/Worker_Tick.thy ===== *)
theory Worker_Tick
  imports Timing_Wheel Sharded_Table
begin

text \<open>
  The once-per-second work of a worker's event loop (\<open>crates/kachedb-net/src/engine.rs\<close>): touch
  the arenas, drain the timing wheel, remove the drained keys from the table and free their
  slots, reclaim empty arenas every ten seconds. Table, wheel and pool are composed here.
\<close>

section \<open>The tick\<close>

record Worker =
  wk_core :: core_state
  wk_table :: ShardedSwissTable
  wk_wheel :: HashedTimingWheel
  last_tick_sec :: u32

text \<open>The loop over the drained entries; \<open>let _ =\<close> drops an error of \<open>deallocate\<close>, not a panic.\<close>

fun expire_entries ::
    "ExpireEntry list \<Rightarrow> core_state \<Rightarrow> ShardedSwissTable \<Rightarrow> ((core_state \<times> ShardedSwissTable) \<times> (unit, unit) outcome) option" where
  "expire_entries [] s t = Some ((s, t), Ok ())"
| "expire_entries (e # es) s t =
     (case sh_remove_if_matching (ee_slab_block_id e) t (ee_key_hash e) of
        None \<Rightarrow> None
      | Some (t', None) \<Rightarrow> expire_entries es s t'
      | Some (t', Some removed) \<Rightarrow>
          (case pool_deallocate (te_slab_block_id removed) s of
             (s', Panic m) \<Rightarrow> Some ((s', t'), Panic m)
           | (s', _) \<Rightarrow> expire_entries es s' t'))"

definition worker_tick :: "u32 \<Rightarrow> Worker \<Rightarrow> (Worker \<times> (unit, unit) outcome) option" where
  "worker_tick now w =
     (if now = last_tick_sec w then Some (w, Ok ())
      else (let (p, r) = wk_core w; s1 = (tick_second now p, r)
            in case advance_expired_entries now (wk_wheel w) [] of
                 None \<Rightarrow> None
               | Some (wheel', expired) \<Rightarrow>
                   (case expire_entries expired s1 (wk_table w) of
                      None \<Rightarrow> None
                    | Some ((s2, t2), res) \<Rightarrow>
                        (let w1 = \<lparr>wk_core = s2, wk_table = t2, wk_wheel = wheel', last_tick_sec = now\<rparr>
                         in case res of
                              Ok _ \<Rightarrow>
                                Some (if unat now mod 10 = 0
                                      then w1\<lparr>wk_core := fst (reclaim_empty_arenas s2)\<rparr> else w1, Ok ())
                            | _ \<Rightarrow> Some (w1, res)))))"

section \<open>Ownership\<close>

text \<open>
  Every entry of the table owns the slot it names: the slot is live in the pool and no other
  key names it.
\<close>

definition owned :: "core_state \<Rightarrow> ShardedSwissTable \<Rightarrow> bool" where
  "owned s t \<longleftrightarrow>
     (\<forall>k x. sharded_map t k = Some x \<longrightarrow> te_slab_block_id x \<in> pool_live (fst s)) \<and>
     (\<forall>k k' x x'. sharded_map t k = Some x \<longrightarrow> sharded_map t k' = Some x' \<longrightarrow>
        te_slab_block_id x = te_slab_block_id x' \<longrightarrow> k = k')"

definition gaps :: "ShardedSwissTable \<Rightarrow> bool" where
  "gaps t \<longleftrightarrow> (\<forall>s \<in> set t. has_gap s)"

definition store_inv :: "core_state \<Rightarrow> ShardedSwissTable \<Rightarrow> bool" where [inv_defs]:
  "store_inv s t \<longleftrightarrow> core_inv s \<and> sharded_inv t \<and> gaps t \<and> owned s t"

lemma remove_at_gap:
  assumes inv: "table_inv t" and i: "live_slot (ctrl t) i" and gap: "has_gap t"
    and run: "remove_at t i = Some (t', r)"
  shows "has_gap t'"
proof -
  define t1 where "t1 = t\<lparr>ctrl := (ctrl t)[i := CTRL_DELETED], table_count := table_count t - 1\<rparr>"
  note d = delete_slot [OF table_invD(1) [OF inv] i]
  have inv1: "table_inv t1" using inv d(1,3) by (simp add: table_inv_def t1_def)
  have "ctrl t ! i \<noteq> CTRL_EMPTY" "i < length (ctrl t)" using i by (auto simp: live_slot_def)
  then have gap1: "has_gap t1" using gap by (simp add: has_gap_def t1_def gap_update)
  show ?thesis
  proof (cases "table_capacity t1 > MIN_SHRINK_CAPACITY \<and>
      table_count t1 * SHRINK_LOAD_FACTOR_DEN < table_capacity t1")
    case True
    then have c: "table_count t1 < table_capacity t1 div 2"
      unfolding SHRINK_LOAD_FACTOR_DEN_def MIN_SHRINK_CAPACITY_def by linarith
    obtain t2 where t2: "resize t1 (table_capacity t1 div 2) = Some t2" "table_inv t2"
      "table_capacity t2 = max (next_power_of_two (table_capacity t1 div 2)) GROUP_SIZE"
      "table_count t2 = table_count t1" "CTRL_DELETED \<notin> set (ctrl t2)"
      using resize_spec [OF inv1, of "table_capacity t1 div 2"] c by (metis less_imp_le)
    have "t' = t2" using run True t2(1) unfolding remove_at_def Let_def t1_def [symmetric] by simp
    moreover have "table_count t2 < table_capacity t2"
      using c next_power_of_two_ge [of "table_capacity t1 div 2"] t2(3,4) by linarith
    ultimately show ?thesis using tombstone_free_gap t2(2,5) by blast
  next
    case False
    then have "t' = t1" using run unfolding remove_at_def Let_def t1_def [symmetric] by (simp only: if_False) simp
    with gap1 show ?thesis by simp
  qed
qed

lemma remove_if_gap:
  assumes inv: "table_inv t" and gap: "has_gap t" and run: "remove_if_matching t h b = Some (t', r)"
  shows "has_gap t'"
proof -
  obtain res where p: "table_probe t h (\<lambda>i. slot_matches t h i \<and> slab_block_id (entries t ! i) = b) = Some res"
    using run by (auto simp: remove_if_matching_def split: option.splits)
  show ?thesis
  proof (cases res)
    case (Hit i)
    with probe_sound [OF table_invD(2) [OF inv] p [unfolded table_probe_def]]
    have "slot_matches t h i" "i < table_capacity t"
      using table_invD(2) [OF inv] by (auto simp: probe_verdict_def hit_at_def)
    then have "live_slot (ctrl t) i"
      using table_invD(3) [OF inv] by (simp add: slot_matches_def live_slot_def)
    then show ?thesis
      using remove_at_gap [OF inv _ gap] run p Hit by (simp add: remove_if_matching_def)
  next
    case (Miss q)
    then show ?thesis using run p gap by (simp add: remove_if_matching_def)
  qed
qed

lemma sh_remove_if_total:
  assumes inv: "sharded_inv t" and gap: "gaps t"
  obtains t' where "sh_remove_if_matching b t k = Some (t', snd (spec_remove_if b (sharded_map t k)))"
    "sharded_inv t'" "sharded_map t' = (sharded_map t)(k := fst (spec_remove_if b (sharded_map t k)))" "gaps t'"
proof -
  have mem: "t ! shard_idx k \<in> set t" and tinv: "table_inv (t ! shard_idx k)"
    using inv shard_idx_less [of k] by (auto simp: shards_inv_def)
  then have "remove_if_ready b (t ! shard_idx k) k" using gap by (simp add: gaps_def remove_if_ready_def)
  then obtain t' where t': "sh_remove_if_matching b t k = Some (t', snd (spec_remove_if b (sharded_map t k)))"
    "sharded_inv t'" "sharded_map t' = (sharded_map t)(k := fst (spec_remove_if b (sharded_map t k)))"
    using sh_remove_if.shards.op_total [OF inv] unfolding sh_remove_if_matching_def by blast
  obtain u r where u: "remove_if_matching (t ! shard_idx k) k b = Some (u, r)" "t' = t[shard_idx k := u]"
    using t'(1) by (auto simp: sh_remove_if_matching_def with_shard_mut_def split: option.splits)
  have "has_gap u" using remove_if_gap [OF tinv _ u(1)] gap mem by (simp add: gaps_def)
  then have "gaps t'" using gap u(2) set_update_subset_insert [of t "shard_idx k" u] by (auto simp: gaps_def)
  with t' that show ?thesis by blast
qed

section \<open>What a tick removes\<close>

definition drained :: "ExpireEntry list \<Rightarrow> u64 \<Rightarrow> TableEntry \<Rightarrow> bool" where
  "drained es k x \<longleftrightarrow> (\<exists>e \<in> set es. ee_key_hash e = k \<and> ee_slab_block_id e = te_slab_block_id x)"

definition expire_map :: "ExpireEntry list \<Rightarrow> (u64 \<rightharpoonup> TableEntry) \<Rightarrow> (u64 \<rightharpoonup> TableEntry)" where
  "expire_map es m k = (case m k of Some x \<Rightarrow> if drained es k x then None else Some x | None \<Rightarrow> None)"

lemma drained_cons:
  assumes "m (ee_key_hash e) = Some x" "te_slab_block_id x = ee_slab_block_id e"
  shows "{te_slab_block_id y |k y. m k = Some y \<and> drained (e # es) k y} =
    insert (ee_slab_block_id e)
      {te_slab_block_id y |k y. (m(ee_key_hash e := None)) k = Some y \<and> drained es k y}"
    (is "?R = insert _ ?R1")
proof (intro equalityI subsetI)
  fix b assume "b \<in> ?R"
  then obtain k y where y: "m k = Some y" "b = te_slab_block_id y" "drained (e # es) k y" by blast
  show "b \<in> insert (ee_slab_block_id e) ?R1"
  proof (cases "k = ee_key_hash e")
    case True
    then show ?thesis using y assms by simp
  next
    case False
    then have "drained es k y" "(m(ee_key_hash e := None)) k = Some y" using y by (auto simp: drained_def)
    with y(2) show ?thesis by blast
  qed
next
  fix b assume "b \<in> insert (ee_slab_block_id e) ?R1"
  then consider "b = ee_slab_block_id e"
    | k y where "k \<noteq> ee_key_hash e" "m k = Some y" "b = te_slab_block_id y" "drained es k y"
    by (auto split: if_splits)
  then show "b \<in> ?R"
  proof cases
    case 1
    have "drained (e # es) (ee_key_hash e) x" using assms(2) by (simp add: drained_def)
    moreover have "b = te_slab_block_id x" using 1 assms(2) by simp
    ultimately show ?thesis using assms(1) by blast
  next
    case 2
    then show ?thesis by (auto simp: drained_def)
  qed
qed

lemma expire_entries_spec:
  assumes "store_inv s t"
  shows "\<exists>s' t'. expire_entries es s t = Some ((s', t'), Ok ()) \<and> store_inv s' t' \<and>
    sharded_map t' = expire_map es (sharded_map t) \<and>
    pool_live (fst s') = pool_live (fst s) -
      {te_slab_block_id x |k x. sharded_map t k = Some x \<and> drained es k x}"
  using assms
proof (induction es arbitrary: s t)
  case Nil
  then show ?case by (auto simp: expire_map_def drained_def fun_eq_iff split: option.split)
next
  case (Cons e es)
  let ?k = "ee_key_hash e" and ?b = "ee_slab_block_id e"
  have inv: "core_inv s" "sharded_inv t" "gaps t" "owned s t" using Cons.prems by (simp_all add: store_inv_def)
  obtain t1 where t1: "sh_remove_if_matching ?b t ?k = Some (t1, snd (spec_remove_if ?b (sharded_map t ?k)))"
    "sharded_inv t1" "sharded_map t1 = (sharded_map t)(?k := fst (spec_remove_if ?b (sharded_map t ?k)))" "gaps t1"
    using sh_remove_if_total [OF inv(2,3)] by metis
  show ?case
  proof (cases "\<exists>x. sharded_map t ?k = Some x \<and> te_slab_block_id x = ?b")
    case True
    then obtain x where x: "sharded_map t ?k = Some x" "te_slab_block_id x = ?b" by blast
    have live: "?b \<in> pool_live (fst s)" using inv(4) x unfolding owned_def by metis
    obtain s1 res where d: "pool_deallocate ?b s = (s1, res)" by fastforce
    note dl = pool_deallocate_live [OF inv(1) live d]
    have m1: "sharded_map t1 = (sharded_map t)(?k := None)" using t1(3) x by (simp add: spec_remove_if_def)
    have other: "te_slab_block_id y \<noteq> ?b" if "sharded_map t1 k' = Some y" for k' y
      using that inv(4) x unfolding owned_def m1 by (auto split: if_splits)
    have "owned s1 t1"
      using inv(4) other unfolding owned_def dl(3) m1 by (auto split: if_splits)
    then have "store_inv s1 t1" using dl(2) t1(2,4) by (simp add: store_inv_def)
    from Cons.IH [OF this] obtain s' t' where r: "expire_entries es s1 t1 = Some ((s', t'), Ok ())"
      "store_inv s' t'" "sharded_map t' = expire_map es (sharded_map t1)"
      "pool_live (fst s') = pool_live (fst s1) -
        {te_slab_block_id x |k x. sharded_map t1 k = Some x \<and> drained es k x}" by blast
    have "expire_entries (e # es) s t = Some ((s', t'), Ok ())"
      using t1(1) x d dl(1) r(1) by (simp add: spec_remove_if_def)
    moreover have "expire_map es (sharded_map t1) = expire_map (e # es) (sharded_map t)"
      using x by (auto simp: expire_map_def m1 drained_def fun_eq_iff split: option.split)
    moreover have "pool_live (fst s') = pool_live (fst s) -
        {te_slab_block_id x |k x. sharded_map t k = Some x \<and> drained (e # es) k x}"
      using drained_cons [of "sharded_map t" e x es, OF x] unfolding r(4) dl(3) m1 by blast
    ultimately show ?thesis using r(2,3) by auto
  next
    case False
    then have sp: "spec_remove_if ?b (sharded_map t ?k) = (sharded_map t ?k, None)"
      by (auto simp: spec_remove_if_def split: option.split)
    then have m1: "sharded_map t1 = sharded_map t" using t1(3) by simp
    have "store_inv s t1" using inv t1(2,4) by (simp add: store_inv_def owned_def m1)
    from Cons.IH [OF this] obtain s' t' where r: "expire_entries es s t1 = Some ((s', t'), Ok ())"
      "store_inv s' t'" "sharded_map t' = expire_map es (sharded_map t)"
      "pool_live (fst s') = pool_live (fst s) -
        {te_slab_block_id x |k x. sharded_map t k = Some x \<and> drained es k x}" unfolding m1 by blast
    have same: "drained (e # es) k x = drained es k x" if "sharded_map t k = Some x" for k x
      using False that by (auto simp: drained_def)
    have "expire_entries (e # es) s t = Some ((s', t'), Ok ())" using t1(1) sp r(1) by simp
    moreover have "expire_map es (sharded_map t) = expire_map (e # es) (sharded_map t)"
      by (auto simp: expire_map_def same fun_eq_iff split: option.split)
    moreover have "{te_slab_block_id x |k x. sharded_map t k = Some x \<and> drained es k x} =
        {te_slab_block_id x |k x. sharded_map t k = Some x \<and> drained (e # es) k x}"
      using same by blast
    ultimately show ?thesis using r by auto
  qed
qed

lemma reclaim_store_inv:
  assumes "store_inv s t"
  shows "store_inv (fst (reclaim_empty_arenas s)) t"
    "pool_live (fst (fst (reclaim_empty_arenas s))) = pool_live (fst s)"
proof -
  obtain s' n where r: "reclaim_empty_arenas s = (s', n)" by fastforce
  have "core_inv s" using assms by (simp add: store_inv_def)
  from reclaim_empty_spec [OF this r] assms
  show "store_inv (fst (reclaim_empty_arenas s)) t"
    "pool_live (fst (fst (reclaim_empty_arenas s))) = pool_live (fst s)"
    by (simp_all add: store_inv_def owned_def r)
qed

definition worker_inv :: "Worker \<Rightarrow> bool" where [inv_defs]:
  "worker_inv w \<longleftrightarrow> store_inv (wk_core w) (wk_table w) \<and> wheel_inv (wk_wheel w)"

text \<open>The effect of a tick, in terms of the table's map, the wheel's timeline and the live slots.\<close>

definition tick_effect :: "u32 \<Rightarrow> Worker \<Rightarrow> Worker \<Rightarrow> bool" where
  "tick_effect now w w' \<longleftrightarrow>
     worker_inv w' \<and> last_tick_sec w' = now \<and>
     sharded_map (wk_table w') = expire_map (due_list (wk_wheel w) now) (sharded_map (wk_table w)) \<and>
     due_at (wk_wheel w') = (\<lambda>d. if d \<le> unat now then [] else due_at (wk_wheel w) d) \<and>
     unat (current_tick_sec (wk_wheel w')) = Suc (unat now) \<and>
     pool_live (fst (wk_core w')) = pool_live (fst (wk_core w)) -
       {te_slab_block_id x |k x. sharded_map (wk_table w) k = Some x \<and> drained (due_list (wk_wheel w) now) k x}"

lemma worker_tick_spec:
  assumes inv: "worker_inv w" and now: "now \<noteq> last_tick_sec w" "unat now < 2 ^ 32 - 1"
    and tick: "unat (current_tick_sec (wk_wheel w)) \<le> Suc (unat now)"
  shows "\<exists>w'. worker_tick now w = Some (w', Ok ()) \<and> tick_effect now w w'"
proof -
  let ?es = "due_list (wk_wheel w) now"
  have wi: "wheel_inv (wk_wheel w)" and st: "store_inv (wk_core w) (wk_table w)"
    using inv by (simp_all add: worker_inv_def)
  obtain p r where core: "wk_core w = (p, r)" by fastforce
  have st1: "store_inv (tick_second now p, r) (wk_table w)"
    using st tick_second_inv [of p r now] by (simp add: core store_inv_def owned_def)
  obtain wh where wh: "advance_expired_entries now (wk_wheel w) [] = Some (wh, ?es)" "wheel_inv wh"
    "unat (current_tick_sec wh) = Suc (unat now)"
    "due_at wh = (\<lambda>d. if d \<le> unat now then [] else due_at (wk_wheel w) d)"
    using advance_spec [OF wi now(2) tick, of "[]"] unfolding due_list_def by auto
  obtain s2 t2 where e: "expire_entries ?es (tick_second now p, r) (wk_table w) = Some ((s2, t2), Ok ())"
    "store_inv s2 t2" "sharded_map t2 = expire_map ?es (sharded_map (wk_table w))"
    "pool_live (fst s2) = pool_live (tick_second now p) -
      {te_slab_block_id x |k x. sharded_map (wk_table w) k = Some x \<and> drained ?es k x}"
    using expire_entries_spec [OF st1, of ?es] by auto
  let ?w1 = "\<lparr>wk_core = s2, wk_table = t2, wk_wheel = wh, last_tick_sec = now\<rparr>"
  let ?w' = "if unat now mod 10 = 0 then ?w1\<lparr>wk_core := fst (reclaim_empty_arenas s2)\<rparr> else ?w1"
  have "worker_tick now w = Some (?w', Ok ())"
    using now(1) wh(1) e(1) by (simp add: worker_tick_def core)
  moreover have "worker_inv ?w'" using e(2) wh(2) reclaim_store_inv [OF e(2)] by (simp add: worker_inv_def)
  moreover have "pool_live (fst (wk_core ?w')) = pool_live (fst (wk_core w)) -
      {te_slab_block_id x |k x. sharded_map (wk_table w) k = Some x \<and> drained ?es k x}"
    using e(4) reclaim_store_inv(2) [OF e(2)] st tick_second_inv(2) [of p r now]
    by (simp add: core store_inv_def)
  ultimately show ?thesis using e(3) wh(3,4) by (intro exI [of _ ?w']) (simp add: tick_effect_def)
qed

lemma tick_removes:
  assumes "tick_effect now w w'" "sharded_map (wk_table w) k = Some x"
  shows "sharded_map (wk_table w') k = (if drained (due_list (wk_wheel w) now) k x then None else Some x)"
    and "drained (due_list (wk_wheel w) now) k x \<Longrightarrow> te_slab_block_id x \<notin> pool_live (fst (wk_core w'))"
  using assms by (auto simp: tick_effect_def expire_map_def)

lemma drained_dueI:
  assumes "\<lparr>ee_key_hash = k, ee_slab_block_id = te_slab_block_id x, ee_expire_at_sec = ex\<rparr> \<in> set (due_at w d)"
    and "d \<le> unat now"
  shows "drained (due_list w now) k x"
  using assms unfolding drained_def by (force simp: due_list_iff)

end
