(* ===== verification/Resp_Text.thy ===== *)
theory Resp_Text
  imports Prelude
begin

text \<open>
  The textual layer of the RESP protocol (\<open>crates/kachedb-proto-resp/src/frame.rs\<close>): line ends,
  the integer parsers of the standard library as the protocol uses them (\<open>str::parse\<close> for
  \<open>i64\<close> and the unsigned widths), and the decimal formatters. Invalid UTF-8 is not a number in
  any of the uses, so the parsers work on bytes.
\<close>

section \<open>Bytes and lines\<close>

definition ascii :: "string \<Rightarrow> bytes" where
  "ascii s = map of_char s"

definition crlf :: bytes where "crlf = [13, 10]"

definition find_crlf :: "bytes \<Rightarrow> nat option" where
  "find_crlf src = List.find (\<lambda>i. src ! i = 13 \<and> src ! (i + 1) = 10) [0..<length src - 1]"

text \<open>\<open><[u8]>::eq_ignore_ascii_case\<close>.\<close>

definition to_ascii_lowercase :: "u8 \<Rightarrow> u8" where
  "to_ascii_lowercase b = (if 65 \<le> b \<and> b \<le> 90 then b + 32 else b)"

definition eq_ignore_ascii_case :: "bytes \<Rightarrow> bytes \<Rightarrow> bool" where
  "eq_ignore_ascii_case xs ys \<longleftrightarrow> map to_ascii_lowercase xs = map to_ascii_lowercase ys"

section \<open>Integers\<close>

definition is_digit :: "u8 \<Rightarrow> bool" where
  "is_digit b \<longleftrightarrow> 48 \<le> b \<and> b \<le> 57"

fun parse_digits :: "bytes \<Rightarrow> nat \<Rightarrow> nat option" where
  "parse_digits [] acc = Some acc"
| "parse_digits (b # bs) acc =
     (if is_digit b then parse_digits bs (acc * 10 + unat (b - 48)) else None)"

text \<open>\<open>str::parse\<close> at an unsigned type of \<open>w\<close> bits: an optional plus sign and at least one digit.\<close>

definition parse_unsigned :: "nat \<Rightarrow> bytes \<Rightarrow> nat option" where
  "parse_unsigned w src =
     (let ds = (case src of b # bs \<Rightarrow> if b = 43 then bs else src | [] \<Rightarrow> [])
      in if ds = [] then None
         else (case parse_digits ds 0 of
                 Some n \<Rightarrow> if n < 2 ^ w then Some n else None
               | None \<Rightarrow> None))"

text \<open>\<open>str::parse::<i64>\<close>: an optional sign and at least one digit.\<close>

definition parse_i64 :: "bytes \<Rightarrow> int option" where
  "parse_i64 src =
     (let neg = (case src of b # bs \<Rightarrow> b = 45 | [] \<Rightarrow> False);
          ds = (case src of b # bs \<Rightarrow> if b = 43 \<or> b = 45 then bs else src | [] \<Rightarrow> [])
      in if ds = [] then None
         else (case parse_digits ds 0 of
                 Some n \<Rightarrow>
                   if neg then (if n \<le> 2 ^ 63 then Some (- int n) else None)
                   else (if n < 2 ^ 63 then Some (int n) else None)
               | None \<Rightarrow> None))"

text \<open>
  The digit loops of \<open>write_int\<close> and \<open>write_usize\<close> fill a buffer from the least significant
  digit and copy it backwards. \<open>-n\<close> on \<open>i64\<close> wraps at the minimum.
\<close>

fun rev_digits :: "nat \<Rightarrow> bytes" where
  "rev_digits n = (if n = 0 then [] else (48 + of_nat (n mod 10)) # rev_digits (n div 10))"

declare rev_digits.simps [simp del]

definition write_usize :: "bytes \<Rightarrow> nat \<Rightarrow> bytes" where
  "write_usize buf n = (if n = 0 then buf @ [48] else buf @ rev (rev_digits n))"

definition neg_i64 :: "int \<Rightarrow> int" where
  "neg_i64 n = (if n = - (2 ^ 63) then n else - n)"

definition write_int :: "bytes \<Rightarrow> int \<Rightarrow> bytes" where
  "write_int buf n =
     (if n = 0 then buf @ [48]
      else (let buf1 = (if n < 0 then buf @ [45] else buf); m = (if n < 0 then neg_i64 n else n)
            in buf1 @ rev (rev_digits (nat m))))"

section \<open>Lemmas on lines\<close>

lemma find_crlf_some:
  "find_crlf src = Some pos \<longleftrightarrow>
     Suc pos < length src \<and> src ! pos = 13 \<and> src ! Suc pos = 10 \<and>
     (\<forall>i < pos. \<not> (src ! i = 13 \<and> src ! Suc i = 10))"
  unfolding find_crlf_def find_Some_iff by (auto simp: less_diff_conv)

lemma find_crlf_none:
  "find_crlf src = None \<longleftrightarrow> (\<forall>i. Suc i < length src \<longrightarrow> \<not> (src ! i = 13 \<and> src ! Suc i = 10))"
  unfolding find_crlf_def find_None_iff by (auto simp: less_diff_conv)

text \<open>A line end found in the bytes received so far stays where it is when more arrive.\<close>

lemma find_crlf_append: "find_crlf src = Some pos \<Longrightarrow> find_crlf (src @ more) = Some pos"
  by (auto simp: find_crlf_some nth_append)

lemma find_crlf_take:
  assumes "find_crlf src = Some pos"
  shows "find_crlf (take n src) = (if pos + 2 \<le> n then Some pos else None)"
proof (cases "pos + 2 \<le> n")
  case True
  then show ?thesis using assms by (auto simp: find_crlf_some)
next
  case False
  have "\<not> (take n src ! i = 13 \<and> take n src ! Suc i = 10)" if "Suc i < length (take n src)" for i
  proof -
    have "i < pos" "i < n" "Suc i < n" using that False by auto
    then show ?thesis using assms by (auto simp: find_crlf_some)
  qed
  then have "find_crlf (take n src) = None" unfolding find_crlf_none by blast
  with False show ?thesis by simp
qed

definition no_crlf :: "bytes \<Rightarrow> bool" where
  "no_crlf s \<longleftrightarrow> find_crlf s = None"

lemma find_crlf_line:
  assumes "no_crlf s"
  shows "find_crlf (s @ 13 # 10 # rest) = Some (length s)"
proof -
  have "\<not> ((s @ 13 # 10 # rest) ! i = 13 \<and> (s @ 13 # 10 # rest) ! Suc i = 10)" if "i < length s" for i
    using assms that by (cases "Suc i < length s") (auto simp: no_crlf_def find_crlf_none nth_append)
  then show ?thesis by (simp add: find_crlf_some nth_append)
qed

lemma no_crlf_if_no_cr: "13 \<notin> set s \<Longrightarrow> no_crlf s"
  by (auto simp: no_crlf_def find_crlf_none dest: nth_mem Suc_lessD) (metis Suc_lessD nth_mem)

section \<open>Lemmas on integers\<close>

lemma parse_digits_append:
  "parse_digits (xs @ ys) acc = (case parse_digits xs acc of Some n \<Rightarrow> parse_digits ys n | None \<Rightarrow> None)"
  by (induction xs acc rule: parse_digits.induct) auto

lemma digit_byte:
  assumes "d < 10"
  shows "is_digit (48 + of_nat d)" "unat ((48 + of_nat d :: u8) - 48) = d" "(48 + of_nat d :: u8) \<noteq> 13"
    "(48 + of_nat d :: u8) \<noteq> 43" "(48 + of_nat d :: u8) \<noteq> 45"
proof -
  have u: "unat (48 + of_nat d :: u8) = 48 + d"
    using assms by (simp add: unat_word_ariths unat_of_nat)
  then show "is_digit (48 + of_nat d)" using assms by (simp add: is_digit_def word_le_nat_alt)
  show "unat ((48 + of_nat d :: u8) - 48) = d" using assms by (simp add: unat_of_nat)
  have "x \<noteq> 48 + of_nat d" if "unat x < 48" for x :: u8 using u that by auto
  note ne = this
  have "unat (13 :: u8) < 48" "unat (43 :: u8) < 48" "unat (45 :: u8) < 48" by simp_all
  from this [THEN ne]
  show "(48 + of_nat d :: u8) \<noteq> 13" "(48 + of_nat d :: u8) \<noteq> 43" "(48 + of_nat d :: u8) \<noteq> 45"
    by metis+
qed

lemma parse_rev_digits: "0 < n \<Longrightarrow> parse_digits (rev (rev_digits n)) 0 = Some n"
proof (induction n rule: rev_digits.induct)
  case (1 n)
  have d: "n mod 10 < 10" by simp
  show ?case
  proof (cases "n div 10 = 0")
    case True
    then have "rev_digits n = [48 + of_nat (n mod 10)]"
      using 1(2) by (simp add: rev_digits.simps [of n] rev_digits.simps [of 0])
    then show ?thesis using True digit_byte [OF d] by simp
  next
    case False
    then have "parse_digits (rev (rev_digits (n div 10))) 0 = Some (n div 10)" using 1 by simp
    then show ?thesis
      using 1(2) digit_byte [OF d] by (simp add: rev_digits.simps [of n] parse_digits_append)
  qed
qed

lemma rev_digits_set: "b \<in> set (rev_digits n) \<Longrightarrow> b \<noteq> 13 \<and> b \<noteq> 43 \<and> b \<noteq> 45"
proof (induction n rule: rev_digits.induct)
  case (1 n)
  have "n mod 10 < 10" by simp
  then show ?case using 1 digit_byte by (subst (asm) (2) rev_digits.simps) (auto split: if_splits)
qed

lemma rev_digits_nonempty: "0 < n \<Longrightarrow> rev_digits n \<noteq> []"
  by (simp add: rev_digits.simps [of n])

lemma rev_rev_digits_hd: "0 < n \<Longrightarrow> \<exists>b bs. rev (rev_digits n) = b # bs \<and> b \<noteq> 43 \<and> b \<noteq> 45"
  using rev_digits_nonempty rev_digits_set
  by (metis list.exhaust list.set_intros(1) rev_is_Nil_conv set_rev)

lemma write_usize_parse:
  assumes "n < 2 ^ 63"
  shows "parse_i64 (write_usize [] n) = Some (int n)" "no_crlf (write_usize [] n)"
proof -
  show "parse_i64 (write_usize [] n) = Some (int n)"
  proof (cases "n = 0")
    case True
    then show ?thesis by (simp add: write_usize_def parse_i64_def Let_def is_digit_def)
  next
    case False
    then obtain b bs where b: "rev (rev_digits n) = b # bs" "b \<noteq> 43" "b \<noteq> 45"
      using rev_rev_digits_hd by blast
    moreover have "parse_digits (b # bs) 0 = Some n" using parse_rev_digits [of n] False b(1) by simp
    ultimately show ?thesis using False assms by (simp add: write_usize_def parse_i64_def Let_def)
  qed
  show "no_crlf (write_usize [] n)"
    using rev_digits_set by (intro no_crlf_if_no_cr) (auto simp: write_usize_def)
qed

lemma write_usize_unsigned:
  assumes "n < 2 ^ w"
  shows "parse_unsigned w (write_usize [] n) = Some n"
proof (cases "n = 0")
  case True
  then show ?thesis by (simp add: write_usize_def parse_unsigned_def is_digit_def)
next
  case False
  then obtain b bs where b: "rev (rev_digits n) = b # bs" "b \<noteq> 43"
    using rev_rev_digits_hd by blast
  moreover have "parse_digits (b # bs) 0 = Some n" using parse_rev_digits [of n] False b(1) by simp
  ultimately show ?thesis using False assms by (simp add: write_usize_def parse_unsigned_def Let_def)
qed

lemma write_int_parse:
  assumes "- (2 ^ 63) < n" "n < 2 ^ 63"
  shows "parse_i64 (write_int [] n) = Some n" "no_crlf (write_int [] n)"
proof -
  show "parse_i64 (write_int [] n) = Some n"
  proof (cases "0 \<le> n")
    case True
    then have "write_int [] n = write_usize [] (nat n)" by (auto simp: write_int_def write_usize_def Let_def)
    then show ?thesis using write_usize_parse(1) [of "nat n"] assms True by simp
  next
    case False
    then have "0 < nat (- n)" by simp
    moreover from this obtain b bs where "rev (rev_digits (nat (- n))) = b # bs"
      using rev_rev_digits_hd by blast
    ultimately have "parse_digits (b # bs) 0 = Some (nat (- n))" using parse_rev_digits by metis
    with \<open>rev (rev_digits (nat (- n))) = b # bs\<close> False assms show ?thesis
      by (simp add: write_int_def parse_i64_def Let_def neg_i64_def)
  qed
  show "no_crlf (write_int [] n)"
    using rev_digits_set by (intro no_crlf_if_no_cr) (auto simp: write_int_def Let_def)
qed

end
