(* ===== verification/Resp_Frame.thy ===== *)
theory Resp_Frame
  imports Resp_Text
begin

text \<open>
  \<open>crates/kachedb-proto-resp/src/frame.rs\<close> and \<open>error.rs\<close>: RESP frames, the streaming parser
  (a complete frame and its length, "need more data", or a protocol error) and the encoders.
  Slices of the input are byte lists; an output buffer is the list of its bytes.
\<close>

section \<open>Frames\<close>

datatype RespError =
    InvalidTypeMarker u8
  | MissingCrlf
  | InvalidInteger
  | FrameTooLarge nat
  | EmptyCommand
  | WrongArgumentCount string

datatype Frame =
    SimpleString bytes
  | Error bytes
  | Integer int
  | BulkString bytes
  | Null
  | Array "Frame list"

type_synonym 'a parsed = "(('a \<times> nat) option, RespError) outcome"

section \<open>The parser\<close>

text \<open>\<open>.map(|opt| opt.map(|(x, len)| (f(x), len + 1)))\<close>: the type marker is one more byte.\<close>

fun after_marker :: "('a \<Rightarrow> 'b) \<Rightarrow> 'a parsed \<Rightarrow> 'b parsed" where
  "after_marker f (Ok (Some (x, len))) = Ok (Some (f x, len + 1))"
| "after_marker f (Ok None) = Ok None"
| "after_marker f (Err e) = Err e"
| "after_marker f (Panic m) = Panic m"

definition parse_simple_string :: "bytes \<Rightarrow> bytes parsed" where
  "parse_simple_string src =
     (case find_crlf src of
        Some pos \<Rightarrow> Ok (Some (take pos src, pos + 2))
      | None \<Rightarrow> Ok None)"

definition parse_integer :: "bytes \<Rightarrow> int parsed" where
  "parse_integer src =
     (case find_crlf src of
        Some pos \<Rightarrow>
          (case parse_i64 (take pos src) of
             Some n \<Rightarrow> Ok (Some (n, pos + 2))
           | None \<Rightarrow> Err InvalidInteger)
      | None \<Rightarrow> Ok None)"

definition parse_null_resp3 :: "bytes \<Rightarrow> Frame parsed" where
  "parse_null_resp3 src =
     (case find_crlf src of
        Some pos \<Rightarrow> if pos = 0 then Ok (Some (Null, 2)) else Err (InvalidTypeMarker 95)
      | None \<Rightarrow> Ok None)"

definition parse_bulk_string :: "bytes \<Rightarrow> bytes option parsed" where
  "parse_bulk_string src =
     (case find_crlf src of
        Some pos \<Rightarrow>
          (case parse_i64 (take pos src) of
             None \<Rightarrow> Err InvalidInteger
           | Some n \<Rightarrow>
               if n = -1 then Ok (Some (None, pos + 2))
               else if n < 0 then Err InvalidInteger
               else (let len = nat n; data_start = pos + 2; total_needed = data_start + len + 2
                     in if length src < total_needed then Ok None
                        else if src ! (data_start + len) \<noteq> 13 \<or> src ! (data_start + len + 1) \<noteq> 10
                        then Err MissingCrlf
                        else Ok (Some (Some (take len (drop data_start src)), total_needed))))
      | None \<Rightarrow> Ok None)"

definition bulk_frame :: "bytes option \<Rightarrow> Frame" where
  "bulk_frame b = (case b of Some s \<Rightarrow> BulkString s | None \<Rightarrow> Null)"

text \<open>\<open>parse_elems\<close> is the \<open>for\<close> loop of \<open>parse_array\<close>, with the frames read and the offset.\<close>

function (sequential) parse_frame :: "bytes \<Rightarrow> Frame parsed"
  and parse_array :: "bytes \<Rightarrow> Frame list parsed"
  and parse_elems :: "nat \<Rightarrow> Frame list \<Rightarrow> nat \<Rightarrow> bytes \<Rightarrow> Frame list parsed" where
  "parse_frame src =
     (case src of
        [] \<Rightarrow> Ok None
      | b # rest \<Rightarrow>
          if b = 43 then after_marker SimpleString (parse_simple_string rest)
          else if b = 45 then after_marker Error (parse_simple_string rest)
          else if b = 58 then after_marker Integer (parse_integer rest)
          else if b = 36 then after_marker bulk_frame (parse_bulk_string rest)
          else if b = 95 then after_marker id (parse_null_resp3 rest)
          else if b = 42 then after_marker Array (parse_array rest)
          else Err (InvalidTypeMarker b))"
| "parse_array src =
     (case find_crlf src of
        Some pos \<Rightarrow>
          (case parse_i64 (take pos src) of
             None \<Rightarrow> Err InvalidInteger
           | Some count \<Rightarrow>
               if count < 0 then Ok (Some ([], pos + 2))
               else parse_elems (nat count) [] (pos + 2) src)
      | None \<Rightarrow> Ok None)"
| "parse_elems n frames offset src =
     (if n = 0 then Ok (Some (frames, offset))
      else if offset \<ge> length src then Ok None
      else (case parse_frame (drop offset src) of
              Ok (Some (e, consumed)) \<Rightarrow> parse_elems (n - 1) (frames @ [e]) (offset + consumed) src
            | Ok None \<Rightarrow> Ok None
            | Err e \<Rightarrow> Err e
            | Panic m \<Rightarrow> Panic m))"
  by pat_completeness auto
termination
  by (relation "inv_image (less_than <*lex*> less_than <*lex*> less_than)
        (\<lambda>x. case x of Inl src \<Rightarrow> (length src, 0, 0)
                | Inr (Inl src) \<Rightarrow> (length src, 2, 0)
                | Inr (Inr (n, frames, offset, src)) \<Rightarrow> (length src, 1, n))")
    auto

declare parse_frame.simps [simp del] parse_array.simps [simp del] parse_elems.simps [simp del]

section \<open>The encoders\<close>

definition encode_simple_string :: "bytes \<Rightarrow> bytes \<Rightarrow> bytes" where
  "encode_simple_string buf s = buf @ [43] @ s @ crlf"

definition encode_error :: "bytes \<Rightarrow> bytes \<Rightarrow> bytes" where
  "encode_error buf err = buf @ [45] @ err @ crlf"

definition encode_integer :: "bytes \<Rightarrow> int \<Rightarrow> bytes" where
  "encode_integer buf val = write_int (buf @ [58]) val @ crlf"

definition encode_bulk_string :: "bytes \<Rightarrow> bytes \<Rightarrow> bytes" where
  "encode_bulk_string buf data = write_usize (buf @ [36]) (length data) @ crlf @ data @ crlf"

definition encode_null :: "bytes \<Rightarrow> bytes" where
  "encode_null buf = buf @ ascii ''$-1'' @ crlf"

definition encode_array_header :: "bytes \<Rightarrow> nat \<Rightarrow> bytes" where
  "encode_array_header buf count = write_usize (buf @ [42]) count @ crlf"

section \<open>Streaming\<close>

lemma after_marker_ok:
  "after_marker f p = Ok (Some (y, n)) \<longleftrightarrow> (\<exists>x m. p = Ok (Some (x, m)) \<and> y = f x \<and> n = Suc m)"
  by (cases "(f, p)" rule: after_marker.cases) auto

lemma after_marker_none: "after_marker f p = Ok None \<longleftrightarrow> p = Ok None"
  by (cases "(f, p)" rule: after_marker.cases) auto

text \<open>
  \<open>settles p src\<close>: a verdict other than "need more data" is the same for every longer input, a
  complete result has consumed a positive part of the input, and shorter inputs are incomplete.
\<close>

definition settles :: "(bytes \<Rightarrow> 'a parsed) \<Rightarrow> nat \<Rightarrow> bytes \<Rightarrow> bool" where
  "settles p lo src \<longleftrightarrow>
     (\<forall>more. p src \<noteq> Ok None \<longrightarrow> p (src @ more) = p src) \<and>
     (\<forall>x n. p src = Ok (Some (x, n)) \<longrightarrow> lo \<le> n \<and> n \<le> length src \<and>
        (\<forall>k. lo \<le> k \<longrightarrow> p (take k src) = (if n \<le> k then Ok (Some (x, n)) else Ok None)))"

lemma settlesD:
  assumes "settles p lo src"
  shows "p src \<noteq> Ok None \<Longrightarrow> p (src @ more) = p src"
    and "p src = Ok (Some (x, n)) \<Longrightarrow> lo \<le> n"
    and "p src = Ok (Some (x, n)) \<Longrightarrow> n \<le> length src"
    and "p src = Ok (Some (x, n)) \<Longrightarrow> lo \<le> k \<Longrightarrow> p (take k src) = (if n \<le> k then Ok (Some (x, n)) else Ok None)"
  using assms unfolding settles_def by blast+

lemma simple_string_settles: "settles parse_simple_string 0 src"
  unfolding settles_def parse_simple_string_def
  by (auto simp: find_crlf_append find_crlf_take find_crlf_some min_def split: option.splits)

lemma integer_settles: "settles parse_integer 0 src"
  unfolding settles_def parse_integer_def
  by (auto simp: find_crlf_append find_crlf_take find_crlf_some min_def split: option.splits)

lemma null_settles: "settles parse_null_resp3 0 src"
  unfolding settles_def parse_null_resp3_def
  by (auto simp: find_crlf_append find_crlf_take find_crlf_some min_def split: option.splits if_splits)

lemma bulk_complete:
  assumes "parse_bulk_string src = Ok (Some (x, n))"
  obtains pos v where "find_crlf src = Some pos" "parse_i64 (take pos src) = Some v"
    "v = -1 \<and> x = None \<and> n = pos + 2 \<or>
     0 \<le> v \<and> n = pos + 2 + nat v + 2 \<and> n \<le> length src \<and> src ! (pos + 2 + nat v) = 13 \<and>
     src ! (pos + 2 + nat v + 1) = 10 \<and> x = Some (take (nat v) (drop (pos + 2) src))"
proof -
  obtain pos where pos: "find_crlf src = Some pos"
    using assms by (cases "find_crlf src") (simp_all add: parse_bulk_string_def)
  obtain v where v: "parse_i64 (take pos src) = Some v"
    using assms pos by (cases "parse_i64 (take pos src)") (simp_all add: parse_bulk_string_def)
  show ?thesis
  proof (rule that [OF pos v])
    show "v = -1 \<and> x = None \<and> n = pos + 2 \<or>
       0 \<le> v \<and> n = pos + 2 + nat v + 2 \<and> n \<le> length src \<and> src ! (pos + 2 + nat v) = 13 \<and>
       src ! (pos + 2 + nat v + 1) = 10 \<and> x = Some (take (nat v) (drop (pos + 2) src))"
      using assms by (simp add: parse_bulk_string_def pos v Let_def split: if_splits)
  qed
qed

lemma bulk_settles: "settles parse_bulk_string 0 src"
proof -
  have "parse_bulk_string (src @ more) = parse_bulk_string src"
    if more: "parse_bulk_string src \<noteq> Ok None" for more
  proof -
    obtain pos where pos: "find_crlf src = Some pos"
      using more by (cases "find_crlf src") (simp_all add: parse_bulk_string_def)
    then have len: "pos \<le> length src" by (simp add: find_crlf_some)
    show ?thesis
    proof (cases "parse_i64 (take pos src)")
      case None
      then show ?thesis using pos len by (simp add: parse_bulk_string_def find_crlf_append)
    next
      case (Some v)
      have "0 \<le> v \<Longrightarrow> v \<noteq> -1 \<Longrightarrow> \<not> length src < pos + 2 + nat v + 2"
        using more pos Some by (simp add: parse_bulk_string_def Let_def split: if_splits)
      then show ?thesis
        using pos len Some
        by (cases "v < 0") (simp_all add: parse_bulk_string_def find_crlf_append Let_def nth_append not_less)
    qed
  qed
  moreover have "n \<le> length src \<and>
      (\<forall>k. parse_bulk_string (take k src) = (if n \<le> k then Ok (Some (x, n)) else Ok None))"
    if ok: "parse_bulk_string src = Ok (Some (x, n))" for x n
  proof -
    from bulk_complete [OF ok] obtain pos v where pv: "find_crlf src = Some pos" "parse_i64 (take pos src) = Some v"
      "v = -1 \<and> x = None \<and> n = pos + 2 \<or>
       0 \<le> v \<and> n = pos + 2 + nat v + 2 \<and> n \<le> length src \<and> src ! (pos + 2 + nat v) = 13 \<and>
       src ! (pos + 2 + nat v + 1) = 10 \<and> x = Some (take (nat v) (drop (pos + 2) src))" .
    have len: "pos + 2 \<le> length src" using pv(1) by (simp add: find_crlf_some)
    have "parse_bulk_string (take k src) = (if n \<le> k then Ok (Some (x, n)) else Ok None)" for k
    proof (cases "pos + 2 \<le> k")
      case True
      then have "find_crlf (take k src) = Some pos" "parse_i64 (take pos (take k src)) = Some v"
        using pv by (simp_all add: find_crlf_take min_def)
      then show ?thesis
        using pv(3) True len
        by (auto simp: parse_bulk_string_def Let_def min_def drop_take)
    next
      case False
      then have "find_crlf (take k src) = None" using pv(1) by (simp add: find_crlf_take)
      then show ?thesis using pv(3) False by (auto simp: parse_bulk_string_def)
    qed
    then show ?thesis using pv(3) len by auto
  qed
  ultimately show ?thesis unfolding settles_def by blast
qed

lemma after_marker_settles:
  assumes "settles p 0 rest" and f: "\<And>r. q (b # r) = after_marker f (p r)" and nil: "q [] = Ok None"
  shows "settles q 0 (b # rest)"
proof -
  note D = settlesD [OF assms(1)]
  have "q ((b # rest) @ more) = q (b # rest)" if "q (b # rest) \<noteq> Ok None" for more
    using that D(1) by (simp add: f after_marker_none)
  moreover have "n \<le> length (b # rest) \<and>
      (\<forall>k. q (take k (b # rest)) = (if n \<le> k then Ok (Some (x, n)) else Ok None))"
    if ok: "q (b # rest) = Ok (Some (x, n))" for x n
  proof -
    obtain y m where y: "p rest = Ok (Some (y, m))" "x = f y" "n = Suc m"
      using ok by (auto simp: f after_marker_ok)
    have "q (take k (b # rest)) = (if n \<le> k then Ok (Some (x, n)) else Ok None)" for k
    proof (cases k)
      case 0
      then show ?thesis using y by (simp add: nil)
    next
      case (Suc j)
      then show ?thesis using D(4) [OF y(1), of j] y by (simp add: f)
    qed
    then show ?thesis using D(3) [OF y(1)] y by simp
  qed
  ultimately show ?thesis unfolding settles_def by blast
qed

lemma parse_frame_nil: "parse_frame [] = Ok None"
  by (simp add: parse_frame.simps)

text \<open>
  A counted loop over an element parser: \<open>parse_array\<close> runs it over frames, \<open>parse_command\<close>
  over command arguments. The first locale only says how the loop unfolds, so that it also
  serves the mutually recursive frame parser; the second adds that the elements settle.
\<close>

locale element_loop =
  fixes elem :: "bytes \<Rightarrow> 'a parsed"
    and loop :: "nat \<Rightarrow> 'a list \<Rightarrow> nat \<Rightarrow> bytes \<Rightarrow> 'a list parsed"
  assumes elem_nil: "elem [] = Ok None"
    and loop_unfold: "loop n acc offset src =
      (if n = 0 then Ok (Some (acc, offset))
       else if offset \<ge> length src then Ok None
       else (case elem (drop offset src) of
               Ok (Some (e, consumed)) \<Rightarrow> loop (n - 1) (acc @ [e]) (offset + consumed) src
             | Ok None \<Rightarrow> Ok None
             | Err e \<Rightarrow> Err e
             | Panic m \<Rightarrow> Panic m))"
begin

lemma consumed_pos:
  assumes "settles elem 0 src" "elem src = Ok (Some (x, n))"
  shows "0 < n"
  using settlesD(4) [OF assms, of 0] by (simp add: elem_nil split: if_splits)

lemma loop_settles_step:
  assumes off: "offset \<le> length src"
    and frame: "n \<noteq> 0 \<Longrightarrow> offset < length src \<Longrightarrow> settles elem 0 (drop offset src)"
    and rest: "\<And>e c. n \<noteq> 0 \<Longrightarrow> offset < length src \<Longrightarrow> elem (drop offset src) = Ok (Some (e, c)) \<Longrightarrow>
      settles (loop (n - 1) (acc @ [e]) (offset + c)) (offset + c) src"
  shows "settles (loop n acc offset) offset src"
proof (cases "n = 0 \<or> offset = length src")
  case True
  then show ?thesis
    using off by (auto simp: settles_def loop_unfold [of n acc offset])
next
  case False
  then have n: "n \<noteq> 0" and lt: "offset < length src" using off by auto
  note F = settlesD [OF frame [OF n lt]]
  have unfold: "loop n acc offset s =
      (case elem (drop offset s) of
         Ok (Some (e, c)) \<Rightarrow> loop (n - 1) (acc @ [e]) (offset + c) s
       | Ok None \<Rightarrow> Ok None | Err e \<Rightarrow> Err e | Panic m \<Rightarrow> Panic m)" if "offset < length s" for s
    using n that by (simp add: loop_unfold [of n acc offset s])
  show ?thesis
  proof (cases "\<exists>e c. elem (drop offset src) = Ok (Some (e, c))")
    case True
    then obtain e c where ec: "elem (drop offset src) = Ok (Some (e, c))" by blast
    have c: "0 < c" using consumed_pos [OF frame [OF n lt] ec] .
    note R = settlesD [OF rest [OF n lt ec]]
    have src_eq: "loop n acc offset src = loop (n - 1) (acc @ [e]) (offset + c) src"
      using unfold [OF lt] ec by simp
    have "loop n acc offset (src @ more) = loop n acc offset src"
      if "loop n acc offset src \<noteq> Ok None" for more
      using that unfold [of "src @ more"] F(1) [of more] R(1) [of more] lt ec by (simp add: src_eq)
    moreover have "loop n acc offset (take k src) = (if m \<le> k then Ok (Some (x, m)) else Ok None)"
      if ok: "loop n acc offset src = Ok (Some (x, m))" and k: "offset \<le> k" for x m k
    proof -
      have m: "offset + c \<le> m" using R(2) ok by (simp add: src_eq)
      show ?thesis
      proof (cases "k = offset")
        case True
        then show ?thesis using n m c by (simp add: loop_unfold [of n acc offset])
      next
        case False
        then have "offset < length (take k src)" using k lt by simp
        moreover have "drop offset (take k src) = take (k - offset) (drop offset src)" by (simp add: drop_take)
        ultimately show ?thesis
          using unfold [of "take k src"] F(4) [OF ec, of "k - offset"] R(4) [of x m k] ok m k
          by (auto simp: src_eq)
      qed
    qed
    moreover have "offset \<le> m \<and> m \<le> length src"
      if "loop n acc offset src = Ok (Some (x, m))" for x m
      using that R(2,3) by (fastforce simp: src_eq)
    ultimately show ?thesis unfolding settles_def by blast
  next
    case False
    have "loop n acc offset (src @ more) = loop n acc offset src"
      if "loop n acc offset src \<noteq> Ok None" for more
      using that unfold [OF lt] unfold [of "src @ more"] F(1) [of more] lt False
      by (auto split: outcome.splits option.splits)
    moreover have "loop n acc offset src \<noteq> Ok (Some r)" for r
      using unfold [OF lt] False by (auto split: outcome.splits option.splits)
    ultimately show ?thesis unfolding settles_def by blast
  qed
qed

end

locale settling_loop = element_loop +
  assumes elem_settles: "settles elem 0 src"
begin

lemma loop_settles: "offset \<le> length src \<Longrightarrow> settles (loop n acc offset) offset src"
proof (induction n arbitrary: acc offset)
  case 0
  then show ?case by (rule loop_settles_step) simp_all
next
  case (Suc n)
  show ?case
  proof (rule loop_settles_step [OF Suc.prems elem_settles])
    fix e c
    assume "elem (drop offset src) = Ok (Some (e, c))"
    from settlesD(3) [OF elem_settles this] show
      "settles (loop (Suc n - 1) (acc @ [e]) (offset + c)) (offset + c) src"
      using Suc.IH Suc.prems by simp
  qed
qed

end

interpretation frames: element_loop parse_frame parse_elems
proof unfold_locales
  show "parse_frame [] = Ok None" by (rule parse_frame_nil)
qed (rule parse_elems.simps)

text \<open>The three parsers settle, by induction on their recursion.\<close>

lemma parsers_settle:
  "settles parse_frame 0 src" "settles parse_array 0 src'"
  "offset \<le> length src'' \<Longrightarrow> settles (parse_elems n frames offset) offset src''"
proof (induction src and src' and n frames offset src'' rule: parse_frame_parse_array_parse_elems.induct)
  case (1 src)
  show ?case
  proof (cases src)
    case Nil
    have "settles parse_frame 0 []" by (simp add: settles_def parse_frame_nil)
    then show ?thesis using Nil by simp
  next
    case (Cons b rest)
    consider "b = 43" | "b = 45" | "b = 58" | "b = 36" | "b = 95" | "b = 42"
      | "b \<notin> {43, 45, 58, 36, 95, 42}" by blast
    then show ?thesis
    proof cases
      case 1
      then show ?thesis unfolding Cons
        by (intro after_marker_settles [OF simple_string_settles]) (simp_all add: parse_frame.simps)
    next
      case 2
      then show ?thesis unfolding Cons
        by (intro after_marker_settles [OF simple_string_settles]) (simp_all add: parse_frame.simps)
    next
      case 3
      then show ?thesis unfolding Cons
        by (intro after_marker_settles [OF integer_settles]) (simp_all add: parse_frame.simps)
    next
      case 4
      then show ?thesis unfolding Cons
        by (intro after_marker_settles [OF bulk_settles]) (simp_all add: parse_frame.simps)
    next
      case 5
      then show ?thesis unfolding Cons
        by (intro after_marker_settles [OF null_settles]) (simp_all add: parse_frame.simps)
    next
      case 6
      have "settles parse_array 0 rest" using 1 [OF Cons] 6 by simp
      then show ?thesis unfolding Cons
        by (rule after_marker_settles) (simp_all add: parse_frame.simps 6)
    next
      case 7
      then show ?thesis by (simp add: settles_def Cons parse_frame.simps)
    qed
  qed
next
  case (2 src)
  show ?case
  proof (cases "find_crlf src")
    case None
    then show ?thesis by (simp add: settles_def parse_array.simps [of src])
  next
    case pos: (Some pos)
    then have len: "pos + 2 \<le> length src" by (simp add: find_crlf_some)
    have arr: "parse_array s = (case parse_i64 (take pos src) of None \<Rightarrow> Err InvalidInteger
        | Some count \<Rightarrow> if count < 0 then Ok (Some ([], pos + 2)) else parse_elems (nat count) [] (pos + 2) s)"
      if "find_crlf s = Some pos" "take pos s = take pos src" for s
      using that by (simp add: parse_array.simps [of s])
    have more: "find_crlf (src @ m) = Some pos" "take pos (src @ m) = take pos src" for m
      using pos len by (simp_all add: find_crlf_append)
    have short: "if pos + 2 \<le> k then find_crlf (take k src) = Some pos \<and> take pos (take k src) = take pos src
        else parse_array (take k src) = Ok None" for k
      using pos by (simp add: find_crlf_take min_def parse_array.simps [of "take k src"])
    show ?thesis
    proof (cases "\<exists>v. parse_i64 (take pos src) = Some v \<and> 0 \<le> v")
      case True
      then obtain v where v: "parse_i64 (take pos src) = Some v" "0 \<le> v" by blast
      note E = settlesD [OF 2 [OF pos v(1)]]
      have e: "parse_array s = parse_elems (nat v) [] (pos + 2) s"
        if "find_crlf s = Some pos" "take pos s = take pos src" for s
        using arr [OF that] v by simp
      have "parse_array (take k src) = (if n \<le> k then Ok (Some (x, n)) else Ok None)"
        if "parse_array src = Ok (Some (x, n))" for x n k
        using that short [of k] e [of "take k src"] e [OF pos refl] E(2,4) [of x n] v(2) len by (auto split: if_splits)
      with v(2) len E(1,3) e [OF pos refl] e [OF more] show ?thesis
        by (auto simp: settles_def)
    next
      case False
      define r where "r = parse_array src"
      have r: "r = Err InvalidInteger \<or> r = Ok (Some ([], pos + 2))"
        using False arr [OF pos refl] by (auto simp: r_def split: option.splits)
      have c: "parse_array s = r" if "find_crlf s = Some pos" "take pos s = take pos src" for s
        using False arr [OF that] arr [OF pos refl] by (auto simp: r_def split: option.splits)
      have "parse_array (take k src) = (if n \<le> k then Ok (Some (x, n)) else Ok None)"
        if "r = Ok (Some (x, n))" for x n k
        using that r short [of k] c [of "take k src"] by (auto split: if_splits)
      moreover have "parse_array (src @ m) = r" for m by (rule c [OF more])
      ultimately show ?thesis
        using r len by (auto simp: settles_def r_def [symmetric])
    qed
  qed
next
  case (3 n frames offset src)
  show ?case
  proof (rule frames.loop_settles_step [OF 3(3)])
    show "settles parse_frame 0 (drop offset src)" if "n \<noteq> 0" "offset < length src"
      using 3(1) that by simp
    show "settles (parse_elems (n - 1) (frames @ [e]) (offset + c)) (offset + c) src"
      if h: "n \<noteq> 0" "offset < length src" "parse_frame (drop offset src) = Ok (Some (e, c))" for e c
    proof -
      have f: "settles parse_frame 0 (drop offset src)" using 3(1) h by simp
      have "c \<le> length (drop offset src)" by (rule settlesD(3) [OF f h(3)])
      then have "offset + c \<le> length src" using h(2) by simp
      then show ?thesis using 3(2) [OF h(1) _ h(3) refl refl] h(2) by simp
    qed
  qed
qed

section \<open>Round trip\<close>

text \<open>The wire form of a frame, put together from the encoders of the code.\<close>

fun resp_bytes :: "Frame \<Rightarrow> bytes" where
  "resp_bytes (SimpleString s) = encode_simple_string [] s"
| "resp_bytes (Error e) = encode_error [] e"
| "resp_bytes (Integer n) = encode_integer [] n"
| "resp_bytes (BulkString d) = encode_bulk_string [] d"
| "resp_bytes Null = encode_null []"
| "resp_bytes (Array fs) = encode_array_header [] (length fs) @ concat (map resp_bytes fs)"

fun wire_ok :: "Frame \<Rightarrow> bool" where
  "wire_ok (SimpleString s) \<longleftrightarrow> no_crlf s"
| "wire_ok (Error e) \<longleftrightarrow> no_crlf e"
| "wire_ok (Integer n) \<longleftrightarrow> - (2 ^ 63) < n \<and> n < 2 ^ 63"
| "wire_ok (BulkString d) \<longleftrightarrow> length d < 2 ^ 63"
| "wire_ok Null \<longleftrightarrow> True"
| "wire_ok (Array fs) \<longleftrightarrow> length fs < 2 ^ 63 \<and> list_all wire_ok fs"

lemma write_usize_buf: "write_usize buf n = buf @ write_usize [] n"
  by (simp add: write_usize_def)

lemma write_int_buf: "write_int buf n = buf @ write_int [] n"
  by (simp add: write_int_def Let_def)

lemma parse_elems_encoded:
  assumes "\<And>f rest. f \<in> set fs \<Longrightarrow> parse_frame (resp_bytes f @ rest) = Ok (Some (f, length (resp_bytes f)))"
    and "length pre = offset"
  shows "parse_elems (length fs) frames offset (pre @ concat (map resp_bytes fs) @ rest) =
    Ok (Some (frames @ fs, offset + length (concat (map resp_bytes fs))))"
  using assms
proof (induction fs arbitrary: frames offset pre)
  case Nil
  then show ?case by (simp add: parse_elems.simps)
next
  case (Cons f fs)
  have one: "parse_frame (resp_bytes f @ concat (map resp_bytes fs) @ rest) = Ok (Some (f, length (resp_bytes f)))"
    using Cons.prems(1) by simp
  have "resp_bytes f \<noteq> []"
    by (cases f) (simp_all add: encode_simple_string_def encode_error_def encode_integer_def
        encode_bulk_string_def encode_null_def encode_array_header_def crlf_def)
  then have "offset < length (pre @ concat (map resp_bytes (f # fs)) @ rest)"
    using Cons.prems(2) by simp
  moreover have "drop offset (pre @ concat (map resp_bytes (f # fs)) @ rest) =
      resp_bytes f @ concat (map resp_bytes fs) @ rest"
    using Cons.prems(2) by simp
  ultimately have "parse_elems (length (f # fs)) frames offset (pre @ concat (map resp_bytes (f # fs)) @ rest) =
      parse_elems (length fs) (frames @ [f]) (offset + length (resp_bytes f))
        ((pre @ resp_bytes f) @ concat (map resp_bytes fs) @ rest)"
    using one by (subst parse_elems.simps) simp
  then show ?case
    using Cons.IH [of "pre @ resp_bytes f" "offset + length (resp_bytes f)" "frames @ [f]"] Cons.prems by simp
qed

lemma line_parse:
  assumes "n < 2 ^ 63"
  shows "find_crlf (write_usize [] n @ 13 # 10 # rest) = Some (length (write_usize [] n))"
    "parse_i64 (take (length (write_usize [] n)) (write_usize [] n @ 13 # 10 # rest)) = Some (int n)"
  using write_usize_parse [OF assms] find_crlf_line by simp_all

lemma parse_resp_bytes:
  "wire_ok f \<Longrightarrow> parse_frame (resp_bytes f @ rest) = Ok (Some (f, length (resp_bytes f)))"
proof (induction f arbitrary: rest)
  case (SimpleString s)
  then show ?case
    using find_crlf_line [of s rest]
    by (simp add: parse_frame.simps encode_simple_string_def crlf_def parse_simple_string_def)
next
  case (Error s)
  then show ?case
    using find_crlf_line [of s rest]
    by (simp add: parse_frame.simps encode_error_def crlf_def parse_simple_string_def)
next
  case (Integer n)
  then have n: "parse_i64 (write_int [] n) = Some n" "no_crlf (write_int [] n)"
    using write_int_parse by simp_all
  then show ?case
    using find_crlf_line [OF n(2), of rest]
    by (simp add: parse_frame.simps encode_integer_def crlf_def write_int_buf [of "[58]"] parse_integer_def)
next
  case (BulkString d)
  then have n: "length d < 2 ^ 63" by simp
  let ?w = "write_usize [] (length d)"
  have "parse_bulk_string (?w @ 13 # 10 # d @ 13 # 10 # rest) = Ok (Some (Some d, length ?w + 2 + length d + 2))"
    using line_parse [OF n, of "d @ 13 # 10 # rest"]
    by (simp add: parse_bulk_string_def Let_def nth_append)
  then show ?case
    by (simp add: parse_frame.simps encode_bulk_string_def crlf_def write_usize_buf [of "[36]"] bulk_frame_def)
next
  case Null
  have "find_crlf (45 # 49 # 13 # 10 # rest) = Some 2"
    using find_crlf_line [of "[45, 49]" rest] by (simp add: no_crlf_if_no_cr)
  moreover have "parse_i64 [45, 49] = Some (-1)"
    by (simp add: parse_i64_def is_digit_def)
  ultimately have "parse_bulk_string (45 # 49 # 13 # 10 # rest) = Ok (Some (None, 4))"
    by (simp add: parse_bulk_string_def)
  then show ?case
    by (simp add: parse_frame.simps encode_null_def ascii_def crlf_def bulk_frame_def)
next
  case (Array fs)
  then have n: "length fs < 2 ^ 63" and ok: "\<And>f. f \<in> set fs \<Longrightarrow> wire_ok f" by (simp_all add: list_all_iff)
  let ?w = "write_usize [] (length fs)" and ?b = "concat (map resp_bytes fs)"
  have "parse_elems (length fs) [] (length ?w + 2) ((?w @ [13, 10]) @ ?b @ rest) =
      Ok (Some ([] @ fs, length ?w + 2 + length ?b))"
    by (rule parse_elems_encoded) (use Array.IH ok in auto)
  then have "parse_array (?w @ 13 # 10 # ?b @ rest) = Ok (Some (fs, length ?w + 2 + length ?b))"
    using line_parse [OF n, of "?b @ rest"] by (simp add: parse_array.simps)
  then show ?case
    by (simp add: parse_frame.simps encode_array_header_def crlf_def write_usize_buf [of "[42]"])
qed

section \<open>Properties\<close>

text \<open>\<^bold>\<open>C36.\<close> Round trip of the RESP wire format. What the encoders write for a frame, followed by
any other bytes, is parsed back to that frame, and exactly the bytes written are consumed:
for strings without a line end inside, integers above the minimum, and nested arrays. The
minimum of \<open>i64\<close> is the exception: negating it wraps, the encoder writes a sign without digits,
and the parser refuses its own output.\<close>

theorem resp_roundtrip:
  "(wire_ok f \<longrightarrow> parse_frame (resp_bytes f @ rest) = Ok (Some (f, length (resp_bytes f)))) \<and>
   encode_integer [] (- (2 ^ 63)) = [58, 45, 13, 10] \<and>
   parse_frame (encode_integer [] (- (2 ^ 63))) = Err InvalidInteger"
proof -
  have enc: "encode_integer [] (- (2 ^ 63)) = [58, 45, 13, 10]"
    by (simp add: encode_integer_def write_int_def neg_i64_def crlf_def rev_digits.simps)
  have "find_crlf [45, 13, 10] = Some 1" by (simp add: find_crlf_def)
  then have "parse_frame [58, 45, 13, 10] = Err InvalidInteger"
    by (simp add: parse_frame.simps parse_integer_def parse_i64_def)
  then show ?thesis using parse_resp_bytes [of f rest] enc by simp
qed

theorem resp_roundtrip_witness:
  "parse_frame (resp_bytes (Array [Integer 7, BulkString [1, 2], Null]) @ [36]) =
     Ok (Some (Array [Integer 7, BulkString [1, 2], Null],
       length (resp_bytes (Array [Integer 7, BulkString [1, 2], Null]))))"
  using resp_roundtrip [of "Array [Integer 7, BulkString [1, 2], Null]" "[36]"]
  by (simp del: resp_bytes.simps)

end
