(* ===== verification/Command.thy ===== *)
theory Command
  imports Resp_Frame
begin

text \<open>
  \<open>crates/kachedb-proto-resp/src/command.rs\<close>: the commands of the server, the decoder of an
  argument list (\<open>from_raw_args\<close>) and the streaming wire parser (\<open>parse_command\<close>) with its
  inline fallback. Where the code parses an \<open>f32\<close> (the similarity threshold) the model keeps
  the text; \<open>None\<close> stands for the default 0.0. Products of \<open>u64\<close> wrap.
\<close>

section \<open>Commands\<close>

record BatchVectorItem =
  bv_id :: bytes
  bv_vector_bytes :: bytes
  bv_payload :: "bytes option"
  bv_ttl_sec :: "nat option"

datatype ClientSubcommand = SetName bytes | GetName | ClientId | ClientList | Unrecognized bytes

datatype Command =
    Ping "bytes option"
  | Get bytes
  | Set bytes bytes "u64 option"
  | MGet "bytes list"
  | Del "bytes list"
  | Exists "bytes list"
  | VAdd bytes bytes nat bytes "bytes option" "nat option" nat "bytes option"
  | VSearch bytes bytes nat "bytes option" nat
  | VAddBatch bytes "BatchVectorItem list"
  | VSearchBatch bytes "bytes list" nat "bytes option"
  | VDel bytes bytes
  | VStats bytes
  | Expire bytes int
  | PExpire bytes int
  | ExpireAt bytes int
  | PExpireAt bytes int
  | Ttl bytes
  | PTtl bytes
  | Persist bytes
  | MSet "(bytes \<times> bytes) list"
  | Incr bytes
  | Decr bytes
  | IncrBy bytes int
  | DecrBy bytes int
  | Append bytes bytes
  | Strlen bytes
  | Hello "int option" "(bytes \<times> bytes) option" "bytes option"
  | Client ClientSubcommand
  | Info "bytes option"
  | CommandDoc
  | VIndexCreate bytes nat "nat option" "nat option" "nat option" "bytes option" "bytes option"
  | VIndexDrop bytes
  | VIndexInfo bytes
  | BgRewriteAof
  | Auth "bytes option" bytes
  | DBSize
  | Type bytes
  | HSet bytes "(bytes \<times> bytes) list"
  | HGet bytes bytes
  | HDel bytes "bytes list"
  | HExists bytes bytes
  | HLen bytes
  | HGetAll bytes
  | FlushDb
  | FlushAll
  | Quit
  | Unknown bytes

type_synonym decoded = "(Command, RespError) outcome"

section \<open>Option loops\<close>

abbreviation is_cmd :: "bytes \<Rightarrow> string \<Rightarrow> bool" where
  "is_cmd b s \<equiv> eq_ignore_ascii_case b (ascii s)"

text \<open>\<open>.parse::<uN>().unwrap_or(d)\<close>.\<close>

definition unsigned_or :: "nat \<Rightarrow> nat \<Rightarrow> bytes \<Rightarrow> nat" where
  "unsigned_or w d b = (case parse_unsigned w b of Some n \<Rightarrow> n | None \<Rightarrow> d)"

text \<open>The \<open>while i < args.len()\<close> loops run over the arguments that are left.\<close>

fun set_options :: "u64 option \<Rightarrow> bytes list \<Rightarrow> u64 option" where
  "set_options ttl (opt # v # rest) =
     (if is_cmd opt ''EX'' then
        (let sec = unsigned_or 64 0 v
         in set_options (if sec > 0 then Some (of_nat sec * 1000) else ttl) rest)
      else if is_cmd opt ''PX'' then
        (let ms = unsigned_or 64 0 v in set_options (if ms > 0 then Some (of_nat ms) else ttl) rest)
      else set_options ttl (v # rest))"
| "set_options ttl _ = ttl"

fun vadd_options ::
    "bytes option \<times> nat option \<times> nat \<times> bytes option \<Rightarrow> bytes list \<Rightarrow> bytes option \<times> nat option \<times> nat \<times> bytes option" where
  "vadd_options (payload, ttl, tags, parent) (opt # v # rest) =
     (if is_cmd opt ''PAYLOAD'' then vadd_options (Some v, ttl, tags, parent) rest
      else if is_cmd opt ''EX'' then
        (let sec = unsigned_or 32 0 v
         in vadd_options (payload, if sec > 0 then Some sec else ttl, tags, parent) rest)
      else if is_cmd opt ''TAGS'' then vadd_options (payload, ttl, unsigned_or 64 0 v, parent) rest
      else if is_cmd opt ''PARENT'' then vadd_options (payload, ttl, tags, Some v) rest
      else vadd_options (payload, ttl, tags, parent) (v # rest))"
| "vadd_options acc _ = acc"

fun vsearch_options :: "nat \<times> bytes option \<times> nat \<Rightarrow> bytes list \<Rightarrow> nat \<times> bytes option \<times> nat" where
  "vsearch_options (k, thr, flt) (opt # v # rest) =
     (if is_cmd opt ''TOPK'' then vsearch_options (max (unsigned_or 64 1 v) 1, thr, flt) rest
      else if is_cmd opt ''THRESHOLD'' then vsearch_options (k, Some v, flt) rest
      else if is_cmd opt ''FILTER'' then vsearch_options (k, thr, unsigned_or 64 0 v) rest
      else vsearch_options (k, thr, flt) (v # rest))"
| "vsearch_options acc _ = acc"

definition batch_item :: "bytes \<Rightarrow> bytes \<Rightarrow> bytes \<Rightarrow> nat option \<Rightarrow> BatchVectorItem" where
  "batch_item i vec payload_raw ttl =
     \<lparr>bv_id = i, bv_vector_bytes = vec,
      bv_payload = (if payload_raw = [] \<or> payload_raw = ascii ''-'' \<or> payload_raw = ascii ''nil''
                    then None else Some payload_raw),
      bv_ttl_sec = ttl\<rparr>"

fun vadd_batch_items :: "bytes list \<Rightarrow> BatchVectorItem list" where
  "vadd_batch_items (i # vec # raw # rest) =
     (case rest of
        ex # v # tail \<Rightarrow>
          if is_cmd ex ''EX'' then batch_item i vec raw (parse_unsigned 32 v) # vadd_batch_items tail
          else batch_item i vec raw None # vadd_batch_items rest
      | _ \<Rightarrow> batch_item i vec raw None # vadd_batch_items rest)"
| "vadd_batch_items _ = []"

fun vsearch_batch_args ::
    "bytes list \<times> nat \<times> bytes option \<Rightarrow> bytes list \<Rightarrow> bytes list \<times> nat \<times> bytes option" where
  "vsearch_batch_args (qs, k, thr) (a # v # rest) =
     (if is_cmd a ''TOPK'' then vsearch_batch_args (qs, max (unsigned_or 64 1 v) 1, thr) rest
      else if is_cmd a ''THRESHOLD'' then vsearch_batch_args (qs, k, Some v) rest
      else vsearch_batch_args (qs @ [a], k, thr) (v # rest))"
| "vsearch_batch_args (qs, k, thr) [a] = (qs @ [a], k, thr)"
| "vsearch_batch_args acc [] = acc"

record vindex_options =
  vi_dim :: "nat option"
  vi_m :: "nat option"
  vi_ef_construction :: "nat option"
  vi_ef_search :: "nat option"
  vi_metric :: "bytes option"
  vi_quantization :: "bytes option"

fun vindex_create_options :: "vindex_options \<Rightarrow> bytes list \<Rightarrow> vindex_options" where
  "vindex_create_options opts (opt # v # rest) =
     (if is_cmd opt ''DIM'' then vindex_create_options (opts\<lparr>vi_dim := parse_unsigned 64 v\<rparr>) rest
      else if is_cmd opt ''M'' then vindex_create_options (opts\<lparr>vi_m := parse_unsigned 64 v\<rparr>) rest
      else if is_cmd opt ''EF_CONSTRUCTION'' then
        vindex_create_options (opts\<lparr>vi_ef_construction := parse_unsigned 64 v\<rparr>) rest
      else if is_cmd opt ''EF_SEARCH'' then
        vindex_create_options (opts\<lparr>vi_ef_search := parse_unsigned 64 v\<rparr>) rest
      else if is_cmd opt ''METRIC'' then vindex_create_options (opts\<lparr>vi_metric := Some v\<rparr>) rest
      else if is_cmd opt ''QUANTIZATION'' \<or> is_cmd opt ''QUANT'' then
        vindex_create_options (opts\<lparr>vi_quantization := Some v\<rparr>) rest
      else vindex_create_options opts (v # rest))"
| "vindex_create_options opts _ = opts"

fun hello_options ::
    "(bytes \<times> bytes) option \<times> bytes option \<Rightarrow> bytes list \<Rightarrow>
     ((bytes \<times> bytes) option \<times> bytes option, RespError) outcome" where
  "hello_options acc [] = Ok acc"
| "hello_options (auth, setname) (a # rest) =
     (if is_cmd a ''AUTH'' then
        (case rest of
           u # p # rest' \<Rightarrow> hello_options (Some (u, p), setname) rest'
         | _ \<Rightarrow> Err (WrongArgumentCount ''HELLO AUTH''))
      else if is_cmd a ''SETNAME'' then
        (case rest of
           n # rest' \<Rightarrow> hello_options (auth, Some n) rest'
         | _ \<Rightarrow> Err (WrongArgumentCount ''HELLO SETNAME''))
      else hello_options (auth, setname) rest)"

fun mset_pairs :: "bytes list \<Rightarrow> (bytes \<times> bytes) list" where
  "mset_pairs (k # v # rest) = (k, v) # mset_pairs rest"
| "mset_pairs _ = []"

definition max_hash_field :: nat where "max_hash_field = 4096"

fun hset_pairs :: "(bytes \<times> bytes) list \<Rightarrow> bytes list \<Rightarrow> ((bytes \<times> bytes) list, RespError) outcome" where
  "hset_pairs pairs (field # val # rest) =
     (if length field > max_hash_field \<or> length val > max_hash_field
      then Err (FrameTooLarge (max (length field) (length val)))
      else hset_pairs (pairs @ [(field, val)]) rest)"
| "hset_pairs pairs _ = Ok pairs"

section \<open>Decoding one command\<close>

text \<open>The decoders below get the whole argument list; its head is the command name.\<close>

definition wrong_args :: "string \<Rightarrow> decoded" where
  "wrong_args name = Err (WrongArgumentCount name)"

text \<open>\<open>if args.len() != 2\<close>, \<open>if args.len() != 3\<close>, and the commands that take a list of keys.\<close>

fun one_arg :: "string \<Rightarrow> (bytes \<Rightarrow> Command) \<Rightarrow> bytes list \<Rightarrow> decoded" where
  "one_arg name f [_, a] = Ok (f a)"
| "one_arg name f _ = wrong_args name"

fun two_args :: "string \<Rightarrow> (bytes \<Rightarrow> bytes \<Rightarrow> Command) \<Rightarrow> bytes list \<Rightarrow> decoded" where
  "two_args name f [_, a, b] = Ok (f a b)"
| "two_args name f _ = wrong_args name"

fun key_and_int :: "string \<Rightarrow> (bytes \<Rightarrow> int \<Rightarrow> Command) \<Rightarrow> bytes list \<Rightarrow> decoded" where
  "key_and_int name f [_, key, n] =
     (case parse_i64 n of Some v \<Rightarrow> Ok (f key v) | None \<Rightarrow> Err InvalidInteger)"
| "key_and_int name f _ = wrong_args name"

fun key_list :: "string \<Rightarrow> (bytes list \<Rightarrow> Command) \<Rightarrow> bytes list \<Rightarrow> decoded" where
  "key_list name f (_ # k # ks) = Ok (f (k # ks))"
| "key_list name f _ = wrong_args name"

fun raw_set :: "bytes list \<Rightarrow> decoded" where
  "raw_set (_ # key # val # opts) = Ok (Set key val (set_options None opts))"
| "raw_set _ = wrong_args ''SET''"

definition raw_ping :: "bytes list \<Rightarrow> decoded" where
  "raw_ping args = Ok (Ping (if length args > 1 then Some (args ! 1) else None))"

fun raw_vadd :: "bytes list \<Rightarrow> decoded" where
  "raw_vadd (_ # index # i # dim_str # vec # opts) =
     (case parse_unsigned 64 dim_str of
        None \<Rightarrow> Err InvalidInteger
      | Some dim \<Rightarrow>
          (case vadd_options (None, None, 0, None) opts of
             (payload, ttl, tags, parent) \<Rightarrow> Ok (VAdd index i dim vec payload ttl tags parent)))"
| "raw_vadd _ = wrong_args ''VADD''"

fun raw_vsearch :: "bytes list \<Rightarrow> decoded" where
  "raw_vsearch (_ # index # query # opts) =
     (case vsearch_options (1, None, 0) opts of
        (k, thr, flt) \<Rightarrow> Ok (VSearch index query k thr flt))"
| "raw_vsearch _ = wrong_args ''VSEARCH''"

definition raw_vadd_batch :: "bytes list \<Rightarrow> decoded" where
  "raw_vadd_batch args =
     (if length args < 5 then wrong_args ''VADD_BATCH''
      else Ok (VAddBatch (args ! 1) (vadd_batch_items (drop 2 args))))"

definition raw_vsearch_batch :: "bytes list \<Rightarrow> decoded" where
  "raw_vsearch_batch args =
     (if length args < 3 then wrong_args ''VSEARCH_BATCH''
      else (case vsearch_batch_args ([], 1, None) (drop 2 args) of
              (qs, k, thr) \<Rightarrow> Ok (VSearchBatch (args ! 1) qs k thr)))"

definition raw_vindex_create :: "bytes list \<Rightarrow> decoded" where
  "raw_vindex_create args =
     (if length args < 4 then wrong_args ''VINDEX CREATE''
      else (let opts = vindex_create_options
                  \<lparr>vi_dim = None, vi_m = None, vi_ef_construction = None, vi_ef_search = None,
                   vi_metric = None, vi_quantization = None\<rparr> (drop 3 args)
            in case vi_dim opts of
                 None \<Rightarrow> wrong_args ''VINDEX CREATE requires DIM <dimension>''
               | Some dim \<Rightarrow> Ok (VIndexCreate (args ! 2) dim (vi_m opts) (vi_ef_construction opts)
                                 (vi_ef_search opts) (vi_metric opts) (vi_quantization opts))))"

fun raw_vindex :: "bytes list \<Rightarrow> decoded" where
  "raw_vindex (cmd # sub # rest) =
     (if is_cmd sub ''CREATE'' then raw_vindex_create (cmd # sub # rest)
      else if is_cmd sub ''DROP'' then
        (case rest of [name] \<Rightarrow> Ok (VIndexDrop name) | _ \<Rightarrow> wrong_args ''VINDEX DROP'')
      else if is_cmd sub ''INFO'' then
        (case rest of [name] \<Rightarrow> Ok (VIndexInfo name) | _ \<Rightarrow> wrong_args ''VINDEX INFO'')
      else Ok (Unknown cmd))"
| "raw_vindex _ = wrong_args ''VINDEX''"

fun raw_auth :: "bytes list \<Rightarrow> decoded" where
  "raw_auth [_, password] = Ok (Auth None password)"
| "raw_auth (_ # username # password # _) = Ok (Auth (Some username) password)"
| "raw_auth _ = wrong_args ''AUTH''"

definition raw_mset :: "bytes list \<Rightarrow> decoded" where
  "raw_mset args =
     (if length args < 3 \<or> (length args - 1) mod 2 \<noteq> 0 then wrong_args ''MSET''
      else Ok (MSet (mset_pairs (tl args))))"

definition raw_hello :: "bytes list \<Rightarrow> decoded" where
  "raw_hello args =
     (let protover = (case tl args of v # _ \<Rightarrow> parse_i64 v | [] \<Rightarrow> None);
          rest = (if protover = None then tl args else drop 2 args)
      in and_then (hello_options (None, None) rest)
           (\<lambda>(auth, setname). Ok (Hello protover auth setname)))"

fun raw_client :: "bytes list \<Rightarrow> decoded" where
  "raw_client (_ # sub # rest) =
     (if is_cmd sub ''SETNAME'' then
        (case rest of [name] \<Rightarrow> Ok (Client (SetName name)) | _ \<Rightarrow> wrong_args ''CLIENT SETNAME'')
      else if is_cmd sub ''GETNAME'' then Ok (Client GetName)
      else if is_cmd sub ''ID'' then Ok (Client ClientId)
      else if is_cmd sub ''LIST'' then Ok (Client ClientList)
      else Ok (Client (Unrecognized sub)))"
| "raw_client _ = wrong_args ''CLIENT''"

definition raw_info :: "bytes list \<Rightarrow> decoded" where
  "raw_info args = Ok (Info (if length args \<ge> 2 then Some (args ! 1) else None))"

definition raw_hset :: "bytes list \<Rightarrow> decoded" where
  "raw_hset args =
     (if length args < 4 \<or> (length args - 2) mod 2 \<noteq> 0 then wrong_args ''HSET''
      else and_then (hset_pairs [] (drop 2 args)) (\<lambda>pairs. Ok (HSet (args ! 1) pairs)))"

fun raw_hdel :: "bytes list \<Rightarrow> decoded" where
  "raw_hdel (_ # key # f # fs) = Ok (HDel key (f # fs))"
| "raw_hdel _ = wrong_args ''HDEL''"

section \<open>Dispatch\<close>

text \<open>
  The \<open>if / else if\<close> chain of \<open>from_raw_args\<close>, in the order of the source and cut into
  segments: each segment ends in the next one.
\<close>

definition raw_hash_commands :: "bytes list \<Rightarrow> decoded" where
  "raw_hash_commands args =
     (let cmd = args ! 0 in
      if is_cmd cmd ''HSET'' then raw_hset args
      else if is_cmd cmd ''HGET'' then two_args ''HGET'' HGet args
      else if is_cmd cmd ''HDEL'' then raw_hdel args
      else if is_cmd cmd ''HEXISTS'' then two_args ''HEXISTS'' HExists args
      else if is_cmd cmd ''HLEN'' then one_arg ''HLEN'' HLen args
      else if is_cmd cmd ''HGETALL'' then one_arg ''HGETALL'' HGetAll args
      else if is_cmd cmd ''FLUSHDB'' then Ok FlushDb
      else if is_cmd cmd ''FLUSHALL'' then Ok FlushAll
      else if is_cmd cmd ''COMMAND'' then Ok CommandDoc
      else if is_cmd cmd ''QUIT'' then Ok Quit
      else Ok (Unknown cmd))"

definition raw_session_commands :: "bytes list \<Rightarrow> decoded" where
  "raw_session_commands args =
     (let cmd = args ! 0 in
      if is_cmd cmd ''HELLO'' then raw_hello args
      else if is_cmd cmd ''CLIENT'' then raw_client args
      else if is_cmd cmd ''INFO'' then raw_info args
      else if is_cmd cmd ''DBSIZE'' then Ok DBSize
      else if is_cmd cmd ''TYPE'' then one_arg ''TYPE'' Type args
      else raw_hash_commands args)"

definition raw_string_commands :: "bytes list \<Rightarrow> decoded" where
  "raw_string_commands args =
     (let cmd = args ! 0 in
      if is_cmd cmd ''MSET'' then raw_mset args
      else if is_cmd cmd ''INCR'' then one_arg ''INCR'' Incr args
      else if is_cmd cmd ''DECR'' then one_arg ''DECR'' Decr args
      else if is_cmd cmd ''INCRBY'' then key_and_int ''INCRBY'' IncrBy args
      else if is_cmd cmd ''DECRBY'' then key_and_int ''DECRBY'' DecrBy args
      else if is_cmd cmd ''APPEND'' then two_args ''APPEND'' Append args
      else if is_cmd cmd ''STRLEN'' then one_arg ''STRLEN'' Strlen args
      else raw_session_commands args)"

definition raw_expiry_commands :: "bytes list \<Rightarrow> decoded" where
  "raw_expiry_commands args =
     (let cmd = args ! 0 in
      if is_cmd cmd ''BGREWRITEAOF'' then Ok BgRewriteAof
      else if is_cmd cmd ''AUTH'' then raw_auth args
      else if is_cmd cmd ''EXPIRE'' then key_and_int ''EXPIRE'' Expire args
      else if is_cmd cmd ''PEXPIRE'' then key_and_int ''PEXPIRE'' PExpire args
      else if is_cmd cmd ''EXPIREAT'' then key_and_int ''EXPIREAT'' ExpireAt args
      else if is_cmd cmd ''PEXPIREAT'' then key_and_int ''PEXPIREAT'' PExpireAt args
      else if is_cmd cmd ''TTL'' then one_arg ''TTL'' Ttl args
      else if is_cmd cmd ''PTTL'' then one_arg ''PTTL'' PTtl args
      else if is_cmd cmd ''PERSIST'' then one_arg ''PERSIST'' Persist args
      else raw_string_commands args)"

definition raw_vector_commands :: "bytes list \<Rightarrow> decoded" where
  "raw_vector_commands args =
     (let cmd = args ! 0 in
      if is_cmd cmd ''VADD'' then raw_vadd args
      else if is_cmd cmd ''VSEARCH'' then raw_vsearch args
      else if is_cmd cmd ''VADD_BATCH'' then raw_vadd_batch args
      else if is_cmd cmd ''VSEARCH_BATCH'' then raw_vsearch_batch args
      else if is_cmd cmd ''VDEL'' then two_args ''VDEL'' VDel args
      else if is_cmd cmd ''VSTATS'' then one_arg ''VSTATS'' VStats args
      else if is_cmd cmd ''VINDEX'' then raw_vindex args
      else raw_expiry_commands args)"

definition from_raw_args :: "bytes list \<Rightarrow> decoded" where
  "from_raw_args args =
     (if args = [] then Err EmptyCommand
      else (let cmd = args ! 0 in
        if is_cmd cmd ''GET'' then one_arg ''GET'' Get args
        else if is_cmd cmd ''SET'' then raw_set args
        else if is_cmd cmd ''PING'' then raw_ping args
        else if is_cmd cmd ''MGET'' then key_list ''MGET'' MGet args
        else if is_cmd cmd ''DEL'' then key_list ''DEL'' Del args
        else if is_cmd cmd ''EXISTS'' then key_list ''EXISTS'' Exists args
        else raw_vector_commands args))"

lemmas raw_dispatch = from_raw_args_def raw_vector_commands_def raw_expiry_commands_def
  raw_string_commands_def raw_session_commands_def raw_hash_commands_def

end
