(* ===== verification/Command_Frame.thy ===== *)
theory Command_Frame
  imports Command_Parse
begin

text \<open>
  \<open>Command::from_frame\<close> of \<open>command.rs\<close>: the decoder of a parsed frame. It repeats the chain of
  \<open>from_raw_args\<close> on frames, where an argument may also be a null, an integer, an error or an
  array. \<open>Command_Agree\<close> compares the two decoders.
\<close>

section \<open>Arguments of a frame\<close>

fun extract_bulk_bytes :: "Frame \<Rightarrow> (bytes option, RespError) outcome" where
  "extract_bulk_bytes (BulkString b) = Ok (Some b)"
| "extract_bulk_bytes (SimpleString b) = Ok (Some b)"
| "extract_bulk_bytes Null = Ok None"
| "extract_bulk_bytes _ = Err (InvalidTypeMarker 63)"

fun extract_required_bytes :: "Frame \<Rightarrow> string \<Rightarrow> (bytes, RespError) outcome" where
  "extract_required_bytes (BulkString b) cmd = Ok b"
| "extract_required_bytes (SimpleString b) cmd = Ok b"
| "extract_required_bytes _ cmd = Err (WrongArgumentCount cmd)"

text \<open>\<open>if let Ok(b) = extract_required_bytes(f, ..)\<close>, and the loop that pushes one per frame.\<close>

abbreviation arg_text :: "Frame \<Rightarrow> bytes option" where
  "arg_text f \<equiv> ok_of (extract_required_bytes f [])"

fun extract_all :: "string \<Rightarrow> bytes list \<Rightarrow> Frame list \<Rightarrow> (bytes list, RespError) outcome" where
  "extract_all cmd acc [] = Ok acc"
| "extract_all cmd acc (f # fs) =
     and_then (extract_required_bytes f cmd) (\<lambda>b. extract_all cmd (acc @ [b]) fs)"

section \<open>Option loops\<close>

fun frame_set_options :: "u64 option \<Rightarrow> Frame list \<Rightarrow> u64 option" where
  "frame_set_options ttl (f # v # rest) =
     (case arg_text f of
        None \<Rightarrow> frame_set_options ttl (v # rest)
      | Some opt \<Rightarrow>
          if is_cmd opt ''EX'' then
            frame_set_options
              (case arg_text v of
                 Some b \<Rightarrow> (let sec = unsigned_or 64 0 b in if sec > 0 then Some (of_nat sec * 1000) else ttl)
               | None \<Rightarrow> ttl) rest
          else if is_cmd opt ''PX'' then
            frame_set_options
              (case arg_text v of
                 Some b \<Rightarrow> (let ms = unsigned_or 64 0 b in if ms > 0 then Some (of_nat ms) else ttl)
               | None \<Rightarrow> ttl) rest
          else frame_set_options ttl (v # rest))"
| "frame_set_options ttl _ = ttl"

fun frame_vadd_options ::
    "bytes option \<times> nat option \<times> nat \<times> bytes option \<Rightarrow> Frame list \<Rightarrow> bytes option \<times> nat option \<times> nat \<times> bytes option" where
  "frame_vadd_options (payload, ttl, tags, parent) (f # v # rest) =
     (case arg_text f of
        None \<Rightarrow> frame_vadd_options (payload, ttl, tags, parent) (v # rest)
      | Some opt \<Rightarrow>
          if is_cmd opt ''PAYLOAD'' then
            frame_vadd_options (case arg_text v of Some p \<Rightarrow> Some p | None \<Rightarrow> payload, ttl, tags, parent) rest
          else if is_cmd opt ''EX'' then
            frame_vadd_options
              (payload,
               case arg_text v of
                 Some b \<Rightarrow> (let sec = unsigned_or 32 0 b in if sec > 0 then Some sec else ttl)
               | None \<Rightarrow> ttl, tags, parent) rest
          else if is_cmd opt ''TAGS'' then
            frame_vadd_options
              (payload, ttl, case arg_text v of Some b \<Rightarrow> unsigned_or 64 0 b | None \<Rightarrow> tags, parent) rest
          else if is_cmd opt ''PARENT'' then
            frame_vadd_options (payload, ttl, tags, case arg_text v of Some p \<Rightarrow> Some p | None \<Rightarrow> parent) rest
          else frame_vadd_options (payload, ttl, tags, parent) (v # rest))"
| "frame_vadd_options acc _ = acc"

fun frame_vsearch_options :: "nat \<times> bytes option \<times> nat \<Rightarrow> Frame list \<Rightarrow> nat \<times> bytes option \<times> nat" where
  "frame_vsearch_options (k, thr, flt) (f # v # rest) =
     (case arg_text f of
        None \<Rightarrow> frame_vsearch_options (k, thr, flt) (v # rest)
      | Some opt \<Rightarrow>
          if is_cmd opt ''TOPK'' then
            frame_vsearch_options
              (case arg_text v of Some b \<Rightarrow> max (unsigned_or 64 1 b) 1 | None \<Rightarrow> k, thr, flt) rest
          else if is_cmd opt ''THRESHOLD'' then
            frame_vsearch_options (k, case arg_text v of Some b \<Rightarrow> Some b | None \<Rightarrow> thr, flt) rest
          else if is_cmd opt ''FILTER'' then
            frame_vsearch_options (k, thr, case arg_text v of Some b \<Rightarrow> unsigned_or 64 0 b | None \<Rightarrow> flt) rest
          else frame_vsearch_options (k, thr, flt) (v # rest))"
| "frame_vsearch_options acc _ = acc"

fun frame_batch_items ::
    "BatchVectorItem list \<Rightarrow> Frame list \<Rightarrow> (BatchVectorItem list, RespError) outcome" where
  "frame_batch_items items (i # vec # raw # rest) =
     and_then (extract_required_bytes i ''VADD_BATCH'') (\<lambda>ib.
     and_then (extract_required_bytes vec ''VADD_BATCH'') (\<lambda>vb.
     and_then (extract_required_bytes raw ''VADD_BATCH'') (\<lambda>pb.
       case rest of
         ex # v # tail \<Rightarrow>
           (case (arg_text ex, arg_text v) of
              (Some opt, Some b) \<Rightarrow>
                if is_cmd opt ''EX''
                then frame_batch_items (items @ [batch_item ib vb pb (parse_unsigned 32 b)]) tail
                else frame_batch_items (items @ [batch_item ib vb pb None]) rest
            | _ \<Rightarrow> frame_batch_items (items @ [batch_item ib vb pb None]) rest)
       | _ \<Rightarrow> frame_batch_items (items @ [batch_item ib vb pb None]) rest)))"
| "frame_batch_items items _ = Ok items"

fun frame_vsearch_batch_args ::
    "bytes list \<times> nat \<times> bytes option \<Rightarrow> Frame list \<Rightarrow> bytes list \<times> nat \<times> bytes option" where
  "frame_vsearch_batch_args (qs, k, thr) (f # v # rest) =
     (case arg_text f of
        None \<Rightarrow> frame_vsearch_batch_args (qs, k, thr) (v # rest)
      | Some a \<Rightarrow>
          if is_cmd a ''TOPK'' then
            frame_vsearch_batch_args
              (qs, case arg_text v of Some b \<Rightarrow> max (unsigned_or 64 1 b) 1 | None \<Rightarrow> k, thr) rest
          else if is_cmd a ''THRESHOLD'' then
            frame_vsearch_batch_args (qs, k, case arg_text v of Some b \<Rightarrow> Some b | None \<Rightarrow> thr) rest
          else frame_vsearch_batch_args (qs @ [a], k, thr) (v # rest))"
| "frame_vsearch_batch_args (qs, k, thr) [f] =
     (case arg_text f of Some a \<Rightarrow> (qs @ [a], k, thr) | None \<Rightarrow> (qs, k, thr))"
| "frame_vsearch_batch_args acc [] = acc"

definition or_keep :: "('a \<Rightarrow> 'b) \<Rightarrow> 'b \<Rightarrow> 'a option \<Rightarrow> 'b" where
  "or_keep f old new = (case new of Some x \<Rightarrow> f x | None \<Rightarrow> old)"

fun frame_vindex_create_options :: "vindex_options \<Rightarrow> Frame list \<Rightarrow> vindex_options" where
  "frame_vindex_create_options opts (f # v # rest) =
     (case arg_text f of
        None \<Rightarrow> frame_vindex_create_options opts (v # rest)
      | Some opt \<Rightarrow>
          if is_cmd opt ''DIM'' then frame_vindex_create_options
            (opts\<lparr>vi_dim := or_keep (parse_unsigned 64) (vi_dim opts) (arg_text v)\<rparr>) rest
          else if is_cmd opt ''M'' then frame_vindex_create_options
            (opts\<lparr>vi_m := or_keep (parse_unsigned 64) (vi_m opts) (arg_text v)\<rparr>) rest
          else if is_cmd opt ''EF_CONSTRUCTION'' then frame_vindex_create_options
            (opts\<lparr>vi_ef_construction := or_keep (parse_unsigned 64) (vi_ef_construction opts) (arg_text v)\<rparr>) rest
          else if is_cmd opt ''EF_SEARCH'' then frame_vindex_create_options
            (opts\<lparr>vi_ef_search := or_keep (parse_unsigned 64) (vi_ef_search opts) (arg_text v)\<rparr>) rest
          else if is_cmd opt ''METRIC'' then
            frame_vindex_create_options (opts\<lparr>vi_metric := arg_text v\<rparr>) rest
          else if is_cmd opt ''QUANTIZATION'' \<or> is_cmd opt ''QUANT'' then
            frame_vindex_create_options (opts\<lparr>vi_quantization := arg_text v\<rparr>) rest
          else frame_vindex_create_options opts (v # rest))"
| "frame_vindex_create_options opts _ = opts"

fun frame_hello_options ::
    "(bytes \<times> bytes) option \<times> bytes option \<Rightarrow> Frame list \<Rightarrow>
     ((bytes \<times> bytes) option \<times> bytes option, RespError) outcome" where
  "frame_hello_options acc [] = Ok acc"
| "frame_hello_options (auth, setname) (f # rest) =
     (case arg_text f of
        None \<Rightarrow> frame_hello_options (auth, setname) rest
      | Some a \<Rightarrow>
          if is_cmd a ''AUTH'' then
            (case rest of
               u # p # rest' \<Rightarrow>
                 and_then (extract_required_bytes u ''HELLO AUTH'') (\<lambda>ub.
                 and_then (extract_required_bytes p ''HELLO AUTH'') (\<lambda>pb.
                   frame_hello_options (Some (ub, pb), setname) rest'))
             | _ \<Rightarrow> Err (WrongArgumentCount ''HELLO AUTH''))
          else if is_cmd a ''SETNAME'' then
            (case rest of
               n # rest' \<Rightarrow>
                 and_then (extract_required_bytes n ''HELLO SETNAME'') (\<lambda>nb.
                   frame_hello_options (auth, Some nb) rest')
             | _ \<Rightarrow> Err (WrongArgumentCount ''HELLO SETNAME''))
          else frame_hello_options (auth, setname) rest)"

fun frame_mset_pairs ::
    "(bytes \<times> bytes) list \<Rightarrow> Frame list \<Rightarrow> ((bytes \<times> bytes) list, RespError) outcome" where
  "frame_mset_pairs pairs (k # v # rest) =
     and_then (extract_required_bytes k ''MSET'') (\<lambda>kb.
     and_then (extract_required_bytes v ''MSET'') (\<lambda>vb.
       frame_mset_pairs (pairs @ [(kb, vb)]) rest))"
| "frame_mset_pairs pairs _ = Ok pairs"

fun frame_hset_pairs ::
    "(bytes \<times> bytes) list \<Rightarrow> Frame list \<Rightarrow> ((bytes \<times> bytes) list, RespError) outcome" where
  "frame_hset_pairs pairs (k # v # rest) =
     and_then (extract_required_bytes k ''HSET'') (\<lambda>field.
     and_then (extract_required_bytes v ''HSET'') (\<lambda>val.
       if length field > max_hash_field \<or> length val > max_hash_field
       then Err (FrameTooLarge (max (length field) (length val)))
       else frame_hset_pairs (pairs @ [(field, val)]) rest))"
| "frame_hset_pairs pairs _ = Ok pairs"

section \<open>Decoding one command\<close>

fun frame_one :: "string \<Rightarrow> (bytes \<Rightarrow> Command) \<Rightarrow> Frame list \<Rightarrow> decoded" where
  "frame_one name f [_, a] = and_then (extract_required_bytes a name) (\<lambda>x. Ok (f x))"
| "frame_one name f _ = wrong_args name"

fun frame_two :: "string \<Rightarrow> (bytes \<Rightarrow> bytes \<Rightarrow> Command) \<Rightarrow> Frame list \<Rightarrow> decoded" where
  "frame_two name f [_, a, b] =
     and_then (extract_required_bytes a name) (\<lambda>x.
     and_then (extract_required_bytes b name) (\<lambda>y. Ok (f x y)))"
| "frame_two name f _ = wrong_args name"

fun frame_key_int :: "string \<Rightarrow> (bytes \<Rightarrow> int \<Rightarrow> Command) \<Rightarrow> Frame list \<Rightarrow> decoded" where
  "frame_key_int name f [_, a, b] =
     and_then (extract_required_bytes a name) (\<lambda>key.
     and_then (extract_required_bytes b name) (\<lambda>n.
       case parse_i64 n of Some v \<Rightarrow> Ok (f key v) | None \<Rightarrow> Err InvalidInteger))"
| "frame_key_int name f _ = wrong_args name"

fun frame_keys :: "string \<Rightarrow> (bytes list \<Rightarrow> Command) \<Rightarrow> Frame list \<Rightarrow> decoded" where
  "frame_keys name f (_ # k # ks) = and_then (extract_all name [] (k # ks)) (\<lambda>xs. Ok (f xs))"
| "frame_keys name f _ = wrong_args name"

definition frame_ping :: "Frame list \<Rightarrow> decoded" where
  "frame_ping args =
     (if length args > 1 then and_then (extract_bulk_bytes (args ! 1)) (\<lambda>m. Ok (Ping m))
      else Ok (Ping None))"

fun frame_set :: "Frame list \<Rightarrow> decoded" where
  "frame_set (_ # k # v # opts) =
     and_then (extract_required_bytes k ''SET'') (\<lambda>key.
     and_then (extract_required_bytes v ''SET'') (\<lambda>val.
       Ok (Set key val (frame_set_options None opts))))"
| "frame_set _ = wrong_args ''SET''"

fun frame_vadd :: "Frame list \<Rightarrow> decoded" where
  "frame_vadd (_ # index # i # dim # vec # opts) =
     and_then (extract_required_bytes index ''VADD'') (\<lambda>index.
     and_then (extract_required_bytes i ''VADD'') (\<lambda>i.
     and_then (extract_required_bytes dim ''VADD'') (\<lambda>dim_str.
       case parse_unsigned 64 dim_str of
         None \<Rightarrow> Err InvalidInteger
       | Some dim \<Rightarrow>
           and_then (extract_required_bytes vec ''VADD'') (\<lambda>vec.
             case frame_vadd_options (None, None, 0, None) opts of
               (payload, ttl, tags, parent) \<Rightarrow> Ok (VAdd index i dim vec payload ttl tags parent)))))"
| "frame_vadd _ = wrong_args ''VADD''"

fun frame_vsearch :: "Frame list \<Rightarrow> decoded" where
  "frame_vsearch (_ # index # query # opts) =
     and_then (extract_required_bytes index ''VSEARCH'') (\<lambda>index.
     and_then (extract_required_bytes query ''VSEARCH'') (\<lambda>query.
       case frame_vsearch_options (1, None, 0) opts of
         (k, thr, flt) \<Rightarrow> Ok (VSearch index query k thr flt)))"
| "frame_vsearch _ = wrong_args ''VSEARCH''"

definition frame_vadd_batch :: "Frame list \<Rightarrow> decoded" where
  "frame_vadd_batch args =
     (if length args < 5 then wrong_args ''VADD_BATCH''
      else and_then (extract_required_bytes (args ! 1) ''VADD_BATCH'') (\<lambda>index.
           and_then (frame_batch_items [] (drop 2 args)) (\<lambda>items. Ok (VAddBatch index items))))"

definition frame_vsearch_batch :: "Frame list \<Rightarrow> decoded" where
  "frame_vsearch_batch args =
     (if length args < 3 then wrong_args ''VSEARCH_BATCH''
      else and_then (extract_required_bytes (args ! 1) ''VSEARCH_BATCH'') (\<lambda>index.
             case frame_vsearch_batch_args ([], 1, None) (drop 2 args) of
               (qs, k, thr) \<Rightarrow> Ok (VSearchBatch index qs k thr)))"

definition frame_vindex_create :: "Frame list \<Rightarrow> decoded" where
  "frame_vindex_create args =
     (if length args < 4 then wrong_args ''VINDEX CREATE''
      else and_then (extract_required_bytes (args ! 2) ''VINDEX CREATE'') (\<lambda>name.
             let opts = frame_vindex_create_options
                   \<lparr>vi_dim = None, vi_m = None, vi_ef_construction = None, vi_ef_search = None,
                    vi_metric = None, vi_quantization = None\<rparr> (drop 3 args)
             in case vi_dim opts of
                  None \<Rightarrow> wrong_args ''VINDEX CREATE requires DIM <dimension>''
                | Some dim \<Rightarrow> Ok (VIndexCreate name dim (vi_m opts) (vi_ef_construction opts)
                                  (vi_ef_search opts) (vi_metric opts) (vi_quantization opts))))"

fun frame_vindex :: "bytes \<Rightarrow> Frame list \<Rightarrow> decoded" where
  "frame_vindex cmd (c # s # rest) =
     and_then (extract_required_bytes s ''VINDEX'') (\<lambda>sub.
       if is_cmd sub ''CREATE'' then frame_vindex_create (c # s # rest)
       else if is_cmd sub ''DROP'' then
         (case rest of
            [n] \<Rightarrow> and_then (extract_required_bytes n ''VINDEX DROP'') (\<lambda>name. Ok (VIndexDrop name))
          | _ \<Rightarrow> wrong_args ''VINDEX DROP'')
       else if is_cmd sub ''INFO'' then
         (case rest of
            [n] \<Rightarrow> and_then (extract_required_bytes n ''VINDEX INFO'') (\<lambda>name. Ok (VIndexInfo name))
          | _ \<Rightarrow> wrong_args ''VINDEX INFO'')
       else Ok (Unknown cmd))"
| "frame_vindex cmd _ = wrong_args ''VINDEX''"

fun frame_auth :: "Frame list \<Rightarrow> decoded" where
  "frame_auth [_, p] = and_then (extract_required_bytes p ''AUTH'') (\<lambda>password. Ok (Auth None password))"
| "frame_auth (_ # u # p # _) =
     and_then (extract_required_bytes u ''AUTH'') (\<lambda>username.
     and_then (extract_required_bytes p ''AUTH'') (\<lambda>password. Ok (Auth (Some username) password)))"
| "frame_auth _ = wrong_args ''AUTH''"

definition frame_mset :: "Frame list \<Rightarrow> decoded" where
  "frame_mset args =
     (if length args < 3 \<or> (length args - 1) mod 2 \<noteq> 0 then wrong_args ''MSET''
      else and_then (frame_mset_pairs [] (tl args)) (\<lambda>pairs. Ok (MSet pairs)))"

definition frame_hello :: "Frame list \<Rightarrow> decoded" where
  "frame_hello args =
     (let protover = (case tl args of
                        v # _ \<Rightarrow> (case arg_text v of Some b \<Rightarrow> parse_i64 b | None \<Rightarrow> None)
                      | [] \<Rightarrow> None);
          rest = (if protover = None then tl args else drop 2 args)
      in and_then (frame_hello_options (None, None) rest)
           (\<lambda>(auth, setname). Ok (Hello protover auth setname)))"

fun frame_client :: "Frame list \<Rightarrow> decoded" where
  "frame_client (_ # s # rest) =
     and_then (extract_required_bytes s ''CLIENT'') (\<lambda>sub.
       if is_cmd sub ''SETNAME'' then
         (case rest of
            [n] \<Rightarrow> and_then (extract_required_bytes n ''CLIENT SETNAME'') (\<lambda>name. Ok (Client (SetName name)))
          | _ \<Rightarrow> wrong_args ''CLIENT SETNAME'')
       else if is_cmd sub ''GETNAME'' then Ok (Client GetName)
       else if is_cmd sub ''ID'' then Ok (Client ClientId)
       else if is_cmd sub ''LIST'' then Ok (Client ClientList)
       else Ok (Client (Unrecognized sub)))"
| "frame_client _ = wrong_args ''CLIENT''"

definition frame_info :: "Frame list \<Rightarrow> decoded" where
  "frame_info args =
     (if length args \<ge> 2
      then and_then (extract_required_bytes (args ! 1) ''INFO'') (\<lambda>b. Ok (Info (Some b)))
      else Ok (Info None))"

definition frame_hset :: "Frame list \<Rightarrow> decoded" where
  "frame_hset args =
     (if length args < 4 \<or> (length args - 2) mod 2 \<noteq> 0 then wrong_args ''HSET''
      else and_then (extract_required_bytes (args ! 1) ''HSET'') (\<lambda>key.
           and_then (frame_hset_pairs [] (drop 2 args)) (\<lambda>pairs. Ok (HSet key pairs))))"

fun frame_hdel :: "Frame list \<Rightarrow> decoded" where
  "frame_hdel (_ # k # f # fs) =
     and_then (extract_required_bytes k ''HDEL'') (\<lambda>key.
     and_then (extract_all ''HDEL'' [] (f # fs)) (\<lambda>names. Ok (HDel key names)))"
| "frame_hdel _ = wrong_args ''HDEL''"

section \<open>Dispatch\<close>

definition frame_hash_commands :: "bytes \<Rightarrow> Frame list \<Rightarrow> decoded" where
  "frame_hash_commands cmd args =
     (if is_cmd cmd ''HSET'' then frame_hset args
      else if is_cmd cmd ''HGET'' then frame_two ''HGET'' HGet args
      else if is_cmd cmd ''HDEL'' then frame_hdel args
      else if is_cmd cmd ''HEXISTS'' then frame_two ''HEXISTS'' HExists args
      else if is_cmd cmd ''HLEN'' then frame_one ''HLEN'' HLen args
      else if is_cmd cmd ''HGETALL'' then frame_one ''HGETALL'' HGetAll args
      else if is_cmd cmd ''FLUSHDB'' then Ok FlushDb
      else if is_cmd cmd ''FLUSHALL'' then Ok FlushAll
      else if is_cmd cmd ''COMMAND'' then Ok CommandDoc
      else if is_cmd cmd ''QUIT'' then Ok Quit
      else Ok (Unknown cmd))"

definition frame_session_commands :: "bytes \<Rightarrow> Frame list \<Rightarrow> decoded" where
  "frame_session_commands cmd args =
     (if is_cmd cmd ''HELLO'' then frame_hello args
      else if is_cmd cmd ''CLIENT'' then frame_client args
      else if is_cmd cmd ''INFO'' then frame_info args
      else if is_cmd cmd ''DBSIZE'' then Ok DBSize
      else if is_cmd cmd ''TYPE'' then frame_one ''TYPE'' Type args
      else frame_hash_commands cmd args)"

definition frame_string_commands :: "bytes \<Rightarrow> Frame list \<Rightarrow> decoded" where
  "frame_string_commands cmd args =
     (if is_cmd cmd ''MSET'' then frame_mset args
      else if is_cmd cmd ''INCR'' then frame_one ''INCR'' Incr args
      else if is_cmd cmd ''DECR'' then frame_one ''DECR'' Decr args
      else if is_cmd cmd ''INCRBY'' then frame_key_int ''INCRBY'' IncrBy args
      else if is_cmd cmd ''DECRBY'' then frame_key_int ''DECRBY'' DecrBy args
      else if is_cmd cmd ''APPEND'' then frame_two ''APPEND'' Append args
      else if is_cmd cmd ''STRLEN'' then frame_one ''STRLEN'' Strlen args
      else frame_session_commands cmd args)"

definition frame_expiry_commands :: "bytes \<Rightarrow> Frame list \<Rightarrow> decoded" where
  "frame_expiry_commands cmd args =
     (if is_cmd cmd ''BGREWRITEAOF'' then Ok BgRewriteAof
      else if is_cmd cmd ''AUTH'' then frame_auth args
      else if is_cmd cmd ''EXPIRE'' then frame_key_int ''EXPIRE'' Expire args
      else if is_cmd cmd ''PEXPIRE'' then frame_key_int ''PEXPIRE'' PExpire args
      else if is_cmd cmd ''EXPIREAT'' then frame_key_int ''EXPIREAT'' ExpireAt args
      else if is_cmd cmd ''PEXPIREAT'' then frame_key_int ''PEXPIREAT'' PExpireAt args
      else if is_cmd cmd ''TTL'' then frame_one ''TTL'' Ttl args
      else if is_cmd cmd ''PTTL'' then frame_one ''PTTL'' PTtl args
      else if is_cmd cmd ''PERSIST'' then frame_one ''PERSIST'' Persist args
      else frame_string_commands cmd args)"

definition frame_vector_commands :: "bytes \<Rightarrow> Frame list \<Rightarrow> decoded" where
  "frame_vector_commands cmd args =
     (if is_cmd cmd ''VADD'' then frame_vadd args
      else if is_cmd cmd ''VSEARCH'' then frame_vsearch args
      else if is_cmd cmd ''VADD_BATCH'' then frame_vadd_batch args
      else if is_cmd cmd ''VSEARCH_BATCH'' then frame_vsearch_batch args
      else if is_cmd cmd ''VDEL'' then frame_two ''VDEL'' VDel args
      else if is_cmd cmd ''VSTATS'' then frame_one ''VSTATS'' VStats args
      else if is_cmd cmd ''VINDEX'' then frame_vindex cmd args
      else frame_expiry_commands cmd args)"

definition frame_commands :: "bytes \<Rightarrow> Frame list \<Rightarrow> decoded" where
  "frame_commands cmd args =
     (if is_cmd cmd ''PING'' then frame_ping args
      else if is_cmd cmd ''GET'' then frame_one ''GET'' Get args
      else if is_cmd cmd ''SET'' then frame_set args
      else if is_cmd cmd ''MGET'' then frame_keys ''MGET'' MGet args
      else if is_cmd cmd ''DEL'' then frame_keys ''DEL'' Del args
      else if is_cmd cmd ''EXISTS'' then frame_keys ''EXISTS'' Exists args
      else frame_vector_commands cmd args)"

fun from_frame :: "Frame \<Rightarrow> decoded" where
  "from_frame (Array args) =
     (case args of
        [] \<Rightarrow> Err EmptyCommand
      | f # _ \<Rightarrow>
          (case arg_text f of
             Some cmd \<Rightarrow> frame_commands cmd args
           | None \<Rightarrow> Err (InvalidTypeMarker 63)))"
| "from_frame (SimpleString s) =
     (if is_cmd s ''PING'' then Ok (Ping None)
      else if is_cmd s ''DBSIZE'' then Ok DBSize
      else if is_cmd s ''FLUSHDB'' then Ok FlushDb
      else if is_cmd s ''FLUSHALL'' then Ok FlushAll
      else Err (InvalidTypeMarker 63))"
| "from_frame _ = Err (InvalidTypeMarker 63)"

end
