(* ===== verification/Command_Agree.thy ===== *)
theory Command_Agree
  imports Command_Frame
begin

text \<open>
  The decoders \<open>from_frame\<close> and \<open>from_raw_args\<close> agree on arguments that are strings, and so do
  the two ways to read a command from the wire: \<open>parse_command\<close>, and \<open>parse_frame\<close> followed by
  \<open>from_frame\<close>. With the round trip of the frames this gives what a client's encoded command
  is decoded to.
\<close>

section \<open>The two decoders agree\<close>

fun is_text :: "Frame \<Rightarrow> bool" where
  "is_text (BulkString _) = True"
| "is_text (SimpleString _) = True"
| "is_text _ = False"

fun text_of :: "Frame \<Rightarrow> bytes" where
  "text_of (BulkString b) = b"
| "text_of (SimpleString b) = b"
| "text_of _ = []"

lemma extract_text [simp]:
  "is_text f \<Longrightarrow> extract_required_bytes f cmd = Ok (text_of f)"
  "is_text f \<Longrightarrow> extract_bulk_bytes f = Ok (Some (text_of f))"
  by (cases f; simp)+

lemma extract_all_text [simp]:
  "list_all is_text fs \<Longrightarrow> extract_all cmd acc fs = Ok (acc @ map text_of fs)"
  by (induction cmd acc fs rule: extract_all.induct) simp_all

lemma frame_options_text [simp]:
  "list_all is_text fs \<Longrightarrow> frame_set_options ttl fs = set_options ttl (map text_of fs)"
  "list_all is_text fs \<Longrightarrow> frame_vadd_options va fs = vadd_options va (map text_of fs)"
  "list_all is_text fs \<Longrightarrow> frame_vsearch_options vs fs = vsearch_options vs (map text_of fs)"
  "list_all is_text fs \<Longrightarrow> frame_vsearch_batch_args vb fs = vsearch_batch_args vb (map text_of fs)"
  "list_all is_text fs \<Longrightarrow> frame_vindex_create_options vi fs = vindex_create_options vi (map text_of fs)"
  subgoal by (induction ttl fs rule: frame_set_options.induct) (simp_all add: Let_def)
  subgoal by (induction va fs rule: frame_vadd_options.induct) (simp_all add: Let_def)
  subgoal by (induction vs fs rule: frame_vsearch_options.induct) simp_all
  subgoal by (induction vb fs rule: frame_vsearch_batch_args.induct) simp_all
  subgoal by (induction vi fs rule: frame_vindex_create_options.induct) (simp_all add: or_keep_def)
  done

lemma frame_batch_text [simp]:
  "list_all is_text fs \<Longrightarrow> frame_batch_items items fs = Ok (items @ vadd_batch_items (map text_of fs))"
proof (induction "length fs" arbitrary: items fs rule: less_induct)
  case less
  have IH: "frame_batch_items its gs = Ok (its @ vadd_batch_items (map text_of gs))"
    if "length gs < length fs" "list_all is_text gs" for its gs
    using less that by blast
  show ?case
  proof (cases "(items, fs)" rule: frame_batch_items.cases)
    case (1 _ i vec raw rest)
    then have fs: "fs = i # vec # raw # rest" by simp
    have t: "is_text i" "is_text vec" "is_text raw" "list_all is_text rest"
      using less.prems fs by simp_all
    show ?thesis
    proof (cases rest rule: remdups_adj.cases)
      case 1
      then show ?thesis using t by (simp add: fs)
    next
      case (2 x)
      then show ?thesis using t by (simp add: fs)
    next
      case (3 ex v tail)
      have "length (ex # v # tail) < length fs" "length tail < length fs"
        using 3 fs by simp_all
      then show ?thesis using t 3 IH [of tail] IH [of "ex # v # tail"] by (simp add: fs)
    qed
  qed simp_all
qed

lemma frame_hello_text [simp]:
  "list_all is_text fs \<Longrightarrow> frame_hello_options ho fs = hello_options ho (map text_of fs)"
proof (induction "length fs" arbitrary: ho fs rule: less_induct)
  case less
  have IH: "frame_hello_options h gs = hello_options h (map text_of gs)"
    if "length gs < length fs" "list_all is_text gs" for h gs
    using less that by blast
  obtain auth setname where ho: "ho = (auth, setname)" by (cases ho)
  show ?case
  proof (cases fs)
    case (Cons f rest)
    then show ?thesis
      using less.prems IH [of rest] IH [of "tl rest"] IH [of "tl (tl rest)"]
      by (cases rest rule: remdups_adj.cases) (simp_all add: ho)
  qed simp
qed

lemma frame_loops_text [simp]:
  "list_all is_text fs \<Longrightarrow> frame_mset_pairs pairs fs = Ok (pairs @ mset_pairs (map text_of fs))"
  "list_all is_text fs \<Longrightarrow> frame_hset_pairs pairs fs = hset_pairs pairs (map text_of fs)"
  subgoal by (induction pairs fs rule: frame_mset_pairs.induct) simp_all
  subgoal by (induction pairs fs rule: frame_hset_pairs.induct) simp_all
  done

lemma frame_simple_text [simp]:
  "list_all is_text fs \<Longrightarrow> frame_one name f fs = one_arg name f (map text_of fs)"
  "list_all is_text fs \<Longrightarrow> frame_two name g fs = two_args name g (map text_of fs)"
  "list_all is_text fs \<Longrightarrow> frame_key_int name h fs = key_and_int name h (map text_of fs)"
  "list_all is_text fs \<Longrightarrow> frame_keys name l fs = key_list name l (map text_of fs)"
  subgoal by (cases "(name, f, fs)" rule: frame_one.cases) simp_all
  subgoal by (cases "(name, g, fs)" rule: frame_two.cases) simp_all
  subgoal by (cases "(name, h, fs)" rule: frame_key_int.cases) simp_all
  subgoal by (cases "(name, l, fs)" rule: frame_keys.cases) simp_all
  done

lemma text_nth [simp]: "list_all is_text fs \<Longrightarrow> i < length fs \<Longrightarrow> is_text (fs ! i)"
  by (simp add: list_all_length)

lemma text_drop [simp]: "list_all is_text fs \<Longrightarrow> list_all is_text (drop n fs)"
  by (auto simp: list_all_iff dest: in_set_dropD)

lemma text_tl [simp]: "list_all is_text fs \<Longrightarrow> list_all is_text (tl fs)"
  by (cases fs) simp_all

lemma frame_basic_text [simp]:
  "list_all is_text fs \<Longrightarrow> frame_ping fs = raw_ping (map text_of fs)"
  "list_all is_text fs \<Longrightarrow> frame_set fs = raw_set (map text_of fs)"
  "list_all is_text fs \<Longrightarrow> frame_auth fs = raw_auth (map text_of fs)"
  "list_all is_text fs \<Longrightarrow> frame_client fs = raw_client (map text_of fs)"
  "list_all is_text fs \<Longrightarrow> frame_info fs = raw_info (map text_of fs)"
  "list_all is_text fs \<Longrightarrow> frame_hdel fs = raw_hdel (map text_of fs)"
  subgoal by (simp add: frame_ping_def raw_ping_def)
  subgoal by (cases fs rule: frame_set.cases) simp_all
  subgoal by (cases fs rule: frame_auth.cases) simp_all
  subgoal by (cases fs rule: frame_client.cases) (auto split: list.split)
  subgoal by (simp add: frame_info_def raw_info_def)
  subgoal by (cases fs rule: frame_hdel.cases) simp_all
  done

lemma frame_vector_text [simp]:
  "list_all is_text fs \<Longrightarrow> frame_vadd fs = raw_vadd (map text_of fs)"
  "list_all is_text fs \<Longrightarrow> frame_vsearch fs = raw_vsearch (map text_of fs)"
  "list_all is_text fs \<Longrightarrow> frame_vadd_batch fs = raw_vadd_batch (map text_of fs)"
  "list_all is_text fs \<Longrightarrow> frame_vsearch_batch fs = raw_vsearch_batch (map text_of fs)"
  "list_all is_text fs \<Longrightarrow> frame_vindex_create fs = raw_vindex_create (map text_of fs)"
  subgoal by (cases fs rule: frame_vadd.cases) (simp_all split: option.split)
  subgoal by (cases fs rule: frame_vsearch.cases) simp_all
  subgoal by (simp add: frame_vadd_batch_def raw_vadd_batch_def drop_map)
  subgoal by (simp add: frame_vsearch_batch_def raw_vsearch_batch_def drop_map)
  subgoal by (cases "length fs < 4")
      (simp_all add: frame_vindex_create_def raw_vindex_create_def drop_map Let_def split: option.split)
  done

lemma frame_vindex_text [simp]:
  "list_all is_text fs \<Longrightarrow> fs \<noteq> [] \<Longrightarrow> frame_vindex (text_of (fs ! 0)) fs = raw_vindex (map text_of fs)"
  by (cases "(text_of (fs ! 0), fs)" rule: frame_vindex.cases) (auto split: list.split)

lemma frame_rest_text [simp]:
  "list_all is_text fs \<Longrightarrow> frame_mset fs = raw_mset (map text_of fs)"
  "list_all is_text fs \<Longrightarrow> frame_hset fs = raw_hset (map text_of fs)"
  "list_all is_text fs \<Longrightarrow> frame_hello fs = raw_hello (map text_of fs)"
  subgoal by (simp add: frame_mset_def raw_mset_def map_tl)
  subgoal by (simp add: frame_hset_def raw_hset_def drop_map)
  subgoal by (cases fs rule: remdups_adj.cases) (simp_all add: frame_hello_def raw_hello_def drop_map Let_def)
  done

lemma is_cmd_length: "is_cmd b s \<Longrightarrow> length b = length s"
  unfolding eq_ignore_ascii_case_def ascii_def by (drule arg_cong [of _ _ length]) simp

lemma ping_is_not: "is_cmd b ''PING'' \<Longrightarrow> \<not> is_cmd b ''GET'' \<and> \<not> is_cmd b ''SET''"
  by (auto dest!: is_cmd_length)

text \<open>The chains agree segment by segment, from the last one up.\<close>

lemma segments_text:
  assumes "list_all is_text fs" "fs \<noteq> []"
  defines "cmd \<equiv> text_of (fs ! 0)" and "args \<equiv> map text_of fs"
  shows "frame_hash_commands cmd fs = raw_hash_commands args"
    and "frame_session_commands cmd fs = raw_session_commands args"
    and "frame_string_commands cmd fs = raw_string_commands args"
    and "frame_expiry_commands cmd fs = raw_expiry_commands args"
    and "frame_vector_commands cmd fs = raw_vector_commands args"
    and "frame_commands cmd fs = from_raw_args args"
proof -
  have args: "args ! 0 = cmd" "args \<noteq> []" using assms by simp_all
  have vindex: "frame_vindex cmd fs = raw_vindex args" using assms by simp
  note strs = args vindex assms(1) args_def [symmetric] Let_def
  show a: "frame_hash_commands cmd fs = raw_hash_commands args"
    by (simp add: frame_hash_commands_def raw_hash_commands_def strs cong: if_cong)
  show b: "frame_session_commands cmd fs = raw_session_commands args"
    by (simp add: frame_session_commands_def raw_session_commands_def strs a cong: if_cong)
  show c: "frame_string_commands cmd fs = raw_string_commands args"
    by (simp add: frame_string_commands_def raw_string_commands_def strs b cong: if_cong)
  show d: "frame_expiry_commands cmd fs = raw_expiry_commands args"
    by (simp add: frame_expiry_commands_def raw_expiry_commands_def strs c cong: if_cong)
  show e: "frame_vector_commands cmd fs = raw_vector_commands args"
    by (simp add: frame_vector_commands_def raw_vector_commands_def strs d cong: if_cong)
  show "frame_commands cmd fs = from_raw_args args"
    using ping_is_not [of cmd]
    by (simp add: frame_commands_def from_raw_args_def strs e cong: if_cong)
qed

lemma decoders_agree:
  assumes "list_all is_text fs" "fs \<noteq> []"
  shows "from_frame (Array fs) = from_raw_args (map text_of fs)"
  using assms segments_text(6) [OF assms] by (cases fs) simp_all

section \<open>The two readers agree\<close>

lemma arg_of_frame:
  assumes ok: "parse_frame src = Ok (Some (f, n))" and str: "is_text f"
  shows "parse_arg src = Ok (Some (text_of f, n))"
proof (cases src)
  case Nil
  then show ?thesis using ok by (simp add: parse_frame_nil)
next
  case (Cons b rest)
  consider "b = 43" | "b = 36" | "b \<noteq> 43" "b \<noteq> 36" by blast
  then show ?thesis
  proof cases
    case 1
    then show ?thesis
      using ok Cons by (auto simp: parse_frame.simps after_marker_ok parse_arg_simple)
  next
    case 2
    then obtain b m where "parse_bulk_string rest = Ok (Some (b, m))" "f = bulk_frame b" "n = Suc m"
      using ok Cons by (auto simp: parse_frame.simps after_marker_ok)
    then show ?thesis
      using str 2 Cons by (cases b) (simp_all add: parse_arg_bulk bulk_frame_def)
  next
    case 3
    have "\<not> is_text f"
      using ok Cons 3
      by (auto simp: parse_frame.simps after_marker_ok parse_null_resp3_def split: if_splits option.splits)
    with str show ?thesis by blast
  qed
qed

text \<open>The argument loop runs one byte behind the element loop: the array marker is in its input.\<close>

lemma args_of_elems:
  assumes "parse_elems n frames offset src = Ok (Some (fs, m))" "list_all is_text fs"
  shows "(\<exists>new. fs = frames @ new \<and> length new = n) \<and>
    parse_args n (map text_of frames) (Suc offset) (b # src) = Ok (Some (map text_of fs, Suc m))"
  using assms
proof (induction n arbitrary: frames offset)
  case 0
  then show ?case by (simp add: parse_elems.simps [of 0] parse_args.simps [of 0])
next
  case (Suc n)
  have lt: "offset < length src"
    using Suc.prems(1) by (simp add: parse_elems.simps [of "Suc n"] not_le split: if_splits)
  obtain e c where e: "parse_frame (drop offset src) = Ok (Some (e, c))"
      "parse_elems n (frames @ [e]) (offset + c) src = Ok (Some (fs, m))"
    using Suc.prems(1) lt
    by (auto simp: parse_elems.simps [of "Suc n"] split: outcome.splits option.splits)
  note IH = Suc.IH [OF e(2) Suc.prems(2)]
  then obtain new where new: "fs = frames @ e # new" "length new = n" by auto
  then have "is_text e" using Suc.prems(2) by simp
  from arg_of_frame [OF e(1) this]
  have "parse_args (Suc n) (map text_of frames) (Suc offset) (b # src) =
      parse_args n (map text_of (frames @ [e])) (Suc (offset + c)) (b # src)"
    using lt by (simp add: parse_args.simps [of "Suc n"])
  then show ?case using IH new by simp
qed

lemma readers_agree:
  assumes ok: "parse_frame src = Ok (Some (Array fs, n))" and str: "list_all is_text fs" and ne: "fs \<noteq> []"
  shows "parse_command src = complete (from_frame (Array fs)) n"
proof -
  obtain b rest where src: "src = b # rest" using ok by (cases src) (simp_all add: parse_frame_nil)
  have "b = 42"
    using ok src by (auto simp: parse_frame.simps after_marker_ok parse_null_resp3_def bulk_frame_def
        split: if_splits option.splits)
  with ok src obtain m where arr: "parse_array rest = Ok (Some (fs, m))" "n = Suc m"
    by (auto simp: parse_frame.simps after_marker_ok)
  then obtain pos where pos: "find_crlf rest = Some pos"
    by (cases "find_crlf rest") (simp_all add: parse_array.simps)
  with arr ne obtain count where count: "parse_i64 (take pos rest) = Some count" "\<not> count < 0"
    and elems: "parse_elems (nat count) [] (pos + 2) rest = Ok (Some (fs, m))"
    by (auto simp: parse_array.simps split: option.splits if_splits)
  note args = args_of_elems [OF elems str, of 42]
  from args have "0 < count" using ne count(2) by (cases "count = 0") auto
  then show ?thesis
    using args count src pos \<open>b = 42\<close> arr(2) decoders_agree [OF str ne]
    by (simp add: parse_command_def parse_multibulk_def)
qed

lemma encoded_command:
  assumes "args \<noteq> []" "length args < 2 ^ 63" "\<And>a. a \<in> set args \<Longrightarrow> length a < 2 ^ 63"
  defines "w \<equiv> resp_bytes (Array (map BulkString args))"
  shows "parse_command (w @ rest) = complete (from_raw_args args) (length w)"
proof -
  have "wire_ok (Array (map BulkString args))" using assms(2,3) by (simp add: list_all_iff)
  from parse_resp_bytes [OF this, of rest]
  have "parse_frame (w @ rest) = Ok (Some (Array (map BulkString args), length w))"
    by (simp add: w_def del: resp_bytes.simps)
  moreover have strs: "list_all is_text (map BulkString args)" "map text_of (map BulkString args) = args"
    by (simp_all add: list_all_iff o_def)
  ultimately show ?thesis
    using readers_agree decoders_agree [OF strs(1)] assms(1) strs(2) by simp
qed

section \<open>Names\<close>

text \<open>A command name decides every comparison of the chain.\<close>

lemma is_cmd_decides:
  "is_cmd c name \<Longrightarrow>
     eq_ignore_ascii_case c t \<longleftrightarrow> map to_ascii_lowercase (ascii name) = map to_ascii_lowercase t"
  by (simp add: eq_ignore_ascii_case_def)

lemma hset_dispatch:
  assumes "is_cmd c ''HSET''"
  shows "from_raw_args (c # args) = raw_hset (c # args)"
  by (simp add: raw_dispatch is_cmd_decides [OF assms] ascii_def to_ascii_lowercase_def)

lemma set_dispatch:
  assumes "is_cmd c ''SET''"
  shows "from_raw_args (c # args) = raw_set (c # args)"
  by (simp add: raw_dispatch is_cmd_decides [OF assms] ascii_def to_ascii_lowercase_def)

text \<open>The pairs of HSET as they follow the key.\<close>

definition flat_pairs :: "(bytes \<times> bytes) list \<Rightarrow> bytes list" where
  "flat_pairs ps = concat (map (\<lambda>(f, v). [f, v]) ps)"

lemma flat_pairs_simps [simp]: "flat_pairs [] = []" "flat_pairs ((f, v) # ps) = f # v # flat_pairs ps"
  by (simp_all add: flat_pairs_def)

lemma length_flat_pairs: "length (flat_pairs ps) = 2 * length ps"
  by (induction ps) auto

definition oversized :: "bytes \<times> bytes \<Rightarrow> bool" where
  "oversized p \<longleftrightarrow> max (length (fst p)) (length (snd p)) > 4096"

lemma hset_pairs_flat:
  "hset_pairs acc (flat_pairs ps) =
     (case List.find oversized ps of
        None \<Rightarrow> Ok (acc @ ps)
      | Some (f, v) \<Rightarrow> Err (FrameTooLarge (max (length f) (length v))))"
  by (induction ps arbitrary: acc) (auto simp: oversized_def max_hash_field_def less_max_iff_disj split: option.split)

section \<open>Properties\<close>

text \<open>\<^bold>\<open>C33.\<close> Streaming. The verdict of \<open>parse_command\<close> on the bytes received so far is final unless it
is "need more data": more bytes change neither a command nor an error. A complete command takes
a positive number of bytes, all of them received; it is found as soon as these bytes are there
and on no shorter prefix, so no command is taken early and none is missed.\<close>

theorem command_streaming:
  "(parse_command src \<noteq> Ok None \<longrightarrow> parse_command (src @ rest) = parse_command src) \<and>
   (\<forall>c n. parse_command src = Ok (Some (c, n)) \<longrightarrow>
      0 < n \<and> n \<le> length src \<and> parse_command (take n src) = Ok (Some (c, n)) \<and>
      (\<forall>k < n. parse_command (take k src) = Ok None))"
proof -
  note D = settlesD [OF parse_command_settles [of src]]
  have "0 < n" if "parse_command src = Ok (Some (c, n))" for c n
    using D(4) [OF that, of 0] by (simp add: parse_command_def split: if_splits)
  then show ?thesis using D by auto
qed

theorem command_streaming_witness:
  "parse_command (ascii ''PING'' @ crlf) = Ok (Some (Ping None, 6)) \<and>
   parse_command ((ascii ''PING'' @ crlf) @ [36]) = Ok (Some (Ping None, 6)) \<and>
   parse_command (take 5 (ascii ''PING'' @ crlf)) = Ok None"
proof -
  have "parse_command (ascii ''PING'' @ crlf) = Ok (Some (Ping None, 6))" by code_simp
  then show ?thesis
    using command_streaming [of "ascii ''PING'' @ crlf" "[36]"] by simp
qed

text \<open>\<^bold>\<open>C34.\<close> The two readers of a command agree. Where the frame parser reads an array of strings,
the zero-allocation parser \<open>parse_command\<close> consumes the same bytes and gives the same command,
or the same error, as \<open>from_frame\<close> on that frame.\<close>

theorem command_readers_agree:
  assumes "parse_frame src = Ok (Some (Array fs, n))" "list_all is_text fs" "fs \<noteq> []"
  shows "parse_command src =
    (case from_frame (Array fs) of Ok c \<Rightarrow> Ok (Some (c, n)) | Err e \<Rightarrow> Err e | Panic m \<Rightarrow> Panic m)"
  unfolding readers_agree [OF assms] by (cases "from_frame (Array fs)") simp_all

theorem command_readers_agree_witness:
  "parse_command (resp_bytes (Array [SimpleString (ascii ''get''), BulkString [7]])) =
     Ok (Some (Get [7], 17))"
proof -
  let ?f = "Array [SimpleString (ascii ''get''), BulkString [7]]"
  have w: "wire_ok ?f" by (simp add: ascii_def no_crlf_if_no_cr)
  have len: "length (resp_bytes ?f) = 17" by code_simp
  have "parse_frame (resp_bytes ?f) = Ok (Some (?f, 17))"
    using parse_resp_bytes [OF w, of "[]"] unfolding len by (simp del: resp_bytes.simps)
  moreover have "from_frame ?f = Ok (Get [7])" by code_simp
  ultimately show ?thesis
    using command_readers_agree [of "resp_bytes ?f" "[SimpleString (ascii ''get''), BulkString [7]]" 17]
    by simp
qed

text \<open>\<^bold>\<open>C35.\<close> Round trip of commands. A command sent as an array of bulk strings, with any bytes behind
it, is decoded to what \<open>from_raw_args\<close> makes of its arguments, and the parser consumes exactly
the bytes of that array.\<close>

theorem command_roundtrip:
  assumes "args \<noteq> []" "length args < 2 ^ 63" "\<forall>a \<in> set args. length a < 2 ^ 63"
  defines "w \<equiv> resp_bytes (Array (map BulkString args))"
  shows "parse_command (w @ rest) =
    (case from_raw_args args of Ok c \<Rightarrow> Ok (Some (c, length w)) | Err e \<Rightarrow> Err e | Panic m \<Rightarrow> Panic m)"
proof -
  have "parse_command (w @ rest) = complete (from_raw_args args) (length w)"
    unfolding w_def by (rule encoded_command) (use assms in auto)
  then show ?thesis by (cases "from_raw_args args") simp_all
qed

theorem command_roundtrip_witness:
  "parse_command (resp_bytes (Array (map BulkString [ascii ''TTL'', [7]])) @ [42]) = Ok (Some (Ttl [7], 20))"
proof -
  have "from_raw_args [ascii ''TTL'', [7]] = Ok (Ttl [7])"
    and "length (resp_bytes (Array (map BulkString [ascii ''TTL'', [7]]))) = 20"
    by code_simp+
  then show ?thesis
    using command_roundtrip [of "[ascii ''TTL'', [7]]" "[42]"] by (simp add: ascii_def)
qed

text \<open>Errors of HSET. With at least one complete field/value pair the command is accepted, its
pairs in the order given, exactly when no field and no value is longer than 4096 bytes;
otherwise the first oversized pair gives the error, with the larger of its two sizes. A
field without a value is an arity error.\<close>

theorem hset_outcomes:
  assumes "is_cmd c ''HSET''"
  shows "(ps \<noteq> [] \<longrightarrow> from_raw_args (c # key # flat_pairs ps) =
      (case List.find oversized ps of
         None \<Rightarrow> Ok (HSet key ps)
       | Some (f, v) \<Rightarrow> Err (FrameTooLarge (max (length f) (length v))))) \<and>
    from_raw_args (c # key # flat_pairs ps @ [x]) = Err (WrongArgumentCount ''HSET'')"
  by (auto simp: hset_dispatch [OF assms] raw_hset_def length_flat_pairs hset_pairs_flat wrong_args_def
      Suc_le_eq split: option.split)

theorem hset_outcomes_witness:
  "from_raw_args [ascii ''hset'', [1], [2], [3]] = Ok (HSet [1] [([2], [3])]) \<and>
   from_raw_args [ascii ''hset'', [1], [2], [3], [4]] = Err (WrongArgumentCount ''HSET'')"
proof -
  have "is_cmd (ascii ''hset'') ''HSET''" by code_simp
  from hset_outcomes [OF this, of "[([2], [3])]" "[1]" "[4]"] show ?thesis
    by (simp add: oversized_def)
qed

text \<open>The time to live of SET. \<open>SET key value EX n\<close> stores \<open>n * 1000\<close> milliseconds modulo
\<open>2 ^ 64\<close>: it is the time asked for as long as the product fits 64 bits, and wraps beyond (a
client that asks for 18446744073709552 seconds gets 384 milliseconds).\<close>

theorem set_ex_ttl:
  assumes "is_cmd c ''SET''" "is_cmd ex ''EX''" "0 < n" "n < 2 ^ 64"
  shows "\<exists>ttl. from_raw_args [c, key, val, ex, write_usize [] n] = Ok (Set key val (Some ttl)) \<and>
    unat ttl = n * 1000 mod 2 ^ 64"
proof -
  have "parse_unsigned 64 (write_usize [] n) = Some n" by (rule write_usize_unsigned [OF assms(4)])
  then have "from_raw_args [c, key, val, ex, write_usize [] n] = Ok (Set key val (Some (of_nat n * 1000)))"
    using assms by (simp add: set_dispatch unsigned_or_def)
  moreover have "unat (of_nat n * 1000 :: u64) = n * 1000 mod 2 ^ 64"
    using assms(4) by (simp add: unat_word_ariths unat_of_nat)
  ultimately show ?thesis by blast
qed

theorem set_ex_ttl_witness:
  "\<exists>ttl. from_raw_args [ascii ''SET'', [1], [2], ascii ''EX'', write_usize [] 18446744073709552] =
     Ok (Set [1] [2] (Some ttl)) \<and> unat ttl = 384"
proof -
  have "is_cmd (ascii ''SET'') ''SET''" "is_cmd (ascii ''EX'') ''EX''" by code_simp+
  then show ?thesis
    using set_ex_ttl [of "ascii ''SET''" "ascii ''EX''" 18446744073709552 "[1]" "[2]"] by simp
qed

end
