(* ===== verification/Slab_Memory.thy ===== *)
theory Slab_Memory
  imports Pool_Run
begin

text \<open>
  The bytes behind the slots. The handlers write a value through the raw pointer that
  \<open>resolve_slot_ptr\<close> returns (\<open>std::ptr::copy_nonoverlapping\<close>) and read it back as a slice
  (\<open>std::slice::from_raw_parts\<close>); memory is a function from addresses to bytes. Shown here:
  pointers of live slots stay valid while the pool allocates and releases, and two live slots
  never overlap, provided the operating system hands out disjoint megaslabs and a value fits
  its slot.
\<close>

section \<open>Memory\<close>

type_synonym memory = "u64 \<Rightarrow> u8"

definition copy_nonoverlapping :: "bytes \<Rightarrow> u64 \<Rightarrow> memory \<Rightarrow> memory" where
  "copy_nonoverlapping bs p m = (\<lambda>x. if unat (x - p) < length bs then bs ! unat (x - p) else m x)"

definition slice_at :: "u64 \<Rightarrow> nat \<Rightarrow> memory \<Rightarrow> bytes" where
  "slice_at p n m = map (\<lambda>i. m (p + of_nat i)) [0..<n]"

lemma length_slice_at [simp]: "length (slice_at p n m) = n"
  by (simp add: slice_at_def)

lemma slice_copied:
  assumes "length bs \<le> 2 ^ 64"
  shows "slice_at p (length bs) (copy_nonoverlapping bs p m) = bs"
proof (rule nth_equalityI)
  fix i
  assume "i < length (slice_at p (length bs) (copy_nonoverlapping bs p m))"
  then have i: "i < length bs" by simp
  then have "unat (of_nat i :: u64) = i" using assms by (simp add: unat_of_nat)
  then show "slice_at p (length bs) (copy_nonoverlapping bs p m) ! i = bs ! i"
    using i by (simp add: slice_at_def copy_nonoverlapping_def)
qed simp

lemma slice_disjoint:
  assumes "\<And>i. i < n \<Longrightarrow> length bs \<le> unat (q + of_nat i - p)"
  shows "slice_at q n (copy_nonoverlapping bs p m) = slice_at q n m"
  unfolding slice_at_def copy_nonoverlapping_def using assms by (intro map_cong) (simp_all add: leD)

section \<open>Megaslabs across pool operations\<close>

text \<open>The megaslabs a pool holds: slab id, address and class.\<close>

definition slabs :: "SlabPool \<Rightarrow> (u16 \<times> u64 \<times> SlabClassType) set" where
  "slabs p = (\<lambda>a. (arena_slab_id a, base a, arena_class a)) ` set (arenas p)"

lemma slabs_cong: "arenas p = arenas q \<Longrightarrow> slabs p = slabs q"
  by (simp add: slabs_def)

lemma slabs_set_arena:
  assumes "same_slab a (arenas p ! i)"
  shows "slabs (p\<lparr>arenas := (arenas p)[i := a]\<rparr>) \<subseteq> slabs p"
proof (cases "i < length (arenas p)")
  case True
  then have "arenas p ! i \<in> set (arenas p)" by simp
  then show ?thesis
    using assms set_update_subset_insert [of "arenas p" i a] unfolding slabs_def same_slab_def by force
qed (simp add: slabs_def list_update_beyond)

lemma arena_ops_same_slab:
  "same_slab (fst (arena_allocate a)) a" "same_slab (fst (recycle_slot a)) a"
  "same_slab (fst (arena_deallocate b a)) a"
  by (simp_all add: same_slab_def arena_allocate_def recycle_slot_def arena_deallocate_def
      bump_allocated_def drop_allocated_def Let_def)

lemma alloc_in_slabs: "slabs (fst (fst (alloc_in i (p, r)))) \<subseteq> slabs p"
  using slabs_set_arena [OF arena_ops_same_slab(1), of p i]
  by (auto simp: alloc_in_def split: prod.split)

lemma pool_recycle_slabs: "slabs (fst (fst (pool_recycle c (p, r)))) \<subseteq> slabs p"
proof -
  let ?ci = "class_index c" and ?cs = "class_arenas p (class_index c)"
  let ?cur = "recycle_arena_cursor p ?ci mod length ?cs"
  let ?p1 = "p\<lparr>recycle_arena_cursor := (recycle_arena_cursor p)(?ci := (?cur + 1) mod length ?cs)\<rparr>"
  have "slabs ?p1 = slabs p" by (rule slabs_cong) simp
  then show ?thesis
    using slabs_set_arena [OF arena_ops_same_slab(2), of ?p1 "?cs ! ?cur"]
    by (auto simp: pool_recycle_def Let_def split: prod.split)
qed

lemma pool_scan_slabs: "slabs (fst (fst (pool_scan c (p, r)))) \<subseteq> slabs p"
proof -
  have "slabs (p\<lparr>active_arena := f\<rparr>) = slabs p" for f by (rule slabs_cong) simp
  then have act: "slabs (fst (fst (alloc_in i (p\<lparr>active_arena := f\<rparr>, r)))) \<subseteq> slabs p" for i f
    using alloc_in_slabs [of i "p\<lparr>active_arena := f\<rparr>" r] by simp
  show ?thesis
  proof (cases "find_not_full (arenas p) (class_arenas p (class_index c))")
    case (Ok x)
    then show ?thesis
      using act pool_recycle_slabs [of c p r] by (cases x) (simp_all add: pool_scan_def)
  qed (simp_all add: pool_scan_def)
qed

lemma reclaim_cold_slabs:
  assumes "reclaim_cold_arena c now (p, r) = ((p', r'), ok)"
  shows "slabs p' \<subseteq> slabs p" "next_global_slab_id r' = next_global_slab_id r"
proof -
  have "slabs p' \<subseteq> slabs p \<and> next_global_slab_id r' = next_global_slab_id r"
    using assms
  proof (cases rule: reclaim_cold_cases)
    case (drop i)
    then show ?thesis using set_remove_nth [of i "arenas p"] by (auto simp: slabs_def)
  qed simp
  then show "slabs p' \<subseteq> slabs p" "next_global_slab_id r' = next_global_slab_id r" by simp_all
qed

lemma grow_new_slabs:
  assumes "grow_new c now ptr (p, r) = ((p', r'), res)"
  shows "slabs p' \<subseteq> insert (next_global_slab_id r, ptr, c) (slabs p)"
  using assms
  by (auto simp: grow_new_def slabs_def allocate_global_slab_id_def MegaslabArena_new_def Let_def
      split: prod.splits outcome.splits if_splits)

lemma grow_slabs:
  assumes "grow c now ptr (p, r) = ((p', r'), res)"
  shows "slabs p' \<subseteq> insert (next_global_slab_id r, ptr, c) (slabs p)"
  using assms
proof (cases rule: grow_cases)
  case full
  then show ?thesis by auto
next
  case (new p1 r1 ok)
  have "slabs p1 \<subseteq> slabs p" "next_global_slab_id r1 = next_global_slab_id r"
    using new(2) reclaim_cold_slabs by blast+
  then show ?thesis using grow_new_slabs [OF new(4)] by auto
next
  case (stop p1 r1 ok)
  then show ?thesis using reclaim_cold_slabs by blast
qed

lemma pool_allocate_slow_slabs:
  assumes "pool_allocate_slow c now ptr (p, r) = ((p', r'), res)"
  shows "slabs p' \<subseteq> insert (next_global_slab_id r, ptr, c) (slabs p)"
proof (cases "length (arenas p) < max_megaslabs p")
  case False
  then show ?thesis using pool_scan_slabs [of c p r] assms by (auto simp: pool_allocate_slow_def)
next
  case True
  obtain p1 r1 g where g: "grow c now ptr (p, r) = ((p1, r1), g)" by (metis prod.collapse)
  note sub = grow_slabs [OF g]
  have act: "slabs (p1\<lparr>active_arena := f\<rparr>) = slabs p1" for f by (rule slabs_cong) simp
  show ?thesis
  proof (cases g)
    case (Ok u)
    then show ?thesis
      using assms True g sub act
        alloc_in_slabs [of "length (arenas p1) - 1"
          "p1\<lparr>active_arena := (active_arena p1)(class_index c := Some (length (arenas p1) - 1))\<rparr>" r1]
      by (auto simp: pool_allocate_slow_def Let_def)
  next
    case (Err e)
    then show ?thesis
      using assms True g sub pool_scan_slabs [of c p1 r1] by (auto simp: pool_allocate_slow_def)
  next
    case (Panic m)
    then show ?thesis using assms True g sub by (simp add: pool_allocate_slow_def)
  qed
qed

lemma pool_allocate_slabs:
  assumes "pool_allocate c now ptr s = (s', res)"
  shows "slabs (fst s') \<subseteq> insert (next_global_slab_id (snd s), ptr, c) (slabs (fst s))"
proof -
  obtain p r p' r' where s: "s = (p, r)" "s' = (p', r')" by (cases s, cases s') auto
  note slow = pool_allocate_slow_slabs [of c now ptr p r p' r' res]
  show ?thesis
  proof (cases "active_arena p (class_index c)")
    case None
    then show ?thesis using slow assms s by (simp add: pool_allocate_def)
  next
    case (Some i)
    then show ?thesis
      using slow assms s alloc_in_slabs [of i p r]
      by (auto simp: pool_allocate_def split: if_splits)
  qed
qed

lemma pool_deallocate_slabs:
  assumes "pool_deallocate b s = (s', res)"
  shows "slabs (fst s') \<subseteq> slabs (fst s)"
proof -
  obtain p r where s: "s = (p, r)" by (cases s)
  consider "fst s' = p"
    | i where "fst s' = p\<lparr>arenas := (arenas p)[i := fst (arena_deallocate b (arenas p ! i))]\<rparr>"
    | i f where "fst s' = p\<lparr>arenas := (arenas p)[i := fst (arena_deallocate b (arenas p ! i))], active_arena := f\<rparr>"
    using assms unfolding s pool_deallocate_def Let_def
    by (auto split: option.splits prod.splits if_splits) (metis fst_conv)+
  then show ?thesis
  proof cases
    case (2 i)
    then show ?thesis using slabs_set_arena [OF arena_ops_same_slab(3), of p i b] by (simp add: s)
  next
    case (3 i f)
    then have "slabs (fst s') = slabs (p\<lparr>arenas := (arenas p)[i := fst (arena_deallocate b (arenas p ! i))]\<rparr>)"
      by (intro slabs_cong) simp
    then show ?thesis using slabs_set_arena [OF arena_ops_same_slab(3), of p i b] by (simp add: s)
  qed (simp add: s)
qed

section \<open>Pointers stay valid\<close>

lemma live_slab:
  assumes "core_inv s" "b \<in> pool_live (fst s)"
  obtains bs c where "(slab_id b, bs, c) \<in> slabs (fst s)" "unat (slot_index b) < slots_per_megaslab c"
    "resolve_slot_ptr b (snd s) = Some (bs + of_nat (slot_offset c (unat (slot_index b))))"
  using live_resolves [OF assms] by (metis (no_types, lifting) image_eqI slabs_def)

lemma slabs_fun:
  assumes "core_inv s" "(i, x) \<in> slabs (fst s)" "(i, y) \<in> slabs (fst s)"
  shows "x = y"
proof -
  have "distinct (pool_sids (fst s))" using assms(1) by (simp add: core_inv_def pool_inv_def pool_base_inv_def)
  then have "inj_on arena_slab_id (set (arenas (fst s)))" by (simp add: distinct_map)
  then show ?thesis using assms(2,3) by (auto simp: slabs_def dest: inj_onD)
qed

lemma slab_id_used:
  assumes "core_inv s" "(i, x) \<in> slabs (fst s)"
  shows "i \<noteq> next_global_slab_id (snd s)"
  using assms by (auto simp: core_inv_def reg_inv_def slabs_def)

lemma resolve_stable:
  assumes inv: "core_inv s" "core_inv s'" and b: "b \<in> pool_live (fst s)" "b \<in> pool_live (fst s')"
    and sub: "slabs (fst s') \<subseteq> insert (next_global_slab_id (snd s), new) (slabs (fst s))"
  shows "resolve_slot_ptr b (snd s') = resolve_slot_ptr b (snd s)"
proof -
  obtain x c where x: "(slab_id b, x, c) \<in> slabs (fst s)"
      "resolve_slot_ptr b (snd s) = Some (x + of_nat (slot_offset c (unat (slot_index b))))"
    by (rule live_slab [OF inv(1) b(1)])
  obtain y d where y: "(slab_id b, y, d) \<in> slabs (fst s')"
      "resolve_slot_ptr b (snd s') = Some (y + of_nat (slot_offset d (unat (slot_index b))))"
    by (rule live_slab [OF inv(2) b(2)])
  have "(slab_id b, y, d) \<in> slabs (fst s)"
    using y(1) sub slab_id_used [OF inv(1) x(1)] by auto
  from slabs_fun [OF inv(1) this x(1)] show ?thesis using x(2) y(2) by simp
qed

section \<open>Live slots do not overlap\<close>

definition region :: "u64 \<Rightarrow> nat set" where
  "region p = {unat p ..< unat p + MEGASLAB_BYTES}"

text \<open>What \<open>alloc_zeroed\<close> guarantees: megaslabs lie in the address space and are disjoint.\<close>

definition layout_ok :: "SlabPool \<Rightarrow> bool" where
  "layout_ok p \<longleftrightarrow>
     (\<forall>(i, x, c) \<in> slabs p. unat x + MEGASLAB_BYTES \<le> 2 ^ 64) \<and>
     (\<forall>(i, x, c) \<in> slabs p. \<forall>(j, y, d) \<in> slabs p. i \<noteq> j \<longrightarrow> region x \<inter> region y = {})"

definition fresh_region :: "u64 \<Rightarrow> SlabPool \<Rightarrow> SlabPool \<Rightarrow> bool" where
  "fresh_region ptr p p' \<longleftrightarrow> unat ptr + MEGASLAB_BYTES \<le> 2 ^ 64 \<and>
     (\<forall>(i, x, c) \<in> slabs p \<inter> slabs p'. region ptr \<inter> region x = {})"

lemma layout_sub: "layout_ok p \<Longrightarrow> slabs p' \<subseteq> slabs p \<Longrightarrow> layout_ok p'"
  unfolding layout_ok_def by blast

lemma layout_grow:
  assumes "layout_ok p" "fresh_region ptr p p'" "slabs p' \<subseteq> insert (i, ptr, c) (slabs p)"
  shows "layout_ok p'"
proof -
  have one: "unat x + MEGASLAB_BYTES \<le> 2 ^ 64" if "(j, x, d) \<in> slabs p'" for j x d
    using that assms by (force simp: layout_ok_def fresh_region_def)
  have two: "region x \<inter> region y = {}"
    if h: "(j, x, d) \<in> slabs p'" "(k, y, e) \<in> slabs p'" "j \<noteq> k" for j x d k y e
  proof -
    have old: "region x \<inter> region y = {}" if "(j, x, d) \<in> slabs p" "(k, y, e) \<in> slabs p"
      using assms(1) that h(3) unfolding layout_ok_def by blast
    have new: "region ptr \<inter> region z = {}" if "(l, z, f) \<in> slabs p" "(l, z, f) \<in> slabs p'" for l z f
      using assms(2) that unfolding fresh_region_def by blast
    have "(j, x, d) = (i, ptr, c) \<or> (j, x, d) \<in> slabs p" "(k, y, e) = (i, ptr, c) \<or> (k, y, e) \<in> slabs p"
      using h assms(3) by blast+
    then show ?thesis using old new h by blast
  qed
  show ?thesis using one two unfolding layout_ok_def by blast
qed

text \<open>\<open>fits b n s\<close>: \<open>n\<close> bytes at slot \<open>b\<close> stay inside the slot and inside the megaslab.\<close>

definition fits :: "SlabPool \<Rightarrow> SlabBlockId \<Rightarrow> nat \<Rightarrow> bool" where
  "fits p b n \<longleftrightarrow> (\<exists>x c. (slab_id b, x, c) \<in> slabs p \<and> n \<le> slot_bytes c \<and>
     slot_offset c (unat (slot_index b)) + n \<le> MEGASLAB_BYTES)"

lemma offset_in_region:
  assumes "unat (x :: u64) + MEGASLAB_BYTES \<le> 2 ^ 64" "k < MEGASLAB_BYTES"
  shows "unat (x + of_nat k) = unat x + k"
  using assms by (simp add: unat_word_ariths unat_of_nat MEGASLAB_BYTES_def)

lemma slots_disjoint:
  assumes inv: "core_inv s" and lay: "layout_ok (fst s)" and ne: "b \<noteq> b'"
    and p: "resolve_slot_ptr b (snd s) = Some p" "fits (fst s) b n" "b \<in> pool_live (fst s)"
    and q: "resolve_slot_ptr b' (snd s) = Some q" "fits (fst s) b' m" "b' \<in> pool_live (fst s)"
    and i: "i < m"
  shows "n \<le> unat (q + of_nat i - p)"
proof (cases "n = 0")
  case False
  obtain x c where x: "(slab_id b, x, c) \<in> slabs (fst s)" "p = x + of_nat (slot_offset c (unat (slot_index b)))"
    using live_slab [OF inv p(3)] p(1) by (metis option.inject)
  obtain y d where y: "(slab_id b', y, d) \<in> slabs (fst s)" "q = y + of_nat (slot_offset d (unat (slot_index b')))"
    using live_slab [OF inv q(3)] q(1) by (metis option.inject)
  let ?j = "unat (slot_index b)" and ?k = "unat (slot_index b')"
  have n: "n \<le> slot_bytes c" "slot_offset c ?j + n \<le> MEGASLAB_BYTES"
    using p(2) slabs_fun [OF inv x(1)] by (auto simp: fits_def)
  have m: "m \<le> slot_bytes d" "slot_offset d ?k + m \<le> MEGASLAB_BYTES"
    using q(2) slabs_fun [OF inv y(1)] by (auto simp: fits_def)
  have bx: "unat x + MEGASLAB_BYTES \<le> 2 ^ 64" and by_: "unat y + MEGASLAB_BYTES \<le> 2 ^ 64"
    using lay x(1) y(1) by (auto simp: layout_ok_def)
  have up: "unat p = unat x + slot_offset c ?j"
    unfolding x(2) by (rule offset_in_region [OF bx]) (use n False in linarith)
  have uq: "unat (q + of_nat i) = unat y + (slot_offset d ?k + i)"
    using offset_in_region [OF by_, of "slot_offset d ?k + i"] m i by (simp add: y(2) add.assoc)
  have "\<not> (unat p \<le> unat (q + of_nat i) \<and> unat (q + of_nat i) < unat p + n)"
  proof (cases "slab_id b = slab_id b'")
    case True
    then have "(y, d) = (x, c)" using slabs_fun [OF inv x(1)] y(1) by auto
    moreover have "?j \<noteq> ?k" using ne True block_eq_iff by blast
    ultimately show ?thesis
      using slot_offset_disjoint [of ?j ?k c] slot_offset_disjoint [of ?k ?j c] up uq n m i
      by (cases "?j < ?k") auto
  next
    case False
    then have "region x \<inter> region y = {}" using lay x(1) y(1) unfolding layout_ok_def by blast
    moreover have "unat (q + of_nat i) \<in> region y" using uq m i by (simp add: region_def)
    ultimately have "unat (q + of_nat i) \<notin> region x" by blast
    then show ?thesis using up n by (auto simp: region_def)
  qed
  moreover have "unat p + n \<le> 2 ^ 64" using up n bx by linarith
  ultimately show ?thesis
    by (auto simp: unat_sub_if' not_le not_less)
qed simp

end
