(* ===== verification/Wire_Bytes.thy ===== *)
theory Wire_Bytes
  imports Prelude
begin

text \<open>
  Little-endian integers in byte buffers: \<open>to_le_bytes\<close> and \<open>from_le_bytes\<close> of the standard
  library for the widths that the persistent formats use, and slices of a buffer.
\<close>

primrec le_bytes :: "nat \<Rightarrow> nat \<Rightarrow> bytes" where
  "le_bytes 0 x = []"
| "le_bytes (Suc n) x = of_nat (x mod 256) # le_bytes n (x div 256)"

primrec from_le :: "bytes \<Rightarrow> nat" where
  "from_le [] = 0"
| "from_le (b # bs) = unat b + 256 * from_le bs"

lemma length_le_bytes [simp]: "length (le_bytes n x) = n"
  by (induction n arbitrary: x) simp_all

lemma unat_byte [simp]: "unat (of_nat (x mod 256) :: u8) = x mod 256"
  by (simp add: unat_of_nat)

lemma from_le_bytes: "from_le (le_bytes n x) = x mod 256 ^ n"
proof (induction n arbitrary: x)
  case (Suc n)
  have "x mod (256 * 256 ^ n) = x mod 256 + 256 * (x div 256 mod 256 ^ n)"
    by (simp add: mod_mult2_eq)
  then show ?case using Suc by simp
qed simp

lemma from_le_less: "from_le bs < 256 ^ length bs"
proof (induction bs)
  case (Cons b bs)
  have "unat b < 256" using unsigned_less [of b, where ?'a = nat] by simp
  then show ?case using Cons by simp
qed simp

text \<open>\<open>u16\<close>, \<open>u32\<close> and \<open>u64\<close> of a length or counter; a cast to the type keeps the low bits.\<close>

abbreviation u16_le :: "nat \<Rightarrow> bytes" where "u16_le x \<equiv> le_bytes 2 x"
abbreviation u32_le :: "nat \<Rightarrow> bytes" where "u32_le x \<equiv> le_bytes 4 x"
abbreviation u64_le :: "nat \<Rightarrow> bytes" where "u64_le x \<equiv> le_bytes 8 x"

lemma from_le_small [simp]:
  "x < 2 ^ 16 \<Longrightarrow> from_le (u16_le x) = x"
  "x < 2 ^ 32 \<Longrightarrow> from_le (u32_le x) = x"
  "x < 2 ^ 64 \<Longrightarrow> from_le (u64_le x) = x"
  by (simp_all add: from_le_bytes)

text \<open>Reading \<open>n\<close> bytes at an offset.\<close>

definition bytes_at :: "nat \<Rightarrow> nat \<Rightarrow> bytes \<Rightarrow> bytes" where
  "bytes_at off n src = take n (drop off src)"

lemma bytes_at_append:
  assumes "length pre = off" "length xs = n"
  shows "bytes_at off n (pre @ xs @ rest) = xs"
  using assms by (simp add: bytes_at_def)

text \<open>Writing bytes at an offset (\<open>copy_from_slice\<close> into a range of a buffer).\<close>

definition write_at :: "nat \<Rightarrow> bytes \<Rightarrow> bytes \<Rightarrow> bytes" where
  "write_at i data buf = take i buf @ data @ drop (i + length data) buf"

lemma length_write_at [simp]: "i + length d \<le> length buf \<Longrightarrow> length (write_at i d buf) = length buf"
  by (simp add: write_at_def)

lemma length_bytes_at [simp]: "o1 + n \<le> length buf \<Longrightarrow> length (bytes_at o1 n buf) = n"
  by (simp add: bytes_at_def)

lemma nth_write_at:
  assumes "i + length d \<le> length buf" "j < length buf"
  shows "write_at i d buf ! j = (if i \<le> j \<and> j < i + length d then d ! (j - i) else buf ! j)"
  using assms by (auto simp: write_at_def nth_append)

lemma bytes_at_write_same:
  assumes "i + length d \<le> length buf" "length d = n"
  shows "bytes_at i n (write_at i d buf) = d"
  using assms by (simp add: bytes_at_def write_at_def)

lemma bytes_at_write_other:
  assumes "i + length d \<le> length buf" "o1 + n \<le> i \<or> i + length d \<le> o1"
  shows "bytes_at o1 n (write_at i d buf) = bytes_at o1 n buf"
proof (rule nth_equalityI)
  show "length (bytes_at o1 n (write_at i d buf)) = length (bytes_at o1 n buf)"
    using assms(1) by (simp add: bytes_at_def)
  fix j
  assume "j < length (bytes_at o1 n (write_at i d buf))"
  then have "j < n" "o1 + j < length buf" using assms(1) by (auto simp: bytes_at_def)
  then show "bytes_at o1 n (write_at i d buf) ! j = bytes_at o1 n buf ! j"
    using assms by (auto simp: bytes_at_def nth_write_at)
qed

lemma bytes_at_bytes_at:
  assumes "o1 + n \<le> m"
  shows "bytes_at o1 n (bytes_at p m buf) = bytes_at (p + o1) n buf"
  using assms by (simp add: bytes_at_def drop_take min_def add.commute)

lemma write_at_commute:
  assumes "i + length d \<le> j" "j + length e \<le> length buf"
  shows "write_at i d (write_at j e buf) = write_at j e (write_at i d buf)"
  using assms by (intro nth_equalityI) (auto simp: nth_write_at)

end
