(* ===== verification/Aof_Frame.thy ===== *)
theory Aof_Frame
  imports Wire_Bytes
begin

text \<open>
  The append-only file. \<open>crates/kachedb-net/src/aof_encode.rs\<close> and
  \<open>crates/kachedb-server/src/aof.rs\<close>: the frame of one mutation; \<open>aof_recovery.rs\<close>: the scan of a
  log at start-up, which stops at a torn or corrupt frame and truncates the file there. The
  checksum (the crate \<open>crc32fast\<close>) is an argument \<open>crc\<close>; nothing is assumed of it. Shown: a
  frame is read back, a torn frame is recognised as incomplete at every length, and the scan of
  a log recovers exactly the frames written completely.
\<close>

section \<open>Frames\<close>

datatype AofOp = AofSet | AofDel | AofExpire | AofVAdd | AofVIndexCreate | AofVIndexDrop | AofHSet | AofHDel

definition AOF_MAGIC :: bytes where "AOF_MAGIC = [0x4B, 0x41]"

definition AOF_HEADER_OVERHEAD :: nat where "AOF_HEADER_OVERHEAD = 21"

fun op_code :: "AofOp \<Rightarrow> u8" where
  "op_code AofSet = 1"
| "op_code AofDel = 2"
| "op_code AofExpire = 3"
| "op_code AofVAdd = 4"
| "op_code AofVIndexCreate = 5"
| "op_code AofVIndexDrop = 6"
| "op_code AofHSet = 7"
| "op_code AofHDel = 8"

datatype AofError = AofIo | CorruptMagic | InvalidOpCode u8 | ChecksumMismatch nat nat | UnexpectedEof

definition try_from :: "u8 \<Rightarrow> (AofOp, AofError) outcome" where
  "try_from v =
     (if v = 1 then Ok AofSet
      else if v = 2 then Ok AofDel
      else if v = 3 then Ok AofExpire
      else if v = 4 then Ok AofVAdd
      else if v = 5 then Ok AofVIndexCreate
      else if v = 6 then Ok AofVIndexDrop
      else if v = 7 then Ok AofHSet
      else if v = 8 then Ok AofHDel
      else Err (InvalidOpCode v))"

record AofFrame =
  af_op :: AofOp
  timestamp_sec :: nat
  af_key :: bytes
  af_value :: bytes

text \<open>The lengths are cast to \<open>u16\<close> and \<open>u32\<close>: longer ones lose their high bits.\<close>

definition frame_body :: "AofOp \<Rightarrow> bytes \<Rightarrow> bytes \<Rightarrow> nat \<Rightarrow> bytes" where
  "frame_body op key val ts =
     [op_code op] @ u64_le ts @ u16_le (length key) @ key @ u32_le (length val) @ val"

definition encode_frame :: "(bytes \<Rightarrow> u32) \<Rightarrow> AofOp \<Rightarrow> bytes \<Rightarrow> bytes \<Rightarrow> nat \<Rightarrow> bytes" where
  "encode_frame crc op key val ts =
     (let buf = AOF_MAGIC @ frame_body op key val ts
      in buf @ u32_le (unat (crc (drop 2 buf))))"

definition decode_frame :: "(bytes \<Rightarrow> u32) \<Rightarrow> bytes \<Rightarrow> ((AofFrame \<times> nat) option, AofError) outcome" where
  "decode_frame crc src =
     (if length src < AOF_HEADER_OVERHEAD then Ok None
      else if bytes_at 0 2 src \<noteq> AOF_MAGIC then Err CorruptMagic
      else and_then (try_from (src ! 2)) (\<lambda>op.
        let ts = from_le (bytes_at 3 8 src);
            key_len = from_le (bytes_at 11 2 src)
        in if length src < 13 + key_len + 4 then Ok None
           else (let val_offset = 13 + key_len;
                     val_len = from_le (bytes_at val_offset 4 src);
                     total_frame_len = val_offset + 4 + val_len + 4
                 in if length src < total_frame_len then Ok None
                    else (let key = bytes_at 13 key_len src;
                              val = bytes_at (val_offset + 4) val_len src;
                              crc_offset = val_offset + 4 + val_len;
                              stored_crc = from_le (bytes_at crc_offset 4 src);
                              calculated_crc = unat (crc (bytes_at 2 (crc_offset - 2) src))
                          in if stored_crc \<noteq> calculated_crc
                             then Err (ChecksumMismatch stored_crc calculated_crc)
                             else Ok (Some (\<lparr>af_op = op, timestamp_sec = ts, af_key = key, af_value = val\<rparr>,
                                            total_frame_len))))))"

section \<open>Recovery\<close>

text \<open>
  The loop of \<open>replay\<close> over \<open>data[offset..]\<close>: the frames to apply, in order, and
  \<open>last_valid_offset\<close>. The file is cut to that length when bytes are left behind it.
\<close>

lemma decode_consumed:
  assumes "decode_frame crc src = Ok (Some (f, n))"
  shows "0 < n \<and> n \<le> length src"
  using assms
  by (auto simp: decode_frame_def Let_def split: if_splits elim!: and_then.elims)

function replay_frames :: "(bytes \<Rightarrow> u32) \<Rightarrow> bytes \<Rightarrow> nat \<Rightarrow> AofFrame list \<times> nat" where
  "replay_frames crc src offset =
     (if src = [] then ([], offset)
      else (case decode_frame crc src of
              Ok (Some (f, consumed)) \<Rightarrow>
                (let (fs, e) = replay_frames crc (drop consumed src) (offset + consumed) in (f # fs, e))
            | _ \<Rightarrow> ([], offset)))"
  by pat_completeness auto
termination
  by (relation "measure (\<lambda>(crc, src, offset). length src)") (auto dest: decode_consumed)

declare replay_frames.simps [simp del]

definition truncate_log :: "(bytes \<Rightarrow> u32) \<Rightarrow> bytes \<Rightarrow> bytes" where
  "truncate_log crc data =
     (let e = snd (replay_frames crc data 0) in if e < length data then take e data else data)"

section \<open>Reading back\<close>

definition frame_ok :: "bytes \<Rightarrow> bytes \<Rightarrow> nat \<Rightarrow> bool" where
  "frame_ok key val ts \<longleftrightarrow> length key < 2 ^ 16 \<and> length val < 2 ^ 32 \<and> ts < 2 ^ 64"

lemma try_from_code [simp]: "try_from (op_code op) = Ok op"
  by (cases op) (simp_all add: try_from_def)

lemma length_frame_body: "length (frame_body op key val ts) = 15 + length key + length val"
  by (simp add: frame_body_def)

lemma length_encode_frame: "length (encode_frame crc op key val ts) = 21 + length key + length val"
  by (simp add: encode_frame_def AOF_MAGIC_def length_frame_body Let_def)

text \<open>The fields of a frame at their offsets, followed by whatever stands behind it.\<close>

lemma encoded_fields:
  fixes rest :: bytes and crc :: "bytes \<Rightarrow> u32" and op :: AofOp
  assumes "frame_ok key val ts"
  defines "src \<equiv> encode_frame crc op key val ts @ rest"
  shows "bytes_at 0 2 src = AOF_MAGIC" "src ! 2 = op_code op" "from_le (bytes_at 3 8 src) = ts"
    "from_le (bytes_at 11 2 src) = length key" "bytes_at 13 (length key) src = key"
    "from_le (bytes_at (13 + length key) 4 src) = length val"
    "bytes_at (13 + length key + 4) (length val) src = val"
    "from_le (bytes_at (13 + length key + 4 + length val) 4 src) =
       unat (crc (bytes_at 2 (13 + length key + 4 + length val - 2) src))"
proof -
  let ?crc = "u32_le (unat (crc (frame_body op key val ts)))"
  have src: "src = AOF_MAGIC @ [op_code op] @ u64_le ts @ u16_le (length key) @ key @ u32_le (length val) @ val @ ?crc @ rest"
    by (simp add: src_def encode_frame_def frame_body_def AOF_MAGIC_def Let_def)
  have b: "bytes_at off n (pre @ xs @ more) = xs" if "length pre = off" "length xs = n" for off n pre xs more
    using bytes_at_append that by blast
  note ok = assms(1) [unfolded frame_ok_def]
  show "bytes_at 0 2 src = AOF_MAGIC" unfolding src by (simp add: bytes_at_def AOF_MAGIC_def)
  show "src ! 2 = op_code op" unfolding src by (simp add: AOF_MAGIC_def)
  show "from_le (bytes_at 3 8 src) = ts"
    using b [of "AOF_MAGIC @ [op_code op]" 3 "u64_le ts" 8] ok unfolding src by (simp add: AOF_MAGIC_def)
  show "from_le (bytes_at 11 2 src) = length key"
    using b [of "AOF_MAGIC @ [op_code op] @ u64_le ts" 11 "u16_le (length key)" 2] ok unfolding src
    by (simp add: AOF_MAGIC_def)
  show "bytes_at 13 (length key) src = key"
    using b [of "AOF_MAGIC @ [op_code op] @ u64_le ts @ u16_le (length key)" 13 key "length key"] unfolding src
    by (simp add: AOF_MAGIC_def)
  show "from_le (bytes_at (13 + length key) 4 src) = length val"
    using b [of "AOF_MAGIC @ [op_code op] @ u64_le ts @ u16_le (length key) @ key" "13 + length key"
        "u32_le (length val)" 4] ok unfolding src by (simp add: AOF_MAGIC_def)
  show "bytes_at (13 + length key + 4) (length val) src = val"
    using b [of "AOF_MAGIC @ [op_code op] @ u64_le ts @ u16_le (length key) @ key @ u32_le (length val)"
        "13 + length key + 4" val "length val"] unfolding src by (simp add: AOF_MAGIC_def)
  have body: "bytes_at 2 (13 + length key + 4 + length val - 2) src = frame_body op key val ts"
    using b [of AOF_MAGIC 2 "frame_body op key val ts" "15 + (length key + length val)"] unfolding src
    by (simp add: length_frame_body) (simp add: AOF_MAGIC_def frame_body_def)
  have crc: "unat (crc (frame_body op key val ts)) < 2 ^ 32"
    using unsigned_less [of "crc (frame_body op key val ts)", where ?'a = nat] by simp
  show "from_le (bytes_at (13 + length key + 4 + length val) 4 src) =
       unat (crc (bytes_at 2 (13 + length key + 4 + length val - 2) src))"
    using b [of "AOF_MAGIC @ [op_code op] @ u64_le ts @ u16_le (length key) @ key @ u32_le (length val) @ val"
        "13 + length key + 4 + length val" ?crc 4] unfolding body unfolding src
    by (simp add: AOF_MAGIC_def crc del: power_numeral)
qed

lemma decode_encoded:
  assumes "frame_ok key val ts"
  shows "decode_frame crc (encode_frame crc op key val ts @ rest) =
    Ok (Some (\<lparr>af_op = op, timestamp_sec = ts, af_key = key, af_value = val\<rparr>,
      length (encode_frame crc op key val ts)))"
proof -
  note F = encoded_fields [OF assms, of crc op rest]
  have "length (encode_frame crc op key val ts @ rest) = 21 + length key + length val + length rest"
    by (simp add: length_encode_frame)
  then show ?thesis
    using F by (simp add: decode_frame_def AOF_HEADER_OVERHEAD_def Let_def length_encode_frame)
qed

text \<open>A frame cut short is incomplete, wherever it is cut.\<close>

lemma bytes_at_take: "off + n \<le> k \<Longrightarrow> bytes_at off n (take k src) = bytes_at off n src"
  by (simp add: bytes_at_def drop_take min_def)

lemma decode_torn:
  assumes ok: "frame_ok key val ts" and k: "k < length (encode_frame crc op key val ts)"
  shows "decode_frame crc (take k (encode_frame crc op key val ts)) = Ok None"
proof (cases "k < AOF_HEADER_OVERHEAD")
  case True
  then have "length (take k (encode_frame crc op key val ts)) < AOF_HEADER_OVERHEAD" by simp
  then show ?thesis unfolding decode_frame_def by (simp only: if_True)
next
  case False
  let ?src = "encode_frame crc op key val ts"
  note F = encoded_fields [OF ok, of crc op "[]", simplified]
  have k21: "21 \<le> k" using False by (simp add: AOF_HEADER_OVERHEAD_def)
  have len: "length (take k ?src) = k" "length ?src = 21 + length key + length val"
    using k by (simp_all add: length_encode_frame)
  have head: "bytes_at 0 2 (take k ?src) = AOF_MAGIC" "take k ?src ! 2 = op_code op"
    "from_le (bytes_at 11 2 (take k ?src)) = length key"
    using F k21 by (simp_all add: bytes_at_take)
  show ?thesis
  proof (cases "k < 13 + length key + 4")
    case True
    then show ?thesis
      using head len(1) k21 by (simp add: decode_frame_def AOF_HEADER_OVERHEAD_def Let_def)
  next
    case False
    then have "from_le (bytes_at (13 + length key) 4 (take k ?src)) = length val"
      using F by (simp add: bytes_at_take)
    then show ?thesis
      using head len k k21 False by (simp add: decode_frame_def AOF_HEADER_OVERHEAD_def Let_def)
  qed
qed

section \<open>Recovering a log\<close>

definition log_bytes :: "(bytes \<Rightarrow> u32) \<Rightarrow> AofFrame list \<Rightarrow> bytes" where
  "log_bytes crc fs =
     concat (map (\<lambda>f. encode_frame crc (af_op f) (af_key f) (af_value f) (timestamp_sec f)) fs)"

lemma replay_torn:
  assumes "decode_frame crc tail = Ok None"
  shows "replay_frames crc tail offset = ([], offset)"
  using assms by (simp add: replay_frames.simps)

lemma replay_log:
  assumes "list_all (\<lambda>f. frame_ok (af_key f) (af_value f) (timestamp_sec f)) fs"
    and "decode_frame crc tail = Ok None"
  shows "replay_frames crc (log_bytes crc fs @ tail) offset = (fs, offset + length (log_bytes crc fs))"
  using assms(1)
proof (induction fs arbitrary: offset)
  case Nil
  then show ?case using replay_torn [OF assms(2)] by (simp add: log_bytes_def)
next
  case (Cons f fs)
  let ?e = "encode_frame crc (af_op f) (af_key f) (af_value f) (timestamp_sec f)"
  have "?e \<noteq> []" using length_encode_frame [of crc "af_op f" "af_key f" "af_value f" "timestamp_sec f"] by auto
  moreover have "decode_frame crc (?e @ log_bytes crc fs @ tail) = Ok (Some (f, length ?e))"
    using decode_encoded [of "af_key f" "af_value f" "timestamp_sec f"] Cons.prems by simp
  moreover have "log_bytes crc (f # fs) = ?e @ log_bytes crc fs" by (simp add: log_bytes_def)
  ultimately show ?case
    using Cons by (simp add: replay_frames.simps [of crc "?e @ log_bytes crc fs @ tail"])
qed

section \<open>Properties\<close>

text \<open>Crash recovery. A log of complete frames followed by the first bytes of one more (what is on
disk after a crash in the middle of a write) is replayed to exactly those frames, in order, and
the file is cut to their bytes; this holds for every checksum function.\<close>

theorem torn_log_recovers:
  assumes "list_all (\<lambda>f. frame_ok (af_key f) (af_value f) (timestamp_sec f)) fs"
    and "frame_ok key val ts" "k < length (encode_frame crc op key val ts)"
  shows "replay_frames crc (log_bytes crc fs @ take k (encode_frame crc op key val ts)) 0 =
      (fs, length (log_bytes crc fs)) \<and>
    truncate_log crc (log_bytes crc fs @ take k (encode_frame crc op key val ts)) = log_bytes crc fs"
  using replay_log [OF assms(1) decode_torn [OF assms(2,3)], of 0] by (auto simp: truncate_log_def)

theorem torn_log_recovers_witness:
  "replay_frames (\<lambda>_. 7)
     (encode_frame (\<lambda>_. 7) AofDel [1, 2] [] 9 @ take 20 (encode_frame (\<lambda>_. 7) AofSet [3] [4] 10)) 0 =
     ([\<lparr>af_op = AofDel, timestamp_sec = 9, af_key = [1, 2], af_value = []\<rparr>], 23)"
proof -
  let ?f = "\<lparr>af_op = AofDel, timestamp_sec = 9, af_key = [1, 2], af_value = []\<rparr>"
  have log: "log_bytes (\<lambda>_. 7) [?f] = encode_frame (\<lambda>_. 7) AofDel [1, 2] [] 9" by (simp add: log_bytes_def)
  show ?thesis
    using torn_log_recovers [of "[?f]" "[3]" "[4]" 10 20 "\<lambda>_. 7" AofSet] unfolding log
    by (simp add: frame_ok_def length_encode_frame)
qed

end
