(* ===== verification/Server_State.thy ===== *)
theory Server_State
  imports Worker_Tick Slab_Memory Aof_Frame Command_Agree
begin

text \<open>
  The state a connection handler works on (\<open>crates/kachedb-net/src/connection\<close>) and its
  elementary steps: lookups and updates of the sharded table, allocation and release in the slab
  pool, raw reads and writes of slots, scheduling on the timing wheel, replies, and the hook of
  the append-only file. A step returns \<open>None\<close> when the code loops forever (a probe in a table
  without an empty slot), and a panic is an outcome.
\<close>

section \<open>State and environment\<close>

datatype NetError = Io | Resp RespError | Slab CoreError | ConnectionClosed | WorkerInitFailed nat string

record ClientState =
  cl_name :: "bytes option"
  client_id :: int
  proto_version :: u8
  authenticated :: bool
  requirepass :: "bytes option"

definition ClientState_default :: ClientState where
  "ClientState_default =
     \<lparr>cl_name = None, client_id = 1, proto_version = 2, authenticated = True, requirepass = None\<rparr>"

definition with_password :: "bytes option \<Rightarrow> ClientState" where
  "with_password password =
     \<lparr>cl_name = None, client_id = 1, proto_version = 2, authenticated = (password = None),
      requirepass = password\<rparr>"

text \<open>
  \<open>sv_aof\<close> collects the frames offered to the channel of the log writer (\<open>None\<close> when no writer is
  configured; \<open>try_send\<close> drops a frame while 65536 frames wait in the channel);
  \<open>sv_calls\<close> counts the calls of \<open>pool.allocate\<close>, each of which may ask the operating system for
  the time and for memory.
\<close>

record Server =
  sv_core :: core_state
  sv_table :: ShardedSwissTable
  sv_wheel :: "HashedTimingWheel option"
  sv_mem :: memory
  sv_out :: bytes
  sv_aof :: "bytes list option"
  sv_client :: "ClientState option"
  sv_calls :: nat

text \<open>
  Library code and the operating system: the hash of a key (\<open>ahash\<close>), the checksum of a log frame
  (\<open>crc32fast\<close>), and for the \<open>n\<close>-th allocation the clock and the address that
  \<open>alloc_zeroed\<close> would return.
\<close>

record Env =
  hash_key :: "bytes \<Rightarrow> u64"
  crc32 :: "bytes \<Rightarrow> u32"
  os_alloc :: "nat \<Rightarrow> u32 \<times> u64"

type_synonym 'a step = "Server \<Rightarrow> (Server \<times> ('a, NetError) outcome) option"

section \<open>Sequencing\<close>

definition ret :: "'a \<Rightarrow> 'a step" where
  "ret x s = Some (s, Ok x)"

definition andthen :: "'a step \<Rightarrow> ('a \<Rightarrow> 'b step) \<Rightarrow> 'b step" where
  "andthen m f s =
     (case m s of
        None \<Rightarrow> None
      | Some (s', Ok x) \<Rightarrow> f x s'
      | Some (s', Err e) \<Rightarrow> Some (s', Err e)
      | Some (s', Panic p) \<Rightarrow> Some (s', Panic p))"

fun for_each :: "'a list \<Rightarrow> ('a \<Rightarrow> 'b \<Rightarrow> 'b step) \<Rightarrow> 'b \<Rightarrow> 'b step" where
  "for_each [] f acc = ret acc"
| "for_each (x # xs) f acc = andthen (f x acc) (\<lambda>acc'. for_each xs f acc')"

section \<open>Elementary steps\<close>

definition reply :: "(bytes \<Rightarrow> bytes) \<Rightarrow> unit step" where
  "reply f s = Some (s\<lparr>sv_out := f (sv_out s)\<rparr>, Ok ())"

definition reply_error :: "string \<Rightarrow> unit step" where
  "reply_error msg = reply (\<lambda>buf. encode_error buf (ascii msg))"

definition reply_simple :: "string \<Rightarrow> unit step" where
  "reply_simple msg = reply (\<lambda>buf. encode_simple_string buf (ascii msg))"

definition reply_int :: "int \<Rightarrow> unit step" where
  "reply_int n = reply (\<lambda>buf. encode_integer buf n)"

definition reply_bulk :: "bytes \<Rightarrow> unit step" where
  "reply_bulk b = reply (\<lambda>buf. encode_bulk_string buf b)"

definition on_table :: "(ShardedSwissTable \<Rightarrow> u64 \<Rightarrow> (ShardedSwissTable \<times> 'r) option) \<Rightarrow> u64 \<Rightarrow> 'r step" where
  "on_table op h s =
     (case op (sv_table s) h of
        None \<Rightarrow> None
      | Some (t, r) \<Rightarrow> Some (s\<lparr>sv_table := t\<rparr>, Ok r))"

definition allocate_step :: "Env \<Rightarrow> SlabClassType \<Rightarrow> SlabBlockId option step" where
  "allocate_step env c s =
     (case os_alloc env (sv_calls s) of
        (now, ptr) \<Rightarrow>
          (case pool_allocate c now ptr (sv_core s) of
             (core, res) \<Rightarrow>
               Some (s\<lparr>sv_core := core, sv_calls := sv_calls s + 1\<rparr>,
                     case res of Ok b \<Rightarrow> Ok (Some b) | Err _ \<Rightarrow> Ok None | Panic m \<Rightarrow> Panic m)))"

text \<open>\<open>let _ = pool.deallocate(id)\<close> drops an error, not a panic.\<close>

definition deallocate_step :: "SlabBlockId \<Rightarrow> unit step" where
  "deallocate_step b s =
     (case pool_deallocate b (sv_core s) of
        (core, res) \<Rightarrow>
          Some (s\<lparr>sv_core := core\<rparr>, case res of Panic m \<Rightarrow> Panic m | _ \<Rightarrow> Ok ()))"

definition free_old :: "SlabBlockId option \<Rightarrow> unit step" where
  "free_old old = (case old of Some b \<Rightarrow> deallocate_step b | None \<Rightarrow> ret ())"

definition resolve_step :: "SlabBlockId \<Rightarrow> u64 option step" where
  "resolve_step b s = Some (s, Ok (resolve_slot_ptr b (snd (sv_core s))))"

definition write_slot :: "u64 \<Rightarrow> bytes \<Rightarrow> unit step" where
  "write_slot p bs s = Some (s\<lparr>sv_mem := copy_nonoverlapping bs p (sv_mem s)\<rparr>, Ok ())"

definition read_slot :: "u64 \<Rightarrow> u32 \<Rightarrow> bytes step" where
  "read_slot p n s = Some (s, Ok (slice_at p (unat n) (sv_mem s)))"

definition schedule_step :: "u64 \<Rightarrow> SlabBlockId \<Rightarrow> u32 \<Rightarrow> unit step" where
  "schedule_step h b ex s = Some (s\<lparr>sv_wheel := map_option (schedule h b ex) (sv_wheel s)\<rparr>, Ok ())"

definition emit_aof :: "Env \<Rightarrow> AofOp \<Rightarrow> bytes \<Rightarrow> bytes \<Rightarrow> u32 \<Rightarrow> unit step" where
  "emit_aof env op key val now s =
     Some (s\<lparr>sv_aof := map_option (\<lambda>fs. fs @ [encode_frame (crc32 env) op key val (unat now)]) (sv_aof s)\<rparr>, Ok ())"

section \<open>Storing a value\<close>

text \<open>
  The sequence that SET, MSET, INCR and APPEND repeat: pick the slab class, allocate, resolve,
  copy, insert, free the block the key had. \<open>None\<close> is the early return after an error reply.
\<close>

definition OOM :: string where
  "OOM = ''OOM command not allowed when used memory > '' @ [CHR 39] @ ''maxmemory'' @ [CHR 39]"

definition store_value :: "Env \<Rightarrow> string \<Rightarrow> u64 \<Rightarrow> bytes \<Rightarrow> u32 \<Rightarrow> SlabBlockId option step" where
  "store_value env too_large h val ex =
     (case for_size (length val) of
        None \<Rightarrow> andthen (reply_error too_large) (\<lambda>_. ret None)
      | Some c \<Rightarrow>
          andthen (allocate_step env c) (\<lambda>res. case res of
            None \<Rightarrow> andthen (reply_error OOM) (\<lambda>_. ret None)
          | Some b \<Rightarrow>
              andthen (resolve_step b) (\<lambda>ptr. case ptr of
                None \<Rightarrow>
                  andthen (deallocate_step b) (\<lambda>_.
                  andthen (reply_error ''ERR internal slab slot error'') (\<lambda>_. ret None))
              | Some p \<Rightarrow>
                  andthen (write_slot p val) (\<lambda>_.
                  andthen (on_table (sh_insert_with_ttl b (of_nat (length val)) ex) h) (\<lambda>old.
                  andthen (free_old old) (\<lambda>_. ret (Some b)))))))"

end
