(* ===== verification/Server_Heap.thy ===== *)
theory Server_Heap
  imports Server_State
begin

text \<open>
  What the handlers keep of the store: every table entry owns a live slot that holds its value,
  and no two entries share one. The abstract view of the store is a map from key hashes to cells
  (value bytes, expiry second, value type); the elementary effects of a handler on pool, memory
  and table are point updates of that map.
\<close>

section \<open>Cells\<close>

record Cell =
  cell_value :: bytes
  cell_expire :: u32
  cell_type :: u8

definition cell_of :: "core_state \<Rightarrow> memory \<Rightarrow> TableEntry \<Rightarrow> Cell" where
  "cell_of core mem e =
     \<lparr>cell_value = (case resolve_slot_ptr (te_slab_block_id e) (snd core) of
                      Some p \<Rightarrow> slice_at p (unat (te_value_len e)) mem | None \<Rightarrow> []),
      cell_expire = te_expire_at_secs e, cell_type = te_value_type e\<rparr>"

definition cells :: "core_state \<Rightarrow> memory \<Rightarrow> (u64 \<rightharpoonup> TableEntry) \<Rightarrow> (u64 \<rightharpoonup> Cell)" where
  "cells core mem m h = map_option (cell_of core mem) (m h)"

definition blocks :: "(u64 \<rightharpoonup> TableEntry) \<Rightarrow> SlabBlockId set" where
  "blocks m = te_slab_block_id ` ran m"

definition heap_ok :: "core_state \<Rightarrow> (u64 \<rightharpoonup> TableEntry) \<Rightarrow> bool" where [inv_defs]:
  "heap_ok core m \<longleftrightarrow> core_inv core \<and> layout_ok (fst core) \<and>
     (\<forall>h e. m h = Some e \<longrightarrow> te_slab_block_id e \<in> pool_live (fst core) \<and>
        fits (fst core) (te_slab_block_id e) (unat (te_value_len e))) \<and>
     (\<forall>h h' e e'. m h = Some e \<longrightarrow> m h' = Some e' \<longrightarrow> te_slab_block_id e = te_slab_block_id e' \<longrightarrow> h = h')"

lemma heap_okD:
  assumes "heap_ok core m"
  shows "core_inv core" "layout_ok (fst core)"
    "\<And>h e. m h = Some e \<Longrightarrow> te_slab_block_id e \<in> pool_live (fst core)"
    "\<And>h e. m h = Some e \<Longrightarrow> fits (fst core) (te_slab_block_id e) (unat (te_value_len e))"
    "\<And>h h' e e'. m h = Some e \<Longrightarrow> m h' = Some e' \<Longrightarrow> te_slab_block_id e = te_slab_block_id e' \<Longrightarrow> h = h'"
  using assms unfolding heap_ok_def by blast+

lemma heap_ok_resolves:
  assumes "heap_ok core m" "m h = Some e"
  obtains p where "resolve_slot_ptr (te_slab_block_id e) (snd core) = Some p"
  using live_slab [OF heap_okD(1) [OF assms(1)] heap_okD(3) [OF assms]] by metis

lemma blocksI: "m h = Some e \<Longrightarrow> te_slab_block_id e \<in> blocks m"
  by (auto simp: blocks_def ran_def)

lemma old_block_free:
  assumes "heap_ok core m" "m h = Some e" "\<And>e'. x = Some e' \<Longrightarrow> te_slab_block_id e' \<noteq> te_slab_block_id e"
  shows "te_slab_block_id e \<notin> blocks (m(h := x))"
  using heap_okD(5) [OF assms(1,2)] assms(3) by (fastforce simp: blocks_def ran_def split: if_splits)

section \<open>Pool steps\<close>

lemma fits_stable:
  assumes inv: "core_inv s" "core_inv s'" and b: "b \<in> pool_live (fst s)" "b \<in> pool_live (fst s')"
    and sub: "slabs (fst s') \<subseteq> insert (next_global_slab_id (snd s), new) (slabs (fst s))"
    and f: "fits (fst s) b n"
  shows "fits (fst s') b n"
proof -
  obtain x c where x: "(slab_id b, x, c) \<in> slabs (fst s)" "n \<le> slot_bytes c"
      "slot_offset c (unat (slot_index b)) + n \<le> MEGASLAB_BYTES"
    using f unfolding fits_def by blast
  obtain y d where y: "(slab_id b, y, d) \<in> slabs (fst s')" by (rule live_slab [OF inv(2) b(2)])
  then have "(slab_id b, y, d) \<in> slabs (fst s)" using sub slab_id_used [OF inv(1) x(1)] by auto
  from slabs_fun [OF inv(1) this x(1)] show ?thesis using x y by (auto simp: fits_def)
qed

lemma heap_core_step:
  assumes ok: "heap_ok s m" and inv: "core_inv s'" and lay: "layout_ok (fst s')"
    and live: "blocks m \<subseteq> pool_live (fst s')"
    and sub: "slabs (fst s') \<subseteq> insert (next_global_slab_id (snd s), new) (slabs (fst s))"
  shows "heap_ok s' m" "cells s' mem m = cells s mem m"
proof -
  note D = heap_okD [OF ok]
  have l: "te_slab_block_id e \<in> pool_live (fst s')" if "m h = Some e" for h e
    using live blocksI [of m h e] that by blast
  have "fits (fst s') (te_slab_block_id e) (unat (te_value_len e))" if "m h = Some e" for h e
    using fits_stable [OF D(1) inv D(3) [OF that] l [OF that] sub D(4) [OF that]] .
  then show "heap_ok s' m" using inv lay l D(5) unfolding heap_ok_def by blast
  have "cell_of s' mem e = cell_of s mem e" if "m h = Some e" for h e
    using resolve_stable [OF D(1) inv D(3) [OF that] l [OF that] sub] by (simp add: cell_of_def)
  then show "cells s' mem m = cells s mem m" by (auto simp: cells_def fun_eq_iff map_option_case split: option.split)
qed

lemma heap_free:
  assumes ok: "heap_ok s m" and b: "b \<in> pool_live (fst s)" "b \<notin> blocks m"
    and run: "pool_deallocate b s = (s', res)"
  shows "res = Ok ()" "heap_ok s' m" "cells s' mem m = cells s mem m" "pool_live (fst s') = pool_live (fst s) - {b}"
proof -
  note D = heap_okD [OF ok]
  note dl = pool_deallocate_live [OF D(1) b(1) run]
  have sub: "slabs (fst s') \<subseteq> slabs (fst s)" by (rule pool_deallocate_slabs [OF run])
  have live: "blocks m \<subseteq> pool_live (fst s')"
    using b(2) D(3) unfolding dl(3) by (auto simp: blocks_def ran_def)
  note st = heap_core_step [OF ok dl(2) layout_sub [OF D(2) sub] live subset_insertI2 [OF sub]]
  show "heap_ok s' m" by (rule st(1))
  show "cells s' mem m = cells s mem m" by (rule st(2))
qed (use pool_deallocate_live [OF heap_okD(1) [OF ok] b(1) run] in simp_all)

text \<open>A payload of \<open>n\<close> bytes in a slot of class \<open>c\<close> stays inside the megaslab.\<close>

definition payload_ok :: "SlabClassType \<Rightarrow> nat \<Rightarrow> bool" where
  "payload_ok c n \<longleftrightarrow> n \<le> slot_bytes c \<and> MEGASLAB_HEADER_BYTES + n \<le> MEGASLAB_BYTES"

lemma payload_fits:
  assumes "payload_ok c n" "i < slots_per_megaslab c"
  shows "slot_offset c i + n \<le> MEGASLAB_BYTES"
proof (cases "c = Tensor2MB")
  case True
  then have "i = 0" using assms(2) by (simp add: geometry)
  then show ?thesis using assms(1) by (simp add: payload_ok_def slot_offset_def)
next
  case False
  then show ?thesis using slot_offset_fits [OF assms(2)] assms(1) by (simp add: payload_ok_def)
qed

lemma alloc_fits:
  assumes run: "alloc_result c p s' b" and n: "payload_ok c n" and live: "b \<in> pool_live (fst s')"
  shows "fits (fst s') b n"
proof -
  have inv: "core_inv s'" using run by (simp add: alloc_result_def)
  obtain x d where x: "(slab_id b, x, d) \<in> slabs (fst s')" "unat (slot_index b) < slots_per_megaslab d"
    by (rule live_slab [OF inv live])
  obtain a where "a \<in> set (arenas (fst s'))" "arena_class a = c" "slab_id b = arena_slab_id a"
    using run by (auto simp: alloc_result_def)
  then have "(slab_id b, base a, c) \<in> slabs (fst s')" by (auto simp: slabs_def)
  then have "d = c" using slabs_fun [OF inv x(1)] by auto
  then show ?thesis using x payload_fits [OF n] n by (auto simp: fits_def payload_ok_def)
qed

lemma heap_alloc:
  assumes ok: "heap_ok s m" and run: "pool_allocate c now ptr s = (s', Ok b)"
    and new: "b \<notin> pool_live (fst s)" and ptr: "fresh_region ptr (fst s) (fst s')"
  shows "heap_ok s' m" "cells s' mem m = cells s mem m" "b \<in> pool_live (fst s')" "b \<notin> blocks m"
    "payload_ok c n \<Longrightarrow> fits (fst s') b n"
proof -
  note D = heap_okD [OF ok]
  have res: "alloc_result c (fst s) s' b" using pool_allocate_spec [OF D(1) run] by simp
  then have inv: "core_inv s'" and live: "pool_live (fst s') = insert b (pool_live (fst s))"
    using new by (auto simp: alloc_result_def)
  note sub = pool_allocate_slabs [OF run]
  have bl: "blocks m \<subseteq> pool_live (fst s)" using D(3) by (auto simp: blocks_def ran_def)
  then have "blocks m \<subseteq> pool_live (fst s')" using live by blast
  note st = heap_core_step [OF ok inv layout_grow [OF D(2) ptr sub] this sub]
  show "heap_ok s' m" by (rule st(1))
  show "cells s' mem m = cells s mem m" by (rule st(2))
  show "b \<in> pool_live (fst s')" using live by simp
  then show "fits (fst s') b n" if "payload_ok c n" using alloc_fits [OF res that] by simp
  show "b \<notin> blocks m" using bl new by blast
qed

lemma heap_alloc_err:
  assumes ok: "heap_ok s m" and run: "pool_allocate c now ptr s = (s', Err e)"
    and ptr: "fresh_region ptr (fst s) (fst s')"
  shows "heap_ok s' m" "cells s' mem m = cells s mem m"
proof -
  note D = heap_okD [OF ok]
  have inv: "core_inv s'" and live: "pool_live (fst s') = pool_live (fst s)"
    using pool_allocate_spec [OF D(1) run] by simp_all
  note sub = pool_allocate_slabs [OF run]
  have "blocks m \<subseteq> pool_live (fst s')" using D(3) live by (auto simp: blocks_def ran_def)
  note st = heap_core_step [OF ok inv layout_grow [OF D(2) ptr sub] this sub]
  show "heap_ok s' m" by (rule st(1))
  show "cells s' mem m = cells s mem m" by (rule st(2))
qed

section \<open>Table steps\<close>

lemma heap_insert:
  assumes ok: "heap_ok s m" and b: "b \<in> pool_live (fst s)" "b \<notin> blocks m"
    and f: "fits (fst s) b (length val)" and p: "resolve_slot_ptr b (snd s) = Some p"
    and len: "length val < 2 ^ 32"
    and e: "te_slab_block_id e = b" "te_value_len e = of_nat (length val)"
  shows "heap_ok s (m(h \<mapsto> e))"
    "cells s (copy_nonoverlapping val p mem) (m(h \<mapsto> e)) =
       (cells s mem m)(h \<mapsto> \<lparr>cell_value = val, cell_expire = te_expire_at_secs e, cell_type = te_value_type e\<rparr>)"
proof -
  note D = heap_okD [OF ok]
  have n: "unat (te_value_len e) = length val" using len by (simp add: e unat_of_nat)
  have other: "te_slab_block_id e' \<noteq> b" if "m h' = Some e'" for h' e' using b(2) blocksI [of m h' e'] that by auto
  show "heap_ok s (m(h \<mapsto> e))"
    unfolding heap_ok_def
  proof (intro conjI allI impI)
    fix h1 h2 e1 e2
    assume "(m(h \<mapsto> e)) h1 = Some e1" "(m(h \<mapsto> e)) h2 = Some e2" "te_slab_block_id e1 = te_slab_block_id e2"
    then show "h1 = h2" using other D(5) e(1) by (auto split: if_splits)
  qed (use D b(1) f n e(1) in \<open>auto split: if_splits\<close>)
  have same: "cell_of s (copy_nonoverlapping val p mem) e' = cell_of s mem e'" if e': "m h' = Some e'" for h' e'
  proof -
    obtain q where q: "resolve_slot_ptr (te_slab_block_id e') (snd s) = Some q" by (rule heap_ok_resolves [OF ok e'])
    have "slice_at q (unat (te_value_len e')) (copy_nonoverlapping val p mem) = slice_at q (unat (te_value_len e')) mem"
      by (rule slice_disjoint) (rule slots_disjoint [OF D(1,2) _ p f b(1) q D(4) [OF e'] D(3) [OF e']], use other [OF e'] in auto)
    then show ?thesis using q by (simp add: cell_of_def)
  qed
  have "slice_at p (length val) (copy_nonoverlapping val p mem) = val" by (rule slice_copied) (use len in simp)
  then have "cell_of s (copy_nonoverlapping val p mem) e =
      \<lparr>cell_value = val, cell_expire = te_expire_at_secs e, cell_type = te_value_type e\<rparr>"
    using p n by (simp add: cell_of_def e(1))
  then show "cells s (copy_nonoverlapping val p mem) (m(h \<mapsto> e)) =
      (cells s mem m)(h \<mapsto> \<lparr>cell_value = val, cell_expire = te_expire_at_secs e, cell_type = te_value_type e\<rparr>)"
    using same by (auto simp: cells_def fun_eq_iff map_option_case split: option.split)
qed

lemma heap_remove:
  assumes "heap_ok s m"
  shows "heap_ok s (m(h := None))" "cells s mem (m(h := None)) = (cells s mem m)(h := None)"
proof -
  show "heap_ok s (m(h := None))"
    using heap_okD [OF assms] unfolding heap_ok_def by (auto split: if_splits)
qed (auto simp: cells_def fun_eq_iff)

lemma heap_retime:
  assumes ok: "heap_ok s m" and h: "m h = Some e"
  shows "heap_ok s (m(h \<mapsto> e\<lparr>te_expire_at_secs := ex\<rparr>))"
    "cells s mem (m(h \<mapsto> e\<lparr>te_expire_at_secs := ex\<rparr>)) =
       (cells s mem m)(h \<mapsto> (cell_of s mem e)\<lparr>cell_expire := ex\<rparr>)"
proof -
  note D = heap_okD [OF ok]
  show "heap_ok s (m(h \<mapsto> e\<lparr>te_expire_at_secs := ex\<rparr>))"
    unfolding heap_ok_def
  proof (intro conjI allI impI)
    fix h1 h2 e1 e2
    assume "(m(h \<mapsto> e\<lparr>te_expire_at_secs := ex\<rparr>)) h1 = Some e1" "(m(h \<mapsto> e\<lparr>te_expire_at_secs := ex\<rparr>)) h2 = Some e2"
      "te_slab_block_id e1 = te_slab_block_id e2"
    then show "h1 = h2" using D(5) h by (auto split: if_splits)
  qed (use D h in \<open>auto split: if_splits\<close>)
qed (auto simp: cells_def cell_of_def fun_eq_iff split: option.split)

end
