(* ===== verification/Server_Handlers.thy ===== *)
theory Server_Handlers
  imports Server_State
begin

text \<open>
  The handlers of string commands (\<open>strings.rs\<close>) and of expiry commands (\<open>expiry.rs\<close>) in
  \<open>crates/kachedb-net/src/connection\<close>, one definition per command.
\<close>

section \<open>String commands\<close>

definition WRONGTYPE :: string where
  "WRONGTYPE = ''WRONGTYPE Operation against a key holding the wrong kind of value''"

definition NOT_INTEGER :: string where
  "NOT_INTEGER = ''ERR value is not an integer or out of range''"

definition VALUE_TOO_LARGE :: string where
  "VALUE_TOO_LARGE = ''ERR value exceeds maximum supported slab size (2 MB)''"

text \<open>\<open>i64::to_string\<close> and \<open>i64::checked_add\<close>.\<close>

definition int_text :: "int \<Rightarrow> bytes" where
  "int_text n = (if n < 0 then 45 # write_usize [] (nat (- n)) else write_usize [] (nat n))"

definition checked_add :: "int \<Rightarrow> int \<Rightarrow> int option" where
  "checked_add a b = (if - (2 ^ 63) \<le> a + b \<and> a + b < 2 ^ 63 then Some (a + b) else None)"

definition incr_store :: "Env \<Rightarrow> u64 \<Rightarrow> int \<Rightarrow> u32 \<Rightarrow> unit step" where
  "incr_store env h new_val ex =
     andthen (store_value env VALUE_TOO_LARGE h (int_text new_val) ex) (\<lambda>stored.
       case stored of Some _ \<Rightarrow> reply_int new_val | None \<Rightarrow> ret ())"

definition execute_incr_by :: "Env \<Rightarrow> bytes \<Rightarrow> int \<Rightarrow> u32 \<Rightarrow> unit step" where
  "execute_incr_by env key delta now =
     (let h = hash_key env key
      in andthen (on_table (sh_lookup_checked now) h) (\<lambda>found. case found of
           None \<Rightarrow> incr_store env h delta 0
         | Some e \<Rightarrow>
             if te_value_type e \<noteq> VALUE_TYPE_STRING then reply_error WRONGTYPE
             else andthen (resolve_step (te_slab_block_id e)) (\<lambda>ptr. case ptr of
               None \<Rightarrow> reply_error ''ERR internal slab slot error''
             | Some p \<Rightarrow>
                 andthen (read_slot p (te_value_len e)) (\<lambda>old. case parse_i64 old of
                   None \<Rightarrow> reply_error NOT_INTEGER
                 | Some old_val \<Rightarrow>
                     (case checked_add old_val delta of
                        None \<Rightarrow> reply_error ''ERR increment or decrement would overflow''
                      | Some new_val \<Rightarrow> incr_store env h new_val (te_expire_at_secs e))))))"

definition get_cmd :: "Env \<Rightarrow> bytes \<Rightarrow> u32 \<Rightarrow> unit step" where
  "get_cmd env key now =
     andthen (on_table (sh_lookup_checked now) (hash_key env key)) (\<lambda>found. case found of
       None \<Rightarrow> reply encode_null
     | Some e \<Rightarrow>
         if te_value_type e \<noteq> VALUE_TYPE_STRING then reply_error WRONGTYPE
         else andthen (resolve_step (te_slab_block_id e)) (\<lambda>ptr. case ptr of
           None \<Rightarrow> reply encode_null
         | Some p \<Rightarrow> andthen (read_slot p (te_value_len e)) reply_bulk))"

text \<open>The division and \<open>max\<close> are on \<open>u64\<close>, the cast keeps 32 bits, and the sum wraps.\<close>

definition set_expire_at :: "u64 option \<Rightarrow> u32 \<Rightarrow> u32" where
  "set_expire_at ttl_ms now =
     (case ttl_ms of
        None \<Rightarrow> 0
      | Some ms \<Rightarrow> (let secs = ucast (max (ms div 1000) 1) in if now > 0 then now + secs else secs))"

definition set_cmd :: "Env \<Rightarrow> bytes \<Rightarrow> bytes \<Rightarrow> u64 option \<Rightarrow> u32 \<Rightarrow> unit step" where
  "set_cmd env key val ttl_ms now =
     (let h = hash_key env key; ex = set_expire_at ttl_ms now
      in andthen (store_value env VALUE_TOO_LARGE h val ex) (\<lambda>stored. case stored of
           None \<Rightarrow> ret ()
         | Some b \<Rightarrow>
             andthen (if ex > 0 then schedule_step h b ex else ret ()) (\<lambda>_.
             andthen (emit_aof env AofSet key val now) (\<lambda>_. reply_simple ''OK''))))"

definition mget_one :: "Env \<Rightarrow> u32 \<Rightarrow> bytes \<Rightarrow> unit \<Rightarrow> unit step" where
  "mget_one env now key u =
     andthen (on_table (sh_lookup_checked now) (hash_key env key)) (\<lambda>found. case found of
       None \<Rightarrow> reply encode_null
     | Some e \<Rightarrow>
         if te_value_type e = VALUE_TYPE_STRING
         then andthen (resolve_step (te_slab_block_id e)) (\<lambda>ptr. case ptr of
                None \<Rightarrow> reply encode_null
              | Some p \<Rightarrow> andthen (read_slot p (te_value_len e)) reply_bulk)
         else reply encode_null)"

definition mget_cmd :: "Env \<Rightarrow> bytes list \<Rightarrow> u32 \<Rightarrow> unit step" where
  "mget_cmd env keys now =
     andthen (reply (\<lambda>buf. encode_array_header buf (length keys))) (\<lambda>_.
       for_each keys (mget_one env now) ())"

text \<open>A pair that cannot be stored ends the command; the pairs before it stay.\<close>

fun mset_cmd :: "Env \<Rightarrow> (bytes \<times> bytes) list \<Rightarrow> unit step" where
  "mset_cmd env [] = reply_simple ''OK''"
| "mset_cmd env ((key, val) # rest) =
     andthen (store_value env VALUE_TOO_LARGE (hash_key env key) val 0) (\<lambda>stored. case stored of
       None \<Rightarrow> ret ()
     | Some _ \<Rightarrow> mset_cmd env rest)"

definition remove_key :: "Env \<Rightarrow> u32 \<Rightarrow> bytes \<Rightarrow> bool step" where
  "remove_key env now key =
     andthen (on_table sh_remove (hash_key env key)) (\<lambda>removed. case removed of
       None \<Rightarrow> ret False
     | Some e \<Rightarrow>
         andthen (deallocate_step (te_slab_block_id e)) (\<lambda>_.
         andthen (emit_aof env AofDel key [] now) (\<lambda>_. ret True)))"

definition del_cmd :: "Env \<Rightarrow> bytes list \<Rightarrow> u32 \<Rightarrow> unit step" where
  "del_cmd env keys now =
     andthen (for_each keys (\<lambda>key n. andthen (remove_key env now key) (\<lambda>r. ret (if r then n + 1 else n))) 0)
       reply_int"

definition exists_cmd :: "Env \<Rightarrow> bytes list \<Rightarrow> u32 \<Rightarrow> unit step" where
  "exists_cmd env keys now =
     andthen (for_each keys (\<lambda>key n.
         andthen (on_table (sh_lookup_checked now) (hash_key env key)) (\<lambda>found.
           ret (if found \<noteq> None then n + 1 else n))) 0)
       reply_int"

definition append_store :: "Env \<Rightarrow> u64 \<Rightarrow> bytes \<Rightarrow> u32 \<Rightarrow> unit step" where
  "append_store env h combined ex =
     andthen (store_value env ''ERR string exceeds maximum supported slab size (2 MB)'' h combined ex)
       (\<lambda>stored. case stored of Some _ \<Rightarrow> reply_int (int (length combined)) | None \<Rightarrow> ret ())"

definition append_cmd :: "Env \<Rightarrow> bytes \<Rightarrow> bytes \<Rightarrow> u32 \<Rightarrow> unit step" where
  "append_cmd env key val now =
     (let h = hash_key env key
      in andthen (on_table (sh_lookup_checked now) h) (\<lambda>found. case found of
           None \<Rightarrow> append_store env h val 0
         | Some e \<Rightarrow>
             if te_value_type e \<noteq> VALUE_TYPE_STRING then reply_error WRONGTYPE
             else andthen (resolve_step (te_slab_block_id e)) (\<lambda>ptr. case ptr of
               None \<Rightarrow> append_store env h val 0
             | Some p \<Rightarrow>
                 andthen (read_slot p (te_value_len e)) (\<lambda>existing.
                   append_store env h (existing @ val) (te_expire_at_secs e)))))"

definition strlen_cmd :: "Env \<Rightarrow> bytes \<Rightarrow> u32 \<Rightarrow> unit step" where
  "strlen_cmd env key now =
     andthen (on_table (sh_lookup_checked now) (hash_key env key)) (\<lambda>found. case found of
       None \<Rightarrow> reply_int 0
     | Some e \<Rightarrow> reply_int (uint (te_value_len e)))"

definition handle_strings :: "Env \<Rightarrow> u32 \<Rightarrow> Command \<Rightarrow> bool step" where
  "handle_strings env now cmd =
     andthen (case cmd of
         Get key \<Rightarrow> get_cmd env key now
       | Set key val ttl_ms \<Rightarrow> set_cmd env key val ttl_ms now
       | MGet keys \<Rightarrow> mget_cmd env keys now
       | MSet pairs \<Rightarrow> mset_cmd env pairs
       | Del keys \<Rightarrow> del_cmd env keys now
       | Exists keys \<Rightarrow> exists_cmd env keys now
       | Incr key \<Rightarrow> execute_incr_by env key 1 now
       | Decr key \<Rightarrow> execute_incr_by env key (-1) now
       | IncrBy key delta \<Rightarrow> execute_incr_by env key delta now
       | DecrBy key delta \<Rightarrow> execute_incr_by env key (neg_i64 delta) now
       | Append key val \<Rightarrow> append_cmd env key val now
       | Strlen key \<Rightarrow> strlen_cmd env key now
       | _ \<Rightarrow> (\<lambda>s. Some (s, Panic ''handle_strings called with non-string command'')))
     (\<lambda>_. ret True)"

section \<open>Expiry commands\<close>

definition saturating_add :: "u32 \<Rightarrow> u32 \<Rightarrow> u32" where
  "saturating_add a b = (if unat a + unat b < 2 ^ 32 then a + b else - 1)"

text \<open>The two branches that EXPIRE, PEXPIRE, EXPIREAT and PEXPIREAT share.\<close>

definition expire_now :: "Env \<Rightarrow> bytes \<Rightarrow> u32 \<Rightarrow> unit step" where
  "expire_now env key now =
     andthen (remove_key env now key) (\<lambda>removed. reply_int (if removed then 1 else 0))"

definition expire_at :: "Env \<Rightarrow> bytes \<Rightarrow> u32 \<Rightarrow> u32 \<Rightarrow> unit step" where
  "expire_at env key ex now =
     (let h = hash_key env key
      in andthen (on_table (sh_update_ttl ex now) h) (\<lambda>ok.
         andthen (if ok
                  then andthen (emit_aof env AofExpire key (write_usize [] (unat ex)) now) (\<lambda>_.
                       andthen (on_table (sh_lookup_checked now) h) (\<lambda>found. case found of
                         None \<Rightarrow> ret ()
                       | Some e \<Rightarrow> schedule_step h (te_slab_block_id e) ex))
                  else ret ())
           (\<lambda>_. reply_int (if ok then 1 else 0))))"

text \<open>The casts from \<open>i64\<close> to \<open>u32\<close> keep the low 32 bits; \<open>/\<close> on \<open>i64\<close> rounds towards zero.\<close>

definition i64_div :: "int \<Rightarrow> int \<Rightarrow> int" where
  "i64_div a b = (if a < 0 then - ((- a) div b) else a div b)"

definition expire_cmd :: "Env \<Rightarrow> bytes \<Rightarrow> int \<Rightarrow> u32 \<Rightarrow> unit step" where
  "expire_cmd env key seconds now =
     (if seconds \<le> 0 then expire_now env key now
      else expire_at env key (if now > 0 then saturating_add now (of_int seconds) else of_int seconds) now)"

definition pexpire_cmd :: "Env \<Rightarrow> bytes \<Rightarrow> int \<Rightarrow> u32 \<Rightarrow> unit step" where
  "pexpire_cmd env key milliseconds now =
     (if milliseconds \<le> 0 then expire_now env key now
      else (let secs = of_int (max (i64_div milliseconds 1000) 1)
            in expire_at env key (if now > 0 then saturating_add now secs else secs) now))"

definition expireat_cmd :: "Env \<Rightarrow> bytes \<Rightarrow> int \<Rightarrow> u32 \<Rightarrow> unit step" where
  "expireat_cmd env key timestamp now =
     (if now > 0 \<and> timestamp \<le> uint now then expire_now env key now
      else expire_at env key (of_int (max timestamp 0)) now)"

definition pexpireat_cmd :: "Env \<Rightarrow> bytes \<Rightarrow> int \<Rightarrow> u32 \<Rightarrow> unit step" where
  "pexpireat_cmd env key timestamp_ms now =
     (let ts_sec = i64_div timestamp_ms 1000
      in if now > 0 \<and> ts_sec \<le> uint now then expire_now env key now
         else expire_at env key (of_int (max ts_sec 0)) now)"

definition handle_expiry :: "Env \<Rightarrow> u32 \<Rightarrow> Command \<Rightarrow> bool step" where
  "handle_expiry env now cmd =
     andthen (case cmd of
         Expire key seconds \<Rightarrow> expire_cmd env key seconds now
       | PExpire key ms \<Rightarrow> pexpire_cmd env key ms now
       | ExpireAt key ts \<Rightarrow> expireat_cmd env key ts now
       | PExpireAt key ts \<Rightarrow> pexpireat_cmd env key ts now
       | Ttl key \<Rightarrow> andthen (on_table (sh_get_ttl now) (hash_key env key)) reply_int
       | PTtl key \<Rightarrow> andthen (on_table (sh_get_ttl now) (hash_key env key))
           (\<lambda>ttl. reply_int (if ttl > 0 then ttl * 1000 else ttl))
       | Persist key \<Rightarrow> andthen (on_table (sh_persist now) (hash_key env key))
           (\<lambda>ok. reply_int (if ok then 1 else 0))
       | _ \<Rightarrow> (\<lambda>s. Some (s, Panic ''handle_expiry called with non-expiry command'')))
     (\<lambda>_. ret True)"

end
