(* ===== verification/Hash_Frame.thy ===== *)
theory Hash_Frame
  imports Wire_Bytes
begin

text \<open>
  \<open>crates/kachedb-hash/src/hash_frame.rs\<close>: the fields of a Redis hash inside one slab slot. The
  slot is a byte buffer: a header of four \<open>u16\<close>, the payload growing upwards, and an
  open-addressing directory of ten-byte buckets growing down from the end. \<open>u16\<close> values are
  naturals as read from the buffer; \<open>to_le_bytes\<close> keeps the low 16 bits. The key hash (\<open>ahash\<close>) is
  the argument \<open>hk\<close>.
\<close>

section \<open>Layout\<close>

definition HEADER_SIZE :: nat where "HEADER_SIZE = 8"
definition BUCKET_SIZE :: nat where "BUCKET_SIZE = 10"
definition EMPTY_FIELD_LEN :: nat where "EMPTY_FIELD_LEN = 0"
definition TOMBSTONE_FIELD_LEN :: nat where "TOMBSTONE_FIELD_LEN = 0xFFFF"
definition MAX_SLOT_CAPACITY :: nat where "MAX_SLOT_CAPACITY = 4096"

datatype FrameError = FrameFull | CorruptFrame

definition hash_field :: "(bytes \<Rightarrow> u64) \<Rightarrow> bytes \<Rightarrow> u32" where
  "hash_field hk field = (let h = hk field in ucast (h XOR drop_bit 32 h))"

record Bucket =
  hash32 :: nat
  bk_offset :: nat
  field_len :: nat
  val_len :: nat

definition default_k_for_capacity :: "nat \<Rightarrow> nat" where
  "default_k_for_capacity cap = (if cap \<le> 128 then 8 else if cap \<le> 512 then 16 else 32)"

definition write_header :: "nat \<Rightarrow> nat \<Rightarrow> nat \<Rightarrow> nat \<Rightarrow> bytes \<Rightarrow> bytes" where
  "write_header live msk pend dead slot =
     write_at 6 (u16_le dead) (write_at 4 (u16_le pend) (write_at 2 (u16_le msk) (write_at 0 (u16_le live) slot)))"

definition init_frame :: "bytes \<Rightarrow> bytes \<times> (unit, FrameError) outcome" where
  "init_frame slot =
     (let cap = length slot
      in if \<not> (64 \<le> cap \<and> cap \<le> MAX_SLOT_CAPACITY) then (slot, Err CorruptFrame)
         else (let k = default_k_for_capacity cap; slot1 = write_header 0 (k - 1) HEADER_SIZE 0 slot;
                   dir_bytes = k * BUCKET_SIZE
               in if HEADER_SIZE + dir_bytes > cap then (slot1, Err FrameFull)
                  else (write_at (cap - dir_bytes) (replicate dir_bytes 0) slot1, Ok ())))"

definition is_pow2 :: "nat \<Rightarrow> bool" where
  "is_pow2 k \<longleftrightarrow> next_power_of_two k = k"

definition read_header :: "bytes \<Rightarrow> (nat \<times> nat \<times> nat \<times> nat, FrameError) outcome" where
  "read_header slot =
     (if length slot < HEADER_SIZE then Err CorruptFrame
      else (let live = from_le (bytes_at 0 2 slot); msk = from_le (bytes_at 2 2 slot);
                pend = from_le (bytes_at 4 2 slot); dead = from_le (bytes_at 6 2 slot); k = msk + 1
            in if \<not> is_pow2 k \<or> \<not> (4 \<le> k \<and> k \<le> 256) then Err CorruptFrame
               else if pend < HEADER_SIZE \<or> pend > length slot - k * BUCKET_SIZE then Err CorruptFrame
               else Ok (live, msk, pend, dead)))"

definition bucket_off :: "bytes \<Rightarrow> nat \<Rightarrow> nat" where
  "bucket_off slot i = length slot - BUCKET_SIZE * (i + 1)"

definition read_bucket :: "bytes \<Rightarrow> nat \<Rightarrow> Bucket" where
  "read_bucket slot i =
     (let b = bucket_off slot i
      in \<lparr>hash32 = from_le (bytes_at b 4 slot), bk_offset = from_le (bytes_at (b + 4) 2 slot),
          field_len = from_le (bytes_at (b + 6) 2 slot), val_len = from_le (bytes_at (b + 8) 2 slot)\<rparr>)"

definition write_bucket :: "nat \<Rightarrow> Bucket \<Rightarrow> bytes \<Rightarrow> bytes" where
  "write_bucket i b slot =
     (let off = bucket_off slot i
      in write_at (off + 8) (u16_le (val_len b)) (write_at (off + 6) (u16_le (field_len b))
           (write_at (off + 4) (u16_le (bk_offset b)) (write_at off (u32_le (hash32 b)) slot))))"

definition frame_live_count :: "bytes \<Rightarrow> nat" where
  "frame_live_count slot = (case read_header slot of Ok (live, _) \<Rightarrow> live | _ \<Rightarrow> 0)"

section \<open>Lookup and deletion\<close>

definition is_live :: "Bucket \<Rightarrow> bool" where
  "is_live b \<longleftrightarrow> field_len b \<noteq> EMPTY_FIELD_LEN \<and> field_len b \<noteq> TOMBSTONE_FIELD_LEN"

definition field_of :: "bytes \<Rightarrow> Bucket \<Rightarrow> bytes" where
  "field_of slot b = bytes_at (bk_offset b) (field_len b) slot"

definition value_of :: "bytes \<Rightarrow> Bucket \<Rightarrow> bytes" where
  "value_of slot b = bytes_at (bk_offset b + field_len b) (val_len b) slot"

text \<open>\<open>f_off + f_len <= slot.len() && &slot[f_off..f_off + f_len] == field\<close>\<close>

definition holds_field :: "bytes \<Rightarrow> Bucket \<Rightarrow> bytes \<Rightarrow> bool" where
  "holds_field slot b field \<longleftrightarrow> bk_offset b + field_len b \<le> length slot \<and> field_of slot b = field"

definition value_inside :: "bytes \<Rightarrow> Bucket \<Rightarrow> bool" where
  "value_inside slot b \<longleftrightarrow> bk_offset b + field_len b + val_len b \<le> length slot"

fun get_loop :: "bytes \<Rightarrow> bytes \<Rightarrow> nat \<Rightarrow> nat \<Rightarrow> nat \<Rightarrow> nat \<Rightarrow> bytes option" where
  "get_loop slot field hash msk 0 i = None"
| "get_loop slot field hash msk (Suc n) i =
     (let b = read_bucket slot i
      in if field_len b = EMPTY_FIELD_LEN then None
         else if field_len b \<noteq> TOMBSTONE_FIELD_LEN \<and> hash32 b = hash \<and> holds_field slot b field \<and> value_inside slot b
         then Some (value_of slot b)
         else get_loop slot field hash msk n ((i + 1) AND msk))"

definition frame_get :: "(bytes \<Rightarrow> u64) \<Rightarrow> bytes \<Rightarrow> bytes \<Rightarrow> bytes option" where
  "frame_get hk slot field =
     (case read_header slot of
        Ok (live, msk, _, _) \<Rightarrow>
          if live = 0 then None
          else (let hash = unat (hash_field hk field) in get_loop slot field hash msk (msk + 1) (hash AND msk))
      | _ \<Rightarrow> None)"

definition frame_exists :: "(bytes \<Rightarrow> u64) \<Rightarrow> bytes \<Rightarrow> bytes \<Rightarrow> bool" where
  "frame_exists hk slot field \<longleftrightarrow> frame_get hk slot field \<noteq> None"

definition tombstone :: Bucket where
  "tombstone = \<lparr>hash32 = 0, bk_offset = 0, field_len = TOMBSTONE_FIELD_LEN, val_len = 0\<rparr>"

definition saturating_add16 :: "nat \<Rightarrow> nat \<Rightarrow> nat" where
  "saturating_add16 a b = min (a + b mod 2 ^ 16) (2 ^ 16 - 1)"

fun find_loop :: "bytes \<Rightarrow> bytes \<Rightarrow> nat \<Rightarrow> nat \<Rightarrow> nat \<Rightarrow> nat \<Rightarrow> nat option" where
  "find_loop slot field hash msk 0 i = None"
| "find_loop slot field hash msk (Suc n) i =
     (let b = read_bucket slot i
      in if field_len b = EMPTY_FIELD_LEN then None
         else if field_len b \<noteq> TOMBSTONE_FIELD_LEN \<and> hash32 b = hash \<and> holds_field slot b field then Some i
         else find_loop slot field hash msk n ((i + 1) AND msk))"

definition frame_delete :: "(bytes \<Rightarrow> u64) \<Rightarrow> bytes \<Rightarrow> bytes \<Rightarrow> bytes \<times> bool" where
  "frame_delete hk slot field =
     (case read_header slot of
        Ok (live, msk, pend, dead) \<Rightarrow>
          if live = 0 then (slot, False)
          else (let hash = unat (hash_field hk field)
                in case find_loop slot field hash msk (msk + 1) (hash AND msk) of
                     None \<Rightarrow> (slot, False)
                   | Some i \<Rightarrow>
                       (let b = read_bucket slot i
                        in (write_header (live - 1) msk pend (saturating_add16 dead (field_len b + val_len b))
                              (write_bucket i tombstone slot), True)))
      | _ \<Rightarrow> (slot, False))"

section \<open>Insertion\<close>

text \<open>The probe of \<open>upsert\<close>: the bucket of the field, the first free bucket, the tombstones passed.\<close>

fun upsert_probe ::
    "bytes \<Rightarrow> bytes \<Rightarrow> nat \<Rightarrow> nat \<Rightarrow> nat \<Rightarrow> nat \<Rightarrow> nat option \<Rightarrow> nat \<Rightarrow> nat option \<times> nat option \<times> nat" where
  "upsert_probe slot field hash msk 0 i first tombs = (None, first, tombs)"
| "upsert_probe slot field hash msk (Suc n) i first tombs =
     (let b = read_bucket slot i; first' = (case first of None \<Rightarrow> Some i | Some j \<Rightarrow> Some j)
      in if field_len b = EMPTY_FIELD_LEN then (None, first', tombs)
         else if field_len b = TOMBSTONE_FIELD_LEN
         then upsert_probe slot field hash msk n ((i + 1) AND msk) first' (tombs + 1)
         else if hash32 b = hash \<and> holds_field slot b field then (Some i, first, tombs)
         else upsert_probe slot field hash msk n ((i + 1) AND msk) first tombs)"

text \<open>Rehashing of the live buckets into a cleared, larger directory.\<close>

fun place_bucket :: "Bucket \<Rightarrow> nat \<Rightarrow> nat \<Rightarrow> nat \<Rightarrow> bytes \<Rightarrow> bytes" where
  "place_bucket b msk 0 i slot = slot"
| "place_bucket b msk (Suc n) i slot =
     (if field_len (read_bucket slot i) = EMPTY_FIELD_LEN then write_bucket i b slot
      else place_bucket b msk n ((i + 1) AND msk) slot)"

definition live_buckets :: "bytes \<Rightarrow> nat \<Rightarrow> Bucket list" where
  "live_buckets slot k = filter is_live (map (read_bucket slot) [0..<k])"

definition grow_directory :: "nat \<Rightarrow> bytes \<Rightarrow> bytes \<times> (unit, FrameError) outcome" where
  "grow_directory next_k slot =
     (case read_header slot of
        Ok (live, msk, pend, dead) \<Rightarrow>
          (let bs = live_buckets slot (msk + 1); next_dir = next_k * BUCKET_SIZE; cap = length slot
           in if pend + next_dir > cap then (slot, Err FrameFull)
              else (let slot1 = write_header live (next_k - 1) pend dead
                                  (write_at (cap - next_dir) (replicate next_dir 0) slot)
                    in (fold (\<lambda>b s. place_bucket b (next_k - 1) next_k (hash32 b AND (next_k - 1)) s) bs slot1, Ok ())))
      | Err e \<Rightarrow> (slot, Err e)
      | Panic m \<Rightarrow> (slot, Panic m))"

definition live_pairs :: "bytes \<Rightarrow> nat \<Rightarrow> (bytes \<times> bytes) list" where
  "live_pairs slot k =
     map (\<lambda>b. (field_of slot b, value_of slot b)) (filter (value_inside slot) (live_buckets slot k))"

text \<open>Appending field and value at the end of the payload and pointing bucket \<open>i\<close> at them.\<close>

definition append_pair :: "nat \<Rightarrow> nat \<Rightarrow> bytes \<Rightarrow> bytes \<Rightarrow> nat \<Rightarrow> bytes \<Rightarrow> bytes" where
  "append_pair hash pend field value i slot =
     write_bucket i \<lparr>hash32 = hash, bk_offset = pend, field_len = length field, val_len = length value\<rparr>
       (write_at (pend + length field) value (write_at pend field slot))"

text \<open>
  One pass of \<open>upsert\<close>: it finishes, or it compacts the frame or has grown the directory and starts
  over (\<open>Self::compact(slot)?; return Self::upsert(slot, field, value)\<close>).
\<close>

datatype upsert_next = Finished bytes "(bool, FrameError) outcome" | AfterCompact | AfterGrow bytes

definition update_field :: "nat \<Rightarrow> nat \<Rightarrow> nat \<Rightarrow> nat \<Rightarrow> nat \<Rightarrow> nat \<Rightarrow> bytes \<Rightarrow> bytes \<Rightarrow> bytes \<Rightarrow> upsert_next" where
  "update_field live msk pend dead hash i slot field value =
     (let old = read_bucket slot i; val_off = bk_offset old + field_len old;
          needed = length field + length value; dir_start = length slot - (msk + 1) * BUCKET_SIZE
      in if length value \<le> val_len old
         then if val_off + length value > length slot then Finished slot (Panic ''range end index out of range'')
              else Finished (write_header live msk pend (saturating_add16 dead (val_len old - length value))
                     (write_bucket i (old\<lparr>hash32 := hash, val_len := length value\<rparr>) (write_at val_off value slot)))
                   (Ok False)
         else if pend + needed > dir_start then (if dead > 0 then AfterCompact else Finished slot (Err FrameFull))
         else Finished (write_header live msk (pend + needed)
                (saturating_add16 dead ((field_len old + val_len old) mod 2 ^ 16))
                (append_pair hash pend field value i slot)) (Ok False))"

definition insert_field ::
    "nat \<Rightarrow> nat \<Rightarrow> nat \<Rightarrow> nat \<Rightarrow> nat \<Rightarrow> nat option \<Rightarrow> nat \<Rightarrow> bytes \<Rightarrow> bytes \<Rightarrow> bytes \<Rightarrow> upsert_next" where
  "insert_field live msk pend dead hash first tombs slot field value =
     (let k = msk + 1; needed = length field + length value; dir_start = length slot - k * BUCKET_SIZE
      in if (live + 1 + tombs) * 10 \<ge> k * 7
         then if dead > 0 \<or> tombs > 0 then AfterCompact
              else if dir_start \<ge> pend + needed + (2 * k - k) * BUCKET_SIZE
              then (case grow_directory (2 * k) slot of
                      (s, Ok _) \<Rightarrow> AfterGrow s
                    | (s, Err e) \<Rightarrow> Finished s (Err e)
                    | (s, Panic m) \<Rightarrow> Finished s (Panic m))
              else Finished slot (Err FrameFull)
         else if pend + needed > dir_start then (if dead > 0 then AfterCompact else Finished slot (Err FrameFull))
         else (case first of
                 None \<Rightarrow> Finished slot (Err FrameFull)
               | Some i \<Rightarrow> Finished (write_header (live + 1) msk (pend + needed) dead
                                   (append_pair hash pend field value i slot)) (Ok True)))"

definition upsert_once :: "(bytes \<Rightarrow> u64) \<Rightarrow> bytes \<Rightarrow> bytes \<Rightarrow> bytes \<Rightarrow> upsert_next" where
  "upsert_once hk slot field value =
     (case read_header slot of
        Err e \<Rightarrow> Finished slot (Err e)
      | Panic m \<Rightarrow> Finished slot (Panic m)
      | Ok (live, msk, pend, dead) \<Rightarrow>
          (let hash = unat (hash_field hk field)
           in case upsert_probe slot field hash msk (msk + 1) (hash AND msk) None 0 of
                (Some i, _, _) \<Rightarrow> update_field live msk pend dead hash i slot field value
              | (None, first, tombs) \<Rightarrow> insert_field live msk pend dead hash first tombs slot field value))"

text \<open>
  \<open>compact\<close> inserts the live pairs into a fresh frame with \<open>upsert\<close>, which is the argument \<open>ups\<close>
  here; \<open>let _ =\<close> drops an error, not a panic.
\<close>

fun reinsert ::
    "(bytes \<Rightarrow> bytes \<Rightarrow> bytes \<Rightarrow> (bytes \<times> (bool, FrameError) outcome) option) \<Rightarrow> (bytes \<times> bytes) list \<Rightarrow>
      bytes \<Rightarrow> (bytes \<times> (unit, FrameError) outcome) option" where
  "reinsert ups [] slot = Some (slot, Ok ())"
| "reinsert ups ((field, value) # ps) slot =
     (case ups slot field value of
        None \<Rightarrow> None
      | Some (s, Panic m) \<Rightarrow> Some (s, Panic m)
      | Some (s, _) \<Rightarrow> reinsert ups ps s)"

definition compact_with ::
    "(bytes \<Rightarrow> bytes \<Rightarrow> bytes \<Rightarrow> (bytes \<times> (bool, FrameError) outcome) option) \<Rightarrow>
      bytes \<Rightarrow> (bytes \<times> (unit, FrameError) outcome) option" where
  "compact_with ups slot =
     (case read_header slot of
        Err e \<Rightarrow> Some (slot, Err e)
      | Panic m \<Rightarrow> Some (slot, Panic m)
      | Ok (live, msk, _, _) \<Rightarrow>
          if live = 0 then Some (init_frame slot)
          else (case init_frame slot of
                  (s, Ok _) \<Rightarrow> reinsert ups (live_pairs slot (msk + 1)) s
                | (s, Err e) \<Rightarrow> Some (s, Err e)
                | (s, Panic m) \<Rightarrow> Some (s, Panic m)))"

text \<open>
  The depth of the mutual calls is bounded by the first argument; \<open>None\<close> is an exhausted bound.
\<close>

primrec upsert_fuel :: "nat \<Rightarrow> (bytes \<Rightarrow> u64) \<Rightarrow> bytes \<Rightarrow> bytes \<Rightarrow> bytes \<Rightarrow> (bytes \<times> (bool, FrameError) outcome) option" where
  "upsert_fuel 0 hk slot field value = None"
| "upsert_fuel (Suc n) hk slot field value =
     (case upsert_once hk slot field value of
        Finished s r \<Rightarrow> Some (s, r)
      | AfterGrow s \<Rightarrow> upsert_fuel n hk s field value
      | AfterCompact \<Rightarrow>
          (case compact_with (upsert_fuel n hk) slot of
             None \<Rightarrow> None
           | Some (s, Ok _) \<Rightarrow> upsert_fuel n hk s field value
           | Some (s, Err e) \<Rightarrow> Some (s, Err e)
           | Some (s, Panic m) \<Rightarrow> Some (s, Panic m)))"

definition UPSERT_DEPTH :: nat where "UPSERT_DEPTH = 16"

definition frame_upsert :: "(bytes \<Rightarrow> u64) \<Rightarrow> bytes \<Rightarrow> bytes \<Rightarrow> bytes \<Rightarrow> (bytes \<times> (bool, FrameError) outcome) option" where
  "frame_upsert = upsert_fuel UPSERT_DEPTH"

definition frame_compact :: "(bytes \<Rightarrow> u64) \<Rightarrow> bytes \<Rightarrow> (bytes \<times> (unit, FrameError) outcome) option" where
  "frame_compact hk = compact_with (frame_upsert hk)"

section \<open>Sizing, iteration and the logical form\<close>

fun grow_k :: "nat \<Rightarrow> nat \<Rightarrow> nat \<Rightarrow> nat" where
  "grow_k 0 n k = k"
| "grow_k (Suc d) n k = (if n * 10 \<ge> k * 7 \<and> k \<le> 256 then grow_k d n (k * 2) else k)"

text \<open>The \<open>while\<close> loop doubles \<open>k\<close> from 8 while it is at most 256: six times at most.\<close>

definition needed_bytes :: "bytes option \<Rightarrow> (bytes \<times> bytes) list \<Rightarrow> nat" where
  "needed_bytes slot pairs =
     (let kept = (case slot of
                    None \<Rightarrow> []
                  | Some s \<Rightarrow>
                      (case read_header s of
                         Ok (live, msk, _, _) \<Rightarrow>
                           if live > 0
                           then filter (\<lambda>b. bk_offset b + field_len b \<le> length s \<and> field_of s b \<notin> fst ` set pairs)
                                  (live_buckets s (msk + 1))
                           else []
                       | _ \<Rightarrow> []));
          payload = sum_list (map (\<lambda>b. field_len b + val_len b) kept) + sum_list (map (\<lambda>(f, v). length f + length v) pairs);
          old_fields = (case slot of None \<Rightarrow> [] | Some s \<Rightarrow> map (field_of s) kept);
          live_set = fold (\<lambda>(f, v) fs. if f \<in> set fs then fs else fs @ [f]) pairs old_fields
      in HEADER_SIZE + payload + grow_k 6 (max (length live_set) 1) 8 * BUCKET_SIZE)"

definition iter_pairs :: "bytes \<Rightarrow> (bytes \<times> bytes) list" where
  "iter_pairs slot =
     (case read_header slot of
        Ok (live, msk, _, _) \<Rightarrow> if live > 0 then live_pairs slot (msk + 1) else []
      | _ \<Rightarrow> [])"

definition encode_pairs :: "bytes \<Rightarrow> bytes" where
  "encode_pairs slot =
     u16_le (frame_live_count slot) @
     concat (map (\<lambda>(f, v). u16_le (length f) @ f @ u16_le (length v) @ v) (iter_pairs slot))"

fun build_loop ::
    "(bytes \<Rightarrow> u64) \<Rightarrow> nat \<Rightarrow> nat \<Rightarrow> bytes \<Rightarrow> bytes \<Rightarrow> (bytes \<times> (unit, FrameError) outcome) option" where
  "build_loop hk 0 off encoded slot = Some (slot, Ok ())"
| "build_loop hk (Suc n) off encoded slot =
     (if off + 2 > length encoded then Some (slot, Err CorruptFrame)
      else (let f_len = from_le (bytes_at off 2 encoded); off1 = off + 2
            in if off1 + f_len > length encoded then Some (slot, Err CorruptFrame)
               else (let field = bytes_at off1 f_len encoded; off2 = off1 + f_len
                     in if off2 + 2 > length encoded then Some (slot, Err CorruptFrame)
                        else (let v_len = from_le (bytes_at off2 2 encoded); off3 = off2 + 2
                              in if off3 + v_len > length encoded then Some (slot, Err CorruptFrame)
                                 else (case frame_upsert hk slot field (bytes_at off3 v_len encoded) of
                                         None \<Rightarrow> None
                                       | Some (s, Ok _) \<Rightarrow> build_loop hk n (off3 + v_len) encoded s
                                       | Some (s, Err e) \<Rightarrow> Some (s, Err e)
                                       | Some (s, Panic m) \<Rightarrow> Some (s, Panic m))))))"

definition build_from_pairs :: "(bytes \<Rightarrow> u64) \<Rightarrow> bytes \<Rightarrow> bytes \<Rightarrow> (bytes \<times> (unit, FrameError) outcome) option" where
  "build_from_pairs hk slot encoded =
     (if length encoded < 2 then Some (slot, Err CorruptFrame)
      else (case init_frame slot of
              (s, Ok _) \<Rightarrow> build_loop hk (from_le (bytes_at 0 2 encoded)) 2 encoded s
            | (s, Err e) \<Rightarrow> Some (s, Err e)
            | (s, Panic m) \<Rightarrow> Some (s, Panic m)))"

end
