(* ===== verification/Hash_Dir.thy ===== *)
theory Hash_Dir
  imports Hash_Frame
begin

text \<open>
  Reading back what the operations on a hash frame write: header fields, buckets and payload are
  separate parts of the slot.
\<close>

section \<open>Parts of a slot\<close>

lemmas frame_consts = HEADER_SIZE_def BUCKET_SIZE_def EMPTY_FIELD_LEN_def TOMBSTONE_FIELD_LEN_def MAX_SLOT_CAPACITY_def

definition bucket_ok :: "Bucket \<Rightarrow> bool" where
  "bucket_ok b \<longleftrightarrow> hash32 b < 2 ^ 32 \<and> bk_offset b < 2 ^ 16 \<and> field_len b < 2 ^ 16 \<and> val_len b < 2 ^ 16"

lemma read_bucket_ok: "BUCKET_SIZE * (i + 1) \<le> length slot \<Longrightarrow> bucket_ok (read_bucket slot i)"
  using from_le_less [of "bytes_at (bucket_off slot i) 4 slot"] from_le_less [of "bytes_at (bucket_off slot i + 4) 2 slot"]
    from_le_less [of "bytes_at (bucket_off slot i + 6) 2 slot"] from_le_less [of "bytes_at (bucket_off slot i + 8) 2 slot"]
  by (simp add: bucket_ok_def read_bucket_def bucket_off_def BUCKET_SIZE_def Let_def)

lemma bytes_at_header_write:
  assumes "8 \<le> length slot" "8 \<le> off"
  shows "bytes_at off n (write_header a b c d slot) = bytes_at off n slot"
  using assms by (simp add: write_header_def bytes_at_write_other)

lemma length_write_header [simp]: "8 \<le> length slot \<Longrightarrow> length (write_header a b c d slot) = length slot"
  by (simp add: write_header_def)

lemma header_write:
  assumes "8 \<le> length slot" "a < 2 ^ 16" "b < 2 ^ 16" "c < 2 ^ 16" "d < 2 ^ 16"
  shows "from_le (bytes_at 0 2 (write_header a b c d slot)) = a" "from_le (bytes_at 2 2 (write_header a b c d slot)) = b"
    "from_le (bytes_at 4 2 (write_header a b c d slot)) = c" "from_le (bytes_at 6 2 (write_header a b c d slot)) = d"
  using assms by (simp_all add: write_header_def bytes_at_write_same bytes_at_write_other)

lemma length_write_bucket [simp]:
  "BUCKET_SIZE * (i + 1) \<le> length slot \<Longrightarrow> length (write_bucket i b slot) = length slot"
  by (simp add: write_bucket_def bucket_off_def BUCKET_SIZE_def Let_def)

lemma bytes_at_bucket_write:
  assumes "BUCKET_SIZE * (i + 1) \<le> length slot"
    and "off + n \<le> bucket_off slot i \<or> bucket_off slot i + BUCKET_SIZE \<le> off"
  shows "bytes_at off n (write_bucket i b slot) = bytes_at off n slot"
proof -
  have "bucket_off slot i + 10 \<le> length slot" using assms(1) by (simp add: bucket_off_def BUCKET_SIZE_def)
  then show ?thesis
    using assms(2) by (auto simp: write_bucket_def Let_def BUCKET_SIZE_def bytes_at_write_other)
qed

lemma read_bucket_cong:
  assumes "length s' = length s" "bytes_at (bucket_off s i) BUCKET_SIZE s' = bytes_at (bucket_off s i) BUCKET_SIZE s"
  shows "read_bucket s' i = read_bucket s i"
proof -
  have "bytes_at (bucket_off s i + p) n s' = bytes_at (bucket_off s i + p) n s" if "p + n \<le> BUCKET_SIZE" for p n
    using bytes_at_bytes_at [OF that, of "bucket_off s i" s'] bytes_at_bytes_at [OF that, of "bucket_off s i" s] assms(2) by simp
  from this [of 0 4] this [of 4 2] this [of 6 2] this [of 8 2] show ?thesis
    using assms(1) by (simp add: read_bucket_def bucket_off_def BUCKET_SIZE_def Let_def)
qed

lemma read_bucket_write:
  assumes "BUCKET_SIZE * (i + 1) \<le> length slot" "BUCKET_SIZE * (j + 1) \<le> length slot" "bucket_ok b"
  shows "read_bucket (write_bucket i b slot) j = (if i = j then b else read_bucket slot j)"
proof (cases "i = j")
  case True
  have len: "bucket_off slot i + 10 \<le> length slot" using assms(1) by (simp add: bucket_off_def BUCKET_SIZE_def)
  have same: "bucket_off (write_bucket i b slot) i = bucket_off slot i" using assms(1) by (simp add: bucket_off_def)
  define off where "off = bucket_off slot i"
  have "bytes_at off 4 (write_bucket i b slot) = u32_le (hash32 b)"
    and "bytes_at (off + 4) 2 (write_bucket i b slot) = u16_le (bk_offset b)"
    and "bytes_at (off + 6) 2 (write_bucket i b slot) = u16_le (field_len b)"
    and "bytes_at (off + 8) 2 (write_bucket i b slot) = u16_le (val_len b)"
    using len unfolding write_bucket_def Let_def off_def [symmetric]
    by (simp_all add: bytes_at_write_same bytes_at_write_other)
  then have "read_bucket (write_bucket i b slot) i = b"
    using assms(3) by (simp add: read_bucket_def Let_def same off_def bucket_ok_def)
  then show ?thesis using True by simp
next
  case False
  have "bytes_at (bucket_off slot j) BUCKET_SIZE (write_bucket i b slot) = bytes_at (bucket_off slot j) BUCKET_SIZE slot"
  proof (rule bytes_at_bucket_write [OF assms(1)])
    show "bucket_off slot j + BUCKET_SIZE \<le> bucket_off slot i \<or> bucket_off slot i + BUCKET_SIZE \<le> bucket_off slot j"
      using assms False by (cases "i < j") (auto simp: bucket_off_def BUCKET_SIZE_def)
  qed
  then show ?thesis using read_bucket_cong [of "write_bucket i b slot" slot j] assms(1) False by simp
qed

lemma read_bucket_header [simp]:
  assumes "8 + BUCKET_SIZE * (j + 1) \<le> length slot"
  shows "read_bucket (write_header a b c d slot) j = read_bucket slot j"
  using assms by (intro read_bucket_cong bytes_at_header_write length_write_header)
    (auto simp: bucket_off_def BUCKET_SIZE_def)

lemma read_bucket_payload [simp]:
  assumes "off + length d + BUCKET_SIZE * (j + 1) \<le> length slot"
  shows "read_bucket (write_at off d slot) j = read_bucket slot j"
  using assms by (intro read_bucket_cong bytes_at_write_other length_write_at)
    (auto simp: bucket_off_def BUCKET_SIZE_def)

section \<open>Headers\<close>

definition header_ok :: "nat \<Rightarrow> nat \<Rightarrow> nat \<Rightarrow> bool" where
  "header_ok cap k pend \<longleftrightarrow> is_pow2 k \<and> 4 \<le> k \<and> k \<le> 256 \<and> HEADER_SIZE \<le> pend \<and> pend + k * BUCKET_SIZE \<le> cap"

lemma read_header_iff:
  "read_header slot = Ok (live, msk, pend, dead) \<longleftrightarrow>
     live = from_le (bytes_at 0 2 slot) \<and> msk = from_le (bytes_at 2 2 slot) \<and> pend = from_le (bytes_at 4 2 slot) \<and>
     dead = from_le (bytes_at 6 2 slot) \<and> header_ok (length slot) (msk + 1) pend"
  by (auto simp: read_header_def header_ok_def frame_consts Let_def)

lemma read_header_write:
  assumes "8 \<le> length slot" "live < 2 ^ 16" "dead < 2 ^ 16" "length slot \<le> MAX_SLOT_CAPACITY"
    and "header_ok (length slot) (msk + 1) pend"
  shows "read_header (write_header live msk pend dead slot) = Ok (live, msk, pend, dead)"
  using assms header_write [of slot live msk pend dead] by (simp add: read_header_iff header_ok_def frame_consts)

lemma read_header_cong:
  assumes "length s' = length s" "bytes_at 0 8 s' = bytes_at 0 8 s"
  shows "read_header s' = read_header s"
proof -
  have "bytes_at p n s' = bytes_at p n s" if "p + n \<le> 8" for p n
    using bytes_at_bytes_at [OF that, of 0 s'] bytes_at_bytes_at [OF that, of 0 s] assms(2) by simp
  from this [of 0 2] this [of 2 2] this [of 4 2] this [of 6 2] show ?thesis
    unfolding read_header_def assms(1) by (simp only:)
qed

lemma pow2D: "is_pow2 k \<Longrightarrow> \<exists>n. k = 2 ^ n"
  unfolding is_pow2_def using next_power_of_two_pow [of k] by metis

lemma and_msk:
  assumes "is_pow2 (msk + 1)"
  shows "x AND msk = x mod (msk + 1)"
proof -
  obtain n where "msk + 1 = 2 ^ n" using pow2D [OF assms] by blast
  from nat_and_pow2_mask [OF this, of x] show ?thesis by simp
qed

end
