(* ===== verification/Hash_Ring.thy ===== *)
theory Hash_Ring
  imports Prelude
begin

text \<open>
  An open-addressing directory without its byte encoding: \<open>k\<close> cells around a ring, linear probing from
  the hash of a field, tombstones left by deletions. The directory of a hash frame is one
  (\<open>Hash_Frame_Inv\<close>).
\<close>

section \<open>The cyclic probe\<close>

text \<open>The first position from \<open>i\<close> on, within \<open>n\<close> steps around the ring, where \<open>stop\<close> holds.\<close>

fun ring_scan :: "(nat \<Rightarrow> bool) \<Rightarrow> nat \<Rightarrow> nat \<Rightarrow> nat \<Rightarrow> nat option" where
  "ring_scan stop k 0 i = None"
| "ring_scan stop k (Suc n) i = (if stop i then Some i else ring_scan stop k n ((i + 1) mod k))"

lemma ring_scan_Some:
  assumes "i < k"
  shows "ring_scan stop k n i = Some j \<longleftrightarrow>
    (\<exists>m<n. j = (i + m) mod k \<and> stop j \<and> (\<forall>m'<m. \<not> stop ((i + m') mod k)))"
  using assms
proof (induction n arbitrary: i)
  case (Suc n)
  have k: "0 < k" "(i + 1) mod k < k" using Suc.prems by simp_all
  show ?case
  proof (cases "stop i")
    case True
    then show ?thesis using Suc.prems by (auto intro: exI [of _ 0]) (metis add.right_neutral gr0I mod_less)
  next
    case False
    have step: "((i + 1) mod k + m) mod k = (i + Suc m) mod k" for m by (simp add: mod_add_left_eq)
    have "ring_scan stop k (Suc n) i = Some j \<longleftrightarrow>
        (\<exists>m<n. j = (i + Suc m) mod k \<and> stop j \<and> (\<forall>m'<m. \<not> stop ((i + Suc m') mod k)))"
      using False Suc.IH [OF k(2)] by (simp only: ring_scan.simps if_False step)
    also have "\<dots> \<longleftrightarrow> (\<exists>m<Suc n. j = (i + m) mod k \<and> stop j \<and> (\<forall>m'<m. \<not> stop ((i + m') mod k)))"
      using False Suc.prems by (auto simp: Ex_less_Suc2 All_less_Suc2)
    finally show ?thesis .
  qed
qed simp

lemma ring_scan_None:
  assumes "i < k"
  shows "ring_scan stop k n i = None \<longleftrightarrow> (\<forall>m<n. \<not> stop ((i + m) mod k))"
  using assms
proof (induction n arbitrary: i)
  case (Suc n)
  have nxt: "(i + 1) mod k < k" using Suc.prems by simp
  have step: "((i + 1) mod k + m) mod k = (i + Suc m) mod k" for m by (simp add: mod_add_left_eq)
  have "ring_scan stop k (Suc n) i = None \<longleftrightarrow> \<not> stop i \<and> (\<forall>m<n. \<not> stop ((i + Suc m) mod k))"
    using Suc.IH [OF nxt] by (simp only: ring_scan.simps step) simp
  then show ?case using Suc.prems by (simp add: All_less_Suc2)
qed simp

section \<open>Cells\<close>

datatype ring_cell = Vacant | Gone | Used (used_field: bytes) (used_value: bytes)

definition reaches :: "(nat \<Rightarrow> ring_cell) \<Rightarrow> nat \<Rightarrow> nat \<Rightarrow> nat \<Rightarrow> bool" where
  "reaches c k start i \<longleftrightarrow> (\<exists>m<k. i = (start + m) mod k \<and> (\<forall>m'<m. c ((start + m') mod k) \<noteq> Vacant))"

definition ring_ok :: "(bytes \<Rightarrow> nat) \<Rightarrow> nat \<Rightarrow> (nat \<Rightarrow> ring_cell) \<Rightarrow> bool" where
  "ring_ok h k c \<longleftrightarrow> 0 < k \<and>
     (\<forall>i<k. \<forall>f v. c i = Used f v \<longrightarrow> reaches c k (h f mod k) i) \<and>
     (\<forall>i<k. \<forall>j<k. \<forall>f v w. c i = Used f v \<longrightarrow> c j = Used f w \<longrightarrow> i = j)"

definition ring_map :: "nat \<Rightarrow> (nat \<Rightarrow> ring_cell) \<Rightarrow> bytes \<rightharpoonup> bytes" where
  "ring_map k c = map_of (map (\<lambda>i. (used_field (c i), used_value (c i))) (filter (\<lambda>i. \<exists>f v. c i = Used f v) [0..<k]))"

definition stops :: "(nat \<Rightarrow> ring_cell) \<Rightarrow> bytes \<Rightarrow> nat \<Rightarrow> bool" where
  "stops c f i \<longleftrightarrow> c i = Vacant \<or> (\<exists>v. c i = Used f v)"

definition find_cell :: "(bytes \<Rightarrow> nat) \<Rightarrow> nat \<Rightarrow> (nat \<Rightarrow> ring_cell) \<Rightarrow> bytes \<Rightarrow> nat option" where
  "find_cell h k c f = ring_scan (stops c f) k k (h f mod k)"

lemma reaches_cong:
  assumes "\<And>i. i < k \<Longrightarrow> c i = Vacant \<longleftrightarrow> c' i = Vacant"
  shows "reaches c k start i \<longleftrightarrow> reaches c' k start i"
proof -
  have "(c ((start + m) mod k) = Vacant) = (c' ((start + m) mod k) = Vacant)" if "0 < k" for m
    using assms [of "(start + m) mod k"] that by simp
  then show ?thesis unfolding reaches_def by (metis gr_implies_not0 neq0_conv)
qed

lemma reaches_mono:
  assumes "reaches c k start i" "\<And>i. i < k \<Longrightarrow> c' i = Vacant \<Longrightarrow> c i = Vacant"
  shows "reaches c' k start i"
  using assms unfolding reaches_def
  by (metis (no_types, lifting) gr_implies_not0 mod_less_divisor neq0_conv)

lemma ring_map_Some:
  assumes "ring_ok h k c"
  shows "ring_map k c f = Some v \<longleftrightarrow> (\<exists>i<k. c i = Used f v)"
proof -
  let ?is = "filter (\<lambda>i. \<exists>f v. c i = Used f v) [0..<k]"
  have "inj_on (\<lambda>i. used_field (c i)) (set ?is)"
    using assms by (auto simp: inj_on_def ring_ok_def)
  then have "distinct (map fst (map (\<lambda>i. (used_field (c i), used_value (c i))) ?is))"
    by (simp add: distinct_map comp_def)
  then show ?thesis
    unfolding ring_map_def by (auto simp: map_of_eq_Some_iff image_iff)
qed

lemma ring_map_None:
  assumes "ring_ok h k c"
  shows "ring_map k c f = None \<longleftrightarrow> (\<forall>i<k. \<forall>v. c i \<noteq> Used f v)"
  using ring_map_Some [OF assms, of f] by (metis not_None_eq)

lemma ring_map_eqI:
  assumes "ring_ok h k c" "\<And>f v. m f = Some v \<longleftrightarrow> (\<exists>i<k. c i = Used f v)"
  shows "ring_map k c = m"
proof
  fix f
  show "ring_map k c f = m f"
    using ring_map_Some [OF assms(1), of f] assms(2) [of f] by (metis not_None_eq)
qed

section \<open>Finding\<close>

lemma find_cell_used:
  assumes ok: "ring_ok h k c" and i: "i < k" "c i = Used f v"
  shows "find_cell h k c f = Some i"
proof -
  obtain m where m: "m < k" "i = (h f mod k + m) mod k" "\<forall>m'<m. c ((h f mod k + m') mod k) \<noteq> Vacant"
    using ok i unfolding ring_ok_def reaches_def by blast
  define m0 where "m0 = (LEAST m. stops c f ((h f mod k + m) mod k))"
  have st: "stops c f ((h f mod k + m) mod k)" using i m(2) by (auto simp: stops_def)
  then have m0: "stops c f ((h f mod k + m0) mod k)" "m0 \<le> m" "\<forall>m'<m0. \<not> stops c f ((h f mod k + m') mod k)"
    unfolding m0_def by (auto intro: LeastI Least_le dest: not_less_Least)
  have k: "0 < k" using ok by (simp add: ring_ok_def)
  have "(h f mod k + m0) mod k = i"
  proof (cases "m0 = m")
    case False
    then have "c ((h f mod k + m0) mod k) \<noteq> Vacant" using m0(2) m(3) by simp
    then obtain w where "c ((h f mod k + m0) mod k) = Used f w" using m0(1) by (auto simp: stops_def)
    then show ?thesis using ok i k unfolding ring_ok_def by (meson mod_less_divisor)
  qed (use m(2) in simp)
  then show ?thesis
    unfolding find_cell_def using ring_scan_Some [of "h f mod k" k "stops c f" k i] k m m0 by (metis le_less_trans mod_less_divisor)
qed

lemma find_cell_absent:
  assumes ok: "ring_ok h k c" and none: "ring_map k c f = None"
  shows "case find_cell h k c f of Some i \<Rightarrow> i < k \<and> c i = Vacant | None \<Rightarrow> True"
proof (cases "find_cell h k c f")
  case (Some i)
  have k: "0 < k" using ok by (simp add: ring_ok_def)
  then have "i < k" "stops c f i"
    using Some ring_scan_Some [of "h f mod k" k "stops c f" k i] unfolding find_cell_def by auto
  then show ?thesis using Some none ring_map_None [OF ok, of f] by (auto simp: stops_def)
qed simp

section \<open>Updates\<close>

lemma ring_kill:
  assumes ok: "ring_ok h k c" and i: "i < k" "c i = Used f v" and c': "\<And>j. j < k \<Longrightarrow> c' j = (if j = i then Gone else c j)"
  shows "ring_ok h k c' \<and> ring_map k c' = (ring_map k c)(f := None)"
proof
  have r: "reaches c' k start j" if "reaches c k start j" for start j
    using that by (rule reaches_mono) (auto simp: c' i split: if_splits)
  show ok': "ring_ok h k c'"
    unfolding ring_ok_def
  proof (intro conjI allI impI)
    show "0 < k" using i by simp
    show "reaches c' k (h g mod k) j" if "j < k" "c' j = Used g w" for j g w
      using that ok r by (auto simp: c' ring_ok_def split: if_splits)
    show "j = j'" if "j < k" "j' < k" "c' j = Used g w" "c' j' = Used g w'" for j j' g w w'
      using that ok by (auto simp: c' ring_ok_def split: if_splits)
  qed
  show "ring_map k c' = (ring_map k c)(f := None)"
  proof (rule ring_map_eqI [OF ok'])
    fix g w
    show "((ring_map k c)(f := None)) g = Some w \<longleftrightarrow> (\<exists>j<k. c' j = Used g w)"
    proof (cases "g = f")
      case True
      then show ?thesis using i ok unfolding ring_ok_def by (auto simp: c' split: if_splits)
    next
      case False
      have "(\<exists>j<k. c' j = Used g w) \<longleftrightarrow> (\<exists>j<k. c j = Used g w)"
      proof
        assume "\<exists>j<k. c j = Used g w"
        then obtain j where "j < k" "c j = Used g w" by blast
        then show "\<exists>j<k. c' j = Used g w" using False i c' [of j] by (metis ring_cell.inject)
      qed (auto simp: c' split: if_splits)
      then show ?thesis using False ring_map_Some [OF ok, of g w] by simp
    qed
  qed
qed

text \<open>Writing a pair into a ring_cell: the ring_cell of the field itself, or a free ring_cell on the probe path.\<close>

lemma ring_put:
  assumes ok: "ring_ok h k c" and i: "i < k"
    and reach: "reaches c k (h f mod k) i" and old: "\<And>g w. c i = Used g w \<Longrightarrow> g = f"
    and uniq: "\<And>j w. j < k \<Longrightarrow> c j = Used f w \<Longrightarrow> j = i"
    and c': "\<And>j. j < k \<Longrightarrow> c' j = (if j = i then Used f v else c j)"
  shows "ring_ok h k c' \<and> ring_map k c' = (ring_map k c)(f \<mapsto> v)"
proof
  have r: "reaches c' k start j" if "reaches c k start j" for start j
    using that by (rule reaches_mono) (auto simp: c' split: if_splits)
  show ok': "ring_ok h k c'"
    unfolding ring_ok_def
  proof (intro conjI allI impI)
    show "0 < k" using i by simp
    show "reaches c' k (h g mod k) j" if "j < k" "c' j = Used g w" for j g w
      using that ok r reach by (auto simp: c' ring_ok_def split: if_splits)
    show "j = j'" if "j < k" "j' < k" "c' j = Used g w" "c' j' = Used g w'" for j j' g w w'
      using that ok uniq by (auto simp: c' ring_ok_def split: if_splits)
  qed
  show "ring_map k c' = (ring_map k c)(f \<mapsto> v)"
  proof (rule ring_map_eqI [OF ok'])
    fix g w
    show "((ring_map k c)(f \<mapsto> v)) g = Some w \<longleftrightarrow> (\<exists>j<k. c' j = Used g w)"
    proof (cases "g = f")
      case True
      then show ?thesis using i uniq by (auto simp: c' split: if_splits)
    next
      case False
      then have "((ring_map k c)(f \<mapsto> v)) g = Some w \<longleftrightarrow> (\<exists>j<k. c j = Used g w)"
        using ring_map_Some [OF ok, of g w] by simp
      also have "\<dots> \<longleftrightarrow> (\<exists>j<k. c' j = Used g w)"
      proof
        assume "\<exists>j<k. c j = Used g w"
        then obtain j where "j < k" "c j = Used g w" by blast
        then show "\<exists>j<k. c' j = Used g w" using False old c' [of j] by metis
      qed (use False in \<open>auto simp: c' split: if_splits\<close>)
      finally show ?thesis .
    qed
  qed
qed

lemma ring_cong:
  assumes "ring_ok h k c" "\<And>j. j < k \<Longrightarrow> c' j = c j"
  shows "ring_ok h k c'" "ring_map k c' = ring_map k c"
proof -
  show ok: "ring_ok h k c'"
    using assms reaches_cong [of k c c'] unfolding ring_ok_def by (metis (no_types, lifting))
  show "ring_map k c' = ring_map k c"
    using assms ring_map_Some [OF assms(1)] by (intro ring_map_eqI [OF ok]) auto
qed

lemma ring_empty:
  assumes "0 < k" "\<And>j. j < k \<Longrightarrow> c j = Vacant"
  shows "ring_ok h k c" "ring_map k c = Map.empty"
proof -
  show ok: "ring_ok h k c" using assms by (auto simp: ring_ok_def)
  show "ring_map k c = Map.empty" using assms by (intro ring_map_eqI [OF ok]) auto
qed

end
