(* ===== verification/Hash_Frame_Inv.thy ===== *)
theory Hash_Frame_Inv
  imports Hash_Dir Hash_Ring
begin

text \<open>
  The representation invariant of a hash frame and its meaning as a finite map: every bucket is read
  as a ring_cell of the ring, and one bucket write is one ring_cell update.
\<close>

section \<open>Buckets as cells\<close>

definition bucket_cell :: "bytes \<Rightarrow> Bucket \<Rightarrow> ring_cell" where
  "bucket_cell slot b = (if field_len b = EMPTY_FIELD_LEN then Vacant
     else if field_len b = TOMBSTONE_FIELD_LEN then Gone
     else Used (field_of slot b) (value_of slot b))"

definition cell_at :: "bytes \<Rightarrow> nat \<Rightarrow> ring_cell" where
  "cell_at slot i = bucket_cell slot (read_bucket slot i)"

abbreviation fh :: "(bytes \<Rightarrow> u64) \<Rightarrow> bytes \<Rightarrow> nat" where
  "fh hk f \<equiv> unat (hash_field hk f)"

definition buckets_apart :: "Bucket \<Rightarrow> Bucket \<Rightarrow> bool" where
  "buckets_apart b b' \<longleftrightarrow> bk_offset b + field_len b + val_len b \<le> bk_offset b' \<or> bk_offset b' + field_len b' + val_len b' \<le> bk_offset b"

definition bucket_placed :: "(bytes \<Rightarrow> u64) \<Rightarrow> bytes \<Rightarrow> nat \<Rightarrow> Bucket \<Rightarrow> bool" where
  "bucket_placed hk slot pend b \<longleftrightarrow> bucket_ok b \<and> hash32 b = fh hk (field_of slot b) \<and> 8 \<le> bk_offset b \<and>
     bk_offset b + field_len b + val_len b \<le> pend"

definition buckets_ok :: "(bytes \<Rightarrow> u64) \<Rightarrow> bytes \<Rightarrow> nat \<Rightarrow> nat \<Rightarrow> bool" where
  "buckets_ok hk slot k pend \<longleftrightarrow>
     (\<forall>i<k. is_live (read_bucket slot i) \<longrightarrow> bucket_placed hk slot pend (read_bucket slot i)) \<and>
     (\<forall>i<k. \<forall>j<k. i \<noteq> j \<longrightarrow> is_live (read_bucket slot i) \<longrightarrow> is_live (read_bucket slot j) \<longrightarrow>
        buckets_apart (read_bucket slot i) (read_bucket slot j))"

definition bucket_weight :: "Bucket \<Rightarrow> nat" where
  "bucket_weight b = (if is_live b then field_len b + val_len b else 0)"

definition used_bytes :: "bytes \<Rightarrow> nat \<Rightarrow> nat" where
  "used_bytes slot k = (\<Sum>i<k. bucket_weight (read_bucket slot i))"

definition live_cells :: "bytes \<Rightarrow> nat \<Rightarrow> nat" where
  "live_cells slot k = (\<Sum>i<k. if is_live (read_bucket slot i) then 1 else 0)"

definition shaped :: "bytes \<Rightarrow> nat \<Rightarrow> nat \<Rightarrow> nat \<Rightarrow> nat \<Rightarrow> bool" where
  "shaped slot live k pend dead \<longleftrightarrow> 0 < k \<and> read_header slot = Ok (live, k - 1, pend, dead)"

text \<open>The invariant for the header values \<open>live\<close>, \<open>k\<close>, \<open>pend\<close>, \<open>dead\<close>.\<close>

definition frame_at :: "(bytes \<Rightarrow> u64) \<Rightarrow> bytes \<Rightarrow> nat \<Rightarrow> nat \<Rightarrow> nat \<Rightarrow> nat \<Rightarrow> bool" where
  "frame_at hk slot live k pend dead \<longleftrightarrow>
     shaped slot live k pend dead \<and> 64 \<le> length slot \<and> length slot \<le> MAX_SLOT_CAPACITY \<and>
     default_k_for_capacity (length slot) \<le> k \<and>
     live = live_cells slot k \<and> 10 * live < 7 * k \<and> pend = 8 + used_bytes slot k + dead \<and>
     buckets_ok hk slot k pend \<and> ring_ok (fh hk) k (cell_at slot)"

definition hash_frame_ok :: "(bytes \<Rightarrow> u64) \<Rightarrow> bytes \<Rightarrow> bool" where
  "hash_frame_ok hk slot \<longleftrightarrow> (\<exists>live k pend dead. frame_at hk slot live k pend dead)"

text \<open>A frame without tombstones and dead bytes, as \<open>init\<close> and \<open>compact\<close> leave it.\<close>

definition frame_clean :: "bytes \<Rightarrow> nat \<Rightarrow> nat \<Rightarrow> bool" where
  "frame_clean slot k dead \<longleftrightarrow> dead = 0 \<and> (\<forall>i<k. cell_at slot i \<noteq> Gone)"

definition frame_map :: "bytes \<Rightarrow> bytes \<rightharpoonup> bytes" where
  "frame_map slot = map_of (iter_pairs slot)"

section \<open>Consequences\<close>

lemma shapedD:
  assumes "shaped slot live k pend dead"
  shows "header_ok (length slot) k pend" "is_pow2 k" "4 \<le> k" "8 \<le> pend" "pend + 10 * k \<le> length slot"
    "read_header slot = Ok (live, k - 1, pend, dead)" "\<And>x. x AND (k - 1) = x mod k"
proof -
  have k: "0 < k" "k - 1 + 1 = k" using assms by (auto simp: shaped_def)
  have r: "read_header slot = Ok (live, k - 1, pend, dead)" using assms by (simp add: shaped_def)
  then show "read_header slot = Ok (live, k - 1, pend, dead)" .
  have "header_ok (length slot) (k - 1 + 1) pend" using r unfolding read_header_iff by blast
  then show h: "header_ok (length slot) k pend" by (simp only: k)
  then show "is_pow2 k" "4 \<le> k" "8 \<le> pend" "pend + 10 * k \<le> length slot"
    by (auto simp: header_ok_def frame_consts)
  show "x AND (k - 1) = x mod k" for x using and_msk [of "k - 1" x] k \<open>is_pow2 k\<close> by simp
qed

lemma shaped_unique:
  assumes "shaped slot live k pend dead" "shaped slot live' k' pend' dead'"
  shows "live' = live \<and> k' = k \<and> pend' = pend \<and> dead' = dead"
  using assms by (auto simp: shaped_def)

lemma live_cell: "is_live b \<longleftrightarrow> (\<exists>f v. bucket_cell slot b = Used f v)"
  by (auto simp: is_live_def bucket_cell_def)

lemma bucket_cell_live [simp]: "is_live b \<Longrightarrow> bucket_cell slot b = Used (field_of slot b) (value_of slot b)"
  by (auto simp: is_live_def bucket_cell_def)

lemma bucket_cell_Vacant: "bucket_cell slot b = Vacant \<longleftrightarrow> field_len b = EMPTY_FIELD_LEN"
  by (auto simp: bucket_cell_def)

lemma bucket_cell_Gone: "bucket_cell slot b = Gone \<longleftrightarrow> field_len b = TOMBSTONE_FIELD_LEN"
  by (auto simp: bucket_cell_def frame_consts)

lemma sum_one_changed:
  fixes f g :: "nat \<Rightarrow> nat"
  assumes "i < k" "\<And>j. j < k \<Longrightarrow> j \<noteq> i \<Longrightarrow> g j = f j"
  shows "(\<Sum>j<k. g j) + f i = (\<Sum>j<k. f j) + g i"
proof -
  have "(\<Sum>j\<in>{..<k} - {i}. g j) = (\<Sum>j\<in>{..<k} - {i}. f j)" using assms(2) by (intro sum.cong) auto
  then show ?thesis using assms(1) by (simp add: sum.remove [of "{..<k}" i])
qed

section \<open>The pairs of a frame\<close>

lemma live_sum_list:
  "(\<Sum>b\<leftarrow>live_buckets slot k. g b) = (\<Sum>i<k. if is_live (read_bucket slot i) then g (read_bucket slot i) else (0::nat))"
  by (induction k) (simp_all add: live_buckets_def)

lemma length_live_buckets: "length (live_buckets slot k) = live_cells slot k"
  using live_sum_list [of "\<lambda>_. 1" slot k] by (simp add: live_cells_def sum_list_triv)

lemma live_pairs_used:
  assumes "buckets_ok hk slot k pend" "pend \<le> length slot"
  shows "live_pairs slot k = map (\<lambda>b. (field_of slot b, value_of slot b)) (live_buckets slot k)"
proof -
  have "value_inside slot b" if "b \<in> set (live_buckets slot k)" for b
    using that assms by (force simp: live_buckets_def buckets_ok_def bucket_placed_def value_inside_def)
  then have "filter (value_inside slot) (live_buckets slot k) = live_buckets slot k" by (simp add: filter_id_conv)
  then show ?thesis by (simp add: live_pairs_def)
qed

lemma live_pairs_ring:
  assumes "buckets_ok hk slot k pend" "pend \<le> length slot"
  shows "live_pairs slot k =
    map (\<lambda>i. (used_field (cell_at slot i), used_value (cell_at slot i))) (filter (\<lambda>i. \<exists>f v. cell_at slot i = Used f v) [0..<k])"
proof -
  have live: "filter (\<lambda>i. \<exists>f v. cell_at slot i = Used f v) [0..<k] = filter (\<lambda>i. is_live (read_bucket slot i)) [0..<k]"
    by (simp add: cell_at_def live_cell [symmetric])
  have "map (\<lambda>i. (used_field (cell_at slot i), used_value (cell_at slot i))) (filter (\<lambda>i. is_live (read_bucket slot i)) [0..<k]) =
      map (\<lambda>i. (field_of slot (read_bucket slot i), value_of slot (read_bucket slot i))) (filter (\<lambda>i. is_live (read_bucket slot i)) [0..<k])"
    by (rule map_cong) (auto simp: cell_at_def)
  then show ?thesis unfolding live live_pairs_used [OF assms] live_buckets_def by (simp add: filter_map comp_def)
qed

lemma live_cells_0:
  assumes "live_cells slot k = 0"
  shows "live_buckets slot k = []"
  using assms length_live_buckets [of slot k] by simp

lemma iter_pairs_live:
  assumes "frame_at hk slot live k pend dead"
  shows "iter_pairs slot = live_pairs slot k" "frame_map slot = ring_map k (cell_at slot)"
proof -
  have s: "shaped slot live k pend dead" and live: "live = live_cells slot k" and p: "buckets_ok hk slot k pend"
    using assms by (auto simp: frame_at_def)
  note h = shapedD [OF s]
  have k: "Suc (k - Suc 0) = k" using h(3) by simp
  show it: "iter_pairs slot = live_pairs slot k"
    using live live_cells_0 [of slot k] by (auto simp: iter_pairs_def h(6) k live_pairs_def)
  have "pend \<le> length slot" using h(5) by simp
  from live_pairs_ring [OF p this] show "frame_map slot = ring_map k (cell_at slot)"
    unfolding frame_map_def it ring_map_def by simp
qed

section \<open>The probe loops\<close>

lemma holds_cell:
  assumes "buckets_ok hk slot k pend" "pend \<le> length slot" "i < k"
  shows "(field_len (read_bucket slot i) \<noteq> TOMBSTONE_FIELD_LEN \<and> field_len (read_bucket slot i) \<noteq> EMPTY_FIELD_LEN \<and>
      hash32 (read_bucket slot i) = fh hk field \<and> holds_field slot (read_bucket slot i) field)
    \<longleftrightarrow> (\<exists>v. cell_at slot i = Used field v)" (is "?L \<longleftrightarrow> ?R")
proof -
  let ?b = "read_bucket slot i"
  have "?R \<longleftrightarrow> is_live ?b \<and> field_of slot ?b = field" by (auto simp: cell_at_def bucket_cell_def is_live_def)
  also have "\<dots> \<longleftrightarrow> ?L"
    using assms by (auto simp: is_live_def holds_field_def buckets_ok_def bucket_placed_def)
  finally show ?thesis by blast
qed

lemma find_loop_scan:
  assumes "buckets_ok hk slot k pend" "pend \<le> length slot" "i < k" "\<And>x. x AND (k - 1) = x mod k"
  shows "find_loop slot field (fh hk field) (k - 1) n i =
    (case ring_scan (stops (cell_at slot) field) k n i of
       Some j \<Rightarrow> if cell_at slot j = Vacant then None else Some j | None \<Rightarrow> None)"
  using assms(3)
proof (induction n arbitrary: i)
  case (Suc n)
  have "(i + 1) mod k < k" using Suc.prems by simp
  from Suc.IH [OF this] show ?case
    using holds_cell [OF assms(1,2) Suc.prems, of field] assms(4) [of "i + 1"]
    by (auto simp: stops_def cell_at_def bucket_cell_Vacant Let_def)
qed simp

lemma get_loop_find:
  assumes "buckets_ok hk slot k pend" "pend \<le> length slot" "i < k" "\<And>x. x AND (k - 1) = x mod k"
  shows "get_loop slot field (fh hk field) (k - 1) n i =
    map_option (\<lambda>j. used_value (cell_at slot j)) (find_loop slot field (fh hk field) (k - 1) n i)"
  using assms(3)
proof (induction n arbitrary: i)
  case (Suc n)
  have nxt: "(i + 1) mod k < k" using Suc.prems by simp
  have "value_inside slot (read_bucket slot i)" if "is_live (read_bucket slot i)"
    using that assms(1,2) Suc.prems by (auto simp: buckets_ok_def bucket_placed_def value_inside_def)
  then show ?case
    using Suc.IH [OF nxt] assms(4) [of "i + 1"] by (auto simp: is_live_def cell_at_def Let_def)
qed simp

lemma find_loop_map:
  assumes fr: "frame_at hk slot live k pend dead"
  shows "case find_loop slot field (fh hk field) (k - 1) k (fh hk field mod k) of
      Some i \<Rightarrow> i < k \<and> (\<exists>v. cell_at slot i = Used field v \<and> ring_map k (cell_at slot) field = Some v)
    | None \<Rightarrow> ring_map k (cell_at slot) field = None"
proof -
  have s: "shaped slot live k pend dead" and p: "buckets_ok hk slot k pend" and ring: "ring_ok (fh hk) k (cell_at slot)"
    using fr by (auto simp: frame_at_def)
  note h = shapedD [OF s]
  have len: "pend \<le> length slot" and k: "fh hk field mod k < k" using h by simp_all
  have eq: "find_loop slot field (fh hk field) (k - 1) k (fh hk field mod k) =
      (case find_cell (fh hk) k (cell_at slot) field of
         Some j \<Rightarrow> if cell_at slot j = Vacant then None else Some j | None \<Rightarrow> None)"
    using find_loop_scan [OF p len k h(7), of field k] by (simp only: find_cell_def)
  show ?thesis
  proof (cases "ring_map k (cell_at slot) field")
    case None
    then show ?thesis unfolding eq using find_cell_absent [OF ring None] by (auto split: option.splits)
  next
    case (Some v)
    then obtain i where i: "i < k" "cell_at slot i = Used field v" using ring_map_Some [OF ring] by blast
    then show ?thesis unfolding eq using find_cell_used [OF ring i] Some by simp
  qed
qed

lemma no_live_map:
  assumes "frame_at hk slot 0 k pend dead"
  shows "ring_map k (cell_at slot) = Map.empty"
proof -
  have "live_buckets slot k = []" using assms live_cells_0 [of slot k] by (auto simp: frame_at_def)
  then have "iter_pairs slot = []" using iter_pairs_live(1) [OF assms] by (simp add: live_pairs_def)
  then show ?thesis using iter_pairs_live(2) [OF assms] by (simp add: frame_map_def)
qed

lemma frame_get_map:
  assumes "frame_at hk slot live k pend dead"
  shows "frame_get hk slot field = frame_map slot field"
proof -
  have s: "shaped slot live k pend dead" and p: "buckets_ok hk slot k pend" using assms by (auto simp: frame_at_def)
  note h = shapedD [OF s]
  have len: "pend \<le> length slot" and k: "fh hk field mod k < k" "k - 1 + 1 = k" using h by simp_all
  have eq: "frame_get hk slot field =
      (if live = 0 then None else get_loop slot field (fh hk field) (k - 1) k (fh hk field mod k))"
    unfolding frame_get_def h(6) Let_def by (simp only: outcome.case prod.case k h(7))
  have "live \<noteq> 0 \<Longrightarrow> ?thesis"
    using find_loop_map [OF assms, of field] get_loop_find [OF p len k(1) h(7), of field k]
    by (auto simp only: eq iter_pairs_live(2) [OF assms] split: option.splits) (simp_all add: eq)
  moreover have "live = 0 \<Longrightarrow> ?thesis"
    using no_live_map [of hk slot k pend dead] assms by (auto simp: eq iter_pairs_live(2) [OF assms])
  ultimately show ?thesis by blast
qed

end
