(* ===== verification/Hash_Frame_Ops.thy ===== *)
theory Hash_Frame_Ops
  imports Hash_Frame_Inv
begin

text \<open>
  One bucket write with its header: the effect of a deletion, of an in-place update, of an appended
  pair and of an insertion on the invariant and on the map of a frame.
\<close>

section \<open>Editing one bucket\<close>

definition edit_bucket :: "nat \<Rightarrow> nat \<Rightarrow> nat \<Rightarrow> nat \<Rightarrow> nat \<Rightarrow> Bucket \<Rightarrow> bytes \<Rightarrow> bytes" where
  "edit_bucket live k pend dead i b s = write_header live (k - 1) pend dead (write_bucket i b s)"

lemma bucket_effect:
  assumes room: "8 + 10 * k \<le> length s" and i: "i < k" "bucket_ok b"
  shows "length (write_bucket i b s) = length s" "read_header (write_bucket i b s) = read_header s"
    "\<And>j. j < k \<Longrightarrow> read_bucket (write_bucket i b s) j = (if j = i then b else read_bucket s j)"
    "\<And>p n. p + n + 10 * k \<le> length s \<Longrightarrow> bytes_at p n (write_bucket i b s) = bytes_at p n s"
proof -
  have mul: "10 * (i + 1) \<le> 10 * k" using i by simp
  have bi: "BUCKET_SIZE * (i + 1) \<le> length s" using room mul by (simp add: BUCKET_SIZE_def)
  show len: "length (write_bucket i b s) = length s" using bi by simp
  show pay: "bytes_at p n (write_bucket i b s) = bytes_at p n s" if "p + n + 10 * k \<le> length s" for p n
  proof -
    have "p + n \<le> bucket_off s i" using that mul bi by (simp add: bucket_off_def BUCKET_SIZE_def)
    then show ?thesis using bytes_at_bucket_write [OF bi, of p n b] by simp
  qed
  show "read_header (write_bucket i b s) = read_header s"
    using room by (intro read_header_cong len pay) simp
  show "read_bucket (write_bucket i b s) j = (if j = i then b else read_bucket s j)" if "j < k" for j
  proof -
    have "BUCKET_SIZE * (j + 1) \<le> length s" using that room by (simp add: BUCKET_SIZE_def)
    from read_bucket_write [OF bi this i(2)] show ?thesis by auto
  qed
qed

lemma edit_bucket_effect:
  assumes k: "0 < k" "header_ok (length s) k pend" "length s \<le> MAX_SLOT_CAPACITY" and i: "i < k" "bucket_ok b"
    and small: "live < 2 ^ 16" "dead < 2 ^ 16"
  shows "shaped (edit_bucket live k pend dead i b s) live k pend dead" "length (edit_bucket live k pend dead i b s) = length s"
    "\<And>j. j < k \<Longrightarrow> read_bucket (edit_bucket live k pend dead i b s) j = (if j = i then b else read_bucket s j)"
    "\<And>p n. 8 \<le> p \<Longrightarrow> p + n + 10 * k \<le> length s \<Longrightarrow> bytes_at p n (edit_bucket live k pend dead i b s) = bytes_at p n s"
proof -
  have room: "8 + 10 * k \<le> length s" using k(2) by (auto simp: header_ok_def frame_consts)
  note B = bucket_effect [OF room i]
  show "length (edit_bucket live k pend dead i b s) = length s" using B(1) room by (simp add: edit_bucket_def)
  have "k - 1 + 1 = k" using k(1) by simp
  then show "shaped (edit_bucket live k pend dead i b s) live k pend dead"
    unfolding shaped_def edit_bucket_def using k small room B(1) by (intro conjI read_header_write) (auto simp del: add_2_eq_Suc')
  show "read_bucket (edit_bucket live k pend dead i b s) j = (if j = i then b else read_bucket s j)" if "j < k" for j
  proof -
    have "8 + BUCKET_SIZE * (j + 1) \<le> length s" using that room by (simp add: BUCKET_SIZE_def)
    then show ?thesis unfolding edit_bucket_def using B(1) B(3) [OF that] by auto
  qed
  show "bytes_at p n (edit_bucket live k pend dead i b s) = bytes_at p n s" if "8 \<le> p" "p + n + 10 * k \<le> length s" for p n
    unfolding edit_bucket_def using bytes_at_header_write [of "write_bucket i b s" p n] B(1,4) that room by simp
qed

text \<open>The effect of a changed bucket on everything that is a sum or a family over the buckets.\<close>

lemma bucket_change:
  assumes p: "buckets_ok hk slot k pend" and i: "i < k" and grow: "pend \<le> pend'"
    and rb: "\<And>j. j < k \<Longrightarrow> read_bucket s' j = (if j = i then b else read_bucket slot j)"
    and keep: "\<And>j. j < k \<Longrightarrow> j \<noteq> i \<Longrightarrow> is_live (read_bucket slot j) \<Longrightarrow>
      field_of s' (read_bucket slot j) = field_of slot (read_bucket slot j) \<and> value_of s' (read_bucket slot j) = value_of slot (read_bucket slot j)"
    and b: "is_live b \<Longrightarrow> bucket_placed hk s' pend' b \<and> (\<forall>j<k. j \<noteq> i \<longrightarrow> is_live (read_bucket slot j) \<longrightarrow> buckets_apart b (read_bucket slot j))"
  shows "buckets_ok hk s' k pend'"
    and "\<And>j. j < k \<Longrightarrow> cell_at s' j = (if j = i then bucket_cell s' b else cell_at slot j)"
    and "used_bytes s' k + bucket_weight (read_bucket slot i) = used_bytes slot k + bucket_weight b"
    and "live_cells s' k + (if is_live (read_bucket slot i) then 1 else 0) = live_cells slot k + (if is_live b then 1 else 0)"
proof -
  have pl: "bucket_placed hk s' pend' (read_bucket slot j)" if "j < k" "j \<noteq> i" "is_live (read_bucket slot j)" for j
    using p keep [OF that] that grow by (force simp: buckets_ok_def bucket_placed_def)
  show "buckets_ok hk s' k pend'"
    using p i b pl unfolding buckets_ok_def by (auto simp: rb buckets_apart_def)
  show "cell_at s' j = (if j = i then bucket_cell s' b else cell_at slot j)" if "j < k" for j
    using that keep [of j] by (auto simp: cell_at_def rb bucket_cell_def is_live_def)
  show "used_bytes s' k + bucket_weight (read_bucket slot i) = used_bytes slot k + bucket_weight b"
    using sum_one_changed [OF i, of "\<lambda>j. bucket_weight (read_bucket s' j)" "\<lambda>j. bucket_weight (read_bucket slot j)"] i
    by (simp add: used_bytes_def rb)
  show "live_cells s' k + (if is_live (read_bucket slot i) then 1 else 0) = live_cells slot k + (if is_live b then 1 else 0)"
    using sum_one_changed [OF i, of "\<lambda>j. if is_live (read_bucket s' j) then 1 else 0"
        "\<lambda>j. if is_live (read_bucket slot j) then 1 else 0"] i
    by (simp add: live_cells_def rb)
qed

lemma frame_atD:
  assumes "frame_at hk slot live k pend dead"
  shows "shaped slot live k pend dead" "64 \<le> length slot" "length slot \<le> MAX_SLOT_CAPACITY"
    "default_k_for_capacity (length slot) \<le> k" "live = live_cells slot k" "10 * live < 7 * k" "dead < 2 ^ 12"
    "pend = 8 + used_bytes slot k + dead" "buckets_ok hk slot k pend" "ring_ok (fh hk) k (cell_at slot)"
    "0 < k" "k \<le> 256" "live < 2 ^ 16" "pend + 10 * k \<le> length slot" "pend \<le> length slot" "8 \<le> pend" "is_pow2 k"
    "\<And>x. x AND (k - 1) = x mod k" "read_header slot = Ok (live, k - 1, pend, dead)"
  using assms shapedD [of slot live k pend dead]
  by (auto simp: frame_at_def header_ok_def frame_consts)

text \<open>Deletion.\<close>

lemma frame_kill:
  assumes fr: "frame_at hk slot live k pend dead" and i: "i < k" "cell_at slot i = Used f v" and d: "dead' = dead + bucket_weight (read_bucket slot i)"
  shows "frame_at hk (edit_bucket (live - 1) k pend dead' i tombstone slot) (live - 1) k pend dead'"
    and "frame_map (edit_bucket (live - 1) k pend dead' i tombstone slot) = (frame_map slot)(f := None)"
proof -
  define s' where "s' = edit_bucket (live - 1) k pend dead' i tombstone slot"
  note F = frame_atD [OF fr]
  have ok: "bucket_ok tombstone" "\<not> is_live tombstone" by (simp_all add: bucket_ok_def tombstone_def is_live_def frame_consts)
  have "live - 1 < 2 ^ 16" using F(13) by simp
  note small = this
  have le: "bucket_weight (read_bucket slot i) \<le> used_bytes slot k"
    unfolding used_bytes_def using i(1) by (intro member_le_sum) auto
  then have "dead' < 2 ^ 16" using d F(3,8,15) by (simp add: frame_consts)
  note E = edit_bucket_effect [OF F(11) shapedD(1) [OF F(1)] F(3) i(1) ok(1) small this, folded s'_def]
  have keep: "field_of s' b = field_of slot b \<and> value_of s' b = value_of slot b" if "bucket_placed hk slot pend b" for b
    using that F(14) by (simp add: field_of_def value_of_def bucket_placed_def E(4))
  have live_i: "is_live (read_bucket slot i)" using i(2) live_cell unfolding cell_at_def by blast
  have "field_of s' (read_bucket slot j) = field_of slot (read_bucket slot j) \<and> value_of s' (read_bucket slot j) = value_of slot (read_bucket slot j)"
    if "j < k" "is_live (read_bucket slot j)" for j
    using keep that F(9) by (simp add: buckets_ok_def)
  then have B: "buckets_ok hk s' k pend" "\<And>j. j < k \<Longrightarrow> cell_at s' j = (if j = i then bucket_cell s' tombstone else cell_at slot j)"
      "used_bytes s' k + bucket_weight (read_bucket slot i) = used_bytes slot k + bucket_weight tombstone"
      "live_cells s' k + (if is_live (read_bucket slot i) then 1 else 0) = live_cells slot k + (if is_live tombstone then 1 else 0)"
    using bucket_change [OF F(9) i(1) order_refl, of s' tombstone] E(3) ok(2) by blast+
  have gone: "bucket_cell s' tombstone = Gone" by (simp add: bucket_cell_Gone tombstone_def)
  have ring: "ring_ok (fh hk) k (cell_at s') \<and> ring_map k (cell_at s') = (ring_map k (cell_at slot))(f := None)"
    using ring_kill [OF F(10) i, of "cell_at s'"] B(2) gone by simp
  show fr': "frame_at hk (edit_bucket (live - 1) k pend dead' i tombstone slot) (live - 1) k pend dead'"
    using F(2-8) B(1,3,4) E(1,2) ring live_i ok(2) d unfolding s'_def [symmetric] frame_at_def by (auto simp: bucket_weight_def)
  show "frame_map (edit_bucket (live - 1) k pend dead' i tombstone slot) = (frame_map slot)(f := None)"
    using iter_pairs_live(2) [OF fr'] iter_pairs_live(2) [OF fr] ring unfolding s'_def by simp
qed

text \<open>A pair written into a ring_cell, with its payload already in \<open>s\<close>.\<close>

lemma frame_put:
  assumes fr: "frame_at hk slot live k pend dead" and i: "i < k"
    and s: "length s = length slot" "\<And>j. j < k \<Longrightarrow> read_bucket s j = read_bucket slot j"
    and keep: "\<And>j. j < k \<Longrightarrow> j \<noteq> i \<Longrightarrow> is_live (read_bucket slot j) \<Longrightarrow>
      field_of s (read_bucket slot j) = field_of slot (read_bucket slot j) \<and> value_of s (read_bucket slot j) = value_of slot (read_bucket slot j)"
    and b: "is_live b" "bucket_placed hk s pend' b" "field_of s b = f" "value_of s b = v"
      "\<And>j. j < k \<Longrightarrow> j \<noteq> i \<Longrightarrow> is_live (read_bucket slot j) \<Longrightarrow> buckets_apart b (read_bucket slot j)"
    and reach: "reaches (cell_at slot) k (fh hk f mod k) i" "\<And>g w. cell_at slot i = Used g w \<Longrightarrow> g = f"
      "\<And>j w. j < k \<Longrightarrow> cell_at slot j = Used f w \<Longrightarrow> j = i"
    and sizes: "pend \<le> pend'" "pend' + 10 * k \<le> length slot" "10 * live' < 7 * k"
      "live' + (if is_live (read_bucket slot i) then 1 else 0) = live + 1"
      "pend' + bucket_weight (read_bucket slot i) = 8 + used_bytes slot k + bucket_weight b + dead'"
  shows "frame_at hk (edit_bucket live' k pend' dead' i b s) live' k pend' dead'"
    and "frame_map (edit_bucket live' k pend' dead' i b s) = (frame_map slot)(f \<mapsto> v)"
    and "length (edit_bucket live' k pend' dead' i b s) = length slot"
    and "used_bytes (edit_bucket live' k pend' dead' i b s) k + bucket_weight (read_bucket slot i) = used_bytes slot k + bucket_weight b"
    and "\<And>j. j < k \<Longrightarrow> cell_at (edit_bucket live' k pend' dead' i b s) j = (if j = i then Used f v else cell_at slot j)"
proof -
  define s' where "s' = edit_bucket live' k pend' dead' i b s"
  note F = frame_atD [OF fr]
  have hd: "header_ok (length s) k pend'" "length s \<le> MAX_SLOT_CAPACITY" "live' < 2 ^ 16" "bucket_ok b"
    using shapedD(1) [OF F(1)] sizes F(3,12) s(1) b(2) by (auto simp: header_ok_def frame_consts bucket_placed_def)
  have "bucket_weight (read_bucket slot i) \<le> used_bytes slot k"
    unfolding used_bytes_def using i by (intro member_le_sum) auto
  then have "dead' < 2 ^ 16" using sizes(2,5) F(3) by (simp add: frame_consts)
  note E = edit_bucket_effect [OF F(11) hd(1,2) i hd(4,3) this, folded s'_def]
  have pay: "field_of s' c = field_of s c \<and> value_of s' c = value_of s c" if "bucket_placed hk x pend' c" for c x
    using that sizes(2) s(1) by (simp add: field_of_def value_of_def bucket_placed_def E(4))
  have rb: "read_bucket s' j = (if j = i then b else read_bucket slot j)" if "j < k" for j using E(3) s(2) that by simp
  have keep': "field_of s' (read_bucket slot j) = field_of slot (read_bucket slot j) \<and> value_of s' (read_bucket slot j) = value_of slot (read_bucket slot j)"
    if "j < k" "j \<noteq> i" "is_live (read_bucket slot j)" for j
  proof -
    have "bucket_placed hk slot pend' (read_bucket slot j)" using F(9) sizes(1) that by (force simp: buckets_ok_def bucket_placed_def)
    then show ?thesis using pay keep [OF that] by metis
  qed
  have "bucket_placed hk s' pend' b \<and> (\<forall>j<k. j \<noteq> i \<longrightarrow> is_live (read_bucket slot j) \<longrightarrow> buckets_apart b (read_bucket slot j))"
    using b pay [OF b(2)] by (auto simp: bucket_placed_def)
  then have B: "buckets_ok hk s' k pend'" "\<And>j. j < k \<Longrightarrow> cell_at s' j = (if j = i then bucket_cell s' b else cell_at slot j)"
      "used_bytes s' k + bucket_weight (read_bucket slot i) = used_bytes slot k + bucket_weight b"
      "live_cells s' k + (if is_live (read_bucket slot i) then 1 else 0) = live_cells slot k + (if is_live b then 1 else 0)"
    using bucket_change [OF F(9) i sizes(1) rb keep'] by blast+
  have "bucket_cell s' b = Used f v" using b pay [OF b(2)] by simp
  then have cells: "cell_at s' j = (if j = i then Used f v else cell_at slot j)" if "j < k" for j using B(2) that by simp
  have ring: "ring_ok (fh hk) k (cell_at s') \<and> ring_map k (cell_at s') = (ring_map k (cell_at slot))(f \<mapsto> v)"
    by (rule ring_put [OF F(10) i reach(1)]) (fact reach(2), fact reach(3), fact cells)
  show fr': "frame_at hk (edit_bucket live' k pend' dead' i b s) live' k pend' dead'"
    using F(2-6) B(1,3,4) E(1,2) ring b(1) sizes s(1) unfolding s'_def [symmetric] frame_at_def by auto
  show "frame_map (edit_bucket live' k pend' dead' i b s) = (frame_map slot)(f \<mapsto> v)"
    using iter_pairs_live(2) [OF fr'] iter_pairs_live(2) [OF fr] ring unfolding s'_def by simp
  show "length (edit_bucket live' k pend' dead' i b s) = length slot" using E(2) s(1) unfolding s'_def by simp
  show "used_bytes (edit_bucket live' k pend' dead' i b s) k + bucket_weight (read_bucket slot i) = used_bytes slot k + bucket_weight b"
    using B(3) unfolding s'_def .
  show "cell_at (edit_bucket live' k pend' dead' i b s) j = (if j = i then Used f v else cell_at slot j)" if "j < k" for j
    using cells [OF that] unfolding s'_def .
qed

end
