(* ===== verification/Hash_Frame_Upsert.thy ===== *)
theory Hash_Frame_Upsert
  imports Hash_Frame_Ops
begin

text \<open>
  \<open>HashSlotFrame::upsert\<close>: one pass keeps the invariant and does the update, reports a full frame
  without touching it, or asks for a compaction or a larger directory.
\<close>

section \<open>The probe\<close>

lemma upsert_probe_fst:
  "fst (upsert_probe slot f hash msk n i first t) = find_loop slot f hash msk n i"
  by (induction n arbitrary: i first t) (auto simp: Let_def frame_consts)

lemma upsert_probe_free:
  assumes "start < k" "\<And>x. x AND (k - 1) = x mod k" "m + n = k"
    and "\<forall>m'<m. cell_at slot ((start + m') mod k) \<noteq> Vacant"
    and "case first of None \<Rightarrow> t = 0 \<and> (\<forall>m'<m. cell_at slot ((start + m') mod k) \<noteq> Gone)
         | Some j \<Rightarrow> j < k \<and> cell_at slot j = Gone \<and> reaches (cell_at slot) k start j"
    and "upsert_probe slot f hash (k - 1) n ((start + m) mod k) first t = (None, first', t')"
  shows "case first' of None \<Rightarrow> t' = 0 \<and> (\<forall>m'<k. is_live (read_bucket slot ((start + m') mod k)))
         | Some j \<Rightarrow> j < k \<and> (cell_at slot j = Vacant \<or> cell_at slot j = Gone) \<and> reaches (cell_at slot) k start j \<and>
             (0 < t' \<longrightarrow> (\<exists>j<k. cell_at slot j = Gone))"
  using assms(3-6)
proof (induction n arbitrary: m first t)
  case 0
  have "\<forall>m'<k. is_live (read_bucket slot ((start + m') mod k))" if "first = None"
    using that 0 by (simp add: is_live_def cell_at_def bucket_cell_Gone bucket_cell_Vacant)
  then show ?case using 0 by (auto split: option.splits)
next
  case (Suc n)
  let ?i = "(start + m) mod k" and ?c = "cell_at slot"
  have nxt: "(?i + 1) AND (k - 1) = (start + Suc m) mod k" by (simp only: assms(2)) (simp add: mod_Suc_eq)
  have i: "?i < k" using assms(1) by simp
  have r: "reaches ?c k start ?i" using Suc.prems by (auto simp: reaches_def intro!: exI [of _ m])
  have pass: "\<forall>m'<Suc m. ?c ((start + m') mod k) \<noteq> Vacant" if "?c ?i \<noteq> Vacant"
    using that Suc.prems(2) less_Suc_eq by auto
  consider (vacant) "?c ?i = Vacant" | (gone) "?c ?i = Gone" | (used) "is_live (read_bucket slot ?i)"
    using live_cell [of "read_bucket slot ?i" slot] unfolding cell_at_def by (cases "bucket_cell slot (read_bucket slot ?i)") auto
  then show ?case
  proof cases
    case vacant
    then have "field_len (read_bucket slot ?i) = EMPTY_FIELD_LEN" by (simp add: cell_at_def bucket_cell_Vacant)
    then show ?thesis using Suc.prems(3,4) i r vacant by (auto simp: Let_def split: option.splits)
  next
    case gone
    then have *: "upsert_probe slot f hash (k - 1) n ((start + Suc m) mod k)
        (case first of None \<Rightarrow> Some ?i | Some j \<Rightarrow> Some j) (t + 1) = (None, first', t')"
      using Suc.prems(4) nxt by (simp add: Let_def cell_at_def bucket_cell_Gone frame_consts)
    show ?thesis
      by (rule Suc.IH [OF _ _ _ *]) (use Suc.prems(1,3) pass gone i r in \<open>auto split: option.splits\<close>)
  next
    case used
    then have *: "upsert_probe slot f hash (k - 1) n ((start + Suc m) mod k) first t = (None, first', t')"
      using Suc.prems(4) nxt by (auto simp: Let_def is_live_def split: if_splits)
    have live: "?c ?i \<noteq> Vacant" "?c ?i \<noteq> Gone" using used by (simp_all add: cell_at_def)
    show ?thesis
      by (rule Suc.IH [OF _ _ _ *]) (use Suc.prems(1,3) pass live in \<open>auto simp: less_Suc_eq split: option.splits\<close>)
  qed
qed

lemma sum_ones: "(\<forall>i<k. P i) \<Longrightarrow> (\<Sum>i<k. if P i then 1 else 0) = (k::nat)"
  by simp

lemma ring_cover:
  assumes "start < (k::nat)" "\<forall>m<k. P ((start + m) mod k)" "i < k"
  shows "P i"
proof -
  let ?m = "(i + (k - start)) mod k"
  have "(start + ?m) mod k = (start + (i + (k - start))) mod k" by (simp add: mod_add_right_eq)
  also have "\<dots> = i" using assms(1,3) by simp
  finally show ?thesis using assms(2) [rule_format, of ?m] assms(1) by simp
qed

lemma upsert_probe_spec:
  assumes fr: "frame_at hk slot live k pend dead"
    and pr: "upsert_probe slot f (fh hk f) (k - 1) k (fh hk f mod k) None 0 = (target, first, t)"
  shows "case target of
      Some i \<Rightarrow> i < k \<and> (\<exists>v. cell_at slot i = Used f v \<and> frame_map slot f = Some v)
    | None \<Rightarrow> frame_map slot f = None \<and> (0 < t \<longrightarrow> (\<exists>j<k. cell_at slot j = Gone)) \<and>
        (\<exists>i<k. first = Some i \<and> \<not> is_live (read_bucket slot i) \<and> reaches (cell_at slot) k (fh hk f mod k) i)"
proof -
  note F = frame_atD [OF fr]
  have start: "fh hk f mod k < k" using F(11) by simp
  have tg: "target = find_loop slot f (fh hk f) (k - 1) k (fh hk f mod k)"
    using upsert_probe_fst [of slot f "fh hk f" "k - 1" k "fh hk f mod k" None 0] unfolding pr by simp
  note map_eq = iter_pairs_live(2) [OF fr]
  show ?thesis
  proof (cases target)
    case (Some i)
    then show ?thesis using find_loop_map [OF fr, of f] unfolding tg [symmetric] map_eq by simp
  next
    case None
    have 1: "upsert_probe slot f (fh hk f) (k - 1) k ((fh hk f mod k + 0) mod k) None 0 = (None, first, t)"
      using pr None by simp
    have free: "case first of None \<Rightarrow> t = 0 \<and> (\<forall>m'<k. is_live (read_bucket slot ((fh hk f mod k + m') mod k)))
         | Some j \<Rightarrow> j < k \<and> (cell_at slot j = Vacant \<or> cell_at slot j = Gone) \<and> reaches (cell_at slot) k (fh hk f mod k) j \<and>
             (0 < t \<longrightarrow> (\<exists>j<k. cell_at slot j = Gone))"
      by (rule upsert_probe_free [OF start F(18) _ _ _ 1]) simp_all
    have "first \<noteq> None"
    proof
      assume "first = None"
      then have "\<forall>m<k. is_live (read_bucket slot ((fh hk f mod k + m) mod k))" using free by simp
      then have "\<forall>i<k. is_live (read_bucket slot i)" using ring_cover [OF start, of "\<lambda>i. is_live (read_bucket slot i)"] by blast
      then have "live_cells slot k = k" by (simp add: live_cells_def)
      then show False using F(5,6) by simp
    qed
    then obtain i where i: "first = Some i" by blast
    have "\<not> is_live (read_bucket slot i)"
      using free i live_cell [of "read_bucket slot i" slot] by (auto simp: cell_at_def)
    then show ?thesis
      using None find_loop_map [OF fr, of f] free i unfolding tg [symmetric] map_eq by auto
  qed
qed

section \<open>Writing a pair\<close>

lemma field_len_live:
  assumes "bucket_placed hk slot pend b" "pend \<le> length slot"
  shows "length (field_of slot b) = field_len b" "length (value_of slot b) = val_len b"
  using assms by (auto simp: bucket_placed_def field_of_def value_of_def)

lemma frame_append:
  assumes fr: "frame_at hk slot live k pend dead" and i: "i < k" and f: "f \<noteq> []"
    and reach: "reaches (cell_at slot) k (fh hk f mod k) i" "\<And>g w. cell_at slot i = Used g w \<Longrightarrow> g = f"
      "\<And>j w. j < k \<Longrightarrow> cell_at slot j = Used f w \<Longrightarrow> j = i"
    and fits: "pend + (length f + length v) + 10 * k \<le> length slot"
    and sizes: "dead' = dead + bucket_weight (read_bucket slot i)" "10 * live' < 7 * k" "live' + (if is_live (read_bucket slot i) then 1 else 0) = live + 1"
    and s': "s' = write_header live' (k - 1) (pend + (length f + length v)) dead' (append_pair (fh hk f) pend f v i slot)"
  shows "frame_at hk s' live' k (pend + (length f + length v)) dead'"
    and "frame_map s' = (frame_map slot)(f \<mapsto> v)" and "length s' = length slot"
    and "used_bytes s' k + bucket_weight (read_bucket slot i) = used_bytes slot k + (length f + length v)"
    and "\<And>j. j < k \<Longrightarrow> cell_at s' j = (if j = i then Used f v else cell_at slot j)"
proof -
  note F = frame_atD [OF fr]
  define s where "s = write_at (pend + length f) v (write_at pend f slot)"
  define b where "b = \<lparr>hash32 = fh hk f, bk_offset = pend, field_len = length f, val_len = length v\<rparr>"
  have eq: "s' = edit_bucket live' k (pend + (length f + length v)) dead' i b s"
    unfolding s' edit_bucket_def append_pair_def s_def b_def by simp
  have small: "length f < 4096" "length v < 4096" "pend < 4096" using fits F(3,11) by (auto simp: frame_consts)
  have len: "length s = length slot" unfolding s_def using fits by simp
  have rb: "read_bucket s j = read_bucket slot j" if "j < k" for j
    unfolding s_def using fits that by (simp add: BUCKET_SIZE_def)
  have pay: "bytes_at p n s = bytes_at p n slot" if "p + n \<le> pend" for p n
    unfolding s_def using fits that by (simp add: bytes_at_write_other)
  have old: "bucket_placed hk slot pend (read_bucket slot j)" if "j < k" "is_live (read_bucket slot j)" for j
    using F(9) that by (simp add: buckets_ok_def)
  have keep: "field_of s (read_bucket slot j) = field_of slot (read_bucket slot j) \<and> value_of s (read_bucket slot j) = value_of slot (read_bucket slot j)"
    if "j < k" "j \<noteq> i" "is_live (read_bucket slot j)" for j
    using old [OF that(1,3)] pay by (auto simp: bucket_placed_def field_of_def value_of_def)
  have live: "is_live b" using f small by (auto simp: b_def is_live_def frame_consts)
  have fv: "field_of s b = f" "value_of s b = v"
    unfolding s_def b_def field_of_def value_of_def using fits by (simp_all add: bytes_at_write_other bytes_at_write_same)
  have "fh hk f < 2 ^ 32" using unsigned_less [of "hash_field hk f", where ?'a = nat] by simp
  then have bucket_placed: "bucket_placed hk s (pend + (length f + length v)) b"
    unfolding bucket_placed_def fv using F(16) small by (simp add: b_def bucket_ok_def)
  have buckets_apart: "buckets_apart b (read_bucket slot j)" if "j < k" "j \<noteq> i" "is_live (read_bucket slot j)" for j
    using old [OF that(1,3)] by (auto simp: buckets_apart_def b_def bucket_placed_def)
  have w: "bucket_weight b = length f + length v" using live by (simp add: bucket_weight_def b_def)
  have "pend + (length f + length v) + bucket_weight (read_bucket slot i) = 8 + used_bytes slot k + bucket_weight b + dead'"
    using F(8) w sizes(1) by simp
  note P = frame_put [OF fr i len rb keep live bucket_placed fv buckets_apart reach(1) reach(2) reach(3) le_add1 fits sizes(2,3) this, folded eq]
  show "frame_at hk s' live' k (pend + (length f + length v)) dead'" by (rule P(1))
  show "frame_map s' = (frame_map slot)(f \<mapsto> v)" by (rule P(2))
  show "length s' = length slot" by (rule P(3))
  show "used_bytes s' k + bucket_weight (read_bucket slot i) = used_bytes slot k + (length f + length v)" using P(4) w by simp
  show "cell_at s' j = (if j = i then Used f v else cell_at slot j)" if "j < k" for j
    by (rule P(5)) (assumption | fact that)+
qed

lemma frame_update:
  assumes fr: "frame_at hk slot live k pend dead" and i: "i < k" "cell_at slot i = Used f w"
    and v: "length v \<le> val_len (read_bucket slot i)" and d: "dead' = dead + (val_len (read_bucket slot i) - length v)"
    and s': "s' = write_header live (k - 1) pend dead' (write_bucket i ((read_bucket slot i)\<lparr>hash32 := fh hk f, val_len := length v\<rparr>)
      (write_at (bk_offset (read_bucket slot i) + field_len (read_bucket slot i)) v slot))"
  shows "frame_at hk s' live k pend dead'" and "frame_map s' = (frame_map slot)(f \<mapsto> v)" and "length s' = length slot"
proof -
  note F = frame_atD [OF fr]
  define old where "old = read_bucket slot i"
  define s where "s = write_at (bk_offset old + field_len old) v slot"
  define b where "b = old\<lparr>hash32 := fh hk f, val_len := length v\<rparr>"
  have eq: "s' = edit_bucket live k pend dead' i b s" unfolding s' edit_bucket_def s_def b_def old_def by simp
  have oldl: "is_live old" using i(2) live_cell unfolding cell_at_def old_def by blast
  have oldf: "field_of slot old = f" using i(2) oldl by (simp add: cell_at_def old_def)
  have oldp: "bucket_placed hk slot pend (read_bucket slot j)" if "j < k" "is_live (read_bucket slot j)" for j
    using F(9) that by (simp add: buckets_ok_def)
  have p: "bucket_placed hk slot pend old" using oldp i(1) oldl unfolding old_def by simp
  have inside: "bk_offset old + field_len old + length v \<le> pend" using p v by (simp add: bucket_placed_def old_def)
  have len: "length s = length slot" unfolding s_def using inside F(15) by simp
  have rb: "read_bucket s j = read_bucket slot j" if "j < k" for j
    unfolding s_def using inside F(14) that by (simp add: BUCKET_SIZE_def)
  have ap: "buckets_apart old (read_bucket slot j)" if "j < k" "j \<noteq> i" "is_live (read_bucket slot j)" for j
    using F(9) i(1) that oldl unfolding buckets_ok_def old_def by auto
  have keep: "field_of s (read_bucket slot j) = field_of slot (read_bucket slot j) \<and> value_of s (read_bucket slot j) = value_of slot (read_bucket slot j)"
    if "j < k" "j \<noteq> i" "is_live (read_bucket slot j)" for j
  proof -
    have "bk_offset old + field_len old + length v \<le> length slot" using inside F(15) by simp
    then show ?thesis using ap [OF that] v unfolding s_def field_of_def value_of_def buckets_apart_def old_def
      by (auto simp: bytes_at_write_other)
  qed
  have live: "is_live b" using oldl by (simp add: b_def is_live_def)
  have fv: "field_of s b = f" "value_of s b = v"
    using oldf inside F(15) unfolding s_def b_def field_of_def value_of_def
    by (simp_all add: bytes_at_write_other bytes_at_write_same)
  have "fh hk f < 2 ^ 32" using unsigned_less [of "hash_field hk f", where ?'a = nat] by simp
  moreover have "length v < 2 ^ 16" using v p by (simp add: old_def bucket_placed_def bucket_ok_def)
  ultimately have bucket_placed: "bucket_placed hk s pend b"
    unfolding bucket_placed_def fv using p inside by (simp add: b_def bucket_placed_def bucket_ok_def)
  have buckets_apart: "buckets_apart b (read_bucket slot j)" if "j < k" "j \<noteq> i" "is_live (read_bucket slot j)" for j
    using ap [OF that] v by (auto simp: buckets_apart_def b_def old_def)
  have bucket_weight: "bucket_weight (read_bucket slot i) = bucket_weight b + (val_len (read_bucket slot i) - length v)"
    using live oldl v by (simp add: bucket_weight_def b_def old_def)
  have uniq: "j = i" if "j < k" "cell_at slot j = Used f u" for j u
    using F(10) i that unfolding ring_ok_def by blast
  have reach: "reaches (cell_at slot) k (fh hk f mod k) i" using F(10) i unfolding ring_ok_def by blast
  have self: "g = f" if "cell_at slot i = Used g u" for g u using that i(2) by simp
  have cnt: "live + (if is_live (read_bucket slot i) then 1 else 0) = live + 1" using oldl by (simp add: old_def)
  have "pend + bucket_weight (read_bucket slot i) = 8 + used_bytes slot k + bucket_weight b + dead'" using F(8) bucket_weight d by simp
  note P = frame_put [OF fr i(1) len rb keep live bucket_placed fv buckets_apart reach self uniq order_refl F(14) F(6) cnt this, folded eq]
  show "frame_at hk s' live k pend dead'" by (rule P(1))
  show "frame_map s' = (frame_map slot)(f \<mapsto> v)" by (rule P(2))
  show "length s' = length slot" by (rule P(3))
qed

end
