(* ===== verification/Hash_Frame_Grow.thy ===== *)
theory Hash_Frame_Grow
  imports Hash_Frame_Upsert
begin

text \<open>
  A fresh frame, and \<open>grow_directory\<close>: the live buckets rehashed into a larger, cleared directory
  are the same map, without tombstones.
\<close>

section \<open>Cleared directories\<close>

lemma from_le_zeros [simp]: "from_le (replicate n 0) = 0"
  by (induction n) simp_all

lemma cleared_bucket:
  assumes "length s = length slot" "10 * k \<le> length slot"
    and "\<And>p n. length slot - 10 * k \<le> p \<Longrightarrow> p + n \<le> length slot \<Longrightarrow> bytes_at p n s = replicate n 0" and "i < k"
  shows "read_bucket s i = \<lparr>hash32 = 0, bk_offset = 0, field_len = EMPTY_FIELD_LEN, val_len = 0\<rparr>"
proof -
  have off: "length slot - 10 * k \<le> bucket_off s i" "bucket_off s i + 10 \<le> length slot"
    using assms(1,2,4) by (auto simp: bucket_off_def BUCKET_SIZE_def)
  then show ?thesis
    using assms(3) [of "bucket_off s i" 4] assms(3) [of "bucket_off s i + 4" 2] assms(3) [of "bucket_off s i + 6" 2]
      assms(3) [of "bucket_off s i + 8" 2]
    by (simp add: read_bucket_def Let_def frame_consts)
qed

lemma bytes_at_zeros:
  assumes "off + length z \<le> length s" "z = replicate m 0" "off \<le> p" "p + n \<le> off + m"
  shows "bytes_at p n (write_at off z s) = replicate n 0"
proof -
  obtain q where p: "p = off + q" using assms(3) le_Suc_ex by blast
  have "bytes_at p n (write_at off z s) = bytes_at q n (bytes_at off m (write_at off z s))"
    using bytes_at_bytes_at [of q n m off] assms(4) p by simp
  also have "bytes_at off m (write_at off z s) = z" using assms by (intro bytes_at_write_same) simp_all
  also have "bytes_at q n z = replicate n 0" using assms(2,4) p by (simp add: bytes_at_def)
  finally show ?thesis .
qed

definition cleared :: "nat \<Rightarrow> nat \<Rightarrow> nat \<Rightarrow> nat \<Rightarrow> bytes \<Rightarrow> bytes" where
  "cleared live k pend dead slot =
     write_header live (k - 1) pend dead (write_at (length slot - k * BUCKET_SIZE) (replicate (k * BUCKET_SIZE) 0) slot)"

lemma cleared_effect:
  assumes k: "0 < k" "header_ok (length slot) k pend" "length slot \<le> MAX_SLOT_CAPACITY" "live < 2 ^ 16" "dead < 2 ^ 16"
  shows "length (cleared live k pend dead slot) = length slot"
    "shaped (cleared live k pend dead slot) live k pend dead"
    "\<And>i. i < k \<Longrightarrow> read_bucket (cleared live k pend dead slot) i = \<lparr>hash32 = 0, bk_offset = 0, field_len = EMPTY_FIELD_LEN, val_len = 0\<rparr>"
    "\<And>p n. 8 \<le> p \<Longrightarrow> p + n + 10 * k \<le> length slot \<Longrightarrow> bytes_at p n (cleared live k pend dead slot) = bytes_at p n slot"
proof -
  have room: "8 + 10 * k \<le> length slot" using k(2) by (auto simp: header_ok_def frame_consts)
  let ?z = "write_at (length slot - k * BUCKET_SIZE) (replicate (k * BUCKET_SIZE) 0) slot"
  have len: "length ?z = length slot" using room by (intro length_write_at) (simp add: BUCKET_SIZE_def)
  show lc: "length (cleared live k pend dead slot) = length slot" unfolding cleared_def using len room by simp
  have "k - 1 + 1 = k" using k(1) by simp
  then show "shaped (cleared live k pend dead slot) live k pend dead"
    unfolding shaped_def cleared_def using k room len by (intro conjI read_header_write) (auto simp del: add_2_eq_Suc')
  have zero: "bytes_at p n (cleared live k pend dead slot) = replicate n 0"
    if "length slot - 10 * k \<le> p" "p + n \<le> length slot" for p n
  proof -
    have "bytes_at p n ?z = replicate n 0"
      using that room by (intro bytes_at_zeros [where m = "k * BUCKET_SIZE"]) (auto simp: BUCKET_SIZE_def)
    then show ?thesis unfolding cleared_def using bytes_at_header_write [of ?z p n] that room len by simp
  qed
  show "read_bucket (cleared live k pend dead slot) i = \<lparr>hash32 = 0, bk_offset = 0, field_len = EMPTY_FIELD_LEN, val_len = 0\<rparr>"
    if "i < k" for i
    using room zero that by (intro cleared_bucket [OF lc]) auto
  show "bytes_at p n (cleared live k pend dead slot) = bytes_at p n slot" if "8 \<le> p" "p + n + 10 * k \<le> length slot" for p n
  proof -
    have "bytes_at p n ?z = bytes_at p n slot" using that room by (intro bytes_at_write_other) (auto simp: BUCKET_SIZE_def)
    then show ?thesis unfolding cleared_def using bytes_at_header_write [of ?z p n] that room len by simp
  qed
qed

section \<open>Initialisation\<close>

lemma pow2_default: "is_pow2 (default_k_for_capacity cap)"
  by (auto simp: default_k_for_capacity_def is_pow2_def next_power_of_two_def bit_length.simps)

lemma init_frame_cleared:
  assumes "64 \<le> length slot" "length slot \<le> MAX_SLOT_CAPACITY" "8 + 10 * default_k_for_capacity (length slot) \<le> length slot"
  shows "init_frame slot = (cleared 0 (default_k_for_capacity (length slot)) 8 0 slot, Ok ())"
proof -
  define k where "k = default_k_for_capacity (length slot)"
  define z where "z = replicate (k * BUCKET_SIZE) (0 :: u8)"
  define off where "off = length slot - k * BUCKET_SIZE"
  have room: "8 \<le> off" "off + length z \<le> length slot" using assms(3) by (auto simp: k_def z_def off_def BUCKET_SIZE_def)
  have "write_at off z (write_header 0 (k - 1) HEADER_SIZE 0 slot) = write_header 0 (k - 1) HEADER_SIZE 0 (write_at off z slot)"
    using room by (simp add: write_header_def write_at_commute [where j = off and e = z])
  then show ?thesis using assms by (simp add: init_frame_def cleared_def k_def z_def off_def Let_def frame_consts)
qed

lemma cleared_empty:
  assumes k: "0 < k" "header_ok (length slot) k pend" "length slot \<le> MAX_SLOT_CAPACITY" "live < 2 ^ 16" "dead < 2 ^ 16"
  shows "\<And>i. i < k \<Longrightarrow> cell_at (cleared live k pend dead slot) i = Vacant"
    "buckets_ok hk (cleared live k pend dead slot) k p" "live_cells (cleared live k pend dead slot) k = 0"
    "used_bytes (cleared live k pend dead slot) k = 0" "ring_ok h k (cell_at (cleared live k pend dead slot))"
    "ring_map k (cell_at (cleared live k pend dead slot)) = Map.empty"
proof -
  let ?s = "cleared live k pend dead slot"
  note C = cleared_effect [OF assms]
  have dead: "\<not> is_live (read_bucket ?s i)" if "i < k" for i using C(3) [OF that] by (simp add: is_live_def)
  show vac: "cell_at ?s i = Vacant" if "i < k" for i using C(3) [OF that] by (simp add: cell_at_def bucket_cell_Vacant)
  show "buckets_ok hk ?s k p" using dead by (simp add: buckets_ok_def)
  show "live_cells ?s k = 0" using dead by (simp add: live_cells_def)
  show "used_bytes ?s k = 0" using dead by (simp add: used_bytes_def bucket_weight_def)
  show "ring_ok h k (cell_at ?s)" "ring_map k (cell_at ?s) = Map.empty" using ring_empty [of k "cell_at ?s"] k(1) vac by blast+
qed

lemma init_frame_ok:
  assumes "64 \<le> length slot" "length slot \<le> MAX_SLOT_CAPACITY" "8 + 10 * default_k_for_capacity (length slot) \<le> length slot"
  defines "k \<equiv> default_k_for_capacity (length slot)"
  obtains s where "init_frame slot = (s, Ok ())" "frame_at hk s 0 k 8 0" "frame_clean s k 0" "frame_map s = Map.empty"
    "length s = length slot"
proof -
  let ?s = "cleared 0 k 8 0 slot"
  have k: "0 < k" "header_ok (length slot) k 8"
    using assms pow2_default [of "length slot"] by (auto simp: header_ok_def frame_consts default_k_for_capacity_def)
  have z: "(0::nat) < 2 ^ 16" by simp
  note C = cleared_effect [OF k assms(2) z z] and E = cleared_empty [OF k assms(2) z z]
  have fr: "frame_at hk ?s 0 k 8 0"
    unfolding frame_at_def using C(1,2) E k assms(1,2) by (simp add: k_def)
  show ?thesis
  proof (rule that)
    show "init_frame slot = (?s, Ok ())" using init_frame_cleared [OF assms(1-3)] by (simp add: k_def)
    show "frame_clean ?s k 0" using E(1) by (simp add: frame_clean_def)
    show "frame_map ?s = Map.empty" using iter_pairs_live(2) [OF fr] E(6) by simp
  qed (use fr C(1) in auto)
qed

section \<open>Rehashing\<close>

lemma place_bucket_scan:
  assumes "\<And>x. x AND (k - 1) = x mod k"
  shows "place_bucket b (k - 1) n i s =
    (case ring_scan (\<lambda>j. cell_at s j = Vacant) k n i of Some j \<Rightarrow> write_bucket j b s | None \<Rightarrow> s)"
proof (induction n arbitrary: i)
  case (Suc n)
  show ?case using Suc.IH [of "(i + 1) mod k"] assms [of "i + 1"]
    by (simp add: cell_at_def bucket_cell_Vacant)
qed simp

text \<open>The buckets of \<open>bs\<close> of the frame \<open>slot\<close> are in the new directory of \<open>s\<close>.\<close>

definition pair_of :: "bytes \<Rightarrow> Bucket \<Rightarrow> bytes \<times> bytes" where
  "pair_of slot b = (field_of slot b, value_of slot b)"

definition rehashed :: "(bytes \<Rightarrow> u64) \<Rightarrow> bytes \<Rightarrow> nat \<Rightarrow> nat \<Rightarrow> Bucket list \<Rightarrow> bytes \<Rightarrow> bool" where
  "rehashed hk slot k pend bs s \<longleftrightarrow>
     length s = length slot \<and> (\<forall>p n. 8 \<le> p \<longrightarrow> p + n \<le> pend \<longrightarrow> bytes_at p n s = bytes_at p n slot) \<and>
     (\<forall>i<k. cell_at s i \<noteq> Gone) \<and> (\<forall>i<k. is_live (read_bucket s i) \<longrightarrow> read_bucket s i \<in> set bs) \<and>
     buckets_ok hk s k pend \<and> ring_ok (fh hk) k (cell_at s) \<and> live_cells s k = length bs \<and>
     used_bytes s k = (\<Sum>b\<leftarrow>bs. bucket_weight b) \<and> ring_map k (cell_at s) = map_of (map (pair_of slot) bs)"

lemma map_of_snoc: "f \<notin> fst ` set xs \<Longrightarrow> map_of (xs @ [(f, v)]) = (map_of xs)(f \<mapsto> v)"
  by (induction xs) (auto simp: fun_eq_iff)

lemma vacant_scan:
  assumes "0 < k" "start < k" "live_cells s k < k" "\<forall>i<k. cell_at s i \<noteq> Gone"
  obtains j where "ring_scan (\<lambda>j. cell_at s j = Vacant) k k start = Some j" "j < k" "cell_at s j = Vacant" "reaches (cell_at s) k start j"
proof (cases "ring_scan (\<lambda>j. cell_at s j = Vacant) k k start")
  case (Some j)
  from this [unfolded ring_scan_Some [OF assms(2)]] have "j < k" "cell_at s j = Vacant" "reaches (cell_at s) k start j"
    using assms(1) by (auto simp: reaches_def)
  then show ?thesis using that Some by simp
next
  case None
  have "\<forall>m<k. cell_at s ((start + m) mod k) \<noteq> Vacant"
    using None unfolding ring_scan_None [OF assms(2)] .
  then have "cell_at s i \<noteq> Vacant" if "i < k" for i
    using ring_cover [OF assms(2), of "\<lambda>i. cell_at s i \<noteq> Vacant"] that by blast
  then have "is_live (read_bucket s i)" if "i < k" for i
    using that assms(4) live_cell [of "read_bucket s i" s] unfolding cell_at_def by (metis ring_cell.exhaust)
  then have "live_cells s k = k" by (simp add: live_cells_def)
  then show ?thesis using assms(3) by simp
qed

lemma rehashed_step:
  assumes r: "rehashed hk slot k pend bs s" and k: "0 < k" "pend + 10 * k \<le> length slot" "8 \<le> pend" "\<And>x. x AND (k - 1) = x mod k"
    and b: "is_live b" "bucket_placed hk slot pend b" "\<forall>c\<in>set bs. buckets_apart c b" "field_of slot b \<notin> field_of slot ` set bs"
    and full: "length bs < k"
  shows "rehashed hk slot k pend (bs @ [b]) (place_bucket b (k - 1) k (hash32 b AND (k - 1)) s)"
    "read_header (place_bucket b (k - 1) k (hash32 b AND (k - 1)) s) = read_header s"
proof -
  let ?f = "field_of slot b" and ?v = "value_of slot b"
  note R = r [unfolded rehashed_def]
  have start: "hash32 b AND (k - 1) = fh hk ?f mod k" using b(2) k(4) by (simp add: bucket_placed_def)
  obtain j where j: "ring_scan (\<lambda>j. cell_at s j = Vacant) k k (fh hk ?f mod k) = Some j" "j < k" "cell_at s j = Vacant"
      "reaches (cell_at s) k (fh hk ?f mod k) j"
    using vacant_scan [of k "fh hk ?f mod k" s] k(1) R full by auto
  define s' where "s' = write_bucket j b s"
  have pl: "place_bucket b (k - 1) k (hash32 b AND (k - 1)) s = s'"
    unfolding place_bucket_scan [OF k(4)] start j(1) s'_def by simp
  have "8 + 10 * k \<le> length s" "bucket_ok b" using R k b by (auto simp: bucket_placed_def)
  note B = bucket_effect [OF this(1) j(2) this(2), folded s'_def]
  have pay: "bytes_at p n s' = bytes_at p n slot" if "8 \<le> p" "p + n \<le> pend" for p n
    using R B(4) [of p n] k(2) that by simp
  have same: "field_of s' c = field_of slot c" "value_of s' c = value_of slot c" if "8 \<le> bk_offset c" "bk_offset c + field_len c + val_len c \<le> pend" for c
    using that pay by (simp_all add: field_of_def value_of_def)
  have same0: "field_of s c = field_of slot c" "value_of s c = value_of slot c" if "8 \<le> bk_offset c" "bk_offset c + field_len c + val_len c \<le> pend" for c
    using that R by (simp_all add: field_of_def value_of_def)
  have dead: "\<not> is_live (read_bucket s j)" using j(3) live_cell [of "read_bucket s j" s] by (simp add: cell_at_def)
  have keep: "field_of s' (read_bucket s i) = field_of s (read_bucket s i) \<and> value_of s' (read_bucket s i) = value_of s (read_bucket s i)"
    if "i < k" "i \<noteq> j" "is_live (read_bucket s i)" for i
    using R that same same0 by (auto simp: buckets_ok_def bucket_placed_def)
  have new: "bucket_placed hk s' pend b \<and> (\<forall>i<k. i \<noteq> j \<longrightarrow> is_live (read_bucket s i) \<longrightarrow> buckets_apart b (read_bucket s i))"
    using b same R by (auto simp: bucket_placed_def buckets_apart_def)
  have cb: "bucket_cell s' b = Used ?f ?v" using b(1,2) same by (simp add: bucket_placed_def)
  have P: "buckets_ok hk s' k pend" using R by (intro bucket_change(1) [OF _ j(2) order_refl B(3) keep new]) auto
  have cells: "cell_at s' i = (if i = j then Used ?f ?v else cell_at s i)" if "i < k" for i
    using R cb that by (subst bucket_change(2) [OF _ j(2) order_refl B(3) keep new]) auto
  have used: "used_bytes s' k = used_bytes s k + bucket_weight b" and live: "live_cells s' k = live_cells s k + 1"
    using bucket_change(3,4) [OF _ j(2) order_refl B(3) keep new] R dead b(1) by (auto simp: bucket_weight_def)
  have none: "ring_map k (cell_at s) ?f = None" using R b(4) by (auto simp: map_of_eq_None_iff pair_of_def image_iff)
  have "ring_ok (fh hk) k (cell_at s') \<and> ring_map k (cell_at s') = (ring_map k (cell_at s))(?f \<mapsto> ?v)"
    using R none j(3) ring_map_None [of "fh hk" k "cell_at s" ?f]
    by (intro ring_put [of _ _ _ j] cells j(2,4)) auto
  moreover have "map_of (map (pair_of slot) (bs @ [b])) = (map_of (map (pair_of slot) bs))(?f \<mapsto> ?v)"
    using b(4) map_of_snoc [of ?f "map (pair_of slot) bs" ?v] by (auto simp: pair_of_def image_iff)
  ultimately show "rehashed hk slot k pend (bs @ [b]) (place_bucket b (k - 1) k (hash32 b AND (k - 1)) s)"
    unfolding pl rehashed_def using R P pay cells used live B(1,3) by auto
  show "read_header (place_bucket b (k - 1) k (hash32 b AND (k - 1)) s) = read_header s" unfolding pl by (rule B(2))
qed

lemma rehashed_fold:
  assumes "rehashed hk slot k pend bs s" and k: "0 < k" "pend + 10 * k \<le> length slot" "8 \<le> pend" "\<And>x. x AND (k - 1) = x mod k"
    and "sorted_wrt buckets_apart (bs @ cs)" "distinct (map (field_of slot) (bs @ cs))" "\<forall>c\<in>set cs. is_live c \<and> bucket_placed hk slot pend c"
    and "length (bs @ cs) < k"
  shows "rehashed hk slot k pend (bs @ cs) (fold (\<lambda>b s. place_bucket b (k - 1) k (hash32 b AND (k - 1)) s) cs s) \<and>
    read_header (fold (\<lambda>b s. place_bucket b (k - 1) k (hash32 b AND (k - 1)) s) cs s) = read_header s"
  using assms(1,6-9)
proof (induction cs arbitrary: bs s)
  case (Cons c cs)
  have c: "is_live c" "bucket_placed hk slot pend c" "\<forall>b\<in>set bs. buckets_apart b c" "field_of slot c \<notin> field_of slot ` set bs" "length bs < k"
    using Cons.prems by (auto simp: sorted_wrt_append)
  note S = rehashed_step [OF Cons.prems(1) k c]
  have "rehashed hk slot k pend ((bs @ [c]) @ cs) (fold (\<lambda>b s. place_bucket b (k - 1) k (hash32 b AND (k - 1)) s) cs
        (place_bucket c (k - 1) k (hash32 c AND (k - 1)) s)) \<and>
      read_header (fold (\<lambda>b s. place_bucket b (k - 1) k (hash32 b AND (k - 1)) s) cs
        (place_bucket c (k - 1) k (hash32 c AND (k - 1)) s)) = read_header (place_bucket c (k - 1) k (hash32 c AND (k - 1)) s)"
    by (rule Cons.IH [OF S(1)]) (use Cons.prems in auto)
  then show ?case using S(2) by simp
qed simp

lemma live_buckets_alt: "live_buckets slot k = map (read_bucket slot) (filter (\<lambda>i. is_live (read_bucket slot i)) [0..<k])"
  by (simp add: live_buckets_def filter_map comp_def)

lemma live_buckets_facts:
  assumes p: "buckets_ok hk slot k pend" and r: "ring_ok (fh hk) k (cell_at slot)"
  shows "sorted_wrt buckets_apart (live_buckets slot k)" "distinct (map (field_of slot) (live_buckets slot k))"
    "\<forall>c\<in>set (live_buckets slot k). is_live c \<and> bucket_placed hk slot pend c"
proof -
  let ?is = "filter (\<lambda>i. is_live (read_bucket slot i)) [0..<k]"
  have "sorted_wrt (<) ?is" by (intro sorted_wrt_filter) simp
  then have "sorted_wrt (\<lambda>i j. buckets_apart (read_bucket slot i) (read_bucket slot j)) ?is"
    by (rule sorted_wrt_mono_rel [rotated]) (use p in \<open>auto simp: buckets_ok_def\<close>)
  then show "sorted_wrt buckets_apart (live_buckets slot k)" by (simp add: live_buckets_alt sorted_wrt_map)
  have "inj_on (\<lambda>i. field_of slot (read_bucket slot i)) (set ?is)"
    using r unfolding ring_ok_def inj_on_def by (auto simp: cell_at_def)
  then show "distinct (map (field_of slot) (live_buckets slot k))"
    by (simp add: live_buckets_alt distinct_map comp_def)
  show "\<forall>c\<in>set (live_buckets slot k). is_live c \<and> bucket_placed hk slot pend c"
    using p by (auto simp: live_buckets_def buckets_ok_def)
qed

lemma used_bytes_list: "used_bytes slot k = (\<Sum>b\<leftarrow>live_buckets slot k. bucket_weight b)"
  unfolding live_sum_list used_bytes_def by (intro sum.cong) (auto simp: bucket_weight_def)

lemma is_pow2_double: "is_pow2 k \<Longrightarrow> is_pow2 (2 * k)"
  using pow2D [of k] next_power_of_two_pow2 by (metis is_pow2_def power_Suc)

lemma pow2_128:
  assumes "is_pow2 k" "k < 256"
  shows "k \<le> 128"
proof -
  obtain n where n: "k = 2 ^ n" using pow2D [OF assms(1)] by blast
  then have "(2::nat) ^ n < 2 ^ 8" using assms(2) by simp
  then have "n < 8" using power_less_imp_less_exp [of "2::nat" n 8] by simp
  then have "n \<le> 7" by simp
  then have "(2::nat) ^ n \<le> 2 ^ 7" by (rule power_increasing) simp
  then show ?thesis using n by simp
qed

lemma grow_directory_ok:
  assumes fr: "frame_at hk slot live k pend dead" and fits: "pend + 20 * k \<le> length slot"
  obtains s where "grow_directory (2 * k) slot = (s, Ok ())" "frame_at hk s live (2 * k) pend dead"
    "frame_map s = frame_map slot" "length s = length slot" "used_bytes s (2 * k) = used_bytes slot k"
    "\<forall>i<2 * k. cell_at s i \<noteq> Gone"
proof -
  note F = frame_atD [OF fr]
  let ?K = "2 * k" and ?bs = "live_buckets slot k"
  have "k \<le> 128" using pow2_128 [OF F(17)] fits F(3) by (simp add: frame_consts)
  then have hd: "header_ok (length slot) ?K pend"
    using F(16) fits is_pow2_double [OF F(17)] shapedD(3) [OF F(1)] by (simp add: header_ok_def frame_consts)
  have K: "0 < ?K" "pend + 10 * ?K \<le> length slot" "8 \<le> pend" using F(11,16) fits by simp_all
  have msk: "x AND (?K - 1) = x mod ?K" for x using and_msk [of "?K - 1" x] is_pow2_double [OF F(17)] K(1) by simp
  have d16: "dead < 2 ^ 16" using F(7) by simp
  note C = cleared_effect [OF K(1) hd F(3,13) d16] and E = cleared_empty [OF K(1) hd F(3,13) d16]
  define s1 where "s1 = cleared live ?K pend dead slot"
  define s where "s = fold (\<lambda>b s. place_bucket b (?K - 1) ?K (hash32 b AND (?K - 1)) s) ?bs s1"
  have r0: "rehashed hk slot ?K pend [] s1"
    unfolding rehashed_def s1_def using C(1,4) C(3) K(2) E by (auto simp: is_live_def)
  have few: "length ([] @ ?bs) < ?K" using F(5,6) length_live_buckets [of slot k] by simp
  note L = live_buckets_facts [OF F(9,10)]
  have RH: "rehashed hk slot ?K pend ([] @ ?bs) s \<and> read_header s = read_header s1"
    unfolding s_def using L few by (intro rehashed_fold [OF r0 K msk]) auto
  note R = RH [THEN conjunct1, simplified, unfolded rehashed_def]
  have sh: "shaped s live ?K pend dead" using C(2) RH unfolding s1_def shaped_def by simp
  have fr': "frame_at hk s live ?K pend dead"
    unfolding frame_at_def using sh R F(2-8) length_live_buckets [of slot k] used_bytes_list [of slot k] by simp
  have g: "grow_directory ?K slot = (s, Ok ())"
  proof -
    have "k - 1 + 1 = k" "\<not> pend + ?K * BUCKET_SIZE > length slot" using F(11) fits by (simp_all add: BUCKET_SIZE_def)
    then show ?thesis
      unfolding grow_directory_def F(19) Let_def s_def s1_def cleared_def by (simp only: outcome.case prod.case if_False)
  qed
  have "frame_map slot = map_of (map (pair_of slot) ?bs)"
    unfolding frame_map_def iter_pairs_live(1) [OF fr] live_pairs_used [OF F(9,15)] pair_of_def ..
  then have "frame_map s = frame_map slot" using iter_pairs_live(2) [OF fr'] R by simp
  then show ?thesis using g fr' R used_bytes_list [of slot k] by (intro that [of s]) simp_all
qed

end
