(* ===== verification/Hash_Frame_Pass.thy ===== *)
theory Hash_Frame_Pass
  imports Hash_Frame_Grow
begin

text \<open>
  One pass of \<open>upsert\<close> and \<open>compact\<close>: the four ways a pass ends, and the reinsertion of all pairs into a
  fresh frame, which always fits.
\<close>

section \<open>One pass\<close>

text \<open>Why a pass reports a full frame: no room for the pair, or none for the doubled directory.\<close>

definition no_room :: "bytes \<Rightarrow> nat \<Rightarrow> nat \<Rightarrow> nat \<Rightarrow> nat \<Rightarrow> bool" where
  "no_room slot live k pend needed \<longleftrightarrow>
     pend + needed + 10 * k > length slot \<or> (10 * (live + 1) \<ge> 7 * k \<and> pend + needed + 20 * k > length slot)"

lemma saturating_exact: "a + b < 2 ^ 16 \<Longrightarrow> saturating_add16 a b = a + b"
  by (simp add: saturating_add16_def min_def)

lemma live_weight:
  assumes "frame_at hk slot live k pend dead" "i < k" "is_live (read_bucket slot i)"
  shows "dead + (field_len (read_bucket slot i) + val_len (read_bucket slot i)) < 4096"
proof -
  note F = frame_atD [OF assms(1)]
  have "bucket_weight (read_bucket slot i) \<le> used_bytes slot k"
    unfolding used_bytes_def using assms(2) by (intro member_le_sum) auto
  then show ?thesis using F(3,8,11,14) assms(3) by (simp add: bucket_weight_def frame_consts)
qed

lemma insert_field_cases:
  assumes fr: "frame_at hk slot live k pend dead" and f: "f \<noteq> []" "frame_map slot f = None"
    and i: "i < k" "\<not> is_live (read_bucket slot i)" "reaches (cell_at slot) k (fh hk f mod k) i"
    and t: "0 < t \<Longrightarrow> \<exists>j<k. cell_at slot j = Gone"
  obtains (inserted) s where "insert_field live (k - 1) pend dead (fh hk f) (Some i) t slot f v = Finished s (Ok True)"
      "frame_at hk s (live + 1) k (pend + (length f + length v)) dead" "frame_map s = (frame_map slot)(f \<mapsto> v)"
      "length s = length slot" "used_bytes s k = used_bytes slot k + (length f + length v)"
      "frame_clean slot k dead \<Longrightarrow> frame_clean s k dead"
  | (full) "insert_field live (k - 1) pend dead (fh hk f) (Some i) t slot f v = Finished slot (Err FrameFull)"
      "no_room slot live k pend (length f + length v)" "dead = 0"
  | (compact) "insert_field live (k - 1) pend dead (fh hk f) (Some i) t slot f v = AfterCompact" "\<not> frame_clean slot k dead"
  | (grow) s where "insert_field live (k - 1) pend dead (fh hk f) (Some i) t slot f v = AfterGrow s" "dead = 0"
      "frame_at hk s live (2 * k) pend 0" "frame_map s = frame_map slot" "length s = length slot"
      "used_bytes s (2 * k) = used_bytes slot k" "\<forall>j<2 * k. cell_at s j \<noteq> Gone" "10 * (live + 1) < 7 * (2 * k)"
      "7 * k \<le> 10 * (live + 1)" "pend + (length f + length v) + 20 * k \<le> length slot"
proof -
  note F = frame_atD [OF fr]
  let ?n = "length f + length v" and ?r = "insert_field live (k - 1) pend dead (fh hk f) (Some i) t slot f v"
  have k1: "k - 1 + 1 = k" using F(11) by simp
  have dir: "a > length slot - k * BUCKET_SIZE \<longleftrightarrow> a + 10 * k > length slot" if "pend \<le> a" for a
    using F(14) that by (auto simp: BUCKET_SIZE_def)
  have gap: "length slot - k * BUCKET_SIZE \<ge> pend + ?n + (2 * k - k) * BUCKET_SIZE \<longleftrightarrow> pend + ?n + 20 * k \<le> length slot"
    using F(14) by (auto simp: BUCKET_SIZE_def)
  have r: "?r = (if (live + 1 + t) * 10 \<ge> k * 7
      then if dead > 0 \<or> t > 0 then AfterCompact
           else if pend + ?n + 20 * k \<le> length slot
           then (case grow_directory (2 * k) slot of
                   (s, Ok _) \<Rightarrow> AfterGrow s | (s, Err e) \<Rightarrow> Finished s (Err e) | (s, Panic m) \<Rightarrow> Finished s (Panic m))
           else Finished slot (Err FrameFull)
      else if pend + ?n + 10 * k > length slot then (if dead > 0 then AfterCompact else Finished slot (Err FrameFull))
      else Finished (write_header (live + 1) (k - 1) (pend + ?n) dead (append_pair (fh hk f) pend f v i slot)) (Ok True))"
    unfolding insert_field_def Let_def k1 gap dir [OF le_add1] by simp
  have loose: "\<not> frame_clean slot k dead" if "dead > 0 \<or> t > 0" using that t by (auto simp: frame_clean_def)
  consider (load) "(live + 1 + t) * 10 \<ge> k * 7" "dead > 0 \<or> t > 0"
    | (double) "(live + 1 + t) * 10 \<ge> k * 7" "dead = 0" "t = 0" "pend + ?n + 20 * k \<le> length slot"
    | (nodouble) "(live + 1 + t) * 10 \<ge> k * 7" "dead = 0" "t = 0" "pend + ?n + 20 * k > length slot"
    | (tail) "(live + 1 + t) * 10 < k * 7" "pend + ?n + 10 * k > length slot"
    | (put) "(live + 1 + t) * 10 < k * 7" "pend + ?n + 10 * k \<le> length slot"
    by linarith
  then show ?thesis
  proof cases
    case load
    then have "?r = AfterCompact" unfolding r by simp
    then show ?thesis using compact loose load(2) by blast
  next
    case double
    obtain s where s: "grow_directory (2 * k) slot = (s, Ok ())" "frame_at hk s live (2 * k) pend dead"
        "frame_map s = frame_map slot" "length s = length slot" "used_bytes s (2 * k) = used_bytes slot k"
        "\<forall>i<2 * k. cell_at s i \<noteq> Gone"
      using grow_directory_ok [OF fr] double(4) by auto
    show ?thesis
    proof (rule grow [OF _ double(2) _ s(3-6)])
      show "?r = AfterGrow s" unfolding r using double s(1) by simp
      show "10 * (live + 1) < 7 * (2 * k)" using F(6) shapedD(3) [OF F(1)] by simp
    qed (use s(2) double in simp_all)
  next
    case nodouble
    then have "?r = Finished slot (Err FrameFull)" unfolding r by simp
    then show ?thesis by (rule full) (use nodouble in \<open>simp_all add: no_room_def\<close>)
  next
    case tail
    then have "?r = (if dead > 0 then AfterCompact else Finished slot (Err FrameFull))" unfolding r by simp
    moreover have "no_room slot live k pend ?n" using tail by (simp add: no_room_def)
    ultimately show ?thesis using compact loose full by (cases "dead > 0") simp_all
  next
    case put
    define s where "s = write_header (live + 1) (k - 1) (pend + ?n) dead (append_pair (fh hk f) pend f v i slot)"
    have none: "\<forall>j<k. \<forall>w. cell_at slot j \<noteq> Used f w"
      using f(2) ring_map_None [OF F(10), of f] unfolding iter_pairs_live(2) [OF fr] by blast
    have free: "cell_at slot i \<noteq> Used g w" for g w using i(2) live_cell unfolding cell_at_def by blast
    have load: "10 * (live + 1) < 7 * k" "live + 1 + (if is_live (read_bucket slot i) then 1 else 0) = live + 1"
      using put(1) i(2) by simp_all
    have w: "dead = dead + bucket_weight (read_bucket slot i)" using i(2) by (simp add: bucket_weight_def)
    have A: "frame_at hk s (live + 1) k (pend + ?n) dead" "frame_map s = (frame_map slot)(f \<mapsto> v)" "length s = length slot"
        "used_bytes s k + bucket_weight (read_bucket slot i) = used_bytes slot k + ?n"
        "\<And>j. j < k \<Longrightarrow> cell_at s j = (if j = i then Used f v else cell_at slot j)"
      using frame_append [OF fr i(1) f(1) i(3) _ _ put(2) w load s_def] none free by blast+
    have used: "used_bytes s k = used_bytes slot k + ?n" using A(4) i(2) by (simp add: bucket_weight_def)
    show ?thesis
    proof (rule inserted [OF _ A(1-3) used])
      show "?r = Finished s (Ok True)" unfolding r s_def using put by simp
      show "frame_clean s k dead" if "frame_clean slot k dead" using that A(5) by (auto simp: frame_clean_def)
    qed
  qed
qed

lemma update_field_cases:
  assumes fr: "frame_at hk slot live k pend dead" and f: "f \<noteq> []" and i: "i < k" "cell_at slot i = Used f w"
  obtains (updated) s pend' dead' where "update_field live (k - 1) pend dead (fh hk f) i slot f v = Finished s (Ok False)"
      "frame_at hk s live k pend' dead'" "frame_map s = (frame_map slot)(f \<mapsto> v)" "length s = length slot"
  | (full) "update_field live (k - 1) pend dead (fh hk f) i slot f v = Finished slot (Err FrameFull)"
      "no_room slot live k pend (length f + length v)" "dead = 0"
  | (compact) "update_field live (k - 1) pend dead (fh hk f) i slot f v = AfterCompact" "\<not> frame_clean slot k dead"
proof -
  note F = frame_atD [OF fr]
  let ?n = "length f + length v" and ?old = "read_bucket slot i"
  let ?r = "update_field live (k - 1) pend dead (fh hk f) i slot f v"
  have live: "is_live ?old" using i(2) live_cell unfolding cell_at_def by blast
  have p: "bucket_placed hk slot pend ?old" using F(9) i(1) live by (simp add: buckets_ok_def)
  have k1: "k - 1 + 1 = k" using F(11) by simp
  have dir: "pend + ?n > length slot - k * BUCKET_SIZE \<longleftrightarrow> pend + ?n + 10 * k > length slot"
    using F(14) by (auto simp: BUCKET_SIZE_def)
  have sat: "saturating_add16 dead (val_len ?old - length v) = dead + (val_len ?old - length v)"
      "saturating_add16 dead ((field_len ?old + val_len ?old) mod 2 ^ 16) = dead + bucket_weight ?old"
    using live_weight [OF fr i(1) live] live by (simp_all add: saturating_exact bucket_weight_def)
  have r: "?r = (if length v \<le> val_len ?old
      then Finished (write_header live (k - 1) pend (dead + (val_len ?old - length v))
             (write_bucket i (?old\<lparr>hash32 := fh hk f, val_len := length v\<rparr>) (write_at (bk_offset ?old + field_len ?old) v slot))) (Ok False)
      else if pend + ?n + 10 * k > length slot then (if dead > 0 then AfterCompact else Finished slot (Err FrameFull))
      else Finished (write_header live (k - 1) (pend + ?n) (dead + bucket_weight ?old)
             (append_pair (fh hk f) pend f v i slot)) (Ok False))"
    unfolding update_field_def Let_def k1 dir sat using p F(15) by (auto simp: bucket_placed_def)
  consider (shrink) "length v \<le> val_len ?old" | (tail) "\<not> length v \<le> val_len ?old" "pend + ?n + 10 * k > length slot"
    | (append) "\<not> length v \<le> val_len ?old" "pend + ?n + 10 * k \<le> length slot"
    by linarith
  then show ?thesis
  proof cases
    case shrink
    note U = frame_update [OF fr i shrink refl refl]
    show ?thesis by (rule updated [OF _ U]) (unfold r, use shrink in simp)
  next
    case tail
    then have "?r = (if dead > 0 then AfterCompact else Finished slot (Err FrameFull))" unfolding r by simp
    moreover have "no_room slot live k pend ?n" using tail by (simp add: no_room_def)
    ultimately show ?thesis using full compact by (cases "dead > 0") (simp_all add: frame_clean_def)
  next
    case append
    define s where "s = write_header live (k - 1) (pend + ?n) (dead + bucket_weight ?old)
             (append_pair (fh hk f) pend f v i slot)"
    have uniq: "j = i" if "j < k" "cell_at slot j = Used f u" for j u using F(10) i that unfolding ring_ok_def by blast
    have reach: "reaches (cell_at slot) k (fh hk f mod k) i" using F(10) i unfolding ring_ok_def by blast
    have cnt: "live + (if is_live ?old then 1 else 0) = live + 1" using live by simp
    have "frame_at hk s live k (pend + ?n) (dead + bucket_weight ?old)"
        "frame_map s = (frame_map slot)(f \<mapsto> v)" "length s = length slot"
      using frame_append [OF fr i(1) f reach _ _ append(2) refl F(6) cnt s_def] uniq i(2) by (metis ring_cell.inject)+
    then show ?thesis by (intro updated [of s]) (unfold r s_def, use append in simp)
  qed
qed

lemma upsert_once_cases:
  assumes fr: "frame_at hk slot live k pend dead" and f: "f \<noteq> []"
  obtains (stored) s live' pend' dead' where "upsert_once hk slot f v = Finished s (Ok (frame_map slot f = None))"
      "frame_at hk s live' k pend' dead'" "frame_map s = (frame_map slot)(f \<mapsto> v)" "length s = length slot"
      "frame_map slot f = None \<Longrightarrow> live' = live + 1 \<and> used_bytes s k = used_bytes slot k + (length f + length v) \<and>
         dead' = dead \<and> (frame_clean slot k dead \<longrightarrow> frame_clean s k dead')"
  | (full) "upsert_once hk slot f v = Finished slot (Err FrameFull)" "no_room slot live k pend (length f + length v)" "dead = 0"
  | (compact) "upsert_once hk slot f v = AfterCompact" "\<not> frame_clean slot k dead"
  | (grow) s where "upsert_once hk slot f v = AfterGrow s" "frame_map slot f = None" "dead = 0"
      "frame_at hk s live (2 * k) pend 0" "frame_map s = frame_map slot" "length s = length slot"
      "used_bytes s (2 * k) = used_bytes slot k" "\<forall>j<2 * k. cell_at s j \<noteq> Gone" "10 * (live + 1) < 7 * (2 * k)"
      "7 * k \<le> 10 * (live + 1)" "pend + (length f + length v) + 20 * k \<le> length slot"
proof -
  note F = frame_atD [OF fr]
  have k1: "k - 1 + 1 = k" using F(11) by simp
  obtain target first t where pr: "upsert_probe slot f (fh hk f) (k - 1) k (fh hk f mod k) None 0 = (target, first, t)"
    using prod_cases3 by blast
  have eq: "upsert_once hk slot f v = (case target of
      Some i \<Rightarrow> update_field live (k - 1) pend dead (fh hk f) i slot f v
    | None \<Rightarrow> insert_field live (k - 1) pend dead (fh hk f) first t slot f v)"
    unfolding upsert_once_def F(19) Let_def by (cases target) (simp_all only: outcome.case prod.case k1 F(18) pr option.case)
  note P = upsert_probe_spec [OF fr pr]
  show ?thesis
  proof (cases target)
    case None
    then obtain i where i: "first = Some i" "i < k" "\<not> is_live (read_bucket slot i)" "reaches (cell_at slot) k (fh hk f mod k) i"
      and none: "frame_map slot f = None" and t: "0 < t \<Longrightarrow> \<exists>j<k. cell_at slot j = Gone"
      using P by auto
    have eq': "upsert_once hk slot f v = insert_field live (k - 1) pend dead (fh hk f) (Some i) t slot f v"
      unfolding eq None i(1) by simp
    show ?thesis
    proof (rule insert_field_cases [OF fr f none i(2-4) t, where v = v])
      fix s
      assume A: "insert_field live (k - 1) pend dead (fh hk f) (Some i) t slot f v = Finished s (Ok True)"
        "frame_at hk s (live + 1) k (pend + (length f + length v)) dead" "frame_map s = (frame_map slot)(f \<mapsto> v)"
        "length s = length slot" "used_bytes s k = used_bytes slot k + (length f + length v)"
        "frame_clean slot k dead \<Longrightarrow> frame_clean s k dead"
      show ?thesis by (rule stored [OF _ A(2-4)]) (use A none in \<open>simp_all only: eq', simp_all\<close>)
    qed (assumption, rule full [unfolded eq'], assumption+, rule compact [unfolded eq'], assumption+,
        rule grow [OF _ none, unfolded eq'], assumption+)
  next
    case (Some i)
    then obtain w where i: "i < k" "cell_at slot i = Used f w" "frame_map slot f = Some w" using P by auto
    have eq': "upsert_once hk slot f v = update_field live (k - 1) pend dead (fh hk f) i slot f v"
      unfolding eq Some by simp
    show ?thesis
    proof (rule update_field_cases [OF fr f i(1,2), where v = v])
      fix s pend' dead'
      assume A: "update_field live (k - 1) pend dead (fh hk f) i slot f v = Finished s (Ok False)"
        "frame_at hk s live k pend' dead'" "frame_map s = (frame_map slot)(f \<mapsto> v)" "length s = length slot"
      show ?thesis by (rule stored [OF _ A(2-4)]) (use A i(3) in \<open>simp_all only: eq', simp_all\<close>)
    qed (rule full [unfolded eq'], assumption+, rule compact [unfolded eq'], assumption+)
  qed
qed

section \<open>Insertion into a frame_clean frame\<close>

lemma pow2_next:
  assumes "is_pow2 k" "is_pow2 K" "k < K"
  shows "2 * k \<le> K"
proof -
  obtain m n where mn: "k = 2 ^ m" "K = 2 ^ n" using pow2D assms(1,2) by metis
  then have "m < n" using assms(3) power_less_imp_less_exp [of "2::nat" m n] by simp
  then have "(2::nat) ^ Suc m \<le> 2 ^ n" by (intro power_increasing) simp_all
  then show ?thesis using mn by simp
qed

text \<open>With room for the pair and for a directory of \<open>K\<close> buckets that is large enough, it succeeds.\<close>

lemma upsert_roomy:
  assumes fr: "frame_at hk slot live k pend dead" and frame_clean: "frame_clean slot k dead" and f: "f \<noteq> []"
    and K: "k \<le> K" "is_pow2 K" "10 * (live + 1) < 7 * K" "pend + (length f + length v) + 10 * K \<le> length slot"
  obtains s live' k' pend' dead' where "upsert_fuel (Suc (Suc m)) hk slot f v = Some (s, Ok (frame_map slot f = None))"
    "frame_at hk s live' k' pend' dead'" "k' \<le> K" "frame_map s = (frame_map slot)(f \<mapsto> v)" "length s = length slot"
    "frame_map slot f = None \<Longrightarrow> live' = live + 1 \<and> pend' = pend + (length f + length v) \<and> frame_clean s k' dead'"
proof -
  let ?n = "length f + length v"
  note F = frame_atD [OF fr]
  have dead: "dead = 0" using frame_clean by (simp add: frame_clean_def)
  have double: "2 * k \<le> K" if "7 * k \<le> 10 * (live + 1)" using pow2_next [OF F(17) K(2)] that K(3) by simp
  from fr f show ?thesis
  proof (cases rule: upsert_once_cases [where v = v])
    case (stored s live' pend' dead')
    have run: "upsert_fuel (Suc (Suc m)) hk slot f v = Some (s, Ok (frame_map slot f = None))" using stored(1) by simp
    have grown: "live' = live + 1 \<and> pend' = pend + ?n \<and> frame_clean s k dead'" if "frame_map slot f = None"
      using stored(5) [OF that] frame_clean F(8) frame_atD(8) [OF stored(2)] by auto
    show ?thesis by (rule that [OF run stored(2) K(1) stored(3,4)]) (rule grown)
  next
    case full
    then show ?thesis using K double unfolding no_room_def by (auto simp del: mult_Suc_right)
  next
    case compact
    then show ?thesis using frame_clean by simp
  next
    case (grow s)
    note G = grow
    have c: "frame_clean s (2 * k) 0" using grow(8) by (simp add: frame_clean_def)
    from grow(4) f show ?thesis
    proof (cases rule: upsert_once_cases [where v = v])
      case (stored s' live' pend' dead')
      have "upsert_fuel (Suc (Suc m)) hk slot f v = Some (s', Ok (frame_map slot f = None))"
        using G(1,5) stored(1) by simp
      moreover have "live' = live + 1 \<and> pend' = pend + ?n \<and> frame_clean s' (2 * k) dead'"
        using stored(5) G(2,5,7) c dead F(8) frame_atD(8) [OF stored(2)] by auto
      ultimately show ?thesis using that [of s' live' "2 * k" pend' dead'] stored(2-4) double [OF G(10)] G(5,6) by simp
    next
      case full
      then show ?thesis using G(6,9,11) by (simp add: no_room_def)
    next
      case compact
      then show ?thesis using c by simp
    next
      case (grow s')
      then show ?thesis using G(9) by simp
    qed
  qed
qed

end
