(* ===== verification/Hash_Frame_Correct.thy ===== *)
theory Hash_Frame_Correct
  imports Hash_Frame_Pass
begin

text \<open>
  Hash frames as finite maps: lookup, insertion with its compactions and growths, deletion, compaction
  and the logical pair list that the log and the snapshots store.
\<close>

section \<open>Compaction\<close>

abbreviation pair_bytes :: "bytes \<times> bytes \<Rightarrow> nat" where
  "pair_bytes p \<equiv> length (fst p) + length (snd p)"

lemma upsert_absent:
  assumes "frame_at hk slot live k pend dead" "frame_clean slot k dead" "f \<noteq> []" "frame_map slot f = None"
    and "k \<le> K" "is_pow2 K" "10 * (live + 1) < 7 * K" "pend + (length f + length v) + 10 * K \<le> length slot"
  shows "\<exists>s k' pend' dead'. upsert_fuel (Suc (Suc m)) hk slot f v = Some (s, Ok True) \<and> frame_at hk s (live + 1) k' pend' dead' \<and>
    frame_clean s k' dead' \<and> k' \<le> K \<and> frame_map s = (frame_map slot)(f \<mapsto> v) \<and> length s = length slot \<and>
    pend' = pend + (length f + length v)"
proof -
  obtain s live' k' pend' dead' where "upsert_fuel (Suc (Suc m)) hk slot f v = Some (s, Ok (frame_map slot f = None))"
      "frame_at hk s live' k' pend' dead'" "k' \<le> K" "frame_map s = (frame_map slot)(f \<mapsto> v)" "length s = length slot"
      "frame_map slot f = None \<Longrightarrow> live' = live + 1 \<and> pend' = pend + (length f + length v) \<and> frame_clean s k' dead'"
    using upsert_roomy [OF assms(1-3,5-8), where m = m] by blast
  then show ?thesis using assms(4) by (auto simp del: upsert_fuel.simps)
qed

lemma reinsert_roomy:
  assumes "frame_at hk s live k pend dead" "frame_clean s k dead" "k \<le> K" "is_pow2 K" "10 * (live + length ps) < 7 * K"
    and "pend + (\<Sum>p\<leftarrow>ps. pair_bytes p) + 10 * K \<le> length s" "distinct (map fst ps)"
    and "\<forall>p\<in>set ps. fst p \<noteq> [] \<and> frame_map s (fst p) = None"
  shows "\<exists>s' k' pend' dead'. reinsert (upsert_fuel (Suc (Suc m)) hk) ps s = Some (s', Ok ()) \<and>
    frame_at hk s' (live + length ps) k' pend' dead' \<and> frame_clean s' k' dead' \<and> k' \<le> K \<and> frame_map s' = frame_map s ++ map_of ps \<and>
    length s' = length s \<and> pend' = pend + (\<Sum>p\<leftarrow>ps. pair_bytes p)"
  using assms
proof (induction ps arbitrary: s live k pend dead)
  case Nil
  then show ?case by auto
next
  case (Cons p ps)
  obtain f v where p: "p = (f, v)" by (cases p)
  have f: "f \<noteq> []" "frame_map s f = None" using Cons.prems(8) p by simp_all
  have K: "10 * (live + 1) < 7 * K" "pend + (length f + length v) + 10 * K \<le> length s" using Cons.prems(5,6) p by simp_all
  obtain s1 k1 pend1 dead1 where s1: "upsert_fuel (Suc (Suc m)) hk s f v = Some (s1, Ok True)"
      "frame_at hk s1 (live + 1) k1 pend1 dead1" "frame_clean s1 k1 dead1" "k1 \<le> K" "frame_map s1 = (frame_map s)(f \<mapsto> v)"
      "length s1 = length s" "pend1 = pend + (length f + length v)"
    using upsert_absent [OF Cons.prems(1,2) f Cons.prems(3,4) K] by metis
  have "\<exists>s' k' pend' dead'. reinsert (upsert_fuel (Suc (Suc m)) hk) ps s1 = Some (s', Ok ()) \<and>
      frame_at hk s' (live + 1 + length ps) k' pend' dead' \<and> frame_clean s' k' dead' \<and> k' \<le> K \<and> frame_map s' = frame_map s1 ++ map_of ps \<and>
      length s' = length s1 \<and> pend' = pend1 + (\<Sum>p\<leftarrow>ps. pair_bytes p)"
    using Cons.prems(4-8) s1(4-7) p by (intro Cons.IH [OF s1(2,3)]) auto
  moreover have "(frame_map s)(f \<mapsto> v) ++ map_of ps = frame_map s ++ map_of (p # ps)"
    using Cons.prems(7) p by (simp add: map_add_upd_left dom_map_of_conv_image_fst)
  ultimately show ?case unfolding s1(5) using s1(1,6,7) p by (simp add: add.assoc del: upsert_fuel.simps map_of.simps)
qed

lemma live_pairs_facts:
  assumes fr: "frame_at hk slot live k pend dead"
  shows "length (live_pairs slot k) = live" "(\<Sum>p\<leftarrow>live_pairs slot k. pair_bytes p) = used_bytes slot k"
    "distinct (map fst (live_pairs slot k))" "\<forall>p\<in>set (live_pairs slot k). fst p \<noteq> []"
    "\<forall>p\<in>set (live_pairs slot k). pair_bytes p < 2 ^ 16"
proof -
  note F = frame_atD [OF fr] and L = live_buckets_facts [OF frame_atD(9,10) [OF fr]]
  note lp = live_pairs_used [OF F(9,15)]
  have b: "length (field_of slot c) = field_len c \<and> length (value_of slot c) = val_len c \<and> field_len c \<noteq> 0 \<and> field_len c + val_len c < 2 ^ 16"
    if "c \<in> set (live_buckets slot k)" for c
    using L(3) that F(3,15) by (auto simp: bucket_placed_def field_of_def value_of_def is_live_def frame_consts)
  show "length (live_pairs slot k) = live" using F(5) length_live_buckets [of slot k] by (simp add: lp)
  show "(\<Sum>p\<leftarrow>live_pairs slot k. pair_bytes p) = used_bytes slot k"
    unfolding lp used_bytes_list using b L(3) by (simp add: comp_def bucket_weight_def cong: map_cong)
  show "distinct (map fst (live_pairs slot k))" using L(2) by (simp add: lp comp_def)
  show "\<forall>p\<in>set (live_pairs slot k). fst p \<noteq> []" using b by (fastforce simp: lp)
  show "\<forall>p\<in>set (live_pairs slot k). pair_bytes p < 2 ^ 16" using b by (auto simp: lp)
qed

lemma compact_ok:
  assumes fr: "frame_at hk slot live k pend dead"
  shows "\<exists>s k' pend' dead'. compact_with (upsert_fuel (Suc (Suc m)) hk) slot = Some (s, Ok ()) \<and>
    frame_at hk s live k' pend' dead' \<and> frame_clean s k' dead' \<and> k' \<le> k \<and> frame_map s = frame_map slot \<and> length s = length slot \<and>
    pend' = 8 + used_bytes slot k"
proof -
  note F = frame_atD [OF fr] and L = live_pairs_facts [OF fr]
  have k1: "k - 1 + 1 = k" using F(11) by simp
  let ?d = "default_k_for_capacity (length slot)"
  have "8 + 10 * ?d \<le> length slot" using F(4,14,16) by simp
  from init_frame_ok [OF F(2,3) this, of hk] obtain s0 where s0: "init_frame slot = (s0, Ok ())" "frame_at hk s0 0 ?d 8 0"
      "frame_clean s0 ?d 0" "frame_map s0 = Map.empty" "length s0 = length slot"
    by metis
  have map: "frame_map slot = map_of (live_pairs slot k)" by (simp add: frame_map_def iter_pairs_live(1) [OF fr])
  have eq: "compact_with ups slot = (if live = 0 then Some (s0, Ok ()) else reinsert ups (live_pairs slot k) s0)" for ups
    unfolding compact_with_def F(19) by (simp only: outcome.case prod.case k1 s0(1))
  show ?thesis
  proof (cases "live = 0")
    case True
    then have "frame_map slot = Map.empty" using map L(1) by simp
    moreover have "used_bytes slot k = 0" using True L(1,2) by simp
    ultimately show ?thesis using True s0 F(4) by (auto simp: eq)
  next
    case False
    have "\<exists>s k' pend' dead'. reinsert (upsert_fuel (Suc (Suc m)) hk) (live_pairs slot k) s0 = Some (s, Ok ()) \<and>
        frame_at hk s (0 + length (live_pairs slot k)) k' pend' dead' \<and> frame_clean s k' dead' \<and> k' \<le> k \<and>
        frame_map s = frame_map s0 ++ map_of (live_pairs slot k) \<and> length s = length s0 \<and>
        pend' = 8 + (\<Sum>p\<leftarrow>live_pairs slot k. pair_bytes p)"
      using L F(4,6,8,14) s0(4,5) by (intro reinsert_roomy [OF s0(2,3) F(4,17)]) auto
    then show ?thesis using False s0(4,5) L(1,2) map by (simp add: eq)
  qed
qed

section \<open>Insertion\<close>

text \<open>What a completed \<open>upsert\<close> leaves behind.\<close>

definition frame_upserted :: "(bytes \<Rightarrow> u64) \<Rightarrow> bytes \<Rightarrow> bytes \<Rightarrow> bytes \<Rightarrow> bytes \<Rightarrow> (bool, FrameError) outcome \<Rightarrow> bool" where
  "frame_upserted hk slot f v s r \<longleftrightarrow> hash_frame_ok hk s \<and> length s = length slot \<and>
     (r = Ok (frame_map slot f = None) \<and> frame_map s = (frame_map slot)(f \<mapsto> v) \<or>
      r = Err FrameFull \<and> frame_map s = frame_map slot)"

lemma hash_frame_okI: "frame_at hk s live k pend dead \<Longrightarrow> hash_frame_ok hk s"
  unfolding hash_frame_ok_def by blast

lemma upsert_clean:
  assumes fr: "frame_at hk slot live k pend dead" and frame_clean: "frame_clean slot k dead" and f: "f \<noteq> []"
  shows "\<exists>s r. upsert_fuel (Suc (Suc m)) hk slot f v = Some (s, r) \<and> frame_upserted hk slot f v s r"
  using fr f
proof (cases rule: upsert_once_cases [where v = v])
  case (stored s live' pend' dead')
  then show ?thesis using hash_frame_okI by (auto simp: frame_upserted_def)
next
  case full
  then show ?thesis using hash_frame_okI [OF fr] by (auto simp: frame_upserted_def)
next
  case compact
  then show ?thesis using frame_clean by simp
next
  case (grow s)
  note G = grow
  from grow(4) f show ?thesis
  proof (cases rule: upsert_once_cases [where v = v])
    case (stored s' live' pend' dead')
    then show ?thesis using hash_frame_okI G by (auto simp: frame_upserted_def)
  next
    case full
    then show ?thesis using hash_frame_okI [OF G(4)] G by (auto simp: frame_upserted_def)
  next
    case compact
    then show ?thesis using G(8) by (simp add: frame_clean_def)
  next
    case (grow s')
    then show ?thesis using G(9) by simp
  qed
qed

lemma upsert_ok:
  assumes fr: "frame_at hk slot live k pend dead" and f: "f \<noteq> []"
  shows "\<exists>s r. upsert_fuel (Suc (Suc (Suc m))) hk slot f v = Some (s, r) \<and> frame_upserted hk slot f v s r"
proof (cases "upsert_once hk slot f v = AfterCompact")
  case True
  obtain s k' pend' dead' where s: "compact_with (upsert_fuel (Suc (Suc m)) hk) slot = Some (s, Ok ())" "frame_at hk s live k' pend' dead'"
      "frame_clean s k' dead'" "k' \<le> k" "frame_map s = frame_map slot" "length s = length slot"
    using compact_ok [OF fr] by blast
  have "upsert_fuel (Suc (Suc (Suc m))) hk slot f v = upsert_fuel (Suc (Suc m)) hk s f v"
    using True s(1) by (simp only: upsert_fuel.simps(2) [of "Suc (Suc m)"]) simp
  then show ?thesis using upsert_clean [OF s(2,3) f, of m v] s(5,6) by (simp add: frame_upserted_def del: upsert_fuel.simps)
next
  case False
  from fr f show ?thesis
  proof (cases rule: upsert_once_cases [where v = v])
    case (stored s live' pend' dead')
    then show ?thesis using hash_frame_okI by (auto simp: frame_upserted_def)
  next
    case full
    then show ?thesis using hash_frame_okI [OF fr] by (auto simp: frame_upserted_def)
  next
    case (grow s)
    have "frame_clean s (2 * k) 0" using grow(8) by (simp add: frame_clean_def)
    then show ?thesis using upsert_clean [OF grow(4) _ f, of m v] grow(1,5,6)
      by (simp add: frame_upserted_def upsert_fuel.simps(2) [of "Suc (Suc m)"] del: upsert_fuel.simps)
  qed (use False in simp)
qed

text \<open>With room for the pair besides everything stored, it succeeds.\<close>

lemma upsert_fits:
  assumes fr: "frame_at hk slot live k pend dead" and f: "f \<noteq> []"
    and K: "k \<le> K" "is_pow2 K" "10 * (live + 1) < 7 * K" "8 + used_bytes slot k + (length f + length v) + 10 * K \<le> length slot"
  shows "\<exists>s. upsert_fuel (Suc (Suc (Suc m))) hk slot f v = Some (s, Ok (frame_map slot f = None))"
proof -
  note F = frame_atD [OF fr]
  have roomy: "\<exists>s'. upsert_fuel (Suc (Suc m)) hk s f v = Some (s', Ok (frame_map slot f = None))"
    if "frame_at hk s live k' pend' 0" "frame_clean s k' 0" "k' \<le> K" "frame_map s = frame_map slot" "length s = length slot"
      "pend' = 8 + used_bytes slot k" for s k' pend'
    using upsert_roomy [OF that(1,2) f that(3) K(2,3), where v = v and m = m] that K(4) by metis
  from fr f show ?thesis
  proof (cases rule: upsert_once_cases [where v = v])
    case (stored s live' pend' dead')
    then show ?thesis by simp
  next
    case full
    have "2 * k \<le> K" if "7 * k \<le> 10 * (live + 1)" using pow2_next [OF F(17) K(2)] that K(3) by simp
    then show ?thesis using K(1,4) full(2,3) F(8) unfolding no_room_def by (auto simp del: mult_Suc_right)
  next
    case compact
    obtain s k' pend' dead' where s: "compact_with (upsert_fuel (Suc (Suc m)) hk) slot = Some (s, Ok ())" "frame_at hk s live k' pend' dead'"
        "frame_clean s k' dead'" "k' \<le> k" "frame_map s = frame_map slot" "length s = length slot" "pend' = 8 + used_bytes slot k"
      using compact_ok [OF fr] by blast
    have "upsert_fuel (Suc (Suc (Suc m))) hk slot f v = upsert_fuel (Suc (Suc m)) hk s f v"
      using compact(1) s(1) by (simp only: upsert_fuel.simps(2) [of "Suc (Suc m)"]) simp
    moreover have "dead' = 0" using s(3) by (simp add: frame_clean_def)
    ultimately show ?thesis using roomy [of s k' pend'] s K(1) by simp
  next
    case (grow s)
    have "2 * k \<le> K" using pow2_next [OF F(17) K(2)] grow(10) K(3) by simp
    moreover have "frame_clean s (2 * k) 0" using grow(8) by (simp add: frame_clean_def)
    moreover have "pend = 8 + used_bytes slot k" using F(8) grow(3) by simp
    ultimately show ?thesis using roomy [of s "2 * k" pend] grow(1,4,5,6)
      by (simp add: upsert_fuel.simps(2) [of "Suc (Suc m)"] del: upsert_fuel.simps)
  qed
qed

section \<open>Deletion\<close>

lemma delete_ok:
  assumes fr: "frame_at hk slot live k pend dead"
  shows "\<exists>s. frame_delete hk slot f = (s, frame_map slot f \<noteq> None) \<and> hash_frame_ok hk s \<and> length s = length slot \<and>
    frame_map s = (frame_map slot)(f := None)"
proof -
  note F = frame_atD [OF fr] and map_eq = iter_pairs_live(2) [OF fr]
  have k1: "k - 1 + 1 = k" using F(11) by simp
  define d where "d i = saturating_add16 dead (field_len (read_bucket slot i) + val_len (read_bucket slot i))" for i :: nat
  have eq: "frame_delete hk slot f = (if live = 0 then (slot, False)
      else (case find_loop slot f (fh hk f) (k - 1) k (fh hk f mod k) of
              None \<Rightarrow> (slot, False) | Some i \<Rightarrow> (edit_bucket (live - 1) k pend (d i) i tombstone slot, True)))"
    unfolding frame_delete_def F(19) Let_def edit_bucket_def d_def by (simp only: outcome.case prod.case k1 F(18))
  have same: "(frame_map slot)(f := None) = frame_map slot" if "frame_map slot f = None" using that by (simp add: fun_upd_idem)
  consider (empty) "live = 0" | (miss) "live \<noteq> 0" "find_loop slot f (fh hk f) (k - 1) k (fh hk f mod k) = None"
    | (hit) i where "live \<noteq> 0" "find_loop slot f (fh hk f) (k - 1) k (fh hk f mod k) = Some i"
    by blast
  then show ?thesis
  proof cases
    case empty
    then have "frame_map slot f = None" using no_live_map [of hk slot k pend dead] fr map_eq by simp
    then show ?thesis using empty same hash_frame_okI [OF fr] by (simp add: eq)
  next
    case miss
    then have "frame_map slot f = None" using find_loop_map [OF fr, of f] unfolding map_eq by simp
    then show ?thesis unfolding eq using miss same hash_frame_okI [OF fr] by simp
  next
    case (hit i)
    then obtain v where i: "i < k" "cell_at slot i = Used f v" "frame_map slot f = Some v"
      using find_loop_map [OF fr, of f] unfolding map_eq by auto
    have live: "is_live (read_bucket slot i)" using i(2) live_cell unfolding cell_at_def by blast
    have d: "d i = dead + bucket_weight (read_bucket slot i)" "d i < 2 ^ 16"
      using live_weight [OF fr i(1) live] live by (simp_all add: d_def saturating_exact bucket_weight_def)
    note K = frame_kill [OF fr i(1,2) d(1)]
    have "length (edit_bucket (live - 1) k pend (d i) i tombstone slot) = length slot"
      using edit_bucket_effect(2) [OF F(11) shapedD(1) [OF F(1)] F(3) i(1), of tombstone "live - 1" "d i"] F(13) d(2)
      by (simp add: bucket_ok_def tombstone_def frame_consts)
    then show ?thesis unfolding eq using hit i(3) K hash_frame_okI [OF K(1)] by simp
  qed
qed

section \<open>The logical pair list\<close>

definition encode_pair :: "bytes \<times> bytes \<Rightarrow> bytes" where
  "encode_pair p = u16_le (length (fst p)) @ fst p @ u16_le (length (snd p)) @ snd p"

lemma build_loop_step:
  assumes "drop off enc = encode_pair (f, v) @ rest" "length f < 2 ^ 16" "length v < 2 ^ 16"
  shows "build_loop hk (Suc n) off enc s =
      (case frame_upsert hk s f v of
         None \<Rightarrow> None
       | Some (s, Ok _) \<Rightarrow> build_loop hk n (off + 2 + length f + 2 + length v) enc s
       | Some (s, Err e) \<Rightarrow> Some (s, Err e)
       | Some (s, Panic m) \<Rightarrow> Some (s, Panic m))"
    and "drop (off + 2 + length f + 2 + length v) enc = rest"
proof -
  have "length (drop off enc) = 2 + length f + 2 + length v + length rest" using assms(1) by (simp add: encode_pair_def)
  then have len: "off + 2 + length f + 2 + length v \<le> length enc" by simp
  have at: "bytes_at (off + p) m enc = take m (drop p (encode_pair (f, v) @ rest))" for p m
    unfolding bytes_at_def assms(1) [symmetric] drop_drop by (simp only: add.commute)
  have "bytes_at off 2 enc = u16_le (length f)" "bytes_at (off + 2) (length f) enc = f"
      "bytes_at (off + 2 + length f) 2 enc = u16_le (length v)" "bytes_at (off + 2 + length f + 2) (length v) enc = v"
    using at [of 0 2] at [of 2 "length f"] at [of "2 + length f" 2] at [of "2 + length f + 2" "length v"]
    by (simp_all add: encode_pair_def add.assoc)
  then show "build_loop hk (Suc n) off enc s =
      (case frame_upsert hk s f v of
         None \<Rightarrow> None
       | Some (s, Ok _) \<Rightarrow> build_loop hk n (off + 2 + length f + 2 + length v) enc s
       | Some (s, Err e) \<Rightarrow> Some (s, Err e)
       | Some (s, Panic m) \<Rightarrow> Some (s, Panic m))"
    using len assms(2,3) by (simp add: Let_def split: option.split prod.split outcome.split)
  have "drop (2 + length f + 2 + length v) (encode_pair (f, v) @ rest) = rest" by (simp add: encode_pair_def)
  then show "drop (off + 2 + length f + 2 + length v) enc = rest"
    unfolding assms(1) [symmetric] drop_drop by (simp add: add.commute add.left_commute)
qed

lemma build_loop_roomy:
  assumes "frame_at hk s live k pend dead" "frame_clean s k dead" "k \<le> K" "is_pow2 K" "10 * (live + length ps) < 7 * K"
    and "pend + (\<Sum>p\<leftarrow>ps. pair_bytes p) + 10 * K \<le> length s" "distinct (map fst ps)"
    and "\<forall>p\<in>set ps. fst p \<noteq> [] \<and> frame_map s (fst p) = None" "\<forall>p\<in>set ps. pair_bytes p < 2 ^ 16"
    and "drop off enc = concat (map encode_pair ps)"
  shows "\<exists>s'. build_loop hk (length ps) off enc s = Some (s', Ok ()) \<and> hash_frame_ok hk s' \<and>
    frame_map s' = frame_map s ++ map_of ps \<and> length s' = length s"
  using assms
proof (induction ps arbitrary: s live k pend dead off)
  case Nil
  then show ?case using hash_frame_okI by auto
next
  case (Cons p ps)
  obtain f v where p: "p = (f, v)" by (cases p)
  have f: "f \<noteq> []" "frame_map s f = None" "length f < 2 ^ 16" "length v < 2 ^ 16" using Cons.prems(8,9) p by auto
  have K: "10 * (live + 1) < 7 * K" "pend + (length f + length v) + 10 * K \<le> length s" using Cons.prems(5,6) p by simp_all
  have fuel: "frame_upsert hk = upsert_fuel (Suc (Suc 14)) hk" by (simp add: frame_upsert_def UPSERT_DEPTH_def eval_nat_numeral)
  obtain s1 k1 pend1 dead1 where s1: "frame_upsert hk s f v = Some (s1, Ok True)"
      "frame_at hk s1 (live + 1) k1 pend1 dead1" "frame_clean s1 k1 dead1" "k1 \<le> K" "frame_map s1 = (frame_map s)(f \<mapsto> v)"
      "length s1 = length s" "pend1 = pend + (length f + length v)"
    using upsert_absent [OF Cons.prems(1,2) f(1,2) Cons.prems(3,4) K] unfolding fuel by metis
  have "drop off enc = encode_pair (f, v) @ concat (map encode_pair ps)" using Cons.prems(10) p by simp
  note B = build_loop_step [OF this f(3,4)]
  have "\<exists>s'. build_loop hk (length ps) (off + 2 + length f + 2 + length v) enc s1 = Some (s', Ok ()) \<and> hash_frame_ok hk s' \<and>
      frame_map s' = frame_map s1 ++ map_of ps \<and> length s' = length s1"
    using Cons.prems(4-9) s1(4-7) p by (intro Cons.IH [OF s1(2,3)] B(2)) auto
  moreover have "(frame_map s)(f \<mapsto> v) ++ map_of ps = frame_map s ++ map_of (p # ps)"
    using Cons.prems(7) p by (simp add: map_add_upd_left dom_map_of_conv_image_fst)
  ultimately show ?case unfolding s1(5) using s1(1,6) p B(1) [of hk "length ps" s]
    by (simp del: build_loop.simps map_of.simps)
qed

end
