(* ===== verification/Hash_Fields.thy ===== *)
theory Hash_Fields
  imports Hash_Frame_Correct
begin

text \<open>
  What the hash commands rely on: a frame is a finite map from field names to values that can be
  read, written one pair at a time and thinned out. The loops of HSET and HDEL over the pairs and
  fields of a command are proved once for any such map and hold for hash frames by interpretation.
\<close>

section \<open>The loops of the hash commands\<close>

text \<open>\<open>for (f, v) in &pairs { match HashSlotFrame::upsert(slot, f, v) ... }\<close>: the first error ends it.\<close>

fun upsert_all ::
    "('s \<Rightarrow> 'f \<Rightarrow> 'v \<Rightarrow> ('s \<times> (bool, 'e) outcome) option) \<Rightarrow> ('f \<times> 'v) list \<Rightarrow> int \<Rightarrow> 's \<Rightarrow> ('s \<times> (int, 'e) outcome) option" where
  "upsert_all put [] n s = Some (s, Ok n)"
| "upsert_all put ((f, v) # ps) n s =
     (case put s f v of
        None \<Rightarrow> None
      | Some (s', Ok is_new) \<Rightarrow> upsert_all put ps (if is_new then n + 1 else n) s'
      | Some (s', Err e) \<Rightarrow> Some (s', Err e)
      | Some (s', Panic m) \<Rightarrow> Some (s', Panic m))"

text \<open>\<open>for f in &fields { if HashSlotFrame::delete(slot, f) ... }\<close>: the removed fields, in order.\<close>

fun delete_all :: "('s \<Rightarrow> 'f \<Rightarrow> 's \<times> bool) \<Rightarrow> 'f list \<Rightarrow> 's \<Rightarrow> 's \<times> 'f list" where
  "delete_all del [] s = (s, [])"
| "delete_all del (f # fs) s =
     (case del s f of (s', gone) \<Rightarrow>
        (case delete_all del fs s' of (s'', gs) \<Rightarrow> (s'', if gone then f # gs else gs)))"

section \<open>The interface\<close>

definition put_fields :: "('f \<times> 'v) list \<Rightarrow> ('f \<rightharpoonup> 'v) \<Rightarrow> 'f \<rightharpoonup> 'v" where
  "put_fields ps m = fold (\<lambda>(f, v) m. m(f \<mapsto> v)) ps m"

lemma put_fields_simps [simp]:
  "put_fields [] m = m" "put_fields ((f, v) # ps) m = put_fields ps (m(f \<mapsto> v))"
  by (simp_all add: put_fields_def)

lemma dom_put_fields: "dom (put_fields ps m) = fst ` set ps \<union> dom m"
proof (induction ps arbitrary: m)
  case (Cons p ps)
  obtain f v where "p = (f, v)" by (cases p)
  then have "dom (put_fields (p # ps) m) = fst ` set ps \<union> dom (m(f \<mapsto> v))" by (simp only: put_fields_simps Cons)
  then show ?case using \<open>p = (f, v)\<close> by (simp only: dom_fun_upd) simp
qed simp

locale field_map =
  fixes ok :: "'s \<Rightarrow> bool" and fields :: "'s \<Rightarrow> 'f \<rightharpoonup> 'v" and usable :: "'f \<Rightarrow> bool"
    and lookup :: "'s \<Rightarrow> 'f \<Rightarrow> 'v option"
    and put :: "'s \<Rightarrow> 'f \<Rightarrow> 'v \<Rightarrow> ('s \<times> (bool, 'e) outcome) option" and del :: "'s \<Rightarrow> 'f \<Rightarrow> 's \<times> bool"
  assumes lookup: "ok s \<Longrightarrow> lookup s f = fields s f"
    and put: "ok s \<Longrightarrow> usable f \<Longrightarrow> \<exists>s' r. put s f v = Some (s', r) \<and> ok s' \<and>
      (r = Ok (fields s f = None) \<and> fields s' = (fields s)(f \<mapsto> v) \<or> (\<exists>e. r = Err e) \<and> fields s' = fields s)"
    and del: "ok s \<Longrightarrow> \<exists>s'. del s f = (s', fields s f \<noteq> None) \<and> ok s' \<and> fields s' = (fields s)(f := None)"
    and finite: "ok s \<Longrightarrow> finite (dom (fields s))"
begin

lemma upsert_all_outcome:
  assumes "ok s" "\<forall>p\<in>set ps. usable (fst p)"
  shows "\<exists>s' r. upsert_all put ps n s = Some (s', r) \<and> ok s' \<and>
    (r = Ok (n + int (card (dom (fields s')) - card (dom (fields s)))) \<and> fields s' = put_fields ps (fields s) \<or>
     (\<exists>e qs q rs. r = Err e \<and> ps = qs @ q # rs \<and> fields s' = put_fields qs (fields s)))"
  using assms
proof (induction ps arbitrary: n s)
  case Nil
  then show ?case by simp
next
  case (Cons p ps)
  obtain f v where p: "p = (f, v)" by (cases p)
  obtain s1 r where s1: "put s f v = Some (s1, r)" "ok s1"
      "r = Ok (fields s f = None) \<and> fields s1 = (fields s)(f \<mapsto> v) \<or> (\<exists>e. r = Err e) \<and> fields s1 = fields s"
    using put [OF Cons.prems(1), of f v] Cons.prems(2) p by auto
  from s1(3) show ?case
  proof
    assume r: "r = Ok (fields s f = None) \<and> fields s1 = (fields s)(f \<mapsto> v)"
    let ?n = "if fields s f = None then n + 1 else n"
    obtain s' r' where s': "upsert_all put ps ?n s1 = Some (s', r')" "ok s'"
        "r' = Ok (?n + int (card (dom (fields s')) - card (dom (fields s1)))) \<and> fields s' = put_fields ps (fields s1) \<or>
         (\<exists>e qs q rs. r' = Err e \<and> ps = qs @ q # rs \<and> fields s' = put_fields qs (fields s1))"
      using Cons.IH [OF s1(2), of ?n] Cons.prems(2) by (meson list.set_intros(2))
    have run: "upsert_all put (p # ps) n s = Some (s', r')" using s1(1) r s'(1) p by simp
    have card1: "card (dom (fields s1)) = (if fields s f = None then 1 else 0) + card (dom (fields s))"
      using r finite [OF Cons.prems(1)] by (auto simp: domIff insert_absorb)
    have "card (dom (fields s1)) \<le> card (dom (fields s'))" if "fields s' = put_fields ps (fields s1)"
      using that finite [OF s'(2)] by (intro card_mono) (simp_all add: dom_put_fields)
    then have "r' = Ok (n + int (card (dom (fields s')) - card (dom (fields s)))) \<and> fields s' = put_fields (p # ps) (fields s)"
      if "r' = Ok (?n + int (card (dom (fields s')) - card (dom (fields s1)))) \<and> fields s' = put_fields ps (fields s1)"
      using that r p card1 by (auto simp: of_nat_diff)
    moreover have "\<exists>e qs q rs. r' = Err e \<and> p # ps = qs @ q # rs \<and> fields s' = put_fields qs (fields s)"
      if stop: "\<exists>e qs q rs. r' = Err e \<and> ps = qs @ q # rs \<and> fields s' = put_fields qs (fields s1)"
    proof -
      obtain e qs q rs where "r' = Err e" "ps = qs @ q # rs" "fields s' = put_fields qs (fields s1)" using stop by blast
      then show ?thesis using r p by (intro exI [of _ e] exI [of _ "p # qs"] exI [of _ q] exI [of _ rs]) simp
    qed
    ultimately show ?thesis using run s'(2,3) by (intro exI [of _ s'] exI [of _ r']) blast
  next
    assume r: "(\<exists>e. r = Err e) \<and> fields s1 = fields s"
    then obtain e where e: "r = Err e" by blast
    then have "upsert_all put (p # ps) n s = Some (s1, Err e)" using s1(1) p by simp
    moreover have "p # ps = [] @ p # ps" "fields s1 = put_fields [] (fields s)" using r by simp_all
    ultimately show ?thesis using s1(2) by blast
  qed
qed

lemma delete_all_outcome:
  assumes "ok s"
  shows "\<exists>s' gs. delete_all del fs s = (s', gs) \<and> ok s' \<and> fields s' = fields s |` (- set fs) \<and>
    set gs = set fs \<inter> dom (fields s) \<and> distinct gs"
  using assms
proof (induction fs arbitrary: s)
  case Nil
  then show ?case by simp
next
  case (Cons f fs)
  obtain s1 where s1: "del s f = (s1, fields s f \<noteq> None)" "ok s1" "fields s1 = (fields s)(f := None)"
    using del [OF Cons.prems] by blast
  obtain s' gs where s': "delete_all del fs s1 = (s', gs)" "ok s'" "fields s' = fields s1 |` (- set fs)"
      "set gs = set fs \<inter> dom (fields s1)" "distinct gs"
    using Cons.IH [OF s1(2)] by blast
  have "fields s' = fields s |` (- set (f # fs))" using s'(3) s1(3) by (auto simp: restrict_map_def)
  moreover have "f \<notin> set gs" using s'(4) s1(3) by simp
  ultimately show ?case using s1 s' by (auto simp: domIff)
qed

end

section \<open>Hash frames are such maps\<close>

lemma frame_upsert_outcome:
  assumes "hash_frame_ok hk slot" "f \<noteq> []"
  shows "\<exists>s r. frame_upsert hk slot f v = Some (s, r) \<and> frame_upserted hk slot f v s r"
proof -
  obtain live k pend dead where "frame_at hk slot live k pend dead" using assms(1) by (auto simp: hash_frame_ok_def)
  from upsert_ok [OF this assms(2), of 13 v] show ?thesis
    by (simp add: frame_upsert_def UPSERT_DEPTH_def eval_nat_numeral del: upsert_fuel.simps)
qed

lemma frame_get_ok: "hash_frame_ok hk slot \<Longrightarrow> frame_get hk slot f = frame_map slot f"
  using frame_get_map by (auto simp: hash_frame_ok_def)

lemma frame_delete_ok:
  assumes "hash_frame_ok hk slot"
  shows "\<exists>s. frame_delete hk slot f = (s, frame_map slot f \<noteq> None) \<and> hash_frame_ok hk s \<and> length s = length slot \<and>
    frame_map s = (frame_map slot)(f := None)"
  using assms delete_ok by (auto simp: hash_frame_ok_def)

interpretation frames: field_map "\<lambda>s. hash_frame_ok hk s \<and> length s = n" frame_map "\<lambda>f. f \<noteq> []"
    "frame_get hk" "frame_upsert hk" "frame_delete hk"
  for hk n
proof unfold_locales
  fix s f v
  assume ok: "hash_frame_ok hk s \<and> length s = n"
  then show "frame_get hk s f = frame_map s f" by (simp add: frame_get_ok)
  show "\<exists>s'. frame_delete hk s f = (s', frame_map s f \<noteq> None) \<and> (hash_frame_ok hk s' \<and> length s' = n) \<and>
      frame_map s' = (frame_map s)(f := None)"
    using frame_delete_ok [of hk s f] ok by auto
  show "finite (dom (frame_map s))" by (simp add: frame_map_def finite_dom_map_of)
  assume "f \<noteq> []"
  then show "\<exists>s' r. frame_upsert hk s f v = Some (s', r) \<and> (hash_frame_ok hk s' \<and> length s' = n) \<and>
      (r = Ok (frame_map s f = None) \<and> frame_map s' = (frame_map s)(f \<mapsto> v) \<or> (\<exists>e. r = Err e) \<and> frame_map s' = frame_map s)"
    using frame_upsert_outcome [of hk s f v] ok by (auto simp: frame_upserted_def)
qed

end
