(* ===== verification/Server_Hashes.thy ===== *)
theory Server_Hashes
  imports Server_Handlers Hash_Fields
begin

text \<open>
  The handlers of the hash commands (\<open>crates/kachedb-net/src/connection/hashes.rs\<close>): HSET, HGET, HDEL,
  HEXISTS, HLEN and HGETALL, each on the slot of the key's entry.
\<close>

section \<open>Slots as mutable slices\<close>

text \<open>
  \<open>std::slice::from_raw_parts_mut\<close>: an operation on the bytes of a slot, written back. An error is
  \<open>None\<close>; a panic ends the command.
\<close>

definition on_slot :: "u64 \<Rightarrow> nat \<Rightarrow> (bytes \<Rightarrow> (bytes \<times> ('a, 'e) outcome) option) \<Rightarrow> 'a option step" where
  "on_slot p n op s =
     (case op (slice_at p n (sv_mem s)) of
        None \<Rightarrow> None
      | Some (bs, r) \<Rightarrow>
          Some (s\<lparr>sv_mem := copy_nonoverlapping bs p (sv_mem s)\<rparr>,
                case r of Ok x \<Rightarrow> Ok (Some x) | Err _ \<Rightarrow> Ok None | Panic m \<Rightarrow> Panic m))"

definition hash_slab_class :: "nat \<Rightarrow> SlabClassType option" where
  "hash_slab_class needed =
     (if needed \<le> 128 then Some AppSmall else if needed \<le> 512 then Some AppMedium
      else if needed \<le> 4096 then Some AppLarge else None)"

section \<open>HSET\<close>

definition HASH_TOO_LARGE :: string where
  "HASH_TOO_LARGE = ''ERR hash exceeds the 4096-byte limit''"

definition SLOT_ERROR :: string where
  "SLOT_ERROR = ''ERR internal slab slot error''"

text \<open>The first critical section: the bytes needed with the fields the key has already.\<close>

definition hset_needed :: "Env \<Rightarrow> u64 \<Rightarrow> (bytes \<times> bytes) list \<Rightarrow> u32 \<Rightarrow> nat step" where
  "hset_needed env h pairs now =
     andthen (on_table (sh_lookup_checked now) h) (\<lambda>found. case found of
       None \<Rightarrow> ret (needed_bytes None pairs)
     | Some e \<Rightarrow>
         if te_value_type e \<noteq> VALUE_TYPE_HASH then ret (needed_bytes None pairs)
         else andthen (resolve_step (te_slab_block_id e)) (\<lambda>ptr. case ptr of
           None \<Rightarrow> ret (needed_bytes None pairs)
         | Some p \<Rightarrow> andthen (read_slot p (te_value_len e)) (\<lambda>slot. ret (needed_bytes (Some slot) pairs))))"

text \<open>
  A new slot of the target class with an empty frame, filled and handed to \<open>k\<close> with the number of new
  fields; \<open>Inl\<close> is the error the closure returns. A slot that cannot be used is released again.
\<close>

definition give_up :: "SlabBlockId \<Rightarrow> string \<Rightarrow> (string + int) step" where
  "give_up b msg = andthen (deallocate_step b) (\<lambda>_. ret (Inl msg))"

definition new_frame ::
    "Env \<Rightarrow> SlabClassType \<Rightarrow> (SlabBlockId \<Rightarrow> u64 \<Rightarrow> (string + int) step) \<Rightarrow> (string + int) step" where
  "new_frame env c k =
     andthen (allocate_step env c) (\<lambda>res. case res of
       None \<Rightarrow> ret (Inl OOM)
     | Some b \<Rightarrow>
         andthen (resolve_step b) (\<lambda>ptr. case ptr of
           None \<Rightarrow> give_up b SLOT_ERROR
         | Some p \<Rightarrow>
             andthen (on_slot p (slot_bytes c) (\<lambda>slot. Some (init_frame slot))) (\<lambda>ok. case ok of
               None \<Rightarrow> give_up b SLOT_ERROR
             | Some _ \<Rightarrow> k b p)))"

definition upsert_pairs :: "Env \<Rightarrow> u64 \<Rightarrow> nat \<Rightarrow> (bytes \<times> bytes) list \<Rightarrow> int option step" where
  "upsert_pairs env p n pairs = on_slot p n (upsert_all (frame_upsert (hash_key env)) pairs 0)"

text \<open>
  \<open>insert_typed\<close> of the new block; the closure gives up the slot when the table reports an error.
\<close>

definition publish :: "u64 \<Rightarrow> SlabBlockId \<Rightarrow> SlabClassType \<Rightarrow> u32 \<Rightarrow> (string + int) step \<Rightarrow> (string + int) step" where
  "publish h b c ex k =
     andthen (on_table (sh_insert_typed b (of_nat (slot_bytes c)) ex VALUE_TYPE_HASH) h) (\<lambda>res. case res of
       Ok _ \<Rightarrow> k
     | Err _ \<Rightarrow> give_up b OOM
     | Panic m \<Rightarrow> (\<lambda>s. Some (s, Panic m)))"

text \<open>The key is absent: the block that an expired entry of the key still owns is not released.\<close>

definition hset_new :: "Env \<Rightarrow> u64 \<Rightarrow> (bytes \<times> bytes) list \<Rightarrow> SlabClassType \<Rightarrow> (string + int) step" where
  "hset_new env h pairs c =
     new_frame env c (\<lambda>b p.
       andthen (upsert_pairs env p (slot_bytes c) pairs) (\<lambda>res. case res of
         None \<Rightarrow> give_up b ''ERR hash frame full during initialization''
       | Some n \<Rightarrow> publish h b c 0 (ret (Inr n))))"

text \<open>The key's slot is too small or full: its pairs move to a new slot.\<close>

definition copy_pairs :: "Env \<Rightarrow> TableEntry \<Rightarrow> u64 \<Rightarrow> nat \<Rightarrow> unit step" where
  "copy_pairs env e p n =
     andthen (resolve_step (te_slab_block_id e)) (\<lambda>old. case old of
       None \<Rightarrow> ret ()
     | Some q \<Rightarrow>
         andthen (read_slot q (te_value_len e)) (\<lambda>slot.
         andthen (on_slot p n (reinsert (frame_upsert (hash_key env)) (iter_pairs slot))) (\<lambda>_. ret ())))"

definition hset_expand :: "Env \<Rightarrow> u64 \<Rightarrow> (bytes \<times> bytes) list \<Rightarrow> SlabClassType \<Rightarrow> TableEntry \<Rightarrow> (string + int) step" where
  "hset_expand env h pairs c e =
     new_frame env c (\<lambda>b p.
       andthen (copy_pairs env e p (slot_bytes c)) (\<lambda>_.
       andthen (upsert_pairs env p (slot_bytes c) pairs) (\<lambda>res. case res of
         None \<Rightarrow> give_up b ''ERR hash frame full during expansion''
       | Some n \<Rightarrow>
           publish h b c (te_expire_at_secs e)
             (andthen (deallocate_step (te_slab_block_id e)) (\<lambda>_.
              andthen (if te_expire_at_secs e > 0 then schedule_step h b (te_expire_at_secs e) else ret ())
                (\<lambda>_. ret (Inr n)))))))"

definition hset_existing :: "Env \<Rightarrow> u64 \<Rightarrow> (bytes \<times> bytes) list \<Rightarrow> SlabClassType \<Rightarrow> TableEntry \<Rightarrow> (string + int) step" where
  "hset_existing env h pairs c e =
     (if te_value_type e \<noteq> VALUE_TYPE_HASH then ret (Inl WRONGTYPE)
      else if (case for_size (unat (te_value_len e)) of Some d \<Rightarrow> slot_bytes d | None \<Rightarrow> 0) \<ge> slot_bytes c
      then andthen (resolve_step (te_slab_block_id e)) (\<lambda>ptr. case ptr of
             None \<Rightarrow> hset_expand env h pairs c e
           | Some p \<Rightarrow>
               andthen (upsert_pairs env p (unat (te_value_len e)) pairs) (\<lambda>res. case res of
                 Some n \<Rightarrow> ret (Inr n)
               | None \<Rightarrow> hset_expand env h pairs c e))
      else hset_expand env h pairs c e)"

text \<open>The pairs of a log frame; lengths and counts are cast to \<open>u16\<close>.\<close>

definition aof_pairs :: "(bytes \<times> bytes) list \<Rightarrow> bytes" where
  "aof_pairs pairs = u16_le (length pairs) @ concat (map encode_pair pairs)"

definition hset_cmd :: "Env \<Rightarrow> bytes \<Rightarrow> (bytes \<times> bytes) list \<Rightarrow> u32 \<Rightarrow> unit step" where
  "hset_cmd env key pairs now =
     (let h = hash_key env key
      in andthen (hset_needed env h pairs now) (\<lambda>needed.
           if needed > 4096 then reply_error HASH_TOO_LARGE
           else (case hash_slab_class needed of
                   None \<Rightarrow> reply_error HASH_TOO_LARGE
                 | Some c \<Rightarrow>
                     andthen (andthen (on_table (sh_lookup_checked now) h) (\<lambda>found. case found of
                         Some e \<Rightarrow> hset_existing env h pairs c e
                       | None \<Rightarrow> hset_new env h pairs c)) (\<lambda>res. case res of
                       Inl err \<Rightarrow> reply_error err
                     | Inr n \<Rightarrow> andthen (emit_aof env AofHSet key (aof_pairs pairs) now) (\<lambda>_. reply_int n)))))"

section \<open>The other commands\<close>

text \<open>The common head of the reading commands: \<open>miss\<close> for an absent key or an unresolvable slot.\<close>

definition with_frame :: "Env \<Rightarrow> bytes \<Rightarrow> u32 \<Rightarrow> unit step \<Rightarrow> (bytes \<Rightarrow> unit step) \<Rightarrow> unit step" where
  "with_frame env key now miss k =
     andthen (on_table (sh_lookup_checked now) (hash_key env key)) (\<lambda>found. case found of
       None \<Rightarrow> miss
     | Some e \<Rightarrow>
         if te_value_type e \<noteq> VALUE_TYPE_HASH then reply_error WRONGTYPE
         else andthen (resolve_step (te_slab_block_id e)) (\<lambda>ptr. case ptr of
           None \<Rightarrow> miss
         | Some p \<Rightarrow> andthen (read_slot p (te_value_len e)) k))"

definition hget_cmd :: "Env \<Rightarrow> bytes \<Rightarrow> bytes \<Rightarrow> u32 \<Rightarrow> unit step" where
  "hget_cmd env key field now =
     with_frame env key now (reply encode_null) (\<lambda>slot.
       case frame_get (hash_key env) slot field of Some val \<Rightarrow> reply_bulk val | None \<Rightarrow> reply encode_null)"

definition hexists_cmd :: "Env \<Rightarrow> bytes \<Rightarrow> bytes \<Rightarrow> u32 \<Rightarrow> unit step" where
  "hexists_cmd env key field now =
     with_frame env key now (reply_int 0) (\<lambda>slot.
       reply_int (if frame_exists (hash_key env) slot field then 1 else 0))"

definition hlen_cmd :: "Env \<Rightarrow> bytes \<Rightarrow> u32 \<Rightarrow> unit step" where
  "hlen_cmd env key now =
     with_frame env key now (reply_int 0) (\<lambda>slot. reply_int (int (frame_live_count slot)))"

definition hgetall_cmd :: "Env \<Rightarrow> bytes \<Rightarrow> u32 \<Rightarrow> unit step" where
  "hgetall_cmd env key now =
     with_frame env key now (reply (\<lambda>buf. encode_array_header buf 0)) (\<lambda>slot.
       andthen (reply (\<lambda>buf. encode_array_header buf (frame_live_count slot * 2))) (\<lambda>_.
         for_each (iter_pairs slot) (\<lambda>(f, v) u. andthen (reply_bulk f) (\<lambda>_. reply_bulk v)) ()))"

text \<open>The fields of a log frame of HDEL.\<close>

definition aof_fields :: "bytes list \<Rightarrow> bytes" where
  "aof_fields fs = u16_le (length fs) @ concat (map (\<lambda>f. u16_le (length f) @ f) fs)"

definition hdel_fields :: "Env \<Rightarrow> u64 \<Rightarrow> bytes list \<Rightarrow> TableEntry \<Rightarrow> u64 \<Rightarrow> (bytes list \<times> SlabBlockId option) step" where
  "hdel_fields env h names e p =
     andthen (on_slot p (unat (te_value_len e)) (\<lambda>slot.
         case delete_all (frame_delete (hash_key env)) names slot of
           (slot', gone) \<Rightarrow> Some (slot', Ok (gone, frame_live_count slot') :: (_, FrameError) outcome))) (\<lambda>res. case res of
       None \<Rightarrow> ret ([], None)
     | Some (gone, live) \<Rightarrow>
         if live = 0 then andthen (on_table sh_remove h) (\<lambda>_. ret (gone, Some (te_slab_block_id e)))
         else ret (gone, None))"

definition hdel_cmd :: "Env \<Rightarrow> bytes \<Rightarrow> bytes list \<Rightarrow> u32 \<Rightarrow> unit step" where
  "hdel_cmd env key names now =
     (let h = hash_key env key;
          finish = (\<lambda>(gone, freed).
            andthen (free_old freed) (\<lambda>_.
            andthen (if gone \<noteq> [] then emit_aof env AofHDel key (aof_fields gone) now else ret ()) (\<lambda>_.
              reply_int (int (length gone)))))
      in andthen (on_table (sh_lookup_checked now) h) (\<lambda>found. case found of
           None \<Rightarrow> finish ([], None)
         | Some e \<Rightarrow>
             if te_value_type e \<noteq> VALUE_TYPE_HASH then reply_error WRONGTYPE
             else andthen (resolve_step (te_slab_block_id e)) (\<lambda>ptr. case ptr of
               None \<Rightarrow> finish ([], None)
             | Some p \<Rightarrow> andthen (hdel_fields env h names e p) finish)))"

definition handle_hashes :: "Env \<Rightarrow> u32 \<Rightarrow> Command \<Rightarrow> bool step" where
  "handle_hashes env now cmd =
     andthen (case cmd of
         HSet key pairs \<Rightarrow> hset_cmd env key pairs now
       | HGet key field \<Rightarrow> hget_cmd env key field now
       | HDel key names \<Rightarrow> hdel_cmd env key names now
       | HExists key field \<Rightarrow> hexists_cmd env key field now
       | HLen key \<Rightarrow> hlen_cmd env key now
       | HGetAll key \<Rightarrow> hgetall_cmd env key now
       | _ \<Rightarrow> (\<lambda>s. Some (s, Panic ''handle_hashes called with non-hash command'')))
     (\<lambda>_. ret True)"

end
