(* ===== verification/Server_Dispatch.thy ===== *)
theory Server_Dispatch
  imports Server_Hashes
begin

text \<open>
  Session and server commands (\<open>admin.rs\<close>), and the authentication gate and dispatch
  (\<open>execute_command_full\<close> of \<open>mod.rs\<close>) in \<open>crates/kachedb-net/src/connection\<close>.
\<close>

section \<open>Text\<close>

text \<open>\<open>std::str::from_utf8\<close>: well-formed UTF-8 sequences.\<close>

abbreviation byte_in :: "u8 \<Rightarrow> u8 \<Rightarrow> u8 \<Rightarrow> bool" where
  "byte_in lo hi b \<equiv> lo \<le> b \<and> b \<le> hi"

abbreviation cont_byte :: "u8 \<Rightarrow> bool" where
  "cont_byte b \<equiv> byte_in 0x80 0xBF b"

fun utf8_ok :: "bytes \<Rightarrow> bool" where
  "utf8_ok [] = True"
| "utf8_ok (a # r) =
     (if a < 0x80 then utf8_ok r
      else if byte_in 0xC2 0xDF a then
        (case r of b # r' \<Rightarrow> cont_byte b \<and> utf8_ok r' | _ \<Rightarrow> False)
      else if byte_in 0xE0 0xEF a then
        (case r of
           b # c # r' \<Rightarrow>
             byte_in (if a = 0xE0 then 0xA0 else 0x80) (if a = 0xED then 0x9F else 0xBF) b \<and>
             cont_byte c \<and> utf8_ok r'
         | _ \<Rightarrow> False)
      else if byte_in 0xF0 0xF4 a then
        (case r of
           b # c # d # r' \<Rightarrow>
             byte_in (if a = 0xF0 then 0x90 else 0x80) (if a = 0xF4 then 0x8F else 0xBF) b \<and>
             cont_byte c \<and> cont_byte d \<and> utf8_ok r'
         | _ \<Rightarrow> False)
      else False)"

definition utf8_or :: "bytes \<Rightarrow> string \<Rightarrow> bytes" where
  "utf8_or b d = (if utf8_ok b then b else ascii d)"

section \<open>Session and server commands\<close>

definition on_client :: "(ClientState \<Rightarrow> ClientState) \<Rightarrow> unit step" where
  "on_client f s = Some (s\<lparr>sv_client := map_option f (sv_client s)\<rparr>, Ok ())"

definition hello_cmd :: "int option \<Rightarrow> bytes option \<Rightarrow> unit step" where
  "hello_cmd protover setname s =
     (let ver = (case protover of Some v \<Rightarrow> v | None \<Rightarrow> 2)
      in if ver \<noteq> 2 \<and> ver \<noteq> 3 then reply_error ''NOPROTO unsupported protocol version'' s
         else andthen (on_client (\<lambda>c. c\<lparr>proto_version := of_int ver,
                cl_name := (case setname of Some n \<Rightarrow> Some n | None \<Rightarrow> cl_name c)\<rparr>)) (\<lambda>_ s1.
              let cid = (case sv_client s1 of Some c \<Rightarrow> client_id c | None \<Rightarrow> 1)
              in andthen (reply (\<lambda>buf. encode_array_header buf 14)) (\<lambda>_.
                 andthen (reply_bulk (ascii ''server'')) (\<lambda>_.
                 andthen (reply_bulk (ascii ''kachedb'')) (\<lambda>_.
                 andthen (reply_bulk (ascii ''version'')) (\<lambda>_.
                 andthen (reply_bulk (ascii ''0.3.1'')) (\<lambda>_.
                 andthen (reply_bulk (ascii ''proto'')) (\<lambda>_.
                 andthen (reply_int ver) (\<lambda>_.
                 andthen (reply_bulk (ascii ''id'')) (\<lambda>_.
                 andthen (reply_int cid) (\<lambda>_.
                 andthen (reply_bulk (ascii ''mode'')) (\<lambda>_.
                 andthen (reply_bulk (ascii ''standalone'')) (\<lambda>_.
                 andthen (reply_bulk (ascii ''role'')) (\<lambda>_.
                 andthen (reply_bulk (ascii ''master'')) (\<lambda>_.
                 andthen (reply_bulk (ascii ''modules'')) (\<lambda>_.
                   reply (\<lambda>buf. encode_array_header buf 0))))))))))))))) s1) s)"

definition client_line :: "bytes \<Rightarrow> bytes" where
  "client_line name =
     ascii ''id=1 addr=127.0.0.1:0 fd=0 name='' @ name @
     ascii '' age=1 idle=0 flags=N db=0 sub=0 psub=0 multi=-1 qbuf=0 qbuf-free=0 argv-mem=0 '' @
     ascii ''obl=0 oll=0 omem=0 tot-mem=0 events=r cmd=client'' @ [10]"

definition client_cmd :: "ClientSubcommand \<Rightarrow> unit step" where
  "client_cmd sub s =
     (case sub of
        SetName name \<Rightarrow> andthen (on_client (\<lambda>c. c\<lparr>cl_name := Some name\<rparr>)) (\<lambda>_. reply_simple ''OK'') s
      | GetName \<Rightarrow>
          (case Option.bind (sv_client s) cl_name of
             Some name \<Rightarrow> reply_bulk name s
           | None \<Rightarrow> reply encode_null s)
      | ClientId \<Rightarrow> reply_int (case sv_client s of Some c \<Rightarrow> client_id c | None \<Rightarrow> 1) s
      | ClientList \<Rightarrow>
          reply_bulk (client_line (case Option.bind (sv_client s) cl_name of
                                     Some n \<Rightarrow> utf8_or n [] | None \<Rightarrow> [])) s
      | Unrecognized b \<Rightarrow>
          reply (\<lambda>buf. encode_error buf (ascii ''ERR unknown subcommand '' @ [39] @ utf8_or b ''unknown'' @
            [39] @ ascii '' for '' @ [39] @ ascii ''CLIENT'' @ [39])) s)"

definition type_cmd :: "Env \<Rightarrow> bytes \<Rightarrow> u32 \<Rightarrow> unit step" where
  "type_cmd env key now =
     andthen (on_table (sh_lookup_checked now) (hash_key env key)) (\<lambda>found. case found of
       None \<Rightarrow> reply_simple ''none''
     | Some e \<Rightarrow> reply_simple (if te_value_type e = VALUE_TYPE_HASH then ''hash'' else ''string''))"

definition flush_cmd :: "unit step" where
  "flush_cmd s =
     (case sh_clear (sv_table s) of
        (t, blocks) \<Rightarrow>
          andthen (for_each blocks (\<lambda>b u. deallocate_step b) ()) (\<lambda>_. reply_simple ''OK'')
            (s\<lparr>sv_table := t\<rparr>))"

text \<open>
  The text of INFO mixes figures of the pool and the table with the process id, the platform and
  formatted floats: it is an argument \<open>info\<close> of the handler.
\<close>

definition handle_admin :: "(u32 \<Rightarrow> Server \<Rightarrow> bytes) \<Rightarrow> Env \<Rightarrow> u32 \<Rightarrow> Command \<Rightarrow> bool step" where
  "handle_admin info env now cmd =
     (case cmd of
        Quit \<Rightarrow> andthen (reply_simple ''OK'') (\<lambda>_. ret False)
      | _ \<Rightarrow>
          andthen (case cmd of
              Ping message \<Rightarrow> (case message of Some m \<Rightarrow> reply_bulk m | None \<Rightarrow> reply_simple ''PONG'')
            | Hello protover auth setname \<Rightarrow> hello_cmd protover setname
            | Client sub \<Rightarrow> client_cmd sub
            | Info section \<Rightarrow> (\<lambda>s. reply_bulk (info now s) s)
            | CommandDoc \<Rightarrow> reply_simple ''OK''
            | BgRewriteAof \<Rightarrow> reply_simple ''Background append only file rewriting started''
            | DBSize \<Rightarrow> (\<lambda>s. reply_int (int (sh_len (sv_table s))) s)
            | Type key \<Rightarrow> type_cmd env key now
            | FlushDb \<Rightarrow> flush_cmd
            | FlushAll \<Rightarrow> flush_cmd
            | Unknown name \<Rightarrow> reply (\<lambda>buf. encode_error buf
                (ascii ''ERR unknown command '' @ [39] @ utf8_or name ''unknown'' @ [39]))
            | _ \<Rightarrow> (\<lambda>s. Some (s, Panic ''handle_admin called with non-admin command'')))
          (\<lambda>_. ret True))"

section \<open>Dispatch\<close>

datatype handler = Admin | Strings | Expiry | Hashes | Vectors | AuthCmd

fun handler_of :: "Command \<Rightarrow> handler" where
  "handler_of (Auth _ _) = AuthCmd"
| "handler_of (Get _) = Strings"
| "handler_of (Set _ _ _) = Strings"
| "handler_of (MGet _) = Strings"
| "handler_of (MSet _) = Strings"
| "handler_of (Del _) = Strings"
| "handler_of (Exists _) = Strings"
| "handler_of (Incr _) = Strings"
| "handler_of (Decr _) = Strings"
| "handler_of (IncrBy _ _) = Strings"
| "handler_of (DecrBy _ _) = Strings"
| "handler_of (Append _ _) = Strings"
| "handler_of (Strlen _) = Strings"
| "handler_of (Expire _ _) = Expiry"
| "handler_of (PExpire _ _) = Expiry"
| "handler_of (ExpireAt _ _) = Expiry"
| "handler_of (PExpireAt _ _) = Expiry"
| "handler_of (Ttl _) = Expiry"
| "handler_of (PTtl _) = Expiry"
| "handler_of (Persist _) = Expiry"
| "handler_of (HSet _ _) = Hashes"
| "handler_of (HGet _ _) = Hashes"
| "handler_of (HDel _ _) = Hashes"
| "handler_of (HExists _ _) = Hashes"
| "handler_of (HLen _) = Hashes"
| "handler_of (HGetAll _) = Hashes"
| "handler_of (VAdd _ _ _ _ _ _ _ _) = Vectors"
| "handler_of (VSearch _ _ _ _ _) = Vectors"
| "handler_of (VAddBatch _ _) = Vectors"
| "handler_of (VSearchBatch _ _ _ _) = Vectors"
| "handler_of (VDel _ _) = Vectors"
| "handler_of (VStats _) = Vectors"
| "handler_of (VIndexCreate _ _ _ _ _ _ _) = Vectors"
| "handler_of (VIndexDrop _) = Vectors"
| "handler_of (VIndexInfo _) = Vectors"
| "handler_of _ = Admin"

text \<open>The handlers that are arguments of the dispatch.\<close>

record Handlers =
  hd_info :: "u32 \<Rightarrow> Server \<Rightarrow> bytes"
  hd_vectors :: "u32 \<Rightarrow> Command \<Rightarrow> bool step"

definition check_password :: "bytes option \<Rightarrow> bytes \<Rightarrow> bool step" where
  "check_password pass_configured password =
     andthen (case pass_configured of
         Some expected \<Rightarrow>
           if password = expected
           then andthen (on_client (\<lambda>c. c\<lparr>authenticated := True\<rparr>)) (\<lambda>_. reply_simple ''OK'')
           else reply_error ''ERR invalid password''
       | None \<Rightarrow> reply_error ''ERR Client sent AUTH, but no password is set'')
     (\<lambda>_. ret True)"

definition is_authed :: "ClientState option \<Rightarrow> bool" where
  "is_authed client =
     (case Option.bind client requirepass of
        None \<Rightarrow> True
      | Some _ \<Rightarrow> (case client of Some c \<Rightarrow> authenticated c | None \<Rightarrow> False))"

definition execute_command :: "Handlers \<Rightarrow> Env \<Rightarrow> u32 \<Rightarrow> Command \<Rightarrow> bool step" where
  "execute_command hs env now cmd s =
     (let pass_configured = Option.bind (sv_client s) requirepass
      in if \<not> is_authed (sv_client s)
         then (case cmd of
                 Auth _ password \<Rightarrow> check_password pass_configured password s
               | Quit \<Rightarrow> andthen (reply_simple ''OK'') (\<lambda>_. ret False) s
               | _ \<Rightarrow> andthen (reply_error ''NOAUTH Authentication required.'') (\<lambda>_. ret True) s)
         else (case handler_of cmd of
                 Admin \<Rightarrow> handle_admin (hd_info hs) env now cmd s
               | Strings \<Rightarrow> handle_strings env now cmd s
               | Expiry \<Rightarrow> handle_expiry env now cmd s
               | Hashes \<Rightarrow> handle_hashes env now cmd s
               | Vectors \<Rightarrow> hd_vectors hs now cmd s
               | AuthCmd \<Rightarrow>
                   (case cmd of
                      Auth _ password \<Rightarrow> check_password pass_configured password s
                    | _ \<Rightarrow> Some (s, Panic ''unreachable''))))"

end
