(* ===== verification/Server_Store.thy ===== *)
theory Server_Store
  imports Server_Heap Server_Dispatch
begin

text \<open>
  The effect of each elementary step and of \<open>store_value\<close> on the abstract store
  \<open>contents\<close>: which cells change, which replies are written, and under which conditions a step
  returns.
\<close>

section \<open>The store of a server\<close>

definition server_ok :: "Server \<Rightarrow> bool" where [inv_defs]:
  "server_ok s \<longleftrightarrow> heap_ok (sv_core s) (sharded_map (sv_table s)) \<and> sharded_inv (sv_table s)"

definition contents :: "Server \<Rightarrow> u64 \<rightharpoonup> Cell" where
  "contents s = cells (sv_core s) (sv_mem s) (sharded_map (sv_table s))"

definition shard_of :: "Server \<Rightarrow> u64 \<Rightarrow> SwissTable" where
  "shard_of s h = sv_table s ! shard_idx h"

text \<open>A step that changes only what the session shows: replies, log, wheel, client.\<close>

definition same_store :: "Server \<Rightarrow> Server \<Rightarrow> bool" where
  "same_store s s' \<longleftrightarrow> sv_core s' = sv_core s \<and> sv_table s' = sv_table s \<and> sv_mem s' = sv_mem s"

definition same_session :: "Server \<Rightarrow> Server \<Rightarrow> bool" where
  "same_session s s' \<longleftrightarrow> sv_out s' = sv_out s \<and> sv_aof s' = sv_aof s \<and> sv_wheel s' = sv_wheel s \<and>
     sv_client s' = sv_client s"

lemma same_storeD:
  assumes "same_store s s'"
  shows "server_ok s' = server_ok s" "contents s' = contents s" "shard_of s' h = shard_of s h"
  using assms by (simp_all add: same_store_def server_ok_def contents_def shard_of_def)

lemma contents_None [simp]: "contents s h = None \<longleftrightarrow> sharded_map (sv_table s) h = None"
  by (simp add: contents_def cells_def)

lemmas step_simps = andthen_def ret_def reply_def reply_error_def reply_simple_def reply_int_def
  reply_bulk_def on_table_def resolve_step_def read_slot_def write_slot_def schedule_step_def emit_aof_def

section \<open>Visibility\<close>

definition cell_expired :: "Cell \<Rightarrow> u32 \<Rightarrow> bool" where
  "cell_expired c now \<longleftrightarrow> cell_expire c \<noteq> 0 \<and> cell_expire c \<le> now"

fun visible_cell :: "u32 \<Rightarrow> Cell option \<Rightarrow> Cell option" where
  "visible_cell now None = None"
| "visible_cell now (Some c) = (if now \<noteq> 0 \<and> cell_expired c now then None else Some c)"

lemma visible_contents:
  "visible_cell now (contents s h) =
     map_option (cell_of (sv_core s) (sv_mem s)) (visible now (sharded_map (sv_table s) h))"
  by (cases "sharded_map (sv_table s) h")
    (simp_all add: contents_def cells_def cell_expired_def te_expired_def cell_of_def)

lemma visible_SomeD: "visible now x = Some e \<Longrightarrow> x = Some e"
  by (cases x) (auto split: if_splits)

section \<open>Table steps\<close>

lemma lookup_gap: "lookup_snapshot now t h = Some (t', r) \<Longrightarrow> has_gap t' = has_gap t"
  by (auto simp: lookup_snapshot_def lookup_checked_def has_gap_def Let_def split: option.splits probe_result.splits if_splits)

lemma remove_gap:
  assumes inv: "table_inv t" and gap: "has_gap t" and run: "table_remove t h = Some (t', r)"
  shows "has_gap t'"
  using inv
proof (cases rule: table_probe_cases [of t h])
  case (hit i)
  then show ?thesis using run remove_at_gap [OF inv hit(2) gap] by (auto simp: table_remove_def)
qed (use run gap in \<open>auto simp: table_remove_def\<close>)

lemma gaps_shard:
  assumes gap: "gaps t" and run: "with_shard_mut shard_idx f t h = Some (t', r)" and inv: "sharded_inv t"
    and one: "\<And>u r. f (t ! shard_idx h) h = Some (u, r) \<Longrightarrow> table_inv (t ! shard_idx h) \<Longrightarrow>
      has_gap (t ! shard_idx h) \<Longrightarrow> has_gap u"
  shows "gaps t'"
proof -
  have mem: "t ! shard_idx h \<in> set t" "table_inv (t ! shard_idx h)"
    using inv shard_idx_less [of h] by (auto simp: shards_inv_def)
  obtain u where u: "f (t ! shard_idx h) h = Some (u, r)" "t' = t[shard_idx h := u]"
    using run by (auto simp: with_shard_mut_def split: option.splits)
  then have "has_gap u" using one gap mem by (auto simp: gaps_def)
  then show ?thesis using gap u(2) set_update_subset_insert [of t "shard_idx h" u] by (auto simp: gaps_def)
qed

lemma gaps_ready: "gaps (sv_table s) \<Longrightarrow> server_ok s \<Longrightarrow> table_ready (shard_of s h) h"
  "gaps (sv_table s) \<Longrightarrow> server_ok s \<Longrightarrow> insert_ready (shard_of s h) h"
  using shard_idx_less [of h]
  by (auto simp: gaps_def server_ok_def shards_inv_def shard_of_def table_ready_def insert_ready_def)

lemma lookup_step:
  assumes ok: "server_ok s" and rdy: "table_ready (shard_of s h) h"
  obtains s' where "on_table (sh_lookup_checked now) h s = Some (s', Ok (visible now (sharded_map (sv_table s) h)))"
    "server_ok s'" "contents s' = contents s" "same_session s s'" "sv_core s' = sv_core s" "sv_mem s' = sv_mem s"
    "sharded_map (sv_table s') = sharded_map (sv_table s)" "sv_calls s' = sv_calls s"
    "gaps (sv_table s) \<Longrightarrow> gaps (sv_table s')"
proof -
  have inv: "sharded_inv (sv_table s)" using ok by (simp add: server_ok_def)
  obtain t' where t': "sh_lookup_checked now (sv_table s) h = Some (t', visible now (sharded_map (sv_table s) h))"
    "sharded_inv t'" "sharded_map t' = sharded_map (sv_table s)"
    using sh_lookup.shards.op_total [OF inv rdy [unfolded shard_of_def], of now]
    unfolding sh_lookup_checked_def spec_lookup_def by auto
  have "gaps t'" if "gaps (sv_table s)"
    by (rule gaps_shard [OF that t'(1) [unfolded sh_lookup_checked_def] inv]) (simp add: lookup_gap)
  then show ?thesis
    by (intro that [of "s\<lparr>sv_table := t'\<rparr>"])
      (use t' ok in \<open>simp_all add: on_table_def server_ok_def contents_def same_session_def\<close>)
qed

text \<open>
  Looking a key up and reading its slot is one step: \<open>fetch\<close> is the cell the key shows at \<open>now\<close>.
\<close>

lemma fetch_step:
  assumes ok: "server_ok s" and rdy: "table_ready (shard_of s h) h"
    and c: "visible_cell now (contents s h) = Some c"
  obtains s' e p where "on_table (sh_lookup_checked now) h s = Some (s', Ok (Some e))"
    "server_ok s'" "contents s' = contents s" "same_session s s'" "sv_core s' = sv_core s"
    "sv_calls s' = sv_calls s" "gaps (sv_table s) \<Longrightarrow> gaps (sv_table s')"
    "te_value_type e = cell_type c" "te_expire_at_secs e = cell_expire c" "unat (te_value_len e) = length (cell_value c)"
    "resolve_step (te_slab_block_id e) s' = Some (s', Ok (Some p))"
    "read_slot p (te_value_len e) s' = Some (s', Ok (cell_value c))"
proof -
  obtain e where e: "visible now (sharded_map (sv_table s) h) = Some e" "c = cell_of (sv_core s) (sv_mem s) e"
    using c unfolding visible_contents by auto
  have m: "sharded_map (sv_table s) h = Some e" using visible_SomeD [OF e(1)] .
  obtain p where p: "resolve_slot_ptr (te_slab_block_id e) (snd (sv_core s)) = Some p"
    using heap_ok_resolves [of "sv_core s" "sharded_map (sv_table s)" h e] m ok by (auto simp: server_ok_def)
  obtain s' where s': "on_table (sh_lookup_checked now) h s = Some (s', Ok (Some e))"
    "server_ok s'" "contents s' = contents s" "same_session s s'" "sv_core s' = sv_core s" "sv_mem s' = sv_mem s"
    "sv_calls s' = sv_calls s" "gaps (sv_table s) \<Longrightarrow> gaps (sv_table s')"
    using lookup_step [OF ok rdy, of now] e(1) by metis
  show ?thesis
    by (rule that [OF s'(1-5,7,8), of p]) (use p s'(5,6) e(2) in \<open>simp_all add: cell_of_def resolve_step_def read_slot_def\<close>)
qed

lemma miss_step:
  assumes ok: "server_ok s" and rdy: "table_ready (shard_of s h) h"
    and c: "visible_cell now (contents s h) = None"
  obtains s' where "on_table (sh_lookup_checked now) h s = Some (s', Ok None)"
    "server_ok s'" "contents s' = contents s" "same_session s s'" "sv_core s' = sv_core s" "sv_calls s' = sv_calls s"
    "gaps (sv_table s) \<Longrightarrow> gaps (sv_table s')"
proof -
  have "visible now (sharded_map (sv_table s) h) = None" using c unfolding visible_contents by simp
  then show ?thesis using lookup_step [OF ok rdy, of now] that by metis
qed

lemma remove_step:
  assumes ok: "server_ok s" and rdy: "table_ready (shard_of s h) h"
  obtains s' where "on_table sh_remove h s = Some (s', Ok (sharded_map (sv_table s) h))"
    "server_ok s'" "contents s' = (contents s)(h := None)" "same_session s s'" "sv_core s' = sv_core s"
    "sharded_map (sv_table s') = (sharded_map (sv_table s))(h := None)" "gaps (sv_table s) \<Longrightarrow> gaps (sv_table s')"
proof -
  have inv: "sharded_inv (sv_table s)" and heap: "heap_ok (sv_core s) (sharded_map (sv_table s))"
    using ok by (simp_all add: server_ok_def)
  obtain t' where t': "sh_remove (sv_table s) h = Some (t', sharded_map (sv_table s) h)"
    "sharded_inv t'" "sharded_map t' = (sharded_map (sv_table s))(h := None)"
    using sh_remove.shards.op_total [OF inv rdy [unfolded shard_of_def]]
    unfolding sh_remove_def spec_remove_def by auto
  have "gaps t'" if "gaps (sv_table s)"
    by (rule gaps_shard [OF that t'(1) [unfolded sh_remove_def] inv]) (rule remove_gap)
  then show ?thesis
    by (intro that [of "s\<lparr>sv_table := t'\<rparr>"])
      (use t' heap_remove [OF heap] in \<open>simp_all add: on_table_def server_ok_def contents_def same_session_def\<close>)
qed

lemma free_step:
  assumes ok: "server_ok s" and b: "b \<in> pool_live (fst (sv_core s))" "b \<notin> blocks (sharded_map (sv_table s))"
  obtains s' where "deallocate_step b s = Some (s', Ok ())" "server_ok s'" "contents s' = contents s"
    "same_session s s'" "sv_table s' = sv_table s" "pool_live (fst (sv_core s')) = pool_live (fst (sv_core s)) - {b}"
proof -
  obtain core res where d: "pool_deallocate b (sv_core s) = (core, res)" by fastforce
  have heap: "heap_ok (sv_core s) (sharded_map (sv_table s))" using ok by (simp add: server_ok_def)
  note f = heap_free [OF heap b d]
  show ?thesis
    by (rule that [of "s\<lparr>sv_core := core\<rparr>"])
      (use d f ok in \<open>simp_all add: deallocate_step_def server_ok_def contents_def same_session_def\<close>)
qed

section \<open>Storing a value\<close>

text \<open>
  The allocation a handler is about to make for class \<open>c\<close> is sound: the operating system returns a
  region apart from the megaslabs the pool keeps, the pool does not recycle a live slot, and slab
  ids are left.
\<close>

definition alloc_ok :: "Env \<Rightarrow> Server \<Rightarrow> SlabClassType \<Rightarrow> bool" where
  "alloc_ok env s c \<longleftrightarrow>
     (case os_alloc env (sv_calls s) of (now, ptr) \<Rightarrow>
        (case pool_allocate c now ptr (sv_core s) of (core, res) \<Rightarrow>
           fresh_region ptr (fst (sv_core s)) (fst core) \<and>
           (case res of Ok b \<Rightarrow> b \<notin> pool_live (fst (sv_core s)) | Err _ \<Rightarrow> True | Panic _ \<Rightarrow> False)))"

text \<open>The pool refuses the allocation.\<close>

definition refused :: "Env \<Rightarrow> Server \<Rightarrow> SlabClassType \<Rightarrow> bool" where
  "refused env s c \<longleftrightarrow>
     (case os_alloc env (sv_calls s) of (now, ptr) \<Rightarrow>
        (\<exists>e. snd (pool_allocate c now ptr (sv_core s)) = Err e))"

text \<open>A value of \<open>n\<close> bytes can be stored: a class holds it and its allocation is sound.\<close>

definition storable :: "Env \<Rightarrow> Server \<Rightarrow> nat \<Rightarrow> bool" where
  "storable env s n \<longleftrightarrow> MEGASLAB_HEADER_BYTES + n \<le> MEGASLAB_BYTES \<and>
     (case for_size n of None \<Rightarrow> False | Some c \<Rightarrow> alloc_ok env s c)"

lemma for_size_payload: "for_size n = Some c \<Longrightarrow> n \<le> slot_bytes c"
  by (auto simp: for_size_def geometry split: if_splits)

lemma insert_step:
  assumes ok: "server_ok s" and rdy: "insert_ready (shard_of s h) h"
    and b: "b \<in> pool_live (fst (sv_core s))" "b \<notin> blocks (sharded_map (sv_table s))"
    and f: "fits (fst (sv_core s)) b (length val)" and len: "length val < 2 ^ 32"
    and p: "resolve_slot_ptr b (snd (sv_core s)) = Some p"
  obtains s' where
    "on_table (sh_insert_with_ttl b (of_nat (length val)) ex) h (s\<lparr>sv_mem := copy_nonoverlapping val p (sv_mem s)\<rparr>) =
       Some (s', Ok (map_option te_slab_block_id (sharded_map (sv_table s) h)))"
    "server_ok s'" "contents s' = (contents s)(h \<mapsto> \<lparr>cell_value = val, cell_expire = ex, cell_type = VALUE_TYPE_STRING\<rparr>)"
    "same_session s s'" "sv_core s' = sv_core s"
    "sharded_map (sv_table s') = (sharded_map (sv_table s))(h \<mapsto>
       \<lparr>te_slab_block_id = b, te_value_len = of_nat (length val), te_expire_at_secs = ex, te_value_type = VALUE_TYPE_STRING\<rparr>)"
proof -
  let ?e = "\<lparr>te_slab_block_id = b, te_value_len = of_nat (length val), te_expire_at_secs = ex, te_value_type = VALUE_TYPE_STRING\<rparr>"
  have inv: "sharded_inv (sv_table s)" and heap: "heap_ok (sv_core s) (sharded_map (sv_table s))"
    using ok by (simp_all add: server_ok_def)
  obtain t' where t': "with_shard_mut shard_idx (\<lambda>t h. insert_typed t h b (of_nat (length val)) ex VALUE_TYPE_STRING)
      (sv_table s) h = Some (t', Ok (map_option te_slab_block_id (sharded_map (sv_table s) h)))"
    "sharded_inv t'" "sharded_map t' = (sharded_map (sv_table s))(h \<mapsto> ?e)"
    using sh_insert.shards.op_total [OF inv rdy [unfolded shard_of_def], of b "of_nat (length val)" ex VALUE_TYPE_STRING]
    unfolding spec_insert_def by auto
  have "sh_insert_with_ttl b (of_nat (length val)) ex (sv_table s) h =
      Some (t', map_option te_slab_block_id (sharded_map (sv_table s) h))"
    using t'(1) by (auto simp: sh_insert_with_ttl_def insert_with_ttl_def with_shard_mut_def split: option.splits)
  moreover have "heap_ok (sv_core s) ((sharded_map (sv_table s))(h \<mapsto> ?e))"
    "cells (sv_core s) (copy_nonoverlapping val p (sv_mem s)) ((sharded_map (sv_table s))(h \<mapsto> ?e)) =
      (cells (sv_core s) (sv_mem s) (sharded_map (sv_table s)))(h \<mapsto> \<lparr>cell_value = val, cell_expire = ex, cell_type = VALUE_TYPE_STRING\<rparr>)"
    using heap_insert [OF heap b f p len, of ?e] by simp_all
  ultimately show ?thesis
    by (intro that [of "s\<lparr>sv_mem := copy_nonoverlapping val p (sv_mem s), sv_table := t'\<rparr>"])
      (use t' in \<open>simp_all add: on_table_def server_ok_def contents_def same_session_def\<close>)
qed

lemma allocate_outcome:
  assumes ok: "server_ok s" and al: "alloc_ok env s c" and pay: "payload_ok c n"
  obtains (got) s' b p where "allocate_step env c s = Some (s', Ok (Some b))" "server_ok s'" "contents s' = contents s"
      "same_session s s'" "sv_table s' = sv_table s" "b \<in> pool_live (fst (sv_core s'))"
      "b \<notin> blocks (sharded_map (sv_table s'))" "fits (fst (sv_core s')) b n"
      "resolve_slot_ptr b (snd (sv_core s')) = Some p"
    | (none) s' where "allocate_step env c s = Some (s', Ok None)" "server_ok s'" "contents s' = contents s"
      "same_session s s'" "sv_table s' = sv_table s" "refused env s c"
proof -
  have heap: "heap_ok (sv_core s) (sharded_map (sv_table s))" and inv: "sharded_inv (sv_table s)"
    using ok by (simp_all add: server_ok_def)
  obtain now ptr where os: "os_alloc env (sv_calls s) = (now, ptr)" by fastforce
  obtain core res where run: "pool_allocate c now ptr (sv_core s) = (core, res)" by fastforce
  have fresh: "fresh_region ptr (fst (sv_core s)) (fst core)" using al by (simp add: alloc_ok_def os run)
  let ?s1 = "s\<lparr>sv_core := core, sv_calls := sv_calls s + 1\<rparr>"
  show ?thesis
  proof (cases res)
    case (Ok b)
    then have new: "b \<notin> pool_live (fst (sv_core s))" using al by (simp add: alloc_ok_def os run)
    note a = heap_alloc [OF heap run [unfolded Ok] new fresh]
    obtain p where p: "resolve_slot_ptr b (snd core) = Some p"
      using live_slab [OF heap_okD(1) [OF a(1)] a(3)] by metis
    show ?thesis
      by (rule got [of ?s1 b p])
        (use a p pay inv in \<open>simp_all add: allocate_step_def os run Ok server_ok_def contents_def same_session_def\<close>)
  next
    case (Err e)
    note a = heap_alloc_err [OF heap run [unfolded Err] fresh]
    show ?thesis
      by (rule none [of ?s1])
        (use a inv in \<open>simp_all add: allocate_step_def os run Err server_ok_def contents_def same_session_def refused_def\<close>)
  qed (use al in \<open>simp add: alloc_ok_def os run\<close>)
qed

text \<open>After the insertion the block that the key had before is live and unreferenced.\<close>

lemma free_old_step:
  assumes ok: "server_ok s" and before: "heap_ok (sv_core s) m" and upd: "sharded_map (sv_table s) = m(h \<mapsto> e)"
    and new: "te_slab_block_id e \<notin> blocks m"
  obtains s' where "free_old (map_option te_slab_block_id (m h)) s = Some (s', Ok ())" "server_ok s'"
    "contents s' = contents s" "same_session s s'" "sv_table s' = sv_table s"
proof (cases "m h")
  case None
  then show ?thesis using that [of s] ok by (simp add: free_old_def ret_def same_session_def)
next
  case (Some x)
  have "te_slab_block_id x \<noteq> te_slab_block_id e" using new blocksI [of m h x] Some by auto
  then have "te_slab_block_id x \<notin> blocks (sharded_map (sv_table s))"
    unfolding upd by (intro old_block_free [OF before Some]) auto
  with heap_okD(3) [OF before Some] obtain s' where "deallocate_step (te_slab_block_id x) s = Some (s', Ok ())"
    "server_ok s'" "contents s' = contents s" "same_session s s'" "sv_table s' = sv_table s"
    using free_step [OF ok] by metis
  then show ?thesis using that Some by (simp add: free_old_def)
qed

lemma same_session_trans: "same_session s1 s2 \<Longrightarrow> same_session s2 s3 \<Longrightarrow> same_session s1 s3"
  by (simp add: same_session_def)

lemma store_value_step:
  assumes ok: "server_ok s" and room: "storable env s (length val)" and rdy: "insert_ready (shard_of s h) h"
  obtains (stored) s' b where "store_value env m h val ex s = Some (s', Ok (Some b))" "server_ok s'"
      "contents s' = (contents s)(h \<mapsto> \<lparr>cell_value = val, cell_expire = ex, cell_type = VALUE_TYPE_STRING\<rparr>)"
      "same_session s s'" "map_option te_slab_block_id (sharded_map (sv_table s') h) = Some b"
    | (oom) s' where "store_value env m h val ex s = Some (s', Ok None)" "server_ok s'"
      "contents s' = contents s" "same_session (s\<lparr>sv_out := encode_error (sv_out s) (ascii OOM)\<rparr>) s'"
      "\<exists>c. refused env s c"
proof -
  obtain c where c: "for_size (length val) = Some c" and al: "alloc_ok env s c"
    and n: "MEGASLAB_HEADER_BYTES + length val \<le> MEGASLAB_BYTES"
    using room by (auto simp: storable_def split: option.splits)
  have pay: "payload_ok c (length val)" using for_size_payload [OF c] n by (simp add: payload_ok_def)
  have len: "length val < 2 ^ 32" using n by (simp add: geometry)
  show ?thesis using ok al pay
  proof (cases rule: allocate_outcome)
    case (got s1 b p)
    have "insert_ready (shard_of s1 h) h" using rdy got(5) by (simp add: shard_of_def)
    then obtain s2 where s2: "on_table (sh_insert_with_ttl b (of_nat (length val)) ex) h
          (s1\<lparr>sv_mem := copy_nonoverlapping val p (sv_mem s1)\<rparr>) =
        Some (s2, Ok (map_option te_slab_block_id (sharded_map (sv_table s1) h)))" "server_ok s2"
      "contents s2 = (contents s1)(h \<mapsto> \<lparr>cell_value = val, cell_expire = ex, cell_type = VALUE_TYPE_STRING\<rparr>)"
      "same_session s1 s2" "sv_core s2 = sv_core s1"
      "sharded_map (sv_table s2) = (sharded_map (sv_table s1))(h \<mapsto>
       \<lparr>te_slab_block_id = b, te_value_len = of_nat (length val), te_expire_at_secs = ex, te_value_type = VALUE_TYPE_STRING\<rparr>)"
      by (rule insert_step [OF got(2) _ got(6-8) len got(9)])
    have "heap_ok (sv_core s2) (sharded_map (sv_table s1))" using got(2) s2(5) by (simp add: server_ok_def)
    then obtain s3 where s3: "free_old (map_option te_slab_block_id (sharded_map (sv_table s1) h)) s2 = Some (s3, Ok ())"
      "server_ok s3" "contents s3 = contents s2" "same_session s2 s3" "sv_table s3 = sv_table s2"
      by (rule free_old_step [OF s2(2) _ s2(6)]) (use got(7) in simp)
    have "store_value env m h val ex s = Some (s3, Ok (Some b))"
      using got(1,9) s2(1) s3(1) by (simp add: store_value_def c step_simps)
    then show ?thesis
      by (rule stored)
        (use s2 s3 got(3,4) in \<open>auto intro: same_session_trans\<close>)
  next
    case (none s1)
    show ?thesis
      by (rule oom [of "s1\<lparr>sv_out := encode_error (sv_out s1) (ascii OOM)\<rparr>"])
        (use none in \<open>auto simp: store_value_def c step_simps server_ok_def contents_def same_session_def\<close>)
  qed
qed

end
