(* ===== verification/Server_Spec.thy ===== *)
theory Server_Spec
  imports Server_Store
begin

text \<open>
  The string commands as operations on an abstract store (a map from key hashes to cells) that
  answer with a RESP frame, and the proof that \<open>handle_strings\<close> implements them on the slab pool,
  the raw memory and the sharded table. The only other outcome is an out-of-memory error, which
  leaves the store as it was.
\<close>

section \<open>Specification\<close>

type_synonym store = "u64 \<rightharpoonup> Cell"

definition string_cell :: "bytes \<Rightarrow> u32 \<Rightarrow> Cell" where
  "string_cell v ex = \<lparr>cell_value = v, cell_expire = ex, cell_type = VALUE_TYPE_STRING\<rparr>"

definition is_string :: "Cell \<Rightarrow> bool" where
  "is_string c \<longleftrightarrow> cell_type c = VALUE_TYPE_STRING"

definition err :: "string \<Rightarrow> Frame" where
  "err m = Error (ascii m)"

definition spec_put :: "string \<Rightarrow> u64 \<Rightarrow> bytes \<Rightarrow> u32 \<Rightarrow> Frame \<Rightarrow> store \<Rightarrow> store \<times> Frame" where
  "spec_put too_large h val ex done st =
     (if for_size (length val) = None then (st, err too_large) else (st(h \<mapsto> string_cell val ex), done))"

definition spec_get :: "u32 \<Rightarrow> u64 \<Rightarrow> store \<Rightarrow> Frame" where
  "spec_get now h st =
     (case visible_cell now (st h) of
        None \<Rightarrow> Null
      | Some c \<Rightarrow> if is_string c then BulkString (cell_value c) else err WRONGTYPE)"

definition spec_mget1 :: "u32 \<Rightarrow> store \<Rightarrow> u64 \<Rightarrow> Frame" where
  "spec_mget1 now st h =
     (case visible_cell now (st h) of
        None \<Rightarrow> Null | Some c \<Rightarrow> if is_string c then BulkString (cell_value c) else Null)"

definition spec_incr :: "u32 \<Rightarrow> u64 \<Rightarrow> int \<Rightarrow> store \<Rightarrow> store \<times> Frame" where
  "spec_incr now h delta st =
     (case visible_cell now (st h) of
        None \<Rightarrow> spec_put VALUE_TOO_LARGE h (int_text delta) 0 (Integer delta) st
      | Some c \<Rightarrow>
          if \<not> is_string c then (st, err WRONGTYPE)
          else (case parse_i64 (cell_value c) of
                  None \<Rightarrow> (st, err NOT_INTEGER)
                | Some v \<Rightarrow>
                    (case checked_add v delta of
                       None \<Rightarrow> (st, err ''ERR increment or decrement would overflow'')
                     | Some w \<Rightarrow> spec_put VALUE_TOO_LARGE h (int_text w) (cell_expire c) (Integer w) st)))"

definition STRING_TOO_LARGE :: string where
  "STRING_TOO_LARGE = ''ERR string exceeds maximum supported slab size (2 MB)''"

definition spec_append :: "u32 \<Rightarrow> u64 \<Rightarrow> bytes \<Rightarrow> store \<Rightarrow> store \<times> Frame" where
  "spec_append now h val st =
     (case visible_cell now (st h) of
        None \<Rightarrow> spec_put STRING_TOO_LARGE h val 0 (Integer (int (length val))) st
      | Some c \<Rightarrow>
          if \<not> is_string c then (st, err WRONGTYPE)
          else spec_put STRING_TOO_LARGE h (cell_value c @ val) (cell_expire c)
                 (Integer (int (length (cell_value c @ val)))) st)"

definition spec_strlen :: "u32 \<Rightarrow> u64 \<Rightarrow> store \<Rightarrow> Frame" where
  "spec_strlen now h st =
     (case visible_cell now (st h) of
        None \<Rightarrow> Integer 0
      | Some c \<Rightarrow> if is_string c then Integer (int (length (cell_value c))) else err WRONGTYPE)"

fun spec_string :: "(bytes \<Rightarrow> u64) \<Rightarrow> u32 \<Rightarrow> Command \<Rightarrow> store \<Rightarrow> store \<times> Frame" where
  "spec_string hk now (Get key) st = (st, spec_get now (hk key) st)"
| "spec_string hk now (Set key val ttl_ms) st =
     spec_put VALUE_TOO_LARGE (hk key) val (set_expire_at ttl_ms now) (SimpleString (ascii ''OK'')) st"
| "spec_string hk now (MGet keys) st = (st, Array (map (spec_mget1 now st \<circ> hk) keys))"
| "spec_string hk now (Del keys) st =
     (st |` (- set (map hk keys)), Integer (int (card (set (map hk keys) \<inter> dom st))))"
| "spec_string hk now (Exists keys) st =
     (st, Integer (int (length (filter (\<lambda>key. visible_cell now (st (hk key)) \<noteq> None) keys))))"
| "spec_string hk now (Incr key) st = spec_incr now (hk key) 1 st"
| "spec_string hk now (Decr key) st = spec_incr now (hk key) (-1) st"
| "spec_string hk now (IncrBy key delta) st = spec_incr now (hk key) delta st"
| "spec_string hk now (DecrBy key delta) st = spec_incr now (hk key) (neg_i64 delta) st"
| "spec_string hk now (Append key val) st = spec_append now (hk key) val st"
| "spec_string hk now (Strlen key) st = (st, spec_strlen now (hk key) st)"
| "spec_string hk now _ st = (st, Null)"

text \<open>
  The specification is the documented one. In one case the code departs from it: STRLEN has no type guard, so
  for a key that holds a hash it answers the size of the hash's slot. That answer, in that case only.
\<close>

fun unguarded_strlen :: "(bytes \<Rightarrow> u64) \<Rightarrow> u32 \<Rightarrow> Command \<Rightarrow> store \<Rightarrow> int option" where
  "unguarded_strlen hk now (Strlen key) st =
     (case visible_cell now (st (hk key)) of
        None \<Rightarrow> None
      | Some c \<Rightarrow> if is_string c then None else Some (int (length (cell_value c))))"
| "unguarded_strlen hk now _ st = None"

text \<open>The commands the specification covers; MSET writes several keys and may stop between them.\<close>

definition atomic_string :: "Command \<Rightarrow> bool" where
  "atomic_string cmd \<longleftrightarrow> handler_of cmd = Strings \<and> (\<forall>pairs. cmd \<noteq> MSet pairs)"

section \<open>Replies\<close>

definition says :: "Frame \<Rightarrow> Server \<Rightarrow> Server" where
  "says f s = s\<lparr>sv_out := sv_out s @ resp_bytes f\<rparr>"

lemma write_app: "write_usize (a @ b) n = a @ write_usize b n" "write_int (a @ b) k = a @ write_int b k"
  by (simp_all add: write_usize_def write_int_def Let_def)

lemma encode_app:
  "encode_simple_string buf t = buf @ resp_bytes (SimpleString t)"
  "encode_error buf t = buf @ resp_bytes (Error t)"
  "encode_integer buf n = buf @ resp_bytes (Integer n)"
  "encode_bulk_string buf d = buf @ resp_bytes (BulkString d)"
  "encode_null buf = buf @ resp_bytes Null"
  "encode_array_header buf k = buf @ encode_array_header [] k"
  using write_app(2) [of buf "[58]" n] write_app(1) [of buf "[36]" "length d"] write_app(1) [of buf "[42]" k]
  by (simp_all add: encode_simple_string_def encode_error_def encode_integer_def encode_bulk_string_def
      encode_null_def encode_array_header_def)

lemma reply_says [simp]:
  "reply_simple m s = Some (says (SimpleString (ascii m)) s, Ok ())"
  "reply_error m s = Some (says (err m) s, Ok ())"
  "reply_int n s = Some (says (Integer n) s, Ok ())"
  "reply_bulk b s = Some (says (BulkString b) s, Ok ())"
  "reply encode_null s = Some (says Null s, Ok ())"
  by (simp_all add: reply_simple_def reply_error_def reply_int_def reply_bulk_def reply_def says_def err_def
      encode_app del: resp_bytes.simps)

lemma says_simps [simp]:
  "server_ok (says f s) = server_ok s" "contents (says f s) = contents s" "sv_out (says f s) = sv_out s @ resp_bytes f"
  "sv_table (says f s) = sv_table s" "sv_aof (says f s) = sv_aof s" "sv_wheel (says f s) = sv_wheel s"
  "sv_client (says f s) = sv_client s" "sv_core (says f s) = sv_core s" "sv_calls (says f s) = sv_calls s"
  "sv_mem (says f s) = sv_mem s"
  by (simp_all add: says_def server_ok_def contents_def)

lemma andthen_Some [simp]: "m s = Some (s', Ok x) \<Longrightarrow> andthen m f s = f x s'"
  by (simp add: andthen_def)

lemma ret_Some [simp]: "ret x s = Some (s, Ok x)"
  by (simp add: ret_def)

section \<open>Refinement\<close>

text \<open>
  \<open>implements env m s r\<close>: step \<open>m\<close> returns, keeps the store sound, and either does what the
  specification \<open>r\<close> says or, when the pool refuses an allocation, reports that memory is exhausted
  and changes no cell.
\<close>

definition implements :: "Env \<Rightarrow> unit step \<Rightarrow> Server \<Rightarrow> store \<times> Frame \<Rightarrow> bool" where
  "implements env m s r \<longleftrightarrow>
     (\<exists>s' f. m s = Some (s', Ok ()) \<and> server_ok s' \<and> sv_out s' = sv_out s @ resp_bytes f \<and>
        ((contents s', f) = r \<or> contents s' = contents s \<and> f = err OOM \<and> (\<exists>c. refused env s c)))"

lemma implementsI:
  "m s = Some (s', Ok ()) \<Longrightarrow> server_ok s' \<Longrightarrow> sv_out s' = sv_out s @ resp_bytes f \<Longrightarrow>
   (contents s', f) = r \<Longrightarrow> implements env m s r"
  by (auto simp: implements_def)

lemma implements_says:
  assumes "m s = Some (says f s', Ok ())" "server_ok s'" "same_session s s'" "(contents s', f) = r"
  shows "implements env m s r"
  using assms by (auto simp: same_session_def intro!: implementsI)

lemma implements_reply:
  assumes "m s = Some (says f s, Ok ())" "server_ok s" "(contents s, f) = r"
  shows "implements env m s r"
  using assms by (intro implements_says [of m s f s]) (simp_all add: same_session_def)

lemma implements_skip:
  assumes "implements env (f x) s' r" "m s = Some (s', Ok x)" "same_session s s'" "contents s' = contents s"
    "sv_core s' = sv_core s" "sv_calls s' = sv_calls s"
  shows "implements env (andthen m f) s r"
  using assms by (auto simp: implements_def same_session_def refused_def)

definition sound_size :: "nat \<Rightarrow> bool" where
  "sound_size n \<longleftrightarrow> MEGASLAB_HEADER_BYTES + n \<le> MEGASLAB_BYTES \<or> for_size n = None"

lemma store_implements:
  assumes ok: "server_ok s" and al: "\<And>c. alloc_ok env s c" and gap: "insert_ready (shard_of s h) h"
    and size: "sound_size (length val)"
    and k: "\<And>b s'. same_session s s' \<Longrightarrow> map_option te_slab_block_id (sharded_map (sv_table s') h) = Some b \<Longrightarrow>
      \<exists>s2. k b s' = Some (s2, Ok ()) \<and> same_store s' s2 \<and> sv_out s2 = sv_out s' @ resp_bytes done"
  shows "implements env (andthen (store_value env msg h val ex) (\<lambda>stored. case stored of None \<Rightarrow> ret () | Some b \<Rightarrow> k b)) s
    (spec_put msg h val ex done (contents s))"
proof (cases "for_size (length val)")
  case None
  then have "store_value env msg h val ex s = Some (says (err msg) s, Ok None)"
    by (simp add: store_value_def)
  then show ?thesis
    using ok by (intro implements_says [of _ s "err msg" s]) (simp_all add: None spec_put_def same_session_def)
next
  case (Some c)
  then have "storable env s (length val)" using size al by (simp add: storable_def sound_size_def)
  with ok show ?thesis using gap
  proof (cases rule: store_value_step [where m = msg and ex = ex])
    case (stored s' b)
    obtain s2 where s2: "k b s' = Some (s2, Ok ())" "same_store s' s2" "sv_out s2 = sv_out s' @ resp_bytes done"
      using k [OF stored(4,5)] by blast
    show ?thesis
      by (rule implementsI [of _ s s2 "done"])
        (use stored s2 same_storeD [OF s2(2)] Some in \<open>simp_all add: spec_put_def string_cell_def same_session_def\<close>)
  next
    case (oom s')
    then show ?thesis
      by (auto simp: implements_def same_session_def encode_app err_def simp del: resp_bytes.simps intro!: exI [of _ "err OOM"])
  qed
qed

section \<open>Single-key commands\<close>

lemma alloc_ok_cong: "sv_core s' = sv_core s \<Longrightarrow> sv_calls s' = sv_calls s \<Longrightarrow> alloc_ok env s' c = alloc_ok env s c"
  unfolding alloc_ok_def by (simp only:)

text \<open>
  The head of the reading commands: the lookup, then one continuation for a missing key and one
  that is given the cell of the key.
\<close>

lemma fetch_implements:
  assumes ok: "server_ok s" and gap: "gaps (sv_table s)"
    and miss: "\<And>s'. server_ok s' \<Longrightarrow> gaps (sv_table s') \<Longrightarrow> contents s' = contents s \<Longrightarrow>
      sv_core s' = sv_core s \<Longrightarrow> sv_calls s' = sv_calls s \<Longrightarrow>
      visible_cell now (contents s h) = None \<Longrightarrow> implements env (k None) s' r"
    and hit: "\<And>s' c e p. server_ok s' \<Longrightarrow> gaps (sv_table s') \<Longrightarrow> contents s' = contents s \<Longrightarrow>
      sv_core s' = sv_core s \<Longrightarrow> sv_calls s' = sv_calls s \<Longrightarrow>
      visible_cell now (contents s h) = Some c \<Longrightarrow>
      te_value_type e = cell_type c \<Longrightarrow> te_expire_at_secs e = cell_expire c \<Longrightarrow>
      unat (te_value_len e) = length (cell_value c) \<Longrightarrow>
      resolve_step (te_slab_block_id e) s' = Some (s', Ok (Some p)) \<Longrightarrow>
      read_slot p (te_value_len e) s' = Some (s', Ok (cell_value c)) \<Longrightarrow> implements env (k (Some e)) s' r"
  shows "implements env (andthen (on_table (sh_lookup_checked now) h) k) s r"
proof (cases "visible_cell now (contents s h)")
  case None
  then obtain s' where "on_table (sh_lookup_checked now) h s = Some (s', Ok None)"
    "server_ok s'" "contents s' = contents s" "same_session s s'" "sv_core s' = sv_core s" "sv_calls s' = sv_calls s"
    "gaps (sv_table s) \<Longrightarrow> gaps (sv_table s')"
    using miss_step [OF ok gaps_ready(1) [OF gap ok]] by metis
  then show ?thesis using miss None gap by (intro implements_skip [of env k None s']) auto
next
  case (Some c)
  obtain s' e p where s': "on_table (sh_lookup_checked now) h s = Some (s', Ok (Some e))"
    "server_ok s'" "contents s' = contents s" "same_session s s'" "sv_core s' = sv_core s"
    "sv_calls s' = sv_calls s" "gaps (sv_table s) \<Longrightarrow> gaps (sv_table s')"
    "te_value_type e = cell_type c" "te_expire_at_secs e = cell_expire c" "unat (te_value_len e) = length (cell_value c)"
    "resolve_step (te_slab_block_id e) s' = Some (s', Ok (Some p))"
    "read_slot p (te_value_len e) s' = Some (s', Ok (cell_value c))"
    using fetch_step [OF ok gaps_ready(1) [OF gap ok] Some] by metis
  then have "implements env (k (Some e)) s' r" using hit Some gap by blast
  then show ?thesis using s' by (intro implements_skip [of env k "Some e" s']) auto
qed

lemma same_session_refl [simp]: "same_session s s"
  by (simp add: same_session_def)

lemma get_implements:
  assumes "server_ok s" "gaps (sv_table s)"
  shows "implements env (get_cmd env key now) s (contents s, spec_get now (hash_key env key) (contents s))"
  unfolding get_cmd_def
  by (rule fetch_implements [OF assms])
    (auto simp: spec_get_def is_string_def andthen_def intro!: implements_reply)

lemma strlen_implements:
  assumes "server_ok s" "gaps (sv_table s)"
  shows "implements env (strlen_cmd env key now) s
    (case unguarded_strlen (hash_key env) now (Strlen key) (contents s) of
       Some n \<Rightarrow> (contents s, Integer n)
     | None \<Rightarrow> (contents s, spec_strlen now (hash_key env key) (contents s)))"
  unfolding strlen_cmd_def
  by (rule fetch_implements [OF assms])
    (auto simp: spec_strlen_def uint_nat intro!: implements_reply)

text \<open>
  The values of the specified store are at most 2 MB less the header, so none of them runs over
  the end of its megaslab.
\<close>

definition small_store :: "store \<Rightarrow> bool" where
  "small_store st \<longleftrightarrow> (\<forall>c \<in> ran st. MEGASLAB_HEADER_BYTES + length (cell_value c) \<le> MEGASLAB_BYTES)"

lemma small_put: "small_store (fst (spec_put msg h val ex d st)) \<Longrightarrow> sound_size (length val)"
  by (auto simp: small_store_def spec_put_def sound_size_def string_cell_def ran_def split: if_splits)

lemma put_implements:
  assumes "server_ok s" "gaps (sv_table s)" "\<And>c. alloc_ok env s c"
    and "sound_size (length val)"
    and "\<And>b s'. \<exists>s2. k b s' = Some (s2, Ok ()) \<and> same_store s' s2 \<and> sv_out s2 = sv_out s' @ resp_bytes f"
  shows "implements env (andthen (store_value env msg h val ex) (\<lambda>stored. case stored of None \<Rightarrow> ret () | Some b \<Rightarrow> k b)) s
    (spec_put msg h val ex f (contents s))"
  by (rule store_implements [OF assms(1,3) gaps_ready(2) [OF assms(2,1)] assms(4,5)])

lemma set_sound:
  assumes "server_ok s" "gaps (sv_table s)" "\<And>c. alloc_ok env s c" "sound_size (length val)"
  shows "implements env (set_cmd env key val ttl_ms now) s
    (spec_string (hash_key env) now (Set key val ttl_ms) (contents s))"
  using assms unfolding set_cmd_def Let_def spec_string.simps
  by (intro put_implements)
    (auto simp: schedule_step_def emit_aof_def andthen_def same_store_def says_def simp del: resp_bytes.simps)

lemma set_implements:
  assumes "server_ok s" "gaps (sv_table s)" "\<And>c. alloc_ok env s c"
    and "small_store (fst (spec_string (hash_key env) now (Set key val ttl_ms) (contents s)))"
  shows "implements env (set_cmd env key val ttl_ms now) s
    (spec_string (hash_key env) now (Set key val ttl_ms) (contents s))"
  using set_sound [OF assms(1-3)] small_put assms(4) unfolding spec_string.simps by blast

lemma incr_store_implements:
  assumes "server_ok s" "gaps (sv_table s)" "\<And>c. alloc_ok env s c"
    and "small_store (fst (spec_put VALUE_TOO_LARGE h (int_text n) ex (Integer n) (contents s)))"
  shows "implements env (incr_store env h n ex) s (spec_put VALUE_TOO_LARGE h (int_text n) ex (Integer n) (contents s))"
  unfolding incr_store_def
  by (intro put_implements [OF assms(1-3) small_put [OF assms(4)]]) (auto simp: same_store_def)

lemma append_store_implements:
  assumes "server_ok s" "gaps (sv_table s)" "\<And>c. alloc_ok env s c"
    and "small_store (fst (spec_put STRING_TOO_LARGE h v ex (Integer (int (length v))) (contents s)))"
  shows "implements env (append_store env h v ex) s
    (spec_put STRING_TOO_LARGE h v ex (Integer (int (length v))) (contents s))"
  unfolding append_store_def STRING_TOO_LARGE_def [symmetric]
  by (intro put_implements [OF assms(1-3) small_put [OF assms(4)]]) (auto simp: same_store_def)

lemma incr_implements:
  assumes "server_ok s" "gaps (sv_table s)" "\<And>c. alloc_ok env s c"
    and "small_store (fst (spec_incr now (hash_key env key) delta (contents s)))"
  shows "implements env (execute_incr_by env key delta now) s (spec_incr now (hash_key env key) delta (contents s))"
  unfolding execute_incr_by_def Let_def
proof (rule fetch_implements [OF assms(1,2)], goal_cases)
  case (1 s')
  then show ?case
    using assms(3,4) incr_store_implements [of s' env "hash_key env key" delta 0]
    by (simp add: spec_incr_def alloc_ok_cong [of s' s])
next
  case (2 s' c e p)
  note step = 2
  show ?case
  proof (cases "is_string c")
    case False
    then show ?thesis using step by (auto simp: spec_incr_def is_string_def intro!: implements_reply)
  next
    case str: True
    show ?thesis
    proof (cases "Option.bind (parse_i64 (cell_value c)) (\<lambda>v. checked_add v delta)")
      case None
      then show ?thesis
        using step str
        by (cases "parse_i64 (cell_value c)")
          (auto simp: spec_incr_def is_string_def andthen_def intro!: implements_reply)
    next
      case (Some w)
      then obtain v where v: "parse_i64 (cell_value c) = Some v" "checked_add v delta = Some w"
        by (auto simp: bind_eq_Some_conv)
      have "implements env (incr_store env (hash_key env key) w (cell_expire c)) s'
          (spec_incr now (hash_key env key) delta (contents s))"
        using step str v assms(3,4) incr_store_implements [of s' env "hash_key env key" w "cell_expire c"]
        by (simp add: spec_incr_def alloc_ok_cong [of s' s])
      then show ?thesis
        using step str v by (simp add: implements_def is_string_def andthen_def)
    qed
  qed
qed

lemma append_implements:
  assumes "server_ok s" "gaps (sv_table s)" "\<And>c. alloc_ok env s c"
    and "small_store (fst (spec_append now (hash_key env key) val (contents s)))"
  shows "implements env (append_cmd env key val now) s (spec_append now (hash_key env key) val (contents s))"
  unfolding append_cmd_def Let_def
proof (rule fetch_implements [OF assms(1,2)], goal_cases)
  case (1 s')
  then show ?case
    using assms(3,4) append_store_implements [of s' env "hash_key env key" val 0]
    by (simp add: spec_append_def alloc_ok_cong [of s' s])
next
  case (2 s' c e p)
  note step = 2
  show ?case
  proof (cases "is_string c")
    case False
    then show ?thesis using step by (auto simp: spec_append_def is_string_def intro!: implements_reply)
  next
    case True
    then have "implements env (append_store env (hash_key env key) (cell_value c @ val) (cell_expire c)) s'
        (spec_append now (hash_key env key) val (contents s))"
      using step assms(3,4) append_store_implements [of s' env "hash_key env key" "cell_value c @ val" "cell_expire c"]
      by (simp add: spec_append_def alloc_ok_cong [of s' s])
    then show ?thesis
      using step True by (simp add: implements_def is_string_def andthen_def)
  qed
qed

section \<open>Commands over several keys\<close>

text \<open>A step that only reads: it answers with \<open>fs\<close> and returns \<open>x\<close>.\<close>

definition reads :: "'a step \<Rightarrow> Server \<Rightarrow> Frame list \<Rightarrow> 'a \<Rightarrow> bool" where
  "reads m s fs x \<longleftrightarrow>
     (\<exists>s'. m s = Some (s', Ok x) \<and> server_ok s' \<and> gaps (sv_table s') \<and> contents s' = contents s \<and>
        sv_out s' = sv_out s @ concat (map resp_bytes fs))"

lemma reads_for_each:
  assumes "server_ok s" "gaps (sv_table s)"
    and one: "\<And>key acc s. server_ok s \<Longrightarrow> gaps (sv_table s) \<Longrightarrow>
      reads (f key acc) s (out key (contents s)) (upd key (contents s) acc)"
  shows "reads (for_each keys f acc) s (concat (map (\<lambda>k. out k (contents s)) keys))
    (fold (\<lambda>k. upd k (contents s)) keys acc)"
  using assms(1,2)
proof (induction keys arbitrary: acc s)
  case Nil
  then show ?case by (simp add: reads_def)
next
  case (Cons k keys)
  obtain s1 where s1: "f k acc s = Some (s1, Ok (upd k (contents s) acc))" "server_ok s1" "gaps (sv_table s1)"
    "contents s1 = contents s" "sv_out s1 = sv_out s @ concat (map resp_bytes (out k (contents s)))"
    using one [OF Cons.prems, of k acc] by (auto simp: reads_def)
  from Cons.IH [OF s1(2,3), of "upd k (contents s) acc"] show ?case
    unfolding reads_def for_each.simps andthen_Some [of "f k acc", OF s1(1)] by (auto simp: s1(4,5))
qed

lemma mget_one_reads:
  assumes ok: "server_ok s" "gaps (sv_table s)"
  shows "reads (mget_one env now key ()) s [spec_mget1 now (contents s) (hash_key env key)] ()"
proof (cases "visible_cell now (contents s (hash_key env key))")
  case None
  obtain s' where "on_table (sh_lookup_checked now) (hash_key env key) s = Some (s', Ok None)"
    "server_ok s'" "contents s' = contents s" "same_session s s'" "gaps (sv_table s')"
    using miss_step [OF ok(1) gaps_ready(1) [OF ok(2,1)] None] ok(2) by metis
  then show ?thesis
    using None by (simp add: reads_def mget_one_def spec_mget1_def andthen_def same_session_def)
next
  case (Some c)
  obtain s' e p where s': "on_table (sh_lookup_checked now) (hash_key env key) s = Some (s', Ok (Some e))"
    "server_ok s'" "contents s' = contents s" "same_session s s'" "gaps (sv_table s')" "te_value_type e = cell_type c"
    "resolve_step (te_slab_block_id e) s' = Some (s', Ok (Some p))"
    "read_slot p (te_value_len e) s' = Some (s', Ok (cell_value c))"
    using fetch_step [OF ok(1) gaps_ready(1) [OF ok(2,1)] Some] ok(2) by metis
  then show ?thesis
    using Some by (simp add: reads_def mget_one_def spec_mget1_def is_string_def andthen_def same_session_def)
qed

lemma exists_one_reads:
  assumes ok: "server_ok s" "gaps (sv_table s)"
  shows "reads (andthen (on_table (sh_lookup_checked now) h) (\<lambda>found. ret (if found \<noteq> None then n + 1 else n))) s []
    (if visible_cell now (contents s h) \<noteq> None then n + 1 else n :: int)"
proof -
  obtain s' where "on_table (sh_lookup_checked now) h s = Some (s', Ok (visible now (sharded_map (sv_table s) h)))"
    "server_ok s'" "contents s' = contents s" "same_session s s'" "gaps (sv_table s')"
    using lookup_step [OF ok(1) gaps_ready(1) [OF ok(2,1)], of now] ok(2) by metis
  then show ?thesis by (simp add: reads_def same_session_def visible_contents)
qed

lemma fold_count: "fold (\<lambda>k n. if P k then n + 1 else n) ks a = a + int (length (filter P ks))"
  by (induction ks arbitrary: a) simp_all

lemma mget_implements:
  assumes ok: "server_ok s" "gaps (sv_table s)"
  shows "implements env (mget_cmd env keys now) s (spec_string (hash_key env) now (MGet keys) (contents s))"
proof -
  define s1 where "s1 = s\<lparr>sv_out := encode_array_header (sv_out s) (length keys)\<rparr>"
  have s1: "server_ok s1" "gaps (sv_table s1)" "contents s1 = contents s"
    using ok by (simp_all add: s1_def server_ok_def contents_def)
  have "reads (for_each keys (mget_one env now) ()) s1
      (concat (map (\<lambda>k. [spec_mget1 now (contents s1) (hash_key env k)]) keys))
      (fold (\<lambda>k u. ()) keys ())"
    by (rule reads_for_each [OF s1(1,2)]) (simp add: mget_one_reads)
  then obtain s' where s': "for_each keys (mget_one env now) () s1 = Some (s', Ok ())" "server_ok s'"
    "contents s' = contents s"
    "sv_out s' = sv_out s1 @ concat (map (resp_bytes \<circ> (spec_mget1 now (contents s) \<circ> hash_key env)) keys)"
    unfolding reads_def s1(3) by (auto simp: comp_def)
  have "mget_cmd env keys now s = Some (s', Ok ())"
    using s'(1) by (simp add: mget_cmd_def andthen_def reply_def s1_def)
  then show ?thesis
    by (rule implementsI [where f = "Array (map (spec_mget1 now (contents s) \<circ> hash_key env) keys)"])
      (use s' in \<open>simp_all add: s1_def encode_app(6) [of "sv_out s"]\<close>)
qed

lemma exists_implements:
  assumes ok: "server_ok s" "gaps (sv_table s)"
  shows "implements env (exists_cmd env keys now) s (spec_string (hash_key env) now (Exists keys) (contents s))"
proof -
  let ?P = "\<lambda>key. visible_cell now (contents s (hash_key env key)) \<noteq> None"
  have "reads (for_each keys (\<lambda>key n. andthen (on_table (sh_lookup_checked now) (hash_key env key))
        (\<lambda>found. ret (if found \<noteq> None then n + 1 else n))) 0) s (concat (map (\<lambda>k. []) keys))
      (fold (\<lambda>k n. if ?P k then n + 1 else n) keys (0 :: int))"
    by (rule reads_for_each [OF ok]) (rule exists_one_reads)
  then obtain s' where "for_each keys (\<lambda>key n. andthen (on_table (sh_lookup_checked now) (hash_key env key))
        (\<lambda>found. ret (if found \<noteq> None then n + 1 else n))) 0 s = Some (s', Ok (int (length (filter ?P keys))))"
      "server_ok s'" "contents s' = contents s" "sv_out s' = sv_out s"
    unfolding fold_count by (auto simp: reads_def)
  then show ?thesis
    unfolding exists_cmd_def
    by (intro implementsI [where f = "Integer (int (length (filter ?P keys)))" and s' = "says (Integer (int (length (filter ?P keys)))) s'"])
      simp_all
qed

text \<open>
  Removing one key: the entry goes, its slot is released, and the log receives one frame, all or
  none of it.
\<close>

lemma remove_key_step:
  assumes ok: "server_ok s" "gaps (sv_table s)"
  obtains s' where "remove_key env now key s = Some (s', Ok (hash_key env key \<in> dom (contents s)))" "server_ok s'"
    "gaps (sv_table s')" "contents s' = (contents s)(hash_key env key := None)" "sv_out s' = sv_out s"
    "sv_wheel s' = sv_wheel s"
    "sv_aof s' = (if hash_key env key \<in> dom (contents s)
       then map_option (\<lambda>fs. fs @ [encode_frame (crc32 env) AofDel key [] (unat now)]) (sv_aof s) else sv_aof s)"
proof -
  let ?h = "hash_key env key"
  obtain s1 where s1: "on_table sh_remove ?h s = Some (s1, Ok (sharded_map (sv_table s) ?h))"
    "server_ok s1" "contents s1 = (contents s)(?h := None)" "same_session s s1" "sv_core s1 = sv_core s"
    "sharded_map (sv_table s1) = (sharded_map (sv_table s))(?h := None)" "gaps (sv_table s1)"
    using remove_step [OF ok(1) gaps_ready(1) [OF ok(2,1)]] ok(2) by metis
  have heap: "heap_ok (sv_core s) (sharded_map (sv_table s))" using ok(1) by (simp add: server_ok_def)
  show ?thesis
  proof (cases "sharded_map (sv_table s) ?h")
    case None
    then have "?h \<notin> dom (contents s)" by (simp add: domIff)
    then show ?thesis
      using that [of s1] s1 None by (simp add: remove_key_def andthen_def same_session_def)
  next
    case (Some e)
    then have dom: "?h \<in> dom (contents s)" by (metis contents_None domIff option.distinct(1))
    have "te_slab_block_id e \<in> pool_live (fst (sv_core s1))" "te_slab_block_id e \<notin> blocks (sharded_map (sv_table s1))"
      using heap_okD(3) [OF heap Some] old_block_free [OF heap Some, of None] by (simp_all add: s1(5,6))
    then obtain s2 where s2: "deallocate_step (te_slab_block_id e) s1 = Some (s2, Ok ())" "server_ok s2"
      "contents s2 = contents s1" "same_session s1 s2" "sv_table s2 = sv_table s1"
      using free_step [OF s1(2)] by metis
    obtain s3 where s3: "emit_aof env AofDel key [] now s2 = Some (s3, Ok ())" "same_store s2 s3" "sv_out s3 = sv_out s2"
      "sv_wheel s3 = sv_wheel s2"
      "sv_aof s3 = map_option (\<lambda>fs. fs @ [encode_frame (crc32 env) AofDel key [] (unat now)]) (sv_aof s2)"
      by (simp add: emit_aof_def same_store_def)
    show ?thesis
      by (rule that [of s3])
        (use s1 s2 s3 same_storeD [OF s3(2)] Some dom in
          \<open>simp_all add: remove_key_def andthen_def same_session_def same_store_def\<close>)
  qed
qed

lemma del_loop:
  assumes "server_ok s" "gaps (sv_table s)"
  shows "\<exists>s'. for_each keys (\<lambda>key n. andthen (remove_key env now key) (\<lambda>r. ret (if r then n + 1 else n))) acc s =
      Some (s', Ok (acc + int (card (set (map (hash_key env) keys) \<inter> dom (contents s))))) \<and>
    server_ok s' \<and> contents s' = contents s |` (- set (map (hash_key env) keys)) \<and> sv_out s' = sv_out s"
  using assms
proof (induction keys arbitrary: s acc)
  case Nil
  then show ?case by simp
next
  case (Cons key keys)
  let ?h = "hash_key env key" and ?H = "set (map (hash_key env) keys)"
  obtain s1 where s1: "remove_key env now key s = Some (s1, Ok (?h \<in> dom (contents s)))" "server_ok s1"
    "gaps (sv_table s1)" "contents s1 = (contents s)(?h := None)" "sv_out s1 = sv_out s"
    by (rule remove_key_step [OF Cons.prems])
  have count: "card (insert ?h ?H \<inter> dom (contents s)) =
      (if ?h \<in> dom (contents s) then 1 else 0) + card (?H \<inter> dom (contents s1))"
  proof -
    have "insert ?h ?H \<inter> dom (contents s) =
        (if ?h \<in> dom (contents s) then insert ?h (?H \<inter> dom (contents s1)) else ?H \<inter> dom (contents s1))"
      by (auto simp: s1(4))
    moreover have "?h \<notin> ?H \<inter> dom (contents s1)" by (simp add: s1(4))
    ultimately show ?thesis by simp
  qed
  have "contents s |` (- insert ?h ?H) = contents s1 |` (- ?H)"
    by (auto simp: s1(4) restrict_map_def)
  moreover have "andthen (remove_key env now key) (\<lambda>r. ret (if r then acc + 1 else acc)) s =
      Some (s1, Ok (if ?h \<in> dom (contents s) then acc + 1 else acc))"
    using s1(1) by simp
  ultimately show ?case
    using Cons.IH [OF s1(2,3), of "if ?h \<in> dom (contents s) then acc + 1 else acc"] s1(5) count
    unfolding for_each.simps by (cases "?h \<in> dom (contents s)") (simp_all add: add.assoc del: ret_Some)
qed

lemma del_implements:
  assumes ok: "server_ok s" "gaps (sv_table s)"
  shows "implements env (del_cmd env keys now) s (spec_string (hash_key env) now (Del keys) (contents s))"
proof -
  let ?n = "int (card (set (map (hash_key env) keys) \<inter> dom (contents s)))"
  obtain s' where "for_each keys (\<lambda>key n. andthen (remove_key env now key) (\<lambda>r. ret (if r then n + 1 else n))) 0 s =
      Some (s', Ok ?n)" "server_ok s'" "contents s' = contents s |` (- set (map (hash_key env) keys))"
      "sv_out s' = sv_out s"
    using del_loop [OF ok, of keys env now 0] by auto
  then show ?thesis
    unfolding del_cmd_def
    by (intro implementsI [where f = "Integer ?n" and s' = "says (Integer ?n) s'"]) simp_all
qed

text \<open>
  Each atomic string command does what the specification says, or reports exhausted memory; STRLEN of a
  hash apart.
\<close>

lemma strings_implement:
  assumes cmd: "atomic_string cmd" and ok: "server_ok s" "gaps (sv_table s)" "\<And>c. alloc_ok env s c"
    and small: "small_store (fst (spec_string (hash_key env) now cmd (contents s)))"
  shows "\<exists>m. handle_strings env now cmd = andthen m (\<lambda>_. ret True) \<and>
    implements env m s
      (case unguarded_strlen (hash_key env) now cmd (contents s) of
         Some n \<Rightarrow> (contents s, Integer n)
       | None \<Rightarrow> spec_string (hash_key env) now cmd (contents s))"
proof -
  note reads = get_implements [OF ok(1,2)] mget_implements [OF ok(1,2)] exists_implements [OF ok(1,2)] del_implements [OF ok(1,2)]
  note writes = set_implements [OF ok] incr_implements [OF ok] append_implements [OF ok]
  show ?thesis
  proof (cases "\<exists>key. cmd = Strlen key")
    case True
    then obtain key where key: "cmd = Strlen key" by blast
    have sp: "spec_string (hash_key env) now cmd (contents s) = (contents s, spec_strlen now (hash_key env key) (contents s))"
      by (simp add: key)
    have "handle_strings env now cmd = andthen (strlen_cmd env key now) (\<lambda>_. ret True)" by (simp add: key handle_strings_def)
    then show ?thesis unfolding sp using strlen_implements [OF ok(1,2)] key by blast
  next
    case False
    then show ?thesis
      using cmd small reads writes unfolding handle_strings_def
      by (cases cmd) (simp_all add: atomic_string_def del: spec_string.simps(2-5), metis+)
  qed
qed

end
