(* ===== verification/Connection_Buffer.thy ===== *)
theory Connection_Buffer
  imports Server_Dispatch
begin

text \<open>
  The buffers of a connection (\<open>struct Connection\<close> of
  \<open>crates/kachedb-net/src/connection/mod.rs\<close>): received bytes between two cursors, compaction and
  growth, the loop that executes every complete command, and the staged output. The abstract view
  is the list of received bytes not yet consumed, and replies do not depend on how the network
  splits the input.
\<close>

section \<open>Buffers\<close>

record Connection =
  read_buf :: bytes
  read_pos :: nat
  read_len :: nat
  write_pos :: nat

definition READ_BUF_SIZE :: nat where "READ_BUF_SIZE = 64 * 1024"

definition Connection_new :: Connection where
  "Connection_new = \<lparr>read_buf = replicate READ_BUF_SIZE 0, read_pos = 0, read_len = 0, write_pos = 0\<rparr>"

text \<open>\<open>&self.read_buf[self.read_pos..self.read_len]\<close>\<close>

definition pending :: "Connection \<Rightarrow> bytes" where
  "pending c = take (read_len c - read_pos c) (drop (read_pos c) (read_buf c))"

definition buf_ok :: "Connection \<Rightarrow> bool" where [inv_defs]:
  "buf_ok c \<longleftrightarrow> read_pos c \<le> read_len c \<and> read_len c \<le> length (read_buf c) \<and> read_buf c \<noteq> []"

text \<open>\<open>self.read_buf.copy_within(self.read_pos..self.read_len, 0)\<close> and the cursor updates.\<close>

definition compact :: "Connection \<Rightarrow> Connection" where
  "compact c = c\<lparr>read_buf := pending c @ drop (length (pending c)) (read_buf c),
     read_len := read_len c - read_pos c, read_pos := 0\<rparr>"

section \<open>Receiving\<close>

text \<open>What one call of \<open>Read::read\<close> on a stream gives; \<open>Data []\<close> is the end of the stream.\<close>

datatype read_result = Data bytes | WouldBlock | Interrupted | IoError

definition make_room :: "Connection \<Rightarrow> Connection" where
  "make_room c =
     (let c1 = (if read_pos c > 0
                then (if read_pos c = read_len c then c\<lparr>read_pos := 0, read_len := 0\<rparr> else compact c)
                else c)
      in if read_len c1 = length (read_buf c1)
         then c1\<lparr>read_buf := read_buf c1 @ replicate (length (read_buf c1)) 0\<rparr> else c1)"

definition read_from :: "(nat \<Rightarrow> read_result) \<Rightarrow> Connection \<Rightarrow> Connection \<times> (nat, NetError) outcome" where
  "read_from stream c =
     (let c1 = make_room c
      in case stream (length (read_buf c1) - read_len c1) of
           Data data \<Rightarrow>
             if data = [] then (c1, Err ConnectionClosed)
             else (c1\<lparr>read_buf := write_at (read_len c1) data (read_buf c1),
                      read_len := read_len c1 + length data\<rparr>, Ok (length data))
         | WouldBlock \<Rightarrow> (c1, Ok 0)
         | Interrupted \<Rightarrow> (c1, Ok 0)
         | IoError \<Rightarrow> (c1, Err Io))"

definition feed_bytes :: "bytes \<Rightarrow> Connection \<Rightarrow> Connection" where
  "feed_bytes data c =
     (let c1 = (if read_pos c > 0
                then (if read_pos c = read_len c then c\<lparr>read_pos := 0, read_len := 0\<rparr>
                      else if read_pos c \<ge> length (read_buf c) div 2 then compact c else c)
                else c);
          needed = read_len c1 + length data;
          c2 = (if needed > length (read_buf c1)
                then c1\<lparr>read_buf := read_buf c1 @ replicate (next_power_of_two needed - length (read_buf c1)) 0\<rparr>
                else c1)
      in c2\<lparr>read_buf := write_at (read_len c2) data (read_buf c2), read_len := needed\<rparr>)"

section \<open>Processing\<close>

lemma parse_command_consumes:
  assumes "parse_command src = Ok (Some (c, n))"
  shows "0 < n \<and> n \<le> length src"
  using settlesD(3,4) [OF parse_command_settles [of src] assms] settlesD(4) [OF parse_command_settles assms, of 0]
  by (simp add: parse_command_def split: if_splits)

lemma length_pending [simp]: "buf_ok c \<Longrightarrow> length (pending c) = read_len c - read_pos c"
  by (auto simp: pending_def buf_ok_def min_def)

lemma length_pending_le: "length (pending c) \<le> read_len c - read_pos c"
  by (simp add: pending_def)

text \<open>Normal exit of the loop resets the cursors of an empty buffer.\<close>

definition reset_empty :: "Connection \<Rightarrow> Connection" where
  "reset_empty c = (if read_pos c = read_len c then c\<lparr>read_pos := 0, read_len := 0\<rparr> else c)"

function process_incoming ::
    "Handlers \<Rightarrow> Env \<Rightarrow> u32 \<Rightarrow> Connection \<Rightarrow> Server \<Rightarrow> ((Connection \<times> Server) \<times> (bool, NetError) outcome) option" where
  "process_incoming hs env now c s =
     (if pending c = [] then Some ((reset_empty c, s), Ok True)
      else (case parse_command (pending c) of
              Err e \<Rightarrow> Some ((c, s), Err (Resp e))
            | Panic m \<Rightarrow> Some ((c, s), Panic m)
            | Ok None \<Rightarrow> Some ((reset_empty c, s), Ok True)
            | Ok (Some (cmd, consumed)) \<Rightarrow>
                (let c1 = c\<lparr>read_pos := read_pos c + consumed\<rparr>
                 in case execute_command hs env now cmd s of
                      None \<Rightarrow> None
                    | Some (s1, Ok keep_alive) \<Rightarrow>
                        if keep_alive then process_incoming hs env now c1 s1 else Some ((c1, s1), Ok False)
                    | Some (s1, Err e) \<Rightarrow> Some ((c1, s1), Err e)
                    | Some (s1, Panic m) \<Rightarrow> Some ((c1, s1), Panic m))))"
  by pat_completeness auto
termination
proof (relation "measure (\<lambda>(hs, env, now, c, s). read_len c - read_pos c)", goal_cases)
  case (2 hs env now c s x r cmd consumed c1 s1)
  then have "0 < consumed" "consumed \<le> length (pending c)" using parse_command_consumes by metis+
  then show ?case using 2 length_pending_le [of c] by simp
qed simp

declare process_incoming.simps [simp del]

section \<open>Sending\<close>

text \<open>\<open>accepted n\<close>: one call of \<open>Write::write\<close> took \<open>n\<close> of the bytes offered.\<close>

definition flush_to_stream :: "nat option \<Rightarrow> Connection \<Rightarrow> bytes \<Rightarrow> (Connection \<times> bytes) \<times> (nat, NetError) outcome" where
  "flush_to_stream accepted c write_buf =
     (if drop (write_pos c) write_buf = [] then ((c, write_buf), Ok 0)
      else (case accepted of
              None \<Rightarrow> ((c, write_buf), Err Io)
            | Some n \<Rightarrow>
                if write_pos c + n \<ge> length write_buf then ((c\<lparr>write_pos := 0\<rparr>, []), Ok n)
                else ((c\<lparr>write_pos := write_pos c + n\<rparr>, write_buf), Ok n)))"

definition has_pending_writes :: "Connection \<Rightarrow> bytes \<Rightarrow> bool" where
  "has_pending_writes c write_buf \<longleftrightarrow> write_pos c < length write_buf"

definition has_unprocessed_input :: "Connection \<Rightarrow> bool" where
  "has_unprocessed_input c \<longleftrightarrow> read_pos c < read_len c"

definition take_write_buf :: "Connection \<Rightarrow> bytes \<Rightarrow> (Connection \<times> bytes) \<times> bytes" where
  "take_write_buf c write_buf = ((c\<lparr>write_pos := 0\<rparr>, []), drop (write_pos c) write_buf)"

definition drain_write_buf_into :: "bytes \<Rightarrow> Connection \<Rightarrow> bytes \<Rightarrow> (Connection \<times> bytes) \<times> bytes" where
  "drain_write_buf_into dest c write_buf = ((c\<lparr>write_pos := 0\<rparr>, []), drop (write_pos c) write_buf)"

section \<open>Buffer lemmas\<close>

lemma pending_compact: "buf_ok c \<Longrightarrow> pending (compact c) = pending c" "buf_ok c \<Longrightarrow> buf_ok (compact c)"
proof -
  assume ok: "buf_ok c"
  then have "length (pending c) = read_len c - read_pos c" by simp
  then show "pending (compact c) = pending c" using ok by (simp add: compact_def pending_def [of "c\<lparr>read_buf := x, read_len := y, read_pos := z\<rparr>" for x y z])
  show "buf_ok (compact c)" using ok length_pending [OF ok] by (cases "pending c") (auto simp: compact_def buf_ok_def)
qed

lemma pending_append:
  assumes "buf_ok c" "read_len c + length data \<le> length (read_buf c)"
  shows "pending (c\<lparr>read_buf := write_at (read_len c) data (read_buf c), read_len := read_len c + length data\<rparr>) =
      pending c @ data"
    "buf_ok (c\<lparr>read_buf := write_at (read_len c) data (read_buf c), read_len := read_len c + length data\<rparr>)"
proof -
  have "drop (read_pos c) (take (read_len c) (read_buf c)) = pending c" by (simp add: pending_def drop_take)
  moreover have "length (take (read_len c) (read_buf c)) = read_len c" using assms by (simp add: buf_ok_def)
  ultimately show "pending (c\<lparr>read_buf := write_at (read_len c) data (read_buf c), read_len := read_len c + length data\<rparr>) =
      pending c @ data"
    using assms by (simp add: pending_def [of "c\<lparr>read_buf := x, read_len := y\<rparr>" for x y] write_at_def buf_ok_def)
  show "buf_ok (c\<lparr>read_buf := write_at (read_len c) data (read_buf c), read_len := read_len c + length data\<rparr>)"
    using assms by (auto simp: buf_ok_def write_at_def)
qed

lemma pending_extend:
  assumes "buf_ok c"
  shows "pending (c\<lparr>read_buf := read_buf c @ z\<rparr>) = pending c" "buf_ok (c\<lparr>read_buf := read_buf c @ z\<rparr>)"
  using assms by (simp_all add: pending_def buf_ok_def)

lemma pending_reset:
  assumes "buf_ok c" "read_pos c = read_len c"
  shows "pending (c\<lparr>read_pos := 0, read_len := 0\<rparr>) = pending c" "buf_ok (c\<lparr>read_pos := 0, read_len := 0\<rparr>)"
  using assms by (simp_all add: pending_def buf_ok_def)

text \<open>After \<open>make_room\<close> the stream is never offered an empty buffer.\<close>

lemma make_room_ok:
  assumes ok: "buf_ok c"
  shows "buf_ok (make_room c)" "pending (make_room c) = pending c"
    "read_len (make_room c) < length (read_buf (make_room c))"
proof -
  define c1 where "c1 = (if read_pos c > 0
      then (if read_pos c = read_len c then c\<lparr>read_pos := 0, read_len := 0\<rparr> else compact c) else c)"
  have c1: "buf_ok c1" "pending c1 = pending c"
    using ok pending_compact [OF ok] pending_reset [OF ok] by (auto simp: c1_def)
  have mr: "make_room c = (if read_len c1 = length (read_buf c1)
      then c1\<lparr>read_buf := read_buf c1 @ replicate (length (read_buf c1)) 0\<rparr> else c1)"
    by (simp add: make_room_def c1_def Let_def)
  show "buf_ok (make_room c)" "pending (make_room c) = pending c"
    using c1 pending_extend [OF c1(1)] by (simp_all add: mr)
  show "read_len (make_room c) < length (read_buf (make_room c))"
    using c1(1) by (auto simp: mr buf_ok_def)
qed

lemma feed_bytes_ok:
  assumes ok: "buf_ok c"
  shows "buf_ok (feed_bytes data c)" "pending (feed_bytes data c) = pending c @ data"
proof -
  define c1 where "c1 = (if read_pos c > 0
      then (if read_pos c = read_len c then c\<lparr>read_pos := 0, read_len := 0\<rparr>
            else if read_pos c \<ge> length (read_buf c) div 2 then compact c else c) else c)"
  define c2 where "c2 = (if read_len c1 + length data > length (read_buf c1)
      then c1\<lparr>read_buf := read_buf c1 @ replicate (next_power_of_two (read_len c1 + length data) - length (read_buf c1)) 0\<rparr>
      else c1)"
  have c1: "buf_ok c1" "pending c1 = pending c"
    using ok pending_compact [OF ok] pending_reset [OF ok] by (auto simp: c1_def)
  have c2: "buf_ok c2" "pending c2 = pending c" "read_len c2 = read_len c1"
    using c1 pending_extend [OF c1(1)] by (simp_all add: c2_def)
  have room: "read_len c2 + length data \<le> length (read_buf c2)"
    using next_power_of_two_ge [of "read_len c1 + length data"] by (auto simp: c2_def)
  have "feed_bytes data c = c2\<lparr>read_buf := write_at (read_len c2) data (read_buf c2), read_len := read_len c2 + length data\<rparr>"
    by (simp add: feed_bytes_def c1_def [symmetric] c2_def [symmetric] c2(3) Let_def)
  then show "buf_ok (feed_bytes data c)" "pending (feed_bytes data c) = pending c @ data"
    using pending_append [OF c2(1) room] c2(2) by simp_all
qed

lemma reset_empty_ok:
  assumes "buf_ok c"
  shows "buf_ok (reset_empty c)" "pending (reset_empty c) = pending c"
  using pending_reset [OF assms] assms by (auto simp: reset_empty_def)

lemma pending_consume:
  assumes "buf_ok c" "n \<le> length (pending c)"
  shows "buf_ok (c\<lparr>read_pos := read_pos c + n\<rparr>)" "pending (c\<lparr>read_pos := read_pos c + n\<rparr>) = drop n (pending c)"
  using assms by (auto simp: buf_ok_def pending_def drop_take add.commute)

section \<open>The loop on the received bytes\<close>

text \<open>\<open>run_pending\<close> is the loop without buffers: it consumes a list of bytes.\<close>

function run_pending ::
    "Handlers \<Rightarrow> Env \<Rightarrow> u32 \<Rightarrow> bytes \<Rightarrow> Server \<Rightarrow> ((bytes \<times> Server) \<times> (bool, NetError) outcome) option" where
  "run_pending hs env now src s =
     (if src = [] then Some ((src, s), Ok True)
      else (case parse_command src of
              Err e \<Rightarrow> Some ((src, s), Err (Resp e))
            | Panic m \<Rightarrow> Some ((src, s), Panic m)
            | Ok None \<Rightarrow> Some ((src, s), Ok True)
            | Ok (Some (cmd, consumed)) \<Rightarrow>
                (case execute_command hs env now cmd s of
                   None \<Rightarrow> None
                 | Some (s1, Ok keep_alive) \<Rightarrow>
                     if keep_alive then run_pending hs env now (drop consumed src) s1
                     else Some ((drop consumed src, s1), Ok False)
                 | Some (s1, Err e) \<Rightarrow> Some ((drop consumed src, s1), Err e)
                 | Some (s1, Panic m) \<Rightarrow> Some ((drop consumed src, s1), Panic m))))"
  by pat_completeness auto
termination
  by (relation "measure (\<lambda>(hs, env, now, src, s). length src)") (auto dest: parse_command_consumes)

declare run_pending.simps [simp del]

definition view :: "((Connection \<times> Server) \<times> 'r) option \<Rightarrow> ((bytes \<times> Server) \<times> 'r) option" where
  "view r = map_option (\<lambda>((c, s), x). ((pending c, s), x)) r"

lemma process_incoming_view:
  assumes "buf_ok c"
  shows "view (process_incoming hs env now c s) = run_pending hs env now (pending c) s \<and>
    (\<forall>c' s' r. process_incoming hs env now c s = Some ((c', s'), r) \<longrightarrow> buf_ok c')"
  using assms
proof (induction hs env now c s rule: process_incoming.induct)
  case (1 hs env now c s)
  note R = reset_empty_ok [OF "1.prems"]
  show ?case
  proof (cases "\<exists>cmd n. pending c \<noteq> [] \<and> parse_command (pending c) = Ok (Some (cmd, n))")
    case False
    then show ?thesis
      using R "1.prems"
      by (auto simp: process_incoming.simps [of hs env now c] run_pending.simps [of hs env now "pending c"] view_def
          split: outcome.split option.split)
  next
    case True
    then obtain cmd n where p: "pending c \<noteq> []" "parse_command (pending c) = Ok (Some (cmd, n))" by blast
    note C = pending_consume [OF "1.prems" conjunct2 [OF parse_command_consumes [OF p(2)]]]
    have IH: "execute_command hs env now cmd s = Some (s1, Ok True) \<Longrightarrow>
        view (process_incoming hs env now (c\<lparr>read_pos := read_pos c + n\<rparr>) s1) =
          run_pending hs env now (drop n (pending c)) s1 \<and>
        (\<forall>c' s' r. process_incoming hs env now (c\<lparr>read_pos := read_pos c + n\<rparr>) s1 = Some ((c', s'), r) \<longrightarrow> buf_ok c')" for s1
      using "1.IH" [OF p(1,2) refl refl refl _ refl refl _ C(1)] C(2) by simp
    show ?thesis
    proof (cases "execute_command hs env now cmd s")
      case None
      then show ?thesis
        by (simp add: process_incoming.simps [of hs env now c] run_pending.simps [of hs env now "pending c"] view_def p)
    next
      case (Some y)
      obtain s1 r where y: "y = (s1, r)" by fastforce
      show ?thesis
        using IH [of s1] C Some
        by (cases r) (auto simp: process_incoming.simps [of hs env now c] run_pending.simps [of hs env now "pending c"] view_def p y Let_def)
    qed
  qed
qed

text \<open>Bytes that arrive later do not change what the earlier ones did.\<close>

lemma run_pending_append:
  assumes "run_pending hs env now a s = Some ((rest, s1), r)"
  shows "run_pending hs env now (a @ b) s =
    (if r = Ok True then run_pending hs env now (rest @ b) s1 else Some ((rest @ b, s1), r))"
  using assms
proof (induction hs env now a s rule: run_pending.induct)
  case (1 hs env now a s)
  show ?case
  proof (cases "a \<noteq> [] \<and> parse_command a \<noteq> Ok None")
    case False
    then have "rest = a" "s1 = s" "r = Ok True"
      using "1.prems" by (auto simp: run_pending.simps [of hs env now a] split: if_splits)
    then show ?thesis by simp
  next
    case True
    then have more: "parse_command (a @ b) = parse_command a" using settlesD(1) [OF parse_command_settles] by blast
    note unf = run_pending.simps [of hs env now a] run_pending.simps [of hs env now "a @ b"] more
    show ?thesis
    proof (cases "\<exists>cmd n s2. parse_command a = Ok (Some (cmd, n)) \<and> execute_command hs env now cmd s = Some (s2, Ok True)")
      case True
      then obtain cmd n s2 where p: "a \<noteq> []" "parse_command a = Ok (Some (cmd, n))"
        "execute_command hs env now cmd s = Some (s2, Ok True)" using \<open>a \<noteq> [] \<and> _\<close> by blast
      have "n \<le> length a" using parse_command_consumes [OF p(2)] by simp
      moreover have "run_pending hs env now (drop n a) s2 = Some ((rest, s1), r)"
        using "1.prems" p by (simp add: unf(1))
      ultimately show ?thesis using "1.IH" [OF p(1,2) refl refl p(3) refl refl] p by (simp add: unf)
    next
      case False
      then show ?thesis
        using True "1.prems" parse_command_consumes [of a] by (auto simp: unf split: outcome.splits option.splits bool.splits)
    qed
  qed
qed

lemma run_pending_prefix_None:
  assumes "run_pending hs env now a s = None"
  shows "run_pending hs env now (a @ b) s = None"
  using assms
proof (induction hs env now a s rule: run_pending.induct)
  case (1 hs env now a s)
  from "1.prems" obtain cmd n where p: "a \<noteq> []" "parse_command a = Ok (Some (cmd, n))"
    by (auto simp: run_pending.simps [of hs env now a] split: if_splits outcome.splits option.splits)
  then have more: "parse_command (a @ b) = Ok (Some (cmd, n))" using settlesD(1) [OF parse_command_settles, of a b] by simp
  have "n \<le> length a" using parse_command_consumes [OF p(2)] by simp
  then show ?case
    using "1.prems" "1.IH" [OF p refl refl] p more
    by (auto simp: run_pending.simps [of hs env now a] run_pending.simps [of hs env now "a @ b"]
        split: option.splits outcome.splits prod.splits if_splits)
qed

text \<open>The connection's life: each arrival is appended and processed while the session lasts.\<close>

fun serve ::
    "Handlers \<Rightarrow> Env \<Rightarrow> u32 \<Rightarrow> bytes list \<Rightarrow> Connection \<Rightarrow> Server \<Rightarrow> ((Connection \<times> Server) \<times> (bool, NetError) outcome) option" where
  "serve hs env now [] c s = Some ((c, s), Ok True)"
| "serve hs env now (d # ds) c s =
     (case process_incoming hs env now (feed_bytes d c) s of
        None \<Rightarrow> None
      | Some ((c1, s1), Ok True) \<Rightarrow> serve hs env now ds c1 s1
      | r \<Rightarrow> r)"

definition verdict :: "(('c \<times> Server) \<times> 'r) option \<Rightarrow> (Server \<times> 'r) option" where
  "verdict r = map_option (\<lambda>((c, s), x). (s, x)) r"

lemma verdict_view: "verdict (view r) = verdict r"
  by (cases r) (auto simp: verdict_def view_def)

lemma serve_run:
  assumes "buf_ok c"
  shows "verdict (serve hs env now (d # ds) c s) = verdict (run_pending hs env now (pending c @ concat (d # ds)) s)"
  using assms
proof (induction ds arbitrary: c d s)
  case Nil
  note F = feed_bytes_ok [OF Nil.prems, of d]
  have "serve hs env now [d] c s = process_incoming hs env now (feed_bytes d c) s"
    by (simp split: option.split outcome.split bool.split prod.split)
  then show ?case
    using process_incoming_view [OF F(1), of hs env now s] by (metis F(2) concat.simps append_Nil2 verdict_view)
next
  case (Cons d2 ds)
  note F = feed_bytes_ok [OF Cons.prems, of d]
  have P: "view (process_incoming hs env now (feed_bytes d c) s) = run_pending hs env now (pending c @ d) s"
    "\<And>c' s' r. process_incoming hs env now (feed_bytes d c) s = Some ((c', s'), r) \<Longrightarrow> buf_ok c'"
    using process_incoming_view [OF F(1), of hs env now s] F(2) by auto
  show ?case
  proof (cases "process_incoming hs env now (feed_bytes d c) s")
    case None
    then have "run_pending hs env now (pending c @ d) s = None" using P(1) by (simp add: view_def)
    then have "run_pending hs env now (pending c @ d @ concat (d2 # ds)) s = None"
      using run_pending_prefix_None [of hs env now "pending c @ d" s "concat (d2 # ds)"] by simp
    then show ?thesis using None by (simp add: verdict_def)
  next
    case (Some y)
    obtain c1 s1 r where y: "y = ((c1, s1), r)" by (metis prod.collapse)
    have run: "run_pending hs env now (pending c @ d) s = Some ((pending c1, s1), r)"
      using P(1) Some y by (simp add: view_def)
    note A = run_pending_append [OF run, of "concat (d2 # ds)"]
    show ?thesis
    proof (cases "r = Ok True")
      case True
      have "serve hs env now (d # d2 # ds) c s = serve hs env now (d2 # ds) c1 s1"
        using Some y True by simp
      then show ?thesis using Cons.IH [OF P(2), of c1 s1 r d2 s1] Some y A True by simp
    next
      case False
      then have "serve hs env now (d # d2 # ds) c s = Some ((c1, s1), r)"
        using Some y by (auto split: outcome.split bool.split)
      then show ?thesis using A False by (simp add: verdict_def)
    qed
  qed
qed

end
