(* ===== verification/Server_Effects.thy ===== *)
theory Server_Effects
  imports Server_Correct
begin

text \<open>
  Expiry commands, flushing, and the append-only log: their effect on the cells, on the live slots
  and on the frames handed to the log writer.
\<close>

section \<open>Expiry steps\<close>

lemma present_ready: "contents s h \<noteq> None \<Longrightarrow> table_ready (shard_of s h) h"
  by (simp add: table_ready_def shard_of_def shards_map_def)

text \<open>A table operation that keeps a cell or changes its expiry only.\<close>

definition retimed :: "u32 \<Rightarrow> u32 \<Rightarrow> u64 \<Rightarrow> (u64 \<rightharpoonup> Cell) \<Rightarrow> (u64 \<rightharpoonup> Cell)" where
  "retimed ex now h st =
     (case visible_cell now (st h) of None \<Rightarrow> st | Some c \<Rightarrow> st(h \<mapsto> c\<lparr>cell_expire := ex\<rparr>))"

lemma retime_table:
  assumes ok: "server_ok s" and inv: "sharded_inv t'"
    and map: "sharded_map t' = (sharded_map (sv_table s))(h := x)"
    and x: "x = (case visible now (sharded_map (sv_table s) h) of
      None \<Rightarrow> sharded_map (sv_table s) h | Some e \<Rightarrow> Some (e\<lparr>te_expire_at_secs := ex\<rparr>))"
  shows "server_ok (s\<lparr>sv_table := t'\<rparr>)" "contents (s\<lparr>sv_table := t'\<rparr>) = retimed ex now h (contents s)"
proof -
  let ?m = "sharded_map (sv_table s)"
  have heap: "heap_ok (sv_core s) ?m" using ok by (simp add: server_ok_def)
  have "server_ok (s\<lparr>sv_table := t'\<rparr>) \<and> contents (s\<lparr>sv_table := t'\<rparr>) = retimed ex now h (contents s)"
  proof (cases "visible now (?m h)")
    case None
    then have "sharded_map t' = ?m" using map x by simp
    then show ?thesis
      using heap inv visible_contents [of now s h] None
      by (simp add: server_ok_def contents_def retimed_def)
  next
    case (Some e)
    have m: "?m h = Some e" using visible_SomeD [OF Some] .
    have vc: "visible_cell now (contents s h) = Some (cell_of (sv_core s) (sv_mem s) e)"
      using visible_contents [of now s h] Some by simp
    show ?thesis
      using heap_retime [where m = ?m and ex = ex, OF heap m] inv map x Some vc
      by (simp add: server_ok_def contents_def retimed_def)
  qed
  then show "server_ok (s\<lparr>sv_table := t'\<rparr>)" "contents (s\<lparr>sv_table := t'\<rparr>) = retimed ex now h (contents s)"
    by simp_all
qed

lemma update_ttl_step:
  assumes ok: "server_ok s" and rdy: "table_ready (shard_of s h) h"
  obtains s' where "on_table (sh_update_ttl ex now) h s = Some (s', Ok (visible_cell now (contents s h) \<noteq> None))"
    "server_ok s'" "same_session s s'" "contents s' = retimed ex now h (contents s)"
proof -
  have inv: "sharded_inv (sv_table s)" using ok by (simp add: server_ok_def)
  let ?m = "sharded_map (sv_table s)"
  obtain t' where t': "with_shard_mut shard_idx (\<lambda>t h. update_ttl t h ex now) (sv_table s) h =
      Some (t', snd (spec_update_ttl ex now (?m h)))" "sharded_inv t'"
    "sharded_map t' = ?m(h := fst (spec_update_ttl ex now (?m h)))"
    using sh_update_ttl.shards.op_total [OF inv rdy [unfolded shard_of_def], of ex now] by metis
  have "on_table (sh_update_ttl ex now) h s = Some (s\<lparr>sv_table := t'\<rparr>, Ok (visible_cell now (contents s h) \<noteq> None))"
    using t'(1) by (auto simp: on_table_def sh_update_ttl_def spec_update_ttl_def visible_contents split: option.split)
  moreover have "fst (spec_update_ttl ex now (?m h)) =
      (case visible now (?m h) of None \<Rightarrow> ?m h | Some e \<Rightarrow> Some (e\<lparr>te_expire_at_secs := ex\<rparr>))"
    by (simp add: spec_update_ttl_def split: option.split)
  moreover note retime_table [OF ok t'(2,3), where now = now and ex = ex]
  ultimately show ?thesis
    by (intro that [of "s\<lparr>sv_table := t'\<rparr>"])
      (simp_all add: same_session_def)
qed

section \<open>Setting a deadline\<close>

lemma expire_at_step:
  assumes ok: "server_ok s" and c: "visible_cell now (contents s (hash_key env key)) = Some c"
  shows "\<exists>s'. expire_at env key ex now s = Some (s', Ok ()) \<and> server_ok s' \<and>
    contents s' = (contents s)(hash_key env key \<mapsto> c\<lparr>cell_expire := ex\<rparr>) \<and>
    sv_out s' = sv_out s @ resp_bytes (Integer 1) \<and>
    sv_aof s' = map_option (\<lambda>fs. fs @ [encode_frame (crc32 env) AofExpire key (write_usize [] (unat ex)) (unat now)]) (sv_aof s)"
proof -
  let ?h = "hash_key env key"
  have here: "table_ready (shard_of s ?h) ?h" by (rule present_ready) (metis c option.distinct(1) visible_cell.simps(1))
  obtain s1 where u: "on_table (sh_update_ttl ex now) ?h s = Some (s1, Ok (visible_cell now (contents s ?h) \<noteq> None))"
    "server_ok s1" "same_session s s1" "contents s1 = retimed ex now ?h (contents s)"
    by (rule update_ttl_step [OF ok here])
  have s1: "on_table (sh_update_ttl ex now) ?h s = Some (s1, Ok True)" "server_ok s1"
    "same_session s s1" "contents s1 = (contents s)(?h \<mapsto> c\<lparr>cell_expire := ex\<rparr>)"
    using u c by (simp_all add: retimed_def)
  let ?f = "encode_frame (crc32 env) AofExpire key (write_usize [] (unat ex)) (unat now)"
  define s2 where "s2 = s1\<lparr>sv_aof := map_option (\<lambda>fs. fs @ [?f]) (sv_aof s1)\<rparr>"
  have s2: "server_ok s2" "contents s2 = contents s1" "sv_out s2 = sv_out s1"
    using s1 by (simp_all add: s2_def server_ok_def contents_def)
  have rdy: "table_ready (shard_of s2 ?h) ?h" by (rule present_ready) (simp add: s2(2) s1(4))
  obtain s3 where s3: "on_table (sh_lookup_checked now) ?h s2 = Some (s3, Ok (visible now (sharded_map (sv_table s2) ?h)))"
    "server_ok s3" "contents s3 = contents s2" "same_session s2 s3"
    using lookup_step [OF s2(1) rdy] by metis
  have emit: "emit_aof env AofExpire key (write_usize [] (unat ex)) now s1 = Some (s2, Ok ())"
    by (simp add: emit_aof_def s2_def)
  define s4 where "s4 = (case visible now (sharded_map (sv_table s2) ?h) of None \<Rightarrow> s3
    | Some e \<Rightarrow> s3\<lparr>sv_wheel := map_option (schedule ?h (te_slab_block_id e) ex) (sv_wheel s3)\<rparr>)"
  have s4: "server_ok s4" "contents s4 = contents s3" "sv_out s4 = sv_out s3" "sv_aof s4 = sv_aof s3"
    using s3(2) by (simp_all add: s4_def server_ok_def contents_def split: option.split)
  have run: "expire_at env key ex now s = Some (says (Integer 1) s4, Ok ())"
    using s1(1) emit s3(1) by (simp add: expire_at_def Let_def andthen_def schedule_step_def s4_def split: option.split)
  show ?thesis
    by (rule exI [of _ "says (Integer 1) s4"])
      (use run s1 s2 s3 s4 in \<open>simp add: s2_def same_session_def\<close>)
qed

text \<open>The deadline of EXPIRE: the low 32 bits of the argument, added to the clock with saturation.\<close>

lemma expire_deadline:
  assumes "0 < seconds" "seconds < 2 ^ 32"
  shows "uint (saturating_add now (of_int seconds)) = min (uint now + seconds) (2 ^ 32 - 1)"
proof -
  have s: "uint (of_int seconds :: u32) = seconds" using assms by (simp add: uint_word_of_int take_bit_int_eq_self)
  then have u: "unat (of_int seconds :: u32) = nat seconds" by (metis unat_eq_nat_uint)
  show ?thesis
  proof (cases "unat now + unat (of_int seconds :: u32) < 2 ^ 32")
    case True
    then have "int (unat now) + int (nat seconds) < 2 ^ 32"
      unfolding u by (metis of_nat_add of_nat_less_iff of_nat_numeral of_nat_power)
    then have "uint now + seconds < 2 ^ 32" using assms(1) unfolding uint_nat by linarith
    moreover from this have "uint (now + of_int seconds) = uint now + seconds" by (simp add: uint_plus_if' s)
    ultimately show ?thesis using True by (simp add: saturating_add_def)
  next
    case False
    then have "2 ^ 32 \<le> int (unat now) + int (nat seconds)"
      unfolding u by (metis not_less of_nat_add of_nat_le_iff of_nat_numeral of_nat_power)
    then have "2 ^ 32 \<le> uint now + seconds" using assms(1) unfolding uint_nat by linarith
    then show ?thesis using False by (simp add: saturating_add_def unsigned_minus_1_eq_mask mask_eq_exp_minus_1)
  qed
qed

text \<open>A server that holds one key.\<close>

lemma stored_value:
  obtains s where "server_ok s" "contents s = [1 \<mapsto> string_cell (ascii ''value'') 0]"
proof -
  let ?s = "fresh_server None" and ?v = "ascii ''value''"
  have sp: "spec_string (hash_key example_env) 7 (Set (ascii ''k'') ?v None) (contents ?s) =
      ([1 \<mapsto> string_cell ?v 0], SimpleString (ascii ''OK''))"
    by (simp add: fresh_server_ok(3) spec_put_def for_size_def geometry set_expire_at_def example_env_def ascii_def)
  have "sound_size (length ?v)" by (simp add: sound_size_def geometry ascii_def)
  then show ?thesis
    using set_sound [of ?s example_env ?v "ascii ''k''" None 7, OF fresh_server_ok(1,2) fresh_alloc_ok] that
    unfolding sp implements_def by (auto simp: fresh_not_refused)
qed

text \<open>EXPIRE on a visible key with 0 < seconds < 2^32 sets its deadline to the current second plus
the argument, at most \<open>u32::MAX\<close>; it keeps value, type and every other cell, answers 1 and logs one
EXPIRE frame that carries the deadline in decimal.\<close>

theorem expire_sets_deadline:
  assumes ok: "server_ok s" and now: "0 < now" and secs: "0 < seconds" "seconds < 2 ^ 32"
    and c: "visible_cell now (contents s (hash_key env key)) = Some c"
  shows "\<exists>s' ex. expire_cmd env key seconds now s = Some (s', Ok ()) \<and> server_ok s' \<and>
    uint ex = min (uint now + seconds) (2 ^ 32 - 1) \<and>
    contents s' = (contents s)(hash_key env key \<mapsto> c\<lparr>cell_expire := ex\<rparr>) \<and>
    sv_out s' = sv_out s @ resp_bytes (Integer 1) \<and>
    sv_aof s' = map_option (\<lambda>fs. fs @ [encode_frame (crc32 env) AofExpire key (write_usize [] (unat ex)) (unat now)]) (sv_aof s)"
proof -
  let ?ex = "saturating_add now (of_int seconds)"
  have "expire_cmd env key seconds now = expire_at env key ?ex now" using now secs by (simp add: expire_cmd_def)
  with expire_at_step [OF ok c, of ?ex] expire_deadline [OF secs, of now] show ?thesis by metis
qed

theorem expire_sets_deadline_witness:
  "\<exists>s s'. expire_cmd example_env (ascii ''k'') 60 100 s = Some (s', Ok ()) \<and>
     contents s' 1 = Some (string_cell (ascii ''value'') 160)"
proof -
  obtain s where s: "server_ok s" "contents s = [1 \<mapsto> string_cell (ascii ''value'') 0]" by (rule stored_value)
  have "visible_cell 100 (contents s (hash_key example_env (ascii ''k''))) = Some (string_cell (ascii ''value'') 0)"
    by (simp add: s(2) example_env_def ascii_def cell_expired_def string_cell_def)
  from expire_sets_deadline [OF s(1) _ _ _ this, of 60] obtain s' ex where
    "expire_cmd example_env (ascii ''k'') 60 100 s = Some (s', Ok ())" "uint (ex :: u32) = 160"
    "contents s' (hash_key example_env (ascii ''k'')) = Some (string_cell (ascii ''value'') ex)"
    by (auto simp: string_cell_def)
  moreover from this have "ex = 160" by (metis of_int_numeral word_of_int_uint)
  moreover have "hash_key example_env (ascii ''k'') = 1" by (simp add: example_env_def ascii_def)
  ultimately show ?thesis by auto
qed

text \<open>EXPIRE with a multiple of 2^32 seconds: the cast to \<open>u32\<close> leaves zero, so the deadline is the
current second. The command answers 1 and the key is gone from that moment on.\<close>

theorem expire_wraps_to_now:
  assumes ok: "server_ok s" and now: "0 < now" and secs: "0 < seconds" "seconds mod 2 ^ 32 = 0"
    and c: "visible_cell now (contents s (hash_key env key)) = Some c"
  shows "\<exists>s'. expire_cmd env key seconds now s = Some (s', Ok ()) \<and>
    sv_out s' = sv_out s @ resp_bytes (Integer 1) \<and> visible_cell now (contents s' (hash_key env key)) = None"
proof -
  have "uint (of_int seconds :: u32) = 0" using secs(2) by (simp add: uint_word_of_int take_bit_eq_mod)
  then have "(of_int seconds :: u32) = 0" by (simp add: uint_0_iff)
  then have "saturating_add now (of_int seconds) = now" using unsigned_less [of now, where ?'a = nat] by (simp add: saturating_add_def)
  with expire_at_step [OF ok c, of now] now secs(1) show ?thesis
    by (fastforce simp: expire_cmd_def cell_expired_def)
qed

theorem expire_wraps_to_now_witness:
  "\<exists>s s'. expire_cmd example_env (ascii ''k'') 4294967296 100 s = Some (s', Ok ()) \<and>
     visible_cell 100 (contents s 1) \<noteq> None \<and> visible_cell 100 (contents s' 1) = None"
proof -
  obtain s where s: "server_ok s" "contents s = [1 \<mapsto> string_cell (ascii ''value'') 0]" by (rule stored_value)
  have h: "hash_key example_env (ascii ''k'') = 1" by (simp add: example_env_def ascii_def)
  have v: "visible_cell 100 (contents s 1) = Some (string_cell (ascii ''value'') 0)"
    by (simp add: s(2) cell_expired_def string_cell_def)
  show ?thesis
    using expire_wraps_to_now [OF s(1), of 100 4294967296 example_env "ascii ''k''"] v unfolding h by force
qed

section \<open>Flushing\<close>

lemma length_live_entries: "table_inv t \<Longrightarrow> length (live_entries t) = table_count t"
  using live_count_slots [of "ctrl t" "entries t"] live_pairs_enumerate [of "ctrl t" "entries t" 0]
  by (auto simp: table_inv_def live_entries_def slots_inv_def)

lemma clear_blocks_distinct:
  assumes inv: "sharded_inv t" and heap: "heap_ok core (sharded_map t)"
  shows "distinct (snd (sh_clear t))"
proof (rule card_distinct)
  have t: "length t = NUM_SHARDS" "\<And>i. i < NUM_SHARDS \<Longrightarrow> table_inv (t ! i)" using inv by (auto simp: shards_inv_def)
  have "length (snd (sh_clear t)) = sum_list (map table_count t)"
    using t by (auto simp: sh_clear_def length_concat comp_def length_live_entries in_set_conv_nth intro!: arg_cong [where f = sum_list])
  also have "\<dots> = card (dom (sharded_map t))" using sh_len_card [OF inv] by (simp add: sh_len_def)
  also have "\<dots> = card (blocks (sharded_map t))"
  proof -
    have "blocks (sharded_map t) = (\<lambda>h. te_slab_block_id (the (sharded_map t h))) ` dom (sharded_map t)"
      by (force simp: blocks_def ran_def)
    moreover have "inj_on (\<lambda>h. te_slab_block_id (the (sharded_map t h))) (dom (sharded_map t))"
      using heap_okD(5) [OF heap] by (auto simp: inj_on_def)
    ultimately show ?thesis by (simp add: card_image)
  qed
  finally show "card (set (snd (sh_clear t))) = length (snd (sh_clear t))"
    using sh_clear_spec(3) [OF inv] by (simp add: blocks_def)
qed

lemma free_all:
  assumes "server_ok s" "sharded_map (sv_table s) = Map.empty" "set bs \<subseteq> pool_live (fst (sv_core s))" "distinct bs"
  shows "\<exists>s'. for_each bs (\<lambda>b u. deallocate_step b) () s = Some (s', Ok ()) \<and> server_ok s' \<and> same_session s s' \<and>
    sv_table s' = sv_table s \<and> pool_live (fst (sv_core s')) = pool_live (fst (sv_core s)) - set bs"
  using assms
proof (induction bs arbitrary: s)
  case Nil
  then show ?case by simp
next
  case (Cons b bs)
  have b: "b \<in> pool_live (fst (sv_core s))" "b \<notin> blocks (sharded_map (sv_table s))"
    using Cons.prems(2,3) by (simp_all add: blocks_def)
  obtain s1 where s1: "deallocate_step b s = Some (s1, Ok ())" "server_ok s1" "same_session s s1"
    "sv_table s1 = sv_table s" "pool_live (fst (sv_core s1)) = pool_live (fst (sv_core s)) - {b}"
    using free_step [OF Cons.prems(1) b] by metis
  have "set bs \<subseteq> pool_live (fst (sv_core s1))" using Cons.prems(3,4) by (auto simp: s1(5))
  with Cons.IH [of s1] Cons.prems(2,4) s1 obtain s' where "for_each bs (\<lambda>b u. deallocate_step b) () s1 = Some (s', Ok ())"
    "server_ok s'" "same_session s1 s'" "sv_table s' = sv_table s1"
    "pool_live (fst (sv_core s')) = pool_live (fst (sv_core s1)) - set bs" by auto
  then show ?case using s1 by (auto simp: same_session_def)
qed

text \<open>FLUSHDB and FLUSHALL empty the store and release exactly the slots its entries owned, each
once; every other live slot stays, the answer is OK, and nothing is written to the log.\<close>

theorem flush_releases_store:
  assumes ok: "server_ok s" and cmd: "cmd \<in> {FlushDb, FlushAll}"
  shows "\<exists>s'. handle_admin info env now cmd s = Some (s', Ok True) \<and> server_ok s' \<and> contents s' = Map.empty \<and>
    pool_live (fst (sv_core s')) = pool_live (fst (sv_core s)) - te_slab_block_id ` ran (sharded_map (sv_table s)) \<and>
    sv_out s' = sv_out s @ resp_bytes (SimpleString (ascii ''OK'')) \<and> sv_aof s' = sv_aof s"
proof -
  have inv: "sharded_inv (sv_table s)" and heap: "heap_ok (sv_core s) (sharded_map (sv_table s))"
    using ok by (simp_all add: server_ok_def)
  note C = sh_clear_spec [OF inv]
  obtain t bs where tb: "sh_clear (sv_table s) = (t, bs)" by fastforce
  let ?s = "s\<lparr>sv_table := t\<rparr>"
  have m: "sharded_map t = Map.empty" and "sharded_inv t" using C tb by simp_all
  then have ok1: "server_ok ?s" using heap by (simp add: server_ok_def heap_ok_def)
  have bs: "set bs = blocks (sharded_map (sv_table s))" using C(3) tb by (simp add: blocks_def)
  moreover have "blocks (sharded_map (sv_table s)) \<subseteq> pool_live (fst (sv_core s))"
    using heap_okD(3) [OF heap] by (auto simp: blocks_def ran_def)
  moreover have "distinct bs" using clear_blocks_distinct [OF inv heap] tb by simp
  ultimately obtain s' where s': "for_each bs (\<lambda>b u. deallocate_step b) () ?s = Some (s', Ok ())" "server_ok s'"
    "same_session ?s s'" "sv_table s' = t" "pool_live (fst (sv_core s')) = pool_live (fst (sv_core s)) - set bs"
    using free_all [OF ok1, of bs] m by auto
  have "flush_cmd s = Some (says (SimpleString (ascii ''OK'')) s', Ok ())"
    using s'(1) by (simp add: flush_cmd_def tb)
  then have run: "handle_admin info env now cmd s = Some (says (SimpleString (ascii ''OK'')) s', Ok True)"
    using cmd by (auto simp: handle_admin_def)
  have "contents s' = Map.empty" using s'(4) m by (simp add: contents_def cells_def fun_eq_iff)
  then show ?thesis
    using run s' bs by (intro exI [of _ "says (SimpleString (ascii ''OK'')) s'"]) (simp add: same_session_def blocks_def)
qed

theorem flush_releases_store_witness:
  "\<exists>s'. handle_admin (\<lambda>_ _. []) example_env 7 FlushAll (fresh_server None) = Some (s', Ok True) \<and> contents s' = Map.empty"
  using flush_releases_store [OF fresh_server_ok(1) [of None], of FlushAll "\<lambda>_ _. []" example_env 7] by auto

section \<open>The append-only log\<close>

text \<open>Steps that leave the log as it is.\<close>

definition unlogged :: "'a step \<Rightarrow> bool" where
  "unlogged m \<longleftrightarrow> (\<forall>s s' r. m s = Some (s', r) \<longrightarrow> sv_aof s' = sv_aof s)"

named_theorems unlogged_intro

lemma unlogged_andthen [unlogged_intro]:
  assumes "unlogged m" "\<And>x. unlogged (f x)"
  shows "unlogged (andthen m f)"
  unfolding unlogged_def
proof (intro allI impI)
  fix s s' r
  assume run: "andthen m f s = Some (s', r)"
  then obtain s1 x where s1: "m s = Some (s1, x)" by (auto simp: andthen_def split: option.splits)
  have "sv_aof s1 = sv_aof s" using assms(1) s1 by (auto simp: unlogged_def)
  moreover have "sv_aof s3 = sv_aof s2" if "f y s2 = Some (s3, z)" for y s2 s3 z
    using assms(2) [of y] that by (auto simp: unlogged_def)
  ultimately show "sv_aof s' = sv_aof s"
    using run s1 by (cases x) (auto simp: andthen_def)
qed

lemma unlogged_basic [unlogged_intro]:
  "unlogged (ret x)" "unlogged (reply f)" "unlogged (reply_error m)" "unlogged (reply_simple m)" "unlogged (reply_int n)"
  "unlogged (reply_bulk d)" "unlogged (resolve_step b)" "unlogged (read_slot p k)" "unlogged (write_slot p bs)"
  "unlogged (schedule_step h b ex)" "unlogged (deallocate_step b)"
  by (simp_all add: unlogged_def ret_def reply_def reply_error_def reply_simple_def reply_int_def reply_bulk_def
      resolve_step_def read_slot_def write_slot_def schedule_step_def deallocate_step_def del: reply_says split: prod.split)

lemma unlogged_on_table [unlogged_intro]: "unlogged (on_table op h)"
  by (auto simp: unlogged_def on_table_def split: option.splits)

lemma unlogged_allocate [unlogged_intro]: "unlogged (allocate_step env c)"
  by (auto simp: unlogged_def allocate_step_def split: prod.splits)

lemma unlogged_case_option [unlogged_intro]:
  "unlogged m \<Longrightarrow> (\<And>x. unlogged (f x)) \<Longrightarrow> unlogged (case opt of None \<Rightarrow> m | Some x \<Rightarrow> f x)"
  by (cases opt) simp_all

lemma unlogged_if [unlogged_intro]: "unlogged m \<Longrightarrow> unlogged m' \<Longrightarrow> unlogged (if b then m else m')"
  by simp

lemma unlogged_for_each [unlogged_intro]: "(\<And>x a. unlogged (f x a)) \<Longrightarrow> unlogged (for_each xs f a)"
  by (induction xs arbitrary: a) (simp_all add: unlogged_intro)

lemma unlogged_store [unlogged_intro]: "unlogged (store_value env m h val ex)"
  unfolding store_value_def free_old_def by (intro unlogged_intro)

lemma unlogged_incr [unlogged_intro]: "unlogged (execute_incr_by env key delta now)"
  unfolding execute_incr_by_def incr_store_def Let_def by (intro unlogged_intro)

lemma unlogged_append [unlogged_intro]: "unlogged (append_cmd env key val now)"
  unfolding append_cmd_def append_store_def Let_def by (intro unlogged_intro)

lemma unlogged_mset [unlogged_intro]: "unlogged (mset_cmd env pairs)"
  by (induction env pairs rule: mset_cmd.induct) (simp_all add: unlogged_intro del: reply_says)

lemma unlogged_flush [unlogged_intro]: "unlogged flush_cmd"
proof -
  have "unlogged (andthen (for_each bs (\<lambda>b u. deallocate_step b) ()) (\<lambda>_. reply_simple m))" for bs m
    by (intro unlogged_intro)
  then show ?thesis by (fastforce simp: unlogged_def flush_cmd_def split: prod.splits)
qed

text \<open>Commands that change the store and write nothing to the log.\<close>

fun missing_from_log :: "Command \<Rightarrow> bool" where
  "missing_from_log (MSet _) = True"
| "missing_from_log (Incr _) = True"
| "missing_from_log (Decr _) = True"
| "missing_from_log (IncrBy _ _) = True"
| "missing_from_log (DecrBy _ _) = True"
| "missing_from_log (Append _ _) = True"
| "missing_from_log (Persist _) = True"
| "missing_from_log FlushDb = True"
| "missing_from_log FlushAll = True"
| "missing_from_log _ = False"

lemma missing_unlogged:
  assumes "missing_from_log cmd"
  shows "handler_of cmd = Strings \<and> unlogged (handle_strings env now cmd) \<or>
    handler_of cmd = Expiry \<and> unlogged (handle_expiry env now cmd) \<or>
    handler_of cmd = Admin \<and> unlogged (handle_admin info env now cmd)"
  using assms
  by (cases cmd) (simp_all add: handle_strings_def handle_expiry_def handle_admin_def unlogged_intro)

lemma missing_gate:
  assumes "missing_from_log cmd" "\<not> is_authed (sv_client s)"
  shows "execute_command hs env now cmd s =
    andthen (reply_error ''NOAUTH Authentication required.'') (\<lambda>_. ret True) s"
  using assms by (cases cmd) (simp_all add: execute_command_def)

text \<open>\<^bold>\<open>C32.\<close> The log misses writes. MSET, INCR, DECR, INCRBY, DECRBY, APPEND, PERSIST, FLUSHDB and FLUSHALL
change the store, but no execution of them hands a frame to the append-only file, whatever the
state and the outcome: replaying the log does not reproduce them.\<close>

theorem log_misses_writes:
  assumes "missing_from_log cmd" "execute_command hs env now cmd s = Some (s', r)"
  shows "sv_aof s' = sv_aof s"
proof (cases "is_authed (sv_client s)")
  case True
  then show ?thesis
    using missing_unlogged [OF assms(1), of env now "hd_info hs"] assms(2)
    by (auto simp: execute_command_def unlogged_def)
next
  case False
  have "unlogged (andthen (reply_error ''NOAUTH Authentication required.'') (\<lambda>_. ret True))"
    by (intro unlogged_intro)
  then show ?thesis
    using missing_gate [OF assms(1) False] assms(2) unfolding unlogged_def by metis
qed

theorem log_misses_writes_witness:
  "\<exists>s' f. execute_command example_handlers example_env 7 (IncrBy (ascii ''k'') 5) (fresh_server None) = Some (s', Ok True) \<and>
     contents s' 1 = Some (string_cell (int_text 5) 0) \<and> sv_aof s' = Some []"
proof -
  let ?cmd = "IncrBy (ascii ''k'') 5" and ?s = "fresh_server None"
  have len: "length (int_text 5) = 1" by (simp add: int_text_def write_usize_def rev_digits.simps)
  have sp: "spec_string (hash_key example_env) 7 ?cmd (contents ?s) = ([1 \<mapsto> string_cell (int_text 5) 0], Integer 5)"
    by (simp add: fresh_server_ok(3) spec_incr_def spec_put_def for_size_def geometry example_env_def ascii_def len)
  have "small_store (fst (spec_string (hash_key example_env) 7 ?cmd (contents ?s)))"
    unfolding sp by (simp add: small_store_def string_cell_def geometry len)
  from strings_implement [of ?cmd ?s example_env 7, OF _ fresh_server_ok(1,2) fresh_alloc_ok this]
  obtain s' where s': "handle_strings example_env 7 ?cmd ?s = Some (s', Ok True)"
    "contents s' = [1 \<mapsto> string_cell (int_text 5) 0]"
    unfolding sp implements_def by (auto simp: atomic_string_def fresh_not_refused)
  have "is_authed (sv_client ?s)" by (simp add: fresh_server_def is_authed_def with_password_def)
  then have "execute_command example_handlers example_env 7 ?cmd ?s = Some (s', Ok True)"
    using s'(1) by (simp add: execute_command_def)
  with log_misses_writes [OF _ this] s'(2) show ?thesis by (simp add: fresh_server_def)
qed

end
