(* ===== verification/Hash_Frame_Props.thy ===== *)
theory Hash_Frame_Props
  imports Hash_Fields
begin

text \<open>
  Properties of hash frames: lookups after insertions and deletions, when an insertion succeeds, the
  round trip through the pair list, and two places where the size computation and the empty-bucket
  marker fail.
\<close>

section \<open>A fresh frame\<close>

lemma fresh_frame:
  assumes "length slot = 128 \<or> length slot = 512 \<or> length slot = 4096"
  obtains s where "init_frame slot = (s, Ok ())" "frame_at hk s 0 (default_k_for_capacity (length slot)) 8 0"
    "frame_map s = Map.empty" "length s = length slot" "frame_clean s (default_k_for_capacity (length slot)) 0"
proof -
  have "64 \<le> length slot" "length slot \<le> MAX_SLOT_CAPACITY" "8 + 10 * default_k_for_capacity (length slot) \<le> length slot"
    using assms by (auto simp: MAX_SLOT_CAPACITY_def default_k_for_capacity_def)
  from init_frame_ok [OF this, of hk] show ?thesis using that by metis
qed

definition slot128 :: bytes where "slot128 = fst (init_frame (replicate 128 0))"

lemma slot128: "init_frame (replicate 128 0) = (slot128, Ok ())" "frame_at hk slot128 0 8 8 0" "hash_frame_ok hk slot128"
  "frame_map slot128 = Map.empty" "length slot128 = 128"
proof -
  obtain s where s: "init_frame (replicate 128 0) = (s, Ok ())" "frame_at hk s 0 8 8 0" "frame_map s = Map.empty" "length s = 128"
    using fresh_frame [of "replicate 128 0" hk] by (auto simp: default_k_for_capacity_def)
  then have "slot128 = s" by (simp add: slot128_def)
  then show "init_frame (replicate 128 0) = (slot128, Ok ())" "frame_at hk slot128 0 8 8 0" "hash_frame_ok hk slot128"
    "frame_map slot128 = Map.empty" "length slot128 = 128"
    using s hash_frame_okI [OF s(2)] by simp_all
qed

lemma slot128_get: "frame_get hk slot128 f = None"
  by (simp add: frame_get_ok slot128)

section \<open>Reading, writing, deleting\<close>

text \<open>\<^bold>\<open>C23.\<close> Writing a field of a hash frame. On a well-formed frame \<open>upsert\<close> of a non-empty field name
returns: with the field set, reported as new exactly when it was absent, and every other field
unchanged; or with \<open>FrameFull\<close> and no field changed. The frame stays well formed, whatever
compactions and directory growths happened on the way.\<close>

theorem hash_frame_upsert:
  assumes "hash_frame_ok hk slot" "f \<noteq> []"
  shows "\<exists>s r. frame_upsert hk slot f v = Some (s, r) \<and> hash_frame_ok hk s \<and> length s = length slot \<and>
    (r = Ok (frame_get hk slot f = None) \<and> (\<forall>g. frame_get hk s g = (if g = f then Some v else frame_get hk slot g)) \<or>
     r = Err FrameFull \<and> (\<forall>g. frame_get hk s g = frame_get hk slot g))"
proof -
  obtain s r where "frame_upsert hk slot f v = Some (s, r)" "frame_upserted hk slot f v s r"
    using frame_upsert_outcome [OF assms] by blast
  then show ?thesis using assms(1) by (auto simp: frame_upserted_def frame_get_ok)
qed

theorem hash_frame_upsert_witness:
  "\<exists>s r. frame_upsert (\<lambda>_. 0) slot128 [1] [2, 3] = Some (s, r) \<and> frame_get (\<lambda>_. 0) s [9] = None"
  using hash_frame_upsert [OF slot128(3), of "[1]" "\<lambda>_. 0" "[2, 3]"] slot128_get by auto

text \<open>When a field fits. If the slot has room for the header, all stored pairs, the new pair and a
directory of a power-of-two number of buckets that is no smaller than the present one and less than
70 percent full with one more field, the insertion succeeds, on any well-formed frame, however
fragmented.\<close>

theorem hash_frame_fits:
  assumes "hash_frame_ok hk slot" "f \<noteq> []" and h: "read_header slot = Ok (live, msk, pend, dead)"
    and K: "is_pow2 K" "msk < K" "10 * (live + 1) < 7 * K"
    and room: "HEADER_SIZE + (\<Sum>p\<leftarrow>iter_pairs slot. length (fst p) + length (snd p)) + (length f + length v) +
      K * BUCKET_SIZE \<le> length slot"
  shows "\<exists>s. frame_upsert hk slot f v = Some (s, Ok (frame_get hk slot f = None))"
proof -
  obtain live' k pend' dead' where fr: "frame_at hk slot live' k pend' dead'" using assms(1) by (auto simp: hash_frame_ok_def)
  note F = frame_atD [OF fr]
  have eq: "live' = live" "k - 1 = msk" using F(19) h by simp_all
  have "8 + used_bytes slot k + (length f + length v) + 10 * K \<le> length slot"
    using room iter_pairs_live(1) [OF fr] live_pairs_facts(2) [OF fr] by (simp add: HEADER_SIZE_def BUCKET_SIZE_def)
  then have "\<exists>s. upsert_fuel (Suc (Suc (Suc 13))) hk slot f v = Some (s, Ok (frame_map slot f = None))"
    using K eq F(11) by (intro upsert_fits [OF fr assms(2)]) auto
  then show ?thesis
    using frame_get_ok [OF assms(1)] by (simp add: frame_upsert_def UPSERT_DEPTH_def eval_nat_numeral del: upsert_fuel.simps)
qed

theorem hash_frame_fits_witness:
  "\<exists>s. frame_upsert (\<lambda>_. 0) slot128 [1] (replicate 39 2) = Some (s, Ok True)"
proof -
  have h: "read_header slot128 = Ok (0, 7, 8, 0)" using frame_atD(19) [OF slot128(2)] by simp
  have "iter_pairs slot128 = []" using h by (simp add: iter_pairs_def)
  moreover have "is_pow2 8" using next_power_of_two_pow2 [of 3] by (simp add: is_pow2_def)
  ultimately show ?thesis
    using hash_frame_fits [OF slot128(3) _ h, of "[1]" 8 "replicate 39 2" "\<lambda>_. 0"] slot128_get
    by (simp add: slot128(5) HEADER_SIZE_def BUCKET_SIZE_def)
qed

text \<open>Deleting a field of a hash frame removes it, reports whether it was there, and leaves every
other field readable although the bucket becomes a tombstone on their probe paths.\<close>

theorem hash_frame_delete:
  assumes "hash_frame_ok hk slot"
  shows "\<exists>s. frame_delete hk slot f = (s, frame_get hk slot f \<noteq> None) \<and> hash_frame_ok hk s \<and>
    (\<forall>g. frame_get hk s g = (if g = f then None else frame_get hk slot g))"
  using frame_delete_ok [OF assms, of f] assms by (auto simp: frame_get_ok)

theorem hash_frame_delete_witness:
  "\<exists>s. frame_delete (\<lambda>_. 0) slot128 [1] = (s, False) \<and> frame_get (\<lambda>_. 0) s [2] = None"
  using hash_frame_delete [OF slot128(3), of "\<lambda>_. 0" "[1]"] by (auto simp: slot128_get)

section \<open>The pair list\<close>

text \<open>\<^bold>\<open>C24.\<close> Round trip of the pair list. Building a frame from the pairs that \<open>encode_pairs\<close> wrote, in a
slot of the same size with any previous contents, succeeds and gives a frame with the same fields and
values.\<close>

theorem pairs_roundtrip:
  assumes ok: "hash_frame_ok hk slot" and len: "length slot' = length slot"
  shows "\<exists>s. build_from_pairs hk slot' (encode_pairs slot) = Some (s, Ok ()) \<and> hash_frame_ok hk s \<and>
    (\<forall>f. frame_get hk s f = frame_get hk slot f)"
proof -
  obtain live k pend dead where fr: "frame_at hk slot live k pend dead" using ok by (auto simp: hash_frame_ok_def)
  note F = frame_atD [OF fr] and L = live_pairs_facts [OF fr] and it = iter_pairs_live(1) [OF fr]
  let ?ps = "live_pairs slot k" and ?d = "default_k_for_capacity (length slot')"
  have d: "8 + 10 * ?d \<le> length slot'" using F(4,14,16) len by simp
  obtain s0 where s0: "init_frame slot' = (s0, Ok ())" "frame_at hk s0 0 ?d 8 0" "frame_clean s0 ?d 0"
      "frame_map s0 = Map.empty" "length s0 = length slot'"
    using init_frame_ok [OF _ _ d, of hk] F(2,3) len by metis
  have enc: "encode_pairs slot = u16_le live @ concat (map encode_pair ?ps)"
    using F(19) it by (simp add: encode_pairs_def frame_live_count_def encode_pair_def case_prod_beta cong: map_cong)
  have "\<exists>s. build_loop hk (length ?ps) 2 (encode_pairs slot) s0 = Some (s, Ok ()) \<and> hash_frame_ok hk s \<and>
      frame_map s = frame_map s0 ++ map_of ?ps \<and> length s = length s0"
    using L F(4,6,8,14) s0(4,5) len by (intro build_loop_roomy [OF s0(2,3), of k] F(17)) (auto simp: enc)
  moreover have "from_le (bytes_at 0 2 (encode_pairs slot)) = live" using F(13) by (simp add: enc bytes_at_def)
  moreover have "\<not> length (encode_pairs slot) < 2" by (simp add: enc)
  ultimately have "\<exists>s. build_from_pairs hk slot' (encode_pairs slot) = Some (s, Ok ()) \<and> hash_frame_ok hk s \<and> frame_map s = map_of ?ps"
    using s0(1,4) L(1) unfolding build_from_pairs_def by auto
  then show ?thesis using ok it by (auto simp: frame_get_ok frame_map_def)
qed

lemma stored_field:
  obtains s where "frame_upsert hk slot128 [1] [2] = Some (s, Ok True)" "hash_frame_ok hk s" "length s = 128" "frame_get hk s [1] = Some [2]"
proof -
  have h: "read_header slot128 = Ok (0, 7, 8, 0)" using frame_atD(19) [OF slot128(2)] by simp
  have "iter_pairs slot128 = []" using h by (simp add: iter_pairs_def)
  moreover have "is_pow2 8" using next_power_of_two_pow2 [of 3] by (simp add: is_pow2_def)
  ultimately obtain s where s: "frame_upsert hk slot128 [1] [2] = Some (s, Ok True)"
    using hash_frame_fits [OF slot128(3) _ h, of "[1]" 8 "[2]" hk] slot128_get by (auto simp: slot128(5) HEADER_SIZE_def BUCKET_SIZE_def)
  have "frame_upserted hk slot128 [1] [2] s (Ok True)" using frame_upsert_outcome [OF slot128(3), of "[1]" hk "[2]"] s by auto
  then have "hash_frame_ok hk s" "length s = 128" "frame_map s [1] = Some [2]" using slot128(5) by (auto simp: frame_upserted_def)
  then show ?thesis using that s by (simp add: frame_get_ok)
qed

theorem pairs_roundtrip_witness:
  "\<exists>slot s. frame_upsert (\<lambda>_. 0) slot128 [1] [2] = Some (slot, Ok True) \<and>
     build_from_pairs (\<lambda>_. 0) (replicate 128 7) (encode_pairs slot) = Some (s, Ok ()) \<and> frame_get (\<lambda>_. 0) s [1] = Some [2]"
proof -
  obtain slot where slot: "frame_upsert (\<lambda>_. 0) slot128 [1] [2] = Some (slot, Ok True)" "hash_frame_ok (\<lambda>_. 0) slot" "length slot = 128"
      "frame_get (\<lambda>_. 0) slot [1] = Some [2]" by (rule stored_field)
  then show ?thesis using pairs_roundtrip [OF slot(2), of "replicate 128 7"] by auto
qed

section \<open>Where sizing and markers fail\<close>

lemma upsert_direct:
  assumes "upsert_once hk slot f v = Finished s r"
  shows "frame_upsert hk slot f v = Some (s, r)"
  using assms by (simp add: frame_upsert_def UPSERT_DEPTH_def eval_nat_numeral)

text \<open>\<^bold>\<open>C25.\<close> The size computation is too small. For a first field of 345 to 424 bytes (name and value),
\<open>needed_bytes\<close> asks for at most 512 bytes, but a fresh frame of 512 bytes refuses the field: it counts a
directory of 8 buckets where \<open>init\<close> lays out 16. The copy loop of HSET, which ignores the error, drops
such a field silently.\<close>

theorem needed_bytes_too_small:
  assumes "345 \<le> length f + length v" "length f + length v \<le> 424" "f \<noteq> []" "length slot = 512"
  shows "needed_bytes None [(f, v)] \<le> 512 \<and>
    (\<exists>s. init_frame slot = (s, Ok ()) \<and> frame_upsert hk s f v = Some (s, Err FrameFull) \<and>
      reinsert (frame_upsert hk) [(f, v)] s = Some (s, Ok ()))"
proof
  show "needed_bytes None [(f, v)] \<le> 512"
    using assms(2) by (simp add: needed_bytes_def HEADER_SIZE_def BUCKET_SIZE_def eval_nat_numeral)
  obtain s where s: "init_frame slot = (s, Ok ())" "frame_at hk s 0 16 8 0" "frame_map s = Map.empty" "length s = 512"
      "frame_clean s 16 0"
    using fresh_frame [of slot hk] assms(4) by (auto simp: default_k_for_capacity_def)
  have "upsert_once hk s f v = Finished s (Err FrameFull)"
    using s(2) assms(3)
  proof (cases rule: upsert_once_cases [where v = v])
    case (stored s' live' pend' dead')
    have "live' = 1" "used_bytes s' 16 = used_bytes s 16 + (length f + length v)" using stored(5) s(3) by simp_all
    then show ?thesis using frame_atD(8,14) [OF stored(2)] stored(4) s(4) assms(1) by simp
  next
    case compact
    then show ?thesis using s(5) by simp
  next
    case (grow s')
    then show ?thesis by simp
  qed
  from upsert_direct [OF this] show "\<exists>s. init_frame slot = (s, Ok ()) \<and> frame_upsert hk s f v = Some (s, Err FrameFull) \<and>
      reinsert (frame_upsert hk) [(f, v)] s = Some (s, Ok ())"
    using s(1) by (intro exI [of _ s]) simp
qed

theorem needed_bytes_too_small_witness:
  "needed_bytes None [([1], replicate 360 2)] \<le> 512 \<and>
   (\<exists>s. init_frame (replicate 512 0) = (s, Ok ()) \<and> frame_upsert (\<lambda>_. 0) s [1] (replicate 360 2) = Some (s, Err FrameFull) \<and>
      reinsert (frame_upsert (\<lambda>_. 0)) [([1], replicate 360 2)] s = Some (s, Ok ()))"
  by (rule needed_bytes_too_small) simp_all

lemma clean_empty_buckets:
  assumes fr: "frame_at hk s 0 k pend dead" and clean: "frame_clean s k dead" and i: "i < k"
  shows "field_len (read_bucket s i) = EMPTY_FIELD_LEN"
proof -
  have "live_cells s k = 0" using frame_atD(5) [OF fr] by simp
  then have "\<not> is_live (read_bucket s i)" using i unfolding live_cells_def by (auto split: if_splits)
  then show ?thesis using clean i bucket_cell_Gone [of s "read_bucket s i"] by (auto simp: is_live_def frame_clean_def cell_at_def)
qed

text \<open>An empty field name is lost. Writing it into a fresh frame answers that a new field was created
and counts it, but its bucket carries the marker of an empty bucket: the field can neither be read
nor listed.\<close>

theorem empty_field_lost:
  assumes len: "length slot = 128 \<or> length slot = 512 \<or> length slot = 4096" and v: "length v \<le> 40"
  shows "\<exists>s0 s. init_frame slot = (s0, Ok ()) \<and> frame_upsert hk s0 [] v = Some (s, Ok True) \<and>
    frame_live_count s = 1 \<and> frame_get hk s [] = None \<and> iter_pairs s = []"
proof -
  define k where "k = default_k_for_capacity (length slot)"
  obtain s0 where s0: "init_frame slot = (s0, Ok ())" "frame_at hk s0 0 k 8 0" "length s0 = length slot" "frame_clean s0 k 0"
    using fresh_frame [OF len, of hk] unfolding k_def by metis
  note F = frame_atD [OF s0(2)] and E = clean_empty_buckets [OF s0(2,4)]
  have k: "8 \<le> k" "8 + length v + 10 * k \<le> length s0" "k - 1 + 1 = k"
    using len v s0(3) by (auto simp: k_def default_k_for_capacity_def)
  define i where "i = fh hk [] mod k"
  have i: "i < k" using k(1) by (simp add: i_def)
  define b where "b = \<lparr>hash32 = fh hk [], bk_offset = 8, field_len = 0, val_len = length v\<rparr>"
  define s1 where "s1 = write_at 8 v (write_at 8 [] s0)"
  define s where "s = edit_bucket 1 k (8 + length v) 0 i b s1"
  have s1: "length s1 = length s0" "\<And>j. j < k \<Longrightarrow> read_bucket s1 j = read_bucket s0 j"
    using k(2) by (simp_all add: s1_def BUCKET_SIZE_def)
  have "header_ok (length s1) k (8 + length v)" "length s1 \<le> MAX_SLOT_CAPACITY" "bucket_ok b"
    using shapedD(1) [OF F(1)] k(2) s1(1) F(3) unsigned_less [of "hash_field hk []", where ?'a = nat] v
    by (auto simp: header_ok_def frame_consts b_def bucket_ok_def)
  note S = edit_bucket_effect [OF F(11) this(1,2) i this(3), of 1 0, folded s_def]
  have empty: "field_len (read_bucket s j) = EMPTY_FIELD_LEN" if "j < k" for j
    using that S(3) s1(2) E by (simp add: b_def EMPTY_FIELD_LEN_def)
  have "upsert_probe s0 [] (fh hk []) (k - 1) k i None 0 = (None, Some i, 0)"
    using E [OF i] k(1) by (cases k) simp_all
  then have "upsert_once hk s0 [] v = insert_field 0 (k - 1) 8 0 (fh hk []) (Some i) 0 s0 [] v"
    unfolding upsert_once_def F(19) Let_def by (simp only: outcome.case prod.case k(3) F(18) i_def option.case)
  also have "\<dots> = Finished s (Ok True)"
    using k by (simp add: insert_field_def Let_def BUCKET_SIZE_def s_def edit_bucket_def append_pair_def s1_def b_def)
  finally have up: "frame_upsert hk s0 [] v = Some (s, Ok True)" by (rule upsert_direct)
  have hdr: "read_header s = Ok (1, k - 1, 8 + length v, 0)" using S(1) by (simp add: shaped_def)
  have "frame_get hk s [] = get_loop s [] (fh hk []) (k - 1) k i"
    unfolding frame_get_def hdr Let_def by (simp only: outcome.case prod.case k(3) F(18) i_def) simp
  also have "\<dots> = None" using empty [OF i] k(1) by (cases k) simp_all
  finally have get: "frame_get hk s [] = None" .
  have "live_buckets s k = []" using empty by (simp add: live_buckets_def filter_empty_conv is_live_def)
  then have "iter_pairs s = []" unfolding iter_pairs_def hdr by (simp only: outcome.case prod.case k(3)) (simp add: live_pairs_def)
  then show ?thesis using s0(1) up get hdr by (auto simp: frame_live_count_def)
qed

theorem empty_field_lost_witness:
  "\<exists>s0 s. init_frame (replicate 128 0) = (s0, Ok ()) \<and> frame_upsert (\<lambda>_. 0) s0 [] [5] = Some (s, Ok True) \<and>
     frame_get (\<lambda>_. 0) s [] = None"
  using empty_field_lost [of "replicate 128 0" "[5]" "\<lambda>_. 0"] by auto

end
