(* ===== verification/Server_Hash_Store.thy ===== *)
theory Server_Hash_Store
  imports Server_Spec Hash_Frame_Props
begin

text \<open>
  The elementary steps of the hash commands on the abstract store: rewriting the slot of a key in
  place, preparing a slot that no key owns yet, and publishing it under a key.
\<close>

section \<open>Rewriting a slot\<close>

lemma copy_slice_same:
  assumes "n \<le> 2 ^ 64"
  shows "copy_nonoverlapping (slice_at p n m) p m = m"
proof
  fix x
  have "p + of_nat (unat (x - p)) = x" by simp
  then show "copy_nonoverlapping (slice_at p n m) p m x = m x"
    by (simp add: copy_nonoverlapping_def slice_at_def)
qed

lemma entry_step:
  assumes ok: "server_ok s" and gap: "gaps (sv_table s)" and c: "visible_cell now (contents s h) = Some c"
  obtains s' e p where "on_table (sh_lookup_checked now) h s = Some (s', Ok (Some e))"
    "server_ok s'" "contents s' = contents s" "same_session s s'" "sv_core s' = sv_core s" "sv_mem s' = sv_mem s"
    "sv_calls s' = sv_calls s" "gaps (sv_table s')" "sharded_map (sv_table s') h = Some e"
    "c = cell_of (sv_core s') (sv_mem s') e" "resolve_slot_ptr (te_slab_block_id e) (snd (sv_core s')) = Some p"
proof -
  obtain e where e: "visible now (sharded_map (sv_table s) h) = Some e" "c = cell_of (sv_core s) (sv_mem s) e"
    using c unfolding visible_contents by auto
  have m: "sharded_map (sv_table s) h = Some e" using visible_SomeD [OF e(1)] .
  obtain p where p: "resolve_slot_ptr (te_slab_block_id e) (snd (sv_core s)) = Some p"
    using heap_ok_resolves [of "sv_core s" "sharded_map (sv_table s)" h e] m ok by (auto simp: server_ok_def)
  obtain s' where s': "on_table (sh_lookup_checked now) h s = Some (s', Ok (Some e))"
    "server_ok s'" "contents s' = contents s" "same_session s s'" "sv_core s' = sv_core s" "sv_mem s' = sv_mem s"
    "sharded_map (sv_table s') = sharded_map (sv_table s)" "sv_calls s' = sv_calls s" "gaps (sv_table s')"
    using lookup_step [OF ok gaps_ready(1) [OF gap ok], of now] e(1) gap by metis
  show ?thesis by (rule that [OF s'(1-6,8,9), of p]) (use s'(5-7) m e(2) p in simp_all)
qed

text \<open>Overwriting the slot of a key changes the value of that key only.\<close>

lemma heap_overwrite:
  assumes ok: "heap_ok core m" and e: "m h = Some e" and p: "resolve_slot_ptr (te_slab_block_id e) (snd core) = Some p"
    and len: "length bs = unat (te_value_len e)"
  shows "cells core (copy_nonoverlapping bs p mem) m = (cells core mem m)(h \<mapsto> (cell_of core mem e)\<lparr>cell_value := bs\<rparr>)"
proof
  fix h'
  note D = heap_okD [OF ok]
  have small: "length bs \<le> 2 ^ 64" using len unsigned_less [of "te_value_len e", where ?'a = nat] by simp
  show "cells core (copy_nonoverlapping bs p mem) m h' = ((cells core mem m)(h \<mapsto> (cell_of core mem e)\<lparr>cell_value := bs\<rparr>)) h'"
  proof (cases "h' = h")
    case True
    then show ?thesis using e p slice_copied [OF small, of p mem] len by (simp add: cells_def cell_of_def)
  next
    case False
    show ?thesis
    proof (cases "m h'")
      case (Some e')
      obtain q where q: "resolve_slot_ptr (te_slab_block_id e') (snd core) = Some q" by (rule heap_ok_resolves [OF ok Some])
      have other: "te_slab_block_id e' \<noteq> te_slab_block_id e" using D(5) [OF Some e] False by auto
      have "slice_at q (unat (te_value_len e')) (copy_nonoverlapping bs p mem) = slice_at q (unat (te_value_len e')) mem"
        unfolding len [symmetric]
        by (rule slice_disjoint)
          (rule slots_disjoint [OF D(1,2) _ p _ D(3) [OF e] q D(4) [OF Some] D(3) [OF Some]], use other D(4) [OF e] len in auto)
      then show ?thesis using False Some q by (simp add: cells_def cell_of_def)
    qed (use False in \<open>simp add: cells_def\<close>)
  qed
qed

text \<open>Writing to a live slot that no key owns changes no value.\<close>

lemma heap_scratch:
  assumes ok: "heap_ok core m" and b: "b \<in> pool_live (fst core)" "b \<notin> blocks m" "fits (fst core) b (length bs)"
    and p: "resolve_slot_ptr b (snd core) = Some p"
  shows "cells core (copy_nonoverlapping bs p mem) m = cells core mem m"
proof
  fix h
  note D = heap_okD [OF ok]
  show "cells core (copy_nonoverlapping bs p mem) m h = cells core mem m h"
  proof (cases "m h")
    case (Some e)
    obtain q where q: "resolve_slot_ptr (te_slab_block_id e) (snd core) = Some q" by (rule heap_ok_resolves [OF ok Some])
    have other: "te_slab_block_id e \<noteq> b" using b(2) blocksI [of m h e] Some by auto
    have "slice_at q (unat (te_value_len e)) (copy_nonoverlapping bs p mem) = slice_at q (unat (te_value_len e)) mem"
      by (rule slice_disjoint)
        (rule slots_disjoint [OF D(1,2) _ p b(3,1) q D(4) [OF Some] D(3) [OF Some]], use other in auto)
    then show ?thesis using Some q by (simp add: cells_def cell_of_def)
  qed (simp add: cells_def)
qed

section \<open>Steps\<close>

definition scratch_slot :: "Server \<Rightarrow> SlabBlockId \<Rightarrow> u64 \<Rightarrow> nat \<Rightarrow> bool" where
  "scratch_slot s b p n \<longleftrightarrow> b \<in> pool_live (fst (sv_core s)) \<and> b \<notin> blocks (sharded_map (sv_table s)) \<and>
     fits (fst (sv_core s)) b n \<and> resolve_slot_ptr b (snd (sv_core s)) = Some p \<and> n < 2 ^ 32"

text \<open>Steps that touch memory only.\<close>

definition only_mem :: "Server \<Rightarrow> Server \<Rightarrow> bool" where
  "only_mem s s' \<longleftrightarrow> (\<exists>mem. s' = s\<lparr>sv_mem := mem\<rparr>)"

lemma only_memD:
  assumes "only_mem s s'"
  shows "same_session s s'" "sv_core s' = sv_core s" "sv_table s' = sv_table s" "sv_calls s' = sv_calls s"
    "server_ok s' = server_ok s" "scratch_slot s' b p n = scratch_slot s b p n" "alloc_ok env s' c = alloc_ok env s c"
    "refused env s' c = refused env s c"
proof -
  obtain mem where s': "s' = s\<lparr>sv_mem := mem\<rparr>" using assms by (auto simp: only_mem_def)
  then show "same_session s s'" "server_ok s' = server_ok s" "scratch_slot s' b p n = scratch_slot s b p n"
    "refused env s' c = refused env s c" "sv_table s' = sv_table s"
    by (simp_all add: same_session_def server_ok_def scratch_slot_def refused_def)
  show same: "sv_core s' = sv_core s" "sv_calls s' = sv_calls s" using s' by simp_all
  show "alloc_ok env s' c = alloc_ok env s c" by (rule alloc_ok_cong [OF same])
qed

text \<open>What a slice operation yields for the handler.\<close>

fun slot_result :: "('a, 'e) outcome \<Rightarrow> ('a option, NetError) outcome" where
  "slot_result (Ok x) = Ok (Some x)"
| "slot_result (Err _) = Ok None"
| "slot_result (Panic m) = Panic m"

lemma on_slot_run:
  assumes "op (slice_at p n (sv_mem s)) = Some (bs, r)"
  shows "on_slot p n op s = Some (s\<lparr>sv_mem := copy_nonoverlapping bs p (sv_mem s)\<rparr>, slot_result r)"
  using assms by (cases r) (simp_all add: on_slot_def)

lemma on_scratch:
  assumes ok: "server_ok s" and sc: "scratch_slot s b p n"
    and run: "op (slice_at p n (sv_mem s)) = Some (bs, r)" "length bs = n"
  obtains s' where "on_slot p n op s = Some (s', slot_result r)" "only_mem s s'" "contents s' = contents s"
    "slice_at p n (sv_mem s') = bs"
proof -
  let ?s = "s\<lparr>sv_mem := copy_nonoverlapping bs p (sv_mem s)\<rparr>"
  have heap: "heap_ok (sv_core s) (sharded_map (sv_table s))" using ok by (simp add: server_ok_def)
  have b: "b \<in> pool_live (fst (sv_core s))" "b \<notin> blocks (sharded_map (sv_table s))" "fits (fst (sv_core s)) b (length bs)"
    "resolve_slot_ptr b (snd (sv_core s)) = Some p" "length bs \<le> 2 ^ 64"
    using sc run(2) by (auto simp: scratch_slot_def)
  show ?thesis
  proof (rule that)
    show "on_slot p n op s = Some (?s, slot_result r)" by (rule on_slot_run [of op, OF run(1)])
    show "only_mem s ?s" by (auto simp: only_mem_def)
    show "contents ?s = contents s" using heap_scratch [OF heap b(1-4)] by (simp add: contents_def)
    show "slice_at p n (sv_mem ?s) = bs" using slice_copied [OF b(5), of p "sv_mem s"] run(2) by simp
  qed
qed

lemma on_entry:
  assumes ok: "server_ok s" and e: "sharded_map (sv_table s) h = Some e"
    and p: "resolve_slot_ptr (te_slab_block_id e) (snd (sv_core s)) = Some p"
    and run: "op (cell_value (cell_of (sv_core s) (sv_mem s) e)) = Some (bs, r)" "length bs = unat (te_value_len e)"
  obtains s' where "on_slot p (unat (te_value_len e)) op s = Some (s', slot_result r)" "only_mem s s'"
    "contents s' = (contents s)(h \<mapsto> (cell_of (sv_core s) (sv_mem s) e)\<lparr>cell_value := bs\<rparr>)"
proof -
  let ?s = "s\<lparr>sv_mem := copy_nonoverlapping bs p (sv_mem s)\<rparr>"
  have heap: "heap_ok (sv_core s) (sharded_map (sv_table s))" using ok by (simp add: server_ok_def)
  have "op (slice_at p (unat (te_value_len e)) (sv_mem s)) = Some (bs, r)" using run(1) p by (simp add: cell_of_def)
  from that [of ?s, OF on_slot_run [of op, OF this]] show ?thesis
    using heap_overwrite [OF heap e p run(2)] by (auto simp: only_mem_def contents_def)
qed

section \<open>New frames\<close>

definition hash_class :: "SlabClassType \<Rightarrow> bool" where
  "hash_class c \<longleftrightarrow> c = AppSmall \<or> c = AppMedium \<or> c = AppLarge"

lemma hash_classD:
  assumes "hash_class c"
  shows "payload_ok c (slot_bytes c)" "slot_bytes c = 128 \<or> slot_bytes c = 512 \<or> slot_bytes c = 4096" "slot_bytes c < 2 ^ 32"
  using assms by (auto simp: hash_class_def payload_ok_def geometry)

lemma give_up_step:
  assumes ok: "server_ok s" and sc: "scratch_slot s b p n"
  obtains s' where "give_up b msg s = Some (s', Ok (Inl msg))" "server_ok s'" "contents s' = contents s" "same_session s s'"
    "sv_table s' = sv_table s"
proof -
  obtain s' where "deallocate_step b s = Some (s', Ok ())" "server_ok s'" "contents s' = contents s" "same_session s s'"
      "sv_table s' = sv_table s"
    using free_step [OF ok] sc unfolding scratch_slot_def by metis
  then show ?thesis using that by (simp add: give_up_def)
qed

text \<open>A slot is allocated and an empty frame is laid out in it.\<close>

lemma init_slot_step:
  assumes ok: "server_ok s" and al: "alloc_ok env s c" and c: "hash_class c"
  obtains (oom) s' where "allocate_step env c s = Some (s', Ok None)" "server_ok s'" "contents s' = contents s"
      "same_session s s'" "sv_table s' = sv_table s" "refused env s c"
    | (made) s1 s' b p where "allocate_step env c s = Some (s1, Ok (Some b))" "resolve_step b s1 = Some (s1, Ok (Some p))"
      "on_slot p (slot_bytes c) (\<lambda>slot. Some (init_frame slot)) s1 = Some (s', Ok (Some ()))"
      "server_ok s'" "contents s' = contents s" "same_session s s'" "sv_table s' = sv_table s" "scratch_slot s' b p (slot_bytes c)"
      "frame_at hk (slice_at p (slot_bytes c) (sv_mem s')) 0 (default_k_for_capacity (slot_bytes c)) 8 0"
      "frame_map (slice_at p (slot_bytes c) (sv_mem s')) = Map.empty"
      "frame_clean (slice_at p (slot_bytes c) (sv_mem s')) (default_k_for_capacity (slot_bytes c)) 0"
proof -
  note C = hash_classD [OF c]
  show ?thesis using ok al C(1)
  proof (cases rule: allocate_outcome)
    case (none s1)
    then show ?thesis by (rule oom)
  next
    case (got s1 b p)
    have sc: "scratch_slot s1 b p (slot_bytes c)" using got(6-9) C(3) by (simp add: scratch_slot_def)
    obtain f where f: "init_frame (slice_at p (slot_bytes c) (sv_mem s1)) = (f, Ok ())" "length f = slot_bytes c"
        "frame_at hk f 0 (default_k_for_capacity (slot_bytes c)) 8 0" "frame_map f = Map.empty"
        "frame_clean f (default_k_for_capacity (slot_bytes c)) 0"
      using fresh_frame [of "slice_at p (slot_bytes c) (sv_mem s1)" hk] C(2) by (auto simp del: slice_at_def)
    have "Some (init_frame (slice_at p (slot_bytes c) (sv_mem s1))) = Some (f, Ok ())" using f(1) by simp
    from on_scratch [where op = "\<lambda>slot. Some (init_frame slot)", OF got(2) sc this f(2)] obtain s2 where s2:
        "on_slot p (slot_bytes c) (\<lambda>slot. Some (init_frame slot)) s1 = Some (s2, Ok (Some ()))" "only_mem s1 s2"
        "contents s2 = contents s1" "slice_at p (slot_bytes c) (sv_mem s2) = f"
      by auto
    note O = only_memD [OF s2(2)]
    have "resolve_step b s1 = Some (s1, Ok (Some p))" using got(9) by (simp add: resolve_step_def)
    from got(1) this s2(1) show ?thesis
      by (rule made) (use O s2 sc got f same_session_trans [OF got(4) O(1)] in simp_all)
  qed
qed

lemma new_frame_step:
  assumes ok: "server_ok s" and al: "alloc_ok env s c" and c: "hash_class c"
  obtains (oom) s' where "new_frame env c k s = Some (s', Ok (Inl OOM))" "server_ok s'" "contents s' = contents s"
      "same_session s s'" "sv_table s' = sv_table s" "refused env s c"
    | (made) s' b p where "new_frame env c k s = k b p s'" "server_ok s'" "contents s' = contents s" "same_session s s'"
      "sv_table s' = sv_table s" "scratch_slot s' b p (slot_bytes c)"
      "frame_at hk (slice_at p (slot_bytes c) (sv_mem s')) 0 (default_k_for_capacity (slot_bytes c)) 8 0"
      "frame_map (slice_at p (slot_bytes c) (sv_mem s')) = Map.empty"
      "frame_clean (slice_at p (slot_bytes c) (sv_mem s')) (default_k_for_capacity (slot_bytes c)) 0"
  using assms
proof (cases rule: init_slot_step [where hk = hk])
  case (oom s')
  then show ?thesis using that(1) by (simp add: new_frame_def)
next
  case (made s1 s' b p)
  then have "new_frame env c k s = k b p s'" by (simp add: new_frame_def)
  then show ?thesis by (rule that(2)) (use made in simp_all)
qed

text \<open>A prepared slot becomes the value of a key.\<close>

lemma insert_scratch_step:
  assumes ok: "server_ok s" and gap: "gaps (sv_table s)" and sc: "scratch_slot s b p n"
  obtains s' where "on_table (sh_insert_typed b (of_nat n) ex ty) h s = Some (s', Ok (Ok (map_option te_slab_block_id (sharded_map (sv_table s) h))))"
    "server_ok s'" "same_session s s'" "sv_core s' = sv_core s" "sv_mem s' = sv_mem s"
    "contents s' = (contents s)(h \<mapsto> \<lparr>cell_value = slice_at p n (sv_mem s), cell_expire = ex, cell_type = ty\<rparr>)"
    "sharded_map (sv_table s') = (sharded_map (sv_table s))(h \<mapsto>
       \<lparr>te_slab_block_id = b, te_value_len = of_nat n, te_expire_at_secs = ex, te_value_type = ty\<rparr>)"
proof -
  let ?v = "slice_at p n (sv_mem s)" and ?m = "sharded_map (sv_table s)"
  let ?e = "\<lparr>te_slab_block_id = b, te_value_len = of_nat n, te_expire_at_secs = ex, te_value_type = ty\<rparr>"
  have inv: "sharded_inv (sv_table s)" and heap: "heap_ok (sv_core s) ?m" using ok by (simp_all add: server_ok_def)
  have b: "b \<in> pool_live (fst (sv_core s))" "b \<notin> blocks ?m" "fits (fst (sv_core s)) b (length ?v)"
      "resolve_slot_ptr b (snd (sv_core s)) = Some p" "length ?v < 2 ^ 32"
    using sc by (auto simp: scratch_slot_def)
  obtain t' where t': "sh_insert_typed b (of_nat n) ex ty (sv_table s) h = Some (t', Ok (map_option te_slab_block_id (?m h)))"
      "sharded_inv t'" "sharded_map t' = ?m(h \<mapsto> ?e)"
    using sh_insert.shards.op_total [OF inv gaps_ready(2) [OF gap ok, unfolded shard_of_def], of b "of_nat n" ex ty]
    unfolding spec_insert_def sh_insert_typed_def by auto
  have I: "heap_ok (sv_core s) (?m(h \<mapsto> ?e))"
    "cells (sv_core s) (copy_nonoverlapping ?v p (sv_mem s)) (?m(h \<mapsto> ?e)) =
      (cells (sv_core s) (sv_mem s) ?m)(h \<mapsto> \<lparr>cell_value = ?v, cell_expire = ex, cell_type = ty\<rparr>)"
    using heap_insert [OF heap b(1-5), of ?e] by simp_all
  have same: "copy_nonoverlapping ?v p (sv_mem s) = sv_mem s" using b(5) by (intro copy_slice_same) simp
  show ?thesis
    by (rule that [of "s\<lparr>sv_table := t'\<rparr>"])
      (use t' I same in \<open>simp_all add: on_table_def server_ok_def contents_def same_session_def\<close>)
qed

text \<open>Publishing the slot of a hash under its key.\<close>

lemma publish_step:
  assumes ok: "server_ok s" and gap: "gaps (sv_table s)" and sc: "scratch_slot s b p (slot_bytes c)" and c: "hash_class c"
  obtains s' where "publish h b c ex k s = k s'" "server_ok s'" "same_session s s'" "sv_core s' = sv_core s" "sv_mem s' = sv_mem s"
    "contents s' = (contents s)(h \<mapsto> \<lparr>cell_value = slice_at p (slot_bytes c) (sv_mem s), cell_expire = ex, cell_type = VALUE_TYPE_HASH\<rparr>)"
    "sharded_map (sv_table s') = (sharded_map (sv_table s))(h \<mapsto>
       \<lparr>te_slab_block_id = b, te_value_len = of_nat (slot_bytes c), te_expire_at_secs = ex, te_value_type = VALUE_TYPE_HASH\<rparr>)"
proof -
  from insert_scratch_step [OF ok gap sc, of ex VALUE_TYPE_HASH h] obtain s' where
    s': "on_table (sh_insert_typed b (of_nat (slot_bytes c)) ex VALUE_TYPE_HASH) h s =
        Some (s', Ok (Ok (map_option te_slab_block_id (sharded_map (sv_table s) h))))"
      "server_ok s'" "same_session s s'" "sv_core s' = sv_core s" "sv_mem s' = sv_mem s"
      "contents s' = (contents s)(h \<mapsto> \<lparr>cell_value = slice_at p (slot_bytes c) (sv_mem s), cell_expire = ex, cell_type = VALUE_TYPE_HASH\<rparr>)"
      "sharded_map (sv_table s') = (sharded_map (sv_table s))(h \<mapsto>
         \<lparr>te_slab_block_id = b, te_value_len = of_nat (slot_bytes c), te_expire_at_secs = ex, te_value_type = VALUE_TYPE_HASH\<rparr>)"
    by blast
  then show ?thesis using that [of s'] by (simp add: publish_def andthen_def)
qed

end
