(* ===== verification/Server_Hash_Spec.thy ===== *)
theory Server_Hash_Spec
  imports Server_Hash_Store
begin

text \<open>
  The hash commands on the abstract store: a hash key shows a finite map of fields. Readers answer
  from that map, HDEL thins it out, HSET extends it; the slots and frames behind it do not show.
\<close>

section \<open>Hash cells\<close>

definition hash_cell_ok :: "(bytes \<Rightarrow> u64) \<Rightarrow> Cell \<Rightarrow> bool" where
  "hash_cell_ok hk c \<longleftrightarrow> hash_frame_ok hk (cell_value c) \<and> (\<exists>d. hash_class d \<and> length (cell_value c) = slot_bytes d)"

definition hashes_ok :: "(bytes \<Rightarrow> u64) \<Rightarrow> store \<Rightarrow> bool" where
  "hashes_ok hk st \<longleftrightarrow> (\<forall>h c. st h = Some c \<longrightarrow> cell_type c = VALUE_TYPE_HASH \<longrightarrow> hash_cell_ok hk c)"

lemma hashes_okD: "hashes_ok hk st \<Longrightarrow> st h = Some c \<Longrightarrow> cell_type c = VALUE_TYPE_HASH \<Longrightarrow> hash_cell_ok hk c"
  by (simp add: hashes_ok_def)

lemma hashes_ok_upd: "hashes_ok hk st \<Longrightarrow> (cell_type c = VALUE_TYPE_HASH \<Longrightarrow> hash_cell_ok hk c) \<Longrightarrow> hashes_ok hk (st(h \<mapsto> c))"
  by (auto simp: hashes_ok_def)

lemma hashes_ok_del: "hashes_ok hk st \<Longrightarrow> hashes_ok hk (st(h := None))"
  by (auto simp: hashes_ok_def)

lemma frame_pairs:
  assumes "hash_frame_ok hk slot"
  shows "frame_live_count slot = length (iter_pairs slot)" "distinct (map fst (iter_pairs slot))"
    "card (dom (frame_map slot)) = length (iter_pairs slot)"
proof -
  obtain live k pend dead where fr: "frame_at hk slot live k pend dead" using assms by (auto simp: hash_frame_ok_def)
  note L = live_pairs_facts [OF fr] and it = iter_pairs_live(1) [OF fr]
  show len: "frame_live_count slot = length (iter_pairs slot)"
    using frame_atD(19) [OF fr] L(1) it by (simp add: frame_live_count_def)
  show d: "distinct (map fst (iter_pairs slot))" using L(3) it by simp
  have "dom (frame_map slot) = set (map fst (iter_pairs slot))" by (simp add: frame_map_def dom_map_of_conv_image_fst)
  then show "card (dom (frame_map slot)) = length (iter_pairs slot)" using distinct_card [OF d] by simp
qed

section \<open>Readers\<close>

definition spec_read :: "u32 \<Rightarrow> u64 \<Rightarrow> Frame \<Rightarrow> (bytes \<Rightarrow> Frame) \<Rightarrow> store \<Rightarrow> Frame" where
  "spec_read now h miss k st =
     (case visible_cell now (st h) of
        None \<Rightarrow> miss
      | Some c \<Rightarrow> if cell_type c \<noteq> VALUE_TYPE_HASH then err WRONGTYPE else k (cell_value c))"

fun spec_hash_read :: "(bytes \<Rightarrow> u64) \<Rightarrow> u32 \<Rightarrow> Command \<Rightarrow> store \<Rightarrow> Frame" where
  "spec_hash_read hk now (HGet key field) st = spec_read now (hk key) Null (\<lambda>slot.
     case frame_map slot field of Some v \<Rightarrow> BulkString v | None \<Rightarrow> Null) st"
| "spec_hash_read hk now (HExists key field) st = spec_read now (hk key) (Integer 0) (\<lambda>slot.
     Integer (if field \<in> dom (frame_map slot) then 1 else 0)) st"
| "spec_hash_read hk now (HLen key) st = spec_read now (hk key) (Integer 0) (\<lambda>slot.
     Integer (int (card (dom (frame_map slot))))) st"
| "spec_hash_read hk now (HGetAll key) st = spec_read now (hk key) (Array []) (\<lambda>slot.
     Array (concat (map (\<lambda>(f, v). [BulkString f, BulkString v]) (iter_pairs slot)))) st"
| "spec_hash_read hk now _ st = Null"

definition hash_reader :: "Command \<Rightarrow> bool" where
  "hash_reader cmd \<longleftrightarrow> (case cmd of HGet _ _ \<Rightarrow> True | HExists _ _ \<Rightarrow> True | HLen _ \<Rightarrow> True | HGetAll _ \<Rightarrow> True | _ \<Rightarrow> False)"

text \<open>A command that only answers.\<close>

definition answers :: "unit step \<Rightarrow> Server \<Rightarrow> Frame \<Rightarrow> bool" where
  "answers m s f \<longleftrightarrow>
     (\<exists>s'. m s = Some (s', Ok ()) \<and> server_ok s' \<and> contents s' = contents s \<and> sv_out s' = sv_out s @ resp_bytes f)"

lemma answers_says: "server_ok s' \<Longrightarrow> contents s' = contents s \<Longrightarrow> same_session s s' \<Longrightarrow> m s = Some (says f s', Ok ()) \<Longrightarrow> answers m s f"
  by (auto simp: answers_def same_session_def simp del: resp_bytes.simps)

lemma with_frame_answers:
  assumes ok: "server_ok s" "table_ready (shard_of s (hash_key env key)) (hash_key env key)"
    and hok: "hashes_ok (hash_key env) (contents s)"
    and miss: "\<And>s. miss s = Some (says m s, Ok ())"
    and k: "\<And>s slot. hash_frame_ok (hash_key env) slot \<Longrightarrow> k slot s = Some (says (f slot) s, Ok ())"
  shows "answers (with_frame env key now miss k) s (spec_read now (hash_key env key) m f (contents s))"
proof (cases "visible_cell now (contents s (hash_key env key))")
  case None
  obtain s1 where s1: "on_table (sh_lookup_checked now) (hash_key env key) s = Some (s1, Ok None)" "server_ok s1"
      "contents s1 = contents s" "same_session s s1"
    using miss_step [OF ok None] by metis
  have "with_frame env key now miss k s = Some (says m s1, Ok ())" using s1(1) miss by (simp add: with_frame_def)
  from answers_says [where m = "with_frame env key now miss k", OF s1(2-4) this] show ?thesis using None by (simp add: spec_read_def)
next
  case (Some c)
  obtain s1 e p where s1: "on_table (sh_lookup_checked now) (hash_key env key) s = Some (s1, Ok (Some e))" "server_ok s1"
      "contents s1 = contents s" "same_session s s1" "te_value_type e = cell_type c"
      "resolve_step (te_slab_block_id e) s1 = Some (s1, Ok (Some p))"
      "read_slot p (te_value_len e) s1 = Some (s1, Ok (cell_value c))"
    using fetch_step [OF ok Some] by metis
  have here: "contents s (hash_key env key) = Some c" using Some by (cases "contents s (hash_key env key)") (auto split: if_splits)
  have "with_frame env key now miss k s =
      Some (says (if cell_type c \<noteq> VALUE_TYPE_HASH then err WRONGTYPE else f (cell_value c)) s1, Ok ())"
    using s1 k hashes_okD [OF hok here] by (simp add: with_frame_def hash_cell_ok_def)
  from answers_says [where m = "with_frame env key now miss k", OF s1(2-4) this] show ?thesis using Some by (simp add: spec_read_def)
qed

lemma says_pairs:
  "for_each ps (\<lambda>(f, v) u. andthen (reply_bulk f) (\<lambda>_. reply_bulk v)) () s =
    Some (s\<lparr>sv_out := sv_out s @ concat (map resp_bytes (concat (map (\<lambda>(f, v). [BulkString f, BulkString v]) ps)))\<rparr>, Ok ())"
proof (induction ps arbitrary: s)
  case (Cons p ps)
  obtain f v where p: "p = (f, v)" by (cases p)
  have "andthen (reply_bulk f) (\<lambda>_. reply_bulk v) s = Some (says (BulkString v) (says (BulkString f) s), Ok ())" by simp
  then show ?case using Cons.IH by (simp add: p says_def del: resp_bytes.simps)
qed simp

lemma hget_answers:
  assumes "server_ok s" "table_ready (shard_of s (hash_key env key)) (hash_key env key)" "hashes_ok (hash_key env) (contents s)"
  shows "answers (hget_cmd env key field now) s (spec_hash_read (hash_key env) now (HGet key field) (contents s))"
  unfolding hget_cmd_def spec_hash_read.simps
  by (rule with_frame_answers [OF assms]) (auto simp: frame_get_ok split: option.split)

lemma hash_reads_answer:
  assumes cmd: "hash_reader cmd" and ok: "server_ok s" "gaps (sv_table s)" and hok: "hashes_ok (hash_key env) (contents s)"
  shows "\<exists>m. handle_hashes env now cmd = andthen m (\<lambda>_. ret True) \<and>
    answers m s (spec_hash_read (hash_key env) now cmd (contents s))"
proof -
  note rdy = gaps_ready(1) [OF ok(2,1)]
  note W = with_frame_answers [OF ok(1) rdy hok] and get = hget_answers [OF ok(1) rdy hok]
  have exi: "answers (hexists_cmd env key field now) s (spec_hash_read (hash_key env) now (HExists key field) (contents s))"
    for key field
    unfolding hexists_cmd_def spec_hash_read.simps by (rule W) (auto simp: frame_exists_def frame_get_ok domIff)
  have len: "answers (hlen_cmd env key now) s (spec_hash_read (hash_key env) now (HLen key) (contents s))" for key
    unfolding hlen_cmd_def spec_hash_read.simps by (rule W) (auto simp: frame_pairs)
  have all: "answers (hgetall_cmd env key now) s (spec_hash_read (hash_key env) now (HGetAll key) (contents s))" for key
    unfolding hgetall_cmd_def spec_hash_read.simps
  proof (rule W)
    fix s
    show "reply (\<lambda>buf. encode_array_header buf 0) s = Some (says (Array []) s, Ok ())"
      by (simp add: reply_def says_def encode_app(6) [of "sv_out s"])
    fix slot
    assume "hash_frame_ok (hash_key env) slot"
    then have n: "frame_live_count slot * 2 = length (concat (map (\<lambda>(f, v). [BulkString f, BulkString v]) (iter_pairs slot)))"
      by (simp add: frame_pairs length_concat comp_def case_prod_beta sum_list_triv)
    show "andthen (reply (\<lambda>buf. encode_array_header buf (frame_live_count slot * 2)))
        (\<lambda>_. for_each (iter_pairs slot) (\<lambda>(f, v) u. andthen (reply_bulk f) (\<lambda>_. reply_bulk v)) ()) s =
        Some (says (Array (concat (map (\<lambda>(f, v). [BulkString f, BulkString v]) (iter_pairs slot)))) s, Ok ())"
      by (simp add: andthen_def reply_def says_pairs says_def encode_app(6) [of "sv_out s"] n)
  qed
  show ?thesis
    using cmd get exi len all unfolding handle_hashes_def
    by (cases cmd) (simp_all add: hash_reader_def del: spec_hash_read.simps, metis+)
qed

end
