(* ===== verification/Server_Hash_Write.thy ===== *)
theory Server_Hash_Write
  imports Server_Hash_Spec
begin

text \<open>HDEL and HSET on the abstract store.\<close>

section \<open>HDEL\<close>

lemma emit_reply:
  assumes "server_ok s"
  shows "\<exists>s'. andthen (if b then emit_aof env op key val now else ret ()) (\<lambda>_. reply_int n) s = Some (s', Ok ()) \<and>
    server_ok s' \<and> contents s' = contents s \<and> sv_out s' = sv_out s @ resp_bytes (Integer n) \<and> sv_wheel s' = sv_wheel s"
  using assms by (cases b) (simp_all add: emit_aof_def andthen_def server_ok_def contents_def del: resp_bytes.simps)

definition hdel_result :: "bytes list \<Rightarrow> u64 \<Rightarrow> Cell \<Rightarrow> store \<Rightarrow> store \<Rightarrow> bool" where
  "hdel_result names h c st st' \<longleftrightarrow>
     (let m = frame_map (cell_value c)
      in if dom m \<subseteq> set names then st' = st(h := None)
         else (\<exists>v. st' = st(h \<mapsto> c\<lparr>cell_value := v\<rparr>) \<and> frame_map v = m |` (- set names)))"

lemma thin_slot:
  assumes "hash_cell_ok hk c"
  obtains slot gone where "delete_all (frame_delete hk) names (cell_value c) = (slot, gone)" "hash_frame_ok hk slot"
    "length slot = length (cell_value c)" "frame_map slot = frame_map (cell_value c) |` (- set names)"
    "length gone = card (set names \<inter> dom (frame_map (cell_value c)))"
    "frame_live_count slot = 0 \<longleftrightarrow> dom (frame_map (cell_value c)) \<subseteq> set names"
proof -
  have ok: "hash_frame_ok hk (cell_value c) \<and> length (cell_value c) = length (cell_value c)" using assms by (simp add: hash_cell_ok_def)
  obtain slot gone where s: "delete_all (frame_delete hk) names (cell_value c) = (slot, gone)" "hash_frame_ok hk slot"
      "length slot = length (cell_value c)" "frame_map slot = frame_map (cell_value c) |` (- set names)"
      "set gone = set names \<inter> dom (frame_map (cell_value c))" "distinct gone"
    using frames.delete_all_outcome [OF ok, of names] by auto
  have "length gone = card (set names \<inter> dom (frame_map (cell_value c)))" using s(5,6) distinct_card by metis
  moreover have "frame_live_count slot = 0 \<longleftrightarrow> dom (frame_map (cell_value c)) \<subseteq> set names"
  proof -
    have "frame_live_count slot = card (dom (frame_map slot))" using frame_pairs [OF s(2)] by simp
    moreover have "finite (dom (frame_map slot))" by (simp add: frame_map_def finite_dom_map_of)
    ultimately show ?thesis using s(4) by auto
  qed
  ultimately show ?thesis by (rule that [OF s(1-4)])
qed

text \<open>The slot is thinned out; a slot without fields goes with its key.\<close>

lemma hdel_fields_step:
  assumes ok: "server_ok s" "gaps (sv_table s)" and e: "sharded_map (sv_table s) h = Some e"
    and p: "resolve_slot_ptr (te_slab_block_id e) (snd (sv_core s)) = Some p"
    and c: "c = cell_of (sv_core s) (sv_mem s) e" "hash_cell_ok (hash_key env) c"
  obtains s' gone where
    "\<And>k :: bytes list \<Rightarrow> unit step. andthen (hdel_fields env h names e p) (\<lambda>(gone, freed). andthen (free_old freed) (\<lambda>_. k gone)) s = k gone s'"
    "server_ok s'" "same_session s s'" "length gone = card (set names \<inter> dom (frame_map (cell_value c)))"
    "hdel_result names h c (contents s) (contents s')"
    "hashes_ok (hash_key env) (contents s) \<Longrightarrow> hashes_ok (hash_key env) (contents s')"
proof -
  let ?hk = "hash_key env"
  obtain slot gone where d: "delete_all (frame_delete ?hk) names (cell_value c) = (slot, gone)" "hash_frame_ok ?hk slot"
      "length slot = length (cell_value c)" "frame_map slot = frame_map (cell_value c) |` (- set names)"
      "length gone = card (set names \<inter> dom (frame_map (cell_value c)))"
      "frame_live_count slot = 0 \<longleftrightarrow> dom (frame_map (cell_value c)) \<subseteq> set names"
    by (rule thin_slot [OF c(2)])
  let ?op = "\<lambda>slot. case delete_all (frame_delete ?hk) names slot of
    (slot', gone) \<Rightarrow> Some (slot', Ok (gone, frame_live_count slot') :: (_, FrameError) outcome)"
  have run: "?op (cell_value (cell_of (sv_core s) (sv_mem s) e)) = Some (slot, Ok (gone, frame_live_count slot))"
    using d(1) c(1) by simp
  have "length slot = unat (te_value_len e)" using d(3) c(1) p by (simp add: cell_of_def)
  then obtain s2 where s2: "on_slot p (unat (te_value_len e)) ?op s = Some (s2, Ok (Some (gone, frame_live_count slot)))" "only_mem s s2"
      "contents s2 = (contents s)(h \<mapsto> c\<lparr>cell_value := slot\<rparr>)"
    using on_entry [OF ok(1) e p, of ?op, OF run] c(1) by auto
  note O = only_memD [OF s2(2)]
  have ok2: "server_ok s2" "gaps (sv_table s2)" "sharded_map (sv_table s2) h = Some e" using ok e O by simp_all
  show ?thesis
  proof (cases "frame_live_count slot = 0")
    case False
    then have "hdel_fields env h names e p s = Some (s2, Ok (gone, None))" using s2(1) by (simp add: hdel_fields_def)
    then show ?thesis
      by (intro that [of gone s2])
        (use False d ok2 O(1) s2(3) c(2) in \<open>auto simp: free_old_def hdel_result_def Let_def hash_cell_ok_def intro!: hashes_ok_upd\<close>)
  next
    case True
    obtain s3 where s3: "on_table sh_remove h s2 = Some (s3, Ok (Some e))" "server_ok s3"
        "contents s3 = (contents s2)(h := None)" "same_session s2 s3" "sv_core s3 = sv_core s2"
        "sharded_map (sv_table s3) = (sharded_map (sv_table s2))(h := None)"
      using remove_step [OF ok2(1) gaps_ready(1) [OF ok2(2,1)]] ok2(3) by metis
    have fields: "hdel_fields env h names e p s = Some (s3, Ok (gone, Some (te_slab_block_id e)))"
      using s2(1) True s3(1) by (simp add: hdel_fields_def)
    have heap: "heap_ok (sv_core s2) (sharded_map (sv_table s2))" using ok2(1) by (simp add: server_ok_def)
    have "te_slab_block_id e \<in> pool_live (fst (sv_core s3))" "te_slab_block_id e \<notin> blocks (sharded_map (sv_table s3))"
      using heap_okD(3) [OF heap ok2(3)] old_block_free [OF heap ok2(3), of None] by (simp_all add: s3(5,6))
    then obtain s4 where s4: "deallocate_step (te_slab_block_id e) s3 = Some (s4, Ok ())" "server_ok s4"
        "contents s4 = contents s3" "same_session s3 s4"
      using free_step [OF s3(2)] by metis
    have c4: "contents s4 = (contents s)(h := None)" using s4(3) s3(3) s2(3) by simp
    show ?thesis
      by (rule that [of gone s4])
        (use fields s4(1,2,4) c4 d(5,6) True O(1) s3(4) hashes_ok_del [of ?hk "contents s" h] in
          \<open>auto simp: free_old_def hdel_result_def Let_def intro: same_session_trans\<close>)
  qed
qed

lemma visible_cellD: "visible_cell now x = Some c \<Longrightarrow> x = Some c"
  by (cases x) (auto split: if_splits)

lemma hdel_outcome:
  assumes ok: "server_ok s" "gaps (sv_table s)" and hok: "hashes_ok (hash_key env) (contents s)"
  shows "\<exists>s' f. hdel_cmd env key names now s = Some (s', Ok ()) \<and> server_ok s' \<and> hashes_ok (hash_key env) (contents s') \<and>
    sv_out s' = sv_out s @ resp_bytes f \<and>
    (case visible_cell now (contents s (hash_key env key)) of
       None \<Rightarrow> f = Integer 0 \<and> contents s' = contents s
     | Some c \<Rightarrow>
         if cell_type c \<noteq> VALUE_TYPE_HASH then f = err WRONGTYPE \<and> contents s' = contents s
         else f = Integer (int (card (set names \<inter> dom (frame_map (cell_value c))))) \<and>
           hdel_result names (hash_key env key) c (contents s) (contents s'))"
proof (cases "visible_cell now (contents s (hash_key env key))")
  case None
  obtain s1 where s1: "on_table (sh_lookup_checked now) (hash_key env key) s = Some (s1, Ok None)" "server_ok s1"
      "contents s1 = contents s" "same_session s s1"
    using miss_step [OF ok(1) gaps_ready(1) [OF ok(2,1)] None] by metis
  then have "hdel_cmd env key names now s = Some (says (Integer 0) s1, Ok ())"
    by (simp add: hdel_cmd_def Let_def free_old_def)
  then show ?thesis using s1 None hok
    by (intro exI [of _ "says (Integer 0) s1"] exI [of _ "Integer 0"]) (simp add: same_session_def del: resp_bytes.simps)
next
  case (Some c)
  let ?h = "hash_key env key"
  obtain s1 e p where s1: "on_table (sh_lookup_checked now) ?h s = Some (s1, Ok (Some e))"
      "server_ok s1" "contents s1 = contents s" "same_session s s1" "sv_core s1 = sv_core s" "sv_mem s1 = sv_mem s"
      "sv_calls s1 = sv_calls s" "gaps (sv_table s1)" "sharded_map (sv_table s1) ?h = Some e"
      "c = cell_of (sv_core s1) (sv_mem s1) e" "resolve_slot_ptr (te_slab_block_id e) (snd (sv_core s1)) = Some p"
    by (rule entry_step [OF ok Some])
  have ty: "te_value_type e = cell_type c" using s1(10) by (simp add: cell_of_def)
  show ?thesis
  proof (cases "cell_type c = VALUE_TYPE_HASH")
    case False
    then have "hdel_cmd env key names now s = Some (says (err WRONGTYPE) s1, Ok ())"
      using s1(1) ty by (simp add: hdel_cmd_def Let_def)
    then show ?thesis using s1 Some False hok
      by (intro exI [of _ "says (err WRONGTYPE) s1"] exI [of _ "err WRONGTYPE"]) (simp add: same_session_def del: resp_bytes.simps)
  next
    case True
    let ?n = "card (set names \<inter> dom (frame_map (cell_value c)))"
    obtain s2 gone where s2:
        "\<And>k :: bytes list \<Rightarrow> unit step. andthen (hdel_fields env ?h names e p) (\<lambda>(gone, freed). andthen (free_old freed) (\<lambda>_. k gone)) s1 = k gone s2"
        "server_ok s2" "same_session s1 s2" "length gone = ?n" "hdel_result names ?h c (contents s1) (contents s2)"
        "hashes_ok (hash_key env) (contents s1) \<Longrightarrow> hashes_ok (hash_key env) (contents s2)"
      using hdel_fields_step [OF s1(2,8,9,11,10) hashes_okD [OF hok visible_cellD [OF Some] True], of names] by blast
    obtain s3 where s3: "andthen (if gone \<noteq> [] then emit_aof env AofHDel key (aof_fields gone) now else ret ())
        (\<lambda>_. reply_int (int (length gone))) s2 = Some (s3, Ok ())" "server_ok s3" "contents s3 = contents s2"
        "sv_out s3 = sv_out s2 @ resp_bytes (Integer (int (length gone)))"
      using emit_reply [OF s2(2), of "gone \<noteq> []" env AofHDel key "aof_fields gone" now "int (length gone)"] by blast
    have "resolve_step (te_slab_block_id e) s1 = Some (s1, Ok (Some p))" using s1(11) by (simp add: resolve_step_def)
    then have "hdel_cmd env key names now s = Some (s3, Ok ())"
      using s1(1) True ty s3(1)
        s2(1) [of "\<lambda>gone. andthen (if gone \<noteq> [] then emit_aof env AofHDel key (aof_fields gone) now else ret ())
          (\<lambda>_. reply_int (int (length gone)))"]
      by (simp add: hdel_cmd_def Let_def)
    then show ?thesis using s3 s2 Some True s1(3,4) hok
      by (intro exI [of _ s3] exI [of _ "Integer (int ?n)"]) (simp add: same_session_def del: resp_bytes.simps)
  qed
qed

end
