(* ===== verification/Server_Hash_Set.thy ===== *)
theory Server_Hash_Set
  imports Server_Hash_Write
begin

text \<open>HSET on the abstract store: a new key, an update in place, and a move to another slot.\<close>

section \<open>Frames\<close>

lemma put_fields_add: "put_fields ps m = m ++ map_of (rev ps)"
proof (induction ps arbitrary: m)
  case (Cons p ps)
  obtain f v where p: "p = (f, v)" by (cases p)
  show ?case unfolding p put_fields_simps Cons by (simp add: map_of_append map_add_assoc)
qed simp

lemma put_fields_again: "put_fields (qs @ rs) (put_fields qs m) = put_fields (qs @ rs) m"
  by (simp add: put_fields_add map_of_append map_add_assoc) (metis map_add_assoc map_add_subsumed1 map_le_refl)

lemma put_fields_append: "put_fields (qs @ rs) m = put_fields rs (put_fields qs m)"
  by (simp add: put_fields_def)

definition named :: "(bytes \<times> bytes) list \<Rightarrow> bool" where
  "named pairs \<longleftrightarrow> (\<forall>p\<in>set pairs. fst p \<noteq> [])"

lemma upsert_all_frame:
  assumes "hash_frame_ok hk slot" "named pairs"
  obtains (ok) v where "upsert_all (frame_upsert hk) pairs 0 slot =
      Some (v, Ok (int (card (dom (frame_map v)) - card (dom (frame_map slot)))))"
      "hash_frame_ok hk v" "length v = length slot" "frame_map v = put_fields pairs (frame_map slot)"
    | (stop) v e qs q rs where "upsert_all (frame_upsert hk) pairs 0 slot = Some (v, Err e)"
      "hash_frame_ok hk v" "length v = length slot" "pairs = qs @ q # rs" "frame_map v = put_fields qs (frame_map slot)"
  using frames.upsert_all_outcome [of hk slot "length slot" pairs 0] assms unfolding named_def by auto

text \<open>A frame that moves to a slot of the same or a larger class keeps all its pairs.\<close>

lemma copy_fits:
  assumes old: "hash_frame_ok hk old" "hash_class d" "length old = slot_bytes d"
    and new: "frame_at hk slot 0 (default_k_for_capacity (slot_bytes c)) 8 0"
      "frame_clean slot (default_k_for_capacity (slot_bytes c)) 0" "frame_map slot = Map.empty" "length slot = slot_bytes c"
    and c: "hash_class c" "slot_bytes d \<le> slot_bytes c"
  shows "\<exists>v. reinsert (frame_upsert hk) (iter_pairs old) slot = Some (v, Ok ()) \<and> hash_frame_ok hk v \<and>
    length v = slot_bytes c \<and> frame_map v = frame_map old"
proof -
  obtain live k pend dead where fr: "frame_at hk old live k pend dead" using old(1) by (auto simp: hash_frame_ok_def)
  note F = frame_atD [OF fr] and L = live_pairs_facts [OF fr] and it = iter_pairs_live(1) [OF fr]
  let ?D = "default_k_for_capacity (slot_bytes c)" and ?ps = "live_pairs old k"
  define K where "K = max k ?D"
  have used: "8 + used_bytes old k + 10 * k \<le> slot_bytes d" using F(8,14) old(3) by simp
  have dk: "default_k_for_capacity (slot_bytes d) \<le> k" using F(4) old(3) by simp
  have room: "8 + used_bytes old k + 10 * K \<le> slot_bytes c"
  proof (cases "k \<le> ?D")
    case True
    then show ?thesis using used dk c(2) old(2) c(1)
      by (auto simp: K_def hash_class_def geometry default_k_for_capacity_def max_def)
  next
    case False
    then show ?thesis using used c(2) by (simp add: K_def max_def)
  qed
  have pK: "is_pow2 K" using F(17) pow2_default by (simp add: K_def max_def)
  have fuel: "frame_upsert hk = upsert_fuel (Suc (Suc 14)) hk" by (simp add: frame_upsert_def UPSERT_DEPTH_def eval_nat_numeral)
  have "\<exists>v k' pend' dead'. reinsert (frame_upsert hk) ?ps slot = Some (v, Ok ()) \<and>
      frame_at hk v (0 + length ?ps) k' pend' dead' \<and> frame_clean v k' dead' \<and> k' \<le> K \<and> frame_map v = frame_map slot ++ map_of ?ps \<and>
      length v = length slot \<and> pend' = 8 + (\<Sum>p\<leftarrow>?ps. pair_bytes p)"
    unfolding fuel using L F(6) room new(3,4) pK by (intro reinsert_roomy [OF new(1,2)]) (auto simp: K_def)
  then show ?thesis using new(3,4) it hash_frame_okI by (auto simp: frame_map_def)
qed

section \<open>A new slot\<close>

definition FULL_INIT :: string where
  "FULL_INIT = ''ERR hash frame full during initialization''"

definition FULL_EXPAND :: string where
  "FULL_EXPAND = ''ERR hash frame full during expansion''"

lemmas hset_new_full = hset_new_def [folded FULL_INIT_def]
lemmas hset_expand_full = hset_expand_def [folded FULL_EXPAND_def]

lemma upsert_scratch:
  assumes ok: "server_ok s" and sc: "scratch_slot s b p n" and fr: "hash_frame_ok (hash_key env) (slice_at p n (sv_mem s))"
    and names: "named pairs"
  obtains (ok) s' where "upsert_pairs env p n pairs s = Some (s', Ok (Some (int (card (dom (frame_map (slice_at p n (sv_mem s')))) -
        card (dom (frame_map (slice_at p n (sv_mem s))))))))" "only_mem s s'" "contents s' = contents s"
      "hash_frame_ok (hash_key env) (slice_at p n (sv_mem s'))"
      "frame_map (slice_at p n (sv_mem s')) = put_fields pairs (frame_map (slice_at p n (sv_mem s)))"
    | (stop) s' v e where "upsert_pairs env p n pairs s = Some (s', Ok None)" "only_mem s s'" "contents s' = contents s"
      "upsert_all (frame_upsert (hash_key env)) pairs 0 (slice_at p n (sv_mem s)) = Some (v, Err e)"
proof -
  let ?slot = "slice_at p n (sv_mem s)" and ?op = "upsert_all (frame_upsert (hash_key env)) pairs 0"
  from fr names show ?thesis
  proof (cases rule: upsert_all_frame)
    case (ok v)
    have "length v = n" using ok(3) by simp
    from on_scratch [where op = ?op, OF assms(1) sc ok(1) this] obtain s' where s': "on_slot p n ?op s =
        Some (s', Ok (Some (int (card (dom (frame_map v)) - card (dom (frame_map ?slot))))))" "only_mem s s'"
        "contents s' = contents s" "slice_at p n (sv_mem s') = v"
      by auto
    show ?thesis by (rule that(1) [of s']) (use s' ok in \<open>simp_all add: upsert_pairs_def\<close>)
  next
    case (stop v e qs q rs)
    have "length v = n" using stop(3) by simp
    from on_scratch [where op = ?op, OF assms(1) sc stop(1) this] obtain s' where "on_slot p n ?op s = Some (s', Ok None)"
        "only_mem s s'" "contents s' = contents s" by auto
    then show ?thesis using that(2) stop(1) by (simp add: upsert_pairs_def)
  qed
qed

definition hash_cell :: "bytes \<Rightarrow> u32 \<Rightarrow> Cell" where
  "hash_cell v ex = \<lparr>cell_value = v, cell_expire = ex, cell_type = VALUE_TYPE_HASH\<rparr>"

text \<open>How HSET ends: with the pairs stored under the key, or with an error.\<close>

definition hset_done :: "(bytes \<Rightarrow> u64) \<Rightarrow> u64 \<Rightarrow> (bytes \<times> bytes) list \<Rightarrow> (bytes \<rightharpoonup> bytes) \<Rightarrow> u32 \<Rightarrow> store \<Rightarrow> store \<Rightarrow> bool" where
  "hset_done hk h pairs m ex st st' \<longleftrightarrow>
     (\<exists>v. st' = st(h \<mapsto> hash_cell v ex) \<and> hash_cell_ok hk (hash_cell v ex) \<and> frame_map v = put_fields pairs m)"

text \<open>The number of fields that the pairs add.\<close>

definition added :: "(bytes \<times> bytes) list \<Rightarrow> (bytes \<rightharpoonup> bytes) \<Rightarrow> int" where
  "added pairs m = int (card (dom (put_fields pairs m)) - card (dom m))"

lemma hset_doneI:
  assumes "st' = st(h \<mapsto> hash_cell v ex)" "hash_frame_ok hk v" "hash_class d" "length v = slot_bytes d"
    "frame_map v = put_fields pairs m"
  shows "hset_done hk h pairs m ex st st'"
  unfolding hset_done_def hash_cell_ok_def using assms by (intro exI [of _ v]) (auto simp: hash_cell_def)

definition quiet :: "Server \<Rightarrow> Server \<Rightarrow> bool" where
  "quiet s s' \<longleftrightarrow> sv_out s' = sv_out s \<and> sv_aof s' = sv_aof s \<and> sv_client s' = sv_client s"

lemma quiet_session: "same_session s s' \<Longrightarrow> quiet s s'"
  by (simp add: quiet_def same_session_def)

lemma quiet_trans: "quiet s s1 \<Longrightarrow> quiet s1 s2 \<Longrightarrow> quiet s s2"
  by (simp add: quiet_def)

text \<open>The pairs do not fit into a fresh frame of the class.\<close>

definition fresh_full :: "(bytes \<Rightarrow> u64) \<Rightarrow> SlabClassType \<Rightarrow> (bytes \<times> bytes) list \<Rightarrow> bool" where
  "fresh_full hk c pairs \<longleftrightarrow>
     (\<exists>slot v e. frame_at hk slot 0 (default_k_for_capacity (slot_bytes c)) 8 0 \<and> length slot = slot_bytes c \<and>
        frame_clean slot (default_k_for_capacity (slot_bytes c)) 0 \<and> frame_map slot = Map.empty \<and>
        upsert_all (frame_upsert hk) pairs 0 slot = Some (v, Err e))"

lemma hset_new_step:
  assumes ok: "server_ok s" "gaps (sv_table s)" and al: "alloc_ok env s c" and c: "hash_class c" and names: "named pairs"
  obtains (stored) s' where "hset_new env h pairs c s = Some (s', Ok (Inr (added pairs Map.empty)))" "server_ok s'" "quiet s s'"
      "hset_done (hash_key env) h pairs Map.empty 0 (contents s) (contents s')"
    | (failed) s' msg where "hset_new env h pairs c s = Some (s', Ok (Inl msg))" "server_ok s'" "quiet s s'" "contents s' = contents s"
      "refused env s c \<and> msg = OOM \<or> fresh_full (hash_key env) c pairs \<and> msg = FULL_INIT"
proof -
  let ?k = "\<lambda>b p. andthen (upsert_pairs env p (slot_bytes c) pairs) (\<lambda>res. case res of
       None \<Rightarrow> give_up b FULL_INIT
     | Some n \<Rightarrow> publish h b c 0 (ret (Inr n)))"
  from ok(1) al c show ?thesis
  proof (cases rule: new_frame_step [where hk = "hash_key env" and k = ?k])
    case (oom s1)
    then show ?thesis using that(2) quiet_session by (simp add: hset_new_full)
  next
    case (made s1 b p)
    let ?n = "slot_bytes c"
    have gap: "gaps (sv_table s1)" using made(5) ok(2) by simp
    from made(2,6) hash_frame_okI [OF made(7)] names show ?thesis
    proof (cases rule: upsert_scratch)
      case (stop s2 v e)
      note O = only_memD [OF stop(2)]
      have "server_ok s2" "scratch_slot s2 b p ?n" using O made by simp_all
      have full: "fresh_full (hash_key env) c pairs"
        unfolding fresh_full_def
        by (intro exI [of _ "slice_at p ?n (sv_mem s1)"] exI [of _ v] exI [of _ e] conjI made(7-9) stop(4)) simp
      from give_up_step [OF \<open>server_ok s2\<close> \<open>scratch_slot s2 b p ?n\<close>, of "FULL_INIT"] obtain s3 where s3:
          "give_up b FULL_INIT s2 = Some (s3, Ok (Inl FULL_INIT))"
          "server_ok s3" "contents s3 = contents s2" "same_session s2 s3" by metis
      have "hset_new env h pairs c s = Some (s3, Ok (Inl FULL_INIT))"
        using made(1) stop(1) s3(1) by (simp add: hset_new_full)
      then show ?thesis
        by (rule that(2)) (use s3 stop(3) made(3,4) O(1) full in \<open>auto intro: quiet_session same_session_trans\<close>)
    next
      case (ok s2)
      note O = only_memD [OF ok(2)]
      have S: "server_ok s2" "gaps (sv_table s2)" "scratch_slot s2 b p ?n" using O made gap by simp_all
      let ?v = "slice_at p ?n (sv_mem s2)"
      from publish_step [OF S c, of h 0 "ret (Inr (int (card (dom (frame_map ?v)))))"] obtain s3 where s3:
          "publish h b c 0 (ret (Inr (int (card (dom (frame_map ?v)))))) s2 = Some (s3, Ok (Inr (int (card (dom (frame_map ?v))))))"
          "server_ok s3" "same_session s2 s3" "contents s3 = (contents s2)(h \<mapsto> hash_cell ?v 0)"
        by (auto simp: hash_cell_def)
      have "hset_new env h pairs c s = Some (s3, Ok (Inr (int (card (dom (frame_map ?v))))))"
        using made(1,8) ok(1) s3(1) by (simp add: hset_new_full)
      moreover have "int (card (dom (frame_map ?v))) = added pairs Map.empty" using ok(5) made(8) by (simp add: added_def)
      moreover have "hset_done (hash_key env) h pairs Map.empty 0 (contents s) (contents s3)"
        by (rule hset_doneI [OF _ ok(4) c]) (use s3(4) ok(3,5) made(3,8) in simp_all)
      ultimately show ?thesis
        using that(1) s3(2) quiet_session same_session_trans [OF made(4) same_session_trans [OF O(1) s3(3)]] by metis
    qed
  qed
qed

section \<open>Moving to another slot\<close>

text \<open>The pairs of the key are copied into a fresh frame of a class that is no smaller.\<close>

lemma copy_pairs_step:
  assumes ok: "server_ok s" and e: "sharded_map (sv_table s) h = Some e" "contents s h = Some c0" "hash_cell_ok (hash_key env) c0"
    and c: "hash_class c" "length (cell_value c0) \<le> slot_bytes c" and sc: "scratch_slot s b p (slot_bytes c)"
    and new: "frame_at (hash_key env) (slice_at p (slot_bytes c) (sv_mem s)) 0 (default_k_for_capacity (slot_bytes c)) 8 0"
      "frame_clean (slice_at p (slot_bytes c) (sv_mem s)) (default_k_for_capacity (slot_bytes c)) 0"
      "frame_map (slice_at p (slot_bytes c) (sv_mem s)) = Map.empty"
  obtains s' where "copy_pairs env e p (slot_bytes c) s = Some (s', Ok ())" "only_mem s s'" "contents s' = contents s"
    "hash_frame_ok (hash_key env) (slice_at p (slot_bytes c) (sv_mem s'))"
    "frame_map (slice_at p (slot_bytes c) (sv_mem s')) = frame_map (cell_value c0)"
proof -
  let ?hk = "hash_key env" and ?old = "cell_value c0" and ?n = "slot_bytes c"
  have heap: "heap_ok (sv_core s) (sharded_map (sv_table s))" using ok by (simp add: server_ok_def)
  obtain q where q: "resolve_slot_ptr (te_slab_block_id e) (snd (sv_core s)) = Some q" by (rule heap_ok_resolves [OF heap e(1)])
  have old: "slice_at q (unat (te_value_len e)) (sv_mem s) = ?old"
    using e(1,2) q by (simp add: contents_def cells_def cell_of_def) (metis Cell.select_convs(1))
  obtain d where d: "hash_class d" "length ?old = slot_bytes d" and fok: "hash_frame_ok ?hk ?old"
    using e(3) by (auto simp: hash_cell_ok_def)
  have "length (slice_at p ?n (sv_mem s)) = ?n" "slot_bytes d \<le> ?n" using c(2) d(2) by simp_all
  from copy_fits [OF fok d new this(1) c(1) this(2)] obtain v where v:
      "reinsert (frame_upsert ?hk) (iter_pairs ?old) (slice_at p ?n (sv_mem s)) = Some (v, Ok ())" "hash_frame_ok ?hk v"
      "length v = ?n" "frame_map v = frame_map ?old" by blast
  from on_scratch [where op = "reinsert (frame_upsert ?hk) (iter_pairs ?old)", OF ok sc v(1,3)] obtain s' where s':
      "on_slot p ?n (reinsert (frame_upsert ?hk) (iter_pairs ?old)) s = Some (s', Ok (Some ()))" "only_mem s s'"
      "contents s' = contents s" "slice_at p ?n (sv_mem s') = v" by auto
  have "copy_pairs env e p ?n s = Some (s', Ok ())"
    using q old s'(1) by (simp add: copy_pairs_def resolve_step_def read_slot_def andthen_def)
  then show ?thesis by (rule that) (use s' v in simp_all)
qed

lemma schedule_quiet:
  assumes "server_ok s"
  obtains s' where "(if ex > 0 then schedule_step h b ex else ret ()) s = Some (s', Ok ())" "server_ok s'" "contents s' = contents s"
    "quiet s s'"
  using assms that by (cases "ex > 0") (auto simp: schedule_step_def server_ok_def contents_def quiet_def)

text \<open>The new slot replaces the old one, which is released.\<close>

lemma replace_step:
  assumes ok: "server_ok s" "gaps (sv_table s)" and e: "sharded_map (sv_table s) h = Some e"
    and sc: "scratch_slot s b p (slot_bytes c)" and c: "hash_class c"
  obtains s' where "publish h b c ex (andthen (deallocate_step (te_slab_block_id e)) (\<lambda>_.
      andthen (if ex > 0 then schedule_step h b ex else ret ()) (\<lambda>_. ret (Inr n)))) s = Some (s', Ok (Inr n))"
    "server_ok s'" "quiet s s'" "contents s' = (contents s)(h \<mapsto> hash_cell (slice_at p (slot_bytes c) (sv_mem s)) ex)"
proof -
  let ?k = "andthen (deallocate_step (te_slab_block_id e)) (\<lambda>_.
      andthen (if ex > 0 then schedule_step h b ex else ret ()) (\<lambda>_. ret (Inr n)))"
  obtain s1 where s1: "publish h b c ex ?k s = ?k s1" "server_ok s1" "same_session s s1" "sv_core s1 = sv_core s"
      "contents s1 = (contents s)(h \<mapsto> hash_cell (slice_at p (slot_bytes c) (sv_mem s)) ex)"
      "sharded_map (sv_table s1) = (sharded_map (sv_table s))(h \<mapsto>
         \<lparr>te_slab_block_id = b, te_value_len = of_nat (slot_bytes c), te_expire_at_secs = ex, te_value_type = VALUE_TYPE_HASH\<rparr>)"
    unfolding hash_cell_def by (rule publish_step [OF ok sc c])
  have heap: "heap_ok (sv_core s) (sharded_map (sv_table s))" using ok(1) by (simp add: server_ok_def)
  have "b \<noteq> te_slab_block_id e" using sc blocksI [of "sharded_map (sv_table s)" h e] e by (auto simp: scratch_slot_def)
  then have "te_slab_block_id e \<in> pool_live (fst (sv_core s1))" "te_slab_block_id e \<notin> blocks (sharded_map (sv_table s1))"
    using heap_okD(3) [OF heap e] unfolding s1(4,6) by (simp, intro old_block_free [OF heap e]) auto
  then obtain s2 where s2: "deallocate_step (te_slab_block_id e) s1 = Some (s2, Ok ())" "server_ok s2"
      "contents s2 = contents s1" "same_session s1 s2"
    using free_step [OF s1(2)] by metis
  obtain s3 where s3: "(if ex > 0 then schedule_step h b ex else ret ()) s2 = Some (s3, Ok ())" "server_ok s3"
      "contents s3 = contents s2" "quiet s2 s3" by (rule schedule_quiet [OF s2(2)])
  have "?k s1 = Some (s3, Ok (Inr n))" using s2(1) s3(1) by (cases "ex > 0") simp_all
  then show ?thesis
    by (rule that [of s3, OF trans [OF s1(1)]])
      (use s1 s2 s3 quiet_trans [OF quiet_session [OF same_session_trans [OF s1(3) s2(4)]] s3(4)] in simp_all)
qed

text \<open>A frame of the class that holds the fields has no room for the pairs.\<close>

definition expand_full :: "(bytes \<Rightarrow> u64) \<Rightarrow> SlabClassType \<Rightarrow> (bytes \<rightharpoonup> bytes) \<Rightarrow> (bytes \<times> bytes) list \<Rightarrow> bool" where
  "expand_full hk c m pairs \<longleftrightarrow>
     (\<exists>slot v e. hash_frame_ok hk slot \<and> length slot = slot_bytes c \<and> frame_map slot = m \<and>
        upsert_all (frame_upsert hk) pairs 0 slot = Some (v, Err e))"

lemma hset_expand_step:
  assumes ok: "server_ok s" "gaps (sv_table s)" and e: "sharded_map (sv_table s) h = Some e" "contents s h = Some c0"
      "hash_cell_ok (hash_key env) c0"
    and al: "alloc_ok env s c" and c: "hash_class c" "length (cell_value c0) \<le> slot_bytes c" and names: "named pairs"
  obtains (stored) s' where "hset_expand env h pairs c e s = Some (s', Ok (Inr (added pairs (frame_map (cell_value c0)))))" "server_ok s'"
      "quiet s s'" "hset_done (hash_key env) h pairs (frame_map (cell_value c0)) (cell_expire c0) (contents s) (contents s')"
    | (failed) s' msg where "hset_expand env h pairs c e s = Some (s', Ok (Inl msg))" "server_ok s'" "quiet s s'" "contents s' = contents s"
      "refused env s c \<and> msg = OOM \<or> expand_full (hash_key env) c (frame_map (cell_value c0)) pairs \<and> msg = FULL_EXPAND"
proof -
  let ?n = "slot_bytes c" and ?ex = "te_expire_at_secs e" and ?m = "frame_map (cell_value c0)" and ?hk = "hash_key env"
  let ?full = FULL_EXPAND
  let ?k = "\<lambda>b p. andthen (copy_pairs env e p ?n) (\<lambda>_. andthen (upsert_pairs env p ?n pairs) (\<lambda>res. case res of
      None \<Rightarrow> give_up b ?full
    | Some n \<Rightarrow> publish h b c ?ex (andthen (deallocate_step (te_slab_block_id e)) (\<lambda>_.
        andthen (if ?ex > 0 then schedule_step h b ?ex else ret ()) (\<lambda>_. ret (Inr n))))))"
  have ex: "cell_expire c0 = ?ex" using e(1,2) by (auto simp: contents_def cells_def cell_of_def)
  from ok(1) al c(1) show ?thesis
  proof (cases rule: new_frame_step [where hk = ?hk and k = ?k])
    case (oom s1)
    then show ?thesis using that(2) quiet_session by (simp add: hset_expand_full)
  next
    case (made s1 b p)
    have e1: "sharded_map (sv_table s1) h = Some e" "contents s1 h = Some c0" using made(3,5) e by simp_all
    obtain s2 where s2: "copy_pairs env e p ?n s1 = Some (s2, Ok ())" "only_mem s1 s2" "contents s2 = contents s1"
        "hash_frame_ok ?hk (slice_at p ?n (sv_mem s2))" "frame_map (slice_at p ?n (sv_mem s2)) = ?m"
      by (rule copy_pairs_step [OF made(2) e1 e(3) c made(6,7,9,8)])
    note O2 = only_memD [OF s2(2)]
    have S2: "server_ok s2" "scratch_slot s2 b p ?n" using O2 made by simp_all
    from S2 s2(4) names show ?thesis
    proof (cases rule: upsert_scratch)
      case (stop s3 v err)
      note O = only_memD [OF stop(2)]
      have "server_ok s3" "scratch_slot s3 b p ?n" using O S2 by simp_all
      from give_up_step [OF this, of ?full] obtain s4 where s4: "give_up b ?full s3 = Some (s4, Ok (Inl ?full))"
          "server_ok s4" "contents s4 = contents s3" "same_session s3 s4" by metis
      have "hset_expand env h pairs c e s = Some (s4, Ok (Inl ?full))"
        using made(1) s2(1) stop(1) s4(1) by (simp add: hset_expand_full)
      moreover have "expand_full ?hk c ?m pairs"
        unfolding expand_full_def
        by (intro exI [of _ "slice_at p ?n (sv_mem s2)"] exI [of _ v] exI [of _ err] conjI s2(4,5) stop(4)) simp
      ultimately show ?thesis
        by (intro that(2) [of s4 ?full]) (use s4 stop(3) s2(3) made(3,4) O2(1) O(1) in \<open>auto intro!: quiet_session dest: same_session_trans\<close>)
    next
      case (ok s3)
      note O = only_memD [OF ok(2)]
      let ?v = "slice_at p ?n (sv_mem s3)"
      let ?cnt = "int (card (dom (frame_map ?v)) - card (dom ?m))"
      have S3: "server_ok s3" "gaps (sv_table s3)" "sharded_map (sv_table s3) h = Some e" "scratch_slot s3 b p ?n"
        using O O2 S2 made(5) assms(2) e1(1) by simp_all
      obtain s4 where s4: "publish h b c ?ex (andthen (deallocate_step (te_slab_block_id e)) (\<lambda>_.
            andthen (if ?ex > 0 then schedule_step h b ?ex else ret ()) (\<lambda>_. ret (Inr ?cnt)))) s3 = Some (s4, Ok (Inr ?cnt))"
          "server_ok s4" "quiet s3 s4" "contents s4 = (contents s3)(h \<mapsto> hash_cell ?v ?ex)"
        by (rule replace_step [OF S3 c(1)])
      have "hset_expand env h pairs c e s = Some (s4, Ok (Inr ?cnt))"
        using made(1) s2(1,5) ok(1) s4(1) by (simp add: hset_expand_full)
      moreover have "?cnt = added pairs ?m" using ok(5) s2(5) by (simp add: added_def)
      moreover have "hset_done ?hk h pairs ?m (cell_expire c0) (contents s) (contents s4)"
        by (rule hset_doneI [OF _ ok(4) c(1)]) (use s4(4) ok(3,5) s2(3,5) made(3) ex in simp_all)
      moreover have "quiet s s4"
        using quiet_trans [OF quiet_session [OF same_session_trans [OF made(4) same_session_trans [OF O2(1) O(1)]]] s4(3)] .
      ultimately show ?thesis using that(1) s4(2) by metis
    qed
  qed
qed

section \<open>The command\<close>

text \<open>
  The pairs do not fit in place although the class chosen for them is smaller than the key's slot: the
  pairs of the key would move down.
\<close>

definition moves_down :: "(bytes \<Rightarrow> u64) \<Rightarrow> (bytes \<times> bytes) list \<Rightarrow> bytes \<Rightarrow> bool" where
  "moves_down hk pairs slot \<longleftrightarrow>
     (\<exists>v e c. upsert_all (frame_upsert hk) pairs 0 slot = Some (v, Err e) \<and>
        hash_slab_class (needed_bytes (Some slot) pairs) = Some c \<and> slot_bytes c < length slot)"

text \<open>The pairs fit into the slot that the key has.\<close>

definition in_place :: "(bytes \<Rightarrow> u64) \<Rightarrow> (bytes \<times> bytes) list \<Rightarrow> bytes \<Rightarrow> bool" where
  "in_place hk pairs slot \<longleftrightarrow>
     (\<exists>v n c. upsert_all (frame_upsert hk) pairs 0 slot = Some (v, Ok n) \<and>
        hash_slab_class (needed_bytes (Some slot) pairs) = Some c \<and> slot_bytes c \<le> length slot)"

text \<open>The pairs \<open>qs\<close> that an attempt in place has written when it fails: those before the first that does not
fit, and none when the slot is too small for an attempt.\<close>

definition tried :: "(bytes \<Rightarrow> u64) \<Rightarrow> SlabClassType \<Rightarrow> (bytes \<times> bytes) list \<Rightarrow> bytes \<Rightarrow> (bytes \<times> bytes) list \<Rightarrow> bool" where
  "tried hk c pairs slot qs \<longleftrightarrow>
     (if length slot < slot_bytes c then qs = []
      else (\<exists>q rs v e. pairs = qs @ q # rs \<and> upsert_all (frame_upsert hk) pairs 0 slot = Some (v, Err e) \<and>
              frame_map v = put_fields qs (frame_map slot)))"

lemma tried_prefix: "tried hk c pairs slot qs \<Longrightarrow> \<exists>rs. pairs = qs @ rs"
  by (auto simp: tried_def split: if_splits)

lemma hset_done_again:
  assumes "hset_done hk h (qs @ rs) (put_fields qs m) ex (st(h \<mapsto> x)) st'"
  shows "hset_done hk h (qs @ rs) m ex st st'"
  using assms by (auto simp: hset_done_def put_fields_again)

lemma cell_update: "cell_type c = VALUE_TYPE_HASH \<Longrightarrow> c\<lparr>cell_value := v\<rparr> = hash_cell v (cell_expire c)"
  by (cases c) (simp add: hash_cell_def)

lemma hset_existing_step:
  assumes ok: "server_ok s" "gaps (sv_table s)" and e: "sharded_map (sv_table s) h = Some e"
    and c0: "c0 = cell_of (sv_core s) (sv_mem s) e" "cell_type c0 = VALUE_TYPE_HASH" "hash_cell_ok (hash_key env) c0"
    and al: "alloc_ok env s c" and c: "hash_class c" and names: "named pairs"
    and down: "length (cell_value c0) \<le> slot_bytes c \<or> \<not> (\<exists>v e. upsert_all (frame_upsert (hash_key env)) pairs 0 (cell_value c0) = Some (v, Err e))"
  obtains (stays) s' where "hset_existing env h pairs c e s = Some (s', Ok (Inr (added pairs (frame_map (cell_value c0)))))" "server_ok s'"
      "quiet s s'" "hset_done (hash_key env) h pairs (frame_map (cell_value c0)) (cell_expire c0) (contents s) (contents s')"
      "slot_bytes c \<le> length (cell_value c0)" "\<exists>v n. upsert_all (frame_upsert (hash_key env)) pairs 0 (cell_value c0) = Some (v, Ok n)"
    | (moves) s' qs where "hset_existing env h pairs c e s = Some (s', Ok (Inr (added pairs (put_fields qs (frame_map (cell_value c0))))))"
      "server_ok s'" "quiet s s'" "tried (hash_key env) c pairs (cell_value c0) qs"
      "hset_done (hash_key env) h pairs (frame_map (cell_value c0)) (cell_expire c0) (contents s) (contents s')"
    | (failed) s' msg qs v where "hset_existing env h pairs c e s = Some (s', Ok (Inl msg))" "server_ok s'" "quiet s s'"
      "tried (hash_key env) c pairs (cell_value c0) qs"
      "contents s' = (contents s)(h \<mapsto> c0\<lparr>cell_value := v\<rparr>)" "frame_map v = put_fields qs (frame_map (cell_value c0))"
      "hashes_ok (hash_key env) (contents s) \<Longrightarrow> hashes_ok (hash_key env) (contents s')"
      "refused env s c \<and> msg = OOM \<or> expand_full (hash_key env) c (put_fields qs (frame_map (cell_value c0))) pairs \<and> msg = FULL_EXPAND"
proof -
  let ?hk = "hash_key env" and ?old = "cell_value c0" and ?n = "unat (te_value_len e)"
  let ?op = "upsert_all (frame_upsert ?hk) pairs 0"
  have heap: "heap_ok (sv_core s) (sharded_map (sv_table s))" using ok(1) by (simp add: server_ok_def)
  obtain p where p: "resolve_slot_ptr (te_slab_block_id e) (snd (sv_core s)) = Some p" by (rule heap_ok_resolves [OF heap e])
  obtain d where d: "hash_class d" "length ?old = slot_bytes d" and fok: "hash_frame_ok ?hk ?old" using c0(3) by (auto simp: hash_cell_ok_def)
  have len: "length ?old = ?n" using c0(1) p by (simp add: cell_of_def)
  have ty: "te_value_type e = VALUE_TYPE_HASH" using c0(1,2) by (simp add: cell_of_def)
  have cur: "(case for_size ?n of Some d \<Rightarrow> slot_bytes d | None \<Rightarrow> 0) = ?n"
    using d len by (auto simp: hash_class_def for_size_def geometry)
  have st: "contents s h = Some c0" using e c0(1) by (simp add: contents_def cells_def)
  have rp: "resolve_step (te_slab_block_id e) s = Some (s, Ok (Some p))" using p by (simp add: resolve_step_def)
  show ?thesis
  proof (cases "slot_bytes c \<le> ?n")
    case False
    then have eq: "hset_existing env h pairs c e s = hset_expand env h pairs c e s" using ty cur by (simp add: hset_existing_def)
    have small: "length ?old \<le> slot_bytes c" and tr: "tried ?hk c pairs ?old []" using False len by (simp_all add: tried_def)
    from ok e st c0(3) al c small names show ?thesis
    proof (cases rule: hset_expand_step)
      case (stored s1)
      show ?thesis by (rule that(2) [of s1 "[]"]) (use stored eq tr in simp_all)
    next
      case (failed s1 msg)
      have "contents s1 = (contents s)(h \<mapsto> c0\<lparr>cell_value := ?old\<rparr>)" using failed(4) st by (simp add: fun_upd_idem)
      then show ?thesis by (rule that(3) [rotated 4, of s1 ?old "[]" msg]) (use failed eq tr in simp_all)
    qed
  next
    case True
    from fok names show ?thesis
    proof (cases rule: upsert_all_frame)
      case (ok v)
      have "length v = ?n" using ok(3) len by simp
      from on_entry [where op = ?op, OF assms(1) e p ok(1) [unfolded c0(1)] this] obtain s1 where s1: "on_slot p ?n ?op s =
          Some (s1, Ok (Some (int (card (dom (frame_map v)) - card (dom (frame_map ?old))))))" "only_mem s s1"
          "contents s1 = (contents s)(h \<mapsto> c0\<lparr>cell_value := v\<rparr>)"
        unfolding c0(1) by auto
      note O = only_memD [OF s1(2)]
      have "hset_existing env h pairs c e s = Some (s1, Ok (Inr (added pairs (frame_map ?old))))"
        using ty cur True rp s1(1) ok(4) by (simp add: hset_existing_def upsert_pairs_def added_def)
      then show ?thesis
        by (rule that(1)) (use O assms(1) quiet_session s1(3) cell_update [OF c0(2)] ok d True len in \<open>auto intro!: hset_doneI\<close>)
    next
      case (stop v err qs q rs)
      have "length v = ?n" using stop(3) len by simp
      from on_entry [where op = ?op, OF assms(1) e p stop(1) [unfolded c0(1)] this] obtain s1 where s1:
          "on_slot p ?n ?op s = Some (s1, Ok None)" "only_mem s s1" "contents s1 = (contents s)(h \<mapsto> c0\<lparr>cell_value := v\<rparr>)"
        unfolding c0(1) by auto
      note O = only_memD [OF s1(2)]
      have eq: "hset_existing env h pairs c e s = hset_expand env h pairs c e s1"
        using ty cur True rp s1(1) by (simp add: hset_existing_def upsert_pairs_def)
      have tr: "tried ?hk c pairs ?old qs" using True len stop(1,4,5) unfolding tried_def by auto
      have small: "length (cell_value (c0\<lparr>cell_value := v\<rparr>)) \<le> slot_bytes c" using down stop(1,3) by auto
      have S1: "server_ok s1" "gaps (sv_table s1)" "sharded_map (sv_table s1) h = Some e" "alloc_ok env s1 c"
          "contents s1 h = Some (c0\<lparr>cell_value := v\<rparr>)" using O assms(1,2) e al s1(3) by simp_all
      have c1: "hash_cell_ok ?hk (c0\<lparr>cell_value := v\<rparr>)" using stop(2,3) d by (auto simp: hash_cell_ok_def)
      have ref: "refused env s1 c = refused env s c" using O by (simp add: refused_def)
      from S1(1-3,5) c1 S1(4) c small names show ?thesis
      proof (cases rule: hset_expand_step)
        case (stored s2)
        then have "hset_done ?hk h (qs @ q # rs) (put_fields qs (frame_map ?old)) (cell_expire c0)
            ((contents s)(h \<mapsto> c0\<lparr>cell_value := v\<rparr>)) (contents s2)"
          using s1(3) stop(4,5) by simp
        from hset_done_again [OF this] show ?thesis
          by (intro that(2) [of s2 qs]) (use stored eq stop(4,5) tr quiet_trans [OF quiet_session [OF O(1)]] in simp_all)
      next
        case (failed s2 msg)
        then show ?thesis
          by (intro that(3) [of s2 msg qs v]) (use eq tr ref s1(3) stop(5) c1 quiet_trans [OF quiet_session [OF O(1)]] in \<open>auto intro: hashes_ok_upd\<close>)
      qed
    qed
  qed
qed

text \<open>The slot whose pairs count towards the size.\<close>

definition hash_slot :: "Cell option \<Rightarrow> bytes option" where
  "hash_slot x = (case x of None \<Rightarrow> None | Some c \<Rightarrow> if cell_type c = VALUE_TYPE_HASH then Some (cell_value c) else None)"

lemma hset_needed_step:
  assumes ok: "server_ok s" "gaps (sv_table s)"
  obtains s' where "hset_needed env h pairs now s = Some (s', Ok (needed_bytes (hash_slot (visible_cell now (contents s h))) pairs))"
    "server_ok s'" "gaps (sv_table s')" "contents s' = contents s" "same_session s s'" "sv_core s' = sv_core s" "sv_calls s' = sv_calls s"
proof (cases "visible_cell now (contents s h)")
  case None
  obtain s1 where s1: "on_table (sh_lookup_checked now) h s = Some (s1, Ok None)" "server_ok s1" "contents s1 = contents s"
      "same_session s s1" "sv_core s1 = sv_core s" "sv_calls s1 = sv_calls s" "gaps (sv_table s1)"
    by (rule miss_step [OF ok(1) gaps_ready(1) [OF ok(2,1)] None]) (use ok(2) in blast)
  have "hset_needed env h pairs now s = Some (s1, Ok (needed_bytes (hash_slot None) pairs))"
    using s1(1) by (simp add: hset_needed_def hash_slot_def)
  then show ?thesis by (intro that [of s1]) (use s1 None ok(2) in simp_all)
next
  case (Some c)
  obtain s1 e p where s1: "on_table (sh_lookup_checked now) h s = Some (s1, Ok (Some e))"
      "server_ok s1" "contents s1 = contents s" "same_session s s1" "sv_core s1 = sv_core s" "sv_mem s1 = sv_mem s"
      "sv_calls s1 = sv_calls s" "gaps (sv_table s1)" "sharded_map (sv_table s1) h = Some e"
      "c = cell_of (sv_core s1) (sv_mem s1) e" "resolve_slot_ptr (te_slab_block_id e) (snd (sv_core s1)) = Some p"
    by (rule entry_step [OF ok Some])
  have "hset_needed env h pairs now s = Some (s1, Ok (needed_bytes (hash_slot (Some c)) pairs))"
    using s1(1,10,11) by (simp add: hset_needed_def hash_slot_def cell_of_def resolve_step_def read_slot_def andthen_def)
  then show ?thesis by (intro that [of s1]) (use s1 Some in simp_all)
qed

text \<open>
  What HSET does, with its reply. A new key is created with the pairs, or refused with the store as it was:
  too many bytes, no slot, or a fresh frame of the class that is too small.
\<close>

definition hset_new_result :: "Env \<Rightarrow> Server \<Rightarrow> u64 \<Rightarrow> (bytes \<times> bytes) list \<Rightarrow> Frame \<Rightarrow> store \<Rightarrow> bool" where
  "hset_new_result env s h pairs f st' \<longleftrightarrow>
     (case hash_slab_class (needed_bytes None pairs) of
        None \<Rightarrow> f = err HASH_TOO_LARGE \<and> st' = contents s
      | Some c \<Rightarrow>
          f = Integer (added pairs Map.empty) \<and> hset_done (hash_key env) h pairs Map.empty 0 (contents s) st' \<or>
          st' = contents s \<and> (refused env s c \<and> f = err OOM \<or> fresh_full (hash_key env) c pairs \<and> f = err FULL_INIT))"

text \<open>
  A hash is updated in its slot when the pairs fit there. Otherwise it moves, after the pairs \<open>qs\<close> that
  the attempt in place has written; when the move fails, these stay written.
\<close>

definition hset_hash_result :: "Env \<Rightarrow> Server \<Rightarrow> u64 \<Rightarrow> (bytes \<times> bytes) list \<Rightarrow> Cell \<Rightarrow> Frame \<Rightarrow> store \<Rightarrow> bool" where
  "hset_hash_result env s h pairs c0 f st' \<longleftrightarrow>
     (case hash_slab_class (needed_bytes (Some (cell_value c0)) pairs) of
        None \<Rightarrow> f = err HASH_TOO_LARGE \<and> st' = contents s
      | Some c \<Rightarrow>
          if in_place (hash_key env) pairs (cell_value c0)
          then f = Integer (added pairs (frame_map (cell_value c0))) \<and>
            hset_done (hash_key env) h pairs (frame_map (cell_value c0)) (cell_expire c0) (contents s) st'
          else (\<exists>qs. tried (hash_key env) c pairs (cell_value c0) qs \<and>
            (f = Integer (added pairs (put_fields qs (frame_map (cell_value c0)))) \<and>
               hset_done (hash_key env) h pairs (frame_map (cell_value c0)) (cell_expire c0) (contents s) st' \<or>
             (\<exists>v. st' = (contents s)(h \<mapsto> c0\<lparr>cell_value := v\<rparr>) \<and> frame_map v = put_fields qs (frame_map (cell_value c0))) \<and>
               (refused env s c \<and> f = err OOM \<or>
                expand_full (hash_key env) c (put_fields qs (frame_map (cell_value c0))) pairs \<and> f = err FULL_EXPAND))))"

definition hset_result :: "Env \<Rightarrow> Server \<Rightarrow> u64 \<Rightarrow> (bytes \<times> bytes) list \<Rightarrow> Cell option \<Rightarrow> Frame \<Rightarrow> store \<Rightarrow> bool" where
  "hset_result env s h pairs x f st' \<longleftrightarrow>
     (case x of
        None \<Rightarrow> hset_new_result env s h pairs f st'
      | Some c0 \<Rightarrow>
          if cell_type c0 = VALUE_TYPE_HASH then hset_hash_result env s h pairs c0 f st'
          else st' = contents s \<and> f = err (if hash_slab_class (needed_bytes None pairs) = None then HASH_TOO_LARGE else WRONGTYPE))"

lemma hset_result_cong:
  assumes "contents s' = contents s" "sv_core s' = sv_core s" "sv_calls s' = sv_calls s"
  shows "hset_result env s' h pairs x f st' = hset_result env s h pairs x f st'"
proof -
  have "refused env s' c = refused env s c" for c using assms(2,3) by (simp add: refused_def)
  then show ?thesis
    unfolding hset_result_def hset_new_result_def hset_hash_result_def using assms(1) by (simp split: option.split)
qed

lemma hset_result_too_large:
  "hash_slab_class (needed_bytes (hash_slot x) pairs) = None \<Longrightarrow> hset_result env s h pairs x (err HASH_TOO_LARGE) (contents s)"
  by (auto simp: hset_result_def hset_new_result_def hset_hash_result_def hash_slot_def split: option.split)

lemma tried_not_in_place:
  "tried hk c pairs slot qs \<Longrightarrow> hash_slab_class (needed_bytes (Some slot) pairs) = Some c \<Longrightarrow> \<not> in_place hk pairs slot"
  by (auto simp: tried_def in_place_def split: if_splits)

text \<open>A number is answered exactly when the pairs are stored.\<close>

lemma hset_result_done:
  assumes "hset_result env s h pairs x (Integer n) st'"
  obtains ex where "hset_done (hash_key env) h pairs (case hash_slot x of None \<Rightarrow> Map.empty | Some slot \<Rightarrow> frame_map slot) ex (contents s) st'"
  using assms by (auto simp: hset_result_def hset_new_result_def hset_hash_result_def hash_slot_def err_def split: option.splits if_splits)

lemma hset_done_hashes: "hset_done hk h pairs m ex st st' \<Longrightarrow> hashes_ok hk st \<Longrightarrow> hashes_ok hk st'"
  by (auto simp: hset_done_def intro: hashes_ok_upd)

lemma hash_slab_class: "hash_slab_class n = Some c \<Longrightarrow> hash_class c"
  by (auto simp: hash_slab_class_def hash_class_def split: if_splits)

text \<open>The second critical section.\<close>

lemma hset_body:
  assumes ok: "server_ok s" "gaps (sv_table s)" and hok: "hashes_ok (hash_key env) (contents s)" and names: "named pairs"
    and al: "alloc_ok env s c" and c: "hash_slab_class (needed_bytes (hash_slot (visible_cell now (contents s h))) pairs) = Some c"
    and down: "\<And>slot. hash_slot (visible_cell now (contents s h)) = Some slot \<Longrightarrow> \<not> moves_down (hash_key env) pairs slot"
  defines "body \<equiv> andthen (on_table (sh_lookup_checked now) h) (\<lambda>found. case found of
      Some e \<Rightarrow> hset_existing env h pairs c e
    | None \<Rightarrow> hset_new env h pairs c)"
  shows "\<exists>s' r f. body s = Some (s', Ok r) \<and> server_ok s' \<and> quiet s s' \<and> hashes_ok (hash_key env) (contents s') \<and>
    hset_result env s h pairs (visible_cell now (contents s h)) f (contents s') \<and>
    f = (case r of Inl msg \<Rightarrow> err msg | Inr n \<Rightarrow> Integer n)"
proof (cases "visible_cell now (contents s h)")
  case None
  obtain s1 where s1: "on_table (sh_lookup_checked now) h s = Some (s1, Ok None)" "server_ok s1"
      "contents s1 = contents s" "same_session s s1" "sv_core s1 = sv_core s" "sv_calls s1 = sv_calls s" "gaps (sv_table s1)"
    by (rule miss_step [OF ok(1) gaps_ready(1) [OF ok(2,1)] None]) (use ok(2) in blast)
  have eq: "body s = hset_new env h pairs c s1" using s1(1) by (simp add: body_def)
  have al1: "alloc_ok env s1 c" using al alloc_ok_cong [OF s1(5,6)] by simp
  from s1(2,7) al1 hash_slab_class [OF c] names show ?thesis
  proof (cases rule: hset_new_step [where h = h])
    case (stored s2)
    let ?n = "added pairs Map.empty"
    have "hset_result env s1 h pairs None (Integer ?n) (contents s2)"
      using stored(4) c None by (simp add: hset_result_def hset_new_result_def hash_slot_def)
    then show ?thesis using stored eq None s1(3) hok hset_done_hashes quiet_trans [OF quiet_session [OF s1(4)]]
      by (intro exI [of _ s2] exI [of _ "Inr ?n"] exI [of _ "Integer ?n"]) (auto simp: hset_result_cong [OF s1(3,5,6)])
  next
    case (failed s2 msg)
    have "hset_result env s1 h pairs None (err msg) (contents s2)"
      using failed(4,5) c None by (auto simp: hset_result_def hset_new_result_def hash_slot_def)
    then show ?thesis using failed eq None s1(3) hok quiet_trans [OF quiet_session [OF s1(4)]]
      by (intro exI [of _ s2] exI [of _ "Inl msg"] exI [of _ "err msg"]) (auto simp: hset_result_cong [OF s1(3,5,6)])
  qed
next
  case (Some c0)
  obtain s1 e p where s1: "on_table (sh_lookup_checked now) h s = Some (s1, Ok (Some e))"
      "server_ok s1" "contents s1 = contents s" "same_session s s1" "sv_core s1 = sv_core s" "sv_mem s1 = sv_mem s"
      "sv_calls s1 = sv_calls s" "gaps (sv_table s1)" "sharded_map (sv_table s1) h = Some e"
      "c0 = cell_of (sv_core s1) (sv_mem s1) e" "resolve_slot_ptr (te_slab_block_id e) (snd (sv_core s1)) = Some p"
    by (rule entry_step [OF ok Some])
  have eq: "body s = hset_existing env h pairs c e s1" using s1(1) by (simp add: body_def)
  have ty: "te_value_type e = cell_type c0" using s1(10) by (simp add: cell_of_def)
  show ?thesis
  proof (cases "cell_type c0 = VALUE_TYPE_HASH")
    case False
    then have "body s = Some (s1, Ok (Inl WRONGTYPE))" using eq ty by (simp add: hset_existing_def)
    moreover have "hset_result env s h pairs (Some c0) (err WRONGTYPE) (contents s)"
      using False c Some by (simp add: hset_result_def hash_slot_def)
    ultimately show ?thesis using s1(2,3) hok Some quiet_session [OF s1(4)]
      by (intro exI [of _ s1] exI [of _ "Inl WRONGTYPE"] exI [of _ "err WRONGTYPE"]) auto
  next
    case True
    have slot: "hash_slot (visible_cell now (contents s h)) = Some (cell_value c0)" using Some True by (simp add: hash_slot_def)
    have cls: "hash_slab_class (needed_bytes (Some (cell_value c0)) pairs) = Some c" using c slot by simp
    have al1: "alloc_ok env s1 c" using al alloc_ok_cong [OF s1(5,7)] by simp
    have cok: "hash_cell_ok (hash_key env) c0" by (rule hashes_okD [OF hok visible_cellD [OF Some] True])
    have down': "length (cell_value c0) \<le> slot_bytes c \<or>
        \<not> (\<exists>v e. upsert_all (frame_upsert (hash_key env)) pairs 0 (cell_value c0) = Some (v, Err e))"
      using down [OF slot] c unfolding slot moves_down_def by auto
    from s1(2,8,9,10) True cok al1 hash_slab_class [OF c] names down' show ?thesis
    proof (cases rule: hset_existing_step)
      case (stays s2)
      let ?n = "added pairs (frame_map (cell_value c0))"
      have "hset_result env s1 h pairs (Some c0) (Integer ?n) (contents s2)"
        using stays(4-6) True cls by (auto simp: hset_result_def hset_hash_result_def in_place_def)
      then show ?thesis using stays eq Some s1(3) hok hset_done_hashes quiet_trans [OF quiet_session [OF s1(4)]]
        by (intro exI [of _ s2] exI [of _ "Inr ?n"] exI [of _ "Integer ?n"]) (auto simp: hset_result_cong [OF s1(3,5,7)])
    next
      case (moves s2 qs)
      let ?n = "added pairs (put_fields qs (frame_map (cell_value c0)))"
      have "hset_result env s1 h pairs (Some c0) (Integer ?n) (contents s2)"
        using moves(4,5) True cls tried_not_in_place [OF moves(4) cls] by (auto simp: hset_result_def hset_hash_result_def)
      then show ?thesis using moves eq Some s1(3) hok hset_done_hashes quiet_trans [OF quiet_session [OF s1(4)]]
        by (intro exI [of _ s2] exI [of _ "Inr ?n"] exI [of _ "Integer ?n"]) (auto simp: hset_result_cong [OF s1(3,5,7)])
    next
      case (failed s2 msg qs v)
      have "hset_result env s1 h pairs (Some c0) (err msg) (contents s2)"
        unfolding hset_result_def hset_hash_result_def using failed(4-6,8) True cls tried_not_in_place [OF failed(4) cls] by auto
      then show ?thesis using failed eq Some s1(3) hok quiet_trans [OF quiet_session [OF s1(4)]]
        by (intro exI [of _ s2] exI [of _ "Inl msg"] exI [of _ "err msg"]) (auto simp: hset_result_cong [OF s1(3,5,7)])
    qed
  qed
qed

lemma hset_outcome:
  assumes ok: "server_ok s" "gaps (sv_table s)" and hok: "hashes_ok (hash_key env) (contents s)" and names: "named pairs"
    and al: "\<And>c. hash_class c \<Longrightarrow> alloc_ok env s c"
    and down: "\<And>slot. hash_slot (visible_cell now (contents s (hash_key env key))) = Some slot \<Longrightarrow> \<not> moves_down (hash_key env) pairs slot"
  shows "\<exists>s' f. hset_cmd env key pairs now s = Some (s', Ok ()) \<and> server_ok s' \<and> hashes_ok (hash_key env) (contents s') \<and>
    sv_out s' = sv_out s @ resp_bytes f \<and>
    hset_result env s (hash_key env key) pairs (visible_cell now (contents s (hash_key env key))) f (contents s')"
proof -
  let ?h = "hash_key env key"
  let ?x = "visible_cell now (contents s ?h)"
  obtain s1 where s1: "hset_needed env ?h pairs now s = Some (s1, Ok (needed_bytes (hash_slot ?x) pairs))"
      "server_ok s1" "gaps (sv_table s1)" "contents s1 = contents s" "same_session s s1" "sv_core s1 = sv_core s" "sv_calls s1 = sv_calls s"
    by (rule hset_needed_step [OF ok])
  have out1: "sv_out s1 = sv_out s" using s1(5) by (simp add: same_session_def)
  show ?thesis
  proof (cases "hash_slab_class (needed_bytes (hash_slot ?x) pairs)")
    case None
    then have "hset_cmd env key pairs now s = Some (says (err HASH_TOO_LARGE) s1, Ok ())"
      using s1(1) by (simp add: hset_cmd_def Let_def)
    then show ?thesis using s1(2,4) out1 hok hset_result_too_large [OF None]
      by (intro exI [of _ "says (err HASH_TOO_LARGE) s1"] exI [of _ "err HASH_TOO_LARGE"]) (simp del: resp_bytes.simps)
  next
    case (Some c)
    then have fits: "\<not> needed_bytes (hash_slot ?x) pairs > 4096" by (simp add: hash_slab_class_def split: if_splits)
    have al1: "alloc_ok env s1 c" using al [OF hash_slab_class [OF Some]] alloc_ok_cong [OF s1(6,7)] by simp
    obtain s2 r f where s2: "andthen (on_table (sh_lookup_checked now) ?h) (\<lambda>found. case found of
          Some e \<Rightarrow> hset_existing env ?h pairs c e | None \<Rightarrow> hset_new env ?h pairs c) s1 = Some (s2, Ok r)"
        "server_ok s2" "quiet s1 s2" "hashes_ok (hash_key env) (contents s2)"
        "hset_result env s ?h pairs ?x f (contents s2)" "f = (case r of Inl msg \<Rightarrow> err msg | Inr n \<Rightarrow> Integer n)"
      using hset_body [OF s1(2,3), of env pairs c now ?h] hok names al1 Some down unfolding s1(4) hset_result_cong [OF s1(4,6,7)] by metis
    have out2: "sv_out s2 = sv_out s" using s2(3) out1 by (simp add: quiet_def)
    have run: "hset_cmd env key pairs now s = (case r of Inl e \<Rightarrow> reply_error e
        | Inr n \<Rightarrow> andthen (emit_aof env AofHSet key (aof_pairs pairs) now) (\<lambda>_. reply_int n)) s2"
      unfolding hset_cmd_def Let_def using s1(1) s2(1) fits Some by simp
    show ?thesis
    proof (cases r)
      case (Inl msg)
      then show ?thesis using run s2 out2
        by (intro exI [of _ "says (err msg) s2"] exI [of _ "err msg"]) (simp del: resp_bytes.simps)
    next
      case (Inr n)
      obtain s3 where "andthen (emit_aof env AofHSet key (aof_pairs pairs) now) (\<lambda>_. reply_int n) s2 = Some (s3, Ok ())"
          "server_ok s3" "contents s3 = contents s2" "sv_out s3 = sv_out s2 @ resp_bytes (Integer n)"
        using emit_reply [OF s2(2), of True env AofHSet key "aof_pairs pairs" now n] by auto
      then show ?thesis using run s2 out2 Inr
        by (intro exI [of _ s3] exI [of _ "Integer n"]) (simp del: resp_bytes.simps)
    qed
  qed
qed

end
