(* ===== verification/Server_Hash_Props.thy ===== *)
theory Server_Hash_Props
  imports Server_Hash_Set Server_Correct
begin

text \<open>Properties of the hash commands on the abstract store.\<close>

section \<open>HSET\<close>

text \<open>\<^bold>\<open>C8.\<close> HSET, with the reply and the effect of every branch. A new key holds the pairs, has no expiry, and the
reply counts its fields; it is not created, with the error that says why, when no class holds the
pairs, when the pool refuses the slot, or when a fresh frame of the class is too small. A hash whose
slot has room holds the former fields overridden by the pairs in order, with the same expiry, and the
reply is the number of fields added. Otherwise it moves to a slot of the class, after the pairs \<open>qs\<close>
that the attempt in place has written, those before the first that does not fit: the fields are the
same as above, but the reply counts only what the pairs add to a hash that has \<open>qs\<close> already; and when
the pool refuses the slot, or the frame of the class is too small, the reply is that error and \<open>qs\<close> stay
written. Any other type is refused. No other cell changes. Hypotheses: a sound store, sound allocation,
non-empty field names, and that the key does not move to a smaller slot class.\<close>

theorem hset_refines:
  assumes "server_ok s" "gaps (sv_table s)" "hashes_ok (hash_key env) (contents s)" "named pairs"
    and "\<And>c. hash_class c \<Longrightarrow> alloc_ok env s c"
    and "\<And>slot. hash_slot (visible_cell now (contents s (hash_key env key))) = Some slot \<Longrightarrow> \<not> moves_down (hash_key env) pairs slot"
  shows "\<exists>s' f. handle_hashes env now (HSet key pairs) s = Some (s', Ok True) \<and> server_ok s' \<and>
    hashes_ok (hash_key env) (contents s') \<and> sv_out s' = sv_out s @ resp_bytes f \<and>
    hset_result env s (hash_key env key) pairs (visible_cell now (contents s (hash_key env key))) f (contents s')"
  using hset_outcome [OF assms] by (fastforce simp: handle_hashes_def)

lemma fresh_not_full:
  assumes "f \<noteq> []" "length f + length v \<le> 40"
  shows "\<not> fresh_full hk AppSmall [(f, v)]"
proof -
  have "\<exists>s. frame_upsert hk slot f v = Some (s, Ok (frame_map slot f = None))"
    if "frame_at hk slot 0 8 8 0" "length slot = 128" for slot
  proof -
    have u: "used_bytes slot 8 = 0" using live_pairs_facts(1,2) [OF that(1)] by simp
    have "is_pow2 8" using next_power_of_two_pow2 [of 3] by (simp add: is_pow2_def)
    from upsert_fits [OF that(1) assms(1) _ this, of v 13] show ?thesis
      using u that(2) assms(2) by (simp add: frame_upsert_def UPSERT_DEPTH_def eval_nat_numeral del: upsert_fuel.simps)
  qed
  then show ?thesis by (fastforce simp: fresh_full_def geometry default_k_for_capacity_def)
qed

text \<open>A new hash on a fresh server.\<close>

lemma fresh_hset:
  assumes "f \<noteq> []" "length f + length v \<le> 40" "hset_result example_env (fresh_server pw) h [(f, v)] None fr st"
  shows "fr = Integer 1" "hset_done (hash_key example_env) h [(f, v)] Map.empty 0 Map.empty st"
proof -
  have "hash_slab_class (needed_bytes None [(f, v)]) = Some AppSmall"
    using assms(2) by (simp add: needed_bytes_def hash_slab_class_def HEADER_SIZE_def BUCKET_SIZE_def eval_nat_numeral)
  then show "fr = Integer 1" "hset_done (hash_key example_env) h [(f, v)] Map.empty 0 Map.empty st"
    using assms(3) fresh_not_full [OF assms(1,2)] fresh_not_refused
    by (auto simp: hset_result_def hset_new_result_def added_def fresh_server_ok(3))
qed

theorem hset_refines_witness:
  "\<exists>s' v. handle_hashes example_env 5 (HSet (ascii ''k'') [([1], [2])]) (fresh_server None) = Some (s', Ok True) \<and>
     sv_out s' = resp_bytes (Integer 1) \<and> contents s' = [1 \<mapsto> hash_cell v 0] \<and> frame_map v = [[1] \<mapsto> [2]]"
proof -
  have k: "hash_key example_env (ascii ''k'') = 1" by (simp add: example_env_def ascii_def)
  have "hashes_ok (hash_key example_env) (contents (fresh_server None))" "named [([1], [2])]"
    "\<And>slot. hash_slot (visible_cell 5 (contents (fresh_server None) (hash_key example_env (ascii ''k'')))) = Some slot \<Longrightarrow>
       \<not> moves_down (hash_key example_env) [([1], [2])] slot"
    by (simp_all add: fresh_server_ok(3) hashes_ok_def named_def hash_slot_def)
  from hset_refines [OF fresh_server_ok(1,2) this(1,2) fresh_alloc_ok this(3), of 5 "ascii ''k''"] obtain s' f where
      run: "handle_hashes example_env 5 (HSet (ascii ''k'') [([1], [2])]) (fresh_server None) = Some (s', Ok True)"
      "sv_out s' = resp_bytes f" and r: "hset_result example_env (fresh_server None) 1 [([1], [2])] None f (contents s')"
    by (auto simp: fresh_server_ok(3) k fresh_out simp del: resp_bytes.simps)
  show ?thesis using run fresh_hset [OF _ _ r] by (auto simp: hset_done_def simp del: resp_bytes.simps)
qed

text \<open>A server that holds one hash, in a table with empty slots.\<close>

lemma one_entry_table:
  obtains t where "sharded_inv t" "gaps t" "sharded_map t = [h \<mapsto> x]"
proof -
  let ?shards = "with_total_capacity 0" and ?i = "shard_idx h"
  have clean: "clean (?shards ! ?i)" and gap0: "gaps ?shards"
    using shard_idx_less [of h] clean_with_capacity with_capacity_inv(3) by (auto simp: with_total_capacity_def gaps_def)
  obtain b len ex ty where x: "x = \<lparr>te_slab_block_id = b, te_value_len = len, te_expire_at_secs = ex, te_value_type = ty\<rparr>" by (cases x)
  obtain u where u: "insert_typed (?shards ! ?i) h b len ex ty = Some (u, Ok (map_option te_slab_block_id (table_map (?shards ! ?i) h)))" "clean u"
    using insert_clean [OF clean] by blast
  have ins: "sh_insert_typed b len ex ty ?shards h = Some (?shards[?i := u], Ok (map_option te_slab_block_id (table_map (?shards ! ?i) h)))"
    using u(1) by (simp add: sh_insert_typed_def with_shard_mut_def)
  note r = sh_insert.shards.op_refines [OF with_total_capacity_inv(1) ins [unfolded sh_insert_typed_def]]
  have "gaps (?shards[?i := u])"
    using gap0 clean_gap [OF u(2)] set_update_subset_insert [of ?shards ?i u] by (auto simp: gaps_def)
  then show ?thesis by (rule that [of "?shards[?i := u]", rotated]) (use r in \<open>simp_all add: spec_insert_def with_total_capacity_inv(2) x\<close>)
qed

lemma stored_hash:
  obtains s v where "server_ok s" "gaps (sv_table s)" "hashes_ok (hash_key example_env) (contents s)"
    "contents s = [1 \<mapsto> hash_cell v 0]" "frame_map v = [[1] \<mapsto> [2]]"
proof -
  let ?s = "fresh_server None" and ?ps = "[([1], [2])] :: (bytes \<times> bytes) list" and ?k = "ascii ''k''"
  have k: "hash_key example_env ?k = 1" by (simp add: example_env_def ascii_def)
  have H: "hashes_ok (hash_key example_env) (contents ?s)" "named ?ps"
    "\<And>slot. hash_slot (visible_cell 5 (contents ?s (hash_key example_env ?k))) = Some slot \<Longrightarrow> \<not> moves_down (hash_key example_env) ?ps slot"
    by (simp_all add: fresh_server_ok(3) hashes_ok_def named_def hash_slot_def)
  obtain s1 f where s1: "server_ok s1" "hashes_ok (hash_key example_env) (contents s1)" "hset_result example_env ?s 1 ?ps None f (contents s1)"
    using hset_outcome [where key = ?k and now = 5, OF fresh_server_ok(1,2) H(1,2) fresh_alloc_ok H(3)] by (auto simp: fresh_server_ok(3) k)
  then obtain v where v: "contents s1 = [1 \<mapsto> hash_cell v 0]" "frame_map v = [[1] \<mapsto> [2]]"
    using fresh_hset(2) [OF _ _ s1(3)] by (auto simp: hset_done_def)
  have "dom (sharded_map (sv_table s1)) = dom (contents s1)" by (auto simp: contents_def cells_def dom_def)
  then have d: "dom (sharded_map (sv_table s1)) = {1}" by (simp add: v(1))
  then obtain x where x: "sharded_map (sv_table s1) 1 = Some x" by blast
  then have m: "sharded_map (sv_table s1) = [1 \<mapsto> x]" using d by (auto simp: fun_eq_iff dom_def)
  obtain t where t: "sharded_inv t" "gaps t" "sharded_map t = [1 \<mapsto> x]" by (rule one_entry_table)
  let ?t = "s1\<lparr>sv_table := t\<rparr>"
  have "contents ?t = contents s1" "server_ok ?t" using t m s1(1) by (simp_all add: contents_def server_ok_def)
  then show ?thesis using that [of ?t v] t(2) s1(2) v by simp
qed

lemma frames_differ: "resp_bytes (Integer n) \<noteq> resp_bytes (err msg)"
proof -
  have "write_int ([58] @ []) n = [58] @ write_int [] n" by (rule write_app)
  then show ?thesis by (simp add: err_def encode_integer_def encode_error_def)
qed

text \<open>\<^bold>\<open>C9.\<close> Reading a hash back. After an HSET that answered a number, with non-empty field names and of a key
that did not move to a smaller slot class, HGET of any field, while the key is not expired, answers
the last value given for the field in the pairs, and for other fields what the key held before; a
field in neither reads as null. (A key that does move to a smaller class can lose fields although HSET
answers a number: the copy loop ignores the writes that fail.)\<close>

theorem hset_then_hget:
  assumes "server_ok s" "gaps (sv_table s)" "hashes_ok (hash_key env) (contents s)" "named pairs"
    and "\<And>c. hash_class c \<Longrightarrow> alloc_ok env s c"
    and "\<And>slot. hash_slot (visible_cell now (contents s (hash_key env key))) = Some slot \<Longrightarrow> \<not> moves_down (hash_key env) pairs slot"
    and set: "hset_cmd env key pairs now s = Some (s1, Ok ())" "sv_out s1 = sv_out s @ resp_bytes (Integer n)"
    and live: "visible_cell t (contents s1 (hash_key env key)) \<noteq> None"
  shows "\<exists>s2. hget_cmd env key field t s1 = Some (s2, Ok ()) \<and> contents s2 = contents s1 \<and>
    sv_out s2 = sv_out s1 @ resp_bytes
      (case map_of (rev pairs) field of
         Some v \<Rightarrow> BulkString v
       | None \<Rightarrow>
           (case hash_slot (visible_cell now (contents s (hash_key env key))) of
              None \<Rightarrow> Null
            | Some slot \<Rightarrow> (case frame_get (hash_key env) slot field of None \<Rightarrow> Null | Some v \<Rightarrow> BulkString v)))"
proof -
  let ?hk = "hash_key env" and ?h = "hash_key env key"
  let ?x = "visible_cell now (contents s ?h)"
  obtain f where f: "server_ok s1" "hashes_ok ?hk (contents s1)" "sv_out s1 = sv_out s @ resp_bytes f"
      "hset_result env s ?h pairs ?x f (contents s1)"
    using hset_outcome [where key = key and now = now, OF assms(1-6)] set(1) by auto
  have "f \<noteq> err msg" for msg using f(3) set(2) frames_differ by (metis same_append_eq)
  then have "\<exists>n. f = Integer n"
    using f(4) by (auto simp: hset_result_def hset_new_result_def hset_hash_result_def split: option.splits if_splits)
  then obtain m ex where d: "hset_done ?hk ?h pairs m ex (contents s) (contents s1)"
      and m: "m = (case hash_slot ?x of None \<Rightarrow> Map.empty | Some slot \<Rightarrow> frame_map slot)"
    using f(4) hset_result_done by metis
  obtain v where v: "contents s1 ?h = Some (hash_cell v ex)" "frame_map v = put_fields pairs m"
    using d by (auto simp: hset_done_def)
  have rdy: "table_ready (shard_of s1 ?h) ?h"
  proof -
    have "contents s1 ?h \<noteq> None" using v(1) by simp
    then show ?thesis by (simp add: table_ready_def shard_of_def shards_map_def)
  qed
  have vis: "visible_cell t (contents s1 ?h) = Some (hash_cell v ex)" using live v(1) by (auto split: if_splits)
  have slot: "frame_get ?hk slot field = frame_map slot field" if "hash_slot ?x = Some slot" for slot
    using that assms(3) visible_cellD [of now "contents s ?h"] hashes_okD [OF assms(3), of ?h]
    by (auto simp: hash_slot_def hash_cell_ok_def frame_get_ok split: option.splits if_splits)
  have "spec_hash_read ?hk t (HGet key field) (contents s1) =
      (case put_fields pairs m field of Some v \<Rightarrow> BulkString v | None \<Rightarrow> Null)"
    using vis v(2) by (simp add: spec_read_def hash_cell_def)
  also have "\<dots> = (case map_of (rev pairs) field of Some v \<Rightarrow> BulkString v
       | None \<Rightarrow> (case hash_slot ?x of None \<Rightarrow> Null
            | Some slot \<Rightarrow> (case frame_get ?hk slot field of None \<Rightarrow> Null | Some v \<Rightarrow> BulkString v)))"
    using m slot by (auto simp: put_fields_add map_add_def split: option.splits)
  finally show ?thesis using hget_answers [OF f(1) rdy f(2), of field t] unfolding answers_def by metis
qed

theorem hset_then_hget_witness:
  "\<exists>s1 s2. hset_cmd example_env (ascii ''k'') [([1], [2])] 5 (fresh_server None) = Some (s1, Ok ()) \<and>
     hget_cmd example_env (ascii ''k'') [1] 9 s1 = Some (s2, Ok ()) \<and> sv_out s2 = sv_out s1 @ resp_bytes (BulkString [2])"
proof -
  let ?s = "fresh_server None" and ?ps = "[([1], [2])] :: (bytes \<times> bytes) list" and ?k = "ascii ''k''"
  have H: "hashes_ok (hash_key example_env) (contents ?s)" "named ?ps"
    "\<And>slot. hash_slot (visible_cell 5 (contents ?s (hash_key example_env ?k))) = Some slot \<Longrightarrow> \<not> moves_down (hash_key example_env) ?ps slot"
    by (simp_all add: fresh_server_ok(3) hashes_ok_def named_def hash_slot_def)
  obtain s1 f where s1: "hset_cmd example_env ?k ?ps 5 ?s = Some (s1, Ok ())" "sv_out s1 = sv_out ?s @ resp_bytes f"
      "hset_result example_env ?s (hash_key example_env ?k) ?ps None f (contents s1)"
    using hset_outcome [where key = ?k and now = 5, OF fresh_server_ok(1,2) H(1,2) fresh_alloc_ok H(3)] by (auto simp: fresh_server_ok(3))
  have f: "f = Integer 1" "hset_done (hash_key example_env) (hash_key example_env ?k) ?ps Map.empty 0 Map.empty (contents s1)"
    using fresh_hset [OF _ _ s1(3)] by simp_all
  then obtain v where v: "contents s1 (hash_key example_env ?k) = Some (hash_cell v 0)" by (auto simp: hset_done_def)
  have "visible_cell 9 (contents s1 (hash_key example_env ?k)) \<noteq> None" by (simp add: v cell_expired_def hash_cell_def)
  from hset_then_hget [OF fresh_server_ok(1,2) H(1,2) fresh_alloc_ok H(3) s1(1) s1(2) [unfolded f(1)] this, of "[1]"] s1(1) show ?thesis
    by (auto simp del: resp_bytes.simps)
qed

section \<open>Readers\<close>

text \<open>\<^bold>\<open>C11.\<close> Hash readers. HGET, HEXISTS, HLEN and HGETALL answer from the finite map of fields of the key:
the value or null, membership, the number of fields, the list of all pairs; an absent or expired key
reads as an empty hash, another type is refused. No cell changes.\<close>

theorem hash_reads_refine:
  assumes "hash_reader cmd" "server_ok s" "gaps (sv_table s)" "hashes_ok (hash_key env) (contents s)"
  shows "\<exists>s'. handle_hashes env now cmd s = Some (s', Ok True) \<and> server_ok s' \<and> contents s' = contents s \<and>
    sv_out s' = sv_out s @ resp_bytes (spec_hash_read (hash_key env) now cmd (contents s))"
  using hash_reads_answer [OF assms, of now] unfolding answers_def by auto

theorem hash_reads_refine_witness:
  "\<exists>s s'. server_ok s \<and> handle_hashes example_env 5 (HGet (ascii ''k'') [1]) s = Some (s', Ok True) \<and>
     sv_out s' = sv_out s @ resp_bytes (BulkString [2]) \<and> contents s' = contents s"
proof -
  obtain s v where s: "server_ok s" "gaps (sv_table s)" "hashes_ok (hash_key example_env) (contents s)"
      "contents s = [1 \<mapsto> hash_cell v 0]" "frame_map v = [[1] \<mapsto> [2]]" by (rule stored_hash)
  have k: "hash_key example_env (ascii ''k'') = 1" by (simp add: example_env_def ascii_def)
  have "spec_hash_read (hash_key example_env) 5 (HGet (ascii ''k'') [1]) (contents s) = BulkString [2]"
    by (simp add: spec_read_def s(4,5) k hash_cell_def cell_expired_def)
  then show ?thesis
    using hash_reads_refine [OF _ s(1-3), of "HGet (ascii ''k'') [1]" 5] s(1) by (auto simp: hash_reader_def simp del: resp_bytes.simps)
qed

section \<open>HDEL\<close>

text \<open>\<^bold>\<open>C10.\<close> HDEL answers the number of distinct named fields that existed and removes exactly these; a hash
that loses its last field goes with its key. An absent key answers 0, another type is refused, and
no other cell changes.\<close>

theorem hdel_refines:
  assumes "server_ok s" "gaps (sv_table s)" "hashes_ok (hash_key env) (contents s)"
  shows "\<exists>s' f. handle_hashes env now (HDel key names) s = Some (s', Ok True) \<and> server_ok s' \<and>
    hashes_ok (hash_key env) (contents s') \<and> sv_out s' = sv_out s @ resp_bytes f \<and>
    (case visible_cell now (contents s (hash_key env key)) of
       None \<Rightarrow> f = Integer 0 \<and> contents s' = contents s
     | Some c \<Rightarrow>
         if cell_type c \<noteq> VALUE_TYPE_HASH then f = err WRONGTYPE \<and> contents s' = contents s
         else f = Integer (int (card (set names \<inter> dom (frame_map (cell_value c))))) \<and>
           hdel_result names (hash_key env key) c (contents s) (contents s'))"
proof -
  obtain s' f where "hdel_cmd env key names now s = Some (s', Ok ())" "server_ok s'" "hashes_ok (hash_key env) (contents s')"
      "sv_out s' = sv_out s @ resp_bytes f"
      "case visible_cell now (contents s (hash_key env key)) of
       None \<Rightarrow> f = Integer 0 \<and> contents s' = contents s
     | Some c \<Rightarrow>
         if cell_type c \<noteq> VALUE_TYPE_HASH then f = err WRONGTYPE \<and> contents s' = contents s
         else f = Integer (int (card (set names \<inter> dom (frame_map (cell_value c))))) \<and>
           hdel_result names (hash_key env key) c (contents s) (contents s')"
    using hdel_outcome [OF assms, of key names now] by blast
  then show ?thesis by (intro exI [of _ s'] exI [of _ f]) (simp add: handle_hashes_def)
qed

theorem hdel_refines_witness:
  "\<exists>s s'. server_ok s \<and> contents s \<noteq> Map.empty \<and> handle_hashes example_env 5 (HDel (ascii ''k'') [[1], [1], [3]]) s = Some (s', Ok True) \<and>
     sv_out s' = sv_out s @ resp_bytes (Integer 1) \<and> contents s' = Map.empty"
proof -
  obtain s v where s: "server_ok s" "gaps (sv_table s)" "hashes_ok (hash_key example_env) (contents s)"
      "contents s = [1 \<mapsto> hash_cell v 0]" "frame_map v = [[1] \<mapsto> [2]]" by (rule stored_hash)
  have k: "hash_key example_env (ascii ''k'') = 1" by (simp add: example_env_def ascii_def)
  have "hdel_result [[1], [1], [3]] 1 (hash_cell v 0) [1 \<mapsto> hash_cell v 0] st \<Longrightarrow> st = Map.empty" for st
    by (auto simp: hdel_result_def hash_cell_def s(5) split: if_splits)
  then show ?thesis
    using hdel_refines [OF s(1-3), of 5 "ascii ''k''" "[[1], [1], [3]]"] s(1)
    by (auto simp: k s(4,5) hash_cell_def cell_expired_def simp del: resp_bytes.simps)
qed

end
