(* ===== verification/Tensor_Descriptor.thy ===== *)
theory Tensor_Descriptor
  imports Slab
begin

text \<open>
  The descriptor of a KV-cache block (\<open>crates/kachedb-proto-tensor/src/descriptor.rs\<close>): the precision
  tags, the size of the tensor payload and the header that precedes it.
\<close>

datatype TensorDType = FP32 | FP16 | BF16 | FP8E4M3 | FP8E5M2 | INT8 | INT4

fun element_size_bytes :: "TensorDType \<Rightarrow> u64" where
  "element_size_bytes FP32 = 4"
| "element_size_bytes FP16 = 2"
| "element_size_bytes BF16 = 2"
| "element_size_bytes FP8E4M3 = 1"
| "element_size_bytes FP8E5M2 = 1"
| "element_size_bytes INT8 = 1"
| "element_size_bytes INT4 = 1"

record TensorBlockDescriptor =
  td_magic :: u32
  layer_id :: u16
  num_layers :: u16
  block_size :: u16
  num_heads :: u16
  head_dim :: u16
  dtype :: TensorDType
  sequence_prefix_hash :: u64
  payload_bytes :: u32

definition TENSOR_DESCRIPTOR_MAGIC :: u32 where
  "TENSOR_DESCRIPTOR_MAGIC = 0x4B414348"

text \<open>The products are computed in \<open>usize\<close>, of 64 bits.\<close>

definition compute_payload_size :: "u64 \<Rightarrow> u64 \<Rightarrow> u64 \<Rightarrow> u64 \<Rightarrow> TensorDType \<Rightarrow> u64" where
  "compute_payload_size layers heads block dim d = 2 * layers * heads * block * dim * element_size_bytes d"

definition TensorBlockDescriptor_new ::
    "u16 \<Rightarrow> u16 \<Rightarrow> u16 \<Rightarrow> u16 \<Rightarrow> u16 \<Rightarrow> TensorDType \<Rightarrow> u64 \<Rightarrow> TensorBlockDescriptor" where
  "TensorBlockDescriptor_new layer layers block heads dim d hash =
     \<lparr>td_magic = TENSOR_DESCRIPTOR_MAGIC, layer_id = layer, num_layers = layers, block_size = block, num_heads = heads,
      head_dim = dim, dtype = d, sequence_prefix_hash = hash,
      payload_bytes = ucast (compute_payload_size (ucast layers) (ucast heads) (ucast block) (ucast dim) d)\<rparr>"

definition is_valid :: "TensorBlockDescriptor \<Rightarrow> bool" where
  "is_valid d \<longleftrightarrow> td_magic d = TENSOR_DESCRIPTOR_MAGIC"

section \<open>The payload size\<close>

text \<open>The number of bytes that the shape of a descriptor describes.\<close>

definition tensor_bytes :: "TensorBlockDescriptor \<Rightarrow> nat" where
  "tensor_bytes t = 2 * unat (num_layers t) * unat (num_heads t) * unat (block_size t) * unat (head_dim t) *
     unat (element_size_bytes (dtype t))"

lemma payload_mod:
  "unat (payload_bytes (TensorBlockDescriptor_new layer layers block heads dim d hash)) =
    tensor_bytes (TensorBlockDescriptor_new layer layers block heads dim d hash) mod 2 ^ 32"
proof -
  let ?n = "tensor_bytes (TensorBlockDescriptor_new layer layers block heads dim d hash)"
  have u: "unat (ucast x :: u64) = unat x" for x :: u16
    using unsigned_less [of x, where ?'a = nat] by (simp add: unsigned_ucast_eq take_bit_nat_eq_self)
  have "compute_payload_size (ucast layers) (ucast heads) (ucast block) (ucast dim) d = of_nat ?n"
    by (simp add: compute_payload_size_def tensor_bytes_def TensorBlockDescriptor_new_def flip: u)
  then have "payload_bytes (TensorBlockDescriptor_new layer layers block heads dim d hash) = ucast (of_nat ?n :: u64)"
    by (simp add: TensorBlockDescriptor_new_def)
  then show ?thesis
    by (simp add: unsigned_ucast_eq unsigned_of_nat take_bit_take_bit take_bit_eq_mod mod_mod_cancel del: take_bit_of_nat)
qed

text \<open>The descriptor of a tensor block. It passes the integrity check, and its payload size is the size
of the two tensors of its shape if that is below 4 GB; otherwise it is the low 32 bits of it. The
block of the documentation (32 layers, 8 heads, 16 tokens, dimension 128, BF16) has a payload of exactly
2 MB, so with its 64-byte descriptor it fits in no slab class.\<close>

theorem descriptor_payload:
  "let t = TensorBlockDescriptor_new layer layers block heads dim d hash in
    is_valid t \<and> unat (payload_bytes t) = tensor_bytes t mod 2 ^ 32 \<and>
    (unat (payload_bytes t) = tensor_bytes t \<longleftrightarrow> tensor_bytes t < 2 ^ 32) \<and>
    for_size (CACHE_LINE_BYTES + unat (payload_bytes (TensorBlockDescriptor_new 0 32 16 8 128 BF16 hash))) = None"
proof -
  let ?t = "TensorBlockDescriptor_new layer layers block heads dim d hash"
  note m = payload_mod [of layer layers block heads dim d hash]
  have "tensor_bytes ?t mod 2 ^ 32 = tensor_bytes ?t \<longleftrightarrow> tensor_bytes ?t < 2 ^ 32" by (simp add: mod_eq_self_iff_div_eq_0 div_eq_0_iff)
  moreover have "unat (payload_bytes (TensorBlockDescriptor_new 0 32 16 8 128 BF16 hash)) = 2097152"
    unfolding payload_mod by (simp add: tensor_bytes_def TensorBlockDescriptor_new_def)
  moreover have "is_valid ?t" by (simp add: is_valid_def TensorBlockDescriptor_new_def)
  ultimately show ?thesis using m by (simp add: for_size_def geometry)
qed

end
