(* ===== verification/Shm_Channel.thy ===== *)
theory Shm_Channel
  imports Registry Tensor_Descriptor
begin

text \<open>
  The shared-memory channel between the daemon and an inference worker
  (\<open>crates/kachedb-shm/src/ring.rs\<close> and \<open>channel.rs\<close>): a ring of slots for one producer and one consumer,
  first as operations on a state, then as the interleaved steps of the two threads.
\<close>

section \<open>The ring header\<close>

datatype ConsumerState = ActiveSpin | Parked

fun state_code :: "ConsumerState \<Rightarrow> u32" where
  "state_code ActiveSpin = 0"
| "state_code Parked = 1"

record ShmRingHeader =
  rh_head :: u32
  rh_tail :: u32
  rh_consumer_state :: u32
  rh_capacity :: u32
  rh_eventfd :: int

definition init_at :: "u32 \<Rightarrow> int \<Rightarrow> ShmRingHeader" where
  "init_at cap fd =
     \<lparr>rh_head = 0, rh_tail = 0, rh_consumer_state = state_code ActiveSpin, rh_capacity = cap, rh_eventfd = fd\<rparr>"

definition consumer_state :: "ShmRingHeader \<Rightarrow> ConsumerState" where
  "consumer_state h = (if rh_consumer_state h = 1 then Parked else ActiveSpin)"

definition set_consumer_state :: "ConsumerState \<Rightarrow> ShmRingHeader \<Rightarrow> ShmRingHeader" where
  "set_consumer_state st h = h\<lparr>rh_consumer_state := state_code st\<rparr>"

definition has_space :: "ShmRingHeader \<Rightarrow> bool" where
  "has_space h \<longleftrightarrow> rh_head h - rh_tail h < rh_capacity h"

definition has_data :: "ShmRingHeader \<Rightarrow> bool" where
  "has_data h \<longleftrightarrow> rh_head h \<noteq> rh_tail h"

section \<open>The channel\<close>

record IpcSlot =
  ipc_descriptor :: TensorBlockDescriptor
  ipc_block :: SlabBlockId
  ipc_seq :: u64

datatype ShmError = InvalidCapacity u32 | RingFull u32 | RingEmpty

text \<open>The slots behind the header are a list; \<open>ch_park\<close> is the flag of the mutex.\<close>

record ShmChannel =
  ch_header :: ShmRingHeader
  ch_slots :: "IpcSlot list"
  ch_capacity :: u32
  ch_park :: bool

definition next_align :: "nat \<Rightarrow> nat \<Rightarrow> nat" where
  "next_align v a = (v + a - 1) div a * a"

text \<open>\<open>size_of\<close> of the two \<open>repr(C, align(64))\<close> structures: fields at their alignment, the end rounded up.\<close>

definition RING_HEADER_BYTES :: nat where "RING_HEADER_BYTES = 3 * CACHE_LINE_BYTES"

definition IPC_SLOT_BYTES :: nat where
  "IPC_SLOT_BYTES = next_align (next_align (CACHE_LINE_BYTES + 4) 8 + 8 + 56) 64"

definition required_bytes :: "u32 \<Rightarrow> nat" where
  "required_bytes cap = next_align RING_HEADER_BYTES 64 + unat cap * IPC_SLOT_BYTES"

definition is_power_of_two32 :: "u32 \<Rightarrow> bool" where
  "is_power_of_two32 c \<longleftrightarrow> next_power_of_two (unat c) = unat c"

text \<open>\<open>create\<close> on a mapped region whose slots hold any bytes.\<close>

definition create_channel :: "u32 \<Rightarrow> IpcSlot list \<Rightarrow> (ShmChannel, ShmError) outcome" where
  "create_channel cap region =
     (if cap = 0 \<or> \<not> is_power_of_two32 cap then Err (InvalidCapacity cap)
      else Ok \<lparr>ch_header = init_at cap (-1), ch_slots = region, ch_capacity = cap, ch_park = False\<rparr>)"

text \<open>\<open>attach\<close> maps the same header and slots; the mutex with its flag belongs to the handle.\<close>

definition attach_channel :: "u32 \<Rightarrow> ShmRingHeader \<Rightarrow> IpcSlot list \<Rightarrow> ShmChannel" where
  "attach_channel cap header region = \<lparr>ch_header = header, ch_slots = region, ch_capacity = cap, ch_park = False\<rparr>"

text \<open>The halves of \<open>push\<close> and \<open>try_pop\<close> around the write and the read of the slot.\<close>

definition write_ring :: "IpcSlot \<Rightarrow> ShmChannel \<Rightarrow> ShmChannel" where
  "write_ring x c = c\<lparr>ch_slots := (ch_slots c)[unat (rh_head (ch_header c) mod ch_capacity c) := x]\<rparr>"

definition bump_head :: "ShmChannel \<Rightarrow> ShmChannel" where
  "bump_head c = c\<lparr>ch_header := (ch_header c)\<lparr>rh_head := rh_head (ch_header c) + 1\<rparr>\<rparr>"

definition wake :: "ShmChannel \<Rightarrow> ShmChannel" where
  "wake c = c\<lparr>ch_park := True\<rparr>"

definition push :: "IpcSlot \<Rightarrow> ShmChannel \<Rightarrow> ShmChannel \<times> (unit, ShmError) outcome" where
  "push x c =
     (if \<not> has_space (ch_header c) then (c, Err (RingFull (ch_capacity c)))
      else (let c1 = bump_head (write_ring x c)
            in (if consumer_state (ch_header c1) = Parked then wake c1 else c1, Ok ())))"

definition read_ring :: "ShmChannel \<Rightarrow> IpcSlot" where
  "read_ring c = ch_slots c ! unat (rh_tail (ch_header c) mod ch_capacity c)"

definition bump_tail :: "ShmChannel \<Rightarrow> ShmChannel" where
  "bump_tail c = c\<lparr>ch_header := (ch_header c)\<lparr>rh_tail := rh_tail (ch_header c) + 1\<rparr>\<rparr>"

definition try_pop :: "ShmChannel \<Rightarrow> ShmChannel \<times> (IpcSlot, ShmError) outcome" where
  "try_pop c = (if \<not> has_data (ch_header c) then (c, Err RingEmpty) else (bump_tail c, Ok (read_ring c)))"

definition chan_pending :: "ShmChannel \<Rightarrow> u32" where
  "chan_pending c = rh_head (ch_header c) - rh_tail (ch_header c)"

definition chan_is_empty :: "ShmChannel \<Rightarrow> bool" where
  "chan_is_empty c \<longleftrightarrow> \<not> has_data (ch_header c)"

section \<open>Two threads\<close>

text \<open>
  One step is one access to shared memory. The producer calls \<open>push\<close> again and again, the consumer
  \<open>pop_blocking\<close>. \<open>sh_pushed\<close> and \<open>sh_popped\<close> record what was published and taken, in order.
\<close>

definition SPIN_LIMIT :: u32 where "SPIN_LIMIT = 2048"
definition YIELD_LIMIT :: u32 where "YIELD_LIMIT = 16"

datatype producer = PIdle | PChecked IpcSlot | PWritten IpcSlot | PPublished | PNotify

datatype consumer = CPoll | CHave | CRead IpcSlot | CTaken IpcSlot | CMissed | CPark | CWait

record Shm =
  sh_chan :: ShmChannel
  sh_producer :: producer
  sh_consumer :: consumer
  sh_spins :: u32
  sh_yields :: u32
  sh_pushed :: "IpcSlot list"
  sh_popped :: "IpcSlot list"

inductive producer_step :: "Shm \<Rightarrow> Shm \<Rightarrow> bool" where
  full: "sh_producer s = PIdle \<Longrightarrow> \<not> has_space (ch_header (sh_chan s)) \<Longrightarrow> producer_step s s"
| check: "sh_producer s = PIdle \<Longrightarrow> has_space (ch_header (sh_chan s)) \<Longrightarrow> producer_step s (s\<lparr>sh_producer := PChecked x\<rparr>)"
| put: "sh_producer s = PChecked x \<Longrightarrow>
    producer_step s (s\<lparr>sh_chan := write_ring x (sh_chan s), sh_producer := PWritten x\<rparr>)"
| publish: "sh_producer s = PWritten x \<Longrightarrow>
    producer_step s (s\<lparr>sh_chan := bump_head (sh_chan s), sh_producer := PPublished, sh_pushed := sh_pushed s @ [x]\<rparr>)"
| spinning: "sh_producer s = PPublished \<Longrightarrow> consumer_state (ch_header (sh_chan s)) = ActiveSpin \<Longrightarrow>
    producer_step s (s\<lparr>sh_producer := PIdle\<rparr>)"
| parked: "sh_producer s = PPublished \<Longrightarrow> consumer_state (ch_header (sh_chan s)) = Parked \<Longrightarrow>
    producer_step s (s\<lparr>sh_producer := PNotify\<rparr>)"
| notify: "sh_producer s = PNotify \<Longrightarrow> producer_step s (s\<lparr>sh_chan := wake (sh_chan s), sh_producer := PIdle\<rparr>)"

definition set_state :: "ConsumerState \<Rightarrow> ShmChannel \<Rightarrow> ShmChannel" where
  "set_state st c = c\<lparr>ch_header := set_consumer_state st (ch_header c)\<rparr>"

inductive consumer_step :: "Shm \<Rightarrow> Shm \<Rightarrow> bool" where
  found: "sh_consumer s = CPoll \<Longrightarrow> has_data (ch_header (sh_chan s)) \<Longrightarrow> consumer_step s (s\<lparr>sh_consumer := CHave\<rparr>)"
| missed: "sh_consumer s = CPoll \<Longrightarrow> \<not> has_data (ch_header (sh_chan s)) \<Longrightarrow> consumer_step s (s\<lparr>sh_consumer := CMissed\<rparr>)"
| read: "sh_consumer s = CHave \<Longrightarrow> consumer_step s (s\<lparr>sh_consumer := CRead (read_ring (sh_chan s))\<rparr>)"
| take: "sh_consumer s = CRead x \<Longrightarrow>
    consumer_step s (s\<lparr>sh_chan := bump_tail (sh_chan s), sh_consumer := CTaken x, sh_popped := sh_popped s @ [x]\<rparr>)"
| return: "sh_consumer s = CTaken x \<Longrightarrow>
    consumer_step s (s\<lparr>sh_chan := set_state ActiveSpin (sh_chan s), sh_consumer := CPoll, sh_spins := 0, sh_yields := 0\<rparr>)"
| spin: "sh_consumer s = CMissed \<Longrightarrow> sh_spins s < SPIN_LIMIT \<Longrightarrow>
    consumer_step s (s\<lparr>sh_spins := sh_spins s + 1, sh_consumer := CPoll\<rparr>)"
| yield: "sh_consumer s = CMissed \<Longrightarrow> \<not> sh_spins s < SPIN_LIMIT \<Longrightarrow> sh_yields s < YIELD_LIMIT \<Longrightarrow>
    consumer_step s (s\<lparr>sh_yields := sh_yields s + 1, sh_consumer := CPoll\<rparr>)"
| give_way: "sh_consumer s = CMissed \<Longrightarrow> \<not> sh_spins s < SPIN_LIMIT \<Longrightarrow> \<not> sh_yields s < YIELD_LIMIT \<Longrightarrow>
    consumer_step s (s\<lparr>sh_consumer := CPark\<rparr>)"
| park: "sh_consumer s = CPark \<Longrightarrow>
    consumer_step s (s\<lparr>sh_chan := set_state Parked (sh_chan s), sh_consumer := CWait\<rparr>)"
| woken: "sh_consumer s = CWait \<Longrightarrow> ch_park (sh_chan s) \<Longrightarrow>
    consumer_step s (s\<lparr>sh_consumer := CPoll, sh_spins := 0, sh_yields := 0\<rparr>)"

definition shm_start :: "ShmChannel \<Rightarrow> Shm" where
  "shm_start c = \<lparr>sh_chan = c, sh_producer = PIdle, sh_consumer = CPoll, sh_spins = 0, sh_yields = 0,
                  sh_pushed = [], sh_popped = []\<rparr>"

inductive shm_reach :: "ShmChannel \<Rightarrow> Shm \<Rightarrow> bool" for c where
  start: "shm_reach c (shm_start c)"
| producer: "shm_reach c s \<Longrightarrow> producer_step s s' \<Longrightarrow> shm_reach c s'"
| consumer: "shm_reach c s \<Longrightarrow> consumer_step s s' \<Longrightarrow> shm_reach c s'"

text \<open>
  The producer in another process: its handle is an attached one, so its steps act on the shared header and
  slots and on a flag of its own; the flag of the consumer's handle is untouched.
\<close>

inductive attached_step :: "Shm \<Rightarrow> Shm \<Rightarrow> bool" where
  remote: "producer_step (s\<lparr>sh_chan := attach_channel (ch_capacity (sh_chan s)) (ch_header (sh_chan s)) (ch_slots (sh_chan s))\<rparr>) u \<Longrightarrow>
    attached_step s (u\<lparr>sh_chan := (sh_chan u)\<lparr>ch_park := ch_park (sh_chan s)\<rparr>\<rparr>)"
| local: "consumer_step s s' \<Longrightarrow> attached_step s s'"

end
