(* ===== verification/Shm_Props.thy ===== *)
theory Shm_Props
  imports Shm_Channel
begin

text \<open>Correctness of the shared-memory channel: first in, first out under every interleaving, and where it stalls.\<close>

section \<open>Counters that wrap\<close>

text \<open>\<open>p\<close> messages published and \<open>q\<close> taken: the 32-bit indices keep their distance and their slot.\<close>

lemma counter_distance:
  assumes "q \<le> p" "p - q \<le> n" "n < 2 ^ 32"
  shows "unat ((of_nat p :: u32) - of_nat q) = p - q"
proof -
  have "(of_nat p :: u32) - of_nat q = of_nat (p - q)" using assms(1) by (simp add: of_nat_diff)
  then show ?thesis using assms(2,3) by (simp add: unsigned_of_nat take_bit_nat_eq_self)
qed

lemma counter_slot:
  assumes "unat c = 2 ^ n" "n < 32"
  shows "unat ((of_nat k :: u32) mod c) = k mod unat c"
proof -
  have "(2::nat) ^ n dvd 2 ^ 32" using assms(2) by (intro le_imp_power_dvd) simp
  then show ?thesis by (simp add: unat_mod unsigned_of_nat take_bit_eq_mod assms(1) mod_mod_cancel)
qed

lemma ring_slots_differ:
  assumes "q \<le> k" "k < p" "p - q < (cap::nat)"
  shows "k mod cap \<noteq> p mod cap"
proof
  assume "k mod cap = p mod cap"
  then have "cap dvd p - k" using assms(2) mod_eq_dvd_iff_nat [of k p cap] by simp
  then show False using assms nat_dvd_not_less [of "p - k" cap] by simp
qed

section \<open>The invariant\<close>

definition ring_ready :: "ShmChannel \<Rightarrow> bool" where
  "ring_ready c \<longleftrightarrow> (\<exists>n<32. unat (ch_capacity c) = 2 ^ n) \<and> rh_capacity (ch_header c) = ch_capacity c \<and>
     length (ch_slots c) = unat (ch_capacity c)"

text \<open>The channel holds the messages \<open>q\<close> to \<open>p - 1\<close> of the history.\<close>

definition ring_holds :: "ShmChannel \<Rightarrow> IpcSlot list \<Rightarrow> nat \<Rightarrow> bool" where
  "ring_holds c xs q \<longleftrightarrow> ring_ready c \<and> rh_head (ch_header c) = of_nat (length xs) \<and> rh_tail (ch_header c) = of_nat q \<and>
     q \<le> length xs \<and> length xs - q \<le> unat (ch_capacity c) \<and>
     (\<forall>k. q \<le> k \<longrightarrow> k < length xs \<longrightarrow> ch_slots c ! (k mod unat (ch_capacity c)) = xs ! k)"

lemma ring_holdsD:
  assumes "ring_holds c xs q"
  shows "has_space (ch_header c) \<longleftrightarrow> length xs - q < unat (ch_capacity c)" "has_data (ch_header c) \<longleftrightarrow> q < length xs"
    "unat (rh_head (ch_header c) mod ch_capacity c) = length xs mod unat (ch_capacity c)"
    "unat (rh_tail (ch_header c) mod ch_capacity c) = q mod unat (ch_capacity c)" "0 < unat (ch_capacity c)"
    "unat (chan_pending c) = length xs - q" "q < length xs \<Longrightarrow> read_ring c = xs ! q"
proof -
  obtain n where n: "n < 32" "unat (ch_capacity c) = 2 ^ n" using assms by (auto simp: ring_holds_def ring_ready_def)
  have small: "unat (ch_capacity c) < 2 ^ 32" by (rule unsigned_less [THEN less_le_trans]) simp
  note d = counter_distance [of q "length xs" "unat (ch_capacity c)"]
  have dist: "unat (rh_head (ch_header c) - rh_tail (ch_header c)) = length xs - q" using assms d small by (simp add: ring_holds_def)
  then show "has_space (ch_header c) \<longleftrightarrow> length xs - q < unat (ch_capacity c)" "unat (chan_pending c) = length xs - q"
    using assms by (simp_all add: has_space_def chan_pending_def ring_holds_def ring_ready_def word_less_nat_alt)
  have "rh_head (ch_header c) = rh_tail (ch_header c) \<longleftrightarrow> length xs - q = 0" using dist by (metis diff_self unat_0 right_minus_eq unat_eq_zero)
  then show "has_data (ch_header c) \<longleftrightarrow> q < length xs" using assms by (auto simp: has_data_def ring_holds_def)
  show "unat (rh_head (ch_header c) mod ch_capacity c) = length xs mod unat (ch_capacity c)"
    and tl: "unat (rh_tail (ch_header c) mod ch_capacity c) = q mod unat (ch_capacity c)"
    using assms counter_slot [OF n(2,1)] by (simp_all add: ring_holds_def)
  show "0 < unat (ch_capacity c)" using n by simp
  show "read_ring c = xs ! q" if "q < length xs" using that assms tl by (simp add: read_ring_def ring_holds_def)
qed

lemma ring_publish:
  assumes h: "ring_holds c xs q" and space: "length xs - q < unat (ch_capacity c)"
    and x: "ch_slots c ! (length xs mod unat (ch_capacity c)) = x"
  shows "ring_holds (bump_head c) (xs @ [x]) q"
  using assms by (auto simp: ring_holds_def ring_ready_def bump_head_def nth_append less_Suc_eq)

lemma ring_write:
  assumes h: "ring_holds c xs q" and space: "length xs - q < unat (ch_capacity c)"
  shows "ring_holds (write_ring x c) xs q" "ch_slots (write_ring x c) ! (length xs mod unat (ch_capacity c)) = x"
proof -
  note D = ring_holdsD [OF h]
  have "ch_slots (write_ring x c) ! (k mod unat (ch_capacity c)) = ch_slots c ! (k mod unat (ch_capacity c))"
    if "q \<le> k" "k < length xs" for k
    using ring_slots_differ [OF that space] D(3) by (simp add: write_ring_def)
  then show "ring_holds (write_ring x c) xs q" using h by (simp add: ring_holds_def ring_ready_def write_ring_def)
  show "ch_slots (write_ring x c) ! (length xs mod unat (ch_capacity c)) = x"
    using h D(3,5) by (simp add: write_ring_def ring_holds_def ring_ready_def)
qed

lemma ring_take: "ring_holds c xs q \<Longrightarrow> q < length xs \<Longrightarrow> ring_holds (bump_tail c) xs (Suc q)"
  by (auto simp: ring_holds_def ring_ready_def bump_tail_def)

lemma ring_flags: "ring_holds (wake c) xs q = ring_holds c xs q" "ring_holds (set_state st c) xs q = ring_holds c xs q"
  by (simp_all add: ring_holds_def ring_ready_def wake_def set_state_def set_consumer_state_def)

lemma set_state_fields [simp]: "ch_capacity (set_state st c) = ch_capacity c" "ch_slots (set_state st c) = ch_slots c"
  by (simp_all add: set_state_def)

section \<open>Every interleaving\<close>

definition shm_inv :: "Shm \<Rightarrow> bool" where
  "shm_inv s \<longleftrightarrow>
     (let c = sh_chan s; xs = sh_pushed s; q = length (sh_popped s); cap = unat (ch_capacity c)
      in ring_holds c xs q \<and> sh_popped s = take q xs \<and>
         (case sh_producer s of
            PChecked x \<Rightarrow> length xs - q < cap
          | PWritten x \<Rightarrow> length xs - q < cap \<and> ch_slots c ! (length xs mod cap) = x
          | _ \<Rightarrow> True) \<and>
         (case sh_consumer s of CHave \<Rightarrow> q < length xs | CRead x \<Rightarrow> q < length xs \<and> x = xs ! q | _ \<Rightarrow> True))"

lemma producer_step_inv:
  assumes "producer_step s s'" "shm_inv s"
  shows "shm_inv s'"
  using assms
proof (cases rule: producer_step.cases)
  case (check x)
  then show ?thesis using assms(2) ring_holdsD(1) by (auto simp: shm_inv_def Let_def)
next
  case (put x)
  then have h: "ring_holds (sh_chan s) (sh_pushed s) (length (sh_popped s))"
      "length (sh_pushed s) - length (sh_popped s) < unat (ch_capacity (sh_chan s))"
    using assms(2) by (simp_all add: shm_inv_def Let_def)
  have "ch_capacity (write_ring x (sh_chan s)) = ch_capacity (sh_chan s)" by (simp add: write_ring_def)
  then show ?thesis using put assms(2) ring_write [OF h, of x] h(2) by (simp add: shm_inv_def Let_def)
next
  case (publish x)
  then have h: "ring_holds (sh_chan s) (sh_pushed s) (length (sh_popped s))"
      "length (sh_pushed s) - length (sh_popped s) < unat (ch_capacity (sh_chan s))"
      "ch_slots (sh_chan s) ! (length (sh_pushed s) mod unat (ch_capacity (sh_chan s))) = x"
    using assms(2) by (simp_all add: shm_inv_def Let_def)
  have "length (sh_popped s) \<le> length (sh_pushed s)" using h(1) by (simp add: ring_holds_def)
  then show ?thesis using publish assms(2) ring_publish [OF h]
    by (auto simp: shm_inv_def Let_def nth_append split: consumer.splits)
qed (auto simp: shm_inv_def Let_def ring_flags)

lemma consumer_step_inv:
  assumes "consumer_step s s'" "shm_inv s"
  shows "shm_inv s'"
  using assms
proof (cases rule: consumer_step.cases)
  case found
  then show ?thesis using assms(2) ring_holdsD(2) by (auto simp: shm_inv_def Let_def)
next
  case read
  then show ?thesis using assms(2) ring_holdsD(7) by (auto simp: shm_inv_def Let_def)
next
  case (take x)
  then have h: "ring_holds (sh_chan s) (sh_pushed s) (length (sh_popped s))" "length (sh_popped s) < length (sh_pushed s)"
      "x = sh_pushed s ! length (sh_popped s)"
    using assms(2) by (simp_all add: shm_inv_def Let_def)
  have "ch_capacity (bump_tail (sh_chan s)) = ch_capacity (sh_chan s)" "ch_slots (bump_tail (sh_chan s)) = ch_slots (sh_chan s)"
    by (simp_all add: bump_tail_def)
  then show ?thesis using take assms(2) ring_take [OF h(1,2)] h(2,3)
    by (auto simp: shm_inv_def Let_def take_Suc_conv_app_nth split: producer.splits)
qed (auto simp: shm_inv_def Let_def ring_flags split: producer.splits)

lemma create_ready:
  assumes "create_channel cap region = Ok c" "length region = unat cap"
  shows "ring_holds c [] 0" "ch_capacity c = cap" "\<not> ch_park c" "consumer_state (ch_header c) = ActiveSpin"
proof -
  have c: "c = \<lparr>ch_header = init_at cap (-1), ch_slots = region, ch_capacity = cap, ch_park = False\<rparr>" "is_power_of_two32 cap"
    using assms(1) by (auto simp: create_channel_def split: if_splits)
  obtain n where n: "unat cap = 2 ^ n" using c(2) next_power_of_two_pow [of "unat cap"] by (metis is_power_of_two32_def)
  have "(2::nat) ^ n < 2 ^ 32" using n unsigned_less [of cap, where ?'a = nat] by simp
  then have "n < 32" by (simp only: power_strict_increasing_iff)
  then show "ring_holds c [] 0" using c(1) n assms(2) by (auto simp: ring_holds_def ring_ready_def init_at_def)
  show "ch_capacity c = cap" "\<not> ch_park c" "consumer_state (ch_header c) = ActiveSpin"
    using c(1) by (simp_all add: init_at_def consumer_state_def)
qed

lemma shm_reach_inv:
  assumes "shm_reach c s" "ring_holds c [] 0"
  shows "shm_inv s"
  using assms
proof (induction rule: shm_reach.induct)
  case start
  then show ?case by (simp add: shm_inv_def shm_start_def)
qed (auto intro: producer_step_inv consumer_step_inv)

definition example_slot :: "u64 \<Rightarrow> IpcSlot" where
  "example_slot n = \<lparr>ipc_descriptor = TensorBlockDescriptor_new 0 32 16 8 128 BF16 n, ipc_block = SlabBlockId_new 1 0, ipc_seq = n\<rparr>"

lemma example_channel:
  obtains c where "create_channel 4 (replicate 4 (example_slot 0)) = Ok c" "length (replicate 4 (example_slot 0)) = unat (4 :: u32)"
    "ch_capacity c = 4"
proof -
  have "is_power_of_two32 4" by (simp add: is_power_of_two32_def next_power_of_two_def bit_length.simps)
  then show ?thesis using that by (auto simp: create_channel_def)
qed

text \<open>\<^bold>\<open>C26.\<close> First in, first out, under every interleaving of a producer and a consumer. Whatever the two
threads have done since the channel was created, the consumer has received a prefix of what the
producer published, in order and each message once; the rest is in the ring, which never holds more
than its capacity; \<open>pending\<close> counts it. The indices may wrap around 2^32 any number of times. The producer
never writes the slot that the consumer is about to read.\<close>

theorem channel_is_fifo:
  assumes create: "create_channel cap region = Ok c" "length region = unat cap" and reach: "shm_reach c s"
  shows "(\<exists>rest. sh_pushed s = sh_popped s @ rest \<and> length rest \<le> unat (ch_capacity (sh_chan s)) \<and>
      unat (chan_pending (sh_chan s)) = length rest) \<and>
    (\<forall>x. sh_producer s = PChecked x \<longrightarrow> sh_consumer s = CHave \<longrightarrow>
      rh_head (ch_header (sh_chan s)) mod ch_capacity (sh_chan s) \<noteq> rh_tail (ch_header (sh_chan s)) mod ch_capacity (sh_chan s))"
proof -
  let ?c = "sh_chan s" and ?xs = "sh_pushed s" and ?q = "length (sh_popped s)"
  have inv: "shm_inv s" by (rule shm_reach_inv [OF reach create_ready(1) [OF create]])
  then have h: "ring_holds ?c ?xs ?q" and pre: "sh_popped s = take ?q ?xs" by (simp_all add: shm_inv_def Let_def)
  note D = ring_holdsD [OF h]
  have "?xs = sh_popped s @ drop ?q ?xs" using pre append_take_drop_id by metis
  moreover have "length (drop ?q ?xs) \<le> unat (ch_capacity ?c)" "unat (chan_pending ?c) = length (drop ?q ?xs)"
    using h D(6) by (simp_all add: ring_holds_def)
  moreover have "rh_head (ch_header ?c) mod ch_capacity ?c \<noteq> rh_tail (ch_header ?c) mod ch_capacity ?c"
    if "sh_producer s = PChecked x" "sh_consumer s = CHave" for x
  proof -
    have "?q < length ?xs" "length ?xs - ?q < unat (ch_capacity ?c)" using inv that by (simp_all add: shm_inv_def Let_def)
    then have "?q mod unat (ch_capacity ?c) \<noteq> length ?xs mod unat (ch_capacity ?c)" by (intro ring_slots_differ [of ?q]) simp_all
    then show ?thesis using D(3,4) by metis
  qed
  ultimately show ?thesis by blast
qed

theorem channel_is_fifo_witness:
  "\<exists>c. create_channel 4 (replicate 4 (example_slot 0)) = Ok c \<and>
     (\<exists>rest. sh_pushed (shm_start c) = sh_popped (shm_start c) @ rest \<and> unat (chan_pending (sh_chan (shm_start c))) = length rest)"
proof -
  obtain c where c: "create_channel 4 (replicate 4 (example_slot 0)) = Ok c" "length (replicate 4 (example_slot 0)) = unat (4 :: u32)"
    by (rule example_channel)
  show ?thesis using channel_is_fifo [OF c shm_reach.start] c(1) by blast
qed

section \<open>Parking\<close>

lemma polling:
  assumes "ring_holds c [] 0" "k \<le> 2048"
  shows "shm_reach c ((shm_start c)\<lparr>sh_spins := of_nat k\<rparr>)"
  using assms(2)
proof (induction k)
  case 0
  have "(shm_start c)\<lparr>sh_spins := of_nat 0\<rparr> = shm_start c" by (simp add: shm_start_def)
  then show ?case by (simp add: shm_reach.start)
next
  case (Suc k)
  let ?s = "(shm_start c)\<lparr>sh_spins := of_nat k\<rparr>"
  have "\<not> has_data (ch_header (sh_chan ?s))" using ring_holdsD(2) [OF assms(1)] by (simp add: shm_start_def)
  then have "consumer_step ?s (?s\<lparr>sh_consumer := CMissed\<rparr>)" by (intro consumer_step.missed) (simp_all add: shm_start_def)
  then have r: "shm_reach c (?s\<lparr>sh_consumer := CMissed\<rparr>)" using Suc shm_reach.consumer by auto
  have "(of_nat k :: u32) < 2048" using Suc.prems by (simp add: word_less_nat_alt unsigned_of_nat take_bit_nat_eq_self)
  then have "consumer_step (?s\<lparr>sh_consumer := CMissed\<rparr>) ((shm_start c)\<lparr>sh_spins := of_nat (Suc k)\<rparr>)"
    using consumer_step.spin [of "?s\<lparr>sh_consumer := CMissed\<rparr>"] by (simp add: shm_start_def SPIN_LIMIT_def add.commute)
  then show ?case using r shm_reach.consumer by blast
qed

lemma yielding:
  assumes "ring_holds c [] 0" "k \<le> 16"
  shows "shm_reach c ((shm_start c)\<lparr>sh_spins := 2048, sh_yields := of_nat k\<rparr>)"
  using assms(2)
proof (induction k)
  case 0
  have "(shm_start c)\<lparr>sh_spins := 2048, sh_yields := of_nat 0\<rparr> = (shm_start c)\<lparr>sh_spins := of_nat 2048\<rparr>" by (simp add: shm_start_def)
  then show ?case using polling [OF assms(1), of 2048] by simp
next
  case (Suc k)
  let ?s = "(shm_start c)\<lparr>sh_spins := 2048, sh_yields := of_nat k\<rparr>"
  have "\<not> has_data (ch_header (sh_chan ?s))" using ring_holdsD(2) [OF assms(1)] by (simp add: shm_start_def)
  then have "consumer_step ?s (?s\<lparr>sh_consumer := CMissed\<rparr>)" by (intro consumer_step.missed) (simp_all add: shm_start_def)
  then have r: "shm_reach c (?s\<lparr>sh_consumer := CMissed\<rparr>)" using Suc shm_reach.consumer by auto
  have "(of_nat k :: u32) < 16" using Suc.prems by (simp add: word_less_nat_alt unsigned_of_nat take_bit_nat_eq_self)
  then have "consumer_step (?s\<lparr>sh_consumer := CMissed\<rparr>) ((shm_start c)\<lparr>sh_spins := 2048, sh_yields := of_nat (Suc k)\<rparr>)"
    using consumer_step.yield [of "?s\<lparr>sh_consumer := CMissed\<rparr>"] by (simp add: shm_start_def SPIN_LIMIT_def YIELD_LIMIT_def add.commute)
  then show ?case using r shm_reach.consumer by blast
qed

text \<open>The consumer has given up polling an empty ring and is about to park.\<close>

lemma about_to_park:
  assumes "ring_holds c [] 0"
  shows "shm_reach c ((shm_start c)\<lparr>sh_spins := 2048, sh_yields := 16, sh_consumer := CPark\<rparr>)"
proof -
  let ?s = "(shm_start c)\<lparr>sh_spins := 2048, sh_yields := of_nat 16\<rparr>"
  have "\<not> has_data (ch_header (sh_chan ?s))" using ring_holdsD(2) [OF assms] by (simp add: shm_start_def)
  then have "consumer_step ?s (?s\<lparr>sh_consumer := CMissed\<rparr>)" by (intro consumer_step.missed) (simp_all add: shm_start_def)
  then have r: "shm_reach c (?s\<lparr>sh_consumer := CMissed\<rparr>)" using yielding [OF assms, of 16] shm_reach.consumer by auto
  have "consumer_step (?s\<lparr>sh_consumer := CMissed\<rparr>) ((shm_start c)\<lparr>sh_spins := 2048, sh_yields := 16, sh_consumer := CPark\<rparr>)"
    using consumer_step.give_way [of "?s\<lparr>sh_consumer := CMissed\<rparr>"] by (simp add: shm_start_def SPIN_LIMIT_def YIELD_LIMIT_def)
  then show ?thesis using r shm_reach.consumer by blast
qed

text \<open>One undisturbed \<open>push\<close> while the consumer is marked as spinning.\<close>

lemma push_unnoticed:
  assumes r: "shm_reach c s" and s: "sh_producer s = PIdle" "has_space (ch_header (sh_chan s))"
    and st: "consumer_state (ch_header (sh_chan s)) = ActiveSpin"
  shows "shm_reach c (s\<lparr>sh_chan := bump_head (write_ring x (sh_chan s)), sh_pushed := sh_pushed s @ [x]\<rparr>)"
proof -
  have 1: "shm_reach c (s\<lparr>sh_producer := PChecked x\<rparr>)" by (rule shm_reach.producer [OF r producer_step.check [OF s]])
  have 2: "shm_reach c (s\<lparr>sh_chan := write_ring x (sh_chan s), sh_producer := PWritten x\<rparr>)"
    using shm_reach.producer [OF 1 producer_step.put] by simp
  have 3: "shm_reach c (s\<lparr>sh_chan := bump_head (write_ring x (sh_chan s)), sh_producer := PPublished, sh_pushed := sh_pushed s @ [x]\<rparr>)"
    using shm_reach.producer [OF 2 producer_step.publish] by simp
  have "consumer_state (ch_header (bump_head (write_ring x (sh_chan s)))) = ActiveSpin"
    using st by (simp add: consumer_state_def bump_head_def write_ring_def)
  then have "shm_reach c (s\<lparr>sh_chan := bump_head (write_ring x (sh_chan s)), sh_pushed := sh_pushed s @ [x], sh_producer := PIdle\<rparr>)"
    using shm_reach.producer [OF 3 producer_step.spinning] by simp
  moreover have "s\<lparr>sh_chan := d, sh_pushed := ys, sh_producer := PIdle\<rparr> = s\<lparr>sh_chan := d, sh_pushed := ys\<rparr>" for d ys
    using s(1) by (cases s) simp
  ultimately show ?thesis by simp
qed

text \<open>
  A consumer that waits without the flag stays there until the producer publishes: only a publication can
  be followed by a notification.
\<close>

definition asleep :: "IpcSlot list \<Rightarrow> Shm \<Rightarrow> bool" where
  "asleep xs s \<longleftrightarrow> sh_pushed s = xs \<and> sh_popped s = [] \<and> sh_consumer s = CWait \<and> \<not> ch_park (sh_chan s) \<and>
     (sh_producer s = PIdle \<or> (\<exists>x. sh_producer s = PChecked x) \<or> (\<exists>x. sh_producer s = PWritten x))"

lemma asleep_step:
  assumes "producer_step s s' \<or> consumer_step s s'"
  shows "asleep xs s \<Longrightarrow> asleep xs s' \<or> length xs < length (sh_pushed s')" "length (sh_pushed s) \<le> length (sh_pushed s')"
  using assms by (auto simp: asleep_def write_ring_def bump_head_def elim!: producer_step.cases consumer_step.cases)

lemma asleep_steps:
  assumes "(\<lambda>s s'. producer_step s s' \<or> consumer_step s s')\<^sup>*\<^sup>* s s'" "asleep xs s"
  shows "asleep xs s' \<or> length xs < length (sh_pushed s')"
  using assms
proof (induction rule: rtranclp_induct)
  case (step y z)
  then show ?case using asleep_step [OF step(2)] by (meson order.strict_trans2)
qed simp

text \<open>\<^bold>\<open>C31.\<close> A lost wakeup. On every new channel there is a run in which the consumer finds the ring empty, the
producer pushes a message while the consumer is still marked as spinning, and the consumer then
parks: the message is in the ring, the producer is idle and has nothing left to signal, and the
consumer can take no step. Whatever steps follow, the consumer stays parked and the message undelivered
as long as the producer does not publish another message; if it does, it sees the consumer parked.\<close>

theorem wakeup_can_be_lost:
  assumes create: "create_channel cap region = Ok c" "length region = unat cap"
  shows "\<exists>s. shm_reach c s \<and> sh_pushed s = [x] \<and> sh_popped s = [] \<and> sh_producer s = PIdle \<and> sh_consumer s = CWait \<and>
    unat (chan_pending (sh_chan s)) = 1 \<and> consumer_state (ch_header (sh_chan s)) = Parked \<and> (\<forall>s'. \<not> consumer_step s s') \<and>
    (\<forall>s'. (\<lambda>s s'. producer_step s s' \<or> consumer_step s s')\<^sup>*\<^sup>* s s' \<longrightarrow>
       sh_consumer s' = CWait \<and> sh_pushed s' = [x] \<and> sh_popped s' = [] \<or> 1 < length (sh_pushed s'))"
proof -
  note R = create_ready [OF create] and D = ring_holdsD [OF create_ready(1) [OF create]]
  let ?s = "(shm_start c)\<lparr>sh_spins := 2048, sh_yields := 16, sh_consumer := CPark\<rparr>"
  let ?d = "bump_head (write_ring x c)"
  let ?s1 = "?s\<lparr>sh_chan := ?d, sh_pushed := [x]\<rparr>"
  let ?s2 = "?s1\<lparr>sh_chan := set_state Parked ?d, sh_consumer := CWait\<rparr>"
  have "has_space (ch_header (sh_chan ?s))" "consumer_state (ch_header (sh_chan ?s)) = ActiveSpin" "sh_producer ?s = PIdle"
    using D(1,5) R(4) by (simp_all add: shm_start_def)
  from push_unnoticed [OF about_to_park [OF R(1)] this(3,1,2), of x] have "shm_reach c ?s1" by (simp add: shm_start_def)
  moreover have "consumer_step ?s1 ?s2" using consumer_step.park [of ?s1] by simp
  ultimately have r: "shm_reach c ?s2" using shm_reach.consumer by blast
  have "\<not> ch_park (sh_chan ?s2)" using R(3) by (simp add: set_state_def bump_head_def write_ring_def)
  then have "\<not> consumer_step ?s2 s'" for s' by (auto elim: consumer_step.cases)
  moreover have "ring_holds (sh_chan ?s2) [x] 0" using shm_reach_inv [OF r R(1)] by (simp add: shm_inv_def Let_def shm_start_def)
  then have "unat (chan_pending (sh_chan ?s2)) = 1" using ring_holdsD(6) by fastforce
  moreover have "asleep [x] ?s2" using \<open>\<not> ch_park (sh_chan ?s2)\<close> by (simp add: asleep_def shm_start_def)
  then have "sh_consumer s' = CWait \<and> sh_pushed s' = [x] \<and> sh_popped s' = [] \<or> 1 < length (sh_pushed s')"
    if "(\<lambda>s s'. producer_step s s' \<or> consumer_step s s')\<^sup>*\<^sup>* ?s2 s'" for s'
    using asleep_steps [OF that, of "[x]"] by (auto simp: asleep_def)
  moreover have "consumer_state (ch_header (sh_chan ?s2)) = Parked" by (simp add: set_state_def consumer_state_def set_consumer_state_def)
  ultimately show ?thesis using r by (intro exI [of _ ?s2]) (simp add: shm_start_def)
qed

theorem wakeup_can_be_lost_witness:
  "\<exists>c s. create_channel 4 (replicate 4 (example_slot 0)) = Ok c \<and> shm_reach c s \<and> sh_pushed s = [example_slot 7] \<and>
     (\<forall>s'. \<not> consumer_step s s')"
proof -
  obtain c where c: "create_channel 4 (replicate 4 (example_slot 0)) = Ok c" "length (replicate 4 (example_slot 0)) = unat (4 :: u32)"
    by (rule example_channel)
  show ?thesis using wakeup_can_be_lost [OF c, of "example_slot 7"] c(1) by blast
qed

text \<open>The flag of the mutex is never cleared: after the first wakeup the consumer does not block again.\<close>

lemma wakeup_is_sticky:
  assumes "producer_step s s' \<or> consumer_step s s'" "ch_park (sh_chan s)"
  shows "ch_park (sh_chan s') \<and> (\<exists>s''. consumer_step s' s'')"
proof -
  have "ch_park (sh_chan s')"
    using assms by (auto elim!: producer_step.cases consumer_step.cases
        simp: write_ring_def bump_head_def wake_def bump_tail_def set_state_def)
  moreover have "\<exists>s''. consumer_step s' s''" if "ch_park (sh_chan s')"
    using that by (cases "sh_consumer s'") (blast intro: consumer_step.intros)+
  ultimately show ?thesis by blast
qed

text \<open>
  A producer in another process never wakes the consumer: once the consumer waits, it waits for ever,
  whatever the producer publishes.
\<close>

lemma attached_step_waits:
  assumes "attached_step s s'" "\<not> ch_park (sh_chan s)"
  shows "\<not> ch_park (sh_chan s') \<and> (sh_consumer s = CWait \<longrightarrow> sh_consumer s' = CWait \<and> sh_popped s' = sh_popped s)"
  using assms(1)
proof (cases rule: attached_step.cases)
  case (remote u)
  then show ?thesis using assms(2) by (auto elim!: producer_step.cases)
next
  case local
  then show ?thesis using assms(2)
    by (auto elim!: consumer_step.cases simp: bump_tail_def set_state_def)
qed

theorem attached_consumer_sleeps:
  assumes "create_channel cap region = Ok c" "length region = unat cap"
    and "attached_step\<^sup>*\<^sup>* (shm_start c) s" "sh_consumer s = CWait" "attached_step\<^sup>*\<^sup>* s s'"
  shows "sh_consumer s' = CWait \<and> sh_popped s' = sh_popped s"
proof -
  have park: "\<not> ch_park (sh_chan s)" using assms(3)
  proof (induction rule: rtranclp_induct)
    case base
    show ?case using create_ready(3) [OF assms(1,2)] by (simp add: shm_start_def)
  qed (use attached_step_waits in blast)
  have "\<not> ch_park (sh_chan s') \<and> sh_consumer s' = CWait \<and> sh_popped s' = sh_popped s"
    using assms(5)
  proof (induction rule: rtranclp_induct)
    case base
    show ?case using park assms(4) by simp
  next
    case (step y z)
    then show ?case using attached_step_waits by metis
  qed
  then show ?thesis by blast
qed

section \<open>The channel as a bounded queue\<close>

fun enq_all :: "('a \<Rightarrow> 'c \<Rightarrow> 'c \<times> (unit, 'e) outcome) \<Rightarrow> 'a list \<Rightarrow> 'c \<Rightarrow> 'c \<times> bool" where
  "enq_all enq [] c = (c, True)"
| "enq_all enq (x # xs) c = (case enq x c of (c', Ok _) \<Rightarrow> enq_all enq xs c' | (c', _) \<Rightarrow> (c', False))"

fun deq_all :: "('c \<Rightarrow> 'c \<times> ('a, 'e) outcome) \<Rightarrow> nat \<Rightarrow> 'c \<Rightarrow> 'c \<times> 'a list" where
  "deq_all deq 0 c = (c, [])"
| "deq_all deq (Suc n) c =
     (case deq c of (c', Ok x) \<Rightarrow> (case deq_all deq n c' of (c'', xs) \<Rightarrow> (c'', x # xs)) | (c', _) \<Rightarrow> (c', []))"

locale bounded_queue =
  fixes holds :: "'c \<Rightarrow> 'a list \<Rightarrow> bool" and bound :: "'c \<Rightarrow> nat"
    and enq :: "'a \<Rightarrow> 'c \<Rightarrow> 'c \<times> (unit, 'e) outcome" and deq :: "'c \<Rightarrow> 'c \<times> ('a, 'e) outcome"
  assumes enq_room: "holds c xs \<Longrightarrow> length xs < bound c \<Longrightarrow> \<exists>c'. enq x c = (c', Ok ()) \<and> holds c' (xs @ [x]) \<and> bound c' = bound c"
    and enq_full: "holds c xs \<Longrightarrow> \<not> length xs < bound c \<Longrightarrow> \<exists>e. enq x c = (c, Err e)"
    and deq_some: "holds c (x # xs) \<Longrightarrow> \<exists>c'. deq c = (c', Ok x) \<and> holds c' xs \<and> bound c' = bound c"
    and deq_none: "holds c [] \<Longrightarrow> \<exists>e. deq c = (c, Err e)"
begin

lemma enq_all_room:
  assumes "holds c xs" "length xs + length ys \<le> bound c"
  shows "\<exists>c'. enq_all enq ys c = (c', True) \<and> holds c' (xs @ ys) \<and> bound c' = bound c"
  using assms
proof (induction ys arbitrary: c xs)
  case (Cons y ys)
  obtain c1 where c1: "enq y c = (c1, Ok ())" "holds c1 (xs @ [y])" "bound c1 = bound c"
    using enq_room [OF Cons.prems(1), of y] Cons.prems(2) by auto
  show ?case using Cons.IH [OF c1(2)] Cons.prems(2) c1(1,3) by simp
qed simp

lemma enq_all_full:
  assumes "holds c xs" "length xs + length ys > bound c" "length xs \<le> bound c"
  shows "\<exists>c'. enq_all enq ys c = (c', False) \<and> holds c' (take (bound c) (xs @ ys)) \<and> bound c' = bound c"
  using assms
proof (induction ys arbitrary: c xs)
  case (Cons y ys)
  show ?case
  proof (cases "length xs < bound c")
    case True
    obtain c1 where c1: "enq y c = (c1, Ok ())" "holds c1 (xs @ [y])" "bound c1 = bound c"
      using enq_room [OF Cons.prems(1) True, of y] by auto
    show ?thesis using Cons.IH [OF c1(2)] Cons.prems(2) True c1(1,3) by simp
  next
    case False
    then show ?thesis using enq_full [OF Cons.prems(1) False, of y] Cons.prems by auto
  qed
qed simp

lemma deq_all_some:
  assumes "holds c xs"
  shows "\<exists>c'. deq_all deq n c = (c', take n xs) \<and> holds c' (drop n xs) \<and> bound c' = bound c"
  using assms
proof (induction n arbitrary: c xs)
  case (Suc n)
  show ?case
  proof (cases xs)
    case Nil
    then show ?thesis using deq_none Suc.prems by fastforce
  next
    case (Cons x ys)
    obtain c1 where c1: "deq c = (c1, Ok x)" "holds c1 ys" "bound c1 = bound c" using deq_some Suc.prems Cons by blast
    show ?thesis using Suc.IH [OF c1(2)] c1(1,3) Cons by auto
  qed
qed simp

end

definition queued :: "ShmChannel \<Rightarrow> IpcSlot list \<Rightarrow> bool" where
  "queued c xs \<longleftrightarrow> (\<exists>hist q. ring_holds c hist q \<and> xs = drop q hist)"

interpretation shm_ring: bounded_queue queued "\<lambda>c. unat (ch_capacity c)" push try_pop
proof unfold_locales
  fix c x and xs :: "IpcSlot list"
  assume q: "queued c xs"
  then obtain hist q where h: "ring_holds c hist q" "xs = drop q hist" by (auto simp: queued_def)
  note D = ring_holdsD [OF h(1)]
  have len: "length xs = length hist - q" using h(2) by simp
  show "\<exists>c'. push x c = (c', Ok ()) \<and> queued c' (xs @ [x]) \<and> unat (ch_capacity c') = unat (ch_capacity c)"
    if "length xs < unat (ch_capacity c)"
  proof -
    have space: "length hist - q < unat (ch_capacity c)" using that len by simp
    have cap: "ch_capacity (write_ring x c) = ch_capacity c" by (simp add: write_ring_def)
    have "ring_holds (bump_head (write_ring x c)) (hist @ [x]) q"
      using ring_publish [OF ring_write(1) [OF h(1) space]] ring_write(2) [OF h(1) space] space cap by simp
    moreover have "drop q (hist @ [x]) = xs @ [x]" using h by (simp add: ring_holds_def)
    ultimately have "queued (bump_head (write_ring x c)) (xs @ [x])" "queued (wake (bump_head (write_ring x c))) (xs @ [x])"
      unfolding queued_def ring_flags by (metis, metis)
    then show ?thesis using D(1) space by (simp add: push_def Let_def) (simp add: wake_def bump_head_def write_ring_def)
  qed
  show "\<exists>e. push x c = (c, Err e)" if "\<not> length xs < unat (ch_capacity c)" using that D(1) len by (simp add: push_def)
next
  fix c x and xs :: "IpcSlot list"
  assume "queued c (x # xs)"
  then obtain hist q where h: "ring_holds c hist q" "x # xs = drop q hist" by (auto simp: queued_def)
  note D = ring_holdsD [OF h(1)]
  have q: "q < length hist" using h(2) by (metis drop_eq_Nil leI list.distinct(1))
  have "x = hist ! q" "xs = drop (Suc q) hist" using h(2) Cons_nth_drop_Suc [OF q] by (metis list.inject)+
  then show "\<exists>c'. try_pop c = (c', Ok x) \<and> queued c' xs \<and> unat (ch_capacity c') = unat (ch_capacity c)"
    using D(2,7) q ring_take [OF h(1) q] by (auto simp: try_pop_def queued_def bump_tail_def)
next
  fix c
  assume "queued c []"
  then obtain hist q where h: "ring_holds c hist q" "[] = drop q hist" by (auto simp: queued_def)
  then show "\<exists>e. try_pop c = (c, Err e)" using ring_holdsD(2) [OF h(1)] by (simp add: try_pop_def)
qed

text \<open>The channel without concurrency is a bounded queue. Pushing a list of messages onto a new channel
succeeds for all of them if they are at most the capacity, and otherwise stops with \<open>RingFull\<close> after
exactly the capacity; popping then returns the stored messages in order and, after the last, \<open>RingEmpty\<close>.\<close>

theorem channel_batches:
  assumes create: "create_channel cap region = Ok c" "length region = unat cap"
  shows "\<exists>c1 c2. enq_all push ys c = (c1, length ys \<le> unat cap) \<and>
    deq_all try_pop (length ys) c1 = (c2, take (unat cap) ys) \<and> try_pop c2 = (c2, Err RingEmpty)"
proof -
  have q: "queued c []" "ch_capacity c = cap" using create_ready(1,2) [OF create] by (auto simp: queued_def)
  obtain c1 where c1: "enq_all push ys c = (c1, length ys \<le> unat cap)" "queued c1 (take (unat cap) ys)"
    using shm_ring.enq_all_room [OF q(1), of ys] shm_ring.enq_all_full [OF q(1), of ys] q(2)
    by (cases "length ys \<le> unat cap") auto
  have all: "take (length ys) (take (unat cap) ys) = take (unat cap) ys" "drop (length ys) (take (unat cap) ys) = []"
    by (simp_all add: take_all_iff del: take_take)
  obtain c2 where c2: "deq_all try_pop (length ys) c1 = (c2, take (unat cap) ys)" "queued c2 []"
    using shm_ring.deq_all_some [OF c1(2), of "length ys"] unfolding all by blast
  obtain e where "try_pop c2 = (c2, Err e)" using shm_ring.deq_none [OF c2(2)] by blast
  then have "try_pop c2 = (c2, Err RingEmpty)" by (simp add: try_pop_def split: if_splits)
  then show ?thesis using c1(1) c2(1) by blast
qed

theorem channel_batches_witness:
  "\<exists>c c1 c2. create_channel 4 (replicate 4 (example_slot 0)) = Ok c \<and>
     enq_all push (map example_slot [1, 2, 3, 4, 5]) c = (c1, False) \<and>
     deq_all try_pop 5 c1 = (c2, map example_slot [1, 2, 3, 4])"
proof -
  obtain c where c: "create_channel 4 (replicate 4 (example_slot 0)) = Ok c" "length (replicate 4 (example_slot 0)) = unat (4 :: u32)"
    by (rule example_channel)
  have four: "unat (4 :: u32) = 4" "length (map example_slot [1, 2, 3, 4, 5]) = 5" "take 4 (map example_slot [1, 2, 3, 4, 5]) = map example_slot [1, 2, 3, 4]"
    by simp_all
  show ?thesis using channel_batches [OF c, of "map example_slot [1, 2, 3, 4, 5]"] c(1) unfolding four by auto
qed

end
