(* ===== verification/Radix_Tree.thy ===== *)
theory Radix_Tree
  imports Registry
begin

text \<open>
  The prefix index over LLM token sequences (\<open>crates/kachedb-radix/src/node.rs\<close>, \<open>tree.rs\<close> and
  \<open>epoch.rs\<close>): nodes that hold one block of up to 16 tokens, lookup with pinning, insertion, unpinning and
  eviction of the least recently used leaf. The clock is an argument.
\<close>

section \<open>Nodes\<close>

definition TOKENS_PER_BLOCK :: nat where "TOKENS_PER_BLOCK = 16"

datatype RadixNode =
  RadixNode (rn_tokens: "u32 list") (rn_slab: "SlabBlockId option") (rn_refs: u32) (rn_accessed: u64)
    (rn_child_count: u32) (rn_children: "RadixNode list")

definition RadixNode_new :: "u32 list \<Rightarrow> SlabBlockId option \<Rightarrow> RadixNode" where
  "RadixNode_new tokens slab = RadixNode tokens slab 0 0 0 []"

definition RadixNode_root :: RadixNode where
  "RadixNode_root = RadixNode_new [] None"

definition is_evictable :: "RadixNode \<Rightarrow> bool" where
  "is_evictable n \<longleftrightarrow> rn_refs n = 0 \<and> rn_child_count n = 0"

fun touch :: "u64 \<Rightarrow> RadixNode \<Rightarrow> RadixNode" where
  "touch ts (RadixNode t sl r a k cs) = RadixNode t sl r ts k cs"

fun pin :: "RadixNode \<Rightarrow> RadixNode" where
  "pin (RadixNode t sl r a k cs) = RadixNode t sl (r + 1) a k cs"

fun unpin_node :: "RadixNode \<Rightarrow> RadixNode \<times> u32" where
  "unpin_node (RadixNode t sl r a k cs) = (RadixNode t sl (r - 1) a k cs, if r = 0 then 0 else r - 1)"

definition first_token :: "RadixNode \<Rightarrow> u32 option" where
  "first_token n = (case rn_tokens n of [] \<Rightarrow> None | t # _ \<Rightarrow> Some t)"

text \<open>A node with other children, and with another number of them.\<close>

fun with_children :: "RadixNode list \<Rightarrow> RadixNode \<Rightarrow> RadixNode" where
  "with_children cs' (RadixNode t sl r a k cs) = RadixNode t sl r a k cs'"

fun add_children :: "u32 \<Rightarrow> RadixNode list \<Rightarrow> RadixNode \<Rightarrow> RadixNode" where
  "add_children d cs' (RadixNode t sl r a k cs) = RadixNode t sl r a (k + d) cs'"

section \<open>The tree\<close>

datatype RadixError = EmptySequence | RefCountUnderflow nat | NoEvictableLeaf

record LookupResult =
  matched_tokens :: nat
  slab_block_ids :: "SlabBlockId list"

definition is_full_hit :: "LookupResult \<Rightarrow> nat \<Rightarrow> bool" where
  "is_full_hit r n \<longleftrightarrow> matched_tokens r = n"

definition tail_len :: "LookupResult \<Rightarrow> nat \<Rightarrow> nat" where
  "tail_len r n = n - matched_tokens r"

record RadixTree =
  rt_root :: RadixNode
  node_count :: nat

definition RadixTree_new :: RadixTree where
  "RadixTree_new = \<lparr>rt_root = RadixNode_root, node_count = 1\<rparr>"

fun position :: "('a \<Rightarrow> bool) \<Rightarrow> 'a list \<Rightarrow> nat option" where
  "position P [] = None"
| "position P (x # xs) = (if P x then Some 0 else map_option Suc (position P xs))"

definition find_child_mut :: "RadixNode \<Rightarrow> u32 \<Rightarrow> nat option" where
  "find_child_mut n t = position (\<lambda>c. first_token c = Some t) (rn_children n)"

definition same_block :: "u32 list \<Rightarrow> u32 list \<Rightarrow> bool" where
  "same_block xs ys \<longleftrightarrow> list_all (\<lambda>(a, b). a = b) (zip xs ys) \<and> length xs = length ys"

text \<open>The loop of \<open>lookup\<close>: every matched node is pinned and touched.\<close>

function lookup_walk :: "u64 \<Rightarrow> RadixNode \<Rightarrow> u32 list \<Rightarrow> RadixNode \<times> nat \<times> SlabBlockId list" where
  "lookup_walk now n tokens =
     (if tokens = [] then (n, 0, [])
      else (let chunk = take TOKENS_PER_BLOCK tokens
            in case find_child_mut n (hd chunk) of
                 None \<Rightarrow> (n, 0, [])
               | Some i \<Rightarrow>
                   (let child = rn_children n ! i
                    in if \<not> same_block (rn_tokens child) chunk then (n, 0, [])
                       else (case lookup_walk now (touch now (pin child)) (drop (length (rn_tokens child)) tokens) of
                               (child', m, ids) \<Rightarrow>
                                 (with_children ((rn_children n)[i := child']) n, length (rn_tokens child) + m,
                                  (case rn_slab child of Some b \<Rightarrow> b # ids | None \<Rightarrow> ids))))))"
  by pat_completeness auto

termination
  by (relation "measure (\<lambda>(now, n, tokens). length tokens)") (auto simp: same_block_def TOKENS_PER_BLOCK_def)

definition lookup :: "u64 \<Rightarrow> RadixTree \<Rightarrow> u32 list \<Rightarrow> RadixTree \<times> (LookupResult, RadixError) outcome" where
  "lookup now t tokens =
     (if tokens = [] then (t, Err EmptySequence)
      else (case lookup_walk now (rt_root t) tokens of
              (root, m, ids) \<Rightarrow> (t\<lparr>rt_root := root\<rparr>, Ok \<lparr>matched_tokens = m, slab_block_ids = ids\<rparr>)))"

text \<open>
  The loop of \<open>insert\<close>: a new node takes the next unused entry of \<open>slab_ids\<close> (\<open>slab_cursor\<close>); a child with
  the same first token and another block ends it.
\<close>

definition next_slab :: "SlabBlockId list \<Rightarrow> SlabBlockId option" where
  "next_slab ids = (case ids of [] \<Rightarrow> None | b # _ \<Rightarrow> Some b)"

function insert_walk :: "u64 \<Rightarrow> RadixNode \<Rightarrow> u32 list \<Rightarrow> SlabBlockId list \<Rightarrow> RadixNode \<times> nat" where
  "insert_walk now n tokens ids =
     (if tokens = [] then (n, 0)
      else (let chunk = take TOKENS_PER_BLOCK tokens
            in case find_child_mut n (hd chunk) of
                 Some i \<Rightarrow>
                   if rn_tokens (rn_children n ! i) = chunk
                   then (case insert_walk now (touch now (rn_children n ! i)) (drop (length chunk) tokens) ids of
                           (child', m) \<Rightarrow> (with_children ((rn_children n)[i := child']) n, m))
                   else (n, 0)
               | None \<Rightarrow>
                   (case insert_walk now (touch now (RadixNode_new chunk (next_slab ids))) (drop (length chunk) tokens) (tl ids) of
                      (child', m) \<Rightarrow> (add_children 1 (rn_children n @ [child']) n, Suc m))))"
  by pat_completeness auto

termination
  by (relation "measure (\<lambda>(now, n, tokens, ids). length tokens)") (auto simp: TOKENS_PER_BLOCK_def)

definition radix_insert :: "u64 \<Rightarrow> RadixTree \<Rightarrow> u32 list \<Rightarrow> SlabBlockId list \<Rightarrow> RadixTree \<times> (nat, RadixError) outcome" where
  "radix_insert now t tokens ids =
     (if tokens = [] then (t, Err EmptySequence)
      else (case insert_walk now (rt_root t) tokens ids of
              (root, m) \<Rightarrow> (\<lparr>rt_root = root, node_count = node_count t + m\<rparr>, Ok m)))"

fun unpin_recursive :: "SlabBlockId list \<Rightarrow> RadixNode \<Rightarrow> RadixNode" where
  "unpin_recursive targets (RadixNode t sl r a k cs) =
     (let cs' = map (unpin_recursive targets) cs
      in case sl of
           Some b \<Rightarrow> if b \<in> set targets then fst (unpin_node (RadixNode t sl r a k cs')) else RadixNode t sl r a k cs'
         | None \<Rightarrow> RadixNode t sl r a k cs')"

definition unpin :: "SlabBlockId list \<Rightarrow> RadixTree \<Rightarrow> RadixTree" where
  "unpin ids t = t\<lparr>rt_root := unpin_recursive ids (rt_root t)\<rparr>"

fun count_evictable :: "RadixNode \<Rightarrow> nat" where
  "count_evictable (RadixNode t sl r a k cs) =
     (if sl \<noteq> None \<and> is_evictable (RadixNode t sl r a k cs) then 1 else 0) + sum_list (map count_evictable cs)"

definition evictable_count :: "RadixTree \<Rightarrow> nat" where
  "evictable_count t = count_evictable (rt_root t)"

text \<open>
  \<open>find_lru_leaf_parent\<close> returns a pointer to the parent; here it is the list of child indices that leads
  to it.
\<close>

fun node_at :: "RadixNode \<Rightarrow> nat list \<Rightarrow> RadixNode" where
  "node_at n [] = n"
| "node_at n (i # p) = node_at (rn_children n ! i) p"

type_synonym candidate = "nat list \<times> nat \<times> SlabBlockId option"

definition older :: "u64 \<Rightarrow> candidate \<Rightarrow> (u64 \<times> candidate) option \<Rightarrow> (u64 \<times> candidate) option" where
  "older ts c best = (case best of None \<Rightarrow> Some (ts, c) | Some (b, _) \<Rightarrow> if ts < b then Some (ts, c) else best)"

definition weigh :: "nat \<Rightarrow> RadixNode \<Rightarrow> candidate option \<Rightarrow> (u64 \<times> candidate) option \<Rightarrow> (u64 \<times> candidate) option" where
  "weigh i c below best =
     (let best1 = (if is_evictable c \<and> rn_slab c \<noteq> None then older (rn_accessed c) ([], i, rn_slab c) best else best)
      in case below of
           None \<Rightarrow> best1
         | Some (p, j, sl) \<Rightarrow> older (rn_accessed (rn_children (node_at c p) ! j)) (i # p, j, sl) best1)"

fun find_lru_leaf_parent :: "RadixNode \<Rightarrow> candidate option"
  and lru_scan :: "nat \<Rightarrow> RadixNode list \<Rightarrow> (u64 \<times> candidate) option \<Rightarrow> (u64 \<times> candidate) option" where
  "find_lru_leaf_parent (RadixNode t sl r a k cs) = map_option snd (lru_scan 0 cs None)"
| "lru_scan i [] best = best"
| "lru_scan i (c # cs) best = lru_scan (Suc i) cs (weigh i c (find_lru_leaf_parent c) best)"

definition swap_remove :: "nat \<Rightarrow> 'a list \<Rightarrow> 'a list" where
  "swap_remove j xs = butlast (xs[j := last xs])"

fun remove_leaf :: "nat list \<Rightarrow> nat \<Rightarrow> RadixNode \<Rightarrow> RadixNode" where
  "remove_leaf [] j n = add_children (- 1) (swap_remove j (rn_children n)) n"
| "remove_leaf (i # p) j n = with_children ((rn_children n)[i := remove_leaf p j (rn_children n ! i)]) n"

definition evict_lru :: "RadixTree \<Rightarrow> RadixTree \<times> (SlabBlockId option, RadixError) outcome" where
  "evict_lru t =
     (case find_lru_leaf_parent (rt_root t) of
        None \<Rightarrow> (t, Err NoEvictableLeaf)
      | Some (p, j, sl) \<Rightarrow> (\<lparr>rt_root = remove_leaf p j (rt_root t), node_count = node_count t - 1\<rparr>, Ok sl))"

section \<open>Versions\<close>

text \<open>
  \<open>EpochTree\<close>: readers hold the snapshot that was current when they called \<open>read\<close>; the writer installs
  whole new versions.
\<close>

record EpochTree =
  global_epoch :: u64
  et_inner :: RadixTree

definition EpochTree_new :: EpochTree where
  "EpochTree_new = \<lparr>global_epoch = 0, et_inner = RadixTree_new\<rparr>"

definition from_tree :: "RadixTree \<Rightarrow> EpochTree" where
  "from_tree t = \<lparr>global_epoch = 0, et_inner = t\<rparr>"

definition epoch_read :: "EpochTree \<Rightarrow> RadixTree" where
  "epoch_read e = et_inner e"

definition install_new_version :: "RadixTree \<Rightarrow> EpochTree \<Rightarrow> EpochTree" where
  "install_new_version t e = \<lparr>global_epoch = global_epoch e + 1, et_inner = t\<rparr>"

definition current_epoch :: "EpochTree \<Rightarrow> u64" where
  "current_epoch e = global_epoch e"

definition epoch_node_count :: "EpochTree \<Rightarrow> nat" where
  "epoch_node_count e = node_count (et_inner e)"

end
