(* ===== verification/Radix_View.thy ===== *)
theory Radix_View
  imports Radix_Tree "HOL-Library.Sublist"
begin

text \<open>
  What a prefix tree denotes: a finite map from paths of token blocks to marks (slab, reference count,
  last access). Lookup follows the longest stored prefix of a query, insertion adds its missing part.
\<close>

section \<open>Paths of blocks\<close>

function chunks :: "u32 list \<Rightarrow> u32 list list" where
  "chunks ts = (if ts = [] then [] else take TOKENS_PER_BLOCK ts # chunks (drop TOKENS_PER_BLOCK ts))"
  by pat_completeness auto

termination
  by (relation "measure length") (auto simp: TOKENS_PER_BLOCK_def)

declare chunks.simps [simp del]

lemma chunks_Cons:
  assumes "ts \<noteq> []"
  shows "chunks ts = take TOKENS_PER_BLOCK ts # chunks (drop (length (take TOKENS_PER_BLOCK ts)) ts)"
  using assms chunks.simps [of ts] by (simp add: min_def)

lemma chunks_Nil [simp]: "chunks [] = []"
  by (simp add: chunks.simps)

lemma concat_chunks: "concat (chunks ts) = ts"
proof (induction ts rule: chunks.induct)
  case (1 ts)
  then show ?case by (cases "ts = []") (simp_all add: chunks.simps [of ts])
qed

type_synonym mark = "SlabBlockId option \<times> u32 \<times> u64"

definition mark :: "RadixNode \<Rightarrow> mark" where
  "mark n = (rn_slab n, rn_refs n, rn_accessed n)"

definition child_with :: "u32 list \<Rightarrow> RadixNode \<Rightarrow> RadixNode option" where
  "child_with b n = find (\<lambda>c. rn_tokens c = b) (rn_children n)"

fun marks :: "RadixNode \<Rightarrow> u32 list list \<rightharpoonup> mark" where
  "marks n [] = Some (mark n)"
| "marks n (b # bs) = (case child_with b n of None \<Rightarrow> None | Some c \<Rightarrow> marks c bs)"

fun matched :: "RadixNode \<Rightarrow> u32 list list \<Rightarrow> nat" where
  "matched n [] = 0"
| "matched n (b # bs) = (case child_with b n of None \<Rightarrow> 0 | Some c \<Rightarrow> Suc (matched c bs))"

fun path_slabs :: "RadixNode \<Rightarrow> u32 list list \<Rightarrow> SlabBlockId list" where
  "path_slabs n [] = []"
| "path_slabs n (b # bs) =
     (case child_with b n of
        None \<Rightarrow> []
      | Some c \<Rightarrow> (case rn_slab c of Some s \<Rightarrow> s # path_slabs c bs | None \<Rightarrow> path_slabs c bs))"

text \<open>The query leaves the tree inside a block: a child shares the first token of the next block.\<close>

fun clash :: "RadixNode \<Rightarrow> u32 list list \<Rightarrow> bool" where
  "clash n [] = False"
| "clash n (b # bs) =
     (case child_with b n of
        Some c \<Rightarrow> clash c bs
      | None \<Rightarrow> (\<exists>c\<in>set (rn_children n). first_token c = Some (hd b)))"

lemma matched_le: "matched n bs \<le> length bs"
  by (induction n bs rule: matched.induct) (auto split: option.split)

text \<open>\<open>matched\<close> is the length of the longest stored prefix.\<close>

lemma matched_longest:
  "marks n (take (matched n bs) bs) \<noteq> None" "matched n bs < k \<Longrightarrow> k \<le> length bs \<Longrightarrow> marks n (take k bs) = None"
proof -
  show "marks n (take (matched n bs) bs) \<noteq> None"
    by (induction n bs rule: matched.induct) (auto simp: mark_def split: option.split)
  show "matched n bs < k \<Longrightarrow> k \<le> length bs \<Longrightarrow> marks n (take k bs) = None"
  proof (induction n bs arbitrary: k rule: matched.induct)
    case (2 n b bs)
    obtain k' where k': "k = Suc k'" using 2(2) by (cases k) auto
    show ?case
    proof (cases "child_with b n")
      case (Some c)
      show ?thesis using 2(1) [OF Some, of k'] 2(2,3) k' Some by simp
    qed (simp add: k')
  qed simp
qed

section \<open>Well-formed trees\<close>

fun node_ok :: "RadixNode \<Rightarrow> bool" where
  "node_ok (RadixNode t sl r a k cs) \<longleftrightarrow>
     k = of_nat (length cs) \<and> distinct (map first_token cs) \<and>
     (\<forall>c\<in>set cs. rn_tokens c \<noteq> [] \<and> length (rn_tokens c) \<le> TOKENS_PER_BLOCK \<and> node_ok c)"

fun nodes :: "RadixNode \<Rightarrow> nat" where
  "nodes (RadixNode t sl r a k cs) = Suc (sum_list (map nodes cs))"

lemma node_okD:
  assumes "node_ok n"
  shows "rn_child_count n = of_nat (length (rn_children n))" "distinct (map first_token (rn_children n))"
    "c \<in> set (rn_children n) \<Longrightarrow> rn_tokens c \<noteq> []" "c \<in> set (rn_children n) \<Longrightarrow> length (rn_tokens c) \<le> TOKENS_PER_BLOCK"
    "c \<in> set (rn_children n) \<Longrightarrow> node_ok c"
  using assms by (cases n; simp)+

lemma node_okI:
  assumes "rn_child_count n = of_nat (length (rn_children n))" "distinct (map first_token (rn_children n))"
    "\<And>c. c \<in> set (rn_children n) \<Longrightarrow> rn_tokens c \<noteq> [] \<and> length (rn_tokens c) \<le> TOKENS_PER_BLOCK \<and> node_ok c"
  shows "node_ok n"
  using assms by (cases n) simp

lemma node_edits [simp]:
  "rn_children (touch ts n) = rn_children n" "rn_tokens (touch ts n) = rn_tokens n" "rn_slab (touch ts n) = rn_slab n"
  "rn_refs (touch ts n) = rn_refs n" "rn_accessed (touch ts n) = ts" "rn_child_count (touch ts n) = rn_child_count n"
  "rn_children (pin n) = rn_children n" "rn_tokens (pin n) = rn_tokens n" "rn_slab (pin n) = rn_slab n"
  "rn_refs (pin n) = rn_refs n + 1" "rn_accessed (pin n) = rn_accessed n" "rn_child_count (pin n) = rn_child_count n"
  "rn_children (with_children cs n) = cs" "rn_tokens (with_children cs n) = rn_tokens n" "mark (with_children cs n) = mark n"
  "rn_child_count (with_children cs n) = rn_child_count n"
  "rn_children (add_children d cs n) = cs" "rn_tokens (add_children d cs n) = rn_tokens n" "mark (add_children d cs n) = mark n"
  "rn_child_count (add_children d cs n) = rn_child_count n + d"
  by (cases n, simp add: mark_def)+

lemma view_children:
  assumes "rn_children n' = rn_children n"
  shows "marks n' p = (if p = [] then Some (mark n') else marks n p)" "matched n' bs = matched n bs"
    "path_slabs n' bs = path_slabs n bs" "clash n' bs = clash n bs" "node_ok n \<Longrightarrow> rn_child_count n' = rn_child_count n \<Longrightarrow> node_ok n'"
proof -
  have c: "child_with b n' = child_with b n" for b using assms by (simp add: child_with_def)
  show "marks n' p = (if p = [] then Some (mark n') else marks n p)" by (cases p) (simp_all add: c)
  show "matched n' bs = matched n bs" by (cases bs) (simp_all only: matched.simps c)
  show "path_slabs n' bs = path_slabs n bs" by (cases bs) (simp_all only: path_slabs.simps c)
  show "clash n' bs = clash n bs" by (cases bs) (simp_all only: clash.simps c assms)
  show "node_ok n'" if "node_ok n" "rn_child_count n' = rn_child_count n"
    using node_okD [OF that(1)] that(2) assms by (intro node_okI) simp_all
qed

text \<open>The search by first token finds the child with the whole block, if there is one.\<close>

lemma position_spec:
  "position P xs = None \<longleftrightarrow> (\<forall>x\<in>set xs. \<not> P x)" "position P xs = Some i \<Longrightarrow> i < length xs \<and> P (xs ! i)"
proof -
  show "position P xs = None \<longleftrightarrow> (\<forall>x\<in>set xs. \<not> P x)" by (induction xs) auto
  show "position P xs = Some i \<Longrightarrow> i < length xs \<and> P (xs ! i)"
    by (induction xs arbitrary: i) (auto split: if_splits)
qed

lemma first_token_block: "b \<noteq> [] \<Longrightarrow> rn_tokens c = b \<Longrightarrow> first_token c = Some (hd b)"
  by (cases b) (simp_all add: first_token_def)

lemma find_child_none:
  assumes "find_child_mut n (hd b) = None" "b \<noteq> []"
  shows "child_with b n = None" "\<And>c. c \<in> set (rn_children n) \<Longrightarrow> first_token c \<noteq> Some (hd b)"
  using assms first_token_block [OF assms(2)] by (auto simp: find_child_mut_def position_spec(1) child_with_def find_None_iff)

lemma find_child_some:
  assumes ok: "node_ok n" and i: "find_child_mut n (hd b) = Some i" and b: "b \<noteq> []"
  shows "i < length (rn_children n)" "first_token (rn_children n ! i) = Some (hd b)"
    "child_with b n = (if rn_tokens (rn_children n ! i) = b then Some (rn_children n ! i) else None)"
proof -
  show i': "i < length (rn_children n)" "first_token (rn_children n ! i) = Some (hd b)"
    using position_spec(2) [OF i [unfolded find_child_mut_def]] by simp_all
  have only: "c = rn_children n ! i" if c: "c \<in> set (rn_children n)" "first_token c = Some (hd b)" for c
  proof -
    obtain j where j: "j < length (rn_children n)" "c = rn_children n ! j" using c(1) by (auto simp: in_set_conv_nth)
    have "map first_token (rn_children n) ! j = map first_token (rn_children n) ! i" using j c(2) i' by simp
    then show ?thesis using j i'(1) node_okD(2) [OF ok] nth_eq_iff_index_eq by (metis length_map)
  qed
  have all: "c = rn_children n ! i" if "c \<in> set (rn_children n)" "rn_tokens c = b" for c
    using only that first_token_block [OF b] by blast
  show "child_with b n = (if rn_tokens (rn_children n ! i) = b then Some (rn_children n ! i) else None)"
  proof (cases "child_with b n")
    case None
    then show ?thesis using i'(1) by (auto simp: child_with_def find_None_iff)
  next
    case (Some c)
    then have "c \<in> set (rn_children n)" "rn_tokens c = b" by (auto simp: child_with_def find_Some_iff)
    then show ?thesis using all Some by auto
  qed
qed

section \<open>Changing one child\<close>

lemma child_index:
  assumes "node_ok n" "i < length (rn_children n)" "j < length (rn_children n)" "rn_tokens (rn_children n ! i) = rn_tokens (rn_children n ! j)"
  shows "i = j"
proof -
  have "map first_token (rn_children n) ! i = map first_token (rn_children n) ! j" using assms(2-4) by (simp add: first_token_def)
  then show ?thesis using assms(2,3) node_okD(2) [OF assms(1)] by (metis length_map nth_eq_iff_index_eq)
qed

lemma child_with_iff:
  assumes "node_ok n"
  shows "child_with b n = Some c \<longleftrightarrow> (\<exists>i<length (rn_children n). c = rn_children n ! i \<and> rn_tokens c = b)"
proof
  assume "child_with b n = Some c"
  then show "\<exists>i<length (rn_children n). c = rn_children n ! i \<and> rn_tokens c = b" by (auto simp: child_with_def find_Some_iff)
next
  assume "\<exists>i<length (rn_children n). c = rn_children n ! i \<and> rn_tokens c = b"
  then obtain i where i: "i < length (rn_children n)" "c = rn_children n ! i" "rn_tokens c = b" by blast
  then have "child_with b n \<noteq> None" unfolding child_with_def find_None_iff using nth_mem [OF i(1)] by blast
  then obtain d where "child_with b n = Some d" by blast
  moreover from this obtain j where "j < length (rn_children n)" "d = rn_children n ! j" "rn_tokens d = b"
    by (auto simp: child_with_def find_Some_iff)
  ultimately show "child_with b n = Some c" using child_index [OF assms i(1), of j] i by simp
qed

lemma child_withD:
  assumes "node_ok n" "child_with b n = Some c"
  shows "c \<in> set (rn_children n)" "node_ok c" "rn_tokens c = b" "b \<noteq> []" "length b \<le> TOKENS_PER_BLOCK"
  using assms(2) child_with_iff [OF assms(1)] node_okD(3-5) [OF assms(1)] by auto

lemma replace_child:
  assumes ok: "node_ok n" "node_ok c'" and i: "i < length (rn_children n)" "rn_tokens c' = rn_tokens (rn_children n ! i)"
  defines "n' \<equiv> with_children ((rn_children n)[i := c']) n"
  shows "node_ok n'" "child_with b n' = (if b = rn_tokens c' then Some c' else child_with b n)"
    "nodes n' + nodes (rn_children n ! i) = nodes n + nodes c'"
proof -
  let ?cs = "rn_children n"
  have "map first_token (?cs[i := c']) = map first_token ?cs"
    using i by (simp add: map_update first_token_def list_update_same_conv)
  moreover have "rn_tokens c' \<noteq> [] \<and> length (rn_tokens c') \<le> TOKENS_PER_BLOCK"
    using node_okD(3,4) [OF ok(1) nth_mem [OF i(1)]] i(2) by simp
  ultimately show ok': "node_ok n'"
    using node_okD [OF ok(1)] ok(2) unfolding n'_def
    by (intro node_okI) (auto dest!: set_update_subset_insert [THEN subsetD])
  have "child_with b n' = Some c \<longleftrightarrow> (if b = rn_tokens c' then Some c' else child_with b n) = Some c" for c
  proof -
    have "child_with b n' = Some c \<longleftrightarrow> (\<exists>j<length ?cs. c = ?cs[i := c'] ! j \<and> rn_tokens c = b)"
      unfolding child_with_iff [OF ok'] by (simp add: n'_def)
    also have "\<dots> \<longleftrightarrow> (if b = rn_tokens c' then c = c' else (\<exists>j<length ?cs. c = ?cs ! j \<and> rn_tokens c = b))"
      using i child_index [OF ok(1) i(1)] by (auto simp: nth_list_update; metis)
    finally show ?thesis using child_with_iff [OF ok(1), of b c] by auto
  qed
  then show "child_with b n' = (if b = rn_tokens c' then Some c' else child_with b n)" by (metis not_None_eq)
  have "sum_list (map nodes (?cs[i := c'])) + nodes (?cs ! i) = sum_list (map nodes ?cs) + nodes c'"
    using i(1) sum_list_update [of i "map nodes ?cs" "nodes c'"] member_le_sum_list [of "nodes (?cs ! i)" "map nodes ?cs"]
    by (simp add: map_update)
  then show "nodes n' + nodes (?cs ! i) = nodes n + nodes c'" by (cases n) (simp add: n'_def)
qed

lemma find_append: "find P (xs @ ys) = (case find P xs of None \<Rightarrow> find P ys | Some x \<Rightarrow> Some x)"
  by (induction xs) auto

lemma append_child:
  assumes ok: "node_ok n" "node_ok c'" and t: "rn_tokens c' \<noteq> []" "length (rn_tokens c') \<le> TOKENS_PER_BLOCK"
    and fresh: "\<And>c. c \<in> set (rn_children n) \<Longrightarrow> first_token c \<noteq> first_token c'"
  defines "n' \<equiv> add_children 1 (rn_children n @ [c']) n"
  shows "node_ok n'" "child_with b n' = (if b = rn_tokens c' then Some c' else child_with b n)" "nodes n' = nodes n + nodes c'"
proof -
  have "first_token c' \<notin> set (map first_token (rn_children n))" using fresh by (metis imageE list.set_map)
  then show ok': "node_ok n'" using node_okD [OF ok(1)] ok(2) t by (intro node_okI) (auto simp: n'_def)
  have "rn_tokens c \<noteq> rn_tokens c'" if "c \<in> set (rn_children n)" for c
    using fresh [OF that] by (auto simp: first_token_def)
  then have "find (\<lambda>c. rn_tokens c = rn_tokens c') (rn_children n) = None" by (auto simp: find_None_iff)
  then show "child_with b n' = (if b = rn_tokens c' then Some c' else child_with b n)"
    by (auto simp: n'_def child_with_def find_append split: option.split)
  show "nodes n' = nodes n + nodes c'" by (cases n) (simp add: n'_def)
qed

section \<open>Lookup\<close>

lemma same_block_iff: "same_block xs ys \<longleftrightarrow> xs = ys"
  unfolding same_block_def list_all_iff list_all2_eq [of xs ys] list_all2_iff by auto

definition pinned :: "u64 \<Rightarrow> mark \<Rightarrow> mark" where
  "pinned now = (\<lambda>(sl, r, a). (sl, r + 1, now))"

declare lookup_walk.simps [simp del] insert_walk.simps [simp del]

lemma walk_step:
  assumes "node_ok n" "ts \<noteq> []"
  obtains (none) "find_child_mut n (hd (take TOKENS_PER_BLOCK ts)) = None" "child_with (take TOKENS_PER_BLOCK ts) n = None"
      "\<And>c. c \<in> set (rn_children n) \<Longrightarrow> first_token c \<noteq> Some (hd (take TOKENS_PER_BLOCK ts))"
    | (other) i where "find_child_mut n (hd (take TOKENS_PER_BLOCK ts)) = Some i" "rn_tokens (rn_children n ! i) \<noteq> take TOKENS_PER_BLOCK ts"
      "child_with (take TOKENS_PER_BLOCK ts) n = None" "\<exists>c\<in>set (rn_children n). first_token c = Some (hd (take TOKENS_PER_BLOCK ts))"
    | (child) i where "find_child_mut n (hd (take TOKENS_PER_BLOCK ts)) = Some i" "i < length (rn_children n)"
      "rn_tokens (rn_children n ! i) = take TOKENS_PER_BLOCK ts"
      "child_with (take TOKENS_PER_BLOCK ts) n = Some (rn_children n ! i)" "node_ok (rn_children n ! i)"
proof -
  have b: "take TOKENS_PER_BLOCK ts \<noteq> []" using assms(2) by (simp add: TOKENS_PER_BLOCK_def)
  show ?thesis
  proof (cases "find_child_mut n (hd (take TOKENS_PER_BLOCK ts))")
    case None
    from find_child_none [OF this b] show ?thesis by (rule none [OF None])
  next
    case (Some i)
    note F = find_child_some [OF assms(1) Some b]
    show ?thesis
    proof (cases "rn_tokens (rn_children n ! i) = take TOKENS_PER_BLOCK ts")
      case True
      show ?thesis by (rule child [OF Some F(1) True]) (use F(3) True node_okD(5) [OF assms(1) nth_mem [OF F(1)]] in simp_all)
    next
      case False
      show ?thesis by (rule other [OF Some False]) (use F False nth_mem [OF F(1)] in auto)
    qed
  qed
qed

lemma lookup_walk_spec:
  assumes "node_ok n" "lookup_walk now n ts = (n', m, ids)"
  shows "node_ok n' \<and> rn_tokens n' = rn_tokens n \<and> nodes n' = nodes n \<and> m = length (concat (take (matched n (chunks ts)) (chunks ts))) \<and>
    ids = path_slabs n (chunks ts) \<and>
    (\<forall>p. marks n' p = (if p \<noteq> [] \<and> prefix p (take (matched n (chunks ts)) (chunks ts)) then map_option (pinned now) (marks n p) else marks n p))"
  using assms
proof (induction "length ts" arbitrary: ts n n' m ids rule: less_induct)
  case less
  show ?case
  proof (cases "ts = []")
    case True
    then show ?thesis using less.prems by (simp add: lookup_walk.simps)
  next
    case False
    let ?b = "take TOKENS_PER_BLOCK ts"
    from less.prems(1) False show ?thesis
    proof (cases rule: walk_step)
      case none
      then show ?thesis using less.prems False by (simp add: lookup_walk.simps [of now n ts] chunks_Cons)
    next
      case (other i)
      then show ?thesis using less.prems False by (simp add: lookup_walk.simps [of now n ts] chunks_Cons same_block_iff Let_def)
    next
      case (child i)
      let ?c = "rn_children n ! i" and ?ts = "drop (length ?b) ts"
      let ?c1 = "touch now (pin ?c)"
      obtain c' m' ids' where run: "lookup_walk now ?c1 ?ts = (c', m', ids')" by (metis prod.exhaust)
      have shorter: "length ?ts < length ts" using False by (simp add: TOKENS_PER_BLOCK_def)
      have ok1: "node_ok ?c1" by (rule view_children(5) [OF _ child(5)]) simp_all
      have ce: "rn_children ?c1 = rn_children ?c" by simp
      note V = view_children(1-4) [OF ce]
      have len: "length (rn_tokens ?c) = length ?b" using child(3) by simp
      have res: "n' = with_children ((rn_children n)[i := c']) n" "m = length ?b + m'"
          "ids = (case rn_slab ?c of Some s \<Rightarrow> s # ids' | None \<Rightarrow> ids')"
        using less.prems(2) False child(1,3) run len
        by (simp_all add: lookup_walk.simps [of now n ts] same_block_iff Let_def)
      let ?q = "take (matched ?c (chunks ?ts)) (chunks ?ts)"
      note IH = less.hyps [OF shorter ok1 run, unfolded V(2,3)]
      have nds: "nodes ?c1 = nodes ?c" by (cases ?c) simp
      have c': "node_ok c'" "rn_tokens c' = rn_tokens ?c" "nodes c' = nodes ?c" "m' = length (concat ?q)" "ids' = path_slabs ?c (chunks ?ts)"
          and vc: "\<And>p. marks c' p = (if p \<noteq> [] \<and> prefix p ?q then map_option (pinned now) (marks ?c1 p) else marks ?c1 p)"
        using IH nds by (simp_all del: length_take)
      note R = replace_child [OF less.prems(1) c'(1) child(2) c'(2), folded res(1)]
      have ch: "chunks ts = ?b # chunks ?ts" using chunks_Cons [OF False] .
      have tk: "take (matched n (chunks ts)) (chunks ts) = ?b # ?q" using child(4) by (simp add: ch)
      have mk: "mark ?c1 = pinned now (mark ?c)" by (simp add: mark_def pinned_def)
      have "marks n' p = (if p \<noteq> [] \<and> prefix p (?b # ?q) then map_option (pinned now) (marks n p) else marks n p)" for p
      proof (cases p)
        case Nil
        then show ?thesis by (simp add: res(1))
      next
        case (Cons b bs)
        show ?thesis
        proof (cases "b = ?b")
          case True
          have "marks c' bs = (if prefix bs ?q then map_option (pinned now) (marks ?c bs) else marks ?c bs)"
            unfolding vc V(1) by (cases bs) (simp_all add: mk)
          then show ?thesis using Cons True R(2) c'(2) child(3,4) by simp
        next
          case False
          then show ?thesis using Cons R(2) c'(2) child(3) by simp
        qed
      qed
      moreover have "m = length (concat (?b # ?q))" unfolding res(2) c'(4) by simp
      moreover have "ids = path_slabs n (chunks ts)" unfolding res(3) c'(5) ch using child(4) by (simp del: length_take)
      ultimately show ?thesis using R(1,3) c'(3) tk res(1) by simp
    qed
  qed
qed

section \<open>Insertion\<close>

definition touched :: "u64 \<Rightarrow> mark \<Rightarrow> mark" where
  "touched now = (\<lambda>(sl, r, a). (sl, r, now))"

definition nth_opt :: "'a list \<Rightarrow> nat \<Rightarrow> 'a option" where
  "nth_opt xs i = (if i < length xs then Some (xs ! i) else None)"

lemma nth_opt_tl: "nth_opt (tl xs) i = nth_opt xs (Suc i)" "next_slab ids = nth_opt ids 0"
proof -
  show "nth_opt (tl xs) i = nth_opt xs (Suc i)" by (cases xs) (simp_all add: nth_opt_def)
  show "next_slab ids = nth_opt ids 0" by (cases ids) (simp_all add: nth_opt_def next_slab_def)
qed

text \<open>The marks after an insertion of the blocks \<open>bs\<close>.\<close>

definition inserted :: "u64 \<Rightarrow> SlabBlockId list \<Rightarrow> u32 list list \<Rightarrow> RadixNode \<Rightarrow> u32 list list \<rightharpoonup> mark" where
  "inserted now ids bs n p =
     (if p = [] \<or> \<not> prefix p bs then marks n p
      else if length p \<le> matched n bs then map_option (touched now) (marks n p)
      else if clash n bs then None
      else Some (nth_opt ids (length p - matched n bs - 1), 0, now))"

lemma leaf_view:
  assumes "rn_children n = []"
  shows "matched n bs = 0" "\<not> clash n bs" "p \<noteq> [] \<Longrightarrow> marks n p = None"
proof -
  have c: "child_with b n = None" for b using assms by (simp add: child_with_def)
  show "matched n bs = 0" by (cases bs) (simp_all add: c)
  show "\<not> clash n bs" by (cases bs) (simp_all add: c assms)
  show "p \<noteq> [] \<Longrightarrow> marks n p = None" by (cases p) (simp_all add: c)
qed

lemma inserted_leaf:
  assumes "rn_children n = []"
  shows "inserted now ids bs n p =
    (if p = [] then Some (mark n) else if prefix p bs then Some (nth_opt ids (length p - 1), 0, now) else None)"
  using leaf_view [OF assms] by (simp add: inserted_def)

lemma insert_walk_spec:
  assumes "node_ok n" "insert_walk now n ts ids = (n', m)"
  shows "node_ok n' \<and> rn_tokens n' = rn_tokens n \<and> nodes n' = nodes n + m \<and>
    m = (if clash n (chunks ts) then 0 else length (chunks ts) - matched n (chunks ts)) \<and>
    (\<forall>p. marks n' p = inserted now ids (chunks ts) n p)"
  using assms
proof (induction "length ts" arbitrary: ts ids n n' m rule: less_induct)
  case less
  show ?case
  proof (cases "ts = []")
    case True
    then show ?thesis using less.prems by (simp add: insert_walk.simps inserted_def)
  next
    case False
    let ?b = "take TOKENS_PER_BLOCK ts"
    let ?ts = "drop (length ?b) ts"
    have shorter: "length ?ts < length ts" using False by (simp add: TOKENS_PER_BLOCK_def)
    have ch: "chunks ts = ?b # chunks ?ts" using chunks_Cons [OF False] .
    have b: "?b \<noteq> []" "length ?b \<le> TOKENS_PER_BLOCK" using False by (simp_all add: TOKENS_PER_BLOCK_def)
    from less.prems(1) False show ?thesis
    proof (cases rule: walk_step)
      case none
      let ?c0 = "touch now (RadixNode_new ?b (next_slab ids))"
      obtain c' m' where run: "insert_walk now ?c0 ?ts (tl ids) = (c', m')" by fastforce
      have res: "n' = add_children 1 (rn_children n @ [c']) n" "m = Suc m'"
        using less.prems(2) False none(1) run by (simp_all add: insert_walk.simps [of now n ts] Let_def)
      have c0: "node_ok ?c0" "rn_tokens ?c0 = ?b" "rn_children ?c0 = []" "nodes ?c0 = 1" "mark ?c0 = (nth_opt ids 0, 0, now)"
        by (simp_all add: RadixNode_new_def mark_def nth_opt_tl(2))
      note leaf = leaf_view(1,2) [OF c0(3)]
      note IH = less.hyps [OF shorter c0(1) run]
      have c': "node_ok c'" "rn_tokens c' = ?b" "nodes c' = Suc m'" "m' = length (chunks ?ts)"
          and vc: "\<And>p. marks c' p = inserted now (tl ids) (chunks ?ts) ?c0 p"
        using IH c0 leaf by (simp_all del: length_take)
      have fresh: "first_token c \<noteq> first_token c'" if "c \<in> set (rn_children n)" for c
        using none(3) [OF that] first_token_block [OF b(1) c'(2)] by simp
      note A = append_child [OF less.prems(1) c'(1) _ _ fresh, unfolded c'(2), OF b, folded res(1)]
      have "marks n' p = inserted now ids (chunks ts) n p" for p
      proof (cases p)
        case Nil
        then show ?thesis by (simp add: res(1) inserted_def)
      next
        case (Cons q qs)
        show ?thesis
        proof (cases "q = ?b")
          case True
          have "marks c' qs = (if qs = [] then Some (mark ?c0)
              else if prefix qs (chunks ?ts) then Some (nth_opt ids (length qs), 0, now) else None)"
            unfolding vc inserted_leaf [OF c0(3)] by (cases qs) (simp_all add: nth_opt_tl(1))
          then show ?thesis using Cons True A(2) none(2) c0(5) none(3)
            by (auto simp: inserted_def ch simp del: length_take)
        next
          case False
          then show ?thesis using Cons A(2) by (simp add: inserted_def ch del: length_take)
        qed
      qed
      then show ?thesis using A(1,3) c'(3,4) res none(2,3) by (simp add: ch del: length_take)
    next
      case (other i)
      have "(n', m) = (n, 0)" using less.prems(2) False other(1,2) by (simp add: insert_walk.simps [of now n ts] Let_def)
      moreover have "marks n p = inserted now ids (chunks ts) n p" for p
        using other(3,4) by (cases p) (auto simp: inserted_def ch simp del: length_take)
      ultimately show ?thesis using less.prems(1) other(3,4) by (simp add: ch del: length_take)
    next
      case (child i)
      let ?c = "rn_children n ! i"
      let ?c1 = "touch now ?c"
      obtain c' m' where run: "insert_walk now ?c1 ?ts ids = (c', m')" by fastforce
      have ok1: "node_ok ?c1" by (rule view_children(5) [OF _ child(5)]) simp_all
      have ce: "rn_children ?c1 = rn_children ?c" by simp
      note V = view_children(1-4) [OF ce]
      have res: "n' = with_children ((rn_children n)[i := c']) n" "m = m'"
        using less.prems(2) False child(1,3) run by (simp_all add: insert_walk.simps [of now n ts] Let_def)
      note IH = less.hyps [OF shorter ok1 run, unfolded V(2,4)]
      have nds: "nodes ?c1 = nodes ?c" by (cases ?c) simp
      have c': "node_ok c'" "rn_tokens c' = rn_tokens ?c" "nodes c' = nodes ?c + m'"
          "m' = (if clash ?c (chunks ?ts) then 0 else length (chunks ?ts) - matched ?c (chunks ?ts))"
          and vc: "\<And>p. marks c' p = inserted now ids (chunks ?ts) ?c1 p"
        using IH nds by (simp_all del: length_take)
      note R = replace_child [OF less.prems(1) c'(1) child(2) c'(2), folded res(1)]
      have mk: "mark ?c1 = touched now (mark ?c)" "\<And>a. child_with a ?c1 = child_with a ?c"
        by (simp_all add: mark_def touched_def child_with_def)
      have "marks n' p = inserted now ids (chunks ts) n p" for p
      proof (cases p)
        case Nil
        then show ?thesis by (simp add: res(1) inserted_def)
      next
        case (Cons q qs)
        show ?thesis
        proof (cases "q = ?b")
          case True
          have "marks n' p = inserted now ids (chunks ?ts) ?c1 qs" using Cons True R(2) c'(2) child(3) vc by simp
          also have "\<dots> = inserted now ids (chunks ts) n p"
            using Cons True child(4) mk by (cases qs) (auto simp: inserted_def V ch simp del: length_take)
          finally show ?thesis .
        next
          case False
          then show ?thesis using Cons R(2) c'(2) child(3) by (simp add: inserted_def ch del: length_take)
        qed
      qed
      then show ?thesis using R(1,3) c' res child(4) by (simp add: ch del: length_take)
    qed
  qed
qed

end
