(* ===== verification/Radix_Evict.thy ===== *)
theory Radix_Evict
  imports Radix_View "HOL-Library.Multiset"
begin

text \<open>Eviction: the search for the least recently used leaf and its removal.\<close>

section \<open>Candidates\<close>

fun below :: "RadixNode \<Rightarrow> RadixNode set" where
  "below (RadixNode t sl r a k cs) = (\<Union>c\<in>set cs. insert c (below c))"

definition pool_of :: "RadixNode list \<Rightarrow> RadixNode set" where
  "pool_of cs = (\<Union>c\<in>set cs. insert c (below c))"

lemma below_children: "below n = pool_of (rn_children n)"
  by (cases n) (simp add: pool_of_def)

lemma pool_of_simps [simp]: "pool_of [] = {}" "pool_of (c # cs) = insert c (below c) \<union> pool_of cs"
    "pool_of (xs @ ys) = pool_of xs \<union> pool_of ys"
  by (auto simp: pool_of_def)

definition victim :: "RadixNode \<Rightarrow> bool" where
  "victim c \<longleftrightarrow> is_evictable c \<and> rn_slab c \<noteq> None"

fun at_list :: "RadixNode list \<Rightarrow> nat list \<Rightarrow> nat \<Rightarrow> RadixNode option" where
  "at_list cs [] j = (if j < length cs then Some (cs ! j) else None)"
| "at_list cs (i # p) j = (if i < length cs then at_list (rn_children (cs ! i)) p j else None)"

lemma at_list_append: "at_list xs p j = Some c \<Longrightarrow> at_list (xs @ ys) p j = Some c"
  by (cases p) (auto simp: nth_append split: if_splits)

lemma at_list_node: "at_list (rn_children n) p j = Some c \<Longrightarrow> rn_children (node_at n p) ! j = c"
  by (induction n p rule: node_at.induct) (auto split: if_splits)

lemma at_list_below: "at_list cs p j = Some c \<Longrightarrow> c \<in> pool_of cs"
proof (induction cs p j rule: at_list.induct)
  case (2 cs i p j)
  then have "c \<in> below (cs ! i)" "i < length cs" by (auto simp: below_children split: if_splits)
  then show ?case by (auto simp: pool_of_def)
qed (auto simp: pool_of_def split: if_splits)

text \<open>The best candidate among the nodes under \<open>cs\<close>, addressed in a list that extends \<open>cs\<close>.\<close>

definition best_ok :: "RadixNode list \<Rightarrow> RadixNode list \<Rightarrow> (u64 \<times> candidate) option \<Rightarrow> bool" where
  "best_ok all cs best \<longleftrightarrow>
     (case best of
        None \<Rightarrow> \<forall>d\<in>pool_of cs. \<not> victim d
      | Some (ts, p, j, sl) \<Rightarrow>
          (\<exists>c. at_list all p j = Some c \<and> victim c \<and> rn_slab c = sl \<and> rn_accessed c = ts) \<and>
          (\<forall>d\<in>pool_of cs. victim d \<longrightarrow> ts \<le> rn_accessed d))"

lemma older_ok:
  assumes "best_ok all cs best" "at_list all p j = Some c" "victim c" "rn_slab c = sl" "rn_accessed c = ts"
    and "\<And>d. d \<in> pool_of ds \<Longrightarrow> victim d \<Longrightarrow> d \<in> pool_of cs \<or> ts \<le> rn_accessed d"
  shows "best_ok all ds (older ts (p, j, sl) best)"
proof (cases best)
  case None
  then show ?thesis using assms by (fastforce simp: best_ok_def older_def)
next
  case (Some b)
  obtain bt bp bj bs where b: "b = (bt, bp, bj, bs)" by (metis prod.exhaust)
  show ?thesis
  proof (cases "ts < bt")
    case True
    then show ?thesis using assms Some b by (force simp: best_ok_def older_def)
  next
    case False
    then show ?thesis using assms Some b by (force simp: best_ok_def older_def)
  qed
qed

lemma weigh_ok:
  assumes best: "best_ok all pre best" and c: "i < length all" "all ! i = c"
    and below: "case sub of None \<Rightarrow> \<forall>d\<in>below c. \<not> victim d
      | Some (p, j, sl) \<Rightarrow> \<exists>d. at_list (rn_children c) p j = Some d \<and> victim d \<and> rn_slab d = sl \<and>
          (\<forall>e\<in>below c. victim e \<longrightarrow> rn_accessed d \<le> rn_accessed e)"
  shows "best_ok all (pre @ [c]) (weigh i c sub best)"
proof -
  define best1 where "best1 = (if victim c then older (rn_accessed c) ([], i, rn_slab c) best else best)"
  have mid: "best_ok all pre best1 \<and> (victim c \<longrightarrow> (case best1 of None \<Rightarrow> False | Some (ts, _) \<Rightarrow> ts \<le> rn_accessed c))"
  proof (cases "victim c")
    case True
    have "best_ok all pre (older (rn_accessed c) ([], i, rn_slab c) best)"
      by (rule older_ok [OF best _ True refl refl]) (use c in auto)
    then show ?thesis using True by (auto simp: best1_def older_def split: option.splits)
  qed (use best in \<open>simp add: best1_def\<close>)
  have w: "weigh i c sub best = (case sub of None \<Rightarrow> best1
      | Some (p, j, sl) \<Rightarrow> older (rn_accessed (rn_children (node_at c p) ! j)) (i # p, j, sl) best1)"
    unfolding weigh_def best1_def victim_def Let_def by (rule refl)
  show ?thesis
  proof (cases sub)
    case None
    then show ?thesis using mid below unfolding w by (auto simp: best_ok_def split: option.splits)
  next
    case (Some x)
    obtain p j sl where x: "x = (p, j, sl)" by (metis prod.exhaust)
    obtain d where d: "at_list (rn_children c) p j = Some d" "victim d" "rn_slab d = sl"
        "\<And>e. e \<in> below c \<Longrightarrow> victim e \<Longrightarrow> rn_accessed d \<le> rn_accessed e"
      using below Some x by auto
    have at: "at_list all (i # p) j = Some d" using c d(1) by simp
    have acc: "rn_accessed (rn_children (node_at c p) ! j) = rn_accessed d" using at_list_node [OF d(1)] by simp
    have "best_ok all (pre @ [c]) (older (rn_accessed d) (i # p, j, sl) best1)"
    proof (cases best1)
      case None
      then show ?thesis using mid at d by (auto simp: older_def best_ok_def)
    next
      case (Some b)
      obtain bt bp bj bs where b: "b = (bt, bp, bj, bs)" by (metis prod.exhaust)
      show ?thesis
      proof (cases "rn_accessed d < bt")
        case True
        then show ?thesis using mid at d Some b by (force simp: older_def best_ok_def)
      next
        case False
        then show ?thesis using mid at d Some b by (force simp: older_def best_ok_def)
      qed
    qed
    then show ?thesis unfolding w using Some x acc by simp
  qed
qed

lemma lru_spec:
  "case find_lru_leaf_parent n of None \<Rightarrow> \<forall>d\<in>below n. \<not> victim d
    | Some (p, j, sl) \<Rightarrow> \<exists>d. at_list (rn_children n) p j = Some d \<and> victim d \<and> rn_slab d = sl \<and>
        (\<forall>e\<in>below n. victim e \<longrightarrow> rn_accessed d \<le> rn_accessed e)"
  "length pre = i \<Longrightarrow> best_ok (pre @ cs) pre best \<Longrightarrow> best_ok (pre @ cs) (pre @ cs) (lru_scan i cs best)"
proof (induction n and i cs best arbitrary: and pre rule: find_lru_leaf_parent_lru_scan.induct)
  case (1 t sl r a k cs)
  have "best_ok cs cs (lru_scan 0 cs None)" using 1 [of "[]"] by (simp add: best_ok_def)
  then show ?case by (auto simp: best_ok_def pool_of_def split: option.splits)
next
  case (2 i best)
  then show ?case by simp
next
  case (3 i c cs best)
  have "best_ok (pre @ c # cs) (pre @ [c]) (weigh i c (find_lru_leaf_parent c) best)"
    by (rule weigh_ok [OF 3(4)]) (use 3(1,3) in \<open>auto simp: nth_append\<close>)
  then show ?case using 3(2) [of "pre @ [c]"] 3(3) by simp
qed

lemma count_victims: "count_evictable n = 0 \<longleftrightarrow> (\<forall>d\<in>insert n (below n). \<not> victim d)"
  by (induction n) (auto simp: victim_def)

section \<open>Removal of a leaf\<close>

lemma swap_remove_mset:
  assumes "j < length xs"
  shows "mset (xs ! j # swap_remove j xs) = mset xs"
proof -
  have ne: "xs[j := last xs] \<noteq> []" using assms by auto
  have "last (xs[j := last xs]) = last xs" using assms by (subst last_list_update) auto
  then have "add_mset (last xs) (mset (swap_remove j xs)) = mset (xs[j := last xs])"
    using append_butlast_last_id [OF ne] unfolding swap_remove_def by (metis mset.simps(2) mset_append union_mset_add_mset_right mset.simps(1) add.right_neutral)
  also have "\<dots> = add_mset (last xs) (mset xs - {#xs ! j#})" using assms by (simp add: mset_update)
  finally show ?thesis using assms by (simp add: nth_mem_mset)
qed

lemma remove_child:
  assumes ok: "node_ok n" and j: "j < length (rn_children n)"
  defines "n' \<equiv> add_children (- 1) (swap_remove j (rn_children n)) n"
  shows "node_ok n'" "child_with b n' = (if b = rn_tokens (rn_children n ! j) then None else child_with b n)"
    "nodes n' + nodes (rn_children n ! j) = nodes n"
proof -
  let ?cs = "rn_children n" and ?ds = "swap_remove j (rn_children n)"
  note M = swap_remove_mset [OF j]
  have tok: "mset (map first_token (?cs ! j # ?ds)) = mset (map first_token ?cs)" using M by (metis mset_map)
  then have dist: "distinct (map first_token (?cs ! j # ?ds))" using node_okD(2) [OF ok] mset_eq_imp_distinct_iff by metis
  have set: "set ?cs = insert (?cs ! j) (set ?ds)" using mset_eq_setD [OF M] by simp
  have len: "Suc (length ?ds) = length ?cs" using arg_cong [OF M, of size] by simp
  have "(of_nat (length ?cs) :: u32) - 1 = of_nat (length ?ds)" unfolding len [symmetric] by simp
  then show ok': "node_ok n'"
    using node_okD [OF ok] dist set unfolding n'_def by (intro node_okI) auto
  have "child_with b n' = Some c \<longleftrightarrow> (if b = rn_tokens (?cs ! j) then None else child_with b n) = Some c" for c
  proof -
    have in_set: "child_with b m = Some c \<longleftrightarrow> c \<in> set (rn_children m) \<and> rn_tokens c = b" if "node_ok m" for m
      using child_with_iff [OF that] by (auto simp: in_set_conv_nth)
    have "rn_tokens d \<noteq> rn_tokens (?cs ! j)" if "d \<in> set ?ds" for d
    proof
      assume "rn_tokens d = rn_tokens (?cs ! j)"
      then have "first_token d = first_token (?cs ! j)" by (simp add: first_token_def)
      then show False using dist imageI [OF that, of first_token] by simp
    qed
    then show ?thesis unfolding in_set [OF ok'] using in_set [OF ok] set by (auto simp: n'_def)
  qed
  then show "child_with b n' = (if b = rn_tokens (?cs ! j) then None else child_with b n)" by (metis not_None_eq)
  have "sum_list (map nodes (?cs ! j # ?ds)) = sum_list (map nodes ?cs)"
    using M by (metis mset_map sum_mset_sum_list)
  then show "nodes n' + nodes (?cs ! j) = nodes n" by (cases n) (simp add: n'_def)
qed

fun labels :: "RadixNode list \<Rightarrow> nat list \<Rightarrow> nat \<Rightarrow> u32 list list" where
  "labels cs [] j = [rn_tokens (cs ! j)]"
| "labels cs (i # p) j = rn_tokens (cs ! i) # labels (rn_children (cs ! i)) p j"

lemma remove_leaf_spec:
  assumes "node_ok n" "at_list (rn_children n) p j = Some c" "rn_children c = []"
  shows "node_ok (remove_leaf p j n) \<and> rn_tokens (remove_leaf p j n) = rn_tokens n \<and> mark (remove_leaf p j n) = mark n \<and>
    nodes (remove_leaf p j n) + 1 = nodes n \<and> marks n (labels (rn_children n) p j) = Some (mark c) \<and>
    (\<forall>q. marks (remove_leaf p j n) q = (if q = labels (rn_children n) p j then None else marks n q))"
  using assms
proof (induction p j n rule: remove_leaf.induct)
  case (1 j n)
  have j: "j < length (rn_children n)" "c = rn_children n ! j" using 1(2) by (auto split: if_splits)
  note R = remove_child [OF 1(1) j(1)]
  have c: "nodes c = 1" using 1(3) by (cases c) simp
  have cw: "child_with (rn_tokens c) n = Some c" using child_with_iff [OF 1(1)] j by blast
  have "marks (add_children (- 1) (swap_remove j (rn_children n)) n) q = (if q = [rn_tokens c] then None else marks n q)" for q
  proof (cases q)
    case (Cons b bs)
    then show ?thesis using R(2) [of b] j(2) cw leaf_view(3) [OF 1(3), of bs] by auto
  qed simp
  then show ?case using R(1,3) c j(2) cw by simp
next
  case (2 i p j n)
  let ?c = "rn_children n ! i"
  have i: "i < length (rn_children n)" "at_list (rn_children ?c) p j = Some c" using 2(3) by (auto split: if_splits)
  have ok: "node_ok ?c" by (rule node_okD(5) [OF 2(2) nth_mem [OF i(1)]])
  note IH = 2(1) [OF ok i(2) 2(4)]
  have t: "node_ok (remove_leaf p j ?c)" "rn_tokens (remove_leaf p j ?c) = rn_tokens ?c" using IH by simp_all
  note R = replace_child [OF 2(2) t(1) i(1) t(2)]
  have cw: "child_with (rn_tokens ?c) n = Some ?c" using child_with_iff [OF 2(2)] i(1) by blast
  have "marks (remove_leaf (i # p) j n) q = (if q = rn_tokens ?c # labels (rn_children ?c) p j then None else marks n q)" for q
  proof (cases q)
    case (Cons b bs)
    then show ?thesis using R(2) [of b] t(2) cw IH by auto
  qed simp
  then show ?case using R(1,3) t IH cw by auto
qed

end
