(* ===== verification/Radix_Props.thy ===== *)
theory Radix_Props
  imports Radix_Evict
begin

text \<open>Properties of the prefix tree: what lookup, insertion, unpinning and eviction do to the map of marks.\<close>

definition tree_ok :: "RadixTree \<Rightarrow> bool" where
  "tree_ok t \<longleftrightarrow> node_ok (rt_root t) \<and> rn_slab (rt_root t) = None \<and> node_count t = nodes (rt_root t) \<and> node_count t < 2 ^ 32"

lemma tree_ok_new: "tree_ok RadixTree_new"
  by (simp add: tree_ok_def RadixTree_new_def RadixNode_root_def RadixNode_new_def)

lemma view_root: "marks n [] = Some (s, r, a) \<longleftrightarrow> mark n = (s, r, a)"
  by simp

lemma slab_of_mark: "mark n' = mark n \<Longrightarrow> rn_slab n' = rn_slab n"
  by (simp add: mark_def)

section \<open>Lookup\<close>

lemma radix_lookup_ok:
  assumes "tree_ok t" "tokens \<noteq> []"
  shows "\<exists>t'. lookup now t tokens = (t', Ok \<lparr>matched_tokens = length (concat (take (matched (rt_root t) (chunks tokens)) (chunks tokens))),
      slab_block_ids = path_slabs (rt_root t) (chunks tokens)\<rparr>) \<and> tree_ok t' \<and> node_count t' = node_count t \<and>
    (\<forall>p. marks (rt_root t') p =
      (if p \<noteq> [] \<and> prefix p (take (matched (rt_root t) (chunks tokens)) (chunks tokens)) then map_option (pinned now) (marks (rt_root t) p)
       else marks (rt_root t) p))"
proof -
  let ?n = "rt_root t" and ?bs = "chunks tokens"
  have ok: "node_ok ?n" using assms(1) by (simp add: tree_ok_def)
  obtain n' m ids where run: "lookup_walk now ?n tokens = (n', m, ids)" by (metis prod.exhaust)
  note S = lookup_walk_spec [OF ok run]
  let ?t = "t\<lparr>rt_root := n'\<rparr>"
  have "marks n' [] = marks ?n []" using S by (metis (no_types, lifting))
  then have "tree_ok ?t" using S assms(1) slab_of_mark [of n' ?n] by (simp add: tree_ok_def)
  moreover have "lookup now t tokens = (?t, Ok \<lparr>matched_tokens = length (concat (take (matched ?n ?bs) ?bs)), slab_block_ids = path_slabs ?n ?bs\<rparr>)"
    using run S assms(2) by (simp add: lookup_def)
  ultimately show ?thesis using S by (intro exI [of _ ?t]) simp
qed

text \<open>\<^bold>\<open>C27.\<close> Lookup in the prefix tree follows the longest stored prefix of the query, counted in blocks of 16
tokens: it reports exactly the tokens of that prefix and the slabs of its blocks in order, adds one
pin to each of its nodes and sets their access time, and changes no other mark.\<close>

theorem radix_lookup_longest:
  assumes "tree_ok t" "tokens \<noteq> []"
  shows "\<exists>t' k. lookup now t tokens = (t', Ok \<lparr>matched_tokens = length (concat (take k (chunks tokens))),
      slab_block_ids = path_slabs (rt_root t) (chunks tokens)\<rparr>) \<and>
    k \<le> length (chunks tokens) \<and> marks (rt_root t) (take k (chunks tokens)) \<noteq> None \<and>
    (\<forall>i. k < i \<longrightarrow> i \<le> length (chunks tokens) \<longrightarrow> marks (rt_root t) (take i (chunks tokens)) = None) \<and>
    tree_ok t' \<and> node_count t' = node_count t \<and>
    (\<forall>p. marks (rt_root t') p =
      (if p \<noteq> [] \<and> prefix p (take k (chunks tokens)) then map_option (pinned now) (marks (rt_root t) p) else marks (rt_root t) p))"
  using radix_lookup_ok [OF assms, of now] matched_longest [of "rt_root t" "chunks tokens"] matched_le [of "rt_root t" "chunks tokens"]
  by blast

theorem radix_lookup_longest_witness:
  "\<exists>t' r. lookup 5 RadixTree_new [7] = (t', Ok r) \<and> tree_ok t'"
  using radix_lookup_longest [OF tree_ok_new, of "[7]" 5] by auto

section \<open>Insertion\<close>

lemma radix_insert_ok:
  assumes "tree_ok t" "tokens \<noteq> []" "node_count t + length (chunks tokens) < 2 ^ 32"
  obtains t' m where "radix_insert now t tokens ids = (t', Ok m)" "tree_ok t'" "node_count t' = node_count t + m"
    "m = (if clash (rt_root t) (chunks tokens) then 0 else length (chunks tokens) - matched (rt_root t) (chunks tokens))"
    "\<And>p. marks (rt_root t') p = inserted now ids (chunks tokens) (rt_root t) p"
proof -
  let ?n = "rt_root t" and ?bs = "chunks tokens"
  have ok: "node_ok ?n" using assms(1) by (simp add: tree_ok_def)
  obtain n' m where run: "insert_walk now ?n tokens ids = (n', m)" by fastforce
  note S = insert_walk_spec [OF ok run]
  let ?t = "\<lparr>rt_root = n', node_count = node_count t + m\<rparr>"
  have "marks n' [] = inserted now ids ?bs ?n []" using S by blast
  then have "marks n' [] = marks ?n []" by (simp only: inserted_def if_True simp_thms)
  then have "rn_slab n' = None" using assms(1) slab_of_mark [of n' ?n] by (simp add: tree_ok_def)
  then have "tree_ok ?t" using S assms(1,3) by (auto simp: tree_ok_def split: if_splits)
  moreover have "radix_insert now t tokens ids = (?t, Ok m)" using run assms(2) by (simp add: radix_insert_def)
  ultimately show ?thesis using that [of ?t m] S by simp
qed

text \<open>\<^bold>\<open>C28.\<close> Insertion into the prefix tree. Unless the query leaves the tree in the middle of a stored block,
every missing block of the query is added as a new unpinned node, the i-th missing block with the
i-th entry of the slab list (without a slab when the list is too short), the stored part is touched,
every other mark is unchanged, and a lookup of the query then matches all its tokens. If it leaves
the tree in the middle of a block, nothing is added. The node count and the shape stay consistent.\<close>

theorem radix_insert_adds:
  assumes "tree_ok t" "tokens \<noteq> []" "node_count t + length (chunks tokens) < 2 ^ 32"
  shows "\<exists>t' m. radix_insert now t tokens ids = (t', Ok m) \<and> tree_ok t' \<and> node_count t' = node_count t + m \<and>
    m = (if clash (rt_root t) (chunks tokens) then 0 else length (chunks tokens) - matched (rt_root t) (chunks tokens)) \<and>
    (\<forall>p. marks (rt_root t') p = inserted now ids (chunks tokens) (rt_root t) p) \<and>
    (\<not> clash (rt_root t) (chunks tokens) \<longrightarrow>
      (\<exists>t'' r. lookup later t' tokens = (t'', Ok r) \<and> is_full_hit r (length tokens)))"
proof -
  let ?bs = "chunks tokens"
  obtain t' m where t': "radix_insert now t tokens ids = (t', Ok m)" "tree_ok t'" "node_count t' = node_count t + m"
      "m = (if clash (rt_root t) ?bs then 0 else length ?bs - matched (rt_root t) ?bs)"
      "\<And>p. marks (rt_root t') p = inserted now ids ?bs (rt_root t) p"
    using radix_insert_ok [OF assms] by blast
  have "\<exists>t'' r. lookup later t' tokens = (t'', Ok r) \<and> is_full_hit r (length tokens)" if nc: "\<not> clash (rt_root t) ?bs"
  proof -
    have full: "marks (rt_root t') ?bs \<noteq> None"
    proof (cases "length ?bs \<le> matched (rt_root t) ?bs")
      case True
      then have "matched (rt_root t) ?bs = length ?bs" using matched_le [of "rt_root t" ?bs] by simp
      then have "marks (rt_root t) ?bs \<noteq> None" using matched_longest(1) [of "rt_root t" ?bs] by simp
      then show ?thesis using True unfolding t'(5) inserted_def by (auto simp: option.map_sel touched_def split: prod.splits)
    next
      case False
      then show ?thesis using nc unfolding t'(5) inserted_def by auto
    qed
    have ok: "node_ok (rt_root t')" using t'(2) by (simp add: tree_ok_def)
    obtain n' j js where run: "lookup_walk later (rt_root t') tokens = (n', j, js)" by (metis prod.exhaust)
    have "matched (rt_root t') ?bs = length ?bs"
      using matched_longest(2) [of "rt_root t'" ?bs "length ?bs"] full matched_le [of "rt_root t'" ?bs] by fastforce
    then have "j = length tokens" using lookup_walk_spec [OF ok run] by (simp add: concat_chunks)
    then show ?thesis using run assms(2) by (simp add: lookup_def is_full_hit_def)
  qed
  then show ?thesis using t' by (intro exI [of _ t'] exI [of _ m]) simp
qed

lemma chunks_short: "ts \<noteq> [] \<Longrightarrow> length ts \<le> 16 \<Longrightarrow> chunks ts = [ts]"
  by (simp add: chunks.simps [of ts] TOKENS_PER_BLOCK_def)

lemma new_tree [simp]: "rn_children (rt_root RadixTree_new) = []" "child_with b (rt_root RadixTree_new) = None" "node_count RadixTree_new = 1"
  by (simp_all add: RadixTree_new_def RadixNode_root_def RadixNode_new_def child_with_def)

lemma insert_in_new_tree:
  assumes "b \<noteq> []" "length b \<le> 16"
  obtains t where "radix_insert now RadixTree_new b [s] = (t, Ok 1)" "tree_ok t" "node_count t = 2"
    "\<And>p. marks (rt_root t) p = inserted now [s] [b] (rt_root RadixTree_new) p"
  by (rule radix_insert_ok [OF tree_ok_new assms(1), of now "[s]"]) (use that in \<open>auto simp: chunks_short [OF assms]\<close>)

theorem radix_insert_adds_witness:
  "\<exists>t' t'' r. radix_insert 1 RadixTree_new [7, 8] [SlabBlockId 3] = (t', Ok 1) \<and> lookup 2 t' [7, 8] = (t'', Ok r) \<and> is_full_hit r (length [7, 8 :: u32])"
proof -
  have ch: "chunks [7, 8] = [[7, 8]]" by (rule chunks_short) simp_all
  then have "node_count RadixTree_new + length (chunks [7, 8]) < 2 ^ 32" by (simp add: new_tree)
  then show ?thesis
    using radix_insert_adds [OF tree_ok_new, of "[7, 8]" 1 "[SlabBlockId 3]" 2] unfolding ch by auto
qed

text \<open>Slabs go to the wrong blocks. The documentation says that entry i of the slab list belongs to
block i of the sequence. When the first k blocks of the sequence are already stored, the first missing
block, which has index k, gets entry 0 of the list instead of entry k.\<close>

theorem insert_shifts_slabs:
  assumes "tree_ok t" "tokens \<noteq> []" "node_count t + length (chunks tokens) < 2 ^ 32"
    and k: "k = matched (rt_root t) (chunks tokens)" "0 < k" "k < length (chunks tokens)" "\<not> clash (rt_root t) (chunks tokens)"
    and ids: "k < length ids" "ids ! 0 \<noteq> ids ! k"
  shows "\<exists>t' m. radix_insert now t tokens ids = (t', Ok m) \<and>
    marks (rt_root t') (take (Suc k) (chunks tokens)) = Some (Some (ids ! 0), 0, now) \<and>
    marks (rt_root t') (take (Suc k) (chunks tokens)) \<noteq> Some (Some (ids ! k), 0, now)"
proof -
  let ?bs = "chunks tokens"
  obtain t' m where t': "radix_insert now t tokens ids = (t', Ok m)" "\<And>p. marks (rt_root t') p = inserted now ids ?bs (rt_root t) p"
    using radix_insert_ok [OF assms(1-3)] by blast
  have "prefix (take (Suc k) ?bs) ?bs" "length (take (Suc k) ?bs) = Suc k" "take (Suc k) ?bs \<noteq> []"
    using k(3) by (auto simp: take_is_prefix)
  then have "marks (rt_root t') (take (Suc k) ?bs) = Some (nth_opt ids 0, 0, now)"
    unfolding t'(2) inserted_def using k by simp
  moreover have "nth_opt ids 0 = Some (ids ! 0)" using ids(1) by (cases ids) (auto simp: nth_opt_def)
  ultimately show ?thesis using t'(1) ids(2) by auto
qed

definition seventeen :: "u32 list" where "seventeen = replicate 16 1 @ [2]"

lemma seventeen: "chunks seventeen = [replicate 16 1, [2]]" "seventeen \<noteq> []"
  by (simp_all add: seventeen_def chunks.simps [of "replicate 16 1 @ [2]"] chunks_short TOKENS_PER_BLOCK_def)

theorem insert_shifts_slabs_witness:
  "\<exists>t t' m. radix_insert 1 RadixTree_new (replicate 16 1) [SlabBlockId 10] = (t, Ok 1) \<and>
     radix_insert 2 t seventeen [SlabBlockId 10, SlabBlockId 12] = (t', Ok m) \<and>
     marks (rt_root t') [replicate 16 1, [2]] = Some (Some (SlabBlockId 10), 0, 2)"
proof -
  let ?b = "replicate 16 1 :: u32 list" and ?r = "rt_root RadixTree_new"
  obtain t where t: "radix_insert 1 RadixTree_new ?b [SlabBlockId 10] = (t, Ok 1)" "tree_ok t" "node_count t = 2" "(1::nat) = 1"
      "\<And>p. marks (rt_root t) p = inserted 1 [SlabBlockId 10] [?b] ?r p"
    using insert_in_new_tree [of ?b 1 "SlabBlockId 10"] by auto
  have v: "marks (rt_root t) [?b] \<noteq> None" "marks (rt_root t) [?b, [2]] = None"
    unfolding t(5) by (simp_all add: inserted_def)
  obtain c where c: "child_with ?b (rt_root t) = Some c" using v(1) by (auto split: option.splits)
  have cn: "child_with [2] c = None" using v(2) c by (auto simp: mark_def split: option.splits)
  have none: "rn_children c = []"
  proof (rule ccontr)
    assume "rn_children c \<noteq> []"
    then obtain d where d: "d \<in> set (rn_children c)" by (cases "rn_children c") auto
    have okc: "node_ok c" using child_withD(2) [OF _ c] t(2) by (simp add: tree_ok_def)
    have "child_with (rn_tokens d) c = Some d" using child_with_iff [OF okc] d by (auto simp: in_set_conv_nth)
    then have "marks (rt_root t) [?b, rn_tokens d] \<noteq> None" using c by simp
    then show False unfolding t(5) by (simp add: inserted_def)
  qed
  have "matched (rt_root t) (chunks seventeen) = 1" "\<not> clash (rt_root t) (chunks seventeen)"
    using c cn none by (simp_all add: seventeen(1))
  moreover have "node_count t + length (chunks seventeen) < 2 ^ 32" using t(3,4) by (simp add: seventeen(1))
  ultimately show ?thesis
    using insert_shifts_slabs [OF t(2) seventeen(2), of 1 "[SlabBlockId 10, SlabBlockId 12]" 2] t(1,4)
    by (auto simp: seventeen(1))
qed

section \<open>Unpinning\<close>

definition unpinned :: "SlabBlockId list \<Rightarrow> mark \<Rightarrow> mark" where
  "unpinned ids m = (case m of (s, r, a) \<Rightarrow> (s, if s \<in> Some ` set ids then r - 1 else r, a))"

lemma unpin_recursive_fields:
  "rn_children (unpin_recursive ids n) = map (unpin_recursive ids) (rn_children n)"
  "rn_tokens (unpin_recursive ids n) = rn_tokens n" "mark (unpin_recursive ids n) = unpinned ids (mark n)"
  "rn_child_count (unpin_recursive ids n) = rn_child_count n"
  by (cases n; auto simp: unpinned_def mark_def Let_def split: option.splits)+

lemma unpin_recursive_child: "child_with b (unpin_recursive ids n) = map_option (unpin_recursive ids) (child_with b n)"
proof -
  have "find (\<lambda>c. rn_tokens c = b) (map (unpin_recursive ids) cs) = map_option (unpin_recursive ids) (find (\<lambda>c. rn_tokens c = b) cs)" for cs
    by (induction cs) (auto simp: unpin_recursive_fields)
  then show ?thesis by (simp add: child_with_def unpin_recursive_fields)
qed

lemma unpin_recursive_view: "marks (unpin_recursive ids n) p = map_option (unpinned ids) (marks n p)"
  by (induction n p rule: marks.induct) (auto simp: unpin_recursive_fields unpin_recursive_child split: option.splits)

lemma unpin_recursive_shape: "node_ok n \<Longrightarrow> node_ok (unpin_recursive ids n)" "nodes (unpin_recursive ids n) = nodes n"
proof -
  show "node_ok n \<Longrightarrow> node_ok (unpin_recursive ids n)"
  proof (induction n)
    case (RadixNode t sl r a k cs)
    have ft: "first_token (unpin_recursive ids c) = first_token c" for c by (simp add: first_token_def unpin_recursive_fields)
    note F = unpin_recursive_fields [of ids "RadixNode t sl r a k cs"]
    show ?case
      by (rule node_okI, unfold F) (use RadixNode in \<open>auto simp: unpin_recursive_fields ft comp_def\<close>)
  qed
  show "nodes (unpin_recursive ids n) = nodes n"
  proof (induction n)
    case (RadixNode t sl r a k cs)
    then have "map (nodes \<circ> unpin_recursive ids) cs = map nodes cs" by simp
    then have "sum_list (map (nodes \<circ> unpin_recursive ids) cs) = sum_list (map nodes cs)" by (rule arg_cong)
    then show ?case by (simp add: Let_def del: map_eq_conv split: option.splits)
  qed
qed

lemma path_slabs_iff:
  "b \<in> set (path_slabs n bs) \<longleftrightarrow> (\<exists>p r a. p \<noteq> [] \<and> prefix p (take (matched n bs) bs) \<and> marks n p = Some (Some b, r, a))"
proof (induction n bs rule: matched.induct)
  case (2 n c cs)
  show ?case
  proof (cases "child_with c n")
    case (Some d)
    have "(\<exists>p r a. p \<noteq> [] \<and> prefix p (take (matched n (c # cs)) (c # cs)) \<and> marks n p = Some (Some b, r, a)) \<longleftrightarrow>
        (\<exists>q r a. prefix q (take (matched d cs) cs) \<and> marks d q = Some (Some b, r, a))"
      using Some by (fastforce simp: prefix_Cons)
    also have "\<dots> \<longleftrightarrow> rn_slab d = Some b \<or> b \<in> set (path_slabs d cs)"
      unfolding 2 [OF Some]
    proof
      assume "\<exists>q r a. prefix q (take (matched d cs) cs) \<and> marks d q = Some (Some b, r, a)"
      then obtain q r a where q: "prefix q (take (matched d cs) cs)" "marks d q = Some (Some b, r, a)" by blast
      show "rn_slab d = Some b \<or> (\<exists>p r a. p \<noteq> [] \<and> prefix p (take (matched d cs) cs) \<and> marks d p = Some (Some b, r, a))"
        using q by (cases "q = []") (auto simp: mark_def)
    next
      assume "rn_slab d = Some b \<or> (\<exists>p r a. p \<noteq> [] \<and> prefix p (take (matched d cs) cs) \<and> marks d p = Some (Some b, r, a))"
      moreover have "marks d [] = Some (rn_slab d, rn_refs d, rn_accessed d)" by (simp add: mark_def)
      ultimately show "\<exists>q r a. prefix q (take (matched d cs) cs) \<and> marks d q = Some (Some b, r, a)" (is ?goal)
      proof (elim disjE)
        assume "rn_slab d = Some b" "marks d [] = Some (rn_slab d, rn_refs d, rn_accessed d)"
        then have "prefix [] (take (matched d cs) cs) \<and> marks d [] = Some (Some b, rn_refs d, rn_accessed d)" by simp
        then show ?goal by blast
      qed blast
    qed
    finally show ?thesis using Some by (auto split: option.splits)
  qed simp
qed simp

definition slabs_unique :: "RadixTree \<Rightarrow> bool" where
  "slabs_unique t \<longleftrightarrow> (\<forall>p q b r a r' a'. marks (rt_root t) p = Some (Some b, r, a) \<longrightarrow> marks (rt_root t) q = Some (Some b, r', a') \<longrightarrow> p = q)"

definition path_has_slabs :: "RadixTree \<Rightarrow> u32 list list \<Rightarrow> bool" where
  "path_has_slabs t bs \<longleftrightarrow> (\<forall>p r a. p \<noteq> [] \<longrightarrow> prefix p bs \<longrightarrow> marks (rt_root t) p \<noteq> Some (None, r, a))"

text \<open>\<^bold>\<open>C30.\<close> Unpinning undoes the pins of a lookup. If every node on the matched path has a slab and no slab
occurs twice in the tree, then releasing the ids that a lookup returned restores every reference
count of the tree, also under pins held by others: only the access times of the path have changed.\<close>

theorem lookup_unpin_balanced:
  assumes "tree_ok t" "tokens \<noteq> []"
    and unique: "slabs_unique t" and slabs: "path_has_slabs t (chunks tokens)"
  shows "\<exists>t' res. lookup now t tokens = (t', Ok res) \<and> tree_ok (unpin (slab_block_ids res) t') \<and>
    (\<forall>p. map_option (\<lambda>(s, r, a). (s, r)) (marks (rt_root (unpin (slab_block_ids res) t')) p) =
         map_option (\<lambda>(s, r, a). (s, r)) (marks (rt_root t) p))"
proof -
  let ?n = "rt_root t" and ?bs = "chunks tokens" and ?ids = "path_slabs (rt_root t) (chunks tokens)"
  let ?k = "matched ?n ?bs"
  have ok: "node_ok ?n" using assms(1) by (simp add: tree_ok_def)
  obtain t' where t': "lookup now t tokens = (t', Ok \<lparr>matched_tokens = length (concat (take ?k ?bs)), slab_block_ids = ?ids\<rparr>)" "tree_ok t'"
      and v: "\<And>p. marks (rt_root t') p = (if p \<noteq> [] \<and> prefix p (take ?k ?bs) then map_option (pinned now) (marks ?n p) else marks ?n p)"
    using radix_lookup_ok [OF assms(1,2)] by metis
  have "map_option (\<lambda>(s, r, a). (s, r)) (map_option (unpinned ?ids) (marks (rt_root t') p)) = map_option (\<lambda>(s, r, a). (s, r)) (marks ?n p)" for p
  proof (cases "marks ?n p")
    case (Some m)
    obtain s r a where m: "m = (s, r, a)" by (metis prod.exhaust)
    show ?thesis
    proof (cases "p \<noteq> [] \<and> prefix p (take ?k ?bs)")
      case True
      then have "prefix p ?bs" using take_is_prefix prefix_order.trans by blast
      then obtain b where "s = Some b" using slabs True Some m by (cases s) (auto simp: path_has_slabs_def)
      then have "b \<in> set ?ids" unfolding path_slabs_iff using True Some m by blast
      then show ?thesis unfolding v using True Some m \<open>s = Some b\<close> by (simp add: pinned_def unpinned_def)
    next
      case False
      have "s \<notin> Some ` set ?ids"
      proof
        assume "s \<in> Some ` set ?ids"
        then obtain b q r' a' where "s = Some b" "q \<noteq> []" "prefix q (take ?k ?bs)" "marks ?n q = Some (Some b, r', a')"
          by (auto simp: path_slabs_iff)
        then show False using unique Some m False unfolding slabs_unique_def by blast
      qed
      then show ?thesis unfolding v if_not_P [OF False] using Some m by (simp add: unpinned_def)
    qed
  qed (simp add: v)
  moreover have "rn_slab (unpin_recursive ?ids (rt_root t')) = rn_slab (rt_root t')"
    using unpin_recursive_fields(3) [of ?ids "rt_root t'"] by (simp add: mark_def unpinned_def)
  then have "tree_ok (unpin ?ids t')" using t'(2) unpin_recursive_shape by (simp add: tree_ok_def unpin_def)
  ultimately show ?thesis using t'(1) by (simp add: unpin_def unpin_recursive_view)
qed

text \<open>A tree with one stored block, for the concrete instances below.\<close>

lemma one_block:
  assumes "b \<noteq> []" "length b \<le> 16"
  obtains t where "radix_insert now RadixTree_new b [s] = (t, Ok 1)" "tree_ok t" "marks (rt_root t) [b] = Some (Some s, 0, now)"
    "\<And>p m. marks (rt_root t) p = Some m \<Longrightarrow> p \<noteq> [] \<Longrightarrow> p = [b]"
proof -
  obtain t where t: "radix_insert now RadixTree_new b [s] = (t, Ok 1)" "tree_ok t" "\<And>p. marks (rt_root t) p = inserted now [s] [b] (rt_root RadixTree_new) p"
    by (rule insert_in_new_tree [OF assms, of now s]) blast
  have "marks (rt_root t) [b] = Some (Some s, 0, now)" unfolding t(3) by (simp add: inserted_def nth_opt_def)
  moreover have "p = [b]" if "marks (rt_root t) p = Some m" "p \<noteq> []" for p m
    using that unfolding t(3) by (cases p) (auto simp: inserted_def prefix_Cons split: if_splits)
  ultimately show ?thesis using that t(1,2) by blast
qed

theorem lookup_unpin_balanced_witness:
  "\<exists>t t' res. radix_insert 1 RadixTree_new [7, 8] [SlabBlockId 3] = (t, Ok 1) \<and> lookup 2 t [7, 8] = (t', Ok res) \<and>
     tree_ok (unpin (slab_block_ids res) t')"
proof -
  obtain t where t: "radix_insert 1 RadixTree_new [7, 8] [SlabBlockId 3] = (t, Ok 1)" "tree_ok t" "marks (rt_root t) [[7, 8]] = Some (Some (SlabBlockId 3), 0, 1)"
      "\<And>p m. marks (rt_root t) p = Some m \<Longrightarrow> p \<noteq> [] \<Longrightarrow> p = [[7, 8]]"
    by (rule one_block [of "[7, 8]" 1 "SlabBlockId 3"]) auto
  have root: "marks (rt_root t) [] \<noteq> Some (Some b, r, a)" for b r a using t(2) by (simp add: tree_ok_def mark_def)
  have u: "slabs_unique t" unfolding slabs_unique_def using t(4) root by metis
  have sl: "path_has_slabs t (chunks [7, 8])" unfolding path_has_slabs_def
  proof (intro allI impI)
    fix p :: "u32 list list" and r a assume "p \<noteq> []"
    then show "marks (rt_root t) p \<noteq> Some (None, r, a)" using t(3) t(4) [of p "(None, r, a)"] by force
  qed
  have "[7, 8 :: u32] \<noteq> []" by simp
  from lookup_unpin_balanced [OF t(2) this u sl, where now = 2] obtain t' res where
    "lookup 2 t [7, 8] = (t', Ok res)" "tree_ok (unpin (slab_block_ids res) t')" by blast
  then show ?thesis using t(1) by blast
qed

section \<open>Eviction\<close>

lemma child_nodes: "c \<in> set (rn_children n) \<Longrightarrow> nodes c < nodes n"
  using member_le_sum_list [of "nodes c" "map nodes (rn_children n)"] by (cases n) auto

lemma view_labels: "node_ok n \<Longrightarrow> at_list (rn_children n) p j = Some c \<Longrightarrow> marks n (labels (rn_children n) p j @ x) = marks c x"
proof (induction n p rule: node_at.induct)
  case (1 n)
  then have "child_with (rn_tokens c) n = Some c" using child_with_iff [OF 1(1)] by (auto split: if_splits)
  then show ?case using 1(2) by (auto split: if_splits)
next
  case (2 n i p)
  have i: "i < length (rn_children n)" "at_list (rn_children (rn_children n ! i)) p j = Some c" using 2(3) by (auto split: if_splits)
  then have "child_with (rn_tokens (rn_children n ! i)) n = Some (rn_children n ! i)" using child_with_iff [OF 2(2)] by blast
  then show ?case using 2(1) [OF node_okD(5) [OF 2(2) nth_mem [OF i(1)]] i(2)] by simp
qed

lemma at_list_sub: "node_ok n \<Longrightarrow> at_list (rn_children n) p j = Some c \<Longrightarrow> node_ok c \<and> nodes c < nodes n"
proof (induction n p rule: node_at.induct)
  case (1 n)
  then show ?case using node_okD(5) [OF 1(1)] child_nodes [of c n] by (auto split: if_splits)
next
  case (2 n i p)
  have i: "i < length (rn_children n)" "at_list (rn_children (rn_children n ! i)) p j = Some c" using 2(3) by (auto split: if_splits)
  then show ?case using 2(1) [OF node_okD(5) [OF 2(2) nth_mem [OF i(1)]] i(2)] child_nodes [OF nth_mem [OF i(1)]] by linarith
qed

lemma view_below:
  "node_ok n \<Longrightarrow> marks n (b # q) = Some m \<Longrightarrow> \<exists>c\<in>below n. mark c = m \<and> node_ok c \<and> nodes c < nodes n \<and> (\<forall>x. marks n ((b # q) @ x) = marks c x)"
proof (induction q arbitrary: n b)
  case Nil
  then obtain c where c: "child_with b n = Some c" "mark c = m" by (auto split: option.splits)
  note C = child_withD [OF Nil(1) c(1)]
  have "nodes c < nodes n" using child_nodes [OF C(1)] .
  then show ?case using c C(1,2) by (intro bexI [of _ c]) (auto simp: below_children [of n] pool_of_def)
next
  case (Cons b' q)
  then obtain c where c: "child_with b n = Some c" "marks c (b' # q) = Some m" by (cases "child_with b n") auto
  note C = child_withD [OF Cons.prems(1) c(1)]
  obtain d where d: "d \<in> below c" "mark d = m" "node_ok d" "nodes d < nodes c" "\<And>x. marks c ((b' # q) @ x) = marks d x"
    using Cons.IH [OF C(2) c(2)] by blast
  have "nodes c < nodes n" using child_nodes [OF C(1)] .
  then show ?case using d c(1) C(1) by (intro bexI [of _ d]) (auto simp: below_children [of n] pool_of_def)
qed

lemma children_below_nodes: "length (rn_children n) < nodes n"
proof -
  have "length cs \<le> sum_list (map nodes cs)" for cs
  proof (induction cs)
    case (Cons c cs)
    then show ?case by (cases c) simp
  qed simp
  then show ?thesis by (cases n) (simp add: le_imp_less_Suc)
qed

lemma childless_iff:
  assumes "node_ok n" "nodes n < 2 ^ 32"
  shows "rn_child_count n = 0 \<longleftrightarrow> rn_children n = []"
proof -
  have "length (rn_children n) < 2 ^ 32" using children_below_nodes [of n] assms(2) by linarith
  then have "unat (rn_child_count n) = length (rn_children n)" using node_okD(1) [OF assms(1)] by (simp add: unat_of_nat)
  then show ?thesis by (metis length_0_conv unat_0 unat_eq_zero)
qed

lemma leaf_in_view:
  assumes "node_ok c" "\<And>x. x \<noteq> [] \<Longrightarrow> marks c x = None"
  shows "rn_children c = []"
proof (rule ccontr)
  assume "rn_children c \<noteq> []"
  then obtain d where d: "d \<in> set (rn_children c)" by (cases "rn_children c") auto
  then have "child_with (rn_tokens d) c = Some d" using child_with_iff [OF assms(1)] by (auto simp: in_set_conv_nth)
  then have "marks c [rn_tokens d] \<noteq> None" by simp
  then show False using assms(2) [of "[rn_tokens d]"] by simp
qed

text \<open>A stored path that is an unpinned leaf with a slab.\<close>

definition evictable_leaf :: "RadixTree \<Rightarrow> u32 list list \<Rightarrow> SlabBlockId \<Rightarrow> u64 \<Rightarrow> bool" where
  "evictable_leaf t q b a \<longleftrightarrow> q \<noteq> [] \<and> marks (rt_root t) q = Some (Some b, 0, a) \<and> (\<forall>x. x \<noteq> [] \<longrightarrow> marks (rt_root t) (q @ x) = None)"

lemma evictable_leaf_victim:
  assumes t: "tree_ok t" and q: "evictable_leaf t q b a"
  shows "\<exists>c\<in>below (rt_root t). victim c \<and> rn_slab c = Some b \<and> rn_accessed c = a"
proof -
  obtain y ys where y: "q = y # ys" using q by (cases q) (auto simp: evictable_leaf_def)
  obtain c where c: "c \<in> below (rt_root t)" "mark c = (Some b, 0, a)" "node_ok c" "nodes c < nodes (rt_root t)" "\<And>x. marks (rt_root t) (q @ x) = marks c x"
    using view_below [of "rt_root t" y ys "(Some b, 0, a)"] t q unfolding y tree_ok_def evictable_leaf_def by blast
  have "rn_children c = []" using q c(5) by (intro leaf_in_view [OF c(3)]) (simp add: evictable_leaf_def)
  moreover have "nodes c < 2 ^ 32" using c(4) t by (simp add: tree_ok_def)
  ultimately have "victim c" using c(2) childless_iff [OF c(3)] by (simp add: victim_def is_evictable_def mark_def)
  then show ?thesis using c(1,2) by (auto simp: mark_def)
qed

text \<open>\<^bold>\<open>C29.\<close> Eviction from the prefix tree. When some stored path is an unpinned leaf with a slab, eviction
removes exactly one such path, one whose last access is the oldest of all of them, and returns its
slab; every other mark stays and the count of nodes follows. When there is none, which is when the
count of evictable leaves is 0, it fails and leaves the tree as it is. Pinned nodes and inner nodes
are never removed.\<close>

theorem radix_evict:
  assumes "tree_ok t"
  shows "evictable_count t = 0 \<and> evict_lru t = (t, Err NoEvictableLeaf) \<and> (\<forall>q b a. \<not> evictable_leaf t q b a) \<or>
    0 < evictable_count t \<and>
    (\<exists>t' q b a. evict_lru t = (t', Ok (Some b)) \<and> evictable_leaf t q b a \<and> (\<forall>q' b' a'. evictable_leaf t q' b' a' \<longrightarrow> a \<le> a') \<and>
      tree_ok t' \<and> Suc (node_count t') = node_count t \<and> marks (rt_root t') = (marks (rt_root t))(q := None))"
proof -
  let ?n = "rt_root t"
  have ok: "node_ok ?n" "rn_slab ?n = None" "nodes ?n < 2 ^ 32" "node_count t = nodes ?n" using assms by (simp_all add: tree_ok_def)
  have count: "evictable_count t = 0 \<longleftrightarrow> (\<forall>d\<in>below ?n. \<not> victim d)"
    unfolding evictable_count_def count_victims using ok(2) by (simp add: victim_def)
  show ?thesis
  proof (cases "find_lru_leaf_parent ?n")
    case None
    then have "\<forall>d\<in>below ?n. \<not> victim d" using lru_spec(1) [of ?n] by simp
    then show ?thesis using None count evictable_leaf_victim [OF assms] by (auto simp: evict_lru_def)
  next
    case (Some x)
    obtain p j sl where x: "x = (p, j, sl)" by (metis prod.exhaust)
    obtain d where d: "at_list (rn_children ?n) p j = Some d" "victim d" "rn_slab d = sl" "\<And>e. e \<in> below ?n \<Longrightarrow> victim e \<Longrightarrow> rn_accessed d \<le> rn_accessed e"
      using lru_spec(1) [of ?n] Some x by auto
    have db: "d \<in> below ?n" using at_list_below [OF d(1)] by (simp add: below_children)
    obtain b where b: "sl = Some b" using d(2,3) by (auto simp: victim_def)
    let ?q = "labels (rn_children ?n) p j" and ?t = "\<lparr>rt_root = remove_leaf p j ?n, node_count = node_count t - 1\<rparr>"
    have q: "?q \<noteq> []" by (cases p) simp_all
    have vq: "marks ?n (?q @ x) = marks d x" for x by (rule view_labels [OF ok(1) d(1)])
    have mk: "mark d = (Some b, 0, rn_accessed d)" using d(2,3) b by (simp add: mark_def victim_def is_evictable_def)
    obtain y ys where y: "?q = y # ys" using q by (cases ?q) auto
    have dn: "node_ok d \<and> nodes d < nodes ?n" by (rule at_list_sub [OF ok(1) d(1)])
    have leaf: "rn_children d = []" using childless_iff [of d] dn ok(3) d(2) by (simp add: victim_def is_evictable_def)
    note R = remove_leaf_spec [OF ok(1) d(1) leaf]
    have "rn_slab (remove_leaf p j ?n) = None" using R ok(2) slab_of_mark by metis
    then have "tree_ok ?t" using R ok by (auto simp: tree_ok_def)
    moreover have "evictable_leaf t ?q b (rn_accessed d)"
      using q vq [of "[]"] vq leaf_view(3) [OF leaf] mk by (simp add: evictable_leaf_def)
    moreover have "rn_accessed d \<le> a'" if "evictable_leaf t q' b' a'" for q' b' a'
      using evictable_leaf_victim [OF assms that] d(4) by blast
    moreover have "marks (rt_root ?t) = (marks ?n)(?q := None)" using R by (auto simp: fun_eq_iff)
    moreover have "Suc (node_count ?t) = node_count t" using ok(4) R by simp
    moreover have "0 < evictable_count t" using count db d(2) by blast
    moreover have "evict_lru t = (?t, Ok (Some b))" using Some x b by (simp add: evict_lru_def)
    ultimately show ?thesis by blast
  qed
qed

theorem radix_evict_witness:
  "\<exists>t t'. radix_insert 1 RadixTree_new [7, 8] [SlabBlockId 3] = (t, Ok 1) \<and> evict_lru t = (t', Ok (Some (SlabBlockId 3))) \<and>
     evict_lru RadixTree_new = (RadixTree_new, Err NoEvictableLeaf)"
proof -
  obtain t where t: "radix_insert 1 RadixTree_new [7, 8] [SlabBlockId 3] = (t, Ok 1)" "tree_ok t" "marks (rt_root t) [[7, 8]] = Some (Some (SlabBlockId 3), 0, 1)"
      "\<And>p m. marks (rt_root t) p = Some m \<Longrightarrow> p \<noteq> [] \<Longrightarrow> p = [[7, 8]]"
    by (rule one_block [of "[7, 8]" 1 "SlabBlockId 3"]) auto
  have "marks (rt_root t) ([[7, 8]] @ x) = None" if "x \<noteq> []" for x using t(4) [of "[[7, 8]] @ x"] that by (cases "marks (rt_root t) ([[7, 8]] @ x)") auto
  then have leaf: "evictable_leaf t [[7, 8]] (SlabBlockId 3) 1" unfolding evictable_leaf_def using t(3) by blast
  have only: "b = SlabBlockId 3" if "evictable_leaf t q b a" for q b a
    using that t(3,4) unfolding evictable_leaf_def by (metis option.inject prod.inject)
  have "\<exists>t'. evict_lru t = (t', Ok (Some (SlabBlockId 3)))" using radix_evict [OF t(2)] leaf only by metis
  moreover have "\<not> evictable_leaf RadixTree_new q b a" for q b a
    by (cases q) (auto simp: evictable_leaf_def)
  then have "evict_lru RadixTree_new = (RadixTree_new, Err NoEvictableLeaf)" using radix_evict [OF tree_ok_new] by metis
  ultimately show ?thesis using t(1) by blast
qed

end
