(* ===== verification/Aof_Apply.thy ===== *)
theory Aof_Apply
  imports Server_Hashes
begin

text \<open>
  Applying a recovered log frame to the store (\<open>apply_frame\<close> of
  \<open>crates/kachedb-server/src/aof_recovery.rs\<close>): what start-up does with the frames that the scan of the
  log yields. A frame that cannot be applied is dropped without a message. The vector registry is an
  argument.
\<close>

section \<open>Strings and expiry\<close>

text \<open>A block that was allocated but does not resolve is not released.\<close>

definition apply_set :: "Env \<Rightarrow> bytes \<Rightarrow> bytes \<Rightarrow> unit step" where
  "apply_set env key val =
     (case for_size (length val) of
        None \<Rightarrow> ret ()
      | Some c \<Rightarrow>
          andthen (allocate_step env c) (\<lambda>res. case res of
            None \<Rightarrow> ret ()
          | Some b \<Rightarrow>
              andthen (resolve_step b) (\<lambda>ptr. case ptr of
                None \<Rightarrow> ret ()
              | Some p \<Rightarrow>
                  andthen (write_slot p val) (\<lambda>_.
                  andthen (on_table (sh_insert b (of_nat (length val))) (hash_key env key)) free_old))))"

definition apply_del :: "Env \<Rightarrow> bytes \<Rightarrow> unit step" where
  "apply_del env key =
     andthen (on_table sh_remove (hash_key env key)) (\<lambda>removed. free_old (map_option te_slab_block_id removed))"

definition apply_expire :: "Env \<Rightarrow> bytes \<Rightarrow> bytes \<Rightarrow> unit step" where
  "apply_expire env key val =
     (case parse_unsigned 32 val of
        None \<Rightarrow> ret ()
      | Some n \<Rightarrow> andthen (on_table (sh_update_ttl (of_nat n) 0) (hash_key env key)) (\<lambda>_. ret ()))"

section \<open>Hashes\<close>

text \<open>A length of two bytes and that many bytes after it.\<close>

definition take_prefixed :: "bytes \<Rightarrow> (bytes \<times> bytes) option" where
  "take_prefixed src =
     (if length src < 2 then None
      else (let n = from_le (take 2 src); rest = drop 2 src
            in if length rest < n then None else Some (take n rest, drop n rest)))"

fun decode_pairs :: "nat \<Rightarrow> bytes \<Rightarrow> (bytes \<times> bytes) list option" where
  "decode_pairs 0 src = Some []"
| "decode_pairs (Suc n) src =
     (case take_prefixed src of
        None \<Rightarrow> None
      | Some (f, src1) \<Rightarrow>
          (case take_prefixed src1 of
             None \<Rightarrow> None
           | Some (v, src2) \<Rightarrow> map_option (\<lambda>ps. (f, v) # ps) (decode_pairs n src2)))"

fun decode_fields :: "nat \<Rightarrow> bytes \<Rightarrow> bytes list option" where
  "decode_fields 0 src = Some []"
| "decode_fields (Suc n) src =
     (case take_prefixed src of
        None \<Rightarrow> None
      | Some (f, src1) \<Rightarrow> map_option (\<lambda>fs. f # fs) (decode_fields n src1))"

definition counted :: "(nat \<Rightarrow> bytes \<Rightarrow> 'a list option) \<Rightarrow> bytes \<Rightarrow> 'a list option" where
  "counted dec val = (if length val < 2 then None else dec (from_le (take 2 val)) (drop 2 val))"

text \<open>The pairs go into a slot one after the other; the result of each is ignored.\<close>

definition upsert_each :: "Env \<Rightarrow> u64 \<Rightarrow> nat \<Rightarrow> (bytes \<times> bytes) list \<Rightarrow> unit step" where
  "upsert_each env p n pairs =
     andthen (on_slot p n (reinsert (frame_upsert (hash_key env)) pairs)) (\<lambda>_. ret ())"

definition replay_slot :: "Env \<Rightarrow> SlabClassType \<Rightarrow> (SlabBlockId \<Rightarrow> u64 \<Rightarrow> unit step) \<Rightarrow> unit step" where
  "replay_slot env c k =
     andthen (allocate_step env c) (\<lambda>res. case res of
       None \<Rightarrow> ret ()
     | Some b \<Rightarrow>
         andthen (resolve_step b) (\<lambda>ptr. case ptr of
           None \<Rightarrow> ret ()
         | Some p \<Rightarrow>
             andthen (on_slot p (slot_bytes c) (\<lambda>slot. Some (init_frame slot))) (\<lambda>ok. case ok of
               None \<Rightarrow> deallocate_step b
             | Some _ \<Rightarrow> k b p)))"

definition replay_publish :: "u64 \<Rightarrow> SlabBlockId \<Rightarrow> SlabClassType \<Rightarrow> u32 \<Rightarrow> SlabBlockId option \<Rightarrow> unit step" where
  "replay_publish h b c ex old =
     andthen (on_table (sh_insert_typed b (of_nat (slot_bytes c)) ex VALUE_TYPE_HASH) h) (\<lambda>res. case res of
       Ok _ \<Rightarrow> free_old old
     | Err _ \<Rightarrow> deallocate_step b
     | Panic m \<Rightarrow> (\<lambda>s. Some (s, Panic m)))"

definition replay_new :: "Env \<Rightarrow> u64 \<Rightarrow> (bytes \<times> bytes) list \<Rightarrow> SlabClassType \<Rightarrow> unit step" where
  "replay_new env h pairs c =
     replay_slot env c (\<lambda>b p.
       andthen (upsert_each env p (slot_bytes c) pairs) (\<lambda>_. replay_publish h b c 0 None))"

definition replay_expand :: "Env \<Rightarrow> u64 \<Rightarrow> (bytes \<times> bytes) list \<Rightarrow> SlabClassType \<Rightarrow> TableEntry \<Rightarrow> unit step" where
  "replay_expand env h pairs c e =
     replay_slot env c (\<lambda>b p.
       andthen (copy_pairs env e p (slot_bytes c)) (\<lambda>_.
       andthen (upsert_each env p (slot_bytes c) pairs) (\<lambda>_.
         replay_publish h b c (te_expire_at_secs e) (Some (te_slab_block_id e)))))"

definition replay_existing :: "Env \<Rightarrow> u64 \<Rightarrow> (bytes \<times> bytes) list \<Rightarrow> SlabClassType \<Rightarrow> TableEntry \<Rightarrow> unit step" where
  "replay_existing env h pairs c e =
     (if te_value_type e \<noteq> VALUE_TYPE_HASH then ret ()
      else if (case for_size (unat (te_value_len e)) of Some d \<Rightarrow> slot_bytes d | None \<Rightarrow> 0) \<ge> slot_bytes c
      then andthen (resolve_step (te_slab_block_id e)) (\<lambda>ptr. case ptr of
             None \<Rightarrow> replay_expand env h pairs c e
           | Some p \<Rightarrow> upsert_each env p (unat (te_value_len e)) pairs)
      else replay_expand env h pairs c e)"

definition apply_hset :: "Env \<Rightarrow> bytes \<Rightarrow> bytes \<Rightarrow> unit step" where
  "apply_hset env key val =
     (case counted decode_pairs val of
        None \<Rightarrow> ret ()
      | Some pairs \<Rightarrow>
          andthen (hset_needed env (hash_key env key) pairs 0) (\<lambda>needed.
            case hash_slab_class needed of
              None \<Rightarrow> ret ()
            | Some c \<Rightarrow>
                andthen (on_table (sh_lookup_checked 0) (hash_key env key)) (\<lambda>found. case found of
                  Some e \<Rightarrow> replay_existing env (hash_key env key) pairs c e
                | None \<Rightarrow> replay_new env (hash_key env key) pairs c)))"

definition apply_hdel :: "Env \<Rightarrow> bytes \<Rightarrow> bytes \<Rightarrow> unit step" where
  "apply_hdel env key val =
     (case counted decode_fields val of
        None \<Rightarrow> ret ()
      | Some names \<Rightarrow>
          andthen (on_table (sh_lookup_checked 0) (hash_key env key)) (\<lambda>found. case found of
            None \<Rightarrow> ret ()
          | Some e \<Rightarrow>
              if te_value_type e \<noteq> VALUE_TYPE_HASH then ret ()
              else andthen (resolve_step (te_slab_block_id e)) (\<lambda>ptr. case ptr of
                None \<Rightarrow> ret ()
              | Some p \<Rightarrow> andthen (hdel_fields env (hash_key env key) names e p) (\<lambda>(gone, freed). free_old freed))))"

section \<open>Frames\<close>

definition apply_frame :: "Env \<Rightarrow> (AofFrame \<Rightarrow> unit step) \<Rightarrow> AofFrame \<Rightarrow> unit step" where
  "apply_frame env vectors f =
     (case af_op f of
        AofSet \<Rightarrow> apply_set env (af_key f) (af_value f)
      | AofDel \<Rightarrow> apply_del env (af_key f)
      | AofExpire \<Rightarrow> apply_expire env (af_key f) (af_value f)
      | AofHSet \<Rightarrow> apply_hset env (af_key f) (af_value f)
      | AofHDel \<Rightarrow> apply_hdel env (af_key f) (af_value f)
      | _ \<Rightarrow> vectors f)"

text \<open>\<open>replay\<close> of a file with the given bytes; the result is the number of frames applied.\<close>

definition replay :: "Env \<Rightarrow> (AofFrame \<Rightarrow> unit step) \<Rightarrow> bytes \<Rightarrow> nat step" where
  "replay env vectors data =
     (let fs = fst (replay_frames (crc32 env) data 0)
      in andthen (for_each fs (\<lambda>f u. apply_frame env vectors f) ()) (\<lambda>_. ret (length fs)))"

end
