(* ===== verification/Aof_Recovery.thy ===== *)
theory Aof_Recovery
  imports Aof_Apply Server_Effects
begin

text \<open>
  Recovery composed with the server: the frames that commands log and what start-up rebuilds from them.
  A log is read as a list of changes of the abstract store.
\<close>

section \<open>Frames as changes of the store\<close>

fun spec_frame :: "(bytes \<Rightarrow> u64) \<Rightarrow> AofFrame \<Rightarrow> store \<Rightarrow> store" where
  "spec_frame hk f st =
     (case af_op f of
        AofSet \<Rightarrow> if for_size (length (af_value f)) = None then st else st(hk (af_key f) \<mapsto> string_cell (af_value f) 0)
      | AofDel \<Rightarrow> st(hk (af_key f) := None)
      | AofExpire \<Rightarrow>
          (case parse_unsigned 32 (af_value f) of
             None \<Rightarrow> st
           | Some n \<Rightarrow> retimed (of_nat n) 0 (hk (af_key f)) st)
      | _ \<Rightarrow> st)"

definition plain_op :: "AofOp \<Rightarrow> bool" where
  "plain_op op \<longleftrightarrow> op = AofSet \<or> op = AofDel \<or> op = AofExpire"

text \<open>The pool has room for a value of \<open>n\<close> bytes.\<close>

definition has_room :: "Env \<Rightarrow> Server \<Rightarrow> nat \<Rightarrow> bool" where
  "has_room env s n \<longleftrightarrow> sound_size n \<and> (\<forall>c. alloc_ok env s c \<and> \<not> refused env s c)"

lemma apply_set_of_store:
  assumes "store_value env m (hash_key env key) val 0 s = Some (s', Ok (Some b))"
  shows "apply_set env key val s = Some (s', Ok ())"
  using assms unfolding store_value_def apply_set_def sh_insert_def
  by (auto simp: andthen_def ret_def reply_error_def reply_def split: option.splits prod.splits outcome.splits)

lemma apply_set_step:
  assumes ok: "server_ok s" "gaps (sv_table s)" and room: "has_room env s (length val)"
  obtains s' where "apply_set env key val s = Some (s', Ok ())" "server_ok s'" "same_session s s'"
    "contents s' = (if for_size (length val) = None then contents s else (contents s)(hash_key env key \<mapsto> string_cell val 0))"
proof (cases "for_size (length val)")
  case None
  then show ?thesis using that [of s] ok(1) by (simp add: apply_set_def)
next
  case (Some c)
  then have st: "storable env s (length val)" using room by (simp add: storable_def has_room_def sound_size_def)
  from ok(1) st gaps_ready(2) [OF ok(2,1)] show ?thesis
  proof (cases rule: store_value_step [where m = "[]" and ex = 0 and h = "hash_key env key"])
    case (stored s' b)
    then show ?thesis using that [of s'] apply_set_of_store Some by (simp add: string_cell_def)
  next
    case (oom s')
    then show ?thesis using room by (simp add: has_room_def)
  qed
qed

lemma apply_del_step:
  assumes ok: "server_ok s" "gaps (sv_table s)"
  obtains s' where "apply_del env key s = Some (s', Ok ())" "server_ok s'" "same_session s s'"
    "contents s' = (contents s)(hash_key env key := None)"
proof -
  let ?h = "hash_key env key" and ?m = "sharded_map (sv_table s)"
  obtain s1 where s1: "on_table sh_remove ?h s = Some (s1, Ok (?m ?h))" "server_ok s1"
      "contents s1 = (contents s)(?h := None)" "same_session s s1" "sv_core s1 = sv_core s"
      "sharded_map (sv_table s1) = ?m(?h := None)"
    using remove_step [OF ok(1) gaps_ready(1) [OF ok(2,1)]] by metis
  have heap: "heap_ok (sv_core s) ?m" using ok(1) by (simp add: server_ok_def)
  show ?thesis
  proof (cases "?m ?h")
    case None
    then show ?thesis using that [of s1] s1 by (simp add: apply_del_def free_old_def)
  next
    case (Some e)
    have "te_slab_block_id e \<in> pool_live (fst (sv_core s1))" "te_slab_block_id e \<notin> blocks (sharded_map (sv_table s1))"
      using heap_okD(3) [OF heap Some] old_block_free [OF heap Some, of None] by (simp_all add: s1(5,6))
    then obtain s2 where s2: "deallocate_step (te_slab_block_id e) s1 = Some (s2, Ok ())" "server_ok s2"
        "contents s2 = contents s1" "same_session s1 s2"
      using free_step [OF s1(2)] by metis
    then show ?thesis
      using that [of s2] s1 Some same_session_trans [OF s1(4) s2(4)] by (simp add: apply_del_def free_old_def)
  qed
qed

lemma apply_expire_step:
  assumes ok: "server_ok s" "gaps (sv_table s)"
  obtains s' where "apply_expire env key val s = Some (s', Ok ())" "server_ok s'" "same_session s s'"
    "contents s' = (case parse_unsigned 32 val of None \<Rightarrow> contents s
      | Some n \<Rightarrow> retimed (of_nat n) 0 (hash_key env key) (contents s))"
proof (cases "parse_unsigned 32 val")
  case None
  then show ?thesis using that [of s] ok(1) by (simp add: apply_expire_def)
next
  case (Some n)
  obtain s1 where "on_table (sh_update_ttl (of_nat n) 0) (hash_key env key) s =
      Some (s1, Ok (visible_cell 0 (contents s (hash_key env key)) \<noteq> None))"
      "server_ok s1" "same_session s s1" "contents s1 = retimed (of_nat n) 0 (hash_key env key) (contents s)"
    by (rule update_ttl_step [OF ok(1) gaps_ready(1) [OF ok(2,1)]])
  then show ?thesis using that [of s1] Some by (simp add: apply_expire_def)
qed

lemma apply_frame_step:
  assumes ok: "server_ok s" "gaps (sv_table s)" and f: "plain_op (af_op f)" "af_op f = AofSet \<Longrightarrow> has_room env s (length (af_value f))"
  obtains s' where "apply_frame env vec f s = Some (s', Ok ())" "server_ok s'" "same_session s s'"
    "contents s' = spec_frame (hash_key env) f (contents s)"
proof -
  consider "af_op f = AofSet" | "af_op f = AofDel" | "af_op f = AofExpire" using f(1) by (auto simp: plain_op_def)
  then show ?thesis
  proof cases
    case 1
    from apply_set_step [OF ok f(2) [OF 1], of "af_key f"] obtain s' where "apply_set env (af_key f) (af_value f) s = Some (s', Ok ())"
        "server_ok s'" "same_session s s'" "contents s' = (if for_size (length (af_value f)) = None then contents s
          else (contents s)(hash_key env (af_key f) \<mapsto> string_cell (af_value f) 0))" by blast
    then show ?thesis using that [of s'] 1 by (simp add: apply_frame_def)
  next
    case 2
    obtain s' where "apply_del env (af_key f) s = Some (s', Ok ())" "server_ok s'" "same_session s s'"
        "contents s' = (contents s)(hash_key env (af_key f) := None)" by (rule apply_del_step [OF ok])
    then show ?thesis using that [of s'] 2 by (simp add: apply_frame_def)
  next
    case 3
    obtain s' where "apply_expire env (af_key f) (af_value f) s = Some (s', Ok ())" "server_ok s'" "same_session s s'"
        "contents s' = (case parse_unsigned 32 (af_value f) of None \<Rightarrow> contents s
          | Some n \<Rightarrow> retimed (of_nat n) 0 (hash_key env (af_key f)) (contents s))" by (rule apply_expire_step [OF ok])
    then show ?thesis using that [of s'] 3 by (simp add: apply_frame_def)
  qed
qed

section \<open>Replaying a list of frames\<close>

text \<open>Every frame finds a table with an empty slot per shard and, for a value, room in the pool.\<close>

fun replay_ready :: "Env \<Rightarrow> (AofFrame \<Rightarrow> unit step) \<Rightarrow> AofFrame list \<Rightarrow> Server \<Rightarrow> bool" where
  "replay_ready env vec [] s = True"
| "replay_ready env vec (f # fs) s \<longleftrightarrow>
     gaps (sv_table s) \<and> plain_op (af_op f) \<and> (af_op f = AofSet \<longrightarrow> has_room env s (length (af_value f))) \<and>
     (\<forall>s'. apply_frame env vec f s = Some (s', Ok ()) \<longrightarrow> replay_ready env vec fs s')"

lemma replay_ready_take: "replay_ready env vec fs s \<Longrightarrow> replay_ready env vec (take k fs) s"
  by (induction fs arbitrary: k s) (auto simp: take_Cons split: nat.split)

lemma replay_list:
  assumes "server_ok s" "replay_ready env vec fs s"
  shows "\<exists>s'. for_each fs (\<lambda>f u. apply_frame env vec f) () s = Some (s', Ok ()) \<and> server_ok s' \<and>
    contents s' = fold (spec_frame (hash_key env)) fs (contents s)"
  using assms
proof (induction fs arbitrary: s)
  case (Cons f fs)
  have "gaps (sv_table s)" "plain_op (af_op f)" "af_op f = AofSet \<Longrightarrow> has_room env s (length (af_value f))"
    using Cons.prems(2) by simp_all
  from apply_frame_step [OF Cons.prems(1) this, of vec] obtain s1 where s1: "apply_frame env vec f s = Some (s1, Ok ())" "server_ok s1"
      "contents s1 = spec_frame (hash_key env) f (contents s)" by metis
  have "replay_ready env vec fs s1" using Cons.prems(2) s1(1) by simp
  from Cons.IH [OF s1(2) this] s1(1,3) show ?case by simp
qed simp

section \<open>What commands log\<close>

definition frame_bytes :: "(bytes \<Rightarrow> u32) \<Rightarrow> AofFrame \<Rightarrow> bytes" where
  "frame_bytes crc f = encode_frame crc (af_op f) (af_key f) (af_value f) (timestamp_sec f)"

definition logs :: "Env \<Rightarrow> AofFrame list \<Rightarrow> Server \<Rightarrow> Server \<Rightarrow> bool" where
  "logs env fs s s' \<longleftrightarrow> server_ok s' \<and> contents s' = fold (spec_frame (hash_key env)) fs (contents s) \<and>
     sv_aof s' = map_option (\<lambda>log. log @ map (frame_bytes (crc32 env)) fs) (sv_aof s)"

definition del_frame :: "u32 \<Rightarrow> bytes \<Rightarrow> AofFrame" where
  "del_frame now key = \<lparr>af_op = AofDel, timestamp_sec = unat now, af_key = key, af_value = []\<rparr>"

fun del_frames :: "(bytes \<Rightarrow> u64) \<Rightarrow> u32 \<Rightarrow> bytes list \<Rightarrow> store \<Rightarrow> AofFrame list" where
  "del_frames hk now [] st = []"
| "del_frames hk now (key # keys) st =
     (if hk key \<in> dom st then [del_frame now key] else []) @ del_frames hk now keys (st(hk key := None))"

definition deadline :: "int \<Rightarrow> u32 \<Rightarrow> u32" where
  "deadline seconds now = (if now > 0 then saturating_add now (of_int seconds) else of_int seconds)"

fun live_frames :: "(bytes \<Rightarrow> u64) \<Rightarrow> u32 \<Rightarrow> Command \<Rightarrow> store \<Rightarrow> AofFrame list" where
  "live_frames hk now (Set key val _) st =
     (if for_size (length val) = None then []
      else [\<lparr>af_op = AofSet, timestamp_sec = unat now, af_key = key, af_value = val\<rparr>])"
| "live_frames hk now (Del keys) st = del_frames hk now keys st"
| "live_frames hk now (Expire key seconds) st =
     (if seconds \<le> 0 then del_frames hk now [key] st
      else if visible_cell now (st (hk key)) = None then []
      else [\<lparr>af_op = AofExpire, timestamp_sec = unat now, af_key = key, af_value = write_usize [] (unat (deadline seconds now))\<rparr>])"
| "live_frames hk now _ st = []"

text \<open>The commands whose effect the log carries: SET without a TTL, DEL, EXPIRE.\<close>

fun logged :: "Command \<Rightarrow> bool" where
  "logged (Set _ _ ttl) \<longleftrightarrow> ttl = None"
| "logged (Del _) \<longleftrightarrow> True"
| "logged (Expire _ _) \<longleftrightarrow> True"
| "logged _ \<longleftrightarrow> False"

lemma remove_key_logs:
  assumes "server_ok s" "gaps (sv_table s)"
  obtains s' where "remove_key env now key s = Some (s', Ok (hash_key env key \<in> dom (contents s)))" "gaps (sv_table s')"
    "logs env (del_frames (hash_key env) now [key] (contents s)) s s'" "contents s' = (contents s)(hash_key env key := None)"
proof -
  obtain s' where s': "remove_key env now key s = Some (s', Ok (hash_key env key \<in> dom (contents s)))" "server_ok s'"
      "gaps (sv_table s')" "contents s' = (contents s)(hash_key env key := None)"
      "sv_aof s' = (if hash_key env key \<in> dom (contents s)
       then map_option (\<lambda>fs. fs @ [encode_frame (crc32 env) AofDel key [] (unat now)]) (sv_aof s) else sv_aof s)"
    by (rule remove_key_step [OF assms])
  then show ?thesis
    by (intro that [of s']) (auto simp: logs_def del_frame_def frame_bytes_def option.map_ident domIff split: if_splits)
qed

lemma logs_append: "logs env fs s s1 \<Longrightarrow> logs env gs s1 s2 \<Longrightarrow> logs env (fs @ gs) s s2"
  by (auto simp: logs_def option.map_comp comp_def)

lemma del_logs:
  assumes "server_ok s" "gaps (sv_table s)"
  shows "\<exists>s' n. for_each keys (\<lambda>key n. andthen (remove_key env now key) (\<lambda>r. ret (if r then n + 1 else n))) acc s = Some (s', Ok n) \<and>
    logs env (del_frames (hash_key env) now keys (contents s)) s s'"
  using assms
proof (induction keys arbitrary: s acc)
  case Nil
  then show ?case by (simp add: logs_def option.map_ident)
next
  case (Cons key keys)
  obtain s1 where s1: "remove_key env now key s = Some (s1, Ok (hash_key env key \<in> dom (contents s)))" "gaps (sv_table s1)"
      "logs env (del_frames (hash_key env) now [key] (contents s)) s s1" "contents s1 = (contents s)(hash_key env key := None)"
    by (rule remove_key_logs [OF Cons.prems])
  let ?acc = "if hash_key env key \<in> dom (contents s) then acc + 1 else acc"
  have "server_ok s1" using s1(3) by (simp add: logs_def)
  from Cons.IH [OF this s1(2), of ?acc] obtain s2 n where s2:
      "for_each keys (\<lambda>key n. andthen (remove_key env now key) (\<lambda>r. ret (if r then n + 1 else n))) ?acc s1 = Some (s2, Ok n)"
      "logs env (del_frames (hash_key env) now keys (contents s1)) s1 s2" by blast
  have "del_frames (hash_key env) now (key # keys) (contents s) =
      del_frames (hash_key env) now [key] (contents s) @ del_frames (hash_key env) now keys (contents s1)"
    by (simp add: s1(4))
  then have all: "logs env (del_frames (hash_key env) now (key # keys) (contents s)) s s2"
    using logs_append [OF s1(3) s2(2)] by simp
  have one: "andthen (remove_key env now key) (\<lambda>r. ret (if r then acc + 1 else acc)) s = Some (s1, Ok ?acc)"
    using s1(1) by simp
  have "for_each (key # keys) (\<lambda>key n. andthen (remove_key env now key) (\<lambda>r. ret (if r then n + 1 else n))) acc s = Some (s2, Ok n)"
    unfolding for_each.simps andthen_def [of "andthen (remove_key env now key) _"] by (simp only: one s2(1) option.case prod.case outcome.case)
  then show ?case using all by blast
qed

lemma says_logs: "logs env fs s (says f s') = logs env fs s s'"
  by (simp add: logs_def)

lemma parse_write_usize:
  assumes "n < 2 ^ w" "0 < w"
  shows "parse_unsigned w (write_usize [] n) = Some n"
proof (cases "n = 0")
  case False
  then obtain b bs where b: "rev (rev_digits n) = b # bs" "b \<noteq> 43" using rev_rev_digits_hd [of n] by auto
  then have "parse_digits (b # bs) 0 = Some n" using parse_rev_digits [of n] False by simp
  then show ?thesis using b False assms(1) by (simp add: write_usize_def parse_unsigned_def)
qed (simp add: write_usize_def parse_unsigned_def is_digit_def assms)

lemma set_logs:
  assumes ok: "server_ok s" "gaps (sv_table s)" and room: "has_room env s (length val)"
  shows "\<exists>s'. set_cmd env key val None now s = Some (s', Ok ()) \<and>
    logs env (live_frames (hash_key env) now (Set key val None) (contents s)) s s'"
proof (cases "for_size (length val)")
  case None
  then have "set_cmd env key val None now s = Some (says (err VALUE_TOO_LARGE) s, Ok ())"
    by (simp add: set_cmd_def store_value_def Let_def)
  then show ?thesis using ok(1) None by (simp add: logs_def option.map_ident)
next
  case (Some c)
  then have st: "storable env s (length val)" using room by (simp add: storable_def has_room_def sound_size_def)
  from ok(1) st gaps_ready(2) [OF ok(2,1)] show ?thesis
  proof (cases rule: store_value_step [where m = VALUE_TOO_LARGE and ex = 0 and h = "hash_key env key"])
    case (stored s1 b)
    let ?f = "\<lparr>af_op = AofSet, timestamp_sec = unat now, af_key = key, af_value = val\<rparr>"
    define s2 where "s2 = s1\<lparr>sv_aof := map_option (\<lambda>fs. fs @ [frame_bytes (crc32 env) ?f]) (sv_aof s1)\<rparr>"
    have "emit_aof env AofSet key val now s1 = Some (s2, Ok ())" by (simp add: emit_aof_def s2_def frame_bytes_def)
    then have "set_cmd env key val None now s = Some (says (SimpleString (ascii ''OK'')) s2, Ok ())"
      using stored(1) by (simp add: set_cmd_def set_expire_at_def Let_def)
    moreover have "logs env [?f] s s2"
      using stored(2-4) Some by (simp add: logs_def s2_def same_session_def string_cell_def server_ok_def contents_def)
    ultimately show ?thesis using Some by (simp add: says_logs)
  next
    case (oom s')
    then show ?thesis using room by (simp add: has_room_def)
  qed
qed

lemma expire_logs:
  assumes ok: "server_ok s" "gaps (sv_table s)"
  shows "\<exists>s'. expire_cmd env key seconds now s = Some (s', Ok ()) \<and>
    logs env (live_frames (hash_key env) now (Expire key seconds) (contents s)) s s'"
proof (cases "seconds \<le> 0")
  case True
  obtain s1 where s1: "remove_key env now key s = Some (s1, Ok (hash_key env key \<in> dom (contents s)))"
      "logs env (del_frames (hash_key env) now [key] (contents s)) s s1"
    by (rule remove_key_logs [OF ok])
  then show ?thesis using True by (auto simp: expire_cmd_def expire_now_def says_logs andthen_def)
next
  case False
  let ?h = "hash_key env key" and ?ex = "deadline seconds now"
  have run: "expire_cmd env key seconds now = expire_at env key ?ex now" using False by (simp add: expire_cmd_def deadline_def)
  show ?thesis
  proof (cases "visible_cell now (contents s ?h)")
    case None
    obtain s1 where s1: "on_table (sh_update_ttl ?ex now) ?h s = Some (s1, Ok (visible_cell now (contents s ?h) \<noteq> None))"
        "server_ok s1" "same_session s s1" "contents s1 = retimed ?ex now ?h (contents s)"
      by (rule update_ttl_step [OF ok(1) gaps_ready(1) [OF ok(2,1)]])
    then have "expire_at env key ?ex now s = Some (says (Integer 0) s1, Ok ())" using None by (simp add: expire_at_def Let_def andthen_def)
    moreover have "logs env [] s s1" using s1 None by (simp add: logs_def retimed_def same_session_def option.map_ident)
    ultimately show ?thesis using None False run by (simp add: says_logs)
  next
    case (Some c)
    obtain s1 where s1: "expire_at env key ?ex now s = Some (s1, Ok ())" "server_ok s1"
        "contents s1 = (contents s)(?h \<mapsto> c\<lparr>cell_expire := ?ex\<rparr>)"
        "sv_aof s1 = map_option (\<lambda>fs. fs @ [encode_frame (crc32 env) AofExpire key (write_usize [] (unat ?ex)) (unat now)]) (sv_aof s)"
      using expire_at_step [OF ok(1) Some, of ?ex] by blast
    have "contents s ?h = Some c" using Some by (cases "contents s ?h") (auto split: if_splits)
    moreover have "parse_unsigned 32 (write_usize [] (unat ?ex)) = Some (unat ?ex)"
      by (rule parse_write_usize) (use unsigned_less [of ?ex, where ?'a = nat] in simp_all)
    ultimately have "logs env (live_frames (hash_key env) now (Expire key seconds) (contents s)) s s1"
      using s1 Some False by (simp add: logs_def frame_bytes_def retimed_def)
    then show ?thesis using s1(1) run by auto
  qed
qed

lemma live_step:
  assumes ok: "server_ok s" "gaps (sv_table s)" and cmd: "logged cmd" "is_authed (sv_client s)"
    and room: "\<And>key val ttl. cmd = Set key val ttl \<Longrightarrow> has_room env s (length val)"
  shows "\<exists>s'. execute_command hs env now cmd s = Some (s', Ok True) \<and>
    logs env (live_frames (hash_key env) now cmd (contents s)) s s'"
proof -
  consider (set) key val where "cmd = Set key val None" | (del) keys where "cmd = Del keys" | (exp) key n where "cmd = Expire key n"
    using cmd(1) by (cases cmd) auto
  then show ?thesis
  proof cases
    case set
    then show ?thesis
      using set_logs [OF ok room, of key val None key now] cmd(2) by (auto simp: execute_command_def handle_strings_def Let_def)
  next
    case del
    from del_logs [OF ok, of keys env now "0 :: int"] obtain s' and n :: int where
        "for_each keys (\<lambda>key n. andthen (remove_key env now key) (\<lambda>r. ret (if r then n + 1 else n))) 0 s = Some (s', Ok n)"
        "logs env (del_frames (hash_key env) now keys (contents s)) s s'" by blast
    then show ?thesis using del cmd(2) by (auto simp: execute_command_def handle_strings_def del_cmd_def Let_def says_logs intro!: exI [of _ "says (Integer n) s'"])
  next
    case exp
    obtain s' where "expire_cmd env key n now s = Some (s', Ok ())"
        "logs env (live_frames (hash_key env) now (Expire key n) (contents s)) s s'"
      using expire_logs [OF ok, of env key n now] by blast
    then show ?thesis using exp cmd(2)
      by (intro exI [of _ s']) (simp add: execute_command_def handle_expiry_def Let_def del: live_frames.simps)
  qed
qed

section \<open>A run of commands\<close>

fun live_run :: "Handlers \<Rightarrow> Env \<Rightarrow> (u32 \<times> Command) list \<Rightarrow> unit step" where
  "live_run hs env [] = ret ()"
| "live_run hs env ((now, cmd) # cmds) = andthen (execute_command hs env now cmd) (\<lambda>_. live_run hs env cmds)"

text \<open>The frames of a run, computed on the abstract store.\<close>

fun log_of :: "(bytes \<Rightarrow> u64) \<Rightarrow> (u32 \<times> Command) list \<Rightarrow> store \<Rightarrow> AofFrame list" where
  "log_of hk [] st = []"
| "log_of hk ((now, cmd) # cmds) st =
     live_frames hk now cmd st @ log_of hk cmds (fold (spec_frame hk) (live_frames hk now cmd st) st)"

text \<open>
  Every command of the run is one whose effect is logged, comes from an authenticated client, finds a
  table with empty slots and room for its value, and its keys fit into a log frame.
\<close>

fun keys_fit :: "Command \<Rightarrow> bool" where
  "keys_fit (Set key val _) \<longleftrightarrow> length key < 2 ^ 16 \<and> length val < 2 ^ 32"
| "keys_fit (Del keys) \<longleftrightarrow> (\<forall>key\<in>set keys. length key < 2 ^ 16)"
| "keys_fit (Expire key _) \<longleftrightarrow> length key < 2 ^ 16"
| "keys_fit _ \<longleftrightarrow> True"

fun live_ready :: "Handlers \<Rightarrow> Env \<Rightarrow> (u32 \<times> Command) list \<Rightarrow> Server \<Rightarrow> bool" where
  "live_ready hs env [] s \<longleftrightarrow> True"
| "live_ready hs env ((now, cmd) # cmds) s \<longleftrightarrow>
     gaps (sv_table s) \<and> logged cmd \<and> keys_fit cmd \<and> is_authed (sv_client s) \<and>
     (\<forall>key val ttl. cmd = Set key val ttl \<longrightarrow> has_room env s (length val)) \<and>
     (\<forall>s'. execute_command hs env now cmd s = Some (s', Ok True) \<longrightarrow> live_ready hs env cmds s')"

definition frames_fit :: "AofFrame list \<Rightarrow> bool" where
  "frames_fit fs \<longleftrightarrow> list_all (\<lambda>f. frame_ok (af_key f) (af_value f) (timestamp_sec f)) fs"

lemma write_usize_short: "n < 2 ^ 32 \<Longrightarrow> length (write_usize [] n) < 2 ^ 32"
proof -
  have "length (rev_digits m) \<le> m" for m
  proof (induction m rule: rev_digits.induct)
    case (1 n)
    then show ?case by (cases "n = 0") (auto simp: rev_digits.simps [of n] rev_digits.simps [of 0] intro: le_trans)
  qed
  moreover assume "n < 2 ^ 32"
  ultimately show ?thesis by (simp add: write_usize_def) (metis le_less_trans)
qed

lemma live_frames_fit:
  assumes "keys_fit cmd"
  shows "frames_fit (live_frames hk now cmd st)"
proof -
  have ts: "unat x < 18446744073709551616" "unat x < 2 ^ 32" for x :: u32 using unsigned_less [of x, where ?'a = nat] by simp_all
  have del: "frames_fit (del_frames hk now keys st)" if "\<forall>key\<in>set keys. length key < 2 ^ 16" for keys
    using that by (induction keys arbitrary: st) (auto simp: frames_fit_def frame_ok_def del_frame_def ts)
  show ?thesis using assms del del [of "[_]"] write_usize_short [OF ts(2)]
    by (cases cmd) (auto simp: frames_fit_def frame_ok_def ts)
qed

lemma live_run_logs:
  assumes "server_ok s" "live_ready hs env cmds s"
  shows "\<exists>s'. live_run hs env cmds s = Some (s', Ok ()) \<and> logs env (log_of (hash_key env) cmds (contents s)) s s' \<and>
    frames_fit (log_of (hash_key env) cmds (contents s))"
  using assms
proof (induction cmds arbitrary: s)
  case Nil
  then show ?case by (intro exI [of _ s]) (simp add: logs_def frames_fit_def option.map_ident)
next
  case (Cons x cmds)
  obtain now cmd where x: "x = (now, cmd)" by (cases x)
  note R = Cons.prems(2) [unfolded x live_ready.simps]
  let ?fs = "live_frames (hash_key env) now cmd (contents s)"
  obtain s1 where s1: "execute_command hs env now cmd s = Some (s1, Ok True)" "logs env ?fs s s1"
    using live_step [OF Cons.prems(1), of cmd env hs now] R by blast
  have c1: "server_ok s1" "live_ready hs env cmds s1" "contents s1 = fold (spec_frame (hash_key env)) ?fs (contents s)"
    using s1 R by (simp_all add: logs_def)
  let ?gs = "log_of (hash_key env) cmds (contents s1)"
  from Cons.IH [OF c1(1,2)] obtain s2 where s2: "live_run hs env cmds s1 = Some (s2, Ok ())" "logs env ?gs s1 s2" "frames_fit ?gs" by blast
  have "live_run hs env (x # cmds) s = Some (s2, Ok ())" using s1(1) s2(1) by (simp add: x andthen_def)
  moreover have "log_of (hash_key env) (x # cmds) (contents s) = ?fs @ ?gs" by (simp only: x log_of.simps c1(3))
  moreover have "frames_fit (?fs @ ?gs)" using live_frames_fit R s2(3) by (simp add: frames_fit_def)
  ultimately show ?case using logs_append [OF s1(2) s2(2)] by auto
qed

section \<open>Cutting a log\<close>

lemma cut_log:
  "n \<le> length (log_bytes crc fs) \<Longrightarrow>
   \<exists>k tail. k \<le> length fs \<and> take n (log_bytes crc fs) = log_bytes crc (take k fs) @ tail \<and>
     (k = length fs \<and> tail = [] \<or> (\<exists>j. k < length fs \<and> j < length (frame_bytes crc (fs ! k)) \<and> tail = take j (frame_bytes crc (fs ! k))))"
proof (induction fs arbitrary: n)
  case Nil
  then show ?case by (simp add: log_bytes_def)
next
  case (Cons f fs)
  have lb: "log_bytes crc (f # gs) = frame_bytes crc f @ log_bytes crc gs" for gs by (simp add: log_bytes_def frame_bytes_def)
  show ?case
  proof (cases "n < length (frame_bytes crc f)")
    case True
    then show ?thesis by (intro exI [of _ 0] exI [of _ "take n (frame_bytes crc f)"]) (auto simp: lb log_bytes_def [of _ "[]"])
  next
    case False
    then have "n - length (frame_bytes crc f) \<le> length (log_bytes crc fs)" using Cons.prems by (simp add: lb)
    from Cons.IH [OF this] obtain k tail where k: "k \<le> length fs"
        "take (n - length (frame_bytes crc f)) (log_bytes crc fs) = log_bytes crc (take k fs) @ tail"
        "k = length fs \<and> tail = [] \<or> (\<exists>j. k < length fs \<and> j < length (frame_bytes crc (fs ! k)) \<and> tail = take j (frame_bytes crc (fs ! k)))"
      by blast
    then show ?thesis using False by (intro exI [of _ "Suc k"] exI [of _ tail]) (auto simp: lb)
  qed
qed

lemma log_bytes_frames: "log_bytes crc fs = concat (map (frame_bytes crc) fs)"
  by (simp add: log_bytes_def frame_bytes_def [abs_def])

lemma decode_nothing: "decode_frame crc [] = Ok None"
  by (simp add: decode_frame_def AOF_HEADER_OVERHEAD_def)

lemma replay_cut:
  assumes "frames_fit fs" "n \<le> length (log_bytes crc fs)"
  shows "\<exists>k\<le>length fs. fst (replay_frames crc (take n (log_bytes crc fs)) 0) = take k fs \<and> length (log_bytes crc (take k fs)) \<le> n \<and>
    (k < length fs \<longrightarrow> n < length (log_bytes crc (take (Suc k) fs)))"
proof -
  obtain k tail where k: "k \<le> length fs" "take n (log_bytes crc fs) = log_bytes crc (take k fs) @ tail"
      "k = length fs \<and> tail = [] \<or> (\<exists>j. k < length fs \<and> j < length (frame_bytes crc (fs ! k)) \<and> tail = take j (frame_bytes crc (fs ! k)))"
    using cut_log [OF assms(2)] by blast
  have fit: "list_all (\<lambda>f. frame_ok (af_key f) (af_value f) (timestamp_sec f)) (take k fs)"
    using assms(1) by (auto simp: frames_fit_def list_all_iff dest: in_set_takeD)
  have torn: "decode_frame crc tail = Ok None"
    using k(3) assms(1) decode_torn decode_nothing by (auto simp: frame_bytes_def frames_fit_def list_all_length)
  have len: "n = length (log_bytes crc (take k fs)) + length tail" using arg_cong [OF k(2), of length] assms(2) by simp
  have "n < length (log_bytes crc (take (Suc k) fs))" if "k < length fs"
    using that k(3) len by (auto simp: take_Suc_conv_app_nth log_bytes_def frame_bytes_def)
  then show ?thesis using k(1) replay_log [OF fit torn, of 0] len unfolding k(2) by auto
qed

section \<open>Properties\<close>

text \<open>\<^bold>\<open>C5.\<close> Crash recovery rebuilds the store. A server with an empty store and a log executes any commands
out of SET without a TTL, DEL and EXPIRE (the frame of a SET carries no TTL, so one with a TTL would come
back without it). Its log is then the frames of the commands that changed something.
If the log file is cut at any byte, a new server that replays what is left ends in a sound state
with exactly the effect of the frames that were complete, and reports their number; if nothing was
cut, it holds the same cells as the first server: keys, values, types and deadlines. This holds for
every hash and checksum function, as long as both servers find room for the values and the tables
have empty slots.\<close>

theorem crash_recovery:
  assumes live: "server_ok s" "contents s = Map.empty" "sv_aof s = Some []" "live_ready hs env cmds s"
    and new: "server_ok r" "contents r = Map.empty" "replay_ready env vec (log_of (hash_key env) cmds Map.empty) r"
  shows "\<exists>s' log. live_run hs env cmds s = Some (s', Ok ()) \<and> sv_aof s' = Some log \<and>
    log = map (frame_bytes (crc32 env)) (log_of (hash_key env) cmds Map.empty) \<and>
    (\<forall>n\<le>length (concat log). \<exists>r' k. replay env vec (take n (concat log)) r = Some (r', Ok k) \<and> k \<le> length log \<and> server_ok r' \<and>
      contents r' = fold (spec_frame (hash_key env)) (take k (log_of (hash_key env) cmds Map.empty)) Map.empty \<and>
      length (concat (take k log)) \<le> n \<and> (k < length log \<longrightarrow> n < length (concat (take (Suc k) log))) \<and>
      (n = length (concat log) \<longrightarrow> contents r' = contents s'))"
proof -
  let ?fs = "log_of (hash_key env) cmds Map.empty" and ?crc = "crc32 env"
  let ?log = "map (frame_bytes ?crc) ?fs"
  obtain s' where s': "live_run hs env cmds s = Some (s', Ok ())" "logs env ?fs s s'" "frames_fit ?fs"
    using live_run_logs [OF live(1,4)] live(2) by auto
  have lb: "log_bytes ?crc (take k ?fs) = concat (take k ?log)" for k
    by (simp add: log_bytes_frames take_map)
  have all: "log_bytes ?crc ?fs = concat ?log" by (simp add: log_bytes_frames)
  have "\<exists>r' k. replay env vec (take n (concat ?log)) r = Some (r', Ok k) \<and> k \<le> length ?log \<and> server_ok r' \<and>
      contents r' = fold (spec_frame (hash_key env)) (take k ?fs) Map.empty \<and>
      length (concat (take k ?log)) \<le> n \<and> (k < length ?log \<longrightarrow> n < length (concat (take (Suc k) ?log))) \<and>
      (n = length (concat ?log) \<longrightarrow> contents r' = contents s')"
    if n: "n \<le> length (concat ?log)" for n
  proof -
    obtain k where k: "k \<le> length ?fs" "fst (replay_frames ?crc (take n (concat ?log)) 0) = take k ?fs"
        "length (concat (take k ?log)) \<le> n" "k < length ?fs \<Longrightarrow> n < length (concat (take (Suc k) ?log))"
      using replay_cut [OF s'(3), of n ?crc] n unfolding all lb by blast
    obtain r' where r': "for_each (take k ?fs) (\<lambda>f u. apply_frame env vec f) () r = Some (r', Ok ())" "server_ok r'"
        "contents r' = fold (spec_frame (hash_key env)) (take k ?fs) Map.empty"
      using replay_list [OF new(1) replay_ready_take [OF new(3)], of k] new(2) by auto
    have "replay env vec (take n (concat ?log)) r = Some (r', Ok k)" using r'(1) k(1,2) by (simp add: replay_def Let_def)
    moreover have "contents r' = contents s'" if "n = length (concat ?log)"
    proof -
      have "\<not> k < length ?fs"
      proof
        assume "k < length ?fs"
        moreover have "length (concat (take (Suc k) ?log)) \<le> length (concat ?log)"
          by (metis append_take_drop_id concat_append length_append le_add1)
        ultimately show False using k(4) that by simp
      qed
      then show ?thesis using r'(3) s'(2) live(2) by (simp add: logs_def)
    qed
    ultimately show ?thesis using r'(2,3) k(1,3,4) by auto
  qed
  then show ?thesis using s'(1,2) live(3) by (intro exI [of _ s'] exI [of _ ?log]) (simp add: logs_def)
qed

theorem crash_recovery_witness:
  "\<exists>s' log r'. live_run example_handlers example_env [(7, Set (ascii ''k'') (ascii ''value'') None)] (fresh_server None) = Some (s', Ok ()) \<and>
     sv_aof s' = Some log \<and> length log = 1 \<and>
     replay example_env (\<lambda>_. ret ()) (concat log) (fresh_server None) = Some (r', Ok 1) \<and> contents r' = contents s'"
proof -
  let ?k = "ascii ''k''" and ?v = "ascii ''value''" and ?s = "fresh_server None"
  let ?cmds = "[(7, Set ?k ?v None)]" and ?f = "\<lparr>af_op = AofSet, timestamp_sec = 7, af_key = ascii ''k'', af_value = ascii ''value''\<rparr>"
  have room: "has_room example_env ?s (length ?v)"
    by (simp add: has_room_def fresh_alloc_ok fresh_not_refused sound_size_def geometry ascii_def)
  have auth: "is_authed (sv_client ?s)" by (simp add: fresh_server_def with_password_def is_authed_def)
  have fs: "log_of (hash_key example_env) ?cmds Map.empty = [?f]" by (simp add: for_size_def geometry ascii_def)
  have live: "live_ready example_handlers example_env ?cmds ?s"
    using room auth fresh_server_ok(2) by (simp add: ascii_def)
  have rdy: "replay_ready example_env (\<lambda>_. ret ()) [?f] ?s"
    using room fresh_server_ok(2) by (simp add: plain_op_def)
  have aof: "sv_aof ?s = Some []" by (simp add: fresh_server_def)
  note T = crash_recovery [OF fresh_server_ok(1,3) aof live fresh_server_ok(1,3), unfolded fs, OF rdy]
  obtain s' log where s': "live_run example_handlers example_env ?cmds ?s = Some (s', Ok ())" "sv_aof s' = Some log"
      "log = map (frame_bytes (crc32 example_env)) [?f]"
      and cut: "\<And>n. n \<le> length (concat log) \<Longrightarrow> \<exists>r' k. replay example_env (\<lambda>_. ret ()) (take n (concat log)) ?s = Some (r', Ok k) \<and> k \<le> length log \<and>
        (k < length log \<longrightarrow> n < length (concat (take (Suc k) log))) \<and> length (concat (take k log)) \<le> n \<and> (n = length (concat log) \<longrightarrow> contents r' = contents s')"
    using T by blast
  obtain r' k where r': "replay example_env (\<lambda>_. ret ()) (concat log) ?s = Some (r', Ok k)" "contents r' = contents s'" "k \<le> length log"
      "k < length log \<longrightarrow> length (concat log) < length (concat (take (Suc k) log))"
    using cut [of "length (concat log)"] by auto
  have "length log = 1" using s'(3) by simp
  moreover have "k = 1" using r'(3,4) \<open>length log = 1\<close> by (cases k) auto
  ultimately show ?thesis using s'(1,2) r'(1,2) by auto
qed

end
