(* ===== verification/Aof_Hashes.thy ===== *)
theory Aof_Hashes
  imports Aof_Recovery Server_Hash_Props
begin

text \<open>Replaying the frames of HSET and HDEL.\<close>

section \<open>Payloads\<close>

lemma take_prefixed_encoded:
  assumes "length f < 2 ^ 16"
  shows "take_prefixed (u16_le (length f) @ f @ rest) = Some (f, rest)"
  using assms by (simp add: take_prefixed_def)

lemma counted_encoded:
  assumes "length xs < 2 ^ 16" "dec (length xs) rest = Some xs"
  shows "counted dec (u16_le (length xs) @ rest) = Some xs"
  using assms by (simp add: counted_def)

definition short :: "bytes \<Rightarrow> bool" where
  "short f \<longleftrightarrow> length f < 2 ^ 16"

lemma decode_pairs_encoded:
  assumes "\<forall>p\<in>set ps. short (fst p) \<and> short (snd p)"
  shows "decode_pairs (length ps) (concat (map encode_pair ps) @ rest) = Some ps"
  using assms
proof (induction ps)
  case (Cons p ps)
  obtain f v where p: "p = (f, v)" by (cases p)
  have "length f < 2 ^ 16" "length v < 2 ^ 16" using Cons.prems p by (simp_all add: short_def)
  note T = take_prefixed_encoded [OF this(1)] take_prefixed_encoded [OF this(2)]
  show ?case using Cons T by (simp add: p encode_pair_def)
qed simp

lemma decode_fields_encoded:
  assumes "\<forall>f\<in>set fs. short f"
  shows "decode_fields (length fs) (concat (map (\<lambda>f. u16_le (length f) @ f) fs) @ rest) = Some fs"
  using assms
proof (induction fs)
  case (Cons f fs)
  then show ?case using take_prefixed_encoded [of f] by (simp add: short_def)
qed simp

lemma payloads_read_back:
  "length ps < 2 ^ 16 \<Longrightarrow> \<forall>p\<in>set ps. short (fst p) \<and> short (snd p) \<Longrightarrow> counted decode_pairs (aof_pairs ps) = Some ps"
  "length fs < 2 ^ 16 \<Longrightarrow> \<forall>f\<in>set fs. short f \<Longrightarrow> counted decode_fields (aof_fields fs) = Some fs"
  unfolding aof_pairs_def aof_fields_def
  using decode_pairs_encoded [of ps "[]"] decode_fields_encoded [of fs "[]"] by (auto intro!: counted_encoded)

section \<open>HDEL\<close>

lemma visible_now_0 [simp]: "visible_cell 0 x = x"
  by (cases x) simp_all

lemma apply_hdel_step:
  assumes ok: "server_ok s" "gaps (sv_table s)" and hok: "hashes_ok (hash_key env) (contents s)"
    and names: "counted decode_fields val = Some names"
  shows "\<exists>s'. apply_hdel env key val s = Some (s', Ok ()) \<and> server_ok s' \<and> hashes_ok (hash_key env) (contents s') \<and>
    (case contents s (hash_key env key) of
       None \<Rightarrow> contents s' = contents s
     | Some c \<Rightarrow> if cell_type c = VALUE_TYPE_HASH then hdel_result names (hash_key env key) c (contents s) (contents s') else contents s' = contents s)"
proof (cases "contents s (hash_key env key)")
  case None
  then have v: "visible_cell 0 (contents s (hash_key env key)) = None" by simp
  obtain s1 where s1: "on_table (sh_lookup_checked 0) (hash_key env key) s = Some (s1, Ok None)" "server_ok s1" "contents s1 = contents s"
    using miss_step [OF ok(1) gaps_ready(1) [OF ok(2,1)] v] by metis
  then have "apply_hdel env key val s = Some (s1, Ok ())" by (simp add: apply_hdel_def names)
  then show ?thesis using s1 None hok by (intro exI [of _ s1]) (simp del: contents_None)
next
  case (Some c)
  let ?h = "hash_key env key"
  have v: "visible_cell 0 (contents s ?h) = Some c" using Some by simp
  obtain s1 e p where s1: "on_table (sh_lookup_checked 0) ?h s = Some (s1, Ok (Some e))" "server_ok s1" "contents s1 = contents s"
      "gaps (sv_table s1)" "sharded_map (sv_table s1) ?h = Some e"
      "c = cell_of (sv_core s1) (sv_mem s1) e" "resolve_slot_ptr (te_slab_block_id e) (snd (sv_core s1)) = Some p"
    by (rule entry_step [OF ok v])
  have ty: "te_value_type e = cell_type c" using s1(6) by (simp add: cell_of_def)
  show ?thesis
  proof (cases "cell_type c = VALUE_TYPE_HASH")
    case False
    then have "apply_hdel env key val s = Some (s1, Ok ())" using s1(1) ty by (simp add: apply_hdel_def names)
    then show ?thesis using s1(2,3) Some False hok by (intro exI [of _ s1]) simp
  next
    case True
    obtain s2 gone where s2:
        "\<And>k :: bytes list \<Rightarrow> unit step. andthen (hdel_fields env ?h names e p) (\<lambda>(gone, freed). andthen (free_old freed) (\<lambda>_. k gone)) s1 = k gone s2"
        "server_ok s2" "hdel_result names ?h c (contents s1) (contents s2)"
        "hashes_ok (hash_key env) (contents s1) \<Longrightarrow> hashes_ok (hash_key env) (contents s2)"
      using hdel_fields_step [OF s1(2,4,5,7,6) hashes_okD [OF hok Some True], of names] by blast
    have "andthen (free_old freed) (\<lambda>_. ret ()) = free_old freed" for freed
      by (auto simp: andthen_def fun_eq_iff split: option.split prod.split outcome.split)
    then have "andthen (hdel_fields env ?h names e p) (\<lambda>(gone, freed). free_old freed) s1 = Some (s2, Ok ())"
      using s2(1) [of "\<lambda>_. ret ()"] by simp
    moreover have "resolve_step (te_slab_block_id e) s1 = Some (s1, Ok (Some p))" using s1(7) by (simp add: resolve_step_def)
    ultimately have "apply_hdel env key val s = Some (s2, Ok ())" using s1(1) True ty by (simp add: apply_hdel_def names)
    then show ?thesis using s2 Some True s1(3) hok by (intro exI [of _ s2]) simp
  qed
qed

section \<open>HSET\<close>

text \<open>
  Recovery writes the pairs one after the other and ignores the result of each write: the pairs whose
  write succeeds, in order.
\<close>

fun taken :: "(bytes \<Rightarrow> u64) \<Rightarrow> bytes \<Rightarrow> (bytes \<times> bytes) list \<Rightarrow> (bytes \<times> bytes) list" where
  "taken hk slot [] = []"
| "taken hk slot ((f, x) # pairs) =
     (case frame_upsert hk slot f x of
        Some (v, Ok _) \<Rightarrow> (f, x) # taken hk v pairs
      | Some (v, Err _) \<Rightarrow> taken hk v pairs
      | _ \<Rightarrow> [])"

lemma taken_length: "length (taken hk slot pairs) \<le> length pairs"
  by (induction hk slot pairs rule: taken.induct) (auto split: option.split prod.split outcome.split intro: le_SucI)

text \<open>A write that fails leaves the fields alone.\<close>

lemma upsert_frame:
  assumes "hash_frame_ok hk slot" "f \<noteq> []"
  obtains (ok) v b where "frame_upsert hk slot f x = Some (v, Ok b)" "hash_frame_ok hk v" "length v = length slot"
      "frame_map v = put_fields [(f, x)] (frame_map slot)"
    | (full) v e where "frame_upsert hk slot f x = Some (v, Err e)" "hash_frame_ok hk v" "length v = length slot"
      "frame_map v = frame_map slot"
proof -
  have "named [(f, x)]" using assms(2) by (simp add: named_def)
  with assms(1) show ?thesis
  proof (cases rule: upsert_all_frame)
    case (ok v)
    then show ?thesis using that(1) by (auto split: option.splits prod.splits outcome.splits)
  next
    case (stop v e qs q rs)
    then show ?thesis using that(2) by (auto simp: put_fields_def Cons_eq_append_conv split: option.splits prod.splits outcome.splits)
  qed
qed

text \<open>No pair is skipped exactly when the loop of the command would have stored them all.\<close>

lemma reinsert_frame:
  assumes "hash_frame_ok hk slot" "named pairs"
  shows "(\<exists>v. reinsert (frame_upsert hk) pairs slot = Some (v, Ok ()) \<and> hash_frame_ok hk v \<and> length v = length slot \<and>
    frame_map v = put_fields (taken hk slot pairs) (frame_map slot)) \<and>
    (taken hk slot pairs = pairs \<longleftrightarrow> (\<exists>w m. upsert_all (frame_upsert hk) pairs n slot = Some (w, Ok m)))"
  using assms
proof (induction pairs arbitrary: slot n)
  case Nil
  then show ?case by (simp add: put_fields_def)
next
  case (Cons p pairs)
  obtain f x where p: "p = (f, x)" by (cases p)
  have nm: "f \<noteq> []" "named pairs" using Cons.prems(2) by (simp_all add: named_def p)
  from Cons.prems(1) nm(1) show ?case
  proof (cases rule: upsert_frame [where x = x])
    case (ok v b)
    have "put_fields (p # qs) (frame_map slot) = put_fields qs (frame_map v)" for qs
      using put_fields_append [of "[p]" qs "frame_map slot"] ok(4) by (simp add: p)
    then show ?thesis using ok(1,3) Cons.IH [OF ok(2) nm(2)] by (simp add: p)
  next
    case (full v e)
    have "taken hk v pairs \<noteq> p # pairs" using taken_length [of hk v pairs] by auto
    then show ?thesis using full Cons.IH [OF full(2) nm(2)] by (auto simp: p)
  qed
qed

lemma upsert_each_scratch:
  assumes ok: "server_ok s" and sc: "scratch_slot s b p n" and fr: "hash_frame_ok (hash_key env) (slice_at p n (sv_mem s))"
    and names: "named pairs"
  obtains s' where "upsert_each env p n pairs s = Some (s', Ok ())" "only_mem s s'" "contents s' = contents s"
    "hash_frame_ok (hash_key env) (slice_at p n (sv_mem s'))"
    "frame_map (slice_at p n (sv_mem s')) =
       put_fields (taken (hash_key env) (slice_at p n (sv_mem s)) pairs) (frame_map (slice_at p n (sv_mem s)))"
proof -
  let ?slot = "slice_at p n (sv_mem s)" and ?hk = "hash_key env"
  obtain v where v: "reinsert (frame_upsert ?hk) pairs ?slot = Some (v, Ok ())" "hash_frame_ok ?hk v" "length v = length ?slot"
      "frame_map v = put_fields (taken ?hk ?slot pairs) (frame_map ?slot)"
    using reinsert_frame [OF fr names] by blast
  have "length v = n" using v(3) by simp
  from on_scratch [where op = "reinsert (frame_upsert ?hk) pairs", OF ok sc v(1) this] obtain s' where
      "on_slot p n (reinsert (frame_upsert ?hk) pairs) s = Some (s', Ok (Some ()))" "only_mem s s'" "contents s' = contents s"
      "slice_at p n (sv_mem s') = v" by auto
  then show ?thesis using that [of s'] v by (simp add: upsert_each_def)
qed

lemma replay_publish_step:
  assumes ok: "server_ok s" and gap: "gaps (sv_table s)" and sc: "scratch_slot s b p (slot_bytes c)" and c: "hash_class c"
  obtains s' where "replay_publish h b c ex old s = free_old old s'" "server_ok s'" "sv_core s' = sv_core s"
    "contents s' = (contents s)(h \<mapsto> hash_cell (slice_at p (slot_bytes c) (sv_mem s)) ex)"
    "sharded_map (sv_table s') = (sharded_map (sv_table s))(h \<mapsto>
       \<lparr>te_slab_block_id = b, te_value_len = of_nat (slot_bytes c), te_expire_at_secs = ex, te_value_type = VALUE_TYPE_HASH\<rparr>)"
proof -
  let ?ins = "on_table (sh_insert_typed b (of_nat (slot_bytes c)) ex VALUE_TYPE_HASH) h s"
  obtain s' where s': "publish h b c ex (ret (Inr 0)) s = ret (Inr 0) s'" "server_ok s'" "sv_core s' = sv_core s"
      "contents s' = (contents s)(h \<mapsto> hash_cell (slice_at p (slot_bytes c) (sv_mem s)) ex)"
      "sharded_map (sv_table s') = (sharded_map (sv_table s))(h \<mapsto>
         \<lparr>te_slab_block_id = b, te_value_len = of_nat (slot_bytes c), te_expire_at_secs = ex, te_value_type = VALUE_TYPE_HASH\<rparr>)"
    unfolding hash_cell_def using publish_step [OF ok gap sc c, of h ex "ret (Inr 0)"] by metis
  obtain r where "?ins = Some (s', Ok (Ok r))"
    using s'(1) by (auto simp: publish_def give_up_def on_table_def deallocate_step_def andthen_def ret_def
        split: option.splits prod.splits outcome.splits)
  then have "replay_publish h b c ex old s = free_old old s'" by (simp add: replay_publish_def)
  then show ?thesis by (rule that) (use s' in simp_all)
qed

text \<open>
  The cell after the replay, from the frame \<open>slot\<close> that the pairs are written into: the pairs taken override
  its fields, and a pair is skipped exactly when the loop of HSET would have failed there.
\<close>

definition hset_replayed ::
    "(bytes \<Rightarrow> u64) \<Rightarrow> u64 \<Rightarrow> (bytes \<times> bytes) list \<Rightarrow> bytes \<Rightarrow> u32 \<Rightarrow> store \<Rightarrow> store \<Rightarrow> bool" where
  "hset_replayed hk h pairs slot ex st st' \<longleftrightarrow>
     (\<exists>v. st' = st(h \<mapsto> hash_cell v ex) \<and> hash_cell_ok hk (hash_cell v ex) \<and>
        frame_map v = put_fields (taken hk slot pairs) (frame_map slot)) \<and>
     (taken hk slot pairs \<noteq> pairs \<longleftrightarrow> (\<exists>w e. upsert_all (frame_upsert hk) pairs 0 slot = Some (w, Err e)))"

lemma hset_replayedI:
  assumes "hash_frame_ok hk slot" "named pairs" "st' = st(h \<mapsto> hash_cell v ex)" "hash_frame_ok hk v" "hash_class d"
    "length v = slot_bytes d" "frame_map v = put_fields (taken hk slot pairs) (frame_map slot)"
  shows "hset_replayed hk h pairs slot ex st st'"
proof -
  have "(\<exists>w m. upsert_all (frame_upsert hk) pairs 0 slot = Some (w, Ok m)) \<longleftrightarrow>
      \<not> (\<exists>w e. upsert_all (frame_upsert hk) pairs 0 slot = Some (w, Err e))"
    using assms(1,2) by (cases rule: upsert_all_frame) auto
  then show ?thesis
    unfolding hset_replayed_def using reinsert_frame [OF assms(1,2), of 0] assms(3-7) by (auto simp: hash_cell_ok_def hash_cell_def)
qed

lemma hset_replayed_hashes: "hset_replayed hk h pairs slot ex st st' \<Longrightarrow> hashes_ok hk st \<Longrightarrow> hashes_ok hk st'"
  by (auto simp: hset_replayed_def intro: hashes_ok_upd)

text \<open>A frame just initialised in a slot of the class, and one that the fields \<open>m\<close> have been copied into.\<close>

definition fresh_frame :: "(bytes \<Rightarrow> u64) \<Rightarrow> SlabClassType \<Rightarrow> bytes \<Rightarrow> bool" where
  "fresh_frame hk c slot \<longleftrightarrow> frame_at hk slot 0 (default_k_for_capacity (slot_bytes c)) 8 0 \<and> length slot = slot_bytes c \<and>
     frame_clean slot (default_k_for_capacity (slot_bytes c)) 0 \<and> frame_map slot = Map.empty"

definition moved_frame :: "(bytes \<Rightarrow> u64) \<Rightarrow> SlabClassType \<Rightarrow> (bytes \<rightharpoonup> bytes) \<Rightarrow> bytes \<Rightarrow> bool" where
  "moved_frame hk c m slot \<longleftrightarrow> hash_frame_ok hk slot \<and> length slot = slot_bytes c \<and> frame_map slot = m"

lemma replay_new_step:
  assumes ok: "server_ok s" "gaps (sv_table s)" and al: "alloc_ok env s c" and c: "hash_class c" and names: "named pairs"
  obtains s' where "replay_new env h pairs c s = Some (s', Ok ())" "server_ok s'"
    "refused env s c \<and> contents s' = contents s \<or>
     (\<exists>slot. fresh_frame (hash_key env) c slot \<and> hset_replayed (hash_key env) h pairs slot 0 (contents s) (contents s'))"
  using ok(1) al c
proof (cases rule: init_slot_step [where hk = "hash_key env"])
  case (oom s1)
  then show ?thesis using that [of s1] by (simp add: replay_new_def replay_slot_def)
next
  case (made s1 s2 b p)
  let ?n = "slot_bytes c" and ?hk = "hash_key env"
  let ?slot = "slice_at p ?n (sv_mem s2)"
  obtain s3 where s3: "upsert_each env p ?n pairs s2 = Some (s3, Ok ())" "only_mem s2 s3" "contents s3 = contents s2"
      "hash_frame_ok ?hk (slice_at p ?n (sv_mem s3))"
      "frame_map (slice_at p ?n (sv_mem s3)) = put_fields (taken ?hk ?slot pairs) (frame_map ?slot)"
    by (rule upsert_each_scratch [OF made(4,8) hash_frame_okI [OF made(9)] names])
  note O = only_memD [OF s3(2)]
  have S: "server_ok s3" "gaps (sv_table s3)" "scratch_slot s3 b p ?n" using O made ok(2) by simp_all
  obtain s4 where s4: "replay_publish h b c 0 None s3 = free_old None s4" "server_ok s4"
      "contents s4 = (contents s3)(h \<mapsto> hash_cell (slice_at p ?n (sv_mem s3)) 0)"
    by (rule replay_publish_step [OF S c])
  have "hset_replayed ?hk h pairs ?slot 0 (contents s) (contents s4)"
    by (rule hset_replayedI [OF hash_frame_okI [OF made(9)] names _ s3(4) c]) (use s4(3) s3(3,5) made(5) in simp_all)
  moreover have "fresh_frame ?hk c ?slot" using made(9-11) by (simp add: fresh_frame_def)
  moreover have "replay_new env h pairs c s = Some (s4, Ok ())"
    using made(1-3) s3(1) s4(1) by (simp add: replay_new_def replay_slot_def free_old_def)
  ultimately show ?thesis using that s4(2) by blast
qed

lemma replay_expand_step:
  assumes ok: "server_ok s" "gaps (sv_table s)" and e: "sharded_map (sv_table s) h = Some e" "contents s h = Some c0"
      "hash_cell_ok (hash_key env) c0"
    and al: "alloc_ok env s c" and c: "hash_class c" "length (cell_value c0) \<le> slot_bytes c" and names: "named pairs"
  obtains s' where "replay_expand env h pairs c e s = Some (s', Ok ())" "server_ok s'"
    "refused env s c \<and> contents s' = contents s \<or>
     (\<exists>slot. moved_frame (hash_key env) c (frame_map (cell_value c0)) slot \<and>
        hset_replayed (hash_key env) h pairs slot (cell_expire c0) (contents s) (contents s'))"
  using ok(1) al c(1)
proof (cases rule: init_slot_step [where hk = "hash_key env"])
  case (oom s1)
  then show ?thesis using that [of s1] by (simp add: replay_expand_def replay_slot_def)
next
  case (made s1 s2 b p)
  let ?n = "slot_bytes c" and ?hk = "hash_key env" and ?ex = "te_expire_at_secs e"
  have ex: "cell_expire c0 = ?ex" using e(1,2) by (auto simp: contents_def cells_def cell_of_def)
  have e2: "sharded_map (sv_table s2) h = Some e" "contents s2 h = Some c0" using made(5,7) e by simp_all
  obtain s3 where s3: "copy_pairs env e p ?n s2 = Some (s3, Ok ())" "only_mem s2 s3" "contents s3 = contents s2"
      "hash_frame_ok ?hk (slice_at p ?n (sv_mem s3))" "frame_map (slice_at p ?n (sv_mem s3)) = frame_map (cell_value c0)"
    by (rule copy_pairs_step [OF made(4) e2 e(3) c made(8,9,11,10)])
  note O3 = only_memD [OF s3(2)]
  have S3: "server_ok s3" "scratch_slot s3 b p ?n" using O3 made by simp_all
  let ?slot = "slice_at p ?n (sv_mem s3)"
  obtain s4 where s4: "upsert_each env p ?n pairs s3 = Some (s4, Ok ())" "only_mem s3 s4" "contents s4 = contents s3"
      "hash_frame_ok ?hk (slice_at p ?n (sv_mem s4))"
      "frame_map (slice_at p ?n (sv_mem s4)) = put_fields (taken ?hk ?slot pairs) (frame_map ?slot)"
    by (rule upsert_each_scratch [OF S3 s3(4) names])
  note O4 = only_memD [OF s4(2)]
  have S4: "server_ok s4" "gaps (sv_table s4)" "scratch_slot s4 b p ?n" "sharded_map (sv_table s4) h = Some e"
    using O4 O3 S3 made(7) ok(2) e2(1) by simp_all
  obtain s5 where s5: "replay_publish h b c ?ex (Some (te_slab_block_id e)) s4 = free_old (Some (te_slab_block_id e)) s5" "server_ok s5"
      "sv_core s5 = sv_core s4" "contents s5 = (contents s4)(h \<mapsto> hash_cell (slice_at p ?n (sv_mem s4)) ?ex)"
      "sharded_map (sv_table s5) = (sharded_map (sv_table s4))(h \<mapsto>
         \<lparr>te_slab_block_id = b, te_value_len = of_nat ?n, te_expire_at_secs = ?ex, te_value_type = VALUE_TYPE_HASH\<rparr>)"
    by (rule replay_publish_step [OF S4(1-3) c(1)])
  have heap: "heap_ok (sv_core s5) (sharded_map (sv_table s4))" using S4(1) s5(3) by (simp add: server_ok_def)
  obtain s6 where s6: "free_old (map_option te_slab_block_id (sharded_map (sv_table s4) h)) s5 = Some (s6, Ok ())" "server_ok s6"
      "contents s6 = contents s5"
    by (rule free_old_step [OF s5(2) heap s5(5)]) (use S4(3) in \<open>auto simp: scratch_slot_def\<close>)
  have "hset_replayed ?hk h pairs ?slot (cell_expire c0) (contents s) (contents s6)"
    by (rule hset_replayedI [OF s3(4) names _ s4(4) c(1)]) (use s6(3) s5(4) s4(3,5) s3(3) made(5) ex in simp_all)
  moreover have "moved_frame ?hk c (frame_map (cell_value c0)) ?slot" using s3(4,5) by (simp add: moved_frame_def)
  moreover have "replay_expand env h pairs c e s = Some (s6, Ok ())"
    using made(1-3) s3(1) s4(1) s5(1) s6(1) S4(4) by (simp add: replay_expand_def replay_slot_def)
  ultimately show ?thesis using that s6(2) by blast
qed

text \<open>A hash takes the pairs in its slot when the slot is of the class or larger, and moves otherwise.\<close>

definition hash_replayed :: "Env \<Rightarrow> Server \<Rightarrow> u64 \<Rightarrow> (bytes \<times> bytes) list \<Rightarrow> SlabClassType \<Rightarrow> Cell \<Rightarrow> store \<Rightarrow> bool" where
  "hash_replayed env s h pairs c c0 st' \<longleftrightarrow>
     (if slot_bytes c \<le> length (cell_value c0)
      then hset_replayed (hash_key env) h pairs (cell_value c0) (cell_expire c0) (contents s) st'
      else refused env s c \<and> st' = contents s \<or>
        (\<exists>slot. moved_frame (hash_key env) c (frame_map (cell_value c0)) slot \<and>
           hset_replayed (hash_key env) h pairs slot (cell_expire c0) (contents s) st'))"

lemma replay_existing_step:
  assumes ok: "server_ok s" "gaps (sv_table s)" and e: "sharded_map (sv_table s) h = Some e" "contents s h = Some c0"
    and hok: "cell_type c0 = VALUE_TYPE_HASH \<Longrightarrow> hash_cell_ok (hash_key env) c0"
    and al: "alloc_ok env s c" and c: "hash_class c"
    and names: "named pairs"
  obtains s' where "replay_existing env h pairs c e s = Some (s', Ok ())" "server_ok s'"
    "if cell_type c0 \<noteq> VALUE_TYPE_HASH then contents s' = contents s
     else hash_replayed env s h pairs c c0 (contents s')"
proof -
  let ?hk = "hash_key env" and ?slot = "cell_value c0"
  have c0: "c0 = cell_of (sv_core s) (sv_mem s) e" using e by (simp add: contents_def cells_def)
  have ty: "te_value_type e = cell_type c0" using c0 by (simp add: cell_of_def)
  show ?thesis
  proof (cases "cell_type c0 = VALUE_TYPE_HASH")
    case False
    then show ?thesis using that [of s] ok(1) ty by (simp add: replay_existing_def)
  next
    case True
    obtain d where d: "hash_class d" "length ?slot = slot_bytes d" and fok: "hash_frame_ok ?hk ?slot"
      using hok [OF True] by (auto simp: hash_cell_ok_def)
    have heap: "heap_ok (sv_core s) (sharded_map (sv_table s))" using ok(1) by (simp add: server_ok_def)
    obtain p where p: "resolve_slot_ptr (te_slab_block_id e) (snd (sv_core s)) = Some p" by (rule heap_ok_resolves [OF heap e(1)])
    have len: "unat (te_value_len e) = length ?slot" using c0 p by (simp add: cell_of_def)
    have cls: "(case for_size (unat (te_value_len e)) of Some d \<Rightarrow> slot_bytes d | None \<Rightarrow> 0) = length ?slot"
      using d unfolding len by (auto simp: hash_class_def for_size_def geometry)
    show ?thesis
    proof (cases "slot_bytes c \<le> length ?slot")
      case small: True
      obtain v where v: "reinsert (frame_upsert ?hk) pairs ?slot = Some (v, Ok ())" "hash_frame_ok ?hk v" "length v = length ?slot"
          "frame_map v = put_fields (taken ?hk ?slot pairs) (frame_map ?slot)"
        using reinsert_frame [OF fok names] by blast
      have "reinsert (frame_upsert ?hk) pairs (cell_value (cell_of (sv_core s) (sv_mem s) e)) = Some (v, Ok ())" using v(1) c0 by simp
      from on_entry [where op = "reinsert (frame_upsert ?hk) pairs", OF ok(1) e(1) p this] v(3) len obtain s1 where s1:
          "on_slot p (unat (te_value_len e)) (reinsert (frame_upsert ?hk) pairs) s = Some (s1, Ok (Some ()))" "only_mem s s1"
          "contents s1 = (contents s)(h \<mapsto> c0\<lparr>cell_value := v\<rparr>)" using c0 by auto
      have "replay_existing env h pairs c e s = Some (s1, Ok ())"
        using True ty cls small p s1(1) by (simp add: replay_existing_def upsert_each_def resolve_step_def andthen_def)
      moreover have "hset_replayed ?hk h pairs ?slot (cell_expire c0) (contents s) (contents s1)"
        by (rule hset_replayedI [OF fok names _ v(2) d(1)]) (use s1(3) v(3,4) d(2) cell_update [OF True] in simp_all)
      ultimately show ?thesis using that [of s1] only_memD(5) [OF s1(2)] ok(1) True small by (simp add: hash_replayed_def)
    next
      case False
      obtain s1 where "replay_expand env h pairs c e s = Some (s1, Ok ())" "server_ok s1"
          "refused env s c \<and> contents s1 = contents s \<or>
           (\<exists>slot. moved_frame ?hk c (frame_map ?slot) slot \<and> hset_replayed ?hk h pairs slot (cell_expire c0) (contents s) (contents s1))"
        by (rule replay_expand_step [OF ok e hok [OF True] al c _ names]) (use False in auto)
      moreover have "replay_existing env h pairs c e s = replay_expand env h pairs c e s"
        using True ty cls False by (simp add: replay_existing_def)
      ultimately show ?thesis using that [of s1] True False by (simp add: hash_replayed_def)
    qed
  qed
qed

section \<open>Properties\<close>

definition pairs_fit :: "(bytes \<times> bytes) list \<Rightarrow> bool" where
  "pairs_fit pairs \<longleftrightarrow> length pairs < 2 ^ 16 \<and> (\<forall>p\<in>set pairs. short (fst p) \<and> short (snd p)) \<and> named pairs"

text \<open>\<^bold>\<open>C19.\<close> Replaying the frame of an HSET. It returns, keeps the state sound and changes at most the cell of
the key. Nothing changes when the key has another type, no class holds the pairs, or a slot is needed
and the pool refuses it. Otherwise the pairs are written one by one, into a fresh frame of the class
for a new key, into the hash's own slot when that is large enough, and else into a frame of the class
that its fields were copied to; the fields are then overridden by exactly the pairs whose write
succeeded there, in order, the expiry is kept, and some pair is skipped, without a sign, exactly when
the loop of HSET itself would have stopped with an error in that frame.\<close>

theorem hset_frame_replay:
  assumes ok: "server_ok s" "gaps (sv_table s)" and hok: "hashes_ok (hash_key env) (contents s)" and al: "\<And>c. alloc_ok env s c"
    and pairs: "pairs_fit pairs"
  shows "\<exists>s'. apply_hset env key (aof_pairs pairs) s = Some (s', Ok ()) \<and> server_ok s' \<and> hashes_ok (hash_key env) (contents s') \<and>
    (case contents s (hash_key env key) of
       None \<Rightarrow>
         (case hash_slab_class (needed_bytes None pairs) of
            None \<Rightarrow> contents s' = contents s
          | Some c \<Rightarrow> refused env s c \<and> contents s' = contents s \<or>
              (\<exists>slot. fresh_frame (hash_key env) c slot \<and>
                 hset_replayed (hash_key env) (hash_key env key) pairs slot 0 (contents s) (contents s')))
     | Some c0 \<Rightarrow>
         if cell_type c0 \<noteq> VALUE_TYPE_HASH then contents s' = contents s
         else (case hash_slab_class (needed_bytes (Some (cell_value c0)) pairs) of
                 None \<Rightarrow> contents s' = contents s
               | Some c \<Rightarrow> hash_replayed env s (hash_key env key) pairs c c0 (contents s')))"
proof -
  let ?h = "hash_key env key" and ?hk = "hash_key env"
  have dec: "counted decode_pairs (aof_pairs pairs) = Some pairs" and names: "named pairs"
    using pairs payloads_read_back(1) by (auto simp: pairs_fit_def)
  let ?needed = "needed_bytes (hash_slot (contents s ?h)) pairs"
  obtain s1 where s1: "hset_needed env ?h pairs 0 s = Some (s1, Ok ?needed)" "server_ok s1" "gaps (sv_table s1)"
      "contents s1 = contents s" "sv_core s1 = sv_core s" "sv_calls s1 = sv_calls s"
    using hset_needed_step [OF ok, of env ?h pairs 0] by (metis visible_now_0)
  have al1: "alloc_ok env s1 c" "refused env s1 c = refused env s c" for c
    using al alloc_ok_cong [OF s1(5,6)] s1(5,6) by (simp_all add: refused_def)
  show ?thesis
  proof (cases "hash_slab_class ?needed")
    case None
    then have "apply_hset env key (aof_pairs pairs) s = Some (s1, Ok ())" using s1(1) by (simp add: apply_hset_def dec)
    then show ?thesis using s1(2,4) hok None
      by (cases "contents s ?h") (auto simp: hash_slot_def simp del: contents_None)
  next
    case (Some c)
    have c: "hash_class c" by (rule hash_slab_class [OF Some])
    show ?thesis
    proof (cases "contents s ?h")
      case absent: None
      then have v: "visible_cell 0 (contents s1 ?h) = None" by (simp add: s1(4))
      obtain s2 where s2: "on_table (sh_lookup_checked 0) ?h s1 = Some (s2, Ok None)" "server_ok s2" "contents s2 = contents s1"
          "sv_core s2 = sv_core s1" "sv_calls s2 = sv_calls s1" "gaps (sv_table s2)"
        using miss_step [OF s1(2) gaps_ready(1) [OF s1(3,2)] v] s1(3) by metis
      have al2: "alloc_ok env s2 c" "refused env s2 c = refused env s c"
        using al1 alloc_ok_cong [OF s2(4,5)] s2(4,5) by (simp_all add: refused_def)
      obtain s3 where s3: "replay_new env ?h pairs c s2 = Some (s3, Ok ())" "server_ok s3"
          "refused env s2 c \<and> contents s3 = contents s2 \<or>
           (\<exists>slot. fresh_frame ?hk c slot \<and> hset_replayed ?hk ?h pairs slot 0 (contents s2) (contents s3))"
        by (rule replay_new_step [OF s2(2,6) al2(1) c names])
      have "apply_hset env key (aof_pairs pairs) s = Some (s3, Ok ())"
        using s1(1) Some s2(1) s3(1) by (simp add: apply_hset_def dec)
      moreover have "hashes_ok ?hk (contents s3)" using s3(3) hset_replayed_hashes hok s2(3) s1(4) by metis
      ultimately show ?thesis using s3(2,3) absent Some s2(3) s1(4) al2(2)
        by (intro exI [of _ s3]) (simp add: hash_slot_def del: contents_None)
    next
      case present: (Some c0)
      then have v: "visible_cell 0 (contents s1 ?h) = Some c0" by (simp add: s1(4))
      obtain s2 e where s2: "on_table (sh_lookup_checked 0) ?h s1 = Some (s2, Ok (Some e))" "server_ok s2" "contents s2 = contents s1"
          "sv_core s2 = sv_core s1" "sv_calls s2 = sv_calls s1" "gaps (sv_table s2)" "sharded_map (sv_table s2) ?h = Some e"
        by (rule entry_step [OF s1(2,3) v])
      have al2: "alloc_ok env s2 c" "refused env s2 c = refused env s c"
        using al1 alloc_ok_cong [OF s2(4,5)] s2(4,5) by (simp_all add: refused_def)
      have c02: "contents s2 ?h = Some c0" and st: "contents s2 = contents s" using present s1(4) s2(3) by simp_all
      have hc: "hash_cell_ok ?hk c0" if "cell_type c0 = VALUE_TYPE_HASH" using hashes_okD [OF hok present that] .
      obtain s3 where s3: "replay_existing env ?h pairs c e s2 = Some (s3, Ok ())" "server_ok s3"
          "if cell_type c0 \<noteq> VALUE_TYPE_HASH then contents s3 = contents s2 else hash_replayed env s2 ?h pairs c c0 (contents s3)"
        by (rule replay_existing_step [OF s2(2,6,7) c02 hc al2(1) c names])
      have R: "if cell_type c0 \<noteq> VALUE_TYPE_HASH then contents s3 = contents s else hash_replayed env s ?h pairs c c0 (contents s3)"
        using s3(3) unfolding hash_replayed_def al2(2) st .
      have "apply_hset env key (aof_pairs pairs) s = Some (s3, Ok ())"
        using s1(1) Some s2(1) s3(1) by (simp add: apply_hset_def dec)
      moreover have "hashes_ok ?hk (contents s3)"
        using R hok hset_replayed_hashes by (auto simp: hash_replayed_def split: if_splits)
      ultimately show ?thesis using s3(2) R present Some by (intro exI [of _ s3]) (auto simp: hash_slot_def)
    qed
  qed
qed

theorem hset_frame_replay_witness:
  "\<exists>s' v. apply_hset example_env (ascii ''k'') (aof_pairs [(ascii ''f'', ascii ''1'')]) (fresh_server None) = Some (s', Ok ()) \<and>
     contents s' = [1 \<mapsto> hash_cell v 0] \<and> frame_map v = [ascii ''f'' \<mapsto> ascii ''1'']"
proof -
  let ?ps = "[(ascii ''f'', ascii ''1'')]" and ?s = "fresh_server None"
  have fit: "pairs_fit ?ps" by (simp add: pairs_fit_def short_def named_def ascii_def)
  have c: "hash_slab_class (needed_bytes None ?ps) = Some AppSmall"
    by (simp add: needed_bytes_def hash_slab_class_def HEADER_SIZE_def BUCKET_SIZE_def ascii_def eval_nat_numeral)
  have ff: "\<not> fresh_full (hash_key example_env) AppSmall ?ps" by (rule fresh_not_full) (simp_all add: ascii_def)
  have h: "hash_key example_env (ascii ''k'') = 1" by (simp add: example_env_def ascii_def)
  have "hashes_ok (hash_key example_env) (contents ?s)" by (simp add: hashes_ok_def fresh_server_ok(3))
  from hset_frame_replay [OF fresh_server_ok(1,2) this fresh_alloc_ok fit, of "ascii ''k''"] obtain s' slot where
      s': "apply_hset example_env (ascii ''k'') (aof_pairs ?ps) ?s = Some (s', Ok ())"
      "fresh_frame (hash_key example_env) AppSmall slot" "hset_replayed (hash_key example_env) 1 ?ps slot 0 Map.empty (contents s')"
    using fresh_not_refused by (auto simp: fresh_server_ok(3) c h)
  have "taken (hash_key example_env) slot ?ps = ?ps" "frame_map slot = Map.empty"
    using s'(2,3) ff unfolding hset_replayed_def fresh_full_def fresh_frame_def by blast+
  then show ?thesis using s'(1,3) by (auto simp: hset_replayed_def put_fields_def)
qed

text \<open>The frame of an HDEL does to a hash what the command did: it removes the named fields and, with the
last field, the key.\<close>

theorem hdel_frame_replay:
  assumes "server_ok s" "gaps (sv_table s)" "hashes_ok (hash_key env) (contents s)"
    and "length names < 2 ^ 16" "\<forall>f\<in>set names. short f"
  shows "\<exists>s'. apply_hdel env key (aof_fields names) s = Some (s', Ok ()) \<and> server_ok s' \<and> hashes_ok (hash_key env) (contents s') \<and>
    (case contents s (hash_key env key) of
       None \<Rightarrow> contents s' = contents s
     | Some c \<Rightarrow> if cell_type c = VALUE_TYPE_HASH then hdel_result names (hash_key env key) c (contents s) (contents s') else contents s' = contents s)"
  by (rule apply_hdel_step [OF assms(1-3) payloads_read_back(2) [OF assms(4,5)]])

end
