(* ===== verification/Snapshot_Cipher.thy ===== *)
theory Snapshot_Cipher
  imports Resp_Text Wire_Bytes
begin

text \<open>
  Encryption of snapshots (\<open>crates/kachedb-server/src/crypto.rs\<close>): cipher suites, keys, and the chunk
  ciphers with their nonces. Key derivation (HKDF) and the authenticated ciphers of the \<open>ring\<close> library
  are arguments (\<open>Crypto\<close>); the texts inside errors are left out.
\<close>

section \<open>Text\<close>

text \<open>\<open>str::trim\<close> on UTF-8: the encodings of the Unicode white space characters.\<close>

definition white_space :: "bytes list" where
  "white_space =
     map (\<lambda>b. [b]) [9, 10, 11, 12, 13, 32] @ [[0xC2, 0x85], [0xC2, 0xA0], [0xE1, 0x9A, 0x80]] @
     map (\<lambda>b. [0xE2, 0x80, b]) [0x80, 0x81, 0x82, 0x83, 0x84, 0x85, 0x86, 0x87, 0x88, 0x89, 0x8A, 0xA8, 0xA9, 0xAF] @
     [[0xE2, 0x81, 0x9F], [0xE3, 0x80, 0x80]]"

definition starts_with :: "bytes \<Rightarrow> bytes \<Rightarrow> bool" where
  "starts_with p src \<longleftrightarrow> take (length p) src = p"

definition leading :: "bytes list \<Rightarrow> bytes \<Rightarrow> nat" where
  "leading ps src = (case find (\<lambda>p. starts_with p src) ps of Some p \<Rightarrow> length p | None \<Rightarrow> 0)"

function strip :: "bytes list \<Rightarrow> bytes \<Rightarrow> bytes" where
  "strip ps src = (if leading ps src = 0 \<or> src = [] then src else strip ps (drop (leading ps src) src))"
  by pat_completeness auto
termination by (relation "measure (length \<circ> snd)") auto

declare strip.simps [simp del]

definition trim :: "bytes \<Rightarrow> bytes" where
  "trim src = rev (strip (map rev white_space) (rev (strip white_space src)))"

text \<open>\<open>String::from_utf8_lossy\<close>: the length of the first character, or of the bytes that one
replacement character stands for.\<close>

definition is_cont :: "u8 \<Rightarrow> bool" where
  "is_cont b \<longleftrightarrow> 0x80 \<le> b \<and> b \<le> 0xBF"

definition second_ok :: "u8 \<Rightarrow> u8 \<Rightarrow> bool" where
  "second_ok a b \<longleftrightarrow>
     (if a < 0xE0 then is_cont b
      else if a = 0xE0 then 0xA0 \<le> b \<and> b \<le> 0xBF
      else if a = 0xED then 0x80 \<le> b \<and> b \<le> 0x9F
      else if a = 0xF0 then 0x90 \<le> b \<and> b \<le> 0xBF
      else if a = 0xF4 then 0x80 \<le> b \<and> b \<le> 0x8F
      else is_cont b)"

definition utf8_width :: "u8 \<Rightarrow> nat" where
  "utf8_width a =
     (if a < 0x80 then 1 else if 0xC2 \<le> a \<and> a \<le> 0xDF then 2 else if 0xE0 \<le> a \<and> a \<le> 0xEF then 3
      else if 0xF0 \<le> a \<and> a \<le> 0xF4 then 4 else 0)"

definition utf8_first :: "u8 \<Rightarrow> bytes \<Rightarrow> nat \<times> bool" where
  "utf8_first a rest =
     (let w = utf8_width a
      in if w = 0 then (1, False)
         else if w = 1 then (1, True)
         else (case rest of
                 [] \<Rightarrow> (1, False)
               | b # bs \<Rightarrow>
                   if \<not> second_ok a b then (1, False)
                   else (let n = length (takeWhile is_cont (take (w - 2) bs))
                         in if n = w - 2 then (w, True) else (2 + n, False))))"

function from_utf8_lossy :: "bytes \<Rightarrow> bytes" where
  "from_utf8_lossy [] = []"
| "from_utf8_lossy (a # rest) =
     (case utf8_first a rest of (n, valid) \<Rightarrow>
        (if valid then take n (a # rest) else [0xEF, 0xBF, 0xBD]) @ from_utf8_lossy (drop (n - 1) rest))"
  by pat_completeness auto
termination by (relation "measure length") auto

section \<open>Cipher suites and keys\<close>

datatype CryptoError = CryptoIo | UnsupportedCipher | AuthenticationFailed | KeyDerivationFailed | RngFailed | InvalidKeyFormat

datatype CipherSuite = Aes256Gcm | ChaCha20Poly1305

definition ENCRYPTION_CHUNK_SIZE :: nat where
  "ENCRYPTION_CHUNK_SIZE = 64 * 1024"

definition TAG_LEN :: nat where
  "TAG_LEN = 16"

definition NONCE_LEN :: nat where
  "NONCE_LEN = 12"

definition SALT_LEN :: nat where
  "SALT_LEN = 32"

text \<open>No non-ASCII letter has a lower-case form that occurs in these names.\<close>

definition from_str_name :: "bytes \<Rightarrow> (CipherSuite, CryptoError) outcome" where
  "from_str_name s =
     (let name = map to_ascii_lowercase (trim s)
      in if name \<in> set (map ascii [''aes-256-gcm'', ''aes-gcm'', ''aes256'', ''aes'']) then Ok Aes256Gcm
         else if name \<in> set (map ascii [''chacha20-poly1305'', ''chacha20'', ''chacha'']) then Ok ChaCha20Poly1305
         else Err UnsupportedCipher)"

fun cipher_as_str :: "CipherSuite \<Rightarrow> bytes" where
  "cipher_as_str Aes256Gcm = ascii ''aes-256-gcm''"
| "cipher_as_str ChaCha20Poly1305 = ascii ''chacha20-poly1305''"

definition from_flag_code :: "u32 \<Rightarrow> (CipherSuite, CryptoError) outcome" where
  "from_flag_code code =
     (if code = 0 then Ok Aes256Gcm else if code = 1 then Ok ChaCha20Poly1305 else Err UnsupportedCipher)"

fun flag_code :: "CipherSuite \<Rightarrow> u32" where
  "flag_code Aes256Gcm = 0"
| "flag_code ChaCha20Poly1305 = 1"

text \<open>
  \<open>hkdf\<close>: salt and secret to 32 bytes of key; \<open>seal_in_place\<close> and \<open>open_in_place\<close>: suite, key, nonce,
  additional data and input.
\<close>

record Crypto =
  hkdf :: "bytes \<Rightarrow> bytes \<Rightarrow> bytes option"
  seal_in_place :: "CipherSuite \<Rightarrow> bytes \<Rightarrow> bytes \<Rightarrow> bytes \<Rightarrow> bytes \<Rightarrow> bytes option"
  open_in_place :: "CipherSuite \<Rightarrow> bytes \<Rightarrow> bytes \<Rightarrow> bytes \<Rightarrow> bytes \<Rightarrow> bytes option"

definition is_ascii_hexdigit :: "u8 \<Rightarrow> bool" where
  "is_ascii_hexdigit b \<longleftrightarrow> 48 \<le> b \<and> b \<le> 57 \<or> 65 \<le> b \<and> b \<le> 70 \<or> 97 \<le> b \<and> b \<le> 102"

definition hex_value :: "u8 \<Rightarrow> u8" where
  "hex_value b = (if b \<le> 57 then b - 48 else if b \<le> 70 then b - 55 else b - 87)"

fun from_hex :: "bytes \<Rightarrow> bytes" where
  "from_hex (a # b # bs) = (16 * hex_value a + hex_value b) # from_hex bs"
| "from_hex _ = []"

definition derive_key :: "Crypto \<Rightarrow> bytes \<Rightarrow> bytes \<Rightarrow> (bytes, CryptoError) outcome" where
  "derive_key cr key_input salt =
     (let trimmed = trim key_input
      in if length trimmed = 64 \<and> list_all is_ascii_hexdigit trimmed then Ok (from_hex trimmed)
         else (case hkdf cr salt trimmed of None \<Rightarrow> Err KeyDerivationFailed | Some okm \<Rightarrow> Ok okm))"

text \<open>The contents of the key file are the argument; \<open>None\<close> when it cannot be read.\<close>

definition load_key_from_file :: "Crypto \<Rightarrow> bytes option \<Rightarrow> bytes \<Rightarrow> (bytes, CryptoError) outcome" where
  "load_key_from_file cr file salt =
     (case file of
        None \<Rightarrow> Err CryptoIo
      | Some buf \<Rightarrow> if length buf = 32 then Ok buf else derive_key cr (from_utf8_lossy buf) salt)"

section \<open>Chunks\<close>

definition derive_chunk_nonce :: "bytes \<Rightarrow> u32 \<Rightarrow> bytes" where
  "derive_chunk_nonce master_nonce chunk_idx =
     (let base_counter = of_nat (from_le (drop 8 master_nonce)) :: u32
      in take 8 master_nonce @ u32_le (unat (base_counter XOR chunk_idx)))"

record ChunkCipher =
  ck_cipher :: CipherSuite
  ck_key :: bytes
  master_nonce :: bytes
  chunk_index :: u32

definition ChunkCipher_new :: "CipherSuite \<Rightarrow> bytes \<Rightarrow> bytes \<Rightarrow> (ChunkCipher, CryptoError) outcome" where
  "ChunkCipher_new cipher key nonce =
     (if length key \<noteq> 32 then Err AuthenticationFailed
      else Ok \<lparr>ck_cipher = cipher, ck_key = key, master_nonce = nonce, chunk_index = 0\<rparr>)"

text \<open>The additional data of a chunk is its index.\<close>

definition encrypt_chunk :: "Crypto \<Rightarrow> ChunkCipher \<Rightarrow> bytes \<Rightarrow> (ChunkCipher \<times> bytes, CryptoError) outcome" where
  "encrypt_chunk cr e plaintext =
     (case seal_in_place cr (ck_cipher e) (ck_key e) (derive_chunk_nonce (master_nonce e) (chunk_index e))
             (u32_le (unat (chunk_index e))) plaintext of
        None \<Rightarrow> Err AuthenticationFailed
      | Some c \<Rightarrow> Ok (e\<lparr>chunk_index := chunk_index e + 1\<rparr>, c))"

definition decrypt_chunk :: "Crypto \<Rightarrow> ChunkCipher \<Rightarrow> bytes \<Rightarrow> (ChunkCipher \<times> bytes, CryptoError) outcome" where
  "decrypt_chunk cr d ciphertext_with_tag =
     (if length ciphertext_with_tag < TAG_LEN then Err AuthenticationFailed
      else (case open_in_place cr (ck_cipher d) (ck_key d) (derive_chunk_nonce (master_nonce d) (chunk_index d))
                   (u32_le (unat (chunk_index d))) ciphertext_with_tag of
              None \<Rightarrow> Err AuthenticationFailed
            | Some p \<Rightarrow> Ok (d\<lparr>chunk_index := chunk_index d + 1\<rparr>, p)))"

section \<open>Facts\<close>

text \<open>What \<open>ring\<close> documents of its ciphers: opening what was sealed under the same key, nonce and
additional data gives the plaintext, and sealing appends a tag of 16 bytes.\<close>

definition aead_ok :: "Crypto \<Rightarrow> bool" where
  "aead_ok cr \<longleftrightarrow> (\<forall>suite key nonce aad plain c. seal_in_place cr suite key nonce aad plain = Some c \<longrightarrow>
     open_in_place cr suite key nonce aad c = Some plain \<and> length c = length plain + TAG_LEN)"

lemma from_le_words [simp]:
  "from_le (u32_le (unat (x :: u32))) = unat x" "from_le (u64_le (unat (y :: u64))) = unat y"
  using unsigned_less [of x, where ?'a = nat] unsigned_less [of y, where ?'a = nat] by (simp_all add: from_le_bytes)

lemma flag_code_roundtrip: "from_flag_code (drop_bit 1 (1 OR push_bit 1 (flag_code c)) AND 7) = Ok c"
  by (cases c) (simp_all add: from_flag_code_def)

lemma cipher_name_roundtrip: "from_str_name (cipher_as_str c) = Ok c"
  by (cases c; simp only:; code_simp)

lemma chunk_nonces_distinct:
  assumes "length m = NONCE_LEN"
  shows "derive_chunk_nonce m i = derive_chunk_nonce m j \<longleftrightarrow> i = j"
proof
  let ?b = "of_nat (from_le (drop 8 m)) :: u32"
  assume "derive_chunk_nonce m i = derive_chunk_nonce m j"
  then have "u32_le (unat (?b XOR i)) = u32_le (unat (?b XOR j))" by (simp add: derive_chunk_nonce_def Let_def)
  then have "unat (?b XOR i) = unat (?b XOR j)" using from_le_words(1) by metis
  then have "?b XOR i = ?b XOR j" by (simp only: word_unat_eq_iff)
  then have "?b XOR (?b XOR i) = ?b XOR (?b XOR j)" by (simp only:)
  then show "i = j" by (simp add: xor.assoc [symmetric])
qed simp

lemma chunk_roundtrip:
  assumes "aead_ok cr" "encrypt_chunk cr e plain = Ok (e', c)"
  shows "decrypt_chunk cr e c = Ok (e', plain)" "length c = length plain + TAG_LEN"
  using assms by (auto simp: aead_ok_def encrypt_chunk_def decrypt_chunk_def split: option.splits)

end
