(* ===== verification/Vector_Index.thy ===== *)
theory Vector_Index
  imports Snapshot_Cipher Wire_Bytes "HOL-Library.Multiset"
begin

text \<open>
  The flat vector index and the registry of indexes (\<open>crates/kachedb-vector/src/index.rs\<close>): entries with
  tombstones, the map from keys to entries, exhaustive search, and snapshots. A float is its bit pattern; comparing floats
  is modelled, the arithmetic kernels (normalisation, dot product) are arguments. HNSW graphs are
  values of an argument type.
\<close>

section \<open>Floats\<close>

type_synonym f32 = u32

definition is_nan :: "f32 \<Rightarrow> bool" where
  "is_nan b \<longleftrightarrow> b AND 0x7FFFFFFF > 0x7F800000"

text \<open>The order of the values that are numbers; both zeroes are equal.\<close>

definition f32_rank :: "f32 \<Rightarrow> int" where
  "f32_rank b = (let m = uint (b AND 0x7FFFFFFF) in if bit b 31 then - m else m)"

definition f32_ge :: "f32 \<Rightarrow> f32 \<Rightarrow> bool" where
  "f32_ge a b \<longleftrightarrow> \<not> is_nan a \<and> \<not> is_nan b \<and> f32_rank a \<ge> f32_rank b"

definition F32_ONE :: f32 where "F32_ONE = 0x3F800000"

definition F32_MINUS_ONE :: f32 where "F32_MINUS_ONE = 0xBF800000"

text \<open>\<open>f32::from_ne_bytes\<close> on consecutive groups of four bytes, on a little-endian machine.\<close>

fun read_floats :: "nat \<Rightarrow> bytes \<Rightarrow> u32 list" where
  "read_floats 0 src = []"
| "read_floats (Suc n) src = of_nat (from_le (take 4 src)) # read_floats n (drop 4 src)"

record Kernel =
  l2_normalize :: "f32 list \<Rightarrow> f32 list"
  cosine_similarity_normalized :: "f32 list \<Rightarrow> f32 list \<Rightarrow> f32"

section \<open>Data\<close>

record VectorEntry =
  ve_key :: bytes
  ve_vector :: "f32 list"
  ve_payload :: "bytes option"
  ve_expire_at_secs :: u32
  ve_tag_mask :: u64
  ve_parent_key :: "bytes option"

record VectorSearchResult =
  sr_key :: bytes
  similarity :: f32
  sr_payload :: "bytes option"
  sr_parent_key :: "bytes option"

record VectorIndexStats =
  vs_name :: bytes
  vs_dimension :: nat
  total_vectors :: nat
  active_vectors :: nat
  memory_bytes :: nat

datatype VectorError = DimensionMismatch nat nat | InvalidVectorBytes nat nat nat | IndexNotFound bytes
  | InvalidThreshold f32 | InvalidTopK nat | EmptyKey

record VectorIndex =
  vx_name :: bytes
  dimension :: "nat option"
  vx_entries :: "VectorEntry option list"
  key_map :: "bytes \<rightharpoonup> nat"

definition VectorIndex_new :: "bytes \<Rightarrow> VectorIndex" where
  "VectorIndex_new name = \<lparr>vx_name = name, dimension = None, vx_entries = [], key_map = Map.empty\<rparr>"

definition with_dimension :: "bytes \<Rightarrow> nat \<Rightarrow> VectorIndex" where
  "with_dimension name dim = \<lparr>vx_name = name, dimension = Some dim, vx_entries = [], key_map = Map.empty\<rparr>"

section \<open>Insertion and deletion\<close>

definition vector_expire_at :: "u32 option \<Rightarrow> u32 \<Rightarrow> u32" where
  "vector_expire_at ttl_sec now_sec =
     (case ttl_sec of Some s \<Rightarrow> if now_sec > 0 then now_sec + s else s | None \<Rightarrow> 0)"

text \<open>The first free slot, or a new one at the end.\<close>

fun free_slot :: "'a option list \<Rightarrow> nat" where
  "free_slot [] = 0"
| "free_slot (None # xs) = 0"
| "free_slot (Some _ # xs) = Suc (free_slot xs)"

definition put_entry :: "VectorEntry \<Rightarrow> VectorIndex \<Rightarrow> VectorIndex \<times> (unit, VectorError) outcome" where
  "put_entry new_entry ix =
     (case key_map ix (ve_key new_entry) of
        Some idx \<Rightarrow>
          if idx < length (vx_entries ix) then (ix\<lparr>vx_entries := (vx_entries ix)[idx := Some new_entry]\<rparr>, Ok ())
          else (ix, Panic ''index out of bounds'')
      | None \<Rightarrow>
          (let idx = free_slot (vx_entries ix);
               es = (if idx < length (vx_entries ix) then (vx_entries ix)[idx := Some new_entry] else vx_entries ix @ [Some new_entry])
           in (ix\<lparr>vx_entries := es, key_map := (key_map ix)(ve_key new_entry \<mapsto> idx)\<rparr>, Ok ())))"

definition vector_insert ::
    "Kernel \<Rightarrow> bytes \<Rightarrow> f32 list \<Rightarrow> bytes option \<Rightarrow> u32 option \<Rightarrow> u32 \<Rightarrow> u64 \<Rightarrow> bytes option \<Rightarrow> VectorIndex \<Rightarrow>
     VectorIndex \<times> (unit, VectorError) outcome" where
  "vector_insert kn key vec payload ttl_sec now_sec tag_mask parent_key ix =
     (if key = [] then (ix, Err EmptyKey)
      else if length vec = 0 then (ix, Err (DimensionMismatch 1 0))
      else if (case dimension ix of Some expected \<Rightarrow> expected \<noteq> length vec | None \<Rightarrow> False)
      then (ix, Err (DimensionMismatch (the (dimension ix)) (length vec)))
      else put_entry
             \<lparr>ve_key = key, ve_vector = l2_normalize kn vec, ve_payload = payload,
              ve_expire_at_secs = vector_expire_at ttl_sec now_sec, ve_tag_mask = tag_mask, ve_parent_key = parent_key\<rparr>
             (ix\<lparr>dimension := Some (length vec)\<rparr>))"

definition vector_delete :: "bytes \<Rightarrow> VectorIndex \<Rightarrow> VectorIndex \<times> bool" where
  "vector_delete key ix =
     (case key_map ix key of
        None \<Rightarrow> (ix, False)
      | Some idx \<Rightarrow>
          (let ix1 = ix\<lparr>key_map := (key_map ix)(key := None)\<rparr>
           in if idx < length (vx_entries ix) then (ix1\<lparr>vx_entries := (vx_entries ix)[idx := None]\<rparr>, True) else (ix1, False)))"

section \<open>Search\<close>

definition flatten :: "'a option list \<Rightarrow> 'a list" where
  "flatten xs = map the (filter (\<lambda>x. x \<noteq> None) xs)"

definition entry_expired :: "VectorEntry \<Rightarrow> u32 \<Rightarrow> bool" where
  "entry_expired e now_sec \<longleftrightarrow> ve_expire_at_secs e > 0 \<and> now_sec > 0 \<and> now_sec \<ge> ve_expire_at_secs e"

definition tags_match :: "u64 \<Rightarrow> VectorEntry \<Rightarrow> bool" where
  "tags_match filter_mask e \<longleftrightarrow> filter_mask = 0 \<or> ve_tag_mask e AND filter_mask = filter_mask"

definition result_of :: "Kernel \<Rightarrow> f32 list \<Rightarrow> VectorEntry \<Rightarrow> VectorSearchResult" where
  "result_of kn query e =
     \<lparr>sr_key = ve_key e, similarity = cosine_similarity_normalized kn query (ve_vector e),
      sr_payload = ve_payload e, sr_parent_key = ve_parent_key e\<rparr>"

text \<open>
  A similarity that passes the threshold is a number, so the comparison of the sort is total there and
  the stable sort is the sort by descending value.
\<close>

definition vector_search ::
    "Kernel \<Rightarrow> f32 list \<Rightarrow> nat \<Rightarrow> f32 \<Rightarrow> u32 \<Rightarrow> u64 \<Rightarrow> VectorIndex \<Rightarrow> (VectorSearchResult list, VectorError) outcome" where
  "vector_search kn query_vector top_k threshold now_sec filter_mask ix =
     (if top_k = 0 then Err (InvalidTopK top_k)
      else if \<not> (f32_ge threshold F32_MINUS_ONE \<and> f32_ge F32_ONE threshold) then Err (InvalidThreshold threshold)
      else (case dimension ix of
              None \<Rightarrow> Ok []
            | Some expected \<Rightarrow>
                if expected \<noteq> length query_vector then Err (DimensionMismatch expected (length query_vector))
                else (let norm_query = l2_normalize kn query_vector;
                          live = filter (\<lambda>e. \<not> entry_expired e now_sec \<and> tags_match filter_mask e) (flatten (vx_entries ix));
                          scored = filter (\<lambda>r. f32_ge (similarity r) threshold) (map (result_of kn norm_query) live)
                      in Ok (take top_k (sort_key (\<lambda>r. - f32_rank (similarity r)) scored)))))"

definition is_active :: "u32 \<Rightarrow> VectorEntry \<Rightarrow> bool" where
  "is_active now_sec e \<longleftrightarrow> ve_expire_at_secs e = 0 \<or> now_sec = 0 \<or> now_sec < ve_expire_at_secs e"

definition opt_len :: "bytes option \<Rightarrow> nat" where
  "opt_len x = (case x of Some p \<Rightarrow> length p | None \<Rightarrow> 0)"

definition vector_stats :: "u32 \<Rightarrow> VectorIndex \<Rightarrow> VectorIndexStats" where
  "vector_stats now_sec ix =
     (let act = filter (is_active now_sec) (flatten (vx_entries ix))
      in \<lparr>vs_name = vx_name ix, vs_dimension = (case dimension ix of Some d \<Rightarrow> d | None \<Rightarrow> 0),
          total_vectors = length (vx_entries ix), active_vectors = length act,
          memory_bytes = sum_list (map (\<lambda>e. length (ve_key e) + length (ve_vector e) * 4 + opt_len (ve_payload e) +
            opt_len (ve_parent_key e) + 64) act)\<rparr>)"

section \<open>Snapshots\<close>

definition snapshot_entries :: "u32 \<Rightarrow> VectorIndex \<Rightarrow> nat option \<times> VectorEntry list" where
  "snapshot_entries now_sec ix = (dimension ix, filter (is_active now_sec) (flatten (vx_entries ix)))"

definition restore_entry :: "VectorEntry \<Rightarrow> VectorIndex \<Rightarrow> VectorIndex" where
  "restore_entry entry ix0 =
     (let ix = (if dimension ix0 = None then ix0\<lparr>dimension := Some (length (ve_vector entry))\<rparr> else ix0);
          append = ix\<lparr>vx_entries := vx_entries ix @ [Some entry], key_map := (key_map ix)(ve_key entry \<mapsto> length (vx_entries ix))\<rparr>
      in case key_map ix (ve_key entry) of
           Some idx \<Rightarrow> if idx < length (vx_entries ix) then ix\<lparr>vx_entries := (vx_entries ix)[idx := Some entry]\<rparr> else append
         | None \<Rightarrow> append)"

section \<open>The registry\<close>

record 'h VectorIndexRegistry =
  indexes :: "bytes \<rightharpoonup> VectorIndex"
  hnsw_indexes :: "bytes \<rightharpoonup> 'h"

definition Registry_new :: "'h VectorIndexRegistry" where
  "Registry_new = \<lparr>indexes = Map.empty, hnsw_indexes = Map.empty\<rparr>"

definition get_or_create :: "bytes \<Rightarrow> 'h VectorIndexRegistry \<Rightarrow> 'h VectorIndexRegistry \<times> VectorIndex" where
  "get_or_create name reg =
     (case indexes reg name of
        Some ix \<Rightarrow> (reg, ix)
      | None \<Rightarrow>
          (let ix = VectorIndex_new (from_utf8_lossy name) in (reg\<lparr>indexes := (indexes reg)(name \<mapsto> ix)\<rparr>, ix)))"

definition delete_index :: "bytes \<Rightarrow> 'h VectorIndexRegistry \<Rightarrow> 'h VectorIndexRegistry \<times> bool" where
  "delete_index name reg = (reg\<lparr>indexes := (indexes reg)(name := None)\<rparr>, indexes reg name \<noteq> None)"

definition create_hnsw :: "bytes \<Rightarrow> 'h \<Rightarrow> 'h VectorIndexRegistry \<Rightarrow> 'h VectorIndexRegistry" where
  "create_hnsw name h reg = reg\<lparr>hnsw_indexes := (hnsw_indexes reg)(name \<mapsto> h)\<rparr>"

definition drop_hnsw :: "bytes \<Rightarrow> 'h VectorIndexRegistry \<Rightarrow> 'h VectorIndexRegistry \<times> bool" where
  "drop_hnsw name reg = (reg\<lparr>hnsw_indexes := (hnsw_indexes reg)(name := None)\<rparr>, hnsw_indexes reg name \<noteq> None)"

text \<open>The order in which the hash map yields the names is an argument.\<close>

definition snapshot_all :: "bytes list \<Rightarrow> u32 \<Rightarrow> 'h VectorIndexRegistry \<Rightarrow> (bytes \<times> nat option \<times> VectorEntry list) list" where
  "snapshot_all order now_sec reg =
     map (\<lambda>name. (name, snapshot_entries now_sec (the (indexes reg name)))) order"

definition restore_snapshot :: "bytes \<times> nat option \<times> VectorEntry list \<Rightarrow> 'h VectorIndexRegistry \<Rightarrow> 'h VectorIndexRegistry" where
  "restore_snapshot =
     (\<lambda>(name, dim, es) reg.
        (case get_or_create name reg of (reg1, ix) \<Rightarrow>
           (let ix1 = (if dim \<noteq> None \<and> dimension ix = None then ix\<lparr>dimension := dim\<rparr> else ix)
            in reg1\<lparr>indexes := (indexes reg1)(name \<mapsto> fold restore_entry es ix1)\<rparr>)))"

end
