(* ===== verification/Snapshot_File.thy ===== *)
theory Snapshot_File
  imports Aof_Apply Vector_Index
begin

text \<open>
  Snapshots (\<open>crates/kachedb-server/src/snapshot.rs\<close>): the file that \<open>save_snapshot\<close> writes and what
  \<open>load_snapshot\<close> does with the bytes of a file. The machine is little-endian; the vector registry is an argument, by the
  snapshot it yields and by what restoring an index does. Opening, writing, syncing and renaming files is I/O.
\<close>

section \<open>Data\<close>

definition KDB_SNAPSHOT_MAGIC_V2 :: bytes where
  "KDB_SNAPSHOT_MAGIC_V2 = ascii ''KDB'' @ [2]"

definition KDB_SNAPSHOT_MAGIC_V3 :: bytes where
  "KDB_SNAPSHOT_MAGIC_V3 = ascii ''KDB'' @ [3]"

definition KDB_SNAPSHOT_MAGIC_V4 :: bytes where
  "KDB_SNAPSHOT_MAGIC_V4 = ascii ''KDB'' @ [4]"

definition FLAG_ENCRYPTED :: u32 where
  "FLAG_ENCRYPTED = 1"

datatype SnapshotError = CorruptMagic | SnapshotChecksumMismatch u32 u32 | UnexpectedEof | UnsupportedVersion
  | CryptoFailure CryptoError | EncryptionKeyRequired

record SnapshotEncryptionConfig =
  sec_enabled :: bool
  sec_cipher :: CipherSuite
  sec_key :: "bytes option"
  sec_key_file :: "bytes option"

text \<open>\<open>read_file\<close> gives the contents of the file at a path, if it can be read.\<close>

definition resolve_key ::
    "Crypto \<Rightarrow> (bytes \<Rightarrow> bytes option) \<Rightarrow> SnapshotEncryptionConfig \<Rightarrow> bytes \<Rightarrow> (bytes, CryptoError) outcome" where
  "resolve_key cr read_file cfg salt =
     (case sec_key_file cfg of
        Some path \<Rightarrow> load_key_from_file cr (read_file path) salt
      | None \<Rightarrow> (case sec_key cfg of Some k \<Rightarrow> derive_key cr k salt | None \<Rightarrow> Err KeyDerivationFailed))"

record SnapshotStats =
  st_timestamp_sec :: nat
  st_vector_indexes :: nat
  st_total_vectors :: nat
  st_total_kv_entries :: nat
  st_bytes_written :: nat

text \<open>Name, dimension and entries of one index.\<close>

type_synonym index_snapshot = "bytes \<times> nat option \<times> VectorEntry list"

section \<open>The payload writer\<close>

text \<open>The last two components are the file and the count of its bytes; the checksum covers the file.\<close>

datatype PayloadWriter = Plain bytes bytes nat | Encrypted ChunkCipher bytes bytes nat

definition put_chunk :: "bytes \<Rightarrow> bytes \<Rightarrow> bytes" where
  "put_chunk encrypted file = file @ u32_le (length encrypted) @ encrypted"

function encrypt_full ::
    "Crypto \<Rightarrow> ChunkCipher \<Rightarrow> bytes \<Rightarrow> bytes \<Rightarrow> nat \<Rightarrow> (PayloadWriter, SnapshotError) outcome" where
  "encrypt_full cr e buf file tot =
     (if length buf < ENCRYPTION_CHUNK_SIZE then Ok (Encrypted e buf file tot)
      else (case encrypt_chunk cr e (take ENCRYPTION_CHUNK_SIZE buf) of
              Ok (e', c) \<Rightarrow>
                encrypt_full cr e' (drop ENCRYPTION_CHUNK_SIZE buf) (put_chunk c file) (tot + 4 + length c)
            | Err x \<Rightarrow> Err (CryptoFailure x)
            | Panic m \<Rightarrow> Panic m))"
  by pat_completeness auto
termination by (relation "measure (\<lambda>(cr, e, buf, file, tot). length buf)") (auto simp: ENCRYPTION_CHUNK_SIZE_def)

declare encrypt_full.simps [simp del]

fun write_bytes :: "Crypto \<Rightarrow> bytes \<Rightarrow> PayloadWriter \<Rightarrow> (PayloadWriter, SnapshotError) outcome" where
  "write_bytes cr data (Plain buf file tot) =
     (let buf1 = buf @ data
      in if length buf1 \<ge> 128 * 1024 then Ok (Plain [] (file @ buf1) (tot + length buf1))
         else Ok (Plain buf1 file tot))"
| "write_bytes cr data (Encrypted e buf file tot) = encrypt_full cr e (buf @ data) file tot"

text \<open>\<open>finish\<close> yields the file and the count.\<close>

fun finish :: "Crypto \<Rightarrow> PayloadWriter \<Rightarrow> (bytes \<times> nat, SnapshotError) outcome" where
  "finish cr (Plain buf file tot) = Ok (file @ buf, tot + length buf)"
| "finish cr (Encrypted e buf file tot) =
     (if buf = [] then Ok (file @ u32_le 0, tot + 4)
      else (case encrypt_chunk cr e buf of
              Ok (e', c) \<Rightarrow> Ok (put_chunk c file @ u32_le 0, tot + 4 + length c + 4)
            | Err x \<Rightarrow> Err (CryptoFailure x)
            | Panic m \<Rightarrow> Panic m))"

fun write_pieces :: "Crypto \<Rightarrow> bytes list \<Rightarrow> PayloadWriter \<Rightarrow> (PayloadWriter, SnapshotError) outcome" where
  "write_pieces cr [] w = Ok w"
| "write_pieces cr (p # ps) w = and_then (write_bytes cr p w) (write_pieces cr ps)"

section \<open>Saving\<close>

text \<open>The byte strings handed to the payload writer, in order.\<close>

fun opt_piece :: "nat \<Rightarrow> bytes option \<Rightarrow> bytes list" where
  "opt_piece w None = [[0]]"
| "opt_piece w (Some p) = [[1], le_bytes w (length p), p]"

definition entry_pieces :: "VectorEntry \<Rightarrow> bytes list" where
  "entry_pieces e =
     [u16_le (length (ve_key e)), ve_key e, u32_le (length (ve_vector e))] @
     map (\<lambda>f. u32_le (unat f)) (ve_vector e) @
     opt_piece 4 (ve_payload e) @
     [u32_le (unat (ve_expire_at_secs e)), u64_le (unat (ve_tag_mask e))] @
     opt_piece 2 (ve_parent_key e)"

fun index_pieces :: "index_snapshot \<Rightarrow> bytes list" where
  "index_pieces (name, dim_opt, es) =
     [u16_le (length name), name, u32_le (case dim_opt of Some d \<Rightarrow> d | None \<Rightarrow> 0), u32_le (length es)] @
     concat (map entry_pieces es)"

type_synonym kv_item = "u64 \<times> u8 \<times> bytes \<times> u32"

definition kv_item_of :: "u32 \<Rightarrow> Server \<Rightarrow> u64 \<times> TableEntry \<Rightarrow> kv_item list" where
  "kv_item_of now_sec s =
     (\<lambda>(key_hash, entry).
        if te_expire_at_secs entry > 0 \<and> now_sec > 0 \<and> now_sec \<ge> te_expire_at_secs entry then []
        else (case resolve_slot_ptr (te_slab_block_id entry) (snd (sv_core s)) of
                None \<Rightarrow> []
              | Some ptr \<Rightarrow>
                  (let val_slice = slice_at ptr (unat (te_value_len entry)) (sv_mem s)
                   in [(key_hash, te_value_type entry,
                        if te_value_type entry = VALUE_TYPE_HASH then encode_pairs val_slice else val_slice,
                        te_expire_at_secs entry)])))"

definition kv_items :: "u32 \<Rightarrow> Server \<Rightarrow> kv_item list" where
  "kv_items now_sec s =
     concat (map (kv_item_of now_sec s) (concat (map (snapshot_shard (sv_table s)) [0..<length (sv_table s)])))"

definition kv_pieces :: "kv_item \<Rightarrow> bytes list" where
  "kv_pieces =
     (\<lambda>(key_hash, val_type, val_bytes, expire_at).
        [u64_le (unat key_hash), [val_type], u32_le (length val_bytes), val_bytes, u32_le (unat expire_at)])"

definition payload_pieces :: "index_snapshot list \<Rightarrow> kv_item list \<Rightarrow> bytes list" where
  "payload_pieces vixs items =
     [u32_le (length vixs)] @ concat (map index_pieces vixs) @
     [u32_le (length items)] @ concat (map kv_pieces items)"

text \<open>
  The random salt and nonce of an encrypted snapshot are arguments (\<open>None\<close>: the generator failed); the
  result is the header, the writer and the byte count.
\<close>

definition start_writer ::
    "Crypto \<Rightarrow> (bytes \<Rightarrow> bytes option) \<Rightarrow> SnapshotEncryptionConfig option \<Rightarrow> (bytes \<times> bytes) option \<Rightarrow> nat \<Rightarrow>
     (PayloadWriter, SnapshotError) outcome" where
  "start_writer cr read_file encryption rng ts =
     (let head = (\<lambda>flags. KDB_SNAPSHOT_MAGIC_V4 @ u64_le ts @ u32_le (unat (flags :: u32)))
      in case encryption of
           None \<Rightarrow> Ok (Plain [] (head 0) 16)
         | Some enc \<Rightarrow>
             if \<not> sec_enabled enc then Ok (Plain [] (head 0) 16)
             else (case rng of
                     None \<Rightarrow> Err (CryptoFailure RngFailed)
                   | Some (salt, nonce) \<Rightarrow>
                       (case and_then (resolve_key cr read_file enc salt) (\<lambda>key. ChunkCipher_new (sec_cipher enc) key nonce) of
                          Ok e \<Rightarrow>
                            Ok (Encrypted e [] (head (FLAG_ENCRYPTED OR push_bit 1 (flag_code (sec_cipher enc))) @ salt @ nonce)
                                  (16 + SALT_LEN + NONCE_LEN))
                        | Err x \<Rightarrow> Err (CryptoFailure x)
                        | Panic m \<Rightarrow> Panic m)))"

text \<open>\<open>vixs\<close> is what the vector registry hands out at \<open>now_sec\<close>; the result is the file and the statistics.\<close>

definition save_snapshot ::
    "Crypto \<Rightarrow> (bytes \<Rightarrow> bytes option) \<Rightarrow> Env \<Rightarrow> SnapshotEncryptionConfig option \<Rightarrow> (bytes \<times> bytes) option \<Rightarrow> nat \<Rightarrow>
     index_snapshot list \<Rightarrow> u32 \<Rightarrow> Server \<Rightarrow> (bytes \<times> SnapshotStats, SnapshotError) outcome" where
  "save_snapshot cr read_file env encryption rng ts vixs now_sec s =
     and_then (start_writer cr read_file encryption rng ts) (\<lambda>w0.
     and_then (write_pieces cr (payload_pieces vixs (kv_items now_sec s)) w0) (\<lambda>w1.
     and_then (finish cr w1) (\<lambda>(file, tot).
       Ok (file @ u32_le (unat (crc32 env file)),
           \<lparr>st_timestamp_sec = ts, st_vector_indexes = length vixs,
            st_total_vectors = sum_list (map (\<lambda>(_, _, es). length es) vixs),
            st_total_kv_entries = length (kv_items now_sec s), st_bytes_written = tot + 4\<rparr>))))"

section \<open>Reading the payload\<close>

text \<open>Readers take the rest of the payload and return what they read with the rest after it.\<close>

type_synonym 'a reader = "bytes \<Rightarrow> ('a \<times> bytes, SnapshotError) outcome"

text \<open>A flag byte, then a length of \<open>w\<close> bytes and the string if the flag is 1.\<close>

definition read_opt :: "nat \<Rightarrow> u8 \<Rightarrow> bytes option reader" where
  "read_opt w flag src =
     (if flag \<noteq> 1 then Ok (None, src)
      else if length src < w then Err UnexpectedEof
      else (let n = from_le (take w src); src1 = drop w src
            in if length src1 < n then Err UnexpectedEof else Ok (Some (take n src1), drop n src1)))"

text \<open>The byte \<open>has_parent\<close> is read without a length check.\<close>

definition read_entry :: "VectorEntry reader" where
  "read_entry src =
     (if length src < 6 then Err UnexpectedEof
      else (let key_len = from_le (take 2 src); src1 = drop 2 src
            in if length src1 < key_len + 4 then Err UnexpectedEof
               else (let key = take key_len src1; src2 = drop key_len src1;
                         entry_dim = from_le (take 4 src2); src3 = drop 4 src2
                     in if length src3 < entry_dim * 4 + 1 then Err UnexpectedEof
                        else (let vec = read_floats entry_dim src3; src4 = drop (entry_dim * 4) src3
                              in and_then (read_opt 4 (hd src4) (tl src4)) (\<lambda>(p_opt, src5).
                                   if length src5 < 12 then Err UnexpectedEof
                                   else (let ex = of_nat (from_le (take 4 src5)); mask = of_nat (from_le (take 8 (drop 4 src5)))
                                         in case drop 12 src5 of
                                              [] \<Rightarrow> Panic ''index out of bounds''
                                            | has_parent # src6 \<Rightarrow>
                                                and_then (read_opt 2 has_parent src6) (\<lambda>(parent, src7).
                                                  Ok (\<lparr>ve_key = key, ve_vector = vec, ve_payload = p_opt, ve_expire_at_secs = ex,
                                                       ve_tag_mask = mask, ve_parent_key = parent\<rparr>, src7))))))))"

fun read_entries :: "nat \<Rightarrow> VectorEntry list reader" where
  "read_entries 0 src = Ok ([], src)"
| "read_entries (Suc n) src =
     and_then (read_entry src) (\<lambda>(e, src1). and_then (read_entries n src1) (\<lambda>(es, src2). Ok (e # es, src2)))"

definition read_index :: "index_snapshot reader" where
  "read_index src =
     (if length src < 10 then Err UnexpectedEof
      else (let name_len = from_le (take 2 src); src1 = drop 2 src
            in if length src1 < name_len + 8 then Err UnexpectedEof
               else (let name = take name_len src1; src2 = drop name_len src1;
                         dim = from_le (take 4 src2); num_entries = from_le (take 4 (drop 4 src2))
                     in and_then (read_entries num_entries (drop 8 src2)) (\<lambda>(es, src3).
                          Ok ((name, if dim > 0 then Some dim else None, es), src3)))))"

definition read_kv :: "nat \<Rightarrow> kv_item reader" where
  "read_kv version src =
     (if version \<ge> 4 then
        (if length src < 8 + 1 + 4 then Err UnexpectedEof
         else (let key_hash = of_nat (from_le (take 8 src)); value_type = src ! 8;
                   val_len = from_le (take 4 (drop 9 src)); src1 = drop 13 src
               in if length src1 < val_len + 4 then Err UnexpectedEof
                  else Ok ((key_hash, value_type, take val_len src1, of_nat (from_le (take 4 (drop val_len src1)))),
                           drop (val_len + 4) src1)))
      else
        (if length src < 16 then Err UnexpectedEof
         else (let key_hash = of_nat (from_le (take 8 src));
                   val_len = from_le (take 4 (drop 8 src)); src1 = drop 12 src
               in if length src1 < val_len + 4 then Err UnexpectedEof
                  else Ok ((key_hash, VALUE_TYPE_STRING, take val_len src1, of_nat (from_le (take 4 (drop val_len src1)))),
                           drop (val_len + 4) src1))))"

section \<open>Restoring\<close>

text \<open>A failed read ends the hydration; what was restored before it stays. The results carry a snapshot
error as a value.\<close>

definition read_or ::
    "('a \<times> bytes, SnapshotError) outcome \<Rightarrow> ('a \<Rightarrow> bytes \<Rightarrow> (SnapshotError + 'b) step) \<Rightarrow> (SnapshotError + 'b) step" where
  "read_or res k =
     (case res of
        Ok (x, src) \<Rightarrow> k x src
      | Err e \<Rightarrow> ret (Inl e)
      | Panic m \<Rightarrow> (\<lambda>s. Some (s, Panic m)))"

definition parse_pairs_from_encoded :: "bytes \<Rightarrow> (bytes \<times> bytes) list option" where
  "parse_pairs_from_encoded encoded = counted decode_pairs encoded"

text \<open>The old block that \<open>insert_typed\<close> reports, and its error, are ignored.\<close>

definition publish_kv :: "u64 \<Rightarrow> SlabBlockId \<Rightarrow> u32 \<Rightarrow> u32 \<Rightarrow> u8 \<Rightarrow> nat step" where
  "publish_kv h b len ex ty =
     andthen (on_table (sh_insert_typed b len ex ty) h) (\<lambda>res. case res of
       Panic m \<Rightarrow> (\<lambda>s. Some (s, Panic m))
     | _ \<Rightarrow> ret 1)"

definition restore_hash :: "Env \<Rightarrow> u64 \<Rightarrow> bytes \<Rightarrow> u32 \<Rightarrow> nat step" where
  "restore_hash env h val ex =
     (case parse_pairs_from_encoded val of
        None \<Rightarrow> ret 0
      | Some pairs \<Rightarrow>
          (case hash_slab_class (needed_bytes None pairs) of
             None \<Rightarrow> ret 0
           | Some c \<Rightarrow>
               andthen (allocate_step env c) (\<lambda>res. case res of
                 None \<Rightarrow> ret 0
               | Some b \<Rightarrow>
                   andthen (resolve_step b) (\<lambda>ptr. case ptr of
                     None \<Rightarrow> andthen (deallocate_step b) (\<lambda>_. ret 0)
                   | Some p \<Rightarrow>
                       andthen (on_slot p (slot_bytes c) (\<lambda>slot. build_from_pairs (hash_key env) slot val)) (\<lambda>ok. case ok of
                         None \<Rightarrow> andthen (deallocate_step b) (\<lambda>_. ret 0)
                       | Some _ \<Rightarrow> publish_kv h b (of_nat (slot_bytes c)) ex VALUE_TYPE_HASH)))))"

definition restore_string :: "Env \<Rightarrow> u64 \<Rightarrow> bytes \<Rightarrow> u32 \<Rightarrow> nat step" where
  "restore_string env h val ex =
     (case for_size (length val) of
        None \<Rightarrow> ret 0
      | Some c \<Rightarrow>
          andthen (allocate_step env c) (\<lambda>res. case res of
            None \<Rightarrow> ret 0
          | Some b \<Rightarrow>
              andthen (resolve_step b) (\<lambda>ptr. case ptr of
                None \<Rightarrow> ret 0
              | Some p \<Rightarrow>
                  andthen (write_slot p val) (\<lambda>_. publish_kv h b (of_nat (length val)) ex VALUE_TYPE_STRING))))"

definition restore_kv :: "Env \<Rightarrow> kv_item \<Rightarrow> nat step" where
  "restore_kv env =
     (\<lambda>(h, ty, val, ex). if ty = VALUE_TYPE_HASH then restore_hash env h val ex else restore_string env h val ex)"

fun hydrate_indexes :: "(index_snapshot \<Rightarrow> unit step) \<Rightarrow> nat \<Rightarrow> nat \<Rightarrow> bytes \<Rightarrow> (SnapshotError + nat \<times> bytes) step" where
  "hydrate_indexes restore 0 tot src = ret (Inr (tot, src))"
| "hydrate_indexes restore (Suc n) tot src =
     read_or (read_index src) (\<lambda>ix src1.
       andthen (restore ix) (\<lambda>_. hydrate_indexes restore n (tot + length (snd (snd ix))) src1))"

fun hydrate_kvs :: "Env \<Rightarrow> nat \<Rightarrow> nat \<Rightarrow> nat \<Rightarrow> bytes \<Rightarrow> (SnapshotError + nat) step" where
  "hydrate_kvs env version 0 tot src = ret (Inr tot)"
| "hydrate_kvs env version (Suc n) tot src =
     read_or (read_kv version src) (\<lambda>item src1.
       andthen (restore_kv env item) (\<lambda>k. hydrate_kvs env version n (tot + k) src1))"

definition hydrate_payload ::
    "Env \<Rightarrow> (index_snapshot \<Rightarrow> unit step) \<Rightarrow> nat \<Rightarrow> bytes \<Rightarrow> (SnapshotError + nat \<times> nat \<times> nat) step" where
  "hydrate_payload env restore version payload =
     (if length payload < 4 then ret (Inl UnexpectedEof)
      else (let num_indexes = from_le (take 4 payload)
            in andthen (hydrate_indexes restore num_indexes 0 (drop 4 payload)) (\<lambda>r1. case r1 of
                 Inl e \<Rightarrow> ret (Inl e)
               | Inr (vectors, src) \<Rightarrow>
                   if length src < 4 then ret (Inr (num_indexes, vectors, 0))
                   else andthen (hydrate_kvs env version (from_le (take 4 src)) 0 (drop 4 src)) (\<lambda>r2. case r2 of
                     Inl e \<Rightarrow> ret (Inl e)
                   | Inr kvs \<Rightarrow> ret (Inr (num_indexes, vectors, kvs))))))"

section \<open>Loading\<close>

function decrypt_chunks :: "Crypto \<Rightarrow> ChunkCipher \<Rightarrow> bytes \<Rightarrow> (bytes, SnapshotError) outcome" where
  "decrypt_chunks cr d src =
     (if length src < 4 then Err UnexpectedEof
      else (let chunk_len = from_le (take 4 src); src1 = drop 4 src
            in if chunk_len = 0 then Ok []
               else if length src1 < chunk_len then Err UnexpectedEof
               else (case decrypt_chunk cr d (take chunk_len src1) of
                       Ok (d', plaintext) \<Rightarrow> and_then (decrypt_chunks cr d' (drop chunk_len src1)) (\<lambda>ps. Ok (plaintext @ ps))
                     | Err x \<Rightarrow> Err (CryptoFailure x)
                     | Panic m \<Rightarrow> Panic m)))"
  by pat_completeness auto
termination by (relation "measure (\<lambda>(cr, d, src). length src)") auto

declare decrypt_chunks.simps [simp del]

text \<open>\<open>open_payload\<close> turns the content (everything but the checksum) into version, timestamp and payload.\<close>

definition open_payload ::
    "Crypto \<Rightarrow> (bytes \<Rightarrow> bytes option) \<Rightarrow> SnapshotEncryptionConfig option \<Rightarrow> bytes \<Rightarrow> (nat \<times> nat \<times> bytes, SnapshotError) outcome" where
  "open_payload cr read_file encryption content =
     (let magic = take 4 content; ts = from_le (take 8 (drop 4 content)); rest = drop 16 content
      in if magic = KDB_SNAPSHOT_MAGIC_V2 then Ok (2, ts, rest)
         else if magic = KDB_SNAPSHOT_MAGIC_V3 \<or> magic = KDB_SNAPSHOT_MAGIC_V4 then
           (let version = (if magic = KDB_SNAPSHOT_MAGIC_V4 then 4 else 3);
                flags = of_nat (from_le (take 4 (drop 12 content))) :: u32
            in if flags AND FLAG_ENCRYPTED = 0 then Ok (version, ts, rest)
               else if length content < 16 + SALT_LEN + NONCE_LEN + 4 then Err UnexpectedEof
               else (let salt = take SALT_LEN rest; nonce = take NONCE_LEN (drop SALT_LEN rest)
                     in case from_flag_code (drop_bit 1 flags AND 7) of
                          Err x \<Rightarrow> Err (CryptoFailure x)
                        | Panic m \<Rightarrow> Panic m
                        | Ok cipher \<Rightarrow>
                            (case encryption of
                               None \<Rightarrow> Err EncryptionKeyRequired
                             | Some enc \<Rightarrow>
                                 (case and_then (resolve_key cr read_file enc salt) (\<lambda>key. ChunkCipher_new cipher key nonce) of
                                    Err x \<Rightarrow> Err (CryptoFailure x)
                                  | Panic m \<Rightarrow> Panic m
                                  | Ok d \<Rightarrow> and_then (decrypt_chunks cr d (drop (SALT_LEN + NONCE_LEN) rest)) (\<lambda>p. Ok (version, ts, p))))))
         else Err CorruptMagic)"

definition load_snapshot ::
    "Crypto \<Rightarrow> (bytes \<Rightarrow> bytes option) \<Rightarrow> Env \<Rightarrow> (index_snapshot \<Rightarrow> unit step) \<Rightarrow> SnapshotEncryptionConfig option \<Rightarrow>
     bytes \<Rightarrow> (SnapshotError + SnapshotStats) step" where
  "load_snapshot cr read_file env restore encryption data =
     (if length data < 20 then ret (Inl UnexpectedEof)
      else (let content = take (length data - 4) data;
                expected_crc = of_nat (from_le (drop (length data - 4) data));
                calculated_crc = crc32 env content
            in if expected_crc \<noteq> calculated_crc then ret (Inl (SnapshotChecksumMismatch expected_crc calculated_crc))
               else (case open_payload cr read_file encryption content of
                       Err e \<Rightarrow> ret (Inl e)
                     | Panic m \<Rightarrow> (\<lambda>s. Some (s, Panic m))
                     | Ok (version, ts, payload) \<Rightarrow>
                         andthen (hydrate_payload env restore version payload) (\<lambda>r. case r of
                           Inl e \<Rightarrow> ret (Inl e)
                         | Inr (ixs, vs, kvs) \<Rightarrow>
                             ret (Inr \<lparr>st_timestamp_sec = ts, st_vector_indexes = ixs, st_total_vectors = vs,
                                       st_total_kv_entries = kvs, st_bytes_written = length data\<rparr>)))))"

end
