(* ===== verification/Snapshot_Format.thy ===== *)
theory Snapshot_Format
  imports Snapshot_File
begin

text \<open>
  The snapshot format: what the payload writer puts into the out, plain or encrypted, is what the loader
  takes out of it, and the sections of the payload are read back as they were written.
\<close>

section \<open>The writer\<close>

text \<open>
  \<open>carries cr d0 pre data w\<close>: the writer \<open>w\<close>, started at the out \<open>pre\<close> (with the cipher \<open>d0\<close> if it
  encrypts), holds exactly \<open>data\<close>, and its count is the length of the out.
\<close>

fun carries :: "Crypto \<Rightarrow> ChunkCipher option \<Rightarrow> bytes \<Rightarrow> bytes \<Rightarrow> PayloadWriter \<Rightarrow> bool" where
  "carries cr None pre data (Plain buf out n) \<longleftrightarrow> out @ buf = pre @ data \<and> n = length out"
| "carries cr (Some d0) pre data (Encrypted e buf out n) \<longleftrightarrow> n = length out \<and>
     (\<exists>body plain. out = pre @ body \<and> plain @ buf = data \<and>
        (\<forall>rest x. decrypt_chunks cr e rest = Ok x \<longrightarrow> decrypt_chunks cr d0 (body @ rest) = Ok (plain @ x)))"
| "carries cr _ pre data _ \<longleftrightarrow> False"

lemma carries_start:
  "carries cr None pre [] (Plain [] pre (length pre))"
  "carries cr (Some e) pre [] (Encrypted e [] pre (length pre))"
  by auto

lemma decrypt_put:
  assumes aead: "aead_ok cr" and enc: "encrypt_chunk cr e plain = Ok (e', c)" and len: "length plain \<le> ENCRYPTION_CHUNK_SIZE"
    and rest: "decrypt_chunks cr e' rest = Ok x"
  shows "decrypt_chunks cr e (u32_le (length c) @ c @ rest) = Ok (plain @ x)"
proof -
  note R = chunk_roundtrip [OF aead enc]
  have c: "length c < 2 ^ 32" "length c \<noteq> 0" using R(2) len by (simp_all add: TAG_LEN_def ENCRYPTION_CHUNK_SIZE_def)
  have "from_le (take 4 (u32_le (length c) @ c @ rest)) = length c" using c(1) by (simp add: from_le_bytes)
  then show ?thesis using R(1) rest c(2) by (subst decrypt_chunks.simps) (simp add: Let_def)
qed

lemma encrypt_step:
  assumes car: "carries cr (Some d0) pre data (Encrypted e buf out n)" and aead: "aead_ok cr"
    and enc: "encrypt_chunk cr e (take m buf) = Ok (e', c)" and m: "m \<le> ENCRYPTION_CHUNK_SIZE"
  shows "carries cr (Some d0) pre data (Encrypted e' (drop m buf) (put_chunk c out) (n + 4 + length c))"
proof -
  obtain body plain where b: "out = pre @ body" "plain @ buf = data" "n = length out"
      "\<And>rest x. decrypt_chunks cr e rest = Ok x \<Longrightarrow> decrypt_chunks cr d0 (body @ rest) = Ok (plain @ x)"
    using car by auto
  have "decrypt_chunks cr d0 ((body @ u32_le (length c) @ c) @ rest) = Ok ((plain @ take m buf) @ x)"
    if "decrypt_chunks cr e' rest = Ok x" for rest x
    using b(4) decrypt_put [OF aead enc _ that] m by simp
  then show ?thesis using b(1-3)
    by (auto simp: put_chunk_def intro!: exI [of _ "body @ u32_le (length c) @ c"] exI [of _ "plain @ take m buf"])
qed

lemma encrypt_full_carries:
  assumes "carries cr (Some d0) pre data (Encrypted e buf out n)" "aead_ok cr" "encrypt_full cr e buf out n = Ok w"
  shows "carries cr (Some d0) pre data w"
  using assms
proof (induction cr e buf out n rule: encrypt_full.induct)
  case (1 cr e buf out n)
  show ?case
  proof (cases "length buf < ENCRYPTION_CHUNK_SIZE")
    case True
    then have "w = Encrypted e buf out n" using 1(4) by (simp add: encrypt_full.simps)
    then show ?thesis using 1(2) by (simp only:)
  next
    case False
    then obtain e' c where enc: "encrypt_chunk cr e (take ENCRYPTION_CHUNK_SIZE buf) = Ok (e', c)"
        "encrypt_full cr e' (drop ENCRYPTION_CHUNK_SIZE buf) (put_chunk c out) (n + 4 + length c) = Ok w"
      using 1(4) by (subst (asm) encrypt_full.simps) (auto split: outcome.splits)
    show ?thesis by (rule 1(1) [OF False enc(1) refl _ 1(3) enc(2)]) (rule encrypt_step [OF 1(2,3) enc(1) order.refl])
  qed
qed

lemma write_bytes_carries:
  assumes "carries cr d pre data w" "aead_ok cr" "write_bytes cr p w = Ok w'"
  shows "carries cr d pre (data @ p) w'"
proof (cases w)
  case (Plain buf out n)
  then show ?thesis using assms by (cases d) (auto simp: Let_def split: if_splits)
next
  case (Encrypted e buf out n)
  then obtain d0 where d: "d = Some d0" using assms(1) by (cases d) auto
  have "carries cr (Some d0) pre (data @ p) (Encrypted e (buf @ p) out n)" using assms(1) Encrypted d by auto
  moreover have "encrypt_full cr e (buf @ p) out n = Ok w'" using assms(3) Encrypted by simp
  ultimately show ?thesis unfolding d by (rule encrypt_full_carries [OF _ assms(2)])
qed

lemma write_pieces_carries:
  assumes "carries cr d pre data w" "aead_ok cr" "write_pieces cr ps w = Ok w'"
  shows "carries cr d pre (data @ concat ps) w'"
  using assms
proof (induction ps arbitrary: data w)
  case (Cons p ps)
  then obtain w1 where w1: "write_bytes cr p w = Ok w1" "write_pieces cr ps w1 = Ok w'"
    by (cases "write_bytes cr p w") auto
  show ?case using Cons.IH [OF write_bytes_carries [OF Cons.prems(1,2) w1(1)] Cons.prems(2) w1(2)] by simp
qed simp

lemma decrypt_sentinel: "decrypt_chunks cr e (u32_le 0) = Ok []"
  by (subst decrypt_chunks.simps) (simp add: from_le_bytes Let_def)

lemma encrypt_full_small: "encrypt_full cr e buf out n = Ok (Encrypted e' buf' out' n') \<Longrightarrow> length buf' < ENCRYPTION_CHUNK_SIZE"
  by (induction cr e buf out n rule: encrypt_full.induct)
    (subst (asm) (2) encrypt_full.simps, auto split: if_splits outcome.splits)

fun small_buf :: "PayloadWriter \<Rightarrow> bool" where
  "small_buf (Plain buf out n) = True"
| "small_buf (Encrypted e buf out n) = (length buf < ENCRYPTION_CHUNK_SIZE)"

lemma encrypt_full_shape: "encrypt_full cr e buf out n = Ok w \<Longrightarrow> \<exists>e' buf' out' n'. w = Encrypted e' buf' out' n'"
  by (induction cr e buf out n rule: encrypt_full.induct)
    (subst (asm) (2) encrypt_full.simps, auto split: if_splits outcome.splits)

lemma write_pieces_small: "small_buf w \<Longrightarrow> write_pieces cr ps w = Ok w' \<Longrightarrow> small_buf w'"
proof (induction ps arbitrary: w)
  case (Cons p ps)
  then obtain w1 where w1: "write_bytes cr p w = Ok w1" "write_pieces cr ps w1 = Ok w'"
    by (cases "write_bytes cr p w") auto
  have "small_buf w1" using w1(1) encrypt_full_small encrypt_full_shape
    by (cases w) (fastforce simp: Let_def split: if_splits)+
  then show ?case using Cons.IH w1(2) by blast
qed simp

lemma finish_carries:
  assumes car: "carries cr d pre data w" and aead: "aead_ok cr" and small: "small_buf w" and fin: "finish cr w = Ok (out, n)"
  shows "n = length out"
    "case d of None \<Rightarrow> out = pre @ data | Some d0 \<Rightarrow> \<exists>body. out = pre @ body \<and> length body \<ge> 4 \<and> decrypt_chunks cr d0 body = Ok data"
proof -
  have "n = length out \<and> (case d of None \<Rightarrow> out = pre @ data
      | Some d0 \<Rightarrow> \<exists>body. out = pre @ body \<and> length body \<ge> 4 \<and> decrypt_chunks cr d0 body = Ok data)"
  proof (cases w)
    case (Plain buf f m)
    then show ?thesis using car fin by (cases d) auto
  next
    case (Encrypted e buf f m)
    then obtain d0 where d: "d = Some d0" using car by (cases d) auto
    show ?thesis
    proof (cases "buf = []")
      case True
      then show ?thesis using car fin Encrypted d decrypt_sentinel [of cr e] by force
    next
      case False
      then obtain e' c where enc: "encrypt_chunk cr e buf = Ok (e', c)" "out = put_chunk c f @ u32_le 0" "n = m + 4 + length c + 4"
        using fin Encrypted by (auto split: outcome.splits)
      have "carries cr (Some d0) pre data (Encrypted e' [] (put_chunk c f) (m + 4 + length c))"
        using encrypt_step [where m = "length buf", of cr d0 pre data e buf f m e' c] car aead enc(1) small Encrypted d by simp
      then obtain body where "put_chunk c f = pre @ body" "m + 4 + length c = length (put_chunk c f)"
          "decrypt_chunks cr d0 (body @ u32_le 0) = Ok data"
        using decrypt_sentinel [of cr e'] by force
      then show ?thesis using enc(2,3) d by (auto intro!: exI [of _ "body @ u32_le 0"])
    qed
  qed
  then show "n = length out"
    "case d of None \<Rightarrow> out = pre @ data | Some d0 \<Rightarrow> \<exists>body. out = pre @ body \<and> length body \<ge> 4 \<and> decrypt_chunks cr d0 body = Ok data"
    by simp_all
qed


section \<open>Sections of the payload\<close>

fun opt_fits :: "nat \<Rightarrow> bytes option \<Rightarrow> bool" where
  "opt_fits w None = True"
| "opt_fits w (Some p) = (length p < 256 ^ w)"

definition entry_fits :: "VectorEntry \<Rightarrow> bool" where
  "entry_fits e \<longleftrightarrow> length (ve_key e) < 2 ^ 16 \<and> length (ve_vector e) < 2 ^ 32 \<and> opt_fits 4 (ve_payload e) \<and> opt_fits 2 (ve_parent_key e)"

text \<open>The lengths fit into their fields, and a dimension is not 0.\<close>

fun index_fits :: "index_snapshot \<Rightarrow> bool" where
  "index_fits (name, dim, es) \<longleftrightarrow> length name < 2 ^ 16 \<and> dim \<noteq> Some 0 \<and> (\<forall>d. dim = Some d \<longrightarrow> d < 2 ^ 32) \<and>
     length es < 2 ^ 32 \<and> list_all entry_fits es"

lemma read_floats_back: "read_floats (length v) (concat (map (\<lambda>f. u32_le (unat f)) v) @ rest) = v"
  by (induction v) simp_all

lemma length_floats [simp]: "length (concat (map (\<lambda>f. u32_le (unat (f :: u32))) v)) = 4 * length v"
  by (induction v) simp_all

lemma opt_piece_read:
  assumes "opt_fits w p"
  shows "\<exists>flag tail. concat (opt_piece w p) = flag # tail \<and> (\<forall>rest. read_opt w flag (tail @ rest) = Ok (p, rest))"
  using assms by (cases p) (auto simp: read_opt_def from_le_bytes Let_def)

lemma read_entry_back:
  assumes "entry_fits e"
  shows "read_entry (concat (entry_pieces e) @ rest) = Ok (e, rest)"
proof -
  obtain f1 t1 where o1: "concat (opt_piece 4 (ve_payload e)) = f1 # t1" "\<And>rest. read_opt 4 f1 (t1 @ rest) = Ok (ve_payload e, rest)"
    using opt_piece_read assms by (meson entry_fits_def)
  obtain f2 t2 where o2: "concat (opt_piece 2 (ve_parent_key e)) = f2 # t2" "\<And>rest. read_opt 2 f2 (t2 @ rest) = Ok (ve_parent_key e, rest)"
    using opt_piece_read assms by (meson entry_fits_def)
  let ?v = "concat (map (\<lambda>f. u32_le (unat f)) (ve_vector e))"
  have src: "concat (entry_pieces e) @ rest = u16_le (length (ve_key e)) @ ve_key e @ u32_le (length (ve_vector e)) @ ?v @
      f1 # t1 @ u32_le (unat (ve_expire_at_secs e)) @ u64_le (unat (ve_tag_mask e)) @ f2 # t2 @ rest"
    by (simp add: entry_pieces_def o1(1) o2(1))
  have len: "length (ve_key e) < 2 ^ 16" "length (ve_vector e) < 2 ^ 32" using assms by (simp_all add: entry_fits_def)
  show ?thesis
    unfolding src read_entry_def
    by (simp add: Let_def from_le_small len [simplified] mult.commute read_floats_back o1(2) o2(2))
qed

lemma read_entries_back:
  assumes "list_all entry_fits es"
  shows "read_entries (length es) (concat (concat (map entry_pieces es)) @ rest) = Ok (es, rest)"
  using assms by (induction es) (simp_all add: read_entry_back)

lemma read_index_back:
  assumes "index_fits ix"
  shows "read_index (concat (index_pieces ix) @ rest) = Ok (ix, rest)"
proof -
  obtain name dim es where ix: "ix = (name, dim, es)" by (cases ix)
  let ?d = "case dim of Some d \<Rightarrow> d | None \<Rightarrow> 0"
  have d: "?d < 2 ^ 32" "(if ?d > 0 then Some ?d else None) = dim" using assms by (auto simp: ix split: option.splits)
  have src: "concat (index_pieces ix) @ rest = u16_le (length name) @ name @ u32_le ?d @ u32_le (length es) @
      concat (concat (map entry_pieces es)) @ rest"
    by (simp add: ix)
  have "length name < 2 ^ 16" "length es < 2 ^ 32" "list_all entry_fits es" using assms by (simp_all add: ix)
  then have "read_index (concat (index_pieces ix) @ rest) = Ok ((name, if ?d > 0 then Some ?d else None, es), rest)"
    unfolding src read_index_def using d(1) by (simp add: Let_def from_le_small read_entries_back)
  then show ?thesis by (simp only: d(2) ix)
qed

definition item_fits :: "kv_item \<Rightarrow> bool" where
  "item_fits = (\<lambda>(h, ty, val, ex). length val < 2 ^ 32)"

lemma read_kv_back:
  assumes "item_fits item"
  shows "read_kv 4 (concat (kv_pieces item) @ rest) = Ok (item, rest)"
proof -
  obtain h ty val ex where it: "item = (h, ty, val, ex)" by (cases item)
  have src: "concat (kv_pieces item) @ rest = u64_le (unat h) @ [ty] @ u32_le (length val) @ val @ u32_le (unat ex) @ rest"
    by (simp add: it kv_pieces_def)
  have "length val < 2 ^ 32" using assms by (simp add: it item_fits_def)
  then show ?thesis unfolding src read_kv_def by (simp add: Let_def from_le_small it nth_append)
qed

section \<open>Header and encryption\<close>

lemma magic_length [simp]:
  "length KDB_SNAPSHOT_MAGIC_V2 = 4" "length KDB_SNAPSHOT_MAGIC_V3 = 4" "length KDB_SNAPSHOT_MAGIC_V4 = 4"
  by (simp_all add: KDB_SNAPSHOT_MAGIC_V2_def KDB_SNAPSHOT_MAGIC_V3_def KDB_SNAPSHOT_MAGIC_V4_def ascii_def)

lemma magic_distinct [simp]: "KDB_SNAPSHOT_MAGIC_V4 \<noteq> KDB_SNAPSHOT_MAGIC_V2" "KDB_SNAPSHOT_MAGIC_V4 \<noteq> KDB_SNAPSHOT_MAGIC_V3"
  by (simp_all add: KDB_SNAPSHOT_MAGIC_V2_def KDB_SNAPSHOT_MAGIC_V3_def KDB_SNAPSHOT_MAGIC_V4_def ascii_def)

definition encrypts :: "SnapshotEncryptionConfig option \<Rightarrow> bool" where
  "encrypts encryption \<longleftrightarrow> (\<exists>enc. encryption = Some enc \<and> sec_enabled enc)"

text \<open>The random strings have the lengths of the arrays they fill.\<close>

definition rng_ok :: "(bytes \<times> bytes) option \<Rightarrow> bool" where
  "rng_ok rng \<longleftrightarrow> (\<forall>salt nonce. rng = Some (salt, nonce) \<longrightarrow> length salt = SALT_LEN \<and> length nonce = NONCE_LEN)"

lemma flags_encrypted: "(FLAG_ENCRYPTED OR push_bit 1 (flag_code c)) AND FLAG_ENCRYPTED \<noteq> 0"
  by (cases c) (simp_all add: FLAG_ENCRYPTED_def)

lemma start_writer_opens:
  assumes run: "start_writer cr read_file encryption rng ts = Ok w" and rng: "rng_ok rng" and ts: "ts < 2 ^ 64"
  obtains pre d where "carries cr d pre [] w" "small_buf w" "length pre \<ge> 16"
    "\<And>cfg body. d = None \<Longrightarrow> open_payload cr read_file cfg (pre @ body) = Ok (4, ts, body)"
    "\<And>d0 x body. d = Some d0 \<Longrightarrow> length body \<ge> 4 \<Longrightarrow> decrypt_chunks cr d0 body = Ok x \<Longrightarrow> open_payload cr read_file encryption (pre @ body) = Ok (4, ts, x)"
proof (cases "encrypts encryption")
  case False
  let ?pre = "KDB_SNAPSHOT_MAGIC_V4 @ u64_le ts @ u32_le 0"
  have w: "w = Plain [] ?pre 16" using run False by (auto simp: start_writer_def encrypts_def Let_def split: option.splits if_splits)
  show ?thesis
    by (rule that [of None ?pre]) (use ts in \<open>simp_all add: w open_payload_def Let_def from_le_small FLAG_ENCRYPTED_def\<close>)
next
  case True
  then obtain enc where enc: "encryption = Some enc" "sec_enabled enc" by (auto simp: encrypts_def)
  then obtain salt nonce where r: "rng = Some (salt, nonce)" using run by (auto simp: start_writer_def Let_def split: option.splits)
  have len: "length salt = SALT_LEN" "length nonce = NONCE_LEN" using rng r by (auto simp: rng_ok_def)
  define flags where "flags = (FLAG_ENCRYPTED OR push_bit 1 (flag_code (sec_cipher enc)))"
  let ?pre = "KDB_SNAPSHOT_MAGIC_V4 @ u64_le ts @ u32_le (unat flags) @ salt @ nonce"
  obtain e where e: "and_then (resolve_key cr read_file enc salt) (\<lambda>key. ChunkCipher_new (sec_cipher enc) key nonce) = Ok e"
      "w = Encrypted e [] ?pre (16 + SALT_LEN + NONCE_LEN)"
    using run enc r by (auto simp: start_writer_def Let_def flags_def split: outcome.splits)
  have fl: "from_flag_code (drop_bit 1 flags AND 7) = Ok (sec_cipher enc)" "flags AND FLAG_ENCRYPTED \<noteq> 0"
    using flag_code_roundtrip [of "sec_cipher enc"] flags_encrypted [of "sec_cipher enc"] by (simp_all add: flags_def FLAG_ENCRYPTED_def)
  show ?thesis
  proof (rule that [of "Some e" ?pre])
    show "carries cr (Some e) ?pre [] w" using len by (simp add: e(2))
    show "open_payload cr read_file encryption (?pre @ body) = Ok (4, ts, x)"
      if "length body \<ge> 4" "decrypt_chunks cr d0 body = Ok x" "Some e = Some d0" for d0 x body
      unfolding open_payload_def enc(1)
      using ts len that fl e(1) by (simp add: Let_def from_le_small SALT_LEN_def NONCE_LEN_def del: One_nat_def)
  qed (simp_all add: e(2) ENCRYPTION_CHUNK_SIZE_def)
qed

end
