(* ===== verification/Snapshot_Restore.thy ===== *)
theory Snapshot_Restore
  imports Snapshot_Format Aof_Hashes
begin

text \<open>
  Restoring a snapshot into the store: the effect of each restored key on the map of cells, and the
  store that loading a saved snapshot yields.
\<close>

section \<open>Hashes in a snapshot\<close>

lemma put_fields_distinct: "distinct (map fst ps) \<Longrightarrow> put_fields ps m = m ++ map_of ps"
proof (induction ps arbitrary: m)
  case (Cons p ps)
  obtain a b where p: "p = (a, b)" by (cases p)
  have "a \<notin> dom (map_of ps)" using Cons.prems p by (simp add: dom_map_of_conv_image_fst)
  moreover have "put_fields (p # ps) m = m(a \<mapsto> b) ++ map_of ps" using Cons p by simp
  moreover have "map_of (p # ps) = (map_of ps)(a \<mapsto> b)" using p by (auto simp: fun_eq_iff)
  ultimately show ?case by (simp only: map_add_upd_left map_add_upd not_False_eq_True)
qed simp

lemma saved_hash:
  assumes "hash_frame_ok hk slot"
  shows "encode_pairs slot = u16_le (length (iter_pairs slot)) @ concat (map encode_pair (iter_pairs slot))"
    "length (iter_pairs slot) < 2 ^ 16" "\<forall>p\<in>set (iter_pairs slot). short (fst p) \<and> short (snd p)"
    "named (iter_pairs slot)" "put_fields (iter_pairs slot) Map.empty = frame_map slot"
    "parse_pairs_from_encoded (encode_pairs slot) = Some (iter_pairs slot)"
proof -
  obtain live k pend dead where fr: "frame_at hk slot live k pend dead" using assms by (auto simp: hash_frame_ok_def)
  note F = frame_atD [OF fr] and L = live_pairs_facts [OF fr] and it = iter_pairs_live(1) [OF fr]
  show enc: "encode_pairs slot = u16_le (length (iter_pairs slot)) @ concat (map encode_pair (iter_pairs slot))"
    using F(19) it L(1) by (simp add: encode_pairs_def frame_live_count_def encode_pair_def case_prod_beta cong: map_cong)
  show len: "length (iter_pairs slot) < 2 ^ 16" using F(13) L(1) it by simp
  show sh: "\<forall>p\<in>set (iter_pairs slot). short (fst p) \<and> short (snd p)" using L(5) it by (auto simp: short_def)
  show "named (iter_pairs slot)" using L(4) it by (simp add: named_def)
  show "put_fields (iter_pairs slot) Map.empty = frame_map slot"
    using put_fields_distinct [of "iter_pairs slot" Map.empty] L(3) it by (simp add: frame_map_def)
  show "parse_pairs_from_encoded (encode_pairs slot) = Some (iter_pairs slot)"
    unfolding parse_pairs_from_encoded_def enc
    by (rule counted_encoded [OF len]) (use decode_pairs_encoded [OF sh, of "[]"] in simp)
qed

text \<open>Building a frame is inserting the pairs one by one.\<close>

fun built :: "(bytes \<times> (int, FrameError) outcome) option \<Rightarrow> (bytes \<times> (unit, FrameError) outcome) option" where
  "built None = None"
| "built (Some (s, Ok _)) = Some (s, Ok ())"
| "built (Some (s, Err e)) = Some (s, Err e)"
| "built (Some (s, Panic m)) = Some (s, Panic m)"

lemma build_loop_upserts:
  assumes "drop off enc = concat (map encode_pair ps)" "\<forall>p\<in>set ps. short (fst p) \<and> short (snd p)"
  shows "build_loop hk (length ps) off enc s = built (upsert_all (frame_upsert hk) ps n s)"
  using assms
proof (induction ps arbitrary: off n s)
  case (Cons p ps)
  obtain f v where p: "p = (f, v)" by (cases p)
  have d: "drop off enc = encode_pair (f, v) @ concat (map encode_pair ps)" "length f < 2 ^ 16" "length v < 2 ^ 16"
    using Cons.prems p by (simp_all add: short_def)
  note B = build_loop_step [OF d]
  have IH: "build_loop hk (length ps) (off + 2 + length f + 2 + length v) enc s' = built (upsert_all (frame_upsert hk) ps n' s')" for s' n'
    using Cons.prems(2) by (intro Cons.IH B(2)) simp
  show ?case
    using B(1) [of hk "length ps" s] IH
    by (auto simp: p simp del: build_loop.simps split: option.split prod.split outcome.split)
qed simp

lemma build_from_pairs_upserts:
  assumes "hash_frame_ok hk slot" "init_frame slot' = (s0, Ok ())"
  shows "build_from_pairs hk slot' (encode_pairs slot) = built (upsert_all (frame_upsert hk) (iter_pairs slot) 0 s0)"
proof -
  note S = saved_hash [OF assms(1)]
  have "from_le (bytes_at 0 2 (encode_pairs slot)) = length (iter_pairs slot)" using S(2) by (simp add: S(1) bytes_at_def)
  moreover have "build_loop hk (length (iter_pairs slot)) 2 (encode_pairs slot) s0 = built (upsert_all (frame_upsert hk) (iter_pairs slot) 0 s0)"
    by (rule build_loop_upserts [OF _ S(3)]) (simp add: S(1))
  ultimately show ?thesis using assms(2) by (simp add: build_from_pairs_def) (simp add: S(1))
qed

section \<open>Restoring one key\<close>

text \<open>The fields of the hash in \<open>slot\<close> find no place when it is restored: \<open>needed_bytes\<close> chooses no class,
or a class whose fresh frame does not take the pairs.\<close>

definition unrestorable :: "(bytes \<Rightarrow> u64) \<Rightarrow> bytes \<Rightarrow> bool" where
  "unrestorable hk slot \<longleftrightarrow>
     (case hash_slab_class (needed_bytes None (iter_pairs slot)) of None \<Rightarrow> True | Some c \<Rightarrow> fresh_full hk c (iter_pairs slot))"

definition roomy :: "Env \<Rightarrow> Server \<Rightarrow> bool" where
  "roomy env s \<longleftrightarrow> gaps (sv_table s) \<and> (\<forall>c. alloc_ok env s c \<and> \<not> refused env s c)"

lemma publish_kv_step:
  assumes "server_ok s" "gaps (sv_table s)" "scratch_slot s b p n"
  obtains s' where "publish_kv h b (of_nat n) ex ty s = Some (s', Ok 1)" "server_ok s'"
    "contents s' = (contents s)(h \<mapsto> \<lparr>cell_value = slice_at p n (sv_mem s), cell_expire = ex, cell_type = ty\<rparr>)"
proof -
  from insert_scratch_step [OF assms, of ex ty h] obtain s' old where
      "on_table (sh_insert_typed b (of_nat n) ex ty) h s = Some (s', Ok (Ok old))" "server_ok s'"
      "contents s' = (contents s)(h \<mapsto> \<lparr>cell_value = slice_at p n (sv_mem s), cell_expire = ex, cell_type = ty\<rparr>)"
    by metis
  then show ?thesis using that [of s'] by (simp add: publish_kv_def andthen_def ret_def)
qed

lemma restore_string_step:
  assumes ok: "server_ok s" and room: "roomy env s" and val: "MEGASLAB_HEADER_BYTES + length val \<le> MEGASLAB_BYTES"
  obtains s' where "restore_string env h val ex s = Some (s', Ok 1)" "server_ok s'" "contents s' = (contents s)(h \<mapsto> string_cell val ex)"
proof -
  have "for_size (length val) \<noteq> None" using val by (simp add: for_size_def geometry)
  then obtain c where c: "for_size (length val) = Some c" by blast
  have pay: "payload_ok c (length val)" using for_size_payload [OF c] val by (simp add: payload_ok_def)
  have al: "alloc_ok env s c" "\<not> refused env s c" "gaps (sv_table s)" using room by (simp_all add: roomy_def)
  from ok al(1) pay show ?thesis
  proof (cases rule: allocate_outcome)
    case (got s1 b p)
    let ?s = "s1\<lparr>sv_mem := copy_nonoverlapping val p (sv_mem s1)\<rparr>"
    have heap: "heap_ok (sv_core s1) (sharded_map (sv_table s1))" using got(2) by (simp add: server_ok_def)
    have len: "length val < 2 ^ 32" using val by (simp add: geometry)
    have S: "server_ok ?s" "gaps (sv_table ?s)" "scratch_slot ?s b p (length val)"
      using got al(3) len by (simp_all add: server_ok_def scratch_slot_def)
    have same: "contents ?s = contents s" using heap_scratch [OF heap got(6-9)] got(3) by (simp add: contents_def)
    have v: "slice_at p (length val) (sv_mem ?s) = val" using slice_copied [of val p "sv_mem s1"] len by simp
    from publish_kv_step [OF S, of h ex VALUE_TYPE_STRING] obtain s2 where
        s2: "publish_kv h b (of_nat (length val)) ex VALUE_TYPE_STRING ?s = Some (s2, Ok 1)" "server_ok s2"
        "contents s2 = (contents ?s)(h \<mapsto> string_cell val ex)" unfolding v string_cell_def by blast
    have "restore_string env h val ex s = Some (s2, Ok 1)"
      using got(1,9) s2(1) by (simp add: restore_string_def c step_simps)
    then show ?thesis using that s2(2,3) same by simp
  qed (use al(2) in simp)
qed

lemma restore_hash_step:
  assumes ok: "server_ok s" and room: "roomy env s" and slot: "hash_frame_ok (hash_key env) slot"
  obtains (kept) s' v where "restore_hash env h (encode_pairs slot) ex s = Some (s', Ok 1)" "server_ok s'"
      "contents s' = (contents s)(h \<mapsto> hash_cell v ex)" "hash_cell_ok (hash_key env) (hash_cell v ex)" "frame_map v = frame_map slot"
    | (lost) s' where "restore_hash env h (encode_pairs slot) ex s = Some (s', Ok 0)" "server_ok s'" "contents s' = contents s"
      "unrestorable (hash_key env) slot"
proof (cases "hash_slab_class (needed_bytes None (iter_pairs slot))")
  case None
  then show ?thesis using lost [of s] ok saved_hash(6) [OF slot] by (simp add: restore_hash_def unrestorable_def)
next
  case (Some c)
  let ?hk = "hash_key env" and ?n = "slot_bytes c"
  have c: "hash_class c" by (rule hash_slab_class [OF Some])
  note C = hash_classD [OF c] and S = saved_hash [OF slot]
  have al: "alloc_ok env s c" "\<not> refused env s c" "gaps (sv_table s)" using room by (simp_all add: roomy_def)
  from ok al(1) C(1) show ?thesis
  proof (cases rule: allocate_outcome)
    case (got s1 b p)
    let ?sl = "slice_at p ?n (sv_mem s1)" and ?op = "\<lambda>slot'. build_from_pairs ?hk slot' (encode_pairs slot)"
    have sc: "scratch_slot s1 b p ?n" using got(6-9) C(3) by (simp add: scratch_slot_def)
    have res: "resolve_step b s1 = Some (s1, Ok (Some p))" using got(9) by (simp add: resolve_step_def)
    obtain f where f: "init_frame ?sl = (f, Ok ())" "length f = ?n" "frame_at ?hk f 0 (default_k_for_capacity ?n) 8 0"
        "frame_map f = Map.empty" "frame_clean f (default_k_for_capacity ?n) 0"
      using fresh_frame [of ?sl ?hk] C(2) by auto
    note B = build_from_pairs_upserts [OF slot f(1)]
    from hash_frame_okI [OF f(3)] S(4) show ?thesis
    proof (cases rule: upsert_all_frame)
      case (ok v)
      have "?op ?sl = Some (v, Ok ())" using B ok(1) by simp
      from on_scratch [where op = ?op, OF got(2) sc this] ok(3) f(2) obtain s2 where s2:
          "on_slot p ?n ?op s1 = Some (s2, Ok (Some ()))" "only_mem s1 s2" "contents s2 = contents s1" "slice_at p ?n (sv_mem s2) = v"
        by auto
      note O = only_memD [OF s2(2)]
      have "server_ok s2" "gaps (sv_table s2)" "scratch_slot s2 b p ?n" using O got(2,5) sc al(3) by simp_all
      from publish_kv_step [OF this, of h ex VALUE_TYPE_HASH] obtain s3 where
          s3: "publish_kv h b (of_nat ?n) ex VALUE_TYPE_HASH s2 = Some (s3, Ok 1)" "server_ok s3"
          "contents s3 = (contents s2)(h \<mapsto> hash_cell v ex)" unfolding s2(4) hash_cell_def by blast
      have run: "restore_hash env h (encode_pairs slot) ex s = Some (s3, Ok 1)"
        using got(1) res s2(1) s3(1) by (simp add: restore_hash_def S(6) Some)
      have "hash_cell_ok ?hk (hash_cell v ex)" using ok(2,3) f(2) c by (auto simp: hash_cell_ok_def hash_cell_def)
      then show ?thesis using kept [OF run s3(2)] s3(3) s2(3) got(3) ok(4) f(4) S(5) by simp
    next
      case (stop v e)
      have "?op ?sl = Some (v, Err e)" using B stop(1) by simp
      from on_scratch [where op = ?op, OF got(2) sc this] stop(3) f(2) obtain s2 where s2:
          "on_slot p ?n ?op s1 = Some (s2, Ok None)" "only_mem s1 s2" "contents s2 = contents s1"
        by auto
      note O = only_memD [OF s2(2)]
      have D: "server_ok s2" "b \<in> pool_live (fst (sv_core s2))" "b \<notin> blocks (sharded_map (sv_table s2))"
        using O got(2,6,7) by simp_all
      obtain s3 where s3: "deallocate_step b s2 = Some (s3, Ok ())" "server_ok s3" "contents s3 = contents s2"
        using free_step [OF D] by metis
      have run: "restore_hash env h (encode_pairs slot) ex s = Some (s3, Ok 0)"
        using got(1) res s2(1) s3(1) by (simp add: restore_hash_def S(6) Some)
      have "fresh_full ?hk c (iter_pairs slot)" unfolding fresh_full_def using f stop(1) by blast
      then show ?thesis using lost [OF run s3(2)] s3(3) s2(3) got(3) Some by (simp add: unrestorable_def)
    qed
  qed (use al(2) in simp)
qed


section \<open>The saved keys\<close>

lemma concat_shards:
  assumes "\<And>i. i < n \<Longrightarrow> distinct (map fst (f i)) \<and> (\<forall>x\<in>set (f i). ix (fst x) = i)"
  shows "distinct (map fst (concat (map f [0..<n]))) \<and> (\<forall>x\<in>set (concat (map f [0..<n])). ix (fst x) < n)"
  using assms
proof (induction n)
  case (Suc n)
  let ?xs = "concat (map f [0..<n])"
  have IH: "distinct (map fst ?xs)" "\<And>x. x \<in> set ?xs \<Longrightarrow> ix (fst x) < n" using Suc.IH Suc.prems less_SucI by blast+
  have n: "distinct (map fst (f n))" "\<And>x. x \<in> set (f n) \<Longrightarrow> ix (fst x) = n" using Suc.prems by simp_all
  have split: "concat (map f [0..<Suc n]) = ?xs @ f n" by simp
  have "x \<noteq> y" if "x \<in> fst ` set ?xs" "y \<in> fst ` set (f n)" for x y using that IH(2) n(2) by force
  then have "distinct (map fst (?xs @ f n))" using IH(1) n(1) by auto
  moreover have "\<forall>x\<in>set (?xs @ f n). ix (fst x) < Suc n" using IH(2) n(2) less_SucI by (simp only: set_append) blast
  ultimately show ?case unfolding split ..
qed simp

definition all_entries :: "Server \<Rightarrow> (u64 \<times> TableEntry) list" where
  "all_entries s = concat (map (snapshot_shard (sv_table s)) [0..<length (sv_table s)])"

lemma all_entries:
  assumes "server_ok s"
  shows "distinct (map fst (all_entries s))" "(h, e) \<in> set (all_entries s) \<longleftrightarrow> sharded_map (sv_table s) h = Some e"
proof -
  let ?t = "sv_table s"
  have inv: "length ?t = NUM_SHARDS" "\<And>i. i < NUM_SHARDS \<Longrightarrow> table_inv (?t ! i)"
      "\<And>i k. i < NUM_SHARDS \<Longrightarrow> k \<in> dom (table_map (?t ! i)) \<Longrightarrow> shard_idx k = i"
    using assms by (auto simp: server_ok_def shards_inv_def)
  have live: "live_entries (?t ! i) = slot_pairs (ctrl (?t ! i)) (entries (?t ! i))" "distinct (map fst (live_entries (?t ! i)))"
    if "i < NUM_SHARDS" for i
  proof -
    show "live_entries (?t ! i) = slot_pairs (ctrl (?t ! i)) (entries (?t ! i))"
      using live_pairs_enumerate [of "ctrl (?t ! i)" "entries (?t ! i)" 0] table_invD [OF inv(2) [OF that]] by (simp add: live_entries_def)
    then show "distinct (map fst (live_entries (?t ! i)))" using slot_pairs_distinct [OF table_invD(1) [OF inv(2) [OF that]]] by simp
  qed
  have mem: "(h, e) \<in> set (live_entries (?t ! i)) \<longleftrightarrow> table_map (?t ! i) h = Some e" if "i < NUM_SHARDS" for i h e
    using live(2) [OF that] by (simp add: table_map_def)
  have ix: "shard_idx (fst x) = i" if "i < NUM_SHARDS" "x \<in> set (live_entries (?t ! i))" for i x
    using mem [OF that(1), of "fst x" "snd x"] that inv(3) by (simp add: domI)
  have shard: "snapshot_shard ?t i = live_entries (?t ! i)" if "i < NUM_SHARDS" for i using that inv(1) by (simp add: snapshot_shard_def)
  show "distinct (map fst (all_entries s))"
    unfolding all_entries_def using concat_shards [of "length ?t" "snapshot_shard ?t" shard_idx] live(2) ix shard inv(1) by simp
  have "(h, e) \<in> set (all_entries s) \<longleftrightarrow> (\<exists>i<NUM_SHARDS. table_map (?t ! i) h = Some e)"
    using mem shard inv(1) by (auto simp: all_entries_def)
  also have "\<dots> \<longleftrightarrow> sharded_map ?t h = Some e"
    unfolding shards_map_def using inv(3) shard_idx_less [of h] by (metis domI)
  finally show "(h, e) \<in> set (all_entries s) \<longleftrightarrow> sharded_map ?t h = Some e" .
qed

lemma kv_items_entries: "kv_items now s = concat (map (kv_item_of now s) (all_entries s))"
  by (simp add: kv_items_def all_entries_def)

text \<open>What an entry is saved as.\<close>

definition saved_value :: "Cell \<Rightarrow> bytes" where
  "saved_value c = (if cell_type c = VALUE_TYPE_HASH then encode_pairs (cell_value c) else cell_value c)"

lemma kv_item_of_cell:
  assumes ok: "server_ok s" and e: "sharded_map (sv_table s) h = Some e"
  shows "kv_item_of now s (h, e) =
    (case visible_cell now (contents s h) of None \<Rightarrow> [] | Some c \<Rightarrow> [(h, cell_type c, saved_value c, cell_expire c)])"
proof -
  have heap: "heap_ok (sv_core s) (sharded_map (sv_table s))" using ok by (simp add: server_ok_def)
  obtain p where p: "resolve_slot_ptr (te_slab_block_id e) (snd (sv_core s)) = Some p" by (rule heap_ok_resolves [OF heap e])
  have "(now \<noteq> 0 \<and> te_expire_at_secs e \<noteq> 0 \<and> te_expire_at_secs e \<le> now) = (te_expire_at_secs e > 0 \<and> now > 0 \<and> now \<ge> te_expire_at_secs e)"
    by (auto simp: word_neq_0_conv)
  then show ?thesis using e p
    by (simp add: kv_item_of_def contents_def cells_def cell_of_def cell_expired_def saved_value_def Let_def)
qed

lemma stored_sizes:
  assumes ok: "server_ok s" and c: "contents s h = Some c"
  shows "MEGASLAB_HEADER_BYTES + length (cell_value c) \<le> MEGASLAB_BYTES"
proof -
  have heap: "heap_ok (sv_core s) (sharded_map (sv_table s))" using ok by (simp add: server_ok_def)
  obtain e where e: "sharded_map (sv_table s) h = Some e" "c = cell_of (sv_core s) (sv_mem s) e"
    using c by (auto simp: contents_def cells_def)
  obtain p where p: "resolve_slot_ptr (te_slab_block_id e) (snd (sv_core s)) = Some p" by (rule heap_ok_resolves [OF heap e(1)])
  have "length (cell_value c) = unat (te_value_len e)" using e(2) p by (simp add: cell_of_def)
  then show ?thesis using heap_okD(4) [OF heap e(1)] by (auto simp: fits_def slot_offset_def)
qed

lemma saved_value_small:
  assumes ok: "server_ok s" and hok: "hashes_ok hk (contents s)" and c: "contents s h = Some c"
  shows "length (saved_value c) < 2 ^ 32"
proof (cases "cell_type c = VALUE_TYPE_HASH")
  case False
  then show ?thesis using stored_sizes [OF ok c] by (simp add: saved_value_def geometry)
next
  case True
  then have hc: "hash_cell_ok hk c" using hashes_okD [OF hok c] by simp
  then have fo: "hash_frame_ok hk (cell_value c)" by (simp add: hash_cell_ok_def)
  then obtain live k pend dead where fr: "frame_at hk (cell_value c) live k pend dead" by (auto simp: hash_frame_ok_def)
  let ?ps = "iter_pairs (cell_value c)"
  have "length (concat (map encode_pair ps)) = 4 * length ps + (\<Sum>p\<leftarrow>ps. pair_bytes p)" for ps
    by (induction ps) (simp_all add: encode_pair_def)
  then have len: "length (saved_value c) = 2 + 4 * length ?ps + (\<Sum>p\<leftarrow>?ps. pair_bytes p)"
    using True saved_hash(1) [OF fo] by (simp add: saved_value_def)
  have "(\<Sum>p\<leftarrow>?ps. pair_bytes p) \<le> length (cell_value c)"
    using live_pairs_facts(2) [OF fr] iter_pairs_live(1) [OF fr] frame_atD(8,14) [OF fr] by simp
  moreover have "length (cell_value c) \<le> 4096" using hc hash_classD(2) by (fastforce simp: hash_cell_ok_def)
  ultimately show ?thesis using saved_hash(2) [OF fo] True by (simp add: len)
qed

section \<open>Restoring all keys\<close>

fun comes_back :: "(bytes \<Rightarrow> u64) \<Rightarrow> Cell option \<Rightarrow> Cell option \<Rightarrow> bool" where
  "comes_back hk None y \<longleftrightarrow> y = None"
| "comes_back hk (Some c) y \<longleftrightarrow>
     (if cell_type c = VALUE_TYPE_HASH
      then y = None \<and> unrestorable hk (cell_value c) \<or>
        (\<exists>v. y = Some (hash_cell v (cell_expire c)) \<and> hash_cell_ok hk (hash_cell v (cell_expire c)) \<and> frame_map v = frame_map (cell_value c))
      else y = Some (string_cell (cell_value c) (cell_expire c)))"

text \<open>Every key that is restored finds room.\<close>

fun restore_ready :: "Env \<Rightarrow> kv_item list \<Rightarrow> Server \<Rightarrow> bool" where
  "restore_ready env [] r = True"
| "restore_ready env (item # items) r \<longleftrightarrow> roomy env r \<and>
     (\<forall>r' k. restore_kv env item r = Some (r', Ok k) \<longrightarrow> restore_ready env items r')"

lemma restore_kv_step:
  assumes ok: "server_ok s" and hok: "hashes_ok (hash_key env) (contents s)" and c: "contents s h = Some c"
    and r: "server_ok r" "roomy env r"
  shows "\<exists>r' k. restore_kv env (h, cell_type c, saved_value c, cell_expire c) r = Some (r', Ok k) \<and> server_ok r' \<and>
    (k = 0 \<and> contents r' = contents r \<and> comes_back (hash_key env) (Some c) None \<or>
     k = 1 \<and> (\<exists>c'. contents r' = (contents r)(h \<mapsto> c') \<and> comes_back (hash_key env) (Some c) (Some c')))"
proof (cases "cell_type c = VALUE_TYPE_HASH")
  case False
  from restore_string_step [OF r stored_sizes [OF ok c], of h "cell_expire c"] show ?thesis
    using False by (auto simp: restore_kv_def saved_value_def)
next
  case True
  then have fo: "hash_frame_ok (hash_key env) (cell_value c)" using hashes_okD [OF hok c] by (simp add: hash_cell_ok_def)
  from r fo show ?thesis
  proof (cases rule: restore_hash_step [where h = h and ex = "cell_expire c"])
    case (kept r' v)
    then show ?thesis using True by (intro exI [of _ r'] exI [of _ 1]) (auto simp: restore_kv_def saved_value_def)
  next
    case (lost r')
    then show ?thesis using True by (intro exI [of _ r'] exI [of _ 0]) (simp add: restore_kv_def saved_value_def)
  qed
qed

end
