(* ===== verification/Snapshot_Props.thy ===== *)
theory Snapshot_Props
  imports Snapshot_Restore
begin

text \<open>
  Saving and loading composed: the store that comes out of a snapshot, the order of the key nonces, and a
  file that makes the loader panic.
\<close>

section \<open>Hydration of a saved payload\<close>

definition count_kv :: "Env \<Rightarrow> kv_item \<Rightarrow> nat \<Rightarrow> nat step" where
  "count_kv env item n = andthen (restore_kv env item) (\<lambda>k. ret (n + k))"

lemma hydrate_indexes_more:
  assumes "list_all index_fits ixs"
  shows "hydrate_indexes restore (length ixs + k) n (concat (concat (map index_pieces ixs)) @ rest) =
    andthen (for_each ixs (\<lambda>ix u. restore ix) ()) (\<lambda>_. hydrate_indexes restore k (n + sum_list (map (\<lambda>(_, _, es). length es) ixs)) rest)"
  using assms
proof (induction ixs arbitrary: n)
  case (Cons ix ixs)
  have "read_index (concat (concat (map index_pieces (ix # ixs))) @ rest) = Ok (ix, concat (concat (map index_pieces ixs)) @ rest)"
    using read_index_back [of ix "concat (concat (map index_pieces ixs)) @ rest"] Cons.prems by simp
  then show ?case using Cons
    by (auto simp: read_or_def fun_eq_iff andthen_def case_prod_beta add.assoc split: option.split prod.split outcome.split)
qed (simp add: fun_eq_iff)

lemma hydrate_indexes_back:
  assumes "list_all index_fits ixs"
  shows "hydrate_indexes restore (length ixs) n (concat (concat (map index_pieces ixs)) @ rest) =
    andthen (for_each ixs (\<lambda>ix u. restore ix) ()) (\<lambda>_. ret (Inr (n + sum_list (map (\<lambda>(_, _, es). length es) ixs), rest)))"
  using hydrate_indexes_more [OF assms, of restore 0 n rest] by simp

lemma hydrate_kvs_back:
  assumes "list_all item_fits items"
  shows "hydrate_kvs env 4 (length items) n (concat (concat (map kv_pieces items)) @ rest) =
    andthen (for_each items (count_kv env) n) (\<lambda>m. ret (Inr m))"
  using assms
proof (induction items arbitrary: n)
  case (Cons it items)
  have "read_kv 4 (concat (concat (map kv_pieces (it # items))) @ rest) = Ok (it, concat (concat (map kv_pieces items)) @ rest)"
    using read_kv_back [of it "concat (concat (map kv_pieces items)) @ rest"] Cons.prems by simp
  then show ?case using Cons
    by (auto simp: read_or_def fun_eq_iff andthen_def ret_def count_kv_def split: option.split prod.split outcome.split)
qed (simp add: fun_eq_iff)

lemma hydrate_payload_back:
  assumes ixs: "list_all index_fits ixs" "length ixs < 2 ^ 32" and items: "list_all item_fits items" "length items < 2 ^ 32"
    and vec: "for_each ixs (\<lambda>ix u. restore ix) () r = Some (r1, Ok ())" and kvs: "for_each items (count_kv env) 0 r1 = Some (r', Ok n)"
  shows "hydrate_payload env restore 4 (concat (payload_pieces ixs items)) r =
    Some (r', Ok (Inr (length ixs, sum_list (map (\<lambda>(_, _, es). length es) ixs), n)))"
proof -
  let ?rest = "u32_le (length items) @ concat (concat (map kv_pieces items)) @ []"
  have p: "concat (payload_pieces ixs items) = u32_le (length ixs) @ concat (concat (map index_pieces ixs)) @ ?rest"
    by (simp add: payload_pieces_def)
  have h1: "hydrate_indexes restore (length ixs) 0 (concat (concat (map index_pieces ixs)) @ ?rest) r =
      Some (r1, Ok (Inr (sum_list (map (\<lambda>(_, _, es). length es) ixs), ?rest)))"
    using vec by (simp only: hydrate_indexes_back [OF ixs(1)]) simp
  have h2: "hydrate_kvs env 4 (length items) 0 (concat (concat (map kv_pieces items)) @ []) r1 = Some (r', Ok (Inr n))"
    using kvs by (simp only: hydrate_kvs_back [OF items(1)]) simp
  show ?thesis unfolding p hydrate_payload_def using ixs(2) items(2) h1 h2 by (simp add: Let_def)
qed

lemma for_each_append: "for_each (xs @ ys) f acc = andthen (for_each xs f acc) (for_each ys f)"
  by (induction xs arbitrary: acc) (auto simp: fun_eq_iff andthen_def ret_def split: option.split prod.split outcome.split)

lemma finite_contents:
  assumes "server_ok r"
  shows "finite (dom (contents r))"
proof -
  have "dom (contents r) = dom (sharded_map (sv_table r))" by (auto simp: contents_def cells_def dom_def)
  then show ?thesis using sharded_dom [of "sv_table r"] assms by (simp add: server_ok_def table_map_def finite_dom_map_of)
qed

lemma restore_one_entry:
  assumes ok: "server_ok s" "hashes_ok (hash_key env) (contents s)" and e: "sharded_map (sv_table s) h = Some e"
    and r: "server_ok r" "contents r h = None" "restore_ready env (kv_item_of now s (h, e) @ items) r"
  shows "\<exists>r' k. for_each (kv_item_of now s (h, e)) (count_kv env) n r = Some (r', Ok (n + k)) \<and> server_ok r' \<and>
    restore_ready env items r' \<and> card (dom (contents r')) = card (dom (contents r)) + k \<and> (\<forall>g. g \<noteq> h \<longrightarrow> contents r' g = contents r g) \<and>
    comes_back (hash_key env) (visible_cell now (contents s h)) (contents r' h)"
proof -
  obtain c where c: "contents s h = Some c" using e by (cases "contents s h") auto
  note item = kv_item_of_cell [OF ok(1) e, of now]
  show ?thesis
  proof (cases "visible_cell now (contents s h)")
    case None
    then show ?thesis using r item by (intro exI [of _ r] exI [of _ 0]) (simp add: ret_def del: contents_None)
  next
    case (Some c')
    then have c': "c' = c" using c by (auto split: if_splits)
    let ?it = "(h, cell_type c, saved_value c, cell_expire c)" and ?hk = "hash_key env"
    have it: "kv_item_of now s (h, e) = [?it]" using item Some c' by simp
    have rd: "roomy env r" "\<And>r' k. restore_kv env ?it r = Some (r', Ok k) \<Longrightarrow> restore_ready env items r'"
      using r(3) unfolding it by simp_all
    obtain r1 k where r1: "restore_kv env ?it r = Some (r1, Ok k)" "server_ok r1"
        "k = 0 \<and> contents r1 = contents r \<and> comes_back ?hk (Some c) None \<or>
         k = 1 \<and> (\<exists>c'. contents r1 = (contents r)(h \<mapsto> c') \<and> comes_back ?hk (Some c) (Some c'))"
      using restore_kv_step [OF ok c r(1) rd(1)] by blast
    have "\<forall>g. g \<noteq> h \<longrightarrow> contents r1 g = contents r g" using r1(3) by (auto simp del: contents_None)
    moreover have "comes_back ?hk (visible_cell now (contents s h)) (contents r1 h)"
      unfolding Some c' using r1(3) r(2) by (auto simp del: contents_None comes_back.simps)
    moreover have "card (dom (contents r1)) = card (dom (contents r)) + k"
      using r1(3) r(2) finite_contents [OF r(1)] by (auto simp del: contents_None comes_back.simps simp: domIff)
    moreover have "for_each [?it] (count_kv env) n r = Some (r1, Ok (n + k))"
      using r1(1) by (simp add: count_kv_def andthen_def ret_def)
    ultimately show ?thesis unfolding it using r1(2) rd(2) [OF r1(1)] by blast
  qed
qed

lemma restore_all:
  assumes ok: "server_ok s" "hashes_ok (hash_key env) (contents s)"
    and es: "\<And>h e. (h, e) \<in> set es \<Longrightarrow> sharded_map (sv_table s) h = Some e" "distinct (map fst es)"
    and r: "server_ok r" "\<And>h. h \<in> fst ` set es \<Longrightarrow> contents r h = None" "restore_ready env (concat (map (kv_item_of now s) es)) r"
  shows "\<exists>r' n. for_each (concat (map (kv_item_of now s) es)) (count_kv env) n0 r = Some (r', Ok (n0 + n)) \<and> server_ok r' \<and>
    card (dom (contents r')) = card (dom (contents r)) + n \<and>
    (\<forall>h. if h \<in> fst ` set es then comes_back (hash_key env) (visible_cell now (contents s h)) (contents r' h) else contents r' h = contents r h)"
  using es r
proof (induction es arbitrary: r n0)
  case Nil
  then show ?case by (intro exI [of _ r] exI [of _ 0]) (simp add: ret_def)
next
  case (Cons x es)
  obtain h e where x: "x = (h, e)" by (cases x)
  let ?its = "concat (map (kv_item_of now s) es)" and ?hk = "hash_key env"
  have e: "sharded_map (sv_table s) h = Some e" and absent: "contents r h = None"
    and rd: "restore_ready env (kv_item_of now s (h, e) @ ?its) r"
    using Cons.prems(1,4,5) x by (simp_all del: contents_None)
  obtain r1 k where r1: "for_each (kv_item_of now s (h, e)) (count_kv env) n0 r = Some (r1, Ok (n0 + k))" "server_ok r1"
      "restore_ready env ?its r1" "card (dom (contents r1)) = card (dom (contents r)) + k"
      "\<And>g. g \<noteq> h \<Longrightarrow> contents r1 g = contents r g" "comes_back ?hk (visible_cell now (contents s h)) (contents r1 h)"
    using restore_one_entry [OF ok e Cons.prems(3) absent rd, of n0] by blast
  have new: "h \<notin> fst ` set es" "distinct (map fst es)" using Cons.prems(2) x by simp_all
  have IH1: "\<And>g d. (g, d) \<in> set es \<Longrightarrow> sharded_map (sv_table s) g = Some d" using Cons.prems(1) by simp
  have IH2: "contents r1 g = None" if "g \<in> fst ` set es" for g
    using r1(5) [of g] Cons.prems(4) [of g] that new(1) by (metis image_insert insertCI list.simps(15))
  obtain r' n where r': "for_each ?its (count_kv env) (n0 + k) r1 = Some (r', Ok (n0 + k + n))" "server_ok r'"
      "card (dom (contents r')) = card (dom (contents r1)) + n"
      "\<forall>h. if h \<in> fst ` set es then comes_back ?hk (visible_cell now (contents s h)) (contents r' h) else contents r' h = contents r1 h"
    using Cons.IH [OF IH1 new(2) r1(2) IH2 r1(3), of "n0 + k"] by blast
  have "for_each (concat (map (kv_item_of now s) (x # es))) (count_kv env) n0 r = Some (r', Ok (n0 + (k + n)))"
    using r1(1) r'(1) by (simp add: x for_each_append add.assoc)
  moreover have "contents r' h = contents r1 h" using r'(4) new(1) by simp
  ultimately show ?case using r' r1(4-6)
    by (intro exI [of _ r'] exI [of _ "k + n"]) (auto simp: x simp del: contents_None comes_back.simps)
qed

section \<open>Properties\<close>

lemma and_then_Ok: "and_then x f = Ok y \<longleftrightarrow> (\<exists>a. x = Ok a \<and> f a = Ok y)"
  by (cases x) auto

text \<open>The bytes of a saved snapshot, taken apart again.\<close>

lemma saved_file_opens:
  assumes run: "save_snapshot cr read_file env encryption rng ts ixs now s = Ok (data, stats)"
    and lib: "aead_ok cr" "rng_ok rng" "ts < 2 ^ 64"
  obtains content where "data = content @ u32_le (unat (crc32 env content))" "length content \<ge> 16" "st_bytes_written stats = length data"
    "open_payload cr read_file encryption content = Ok (4, ts, concat (payload_pieces ixs (kv_items now s)))"
proof -
  let ?ps = "payload_pieces ixs (kv_items now s)"
  obtain w0 w1 content n where w: "start_writer cr read_file encryption rng ts = Ok w0" "write_pieces cr ?ps w0 = Ok w1"
      "finish cr w1 = Ok (content, n)" "data = content @ u32_le (unat (crc32 env content))" "st_bytes_written stats = n + 4"
    using run unfolding save_snapshot_def by (auto simp: and_then_Ok)
  obtain pre d where p: "carries cr d pre [] w0" "small_buf w0" "length pre \<ge> 16"
      "\<And>cfg body. d = None \<Longrightarrow> open_payload cr read_file cfg (pre @ body) = Ok (4, ts, body)"
      "\<And>d0 x body. d = Some d0 \<Longrightarrow> length body \<ge> 4 \<Longrightarrow> decrypt_chunks cr d0 body = Ok x \<Longrightarrow>
         open_payload cr read_file encryption (pre @ body) = Ok (4, ts, x)"
    by (rule start_writer_opens [OF w(1) lib(2,3)]) blast
  have car: "carries cr d pre (concat ?ps) w1" using write_pieces_carries [OF p(1) lib(1) w(2)] by simp
  note fin = finish_carries [OF car lib(1) write_pieces_small [OF p(2) w(2)] w(3)]
  show ?thesis
  proof (rule that [OF w(4)])
    show "open_payload cr read_file encryption content = Ok (4, ts, concat ?ps)"
      using fin(2) p(4,5) by (cases d) auto
    show "16 \<le> length content" using fin(2) p(3) by (cases d) auto
    show "st_bytes_written stats = length data" using w(4,5) fin(1) by simp
  qed
qed

lemma load_opened:
  assumes "data = content @ u32_le (unat (crc32 env content))" "length content \<ge> 16" "open_payload cr read_file encryption content = Ok (4, ts, payload)"
    and "hydrate_payload env restore 4 payload r = Some (r', Ok (Inr (a, b, n)))"
  shows "load_snapshot cr read_file env restore encryption data r =
    Some (r', Ok (Inr \<lparr>st_timestamp_sec = ts, st_vector_indexes = a, st_total_vectors = b, st_total_kv_entries = n, st_bytes_written = length data\<rparr>))"
  using assms by (simp add: load_snapshot_def Let_def)

text \<open>\<^bold>\<open>C6.\<close> A snapshot restores the store. Let a server save a snapshot, plain or encrypted, at some second.
Loading the file with the same settings into a server with an empty store succeeds: it hands the
saved vector indexes to the registry in order and with all their entries, reports the number of
restored keys and the size of the file, and ends in a sound state in which every key that was visible when the
snapshot was taken has its value and deadline again, expired keys are absent, and a hash has the same
fields, or is missing because the slot class chosen for it does not take its pairs. This holds for every hash,
checksum and key derivation function and every cipher that opens what it sealed, as long as the
lengths fit into their fields and the new server has room.\<close>

theorem snapshot_restores:
  assumes save: "server_ok s" "hashes_ok (hash_key env) (contents s)"
      "save_snapshot cr read_file env encryption rng ts ixs now s = Ok (data, stats)"
    and lib: "aead_ok cr" "rng_ok rng" "ts < 2 ^ 64"
    and fit: "list_all index_fits ixs" "length ixs < 2 ^ 32" "length (kv_items now s) < 2 ^ 32"
    and vec: "for_each ixs (\<lambda>ix u. restore ix) () r0 = Some (r, Ok ())"
    and new: "server_ok r" "contents r = Map.empty" "restore_ready env (kv_items now s) r"
  shows "\<exists>r'. load_snapshot cr read_file env restore encryption data r0 =
      Some (r', Ok (Inr \<lparr>st_timestamp_sec = ts, st_vector_indexes = length ixs,
        st_total_vectors = sum_list (map (\<lambda>(_, _, es). length es) ixs),
        st_total_kv_entries = card (dom (contents r')), st_bytes_written = length data\<rparr>)) \<and>
    server_ok r' \<and> st_bytes_written stats = length data \<and>
    (\<forall>h. comes_back (hash_key env) (visible_cell now (contents s h)) (contents r' h))"
proof -
  note A = all_entries [OF save(1)]
  obtain content where c: "data = content @ u32_le (unat (crc32 env content))" "length content \<ge> 16" "st_bytes_written stats = length data"
      "open_payload cr read_file encryption content = Ok (4, ts, concat (payload_pieces ixs (kv_items now s)))"
    by (rule saved_file_opens [OF save(3) lib])
  have items: "list_all item_fits (kv_items now s)"
  proof (clarsimp simp: list_all_iff kv_items_entries A(2))
    fix h e a b v ex assume e: "sharded_map (sv_table s) h = Some e" and i: "(a, b, v, ex) \<in> set (kv_item_of now s (h, e))"
    obtain x where x: "visible_cell now (contents s h) = Some x" "v = saved_value x"
      using i unfolding kv_item_of_cell [OF save(1) e] by (cases "visible_cell now (contents s h)") auto
    then have "contents s h = Some x" by (cases "contents s h") (auto split: if_splits)
    then show "item_fits (a, b, v, ex)" using saved_value_small [OF save(1,2)] x(2) by (simp add: item_fits_def)
  qed
  obtain r' n where r': "for_each (kv_items now s) (count_kv env) 0 r = Some (r', Ok n)" "server_ok r'" "card (dom (contents r')) = n"
      "\<And>h. if h \<in> fst ` set (all_entries s) then comes_back (hash_key env) (visible_cell now (contents s h)) (contents r' h) else contents r' h = None"
    using restore_all [OF save(1,2) A(2) [THEN iffD1] A(1) new(1), of now 0] new(2,3) unfolding kv_items_entries by auto
  have "comes_back (hash_key env) (visible_cell now (contents s h)) (contents r' h)" for h
  proof (cases "contents s h")
    case None
    then have "h \<notin> fst ` set (all_entries s)" using A(2) [of h] by force
    then show ?thesis using r'(4) [of h] None by (simp del: contents_None)
  next
    case (Some x)
    then obtain e where "(h, e) \<in> set (all_entries s)" using A(2) by (auto simp: contents_def cells_def)
    then have "h \<in> fst ` set (all_entries s)" by force
    then show ?thesis using r'(4) [of h] by (simp only: if_True)
  qed
  then show ?thesis
    using load_opened [OF c(1,2,4) hydrate_payload_back [OF fit(1,2) items fit(3) vec r'(1)]] r'(2,3) c(3) by auto
qed


text \<open>A cipher for examples: it appends a tag of zeroes.\<close>

definition toy_crypto :: Crypto where
  "toy_crypto = \<lparr>hkdf = \<lambda>salt secret. Some (replicate 32 7), seal_in_place = \<lambda>suite key nonce aad p. Some (p @ replicate TAG_LEN 0),
     open_in_place = \<lambda>suite key nonce aad c. Some (take (length c - TAG_LEN) c)\<rparr>"

definition toy_config :: SnapshotEncryptionConfig where
  "toy_config = \<lparr>sec_enabled = True, sec_cipher = ChaCha20Poly1305, sec_key = Some (ascii ''secret''), sec_key_file = None\<rparr>"

lemma toy_aead: "aead_ok toy_crypto"
  by (simp add: aead_ok_def toy_crypto_def)

lemma write_pieces_short:
  "length (buf @ concat ps) < ENCRYPTION_CHUNK_SIZE \<Longrightarrow>
    write_pieces cr ps (Encrypted e buf out n) = Ok (Encrypted e (buf @ concat ps) out n)"
  by (induction ps arbitrary: buf) (simp_all add: encrypt_full.simps)

lemma toy_start:
  obtains e pre where "start_writer toy_crypto f (Some toy_config) (Some (salt, nonce)) ts = Ok (Encrypted e [] pre (16 + SALT_LEN + NONCE_LEN))"
proof -
  have "derive_key toy_crypto (ascii ''secret'') salt = Ok (replicate 32 7)"
  proof -
    have "trim (ascii ''secret'') = ascii ''secret''" by code_simp
    then show ?thesis by (simp add: derive_key_def toy_crypto_def ascii_def)
  qed
  then have "resolve_key toy_crypto f toy_config salt = Ok (replicate 32 7)" by (simp add: resolve_key_def toy_config_def)
  then show ?thesis using that by (simp add: start_writer_def toy_config_def ChunkCipher_new_def Let_def)
qed

lemma one_item:
  assumes "server_ok s" "contents s = [h \<mapsto> string_cell v 0]"
  shows "kv_items now s = [(h, VALUE_TYPE_STRING, v, 0)]"
proof -
  have vis: "visible_cell now (contents s h) = Some (string_cell v 0)" by (simp add: assms(2) cell_expired_def string_cell_def)
  have "dom (sharded_map (sv_table s)) = dom (contents s)" by (auto simp: contents_def cells_def dom_def)
  then have d: "dom (sharded_map (sv_table s)) = {h}" by (simp add: assms(2))
  then obtain e where e: "sharded_map (sv_table s) h = Some e" by blast
  have only: "g = h \<and> x = e" if "sharded_map (sv_table s) g = Some x" for g x
    using that d e domI [of "sharded_map (sv_table s)" g x] by auto
  have "set (all_entries s) = {(h, e)}"
  proof (rule set_eqI)
    fix y show "y \<in> set (all_entries s) \<longleftrightarrow> y \<in> {(h, e)}"
      using all_entries(2) [OF assms(1), of "fst y" "snd y"] e only [of "fst y" "snd y"] by (cases y) auto
  qed
  moreover have "distinct (all_entries s)" using all_entries(1) [OF assms(1)] by (simp add: distinct_map)
  ultimately have "all_entries s = [(h, e)]" by (cases "all_entries s"; cases "tl (all_entries s)") auto
  then show ?thesis
    using kv_item_of_cell [OF assms(1) e, of now] by (simp add: kv_items_entries vis saved_value_def string_cell_def VALUE_TYPE_STRING_def VALUE_TYPE_HASH_def)
qed

lemma toy_finish: "\<exists>out m. finish toy_crypto (Encrypted e buf pre n) = Ok (out, m)"
  by (cases "buf = []") (simp_all add: encrypt_chunk_def toy_crypto_def)

lemma toy_save:
  assumes "kv_items now s = [(h, VALUE_TYPE_STRING, ascii ''value'', 0)]"
  obtains data stats where "save_snapshot toy_crypto f env (Some toy_config) (Some (salt, nonce)) ts [] now s = Ok (data, stats)"
proof -
  obtain e pre where w: "start_writer toy_crypto f (Some toy_config) (Some (salt, nonce)) ts = Ok (Encrypted e [] pre (16 + SALT_LEN + NONCE_LEN))"
    by (rule toy_start)
  let ?ps = "payload_pieces [] (kv_items now s)"
  have len: "length (concat ?ps) = 30" by (simp add: assms payload_pieces_def kv_pieces_def ascii_def)
  then have "write_pieces toy_crypto ?ps (Encrypted e [] pre n) = Ok (Encrypted e (concat ?ps) pre n)" for n
    using write_pieces_short [of "[]" ?ps] by (simp add: ENCRYPTION_CHUNK_SIZE_def)
  moreover obtain out n where "finish toy_crypto (Encrypted e (concat ?ps) pre (16 + SALT_LEN + NONCE_LEN)) = Ok (out, n)"
    using toy_finish by blast
  ultimately show ?thesis using that w by (simp add: save_snapshot_def)
qed

theorem snapshot_restores_witness:
  "\<exists>s data stats r' st. server_ok s \<and> contents s = [1 \<mapsto> string_cell (ascii ''value'') 0] \<and>
     save_snapshot toy_crypto (\<lambda>_. None) example_env (Some toy_config) (Some (replicate 32 1, replicate 12 2)) 1000 [] 5 s = Ok (data, stats) \<and>
     load_snapshot toy_crypto (\<lambda>_. None) example_env (\<lambda>_. ret ()) (Some toy_config) data (fresh_server None) = Some (r', Ok (Inr st)) \<and>
     st_bytes_written st = length data \<and> contents r' = contents s"
proof -
  let ?v = "ascii ''value''" and ?rng = "Some (replicate 32 1, replicate 12 2)" and ?r = "fresh_server None"
  obtain s where s: "server_ok s" "contents s = [1 \<mapsto> string_cell ?v 0]" by (rule stored_value)
  note items = one_item [OF s, of 5]
  obtain data stats where save: "save_snapshot toy_crypto (\<lambda>_. None) example_env (Some toy_config) ?rng 1000 [] 5 s = Ok (data, stats)"
    by (rule toy_save [OF items])
  have hok: "hashes_ok (hash_key example_env) (contents s)" by (simp add: hashes_ok_def s(2) string_cell_def VALUE_TYPE_STRING_def VALUE_TYPE_HASH_def)
  have rng: "rng_ok ?rng" by (simp add: rng_ok_def SALT_LEN_def NONCE_LEN_def)
  have ready: "restore_ready example_env (kv_items 5 s) ?r"
    by (simp add: items roomy_def fresh_server_ok(2) fresh_alloc_ok fresh_not_refused)
  have "for_each ([] :: index_snapshot list) (\<lambda>ix u. ret ()) () ?r = Some (?r, Ok ())" by (simp add: ret_def)
  from snapshot_restores [OF s(1) hok save toy_aead rng _ _ _ _ this fresh_server_ok(1,3) ready] obtain r' where
    r': "load_snapshot toy_crypto (\<lambda>_. None) example_env (\<lambda>_. ret ()) (Some toy_config) data ?r =
        Some (r', Ok (Inr \<lparr>st_timestamp_sec = 1000, st_vector_indexes = 0, st_total_vectors = 0,
          st_total_kv_entries = card (dom (contents r')), st_bytes_written = length data\<rparr>))"
      "\<forall>h. comes_back (hash_key example_env) (visible_cell 5 (contents s h)) (contents r' h)"
    by (auto simp: items)
  have "contents r' h = contents s h" for h
    using r'(2) [rule_format, of h] by (auto simp: s(2) cell_expired_def string_cell_def VALUE_TYPE_STRING_def VALUE_TYPE_HASH_def simp del: contents_None split: if_splits)
  then have "contents r' = contents s" ..
  then show ?thesis using s save r'(1)
    by (intro exI [of _ s] exI [of _ data] exI [of _ stats] exI [of _ r'] exI [of _ "\<lparr>st_timestamp_sec = 1000, st_vector_indexes = 0,
      st_total_vectors = 0, st_total_kv_entries = card (dom (contents r')), st_bytes_written = length data\<rparr>"]) simp
qed

section \<open>A file that crashes the loader\<close>

definition plain_snapshot :: "(bytes \<Rightarrow> u32) \<Rightarrow> nat \<Rightarrow> bytes \<Rightarrow> bytes" where
  "plain_snapshot crc ts payload =
     (let content = KDB_SNAPSHOT_MAGIC_V4 @ u64_le ts @ u32_le 0 @ payload in content @ u32_le (unat (crc content)))"

lemma load_plain:
  "load_snapshot cr f env restore cfg (plain_snapshot (crc32 env) ts payload) s =
     andthen (hydrate_payload env restore 4 payload) (\<lambda>r. case r of
       Inl e \<Rightarrow> ret (Inl e)
     | Inr (ixs, vs, kvs) \<Rightarrow>
         ret (Inr \<lparr>st_timestamp_sec = from_le (u64_le ts), st_vector_indexes = ixs, st_total_vectors = vs, st_total_kv_entries = kvs,
           st_bytes_written = 20 + length payload\<rparr>)) s"
  by (simp add: plain_snapshot_def load_snapshot_def open_payload_def FLAG_ENCRYPTED_def Let_def)

text \<open>
  Where, in the payload of a snapshot, the byte stands that says whether the entry \<open>e\<close> has a parent key: \<open>e\<close>
  follows the entries \<open>es\<close> in an index of the given name that follows the indexes \<open>ixs\<close>.
\<close>

definition parent_flag_at :: "index_snapshot list \<Rightarrow> bytes \<Rightarrow> VectorEntry list \<Rightarrow> VectorEntry \<Rightarrow> nat" where
  "parent_flag_at ixs name es e =
     4 + length (concat (concat (map index_pieces ixs))) + (10 + length name) + length (concat (concat (map entry_pieces es))) +
     (length (concat (entry_pieces e)) - length (concat (opt_piece 2 (ve_parent_key e))))"

definition entry_head :: "VectorEntry \<Rightarrow> bytes" where
  "entry_head e =
     u16_le (length (ve_key e)) @ ve_key e @ u32_le (length (ve_vector e)) @ concat (map (\<lambda>f. u32_le (unat f)) (ve_vector e)) @
     concat (opt_piece 4 (ve_payload e)) @ u32_le (unat (ve_expire_at_secs e)) @ u64_le (unat (ve_tag_mask e))"

lemma entry_split: "concat (entry_pieces e) = entry_head e @ concat (opt_piece 2 (ve_parent_key e))"
  by (simp add: entry_pieces_def entry_head_def)

lemma read_entry_head:
  assumes "entry_fits e"
  shows "read_entry (entry_head e) = Panic ''index out of bounds''" "read_entry (butlast (entry_head e)) = Err UnexpectedEof"
proof -
  obtain f1 t1 where o1: "concat (opt_piece 4 (ve_payload e)) = f1 # t1" "\<And>rest. read_opt 4 f1 (t1 @ rest) = Ok (ve_payload e, rest)"
    using opt_piece_read assms by (meson entry_fits_def)
  have len: "length (ve_key e) < 2 ^ 16" "length (ve_vector e) < 2 ^ 32" using assms by (simp_all add: entry_fits_def)
  have h: "entry_head e = u16_le (length (ve_key e)) @ ve_key e @ u32_le (length (ve_vector e)) @
      concat (map (\<lambda>f. u32_le (unat f)) (ve_vector e)) @ f1 # t1 @ u32_le (unat (ve_expire_at_secs e)) @ u64_le (unat (ve_tag_mask e))"
    by (simp add: entry_head_def o1(1))
  have "u64_le (unat (ve_tag_mask e)) \<noteq> []" by (simp flip: length_greater_0_conv)
  then have bl: "butlast (entry_head e) = u16_le (length (ve_key e)) @ ve_key e @ u32_le (length (ve_vector e)) @
      concat (map (\<lambda>f. u32_le (unat f)) (ve_vector e)) @ f1 # t1 @ u32_le (unat (ve_expire_at_secs e)) @ butlast (u64_le (unat (ve_tag_mask e)))"
    by (simp add: h butlast_append)
  show "read_entry (entry_head e) = Panic ''index out of bounds''"
    unfolding h read_entry_def by (simp add: Let_def from_le_small len [simplified] mult.commute read_floats_back o1(2))
  show "read_entry (butlast (entry_head e)) = Err UnexpectedEof"
    unfolding bl read_entry_def by (simp add: Let_def from_le_small len [simplified] mult.commute read_floats_back o1(2))
qed

lemma read_entries_fail:
  assumes "list_all entry_fits es"
  shows "read_entry src = Panic m \<Longrightarrow> read_entries (length es + Suc k) (concat (concat (map entry_pieces es)) @ src) = Panic m"
    "read_entry src = Err x \<Longrightarrow> read_entries (length es + Suc k) (concat (concat (map entry_pieces es)) @ src) = Err x"
  using assms by (induction es) (simp_all add: read_entry_back)

lemma read_index_fail:
  assumes "length name < 2 ^ 16" "d < 2 ^ 32" "length es + Suc k < 2 ^ 32" "list_all entry_fits es"
  defines "front \<equiv> u16_le (length name) @ name @ u32_le d @ u32_le (length es + Suc k) @ concat (concat (map entry_pieces es))"
  shows "read_entry src = Panic m \<Longrightarrow> read_index (front @ src) = Panic m" "read_entry src = Err x \<Longrightarrow> read_index (front @ src) = Err x"
  using assms(1-3) read_entries_fail [OF assms(4), of src _ k]
  unfolding front_def read_index_def by (simp_all add: Let_def from_le_small del: add_Suc_right)

text \<open>\<^bold>\<open>C22.\<close> The byte that says whether an entry has a parent key is read without a length check. Take the
payload of any unencrypted snapshot whose lengths fit their fields, and any entry of it; cut just before
that byte of the entry and given a valid checksum, the file makes \<open>load_snapshot\<close> panic after it has
restored the indexes before the entry's, with every checksum function and every setting. The file cut one
byte earlier is refused with an error. Hypothesis: these indexes are restored without a failure.\<close>

theorem loader_panics:
  fixes restore ixs name dim es e es' ixs' items
  defines "payload \<equiv> concat (payload_pieces (ixs @ (name, dim, es @ e # es') # ixs') items)"
    and "n \<equiv> parent_flag_at ixs name es e"
  assumes fits: "list_all index_fits (ixs @ (name, dim, es @ e # es') # ixs')" "length (ixs @ (name, dim, es @ e # es') # ixs') < 2 ^ 32"
    and before: "for_each ixs (\<lambda>ix u. restore ix) () s = Some (s1, Ok ())"
  shows "payload ! n = (if ve_parent_key e = None then 0 else 1) \<and>
    load_snapshot cr f env restore cfg (plain_snapshot (crc32 env) ts (take n payload)) s = Some (s1, Panic ''index out of bounds'') \<and>
    load_snapshot cr f env restore cfg (plain_snapshot (crc32 env) ts (take (n - 1) payload)) s = Some (s1, Ok (Inl UnexpectedEof))"
proof -
  let ?d = "case dim of Some d \<Rightarrow> d | None \<Rightarrow> 0" and ?N = "length ixs + Suc (length ixs')"
  let ?front = "u16_le (length name) @ name @ u32_le ?d @ u32_le (length es + Suc (length es')) @ concat (concat (map entry_pieces es))"
  let ?ixs = "concat (concat (map index_pieces ixs))" and ?flag = "concat (opt_piece 2 (ve_parent_key e))"
  let ?pre = "u32_le ?N @ ?ixs @ ?front @ entry_head e"
  let ?rest = "concat (concat (map entry_pieces es')) @ concat (concat (map index_pieces ixs')) @ u32_le (length items) @ concat (concat (map kv_pieces items))"
  have p: "payload = ?pre @ ?flag @ ?rest" by (simp add: payload_def payload_pieces_def entry_split)
  have n: "n = length ?pre" by (simp add: n_def parent_flag_at_def entry_split)
  have ne: "entry_head e \<noteq> []" by (simp add: entry_head_def flip: length_greater_0_conv)
  have cut: "take n payload = u32_le ?N @ ?ixs @ (?front @ entry_head e)"
      "take (n - 1) payload = u32_le ?N @ ?ixs @ (?front @ butlast (entry_head e))"
    unfolding p n using ne by (simp_all add: butlast_conv_take take_append Suc_le_eq flip: length_greater_0_conv)
  have N: "?N < 2 ^ 32" using fits(2) by simp
  have F: "length name < 2 ^ 16" "?d < 2 ^ 32" "length es + Suc (length es') < 2 ^ 32" "list_all entry_fits es" "entry_fits e" "list_all index_fits ixs"
    using fits(1) by (auto split: option.split)
  note R = read_index_fail [OF F(1-4)] and H = read_entry_head [OF F(5)]
  have h: "hydrate_payload env restore 4 (u32_le ?N @ ?ixs @ src) s = (case read_index src of
      Panic m \<Rightarrow> Some (s1, Panic m) | Err x \<Rightarrow> Some (s1, Ok (Inl x)) | Ok _ \<Rightarrow> hydrate_payload env restore 4 (u32_le ?N @ ?ixs @ src) s)" for src
    unfolding hydrate_payload_def using N before
    by (simp add: hydrate_indexes_more [OF F(6)] from_le_small Let_def read_or_def andthen_def ret_def del: add_Suc_right split: outcome.split)
  have "payload ! n = ?flag ! 0" unfolding p n by (cases "ve_parent_key e") (simp_all add: nth_append)
  then have "payload ! n = (if ve_parent_key e = None then 0 else 1)" by (cases "ve_parent_key e") simp_all
  then show ?thesis unfolding cut load_plain
    using h [of "?front @ entry_head e", unfolded R(1) [OF H(1)]] h [of "?front @ butlast (entry_head e)", unfolded R(2) [OF H(2)]]
    by (simp add: andthen_def ret_def)
qed

theorem loader_panics_witness:
  "load_snapshot toy_crypto (\<lambda>_. None) example_env (\<lambda>_. ret ()) None
     (plain_snapshot (crc32 example_env) 1000 (u32_le 1 @ u16_le 1 @ [9] @ u32_le 0 @ u32_le 1 @ u16_le 1 @ [5] @ u32_le 0 @ [0] @ u32_le 0 @ u64_le 3))
     (fresh_server None) = Some (fresh_server None, Panic ''index out of bounds'')"
proof -
  let ?e = "\<lparr>ve_key = [5], ve_vector = [], ve_payload = None, ve_expire_at_secs = 0, ve_tag_mask = 3, ve_parent_key = Some [7]\<rparr>"
  have fit: "list_all index_fits ([] @ ([9], None, [] @ ?e # []) # [])" by (simp add: entry_fits_def)
  have "parent_flag_at [] [9] [] ?e = 35" by (simp add: parent_flag_at_def entry_pieces_def)
  then show ?thesis
    using loader_panics [OF fit, of "\<lambda>_. ret ()" "fresh_server None" "fresh_server None" "[]" toy_crypto "\<lambda>_. None" example_env None 1000]
    by (simp add: payload_pieces_def entry_pieces_def ret_def)
qed

end
