(* ===== verification/Vector_Props.thy ===== *)
theory Vector_Props
  imports Vector_Index
begin

text \<open>
  The flat index as a map from keys to entries: insertion and deletion are updates of the map at one key,
  search finds the best matches in it, and a registry restored from its snapshot has the same maps.
\<close>

section \<open>The index as a map\<close>

definition index_ok :: "VectorIndex \<Rightarrow> bool" where
  "index_ok ix \<longleftrightarrow> (\<forall>k i. key_map ix k = Some i \<longleftrightarrow> i < length (vx_entries ix) \<and> (\<exists>e. vx_entries ix ! i = Some e \<and> ve_key e = k))"

definition index_map :: "VectorIndex \<Rightarrow> bytes \<rightharpoonup> VectorEntry" where
  "index_map ix k = (case key_map ix k of Some i \<Rightarrow> vx_entries ix ! i | None \<Rightarrow> None)"

lemma index_okD:
  assumes "index_ok ix"
  shows "key_map ix k = Some i \<Longrightarrow> i < length (vx_entries ix) \<and> (\<exists>e. vx_entries ix ! i = Some e \<and> ve_key e = k)"
    "i < length (vx_entries ix) \<Longrightarrow> vx_entries ix ! i = Some e \<Longrightarrow> key_map ix (ve_key e) = Some i"
  using assms by (auto simp: index_ok_def)

lemma index_map_Some:
  assumes "index_ok ix"
  shows "index_map ix k = Some e \<longleftrightarrow> Some e \<in> set (vx_entries ix) \<and> ve_key e = k"
proof
  assume "index_map ix k = Some e"
  then obtain i where "key_map ix k = Some i" "vx_entries ix ! i = Some e" by (auto simp: index_map_def split: option.splits)
  then show "Some e \<in> set (vx_entries ix) \<and> ve_key e = k" using index_okD(1) [OF assms, of k i] nth_mem [of i "vx_entries ix"] by auto
next
  assume "Some e \<in> set (vx_entries ix) \<and> ve_key e = k"
  then show "index_map ix k = Some e" using index_okD(2) [OF assms] by (fastforce simp: index_map_def in_set_conv_nth)
qed

lemma index_cong:
  assumes "key_map ix' = key_map ix" "vx_entries ix' = vx_entries ix"
  shows "index_ok ix' = index_ok ix" "index_map ix' = index_map ix"
  unfolding index_ok_def index_map_def assms by simp_all

lemma new_index_ok [simp]: "index_ok (VectorIndex_new name)" "index_map (VectorIndex_new name) = Map.empty"
  by (auto simp: index_ok_def index_map_def VectorIndex_new_def fun_eq_iff)

lemma free_slot_cases:
  "free_slot xs < length xs \<and> xs ! free_slot xs = None \<or> free_slot xs = length xs \<and> None \<notin> set xs"
  by (induction xs rule: free_slot.induct) auto

text \<open>Putting an entry into a slot that holds nothing, or an entry of the same key.\<close>

lemma place_entry:
  assumes ok: "index_ok ix" and i: "i < length (vx_entries ix)"
    and slot: "vx_entries ix ! i = None \<and> key_map ix (ve_key e) = None \<or> key_map ix (ve_key e) = Some i"
  defines "ix' \<equiv> ix\<lparr>vx_entries := (vx_entries ix)[i := Some e], key_map := (key_map ix)(ve_key e \<mapsto> i)\<rparr>"
  shows "index_ok ix'" "index_map ix' = (index_map ix)(ve_key e \<mapsto> e)"
proof -
  note D = index_okD [OF ok]
  have other: "ve_key d \<noteq> ve_key e \<and> key_map ix (ve_key d) \<noteq> Some i" if "j < length (vx_entries ix)" "vx_entries ix ! j = Some d" "j \<noteq> i" for j d
    using D(2) [OF that(1,2)] slot that(3) by auto
  show ok': "index_ok ix'"
    unfolding index_ok_def
  proof (intro allI)
    fix k j
    show "key_map ix' k = Some j \<longleftrightarrow> j < length (vx_entries ix') \<and> (\<exists>e. vx_entries ix' ! j = Some e \<and> ve_key e = k)"
      using D(1) [of k j] D(1) [of "ve_key e" i] D(2) [of j] other i slot by (cases "j = i"; cases "k = ve_key e") (auto simp: ix'_def nth_list_update)
  qed
  show "index_map ix' = (index_map ix)(ve_key e \<mapsto> e)"
  proof
    fix k show "index_map ix' k = ((index_map ix)(ve_key e \<mapsto> e)) k"
      using D(1) [of k i] D(1) [of "ve_key e" i] slot i by (cases "k = ve_key e") (auto simp: ix'_def index_map_def nth_list_update split: option.split)
  qed
qed

lemma append_entry:
  assumes ok: "index_ok ix" and new: "key_map ix (ve_key e) = None"
  defines "ix' \<equiv> ix\<lparr>vx_entries := vx_entries ix @ [Some e], key_map := (key_map ix)(ve_key e \<mapsto> length (vx_entries ix))\<rparr>"
  shows "index_ok ix'" "index_map ix' = (index_map ix)(ve_key e \<mapsto> e)"
proof -
  note D = index_okD [OF ok]
  show "index_ok ix'"
    unfolding index_ok_def
  proof (intro allI)
    fix k j
    show "key_map ix' k = Some j \<longleftrightarrow> j < length (vx_entries ix') \<and> (\<exists>e. vx_entries ix' ! j = Some e \<and> ve_key e = k)"
      using D(1) [of k j] D(2) [of j] new by (cases "j = length (vx_entries ix)"; cases "k = ve_key e") (auto simp: ix'_def nth_append)
  qed
  show "index_map ix' = (index_map ix)(ve_key e \<mapsto> e)"
  proof
    fix k show "index_map ix' k = ((index_map ix)(ve_key e \<mapsto> e)) k"
      using D(1) [of k] by (cases "k = ve_key e") (auto simp: ix'_def index_map_def nth_append split: option.split)
  qed
qed

text \<open>The slot that an entry of the key goes to: its own, else the first tombstone, else a new one at the end.\<close>

definition entry_slot :: "bytes \<Rightarrow> VectorIndex \<Rightarrow> nat \<Rightarrow> bool" where
  "entry_slot key ix i \<longleftrightarrow>
     (if index_map ix key \<noteq> None then i < length (vx_entries ix) \<and> vx_entries ix ! i = index_map ix key
      else i \<le> length (vx_entries ix) \<and> None \<notin> set (take i (vx_entries ix)) \<and>
        (i < length (vx_entries ix) \<longrightarrow> vx_entries ix ! i = None))"

lemma free_slot_first: "None \<notin> set (take (free_slot xs) xs)"
  by (induction xs rule: free_slot.induct) auto

lemma put_entry_map:
  assumes "index_ok ix"
  shows "\<exists>ix'. put_entry e ix = (ix', Ok ()) \<and> index_ok ix' \<and> index_map ix' = (index_map ix)(ve_key e \<mapsto> e) \<and>
    dimension ix' = dimension ix \<and> vx_name ix' = vx_name ix \<and>
    (\<exists>i. entry_slot (ve_key e) ix i \<and> vx_entries ix' = take i (vx_entries ix) @ Some e # drop (Suc i) (vx_entries ix))"
proof (cases "key_map ix (ve_key e)")
  case (Some i)
  have i: "i < length (vx_entries ix)" using index_okD(1) [OF assms Some] by simp
  have "(key_map ix)(ve_key e \<mapsto> i) = key_map ix" using Some by auto
  moreover have "entry_slot (ve_key e) ix i"
    using index_okD(1) [OF assms Some] Some by (auto simp: entry_slot_def index_map_def)
  ultimately show ?thesis using place_entry [OF assms i, of e] Some i by (auto simp: put_entry_def upd_conv_take_nth_drop)
next
  case None
  then have new: "index_map ix (ve_key e) = None" by (simp add: index_map_def)
  let ?i = "free_slot (vx_entries ix)"
  have slot: "entry_slot (ve_key e) ix ?i"
    using free_slot_cases [of "vx_entries ix"] free_slot_first [of "vx_entries ix"] new by (auto simp: entry_slot_def)
  from free_slot_cases [of "vx_entries ix"] show ?thesis
  proof
    assume s: "?i < length (vx_entries ix) \<and> vx_entries ix ! ?i = None"
    then show ?thesis using place_entry [OF assms, of ?i e] None slot
      by (auto simp: put_entry_def Let_def upd_conv_take_nth_drop)
  next
    assume "?i = length (vx_entries ix) \<and> None \<notin> set (vx_entries ix)"
    then show ?thesis using append_entry [OF assms None] None slot by (auto simp: put_entry_def Let_def)
  qed
qed

lemma restore_entry_map:
  assumes "index_ok ix"
  shows "index_ok (restore_entry e ix)" "index_map (restore_entry e ix) = (index_map ix)(ve_key e \<mapsto> e)"
    "dimension (restore_entry e ix) = (if dimension ix = None then Some (length (ve_vector e)) else dimension ix)"
    "vx_name (restore_entry e ix) = vx_name ix"
proof -
  define ix1 where "ix1 = (if dimension ix = None then ix\<lparr>dimension := Some (length (ve_vector e))\<rparr> else ix)"
  have same: "key_map ix1 = key_map ix" "vx_entries ix1 = vx_entries ix" by (simp_all add: ix1_def)
  have ix1: "index_ok ix1" "index_map ix1 = index_map ix" using assms index_cong [OF same] by simp_all
  have run: "restore_entry e ix = (case key_map ix1 (ve_key e) of
      Some idx \<Rightarrow> if idx < length (vx_entries ix1) then ix1\<lparr>vx_entries := (vx_entries ix1)[idx := Some e]\<rparr>
        else ix1\<lparr>vx_entries := vx_entries ix1 @ [Some e], key_map := (key_map ix1)(ve_key e \<mapsto> length (vx_entries ix1))\<rparr>
    | None \<Rightarrow> ix1\<lparr>vx_entries := vx_entries ix1 @ [Some e], key_map := (key_map ix1)(ve_key e \<mapsto> length (vx_entries ix1))\<rparr>)"
    by (simp only: restore_entry_def ix1_def Let_def)
  have "index_ok (restore_entry e ix) \<and> index_map (restore_entry e ix) = (index_map ix1)(ve_key e \<mapsto> e)"
  proof (cases "key_map ix1 (ve_key e)")
    case (Some i)
    have i: "i < length (vx_entries ix1)" using index_okD(1) [OF ix1(1) Some] by simp
    have "(key_map ix1)(ve_key e \<mapsto> i) = key_map ix1" using Some by auto
    then show ?thesis using place_entry [OF ix1(1) i, of e] Some i by (simp add: run)
  next
    case None
    then show ?thesis using append_entry [OF ix1(1) None] by (simp add: run)
  qed
  then show "index_ok (restore_entry e ix)" "index_map (restore_entry e ix) = (index_map ix)(ve_key e \<mapsto> e)" using ix1(2) by simp_all
  show "dimension (restore_entry e ix) = (if dimension ix = None then Some (length (ve_vector e)) else dimension ix)"
    "vx_name (restore_entry e ix) = vx_name ix"
    by (auto simp: run ix1_def split: option.split)
qed

lemma delete_map:
  assumes "index_ok ix"
  shows "index_ok (fst (vector_delete key ix))" "index_map (fst (vector_delete key ix)) = (index_map ix)(key := None)"
    "snd (vector_delete key ix) \<longleftrightarrow> index_map ix key \<noteq> None"
proof -
  note D = index_okD [OF assms]
  have "index_ok (fst (vector_delete key ix)) \<and> index_map (fst (vector_delete key ix)) = (index_map ix)(key := None) \<and>
    (snd (vector_delete key ix) \<longleftrightarrow> index_map ix key \<noteq> None)"
  proof (cases "key_map ix key")
    case None
    then show ?thesis using assms by (auto simp: vector_delete_def index_map_def fun_eq_iff)
  next
    case (Some i)
    obtain e where i: "i < length (vx_entries ix)" "vx_entries ix ! i = Some e" "ve_key e = key" using D(1) [OF Some] by blast
    let ?ix = "ix\<lparr>key_map := (key_map ix)(key := None), vx_entries := (vx_entries ix)[i := None]\<rparr>"
    have run: "vector_delete key ix = (?ix, True)" using Some i by (simp add: vector_delete_def)
    have "key_map ?ix k = Some j \<longleftrightarrow> j < length (vx_entries ?ix) \<and> (\<exists>e. vx_entries ?ix ! j = Some e \<and> ve_key e = k)" for k j
      using D(1) [of k j] D(2) [of j] i Some by (cases "j = i"; cases "k = key") (auto simp: nth_list_update)
    then have "index_ok ?ix" by (simp add: index_ok_def)
    moreover have "index_map ?ix k = ((index_map ix)(key := None)) k" for k
      using D(1) [of k] i by (cases "k = key") (auto simp: index_map_def nth_list_update split: option.split)
    ultimately show ?thesis using run Some i by (auto simp: index_map_def)
  qed
  then show "index_ok (fst (vector_delete key ix))" "index_map (fst (vector_delete key ix)) = (index_map ix)(key := None)"
    "snd (vector_delete key ix) \<longleftrightarrow> index_map ix key \<noteq> None" by simp_all
qed


section \<open>Properties of one index\<close>

text \<open>\<^bold>\<open>C20.\<close> Insertion into the flat index. An empty key, an empty vector and a vector of another dimension are
refused and nothing changes. Otherwise the insertion succeeds, it never panics, the index stays consistent, it
holds the new entry under its key and every other key as before, and the dimension is fixed by the first
vector. The entry is written into one slot and the others stay: the slot the key has, for a new key the
first tombstone, and a slot is added at the end only when there is no tombstone.\<close>

theorem vector_insert_updates:
  assumes "index_ok ix"
  shows "\<exists>ix' r. vector_insert kn key vec payload ttl now tags parent ix = (ix', r) \<and> index_ok ix' \<and>
    (if key = [] then r = Err EmptyKey \<and> ix' = ix
     else if vec = [] then r = Err (DimensionMismatch 1 0) \<and> ix' = ix
     else if dimension ix \<noteq> None \<and> dimension ix \<noteq> Some (length vec)
     then r = Err (DimensionMismatch (the (dimension ix)) (length vec)) \<and> ix' = ix
     else let e = \<lparr>ve_key = key, ve_vector = l2_normalize kn vec, ve_payload = payload,
            ve_expire_at_secs = vector_expire_at ttl now, ve_tag_mask = tags, ve_parent_key = parent\<rparr>
       in r = Ok () \<and> dimension ix' = Some (length vec) \<and> index_map ix' = (index_map ix)(key \<mapsto> e) \<and>
         (\<exists>i. entry_slot key ix i \<and> vx_entries ix' = take i (vx_entries ix) @ Some e # drop (Suc i) (vx_entries ix)))"
proof (cases "key = [] \<or> vec = [] \<or> dimension ix \<noteq> None \<and> dimension ix \<noteq> Some (length vec)")
  case True
  then show ?thesis using assms by (auto simp: vector_insert_def split: option.split)
next
  case False
  let ?e = "\<lparr>ve_key = key, ve_vector = l2_normalize kn vec, ve_payload = payload, ve_expire_at_secs = vector_expire_at ttl now,
    ve_tag_mask = tags, ve_parent_key = parent\<rparr>" and ?ix = "ix\<lparr>dimension := Some (length vec)\<rparr>"
  have "index_ok ?ix" "index_map ?ix = index_map ix" using assms index_cong [of ?ix ix] by simp_all
  moreover from this(2) have "entry_slot key ?ix i = entry_slot key ix i" for i by (simp add: entry_slot_def)
  moreover have "vector_insert kn key vec payload ttl now tags parent ix = put_entry ?e ?ix"
    using False by (auto simp: vector_insert_def split: option.split)
  ultimately show ?thesis using False put_entry_map [of ?ix ?e] by (auto simp: Let_def)
qed

theorem vector_insert_updates_witness:
  "\<exists>ix'. vector_insert \<lparr>l2_normalize = \<lambda>v. v, cosine_similarity_normalized = \<lambda>_ _. 0\<rparr> [1] [F32_ONE] None (Some 5) 7 3 None
       \<lparr>vx_name = [], dimension = None, vx_entries = [None], key_map = Map.empty\<rparr> = (ix', Ok ()) \<and>
     vx_entries ix' = [Some \<lparr>ve_key = [1], ve_vector = [F32_ONE], ve_payload = None, ve_expire_at_secs = 12,
       ve_tag_mask = 3, ve_parent_key = None\<rparr>]"
proof -
  let ?ix = "\<lparr>vx_name = [], dimension = None, vx_entries = [None], key_map = Map.empty\<rparr>"
  have "index_ok ?ix" by (auto simp: index_ok_def)
  moreover have "entry_slot [1] ?ix i \<Longrightarrow> i = 0" for i by (cases i) (auto simp: entry_slot_def index_map_def)
  ultimately show ?thesis
    using vector_insert_updates [of ?ix "\<lparr>l2_normalize = \<lambda>v. v, cosine_similarity_normalized = \<lambda>_ _. 0\<rparr>" "[1]" "[F32_ONE]" None "Some 5" 7 3 None]
    by (fastforce simp: vector_expire_at_def Let_def)
qed

lemma flatten_set: "x \<in> set (flatten xs) \<longleftrightarrow> Some x \<in> set xs"
  by (force simp: flatten_def)

lemma flatten_simps [simp]: "flatten [] = []" "flatten (None # xs) = flatten xs" "flatten (Some x # xs) = x # flatten xs"
  by (simp_all add: flatten_def)

lemma flatten_distinct:
  assumes "index_ok ix"
  shows "distinct (map ve_key (flatten (vx_entries ix)))"
proof -
  have "distinct (map ve_key (flatten xs))" if "\<And>i j e d. i < length xs \<Longrightarrow> j < length xs \<Longrightarrow> xs ! i = Some e \<Longrightarrow> xs ! j = Some d \<Longrightarrow> ve_key e = ve_key d \<Longrightarrow> i = j" for xs
    using that
  proof (induction xs)
    case (Cons x xs)
    have IH: "distinct (map ve_key (flatten xs))"
      by (rule Cons.IH) (use Cons.prems [of "Suc _" "Suc _"] in auto)
    show ?case
    proof (cases x)
      case (Some e)
      have "ve_key e \<noteq> ve_key d" if "Some d \<in> set xs" for d
        using that Cons.prems [of 0 "Suc _" e d] Some by (fastforce simp: in_set_conv_nth)
      then have "ve_key e \<notin> ve_key ` set (flatten xs)" by (auto simp: flatten_set image_iff)
      then show ?thesis using IH Some by simp
    qed (use IH in simp)
  qed simp
  then show ?thesis using index_okD(2) [OF assms] by (metis option.inject)
qed

lemma sorted_split:
  assumes "sorted (map f xs)" "x \<in> set (take n xs)" "y \<in> set (drop n xs)"
  shows "f x \<le> (f y :: int)"
  using assms sorted_append [of "map f (take n xs)" "map f (drop n xs)"] by (simp flip: map_append)

definition hits :: "Kernel \<Rightarrow> f32 list \<Rightarrow> f32 \<Rightarrow> u32 \<Rightarrow> u64 \<Rightarrow> VectorIndex \<Rightarrow> VectorSearchResult set" where
  "hits kn query threshold now tags ix =
     {r. \<exists>k e. index_map ix k = Some e \<and> \<not> entry_expired e now \<and> tags_match tags e \<and>
        r = result_of kn (l2_normalize kn query) e \<and> f32_ge (similarity r) threshold}"

text \<open>\<^bold>\<open>C7.\<close> Search in the flat index. With a positive count, a threshold between -1 and 1 and a query of the
dimension of the index, the search returns, in descending order of similarity and no key twice, the best
matches among the live entries that have all requested tags and reach the threshold: as many as
asked for or all there are, and no match that is left out is more similar than one that is returned. A filter of 0
asks for no tag; an entry whose own mask is 0 matches no other filter, although the comment on
\<open>tag_mask\<close> says that it matches every one. Similarities are
compared as IEEE floats; a similarity that is not a number never matches.\<close>

theorem vector_search_topk:
  assumes ok: "index_ok ix" and dim: "dimension ix = Some (length query)" and k: "0 < top_k"
    and thr: "f32_ge threshold F32_MINUS_ONE" "f32_ge F32_ONE threshold"
  shows "\<exists>rs. vector_search kn query top_k threshold now tags ix = Ok rs \<and>
    distinct (map sr_key rs) \<and> set rs \<subseteq> hits kn query threshold now tags ix \<and>
    length rs = min top_k (card (hits kn query threshold now tags ix)) \<and>
    sorted_wrt (\<lambda>a b. f32_ge (similarity a) (similarity b)) rs \<and>
    (\<forall>r\<in>set rs. \<forall>x\<in>hits kn query threshold now tags ix - set rs. f32_ge (similarity r) (similarity x))"
proof -
  let ?q = "l2_normalize kn query" and ?H = "hits kn query threshold now tags ix" and ?f = "\<lambda>r. - f32_rank (similarity r)"
  define live where "live = filter (\<lambda>e. \<not> entry_expired e now \<and> tags_match tags e) (flatten (vx_entries ix))"
  define scored where "scored = filter (\<lambda>r. f32_ge (similarity r) threshold) (map (result_of kn ?q) live)"
  let ?s = "sort_key ?f scored"
  have run: "vector_search kn query top_k threshold now tags ix = Ok (take top_k ?s)"
    using dim k thr by (simp add: vector_search_def Let_def scored_def live_def)
  have set: "set scored = ?H"
    by (auto simp: hits_def scored_def live_def flatten_set index_map_Some [OF ok])
  have "map sr_key (map (result_of kn ?q) live) = map ve_key live" by (simp add: result_of_def)
  moreover have "distinct (map ve_key live)" using flatten_distinct [OF ok] by (simp add: live_def distinct_map_filter)
  ultimately have "distinct (map sr_key scored)" unfolding scored_def by (metis distinct_map_filter)
  then have dist: "distinct (map sr_key ?s)" by (simp add: distinct_map)
  have len: "length ?s = card ?H" using dist set distinct_card [of ?s] by (simp add: distinct_map)
  have num: "\<not> is_nan (similarity r)" if "r \<in> ?H" for r using that by (auto simp: hits_def f32_ge_def)
  have sorted: "sorted (map ?f ?s)" by simp
  have le: "f32_ge (similarity a) (similarity b)" if "a \<in> ?H" "b \<in> ?H" "?f a \<le> ?f b" for a b
    using that num by (simp add: f32_ge_def)
  have "sorted_wrt (\<lambda>a b. f32_ge (similarity a) (similarity b)) ?s"
    using sorted unfolding sorted_map by (rule sorted_wrt_mono_rel [rotated]) (use le set in auto)
  then have "sorted_wrt (\<lambda>a b. f32_ge (similarity a) (similarity b)) (take top_k ?s)" by (rule sorted_wrt_take)
  moreover have "f32_ge (similarity r) (similarity x)" if "r \<in> set (take top_k ?s)" "x \<in> ?H - set (take top_k ?s)" for r x
  proof (rule le)
    have "x \<in> set (take top_k ?s) \<union> set (drop top_k ?s)" using that(2) set by (simp add: set_append [symmetric] del: set_append)
    then show "?f r \<le> ?f x" using sorted_split [OF sorted that(1)] that(2) by blast
    show "r \<in> ?H" "x \<in> ?H" using that set in_set_takeD [OF that(1)] by auto
  qed
  moreover have "distinct (map sr_key (take top_k ?s))" using dist by (simp add: take_map [symmetric])
  moreover have "set (take top_k ?s) \<subseteq> ?H" using set set_take_subset [of top_k ?s] by auto
  ultimately show ?thesis using run len by auto
qed


theorem vector_search_topk_witness:
  "\<exists>r. vector_search \<lparr>l2_normalize = \<lambda>v. v, cosine_similarity_normalized = \<lambda>_ _. F32_ONE\<rparr> [7] 5 0 100 0
       \<lparr>vx_name = [], dimension = Some 1, vx_entries = [Some \<lparr>ve_key = [1], ve_vector = [F32_ONE], ve_payload = None,
         ve_expire_at_secs = 0, ve_tag_mask = 3, ve_parent_key = None\<rparr>], key_map = [[1] \<mapsto> 0]\<rparr> = Ok [r] \<and> sr_key r = [1] \<and> similarity r = F32_ONE"
proof -
  let ?e = "\<lparr>ve_key = [1], ve_vector = [F32_ONE], ve_payload = None, ve_expire_at_secs = 0, ve_tag_mask = 3, ve_parent_key = None\<rparr>"
  let ?kn = "\<lparr>l2_normalize = \<lambda>v. v, cosine_similarity_normalized = \<lambda>_ _. F32_ONE\<rparr>"
  let ?ix = "\<lparr>vx_name = [], dimension = Some 1, vx_entries = [Some ?e], key_map = [[1] \<mapsto> 0]\<rparr>"
  have ok: "index_ok ?ix" by (auto simp: index_ok_def)
  have thr: "f32_ge 0 F32_MINUS_ONE" "f32_ge F32_ONE 0" by (simp_all add: f32_ge_def is_nan_def f32_rank_def F32_MINUS_ONE_def F32_ONE_def)
  have "hits ?kn [7] 0 100 0 ?ix = {result_of ?kn [7] ?e}"
    using thr(2) by (auto simp: hits_def index_map_def result_of_def entry_expired_def tags_match_def split: if_splits)
  then obtain rs where rs: "vector_search ?kn [7] 5 0 100 0 ?ix = Ok rs" "set rs \<subseteq> {result_of ?kn [7] ?e}" "length rs = 1"
    using vector_search_topk [OF ok _ _ thr, of "[7]" 5 ?kn 100 0] by auto
  then obtain r where "rs = [r]" by (auto simp: length_Suc_conv)
  then show ?thesis using rs by (auto simp: result_of_def)
qed

text \<open>Deletion from the flat index. It reports whether the key was there, removes it and leaves every other key
as it was; the index stays consistent.\<close>

theorem vector_delete_removes:
  assumes "index_ok ix"
  shows "index_ok (fst (vector_delete key ix)) \<and> index_map (fst (vector_delete key ix)) = (index_map ix)(key := None) \<and>
    (snd (vector_delete key ix) \<longleftrightarrow> index_map ix key \<noteq> None)"
  using delete_map [OF assms] by blast

theorem vector_delete_removes_witness: "snd (vector_delete [1] (VectorIndex_new [])) = False"
  using vector_delete_removes [OF new_index_ok(1), of "[1]" "[]"] by simp

section \<open>Snapshots of the registry\<close>

lemma restore_entries:
  assumes "index_ok ix" "distinct (map ve_key es)"
  shows "index_ok (fold restore_entry es ix) \<and>
    (\<forall>k e. index_map (fold restore_entry es ix) k = Some e \<longleftrightarrow>
       e \<in> set es \<and> ve_key e = k \<or> k \<notin> ve_key ` set es \<and> index_map ix k = Some e) \<and>
    (dimension ix \<noteq> None \<longrightarrow> dimension (fold restore_entry es ix) = dimension ix)"
  using assms
proof (induction es arbitrary: ix)
  case (Cons x es)
  note R = restore_entry_map [OF Cons.prems(1), of x]
  have IH: "index_ok (fold restore_entry es (restore_entry x ix))"
      "\<And>k e. index_map (fold restore_entry es (restore_entry x ix)) k = Some e \<longleftrightarrow>
         e \<in> set es \<and> ve_key e = k \<or> k \<notin> ve_key ` set es \<and> index_map (restore_entry x ix) k = Some e"
      "dimension (restore_entry x ix) \<noteq> None \<longrightarrow> dimension (fold restore_entry es (restore_entry x ix)) = dimension (restore_entry x ix)"
    using Cons.IH [OF R(1)] Cons.prems(2) by simp_all
  have "index_map (fold restore_entry es (restore_entry x ix)) k = Some e \<longleftrightarrow>
      e \<in> set (x # es) \<and> ve_key e = k \<or> k \<notin> ve_key ` set (x # es) \<and> index_map ix k = Some e" for k e
    using IH(2) [of k e] Cons.prems(2) unfolding R(2) by (cases "k = ve_key x") auto
  then show ?case using IH(1,3) R(3) by simp
qed simp

lemma restore_snapshot_new:
  assumes "indexes reg name = None" "distinct (map ve_key es)"
  obtains ix where "restore_snapshot (name, dim, es) reg = reg\<lparr>indexes := (indexes reg)(name \<mapsto> ix)\<rparr>" "index_ok ix"
    "\<And>k e. index_map ix k = Some e \<longleftrightarrow> e \<in> set es \<and> ve_key e = k" "dim \<noteq> None \<Longrightarrow> dimension ix = dim"
proof -
  let ?n = "VectorIndex_new (from_utf8_lossy name)"
  define ix1 where "ix1 = (if dim \<noteq> None then ?n\<lparr>dimension := dim\<rparr> else ?n)"
  have ok: "index_ok ix1" "index_map ix1 = Map.empty" using index_cong [of ix1 ?n] by (simp_all add: ix1_def)
  have run: "restore_snapshot (name, dim, es) reg = reg\<lparr>indexes := (indexes reg)(name \<mapsto> fold restore_entry es ix1)\<rparr>"
    using assms(1) by (simp add: restore_snapshot_def get_or_create_def ix1_def Let_def VectorIndex_new_def)
  show ?thesis
    by (rule that [OF run]) (use restore_entries [OF ok(1) assms(2)] ok(2) in \<open>auto simp: ix1_def\<close>)
qed

lemma restore_snapshots:
  assumes "distinct order" "\<And>name. name \<in> set order \<Longrightarrow> indexes reg' name = None \<and> distinct (map ve_key (snd (shot name)))"
  shows "\<exists>new. fold restore_snapshot (map (\<lambda>name. (name, shot name)) order) reg' = reg'\<lparr>indexes := indexes reg' ++ new\<rparr> \<and> dom new = set order \<and>
    (\<forall>name ix. new name = Some ix \<longrightarrow> index_ok ix \<and> (\<forall>k e. index_map ix k = Some e \<longleftrightarrow> e \<in> set (snd (shot name)) \<and> ve_key e = k) \<and>
       (fst (shot name) \<noteq> None \<longrightarrow> dimension ix = fst (shot name)))"
  using assms
proof (induction order arbitrary: reg')
  case Nil
  then show ?case by (intro exI [of _ Map.empty]) simp
next
  case (Cons a order)
  obtain dim es where sh: "shot a = (dim, es)" by (cases "shot a")
  obtain ix where ix: "restore_snapshot (a, dim, es) reg' = reg'\<lparr>indexes := (indexes reg')(a \<mapsto> ix)\<rparr>" "index_ok ix"
      "\<And>k e. index_map ix k = Some e \<longleftrightarrow> e \<in> set es \<and> ve_key e = k" "dim \<noteq> None \<Longrightarrow> dimension ix = dim"
    using restore_snapshot_new [of reg' a es dim] Cons.prems(2) [of a] sh by auto
  let ?r = "reg'\<lparr>indexes := (indexes reg')(a \<mapsto> ix)\<rparr>"
  have prem: "indexes ?r name = None \<and> distinct (map ve_key (snd (shot name)))" if "name \<in> set order" for name
    using Cons.prems that by auto
  have "distinct order" using Cons.prems(1) by simp
  from Cons.IH [OF this prem] obtain new where new: "fold restore_snapshot (map (\<lambda>name. (name, shot name)) order) ?r = ?r\<lparr>indexes := indexes ?r ++ new\<rparr>" "dom new = set order"
      "\<And>name ix. new name = Some ix \<Longrightarrow> index_ok ix \<and> (\<forall>k e. index_map ix k = Some e \<longleftrightarrow> e \<in> set (snd (shot name)) \<and> ve_key e = k) \<and>
         (fst (shot name) \<noteq> None \<longrightarrow> dimension ix = fst (shot name))"
    by blast
  have "a \<notin> dom new" using Cons.prems(1) new(2) by simp
  then have "indexes ?r ++ new = indexes reg' ++ new(a \<mapsto> ix)" by (simp add: map_add_upd_left)
  then have "fold restore_snapshot (map (\<lambda>name. (name, shot name)) (a # order)) reg' = reg'\<lparr>indexes := indexes reg' ++ new(a \<mapsto> ix)\<rparr>"
    using new(1) ix(1) sh by simp
  moreover have "dom (new(a \<mapsto> ix)) = set (a # order)" using new(2) by simp
  moreover have "\<forall>name ix'. (new(a \<mapsto> ix)) name = Some ix' \<longrightarrow> index_ok ix' \<and>
      (\<forall>k e. index_map ix' k = Some e \<longleftrightarrow> e \<in> set (snd (shot name)) \<and> ve_key e = k) \<and>
      (fst (shot name) \<noteq> None \<longrightarrow> dimension ix' = fst (shot name))"
    using new(3) ix(2-4) sh by simp
  ultimately show ?case by blast
qed

text \<open>\<^bold>\<open>C21.\<close> A registry that is restored from its own snapshot has the same flat indexes: the same names, and under each
name exactly the entries that had not expired, complete with vector, payload, tags, parent key and deadline, and the
same dimension. It has no HNSW index, because snapshots leave them out.\<close>

theorem vector_snapshot_restores:
  assumes all: "\<forall>name ix. indexes reg name = Some ix \<longrightarrow> index_ok ix" and order: "distinct order" "set order = dom (indexes reg)"
  shows "\<exists>reg'. fold restore_snapshot (snapshot_all order now reg) (Registry_new :: 'h VectorIndexRegistry) = reg' \<and>
    dom (indexes reg') = dom (indexes reg) \<and> hnsw_indexes reg' = Map.empty \<and>
    (\<forall>name ix ix'. indexes reg name = Some ix \<longrightarrow> indexes reg' name = Some ix' \<longrightarrow> index_ok ix' \<and>
       (dimension ix \<noteq> None \<longrightarrow> dimension ix' = dimension ix) \<and>
       (\<forall>k e. index_map ix' k = Some e \<longleftrightarrow> index_map ix k = Some e \<and> is_active now e))"
proof -
  have ok: "index_ok ix" if "indexes reg name = Some ix" for name ix using all that by blast
  let ?shot = "\<lambda>name. snapshot_entries now (the (indexes reg name))"
  have shot: "distinct (map ve_key (snd (?shot name)))" if "name \<in> set order" for name
    using that ok flatten_distinct order(2) by (auto simp: snapshot_entries_def distinct_map_filter)
  let ?r = "fold restore_snapshot (snapshot_all order now reg) (Registry_new :: 'h VectorIndexRegistry)"
  obtain new where new: "?r = Registry_new\<lparr>indexes := indexes Registry_new ++ new\<rparr>" "dom new = set order"
      "\<And>name ix. new name = Some ix \<Longrightarrow> index_ok ix \<and> (\<forall>k e. index_map ix k = Some e \<longleftrightarrow> e \<in> set (snd (?shot name)) \<and> ve_key e = k) \<and>
         (fst (?shot name) \<noteq> None \<longrightarrow> dimension ix = fst (?shot name))"
    using restore_snapshots [OF order(1), of Registry_new ?shot] shot unfolding snapshot_all_def by (auto simp: Registry_new_def)
  have idx: "indexes ?r = new" "hnsw_indexes ?r = Map.empty" using new(1) by (simp_all add: Registry_new_def)
  have "index_ok ix' \<and> (dimension ix \<noteq> None \<longrightarrow> dimension ix' = dimension ix) \<and>
      (\<forall>k e. index_map ix' k = Some e \<longleftrightarrow> index_map ix k = Some e \<and> is_active now e)"
    if "indexes reg name = Some ix" "new name = Some ix'" for name ix ix'
    using new(3) [OF that(2)] that(1) index_map_Some [OF ok [OF that(1)]] by (auto simp: snapshot_entries_def flatten_set)
  then show ?thesis using idx new(2) order(2) by (intro exI [of _ ?r]) auto
qed

theorem vector_snapshot_restores_witness:
  "\<exists>e d ix'. ve_key e = [5] \<and> ve_key d = [6] \<and>
     indexes (fold restore_snapshot (snapshot_all [[1]] 9
       \<lparr>indexes = [[1] \<mapsto> \<lparr>vx_name = [1], dimension = Some 1, vx_entries = [Some e, None, Some d], key_map = [[5] \<mapsto> 0, [6] \<mapsto> 2]\<rparr>],
        hnsw_indexes = [[2] \<mapsto> ()]\<rparr>) (Registry_new :: unit VectorIndexRegistry)) [1] = Some ix' \<and>
     dimension ix' = Some 1 \<and> index_map ix' [5] = Some e \<and> index_map ix' [6] = None"
proof -
  let ?e = "\<lparr>ve_key = [5], ve_vector = [F32_ONE], ve_payload = None, ve_expire_at_secs = 0, ve_tag_mask = 3, ve_parent_key = None\<rparr>"
  let ?d = "\<lparr>ve_key = [6], ve_vector = [F32_ONE], ve_payload = None, ve_expire_at_secs = 7, ve_tag_mask = 3, ve_parent_key = None\<rparr>"
  define ix where "ix = \<lparr>vx_name = [1], dimension = Some 1, vx_entries = [Some ?e, None, Some ?d], key_map = [[5] \<mapsto> 0, [6] \<mapsto> 2]\<rparr>"
  define reg where "reg = \<lparr>indexes = [[1] \<mapsto> ix], hnsw_indexes = [[2] \<mapsto> ()]\<rparr>"
  have ok: "index_ok ix" by (auto simp: ix_def index_ok_def less_Suc_eq nth_Cons' numeral_3_eq_3 split: if_splits)
  have ix: "index_map ix [5] = Some ?e" "index_map ix [6] = Some ?d" "dimension ix = Some 1" by (simp_all add: ix_def index_map_def)
  have act: "is_active 9 ?e" "\<not> is_active 9 ?d" by (simp_all add: is_active_def)
  have reg: "indexes reg = [[1] \<mapsto> ix]" by (simp add: reg_def)
  have all: "\<forall>name ix. indexes reg name = Some ix \<longrightarrow> index_ok ix" using ok by (auto simp: reg split: if_splits)
  have order: "distinct [[1 :: u8]]" "set [[1]] = dom (indexes reg)" by (simp_all add: reg)
  from vector_snapshot_restores [OF all order, where now = 9] obtain reg' where
      r: "fold restore_snapshot (snapshot_all [[1]] 9 reg) (Registry_new :: unit VectorIndexRegistry) = reg'" "dom (indexes reg') = dom (indexes reg)"
      and R: "\<And>name ix ix'. indexes reg name = Some ix \<Longrightarrow> indexes reg' name = Some ix' \<Longrightarrow>
         (dimension ix \<noteq> None \<longrightarrow> dimension ix' = dimension ix) \<and> (\<forall>k e. index_map ix' k = Some e \<longleftrightarrow> index_map ix k = Some e \<and> is_active 9 e)"
    by blast
  have "[1] \<in> dom (indexes reg')" unfolding r(2) by (simp add: reg)
  then obtain ix' where ix': "indexes reg' [1] = Some ix'" by blast
  have R': "dimension ix' = dimension ix" "index_map ix' k = Some e \<longleftrightarrow> index_map ix k = Some e \<and> is_active 9 e" for k e
    using R [OF _ ix', of ix] by (simp_all add: reg ix(3))
  have "index_map ix' [6] \<noteq> Some x" for x using R'(2) [of "[6]" x] ix(2) act(2) by (metis option.inject)
  then have none: "index_map ix' [6] = None" by (metis option.exhaust)
  have "dimension ix' = Some 1" "index_map ix' [5] = Some ?e" using R' ix act by simp_all
  note facts = this none r(1) [unfolded reg_def ix_def] ix'
  show ?thesis by (rule exI [of _ ?e], rule exI [of _ ?d], rule exI [of _ ix']) (use facts in simp)
qed

end
