(* ===== verification/Spec2Isabelle.thy ===== *)
theory Spec2Isabelle
  imports Worker_Tick Command_Agree Server_Effects Server_Hash_Props Shm_Props Radix_Props Aof_Hashes Snapshot_Props Vector_Props
begin

text \<open>
  KacheDB is an in-memory cache server in Rust that speaks the Redis protocol. A worker thread per
  core runs an event loop. A client's bytes go through the read buffer of its connection and the
  RESP command parser to a handler. Values live in fixed-size slots of 2 MB megaslabs (the slab
  pool), the sharded Swiss table maps the 64-bit hash of a key to its slot, length, expiry and
  type, a timing wheel removes keys whose time has come, and mutations are offered to an
  append-only file. Snapshots save the whole store, plain or encrypted, and a vector index answers
  similarity queries. For LLM inference there are a prefix tree over token sequences, tensor descriptors and
  a shared-memory channel to the inference worker. This library models these parts as HOL functions translated from the source
  and proves that they work, one by one and composed.

  \<^bold>\<open>Conventions.\<close> A step is a function on an explicit state. \<open>Ok\<close>, \<open>Err\<close> and \<open>Panic\<close> (\<open>outcome\<close>, theory
  \<open>Prelude\<close>) are the ways in which a call returns; where a loop of the code may run forever the
  result is an \<open>option\<close> and \<open>None\<close> means that the call does not return. Theorems about such
  functions prove that they return or name the condition. \<open>u8\<close> to \<open>u64\<close> are words, so sums wrap
  as in a release build; \<open>usize\<close> counters and lengths are \<open>nat\<close>, \<open>i64\<close> is \<open>int\<close> with its range
  written out. Operations of one worker are taken one at a time: a shard lock is held for a whole
  table operation, atomics are single steps, and interleavings of several workers are not
  modelled; the shared-memory channel, which exists for two threads, is modelled step by step. Library code is an argument: the key hash (\<open>ahash\<close>), the checksum (\<open>crc32fast\<close>), the
  clock and the addresses that the operating system's allocator returns (\<open>Env\<close>), the result of one
  socket read or write. What is assumed of them is a hypothesis of the theorem.

  \<^bold>\<open>Memory\<close> (\<open>crates/kachedb-core/src\<close>). \<open>Slab\<close>: slab classes and geometry (\<open>slab.rs\<close>). \<open>Registry\<close>:
  block handles and the global arena registry (\<open>registry.rs\<close>, \<open>SlabBlockId\<close> of \<open>arena.rs\<close>). \<open>Arena\<close>:
  one megaslab (\<open>arena.rs\<close>). \<open>Quota\<close>: workload quotas with \<open>f64\<close> rounding (\<open>quota.rs\<close>). \<open>Pool\<close>:
  the pool (\<open>pool.rs\<close>); \<open>Pool_Index\<close>, \<open>Pool_Ops\<close>, \<open>Pool_Correct\<close>, \<open>Pool_Alloc\<close>, \<open>Pool_Run\<close>: its
  invariant, the outcomes of every operation and the states that calls reach. \<open>Allocator_Spec\<close> is
  the contract of an allocator as a locale, interpreted on the arena. \<open>Slab_Memory\<close>: the bytes
  behind the slots; pointers of live slots stay valid and live slots do not overlap.
  \<open>Timing_Wheel\<close>: the wheel as a timeline (\<open>timing_wheel.rs\<close>).

  \<^bold>\<open>Index\<close> (\<open>crates/kachedb-hash/src\<close>). \<open>Hash_Entry\<close> (\<open>entry.rs\<close>), \<open>Swiss_Table\<close> (\<open>table.rs\<close>),
  \<open>Sharded_Table\<close> (\<open>sharded.rs\<close>). \<open>Index_Spec\<close> states each keyed operation as a point operation on a
  map (locale \<open>keyed_op\<close>); \<open>Swiss_Probe\<close>, \<open>Swiss_Slots\<close>, \<open>Swiss_Correct\<close>, \<open>Swiss_Ops\<close>,
  \<open>Swiss_Compact\<close> prove it of the probing code, \<open>Sharded_Table\<close> lifts it to the 256 shards (locale
  \<open>sharded_op\<close>), \<open>Swiss_Churn\<close> holds the properties and the run that leaves a table without an
  empty slot, after which operations on absent keys do not return. \<open>Hash_Frame\<close>: the fields of one hash
  inside a slot (\<open>hash_frame.rs\<close>), byte by byte. \<open>Hash_Ring\<close> is probing with tombstones on an abstract
  ring, \<open>Hash_Dir\<close> and \<open>Hash_Frame_Inv\<close> the byte layout and its invariant, \<open>Hash_Frame_Ops\<close>,
  \<open>Hash_Frame_Upsert\<close>, \<open>Hash_Frame_Grow\<close>, \<open>Hash_Frame_Pass\<close> and \<open>Hash_Frame_Correct\<close> the operations up to
  the mutual recursion of \<open>upsert\<close> and \<open>compact\<close>; \<open>Hash_Fields\<close> states a hash as a finite map of fields
  (locale \<open>field_map\<close>) and interprets it on frames, \<open>Hash_Frame_Props\<close> holds the properties.

  \<^bold>\<open>Protocol\<close> (\<open>crates/kachedb-proto-resp/src\<close>). \<open>Resp_Text\<close>, \<open>Resp_Frame\<close>: numbers, lines, frames,
  the streaming parser and the encoders (\<open>frame.rs\<close>); the loops over elements are instances of the
  locales \<open>element_loop\<close> and \<open>settling_loop\<close>. \<open>Command\<close>, \<open>Command_Parse\<close>, \<open>Command_Frame\<close>: the two
  decoders of \<open>command.rs\<close>; \<open>Command_Agree\<close>: they agree, and the properties.

  \<^bold>\<open>Server\<close> (\<open>crates/kachedb-net/src\<close>). \<open>Server_State\<close>: the state of a handler and its elementary
  steps. \<open>Server_Handlers\<close>: \<open>connection/strings.rs\<close> and \<open>expiry.rs\<close>. \<open>Server_Hashes\<close>: \<open>connection/hashes.rs\<close>;
  \<open>Server_Hash_Store\<close>, \<open>Server_Hash_Spec\<close>, \<open>Server_Hash_Write\<close>, \<open>Server_Hash_Set\<close> and \<open>Server_Hash_Props\<close>
  show what its commands do to the map of cells. \<open>Server_Dispatch\<close>: \<open>admin.rs\<close>,
  authentication and dispatch of \<open>mod.rs\<close>. \<open>Connection_Buffer\<close>: buffers and read loop of \<open>mod.rs\<close>.
  \<open>Server_Heap\<close> and \<open>Server_Store\<close>: the store as a map of cells and the effect of each step on it.
  \<open>Server_Spec\<close>: the string commands on that map and the proof that the handlers implement them.
  \<open>Server_Correct\<close> and \<open>Server_Effects\<close>: the properties. \<open>Worker_Tick\<close>: the once-per-second tick of
  \<open>engine.rs\<close>, which composes wheel, table and pool.

  \<^bold>\<open>Persistence\<close> (\<open>crates/kachedb-server/src\<close>). \<open>Wire_Bytes\<close>, \<open>Aof_Frame\<close>: log frames
  (\<open>aof_encode.rs\<close>, \<open>aof.rs\<close>) and the recovery scan (\<open>aof_recovery.rs\<close>). \<open>Aof_Apply\<close>: what start-up does
  with a recovered frame. \<open>Aof_Recovery\<close>: the log that a run of commands writes and the store that its
  replay rebuilds, end to end; \<open>Aof_Hashes\<close>: the frames of hashes, with exactly the pairs that replay writes.
  \<open>Snapshot_Cipher\<close>: the chunked encryption of snapshots (\<open>crypto.rs\<close>); the AEAD ciphers and HKDF are arguments
  (\<open>Crypto\<close>), of which only that opening undoes sealing is assumed. \<open>Snapshot_File\<close>: writing, chunking and
  loading of a snapshot (\<open>snapshot.rs\<close>). \<open>Snapshot_Format\<close> shows that every record is read back,
  \<open>Snapshot_Restore\<close> what a restored record does to the store, \<open>Snapshot_Props\<close> that loading undoes
  saving, up to keys that do not fit, and that a truncated entry crashes the loader.

  \<^bold>\<open>Vectors\<close> (\<open>crates/kachedb-vector/src/index.rs\<close>). \<open>Vector_Index\<close>: the flat index and the registry of indexes;
  the floating-point kernels (normalisation, dot product) and the HNSW index are arguments, while comparisons of
  similarities follow IEEE order. \<open>Vector_Props\<close>: insertion, deletion and search as operations on a map of
  entries, and the snapshot of the registry.

  \<^bold>\<open>Inference.\<close> \<open>Radix_Tree\<close> (\<open>crates/kachedb-radix/src\<close>): the prefix tree and its versions. \<open>Radix_View\<close>
  reads a tree as a map from block paths to marks and shows what lookup and insertion do to it,
  \<open>Radix_Evict\<close> the search for the least recently used leaf and its removal, \<open>Radix_Props\<close> the properties.
  \<open>Tensor_Descriptor\<close> (\<open>crates/kachedb-proto-tensor/src\<close>): descriptors and payload sizes. \<open>Shm_Channel\<close>
  (\<open>crates/kachedb-shm/src\<close>): the ring and the channel, as operations and as the steps of a producer and a
  consumer whose memory accesses interleave on sequentially consistent memory; \<open>Shm_Props\<close>: order and
  capacity under every interleaving, the queue contract (locale \<open>bounded_queue\<close>), and where the consumer
  stalls.

  \<^bold>\<open>Bounds.\<close> The drain loop of the wheel and the table probes are the only loops that may not end;
  they are \<open>option\<close>-valued, without fuel. The recursion of \<open>upsert\<close> through \<open>compact\<close> carries a depth of
  16; three levels are proved enough on a well-formed frame. The example states of the witnesses use a pool of two
  megaslabs and tables of the smallest capacity.

  \<^bold>\<open>Not modelled.\<close> Sockets, \<open>io_uring\<close>, TLS, threads and core affinity are I/O. The HNSW graph, the quantizer
  and the SIMD kernels of the vector index, the handler of the vector commands and the parsing of the configuration
  are left out; the dispatch and the replay take the handler of vectors as an argument. Frames handed to the log are
  taken to arrive: the code drops one when the channel to the writer is full.

  \<^bold>\<open>Where the code departs from its documentation\<close>, the specification is the documented behaviour and the
  departure is stated in the theorem: STRLEN of a hash (\<open>unguarded_strlen\<close>). A condition that the code does not
  check but relies on is a hypothesis: live handles for \<open>deallocate\<close> (\<open>frees_live\<close>), wheel entries due no earlier
  than they expire (\<open>on_time\<close>), hashes that do not move to a smaller slot class (\<open>moves_down\<close>).

  Below: the properties that span wheel, table and pool.
\<close>

section \<open>A worker with one key\<close>

definition example_entry :: TableEntry where
  "example_entry = \<lparr>te_slab_block_id = SlabBlockId_new 1 0, te_value_len = 3, te_expire_at_secs = 10000, te_value_type = 0\<rparr>"

lemma example_store: "\<exists>t. store_inv example_core t \<and> sharded_map t 300 = Some example_entry"
proof -
  let ?shards = "with_total_capacity 0" and ?i = "shard_idx 300"
  have clean: "clean (?shards ! ?i)" and gap0: "gaps ?shards"
    using shard_idx_less [of 300] clean_with_capacity with_capacity_inv(3)
    by (auto simp: with_total_capacity_def gaps_def)
  obtain u where u: "insert_typed (?shards ! ?i) 300 (SlabBlockId_new 1 0) 3 10000 0 =
      Some (u, Ok (map_option te_slab_block_id (table_map (?shards ! ?i) 300)))" "clean u"
    using insert_clean [OF clean, of 300 "SlabBlockId_new 1 0" 3 10000 0] by blast
  let ?t = "?shards[?i := u]"
  have ins: "sh_insert_typed (SlabBlockId_new 1 0) 3 10000 0 ?shards 300 =
      Some (?t, Ok (map_option te_slab_block_id (table_map (?shards ! ?i) 300)))"
    using u(1) by (simp add: sh_insert_typed_def with_shard_mut_def)
  note r = sh_insert.shards.op_refines [OF with_total_capacity_inv(1) ins [unfolded sh_insert_typed_def]]
  then have m: "sharded_map ?t = [300 \<mapsto> example_entry]"
    by (simp add: spec_insert_def with_total_capacity_inv(2) example_entry_def)
  have "gaps ?t"
    using gap0 clean_gap [OF u(2)] set_update_subset_insert [of ?shards ?i u] by (auto simp: gaps_def)
  moreover have "owned example_core ?t"
    unfolding owned_def m example_core_live(2) by (auto simp: example_entry_def split: if_splits)
  ultimately have "store_inv example_core ?t" using r example_core_live(1) by (simp add: store_inv_def)
  with m show ?thesis by auto
qed

lemma example_worker:
  obtains t where "\<And>wh l. wheel_inv wh \<Longrightarrow>
      worker_inv \<lparr>wk_core = example_core, wk_table = t, wk_wheel = wh, last_tick_sec = l\<rparr>"
    "sharded_map t 300 = Some example_entry"
  using example_store by (auto simp: worker_inv_def)

lemma persist_keeps_store:
  assumes st: "store_inv s t" and p: "sh_persist now t k = Some (t', True)" and k: "sharded_map t k = Some x"
  shows "store_inv s t'" "sharded_map t' k = Some (x\<lparr>te_expire_at_secs := 0\<rparr>)"
proof -
  have inv: "sharded_inv t" "gaps t" "owned s t" using st by (simp_all add: store_inv_def)
  note r = sh_persist.shards.op_refines [OF inv(1) p [unfolded sh_persist_def]]
  have m: "sharded_map t' = (sharded_map t)(k \<mapsto> x\<lparr>te_expire_at_secs := 0\<rparr>)"
    using r k by (auto simp: spec_persist_def split: if_splits)
  then show "sharded_map t' k = Some (x\<lparr>te_expire_at_secs := 0\<rparr>)" by simp
  obtain u where u: "persist (t ! shard_idx k) k now = Some (u, True)" "t' = t[shard_idx k := u]"
    using p by (auto simp: sh_persist_def with_shard_mut_def split: option.splits)
  have "ctrl u = ctrl (t ! shard_idx k)"
    using u(1) by (auto simp: persist_def Let_def split: option.splits probe_result.splits if_splits)
  moreover have "t ! shard_idx k \<in> set t" using inv(1) shard_idx_less [of k] by (simp add: shards_inv_def)
  ultimately have "has_gap u" using inv(2) by (auto simp: gaps_def has_gap_def)
  then have "gaps t'" using inv(2) set_update_subset_insert [of t "shard_idx k" u] by (auto simp: gaps_def u(2))
  moreover have "owned s t'"
    using inv(3) k unfolding owned_def m by (auto split: if_splits)
  ultimately show "store_inv s t'" using r st by (simp add: store_inv_def)
qed

section \<open>Expiry\<close>

text \<open>\<^bold>\<open>C15.\<close> Expiry is never early for entries scheduled within the hour: under the condition \<open>on_time\<close>, that no
  wheel entry is due before its own expiry time (it holds of an empty wheel, and scheduling keeps it for
  an expiry less than 3600 seconds ahead of the wheel; longer ones break it), the once-per-second tick
  returns, keeps the worker's invariant and the condition, and every key it removes had a wheel entry for
  its very block whose expiry time has passed; all other keys keep their entries.\<close>

theorem tick_removes_only_expired:
  assumes "worker_inv w" "on_time (wk_wheel w)" "now \<noteq> last_tick_sec w" "unat now < 2 ^ 32 - 1"
    and "unat (current_tick_sec (wk_wheel w)) \<le> Suc (unat now)"
  shows "\<exists>w'. worker_tick now w = Some (w', Ok ()) \<and> worker_inv w' \<and> on_time (wk_wheel w') \<and>
    (\<forall>k x. sharded_map (wk_table w) k = Some x \<longrightarrow>
       sharded_map (wk_table w') k = Some x \<or>
       sharded_map (wk_table w') k = None \<and>
       (\<exists>d e. e \<in> set (due_at (wk_wheel w) d) \<and> ee_key_hash e = k \<and>
          ee_slab_block_id e = te_slab_block_id x \<and> ee_expire_at_sec e \<le> now))"
proof -
  obtain w' where w': "worker_tick now w = Some (w', Ok ())" "tick_effect now w w'"
    using worker_tick_spec [OF assms(1,3-5)] by blast
  have "sharded_map (wk_table w') k = Some x \<or> sharded_map (wk_table w') k = None \<and>
      (\<exists>d e. e \<in> set (due_at (wk_wheel w) d) \<and> ee_key_hash e = k \<and>
         ee_slab_block_id e = te_slab_block_id x \<and> ee_expire_at_sec e \<le> now)"
    if k: "sharded_map (wk_table w) k = Some x" for k x
  proof (cases "drained (due_list (wk_wheel w) now) k x")
    case True
    then obtain d e where e: "e \<in> set (due_at (wk_wheel w) d)" "d \<le> unat now" "ee_key_hash e = k"
      "ee_slab_block_id e = te_slab_block_id x"
      by (auto simp: drained_def due_list_iff)
    then have "ee_expire_at_sec e \<le> now"
      using assms(2) unfolding on_time_def word_le_nat_alt by (meson order_trans)
    with e True tick_removes(1) [OF w'(2) k] show ?thesis by auto
  next
    case False
    then show ?thesis using tick_removes(1) [OF w'(2) k] by simp
  qed
  moreover have "on_time (wk_wheel w')" "worker_inv w'"
    using w'(2) assms(2) by (auto simp: on_time_def tick_effect_def)
  ultimately show ?thesis using w'(1) by blast
qed

theorem tick_removes_only_expired_witness:
  "\<exists>t w1 w2. let w = \<lparr>wk_core = example_core, wk_table = t,
       wk_wheel = schedule 300 (SlabBlockId_new 1 0) 6 (HashedTimingWheel_new 4), last_tick_sec = 0\<rparr>
     in worker_tick 5 w = Some (w1, Ok ()) \<and> sharded_map (wk_table w1) 300 = Some example_entry \<and>
        worker_tick 9 w = Some (w2, Ok ()) \<and> sharded_map (wk_table w2) 300 = None \<and>
        (\<exists>d e. e \<in> set (due_at (wk_wheel w) d) \<and> ee_key_hash e = 300 \<and> ee_expire_at_sec e \<le> 9)"
proof -
  obtain t where t: "\<And>wh l. wheel_inv wh \<Longrightarrow>
      worker_inv \<lparr>wk_core = example_core, wk_table = t, wk_wheel = wh, last_tick_sec = l\<rparr>"
    "sharded_map t 300 = Some example_entry" using example_worker by blast
  have tick: "current_tick_sec (HashedTimingWheel_new 4) = 4" by (simp add: HashedTimingWheel_new_def)
  note sd = schedule_due [OF wheel_new(1) [of 4], of 300 "SlabBlockId_new 1 0" 6, unfolded tick]
  let ?wh = "schedule 300 (SlabBlockId_new 1 0) 6 (HashedTimingWheel_new 4)"
  define w where "w = \<lparr>wk_core = example_core, wk_table = t, wk_wheel = ?wh, last_tick_sec = 0\<rparr>"
  have w: "worker_inv w" "wk_table w = t" "wk_wheel w = ?wh" "last_tick_sec w = 0" using t(1) [OF sd(1)] by (simp_all add: w_def)
  have "on_time ?wh" by (rule on_time_schedule [OF wheel_new(1) on_time_new]) (simp add: tick WHEEL_BUCKETS_def)
  then have w': "on_time (wk_wheel w)" by (simp add: w(3))
  have due: "e \<in> set (due_at ?wh d) \<longleftrightarrow> d = 6 \<and> e = \<lparr>ee_key_hash = 300, ee_slab_block_id = SlabBlockId_new 1 0, ee_expire_at_sec = 6\<rparr>" for d e
    by (auto simp: sd(2) due_tick_def WHEEL_BUCKETS_def wheel_new(2))
  obtain w1 where w1: "worker_tick 5 w = Some (w1, Ok ())" "sharded_map (wk_table w1) 300 = Some example_entry"
    using tick_removes_only_expired [OF w(1) w', of 5] t(2) by (auto simp: w sd(3) due)
  obtain w2 where w2: "worker_tick 9 w = Some (w2, Ok ())" "tick_effect 9 w w2"
    using worker_tick_spec [OF w(1), of 9] by (auto simp: w sd(3))
  have "drained (due_list ?wh 9) 300 example_entry" by (rule drained_dueI [of _ _ 6 _ 6]) (simp_all add: due example_entry_def)
  with tick_removes(1) [OF w2(2), of 300 example_entry] t(2) have gone: "sharded_map (wk_table w2) 300 = None" by (simp add: w)
  have "sharded_map (wk_table w2) 300 = Some example_entry \<or> sharded_map (wk_table w2) 300 = None \<and>
      (\<exists>d e. e \<in> set (due_at (wk_wheel w) d) \<and> ee_key_hash e = 300 \<and>
         ee_slab_block_id e = te_slab_block_id example_entry \<and> ee_expire_at_sec e \<le> 9)"
    using tick_removes_only_expired [OF w(1) w', of 9] w2(1) t(2) by (simp add: w sd(3))
  then have "\<exists>d e. e \<in> set (due_at (wk_wheel w) d) \<and> ee_key_hash e = 300 \<and> ee_expire_at_sec e \<le> 9"
    using gone by auto
  with w1 w2(1) gone show ?thesis unfolding Let_def w_def by blast
qed

text \<open>\<^bold>\<open>C16.\<close> Expiry happens: a key whose entry is on the wheel, due at or before \<open>now\<close>, and whose block is
  still the scheduled one is gone after the tick, and its slot is no longer live in the pool.\<close>

theorem tick_expires_due_keys:
  assumes "worker_inv w" "now \<noteq> last_tick_sec w" "unat now < 2 ^ 32 - 1"
    and "unat (current_tick_sec (wk_wheel w)) \<le> Suc (unat now)"
    and "sharded_map (wk_table w) k = Some x" "d \<le> unat now"
    and "\<lparr>ee_key_hash = k, ee_slab_block_id = te_slab_block_id x, ee_expire_at_sec = ex\<rparr> \<in> set (due_at (wk_wheel w) d)"
  shows "\<exists>w'. worker_tick now w = Some (w', Ok ()) \<and> worker_inv w' \<and>
    sharded_map (wk_table w') k = None \<and> te_slab_block_id x \<notin> pool_live (fst (wk_core w'))"
proof -
  obtain w' where w': "worker_tick now w = Some (w', Ok ())" "tick_effect now w w'"
    using worker_tick_spec [OF assms(1-4)] by blast
  have "drained (due_list (wk_wheel w) now) k x" by (rule drained_dueI [OF assms(7,6)])
  with tick_removes [OF w'(2) assms(5)] w' show ?thesis by (auto simp: tick_effect_def)
qed

theorem tick_expires_due_keys_witness:
  "\<exists>t w'. worker_tick 9 \<lparr>wk_core = example_core, wk_table = t,
       wk_wheel = schedule 300 (SlabBlockId_new 1 0) 6 (HashedTimingWheel_new 4), last_tick_sec = 0\<rparr>
     = Some (w', Ok ()) \<and> sharded_map (wk_table w') 300 = None"
proof -
  obtain t where t: "\<And>wh l. wheel_inv wh \<Longrightarrow>
      worker_inv \<lparr>wk_core = example_core, wk_table = t, wk_wheel = wh, last_tick_sec = l\<rparr>"
    "sharded_map t 300 = Some example_entry" using example_worker by blast
  have tick: "current_tick_sec (HashedTimingWheel_new 4) = 4" by (simp add: HashedTimingWheel_new_def)
  note sd = schedule_due [OF wheel_new(1) [of 4], of 300 "SlabBlockId_new 1 0" 6, unfolded tick]
  from tick_expires_due_keys [OF t(1) [OF sd(1), of 0], of 9 300 example_entry 6 6] t(2) show ?thesis
    by (auto simp: sd(2,3) due_tick_def WHEEL_BUCKETS_def example_entry_def)
qed

text \<open>\<^bold>\<open>C39.\<close> A time to live of an hour or more ends early: such a key is put in the last bucket of the hour
  and, when that bucket is drained 3599 seconds later, the tick removes the key although its
  expiry time has not come.\<close>

theorem long_ttl_removed_early:
  assumes "worker_inv w" "sharded_map (wk_table w) k = Some x"
    and "unat (current_tick_sec (wk_wheel w)) + 3600 \<le> unat (te_expire_at_secs x)"
    and "unat now = unat (current_tick_sec (wk_wheel w)) + 3599" "now \<noteq> last_tick_sec w" "unat now < 2 ^ 32 - 1"
  shows "now < te_expire_at_secs x \<and>
    (\<exists>w'. worker_tick now (w\<lparr>wk_wheel := schedule k (te_slab_block_id x) (te_expire_at_secs x) (wk_wheel w)\<rparr>) =
        Some (w', Ok ()) \<and> sharded_map (wk_table w') k = None)"
proof -
  let ?wh = "schedule k (te_slab_block_id x) (te_expire_at_secs x) (wk_wheel w)"
  let ?w = "w\<lparr>wk_wheel := ?wh\<rparr>"
  have wi: "wheel_inv (wk_wheel w)" using assms(1) by (simp add: worker_inv_def)
  note sd = schedule_due [OF wi, of k "te_slab_block_id x" "te_expire_at_secs x"]
  have d: "due_tick (current_tick_sec (wk_wheel w)) (te_expire_at_secs x) = unat now"
    using assms(3,4) by (auto simp: due_tick_def WHEEL_BUCKETS_def word_le_nat_alt)
  have inv: "worker_inv ?w" using assms(1) sd(1) by (simp add: worker_inv_def)
  have "unat (current_tick_sec (wk_wheel ?w)) \<le> Suc (unat now)" using assms(4) by (simp add: sd(3))
  from worker_tick_spec [OF inv _ assms(6) this] assms(5)
  obtain w' where w': "worker_tick now ?w = Some (w', Ok ())" "tick_effect now ?w w'" by auto
  have "drained (due_list (wk_wheel ?w) now) k x"
    by (rule drained_dueI [of _ _ "te_expire_at_secs x" _ "unat now"]) (simp_all add: sd(2) d)
  then have "sharded_map (wk_table w') k = None"
    using tick_removes(1) [OF w'(2), of k x] assms(2) by simp
  moreover have "now < te_expire_at_secs x" using assms(3,4) by (simp add: word_less_nat_alt)
  ultimately show ?thesis using w'(1) by blast
qed

theorem long_ttl_removed_early_witness:
  "\<exists>t w'. worker_tick 3603 \<lparr>wk_core = example_core, wk_table = t,
       wk_wheel = schedule 300 (SlabBlockId_new 1 0) 10000 (HashedTimingWheel_new 4), last_tick_sec = 0\<rparr>
     = Some (w', Ok ()) \<and> sharded_map (wk_table w') 300 = None"
proof -
  obtain t where t: "\<And>wh l. wheel_inv wh \<Longrightarrow>
      worker_inv \<lparr>wk_core = example_core, wk_table = t, wk_wheel = wh, last_tick_sec = l\<rparr>"
    "sharded_map t 300 = Some example_entry" using example_worker by blast
  have tick: "current_tick_sec (HashedTimingWheel_new 4) = 4" by (simp add: HashedTimingWheel_new_def)
  from long_ttl_removed_early [OF t(1) [OF wheel_new(1) [of 4], of 0], of 300 example_entry 3603] t(2)
  show ?thesis by (auto simp: tick example_entry_def)
qed

text \<open>\<^bold>\<open>C40.\<close> \<open>PERSIST\<close> does not cancel the wheel: a key whose expiry was scheduled and which is then made
  persistent is still removed by the tick at its old expiry time.\<close>

theorem persisted_key_still_removed:
  assumes "worker_inv w" "sh_persist now0 (wk_table w) k = Some (t', True)"
    and "sharded_map (wk_table w) k = Some x"
    and "\<lparr>ee_key_hash = k, ee_slab_block_id = te_slab_block_id x, ee_expire_at_sec = ex\<rparr> \<in> set (due_at (wk_wheel w) d)"
    and "d \<le> unat now" "now \<noteq> last_tick_sec w" "unat now < 2 ^ 32 - 1"
    and "unat (current_tick_sec (wk_wheel w)) \<le> Suc (unat now)"
  shows "sharded_map t' k = Some (x\<lparr>te_expire_at_secs := 0\<rparr>) \<and>
    (\<exists>w'. worker_tick now (w\<lparr>wk_table := t'\<rparr>) = Some (w', Ok ()) \<and> sharded_map (wk_table w') k = None)"
proof -
  have st: "store_inv (wk_core w) (wk_table w)" using assms(1) by (simp add: worker_inv_def)
  note p = persist_keeps_store [OF st assms(2,3)]
  let ?w = "w\<lparr>wk_table := t'\<rparr>" and ?x = "x\<lparr>te_expire_at_secs := 0\<rparr>"
  have inv: "worker_inv ?w" using assms(1) p(1) by (simp add: worker_inv_def)
  obtain w' where w': "worker_tick now ?w = Some (w', Ok ())" "tick_effect now ?w w'"
    using worker_tick_spec [OF inv _ assms(7)] assms(6,8) by auto
  have "drained (due_list (wk_wheel ?w) now) k ?x"
    using drained_dueI [of k ?x ex "wk_wheel w" d now] assms(4,5) by simp
  then have "sharded_map (wk_table w') k = None"
    using tick_removes(1) [OF w'(2), of k ?x] p(2) by simp
  with p(2) w'(1) show ?thesis by blast
qed

theorem persisted_key_still_removed_witness:
  "\<exists>t t' w'. sh_persist 5 t 300 = Some (t', True) \<and>
     worker_tick 10000 \<lparr>wk_core = example_core, wk_table = t',
       wk_wheel = schedule 300 (SlabBlockId_new 1 0) 10000 (HashedTimingWheel_new 9000), last_tick_sec = 0\<rparr>
     = Some (w', Ok ()) \<and> sharded_map (wk_table w') 300 = None"
proof -
  obtain t where t: "\<And>wh l. wheel_inv wh \<Longrightarrow>
      worker_inv \<lparr>wk_core = example_core, wk_table = t, wk_wheel = wh, last_tick_sec = l\<rparr>"
    "sharded_map t 300 = Some example_entry" using example_worker by blast
  have tick: "current_tick_sec (HashedTimingWheel_new 9000) = 9000" by (simp add: HashedTimingWheel_new_def)
  note sd = schedule_due [OF wheel_new(1) [of 9000], of 300 "SlabBlockId_new 1 0" 10000, unfolded tick]
  have "sharded_inv t" using t(1) [OF wheel_new(1)] by (simp add: worker_inv_def store_inv_def)
  moreover have "table_ready (t ! shard_idx 300) 300" using t(2) by (simp add: table_ready_def shards_map_def)
  ultimately obtain t' where "sh_persist 5 t 300 = Some (t', snd (spec_persist 5 (sharded_map t 300)))"
    using sh_persist.shards.op_total [of t 300 5] unfolding sh_persist_def by blast
  then have p: "sh_persist 5 t 300 = Some (t', True)"
    using t(2) by (simp add: spec_persist_def example_entry_def te_expired_def)
  have "\<lparr>ee_key_hash = 300, ee_slab_block_id = SlabBlockId_new 1 0, ee_expire_at_sec = 10000\<rparr>
      \<in> set (due_at (schedule 300 (SlabBlockId_new 1 0) 10000 (HashedTimingWheel_new 9000)) 10000)"
    by (simp add: sd(2) due_tick_def WHEEL_BUCKETS_def)
  then show ?thesis
    using persisted_key_still_removed [OF t(1) [OF sd(1), of 0], of 5 300 t' example_entry 10000 10000 10000] p t(2)
    by (auto simp: sd(3) example_entry_def)
qed

end
